(* ===== verification/Prelude.thy ===== *)
theory Prelude
  imports Main "HOL-Library.Word" "HOL-Library.Monad_Syntax"
begin

text \<open>
  What every component of the development shares.

  The C code keeps its data in structs that point at each other. A pointer is an
  address (\<^typ>\<open>nat\<close>), the null pointer is address 0, and the memory that holds the
  structs of one type is a partial map from addresses to records. A statement that can
  stop the program is option valued: \<^term>\<open>None\<close> is a failed \<^verbatim>\<open>assert\<close>, a call of
  \<^verbatim>\<open>abort\<close>, an access through a null or a dangling pointer, or (for a loop that is a
  \<^verbatim>\<open>partial_function\<close>) no return at all. The error codes that the C functions return are
  ordinary values of the model. Statements are sequenced with the \<open>do\<close> notation of the
  option type, so a model function reads like the C function it models.
\<close>

type_synonym addr = nat

abbreviation (input) NULL :: addr where
  "NULL \<equiv> 0"

type_synonym u16 = "16 word"
type_synonym u32 = "32 word"
type_synonym u64 = "64 word"

named_theorems exec \<open>rules that run the statements of the models\<close>

section \<open>Assertions and stores\<close>

definition c_assert :: "bool \<Rightarrow> unit option" where
  "c_assert b = (if b then Some () else None)"

lemma c_assert_True [simp]: "c_assert True = Some ()"
  by (simp add: c_assert_def)

lemma c_assert_False [simp]: "c_assert False = None"
  by (simp add: c_assert_def)

lemma c_assert_holds [exec]: "b \<Longrightarrow> c_assert b = Some ()"
  by simp

lemma c_assert_fails: "\<not> b \<Longrightarrow> c_assert b = None"
  by simp

lemma c_assert_eq_Some [simp]: "c_assert b = Some u \<longleftrightarrow> b"
  by (simp add: c_assert_def)

lemma c_assert_eq_None [simp]: "c_assert b = None \<longleftrightarrow> \<not> b"
  by (simp add: c_assert_def)

text \<open>For runs on concrete states: what a run returns besides the new state.\<close>

lemma run_eq: "map_option snd x = Some r \<Longrightarrow> x = Some (fst (the x), r)"
  by auto

text \<open>A store to a member of the struct at address \<open>p\<close>.\<close>

definition store :: "('k \<rightharpoonup> 'v) \<Rightarrow> 'k \<Rightarrow> ('v \<Rightarrow> 'v) \<Rightarrow> ('k \<rightharpoonup> 'v) option" where
  "store h p f = (case h p of None \<Rightarrow> None | Some n \<Rightarrow> Some (h(p \<mapsto> f n)))"

lemma store_Some [simp]: "h p = Some n \<Longrightarrow> store h p f = Some (h(p \<mapsto> f n))"
  by (simp add: store_def)

lemma store_None [simp]: "h p = None \<Longrightarrow> store h p f = None"
  by (simp add: store_def)

lemma store_eq_Some:
  "store h p f = Some h' \<longleftrightarrow> (\<exists>n. h p = Some n \<and> h' = h(p \<mapsto> f n))"
  by (auto simp: store_def split: option.splits)

lemma store_dom: "store h p f = Some h' \<Longrightarrow> dom h' = dom h"
  by (auto simp: store_eq_Some split: if_splits)

section \<open>The option monad\<close>

lemma bind_cong_Some:
  "m = Some x \<Longrightarrow> Option.bind m f = f x"
  by simp

lemma bind_SomeE:
  assumes "Option.bind m f = Some y"
  obtains x where "m = Some x" and "f x = Some y"
  using assms by (cases m) auto

section \<open>Lists and maps\<close>

lemma distinct_append_disjoint:
  "distinct (xs @ ys) \<Longrightarrow> x \<in> set xs \<Longrightarrow> x \<notin> set ys"
  by auto

lemma sorted_wrt_append_Cons:
  "sorted_wrt P (xs @ x # ys) \<longleftrightarrow>
     sorted_wrt P (xs @ ys) \<and> (\<forall>y \<in> set xs. P y x) \<and> (\<forall>y \<in> set ys. P x y)"
  by (auto simp: sorted_wrt_append)

section \<open>Counters of a fixed width\<close>

text \<open>An increment below a bound and a decrement of a positive counter do not wrap.\<close>

lemma unat_inc: "(w :: 'a :: len word) < v \<Longrightarrow> unat (w + 1) = Suc (unat w)"
proof -
  assume "w < v"
  then have "unat w < unat v" by (simp add: word_less_nat_alt)
  moreover have "unat v < 2 ^ LENGTH('a)" by (rule unsigned_less)
  moreover have "unat (1 :: 'a word) = 1" by simp
  ultimately have "unat w + unat (1 :: 'a word) < 2 ^ LENGTH('a)" by linarith
  then show ?thesis using unat_add_lem [of w 1] by simp
qed

lemma inc_le: "(w :: 'a :: len word) < v \<Longrightarrow> w + 1 \<le> v"
  by (simp add: word_le_nat_alt word_less_nat_alt unat_inc)

lemma unat_dec: "(w :: 'a :: len word) \<noteq> 0 \<Longrightarrow> unat (w - 1) = unat w - 1"
  by (simp add: unat_minus_one)
end
