(* ===== verification/Rb_Heap.thy ===== *)
theory Rb_Heap
  imports Prelude
begin

text \<open>
  The red-black tree of \<^verbatim>\<open>iosplitter/common/range_lock.c\<close>: the node and root structs,
  the pointer primitives (\<^verbatim>\<open>new_node\<close>, \<^verbatim>\<open>grand_parent\<close>, \<^verbatim>\<open>uncle\<close>, the two rotations,
  \<^verbatim>\<open>rb_transplant\<close>, \<^verbatim>\<open>rb_minimum\<close>), and the abstraction of the pointer structure to a tree
  with a hole, over which every primitive is specified.
\<close>

section \<open>Data\<close>

datatype COLOR = BLACK | RED | DUMMY

text \<open>
  The members of \<^verbatim>\<open>struct rb_node\<close> that come after its comment Data. \<open>rendez\<close> is the list
  of the tasks that sleep on the node, in the order in which they called \<^verbatim>\<open>tasksleep\<close>.
\<close>

record rb_data =
  start :: u64
  iend :: u64
  refcount :: int
  rendez :: "nat list"

record rb_node =
  parent :: addr
  left :: addr
  right :: addr
  color :: COLOR
  data :: rb_data

text \<open>\<^verbatim>\<open>struct rb_root\<close> together with the memory its pointers reach.\<close>

record rb_mem =
  rnode :: addr
  rcount :: u64
  nodes :: "addr \<rightharpoonup> rb_node"

definition upd_node :: "rb_mem \<Rightarrow> addr \<Rightarrow> (rb_node \<Rightarrow> rb_node) \<Rightarrow> rb_mem option" where
  "upd_node m p f = do { h \<leftarrow> store (nodes m) p f; Some (m\<lparr>nodes := h\<rparr>) }"

section \<open>The primitives\<close>

text \<open>The interval test. Intervals may be given with their ends swapped.\<close>

definition check_overlap :: "u64 \<Rightarrow> u64 \<Rightarrow> u64 \<Rightarrow> u64 \<Rightarrow> bool" where
  "check_overlap s1 e1 s2 e2 =
     (let (s1, e1) = (if s1 > e1 then (e1, s1) else (s1, e1));
          (s2, e2) = (if s2 > e2 then (e2, s2) else (s2, e2))
      in if (s1 \<ge> s2 \<and> s1 \<le> e2) \<or> (e1 \<ge> s2 \<and> e1 \<le> e2) then True
         else if (s2 \<ge> s1 \<and> s2 \<le> e1) \<or> (e2 \<ge> s1 \<and> e2 \<le> e1) then True
         else False)"

text \<open>
  \<^verbatim>\<open>new_node\<close>; \<open>a\<close> is what \<^verbatim>\<open>malloc\<close> returned. The member \<open>refcount\<close> is not
  initialised: \<open>junk\<close> is what the allocated memory held.
\<close>

definition new_node :: "rb_mem \<Rightarrow> addr \<Rightarrow> int \<Rightarrow> rb_mem \<times> addr" where
  "new_node m a junk =
     (if a = NULL then (m, NULL)
      else (m\<lparr>nodes := (nodes m)(a \<mapsto>
              \<lparr>parent = NULL, left = NULL, right = NULL, color = RED,
               data = \<lparr>start = 0, iend = 0, refcount = junk, rendez = []\<rparr>\<rparr>)\<rparr>, a))"

definition free_node :: "rb_mem \<Rightarrow> addr \<Rightarrow> rb_mem option" where
  "free_node m p = do { n \<leftarrow> nodes m p; Some (m\<lparr>nodes := (nodes m)(p := None)\<rparr>) }"

definition grand_parent :: "rb_mem \<Rightarrow> addr \<Rightarrow> addr option" where
  "grand_parent m p =
     (if p = NULL then Some NULL
      else do {
        n \<leftarrow> nodes m p;
        if parent n = NULL then Some NULL
        else do { pn \<leftarrow> nodes m (parent n); Some (parent pn) }
      })"

definition uncle :: "rb_mem \<Rightarrow> addr \<Rightarrow> addr option" where
  "uncle m p = do {
     gp \<leftarrow> grand_parent m p;
     if gp = NULL then Some NULL
     else do {
       n \<leftarrow> nodes m p;
       g \<leftarrow> nodes m gp;
       if left g = parent n then Some (right g) else Some (left g)
     }
   }"

definition rotate_left :: "rb_mem \<Rightarrow> addr \<Rightarrow> rb_mem option" where
  "rotate_left m nd = do {
     n \<leftarrow> nodes m nd;
     let nr = right n;
     let np = parent n;
     c_assert (nr \<noteq> NULL);
     r \<leftarrow> nodes m nr;
     c_assert (parent r = nd);
     m \<leftarrow> upd_node m nd (\<lambda>n. n\<lparr>right := left r\<rparr>);
     m \<leftarrow> upd_node m nr (\<lambda>n. n\<lparr>left := nd\<rparr>);
     m \<leftarrow> (if np = NULL then do {
              c_assert (rnode m = nd);
              Some (m\<lparr>rnode := nr\<rparr>)
            } else do {
              p \<leftarrow> nodes m np;
              if left p = nd then upd_node m np (\<lambda>n. n\<lparr>left := nr\<rparr>)
              else upd_node m np (\<lambda>n. n\<lparr>right := nr\<rparr>)
            });
     m \<leftarrow> upd_node m nd (\<lambda>n. n\<lparr>parent := nr\<rparr>);
     m \<leftarrow> upd_node m nr (\<lambda>n. n\<lparr>parent := np\<rparr>);
     n \<leftarrow> nodes m nd;
     if right n \<noteq> NULL then upd_node m (right n) (\<lambda>n. n\<lparr>parent := nd\<rparr>)
     else Some m
   }"

definition rotate_right :: "rb_mem \<Rightarrow> addr \<Rightarrow> rb_mem option" where
  "rotate_right m nd = do {
     n \<leftarrow> nodes m nd;
     let nl = left n;
     let np = parent n;
     c_assert (nl \<noteq> NULL);
     l \<leftarrow> nodes m nl;
     c_assert (parent l = nd);
     m \<leftarrow> upd_node m nd (\<lambda>n. n\<lparr>left := right l\<rparr>);
     m \<leftarrow> upd_node m nl (\<lambda>n. n\<lparr>right := nd\<rparr>);
     m \<leftarrow> (if np = NULL then do {
              c_assert (rnode m = nd);
              Some (m\<lparr>rnode := nl\<rparr>)
            } else do {
              p \<leftarrow> nodes m np;
              if left p = nd then upd_node m np (\<lambda>n. n\<lparr>left := nl\<rparr>)
              else upd_node m np (\<lambda>n. n\<lparr>right := nl\<rparr>)
            });
     m \<leftarrow> upd_node m nd (\<lambda>n. n\<lparr>parent := nl\<rparr>);
     m \<leftarrow> upd_node m nl (\<lambda>n. n\<lparr>parent := np\<rparr>);
     n \<leftarrow> nodes m nd;
     if left n \<noteq> NULL then upd_node m (left n) (\<lambda>n. n\<lparr>parent := nd\<rparr>)
     else Some m
   }"

definition rb_transplant :: "rb_mem \<Rightarrow> addr \<Rightarrow> addr \<Rightarrow> rb_mem option" where
  "rb_transplant m u v = do {
     c_assert (u \<noteq> NULL);
     un \<leftarrow> nodes m u;
     m \<leftarrow> (if parent un = NULL then do {
              c_assert (rnode m = u);
              Some (m\<lparr>rnode := v\<rparr>)
            } else do {
              p \<leftarrow> nodes m (parent un);
              if u = left p then upd_node m (parent un) (\<lambda>n. n\<lparr>left := v\<rparr>)
              else upd_node m (parent un) (\<lambda>n. n\<lparr>right := v\<rparr>)
            });
     if v \<noteq> NULL then do {
       un \<leftarrow> nodes m u;
       upd_node m v (\<lambda>n. n\<lparr>parent := parent un\<rparr>)
     } else Some m
   }"

partial_function (option) rb_leftmost :: "rb_mem \<Rightarrow> addr \<Rightarrow> addr option" where
  "rb_leftmost m p = do {
     n \<leftarrow> nodes m p;
     if left n \<noteq> NULL then rb_leftmost m (left n) else Some p
   }"

declare rb_leftmost.simps [code]

definition rb_minimum :: "rb_mem \<Rightarrow> addr \<Rightarrow> addr option" where
  "rb_minimum m p =
     (if rnode m = NULL \<or> p = NULL then Some NULL else rb_leftmost m p)"

end
