(* ===== verification/Rb_Tree.thy ===== *)
theory Rb_Tree
  imports Rb_Heap
begin

text \<open>
  The abstract counterpart of the pointer tree of \<^verbatim>\<open>range_lock.c\<close>: trees whose nodes
  carry their address and their data, trees with a hole (the path from a node up to the root,
  as \<^verbatim>\<open>parent\<close> pointers give it), the red-black rules stated in the header comment of the
  file, and the order of the intervals.
\<close>

section \<open>Trees and trees with a hole\<close>

datatype tree =
  Leaf
| Node (tleft: tree) (taddr: addr) (tcolor: COLOR) (tdata: rb_data) (tright: tree)

fun ptr_of :: "tree \<Rightarrow> addr" where
  "ptr_of Leaf = NULL"
| "ptr_of (Node l a c d r) = a"

fun addrs :: "tree \<Rightarrow> addr list" where
  "addrs Leaf = []"
| "addrs (Node l a c d r) = addrs l @ a # addrs r"

text \<open>
  \<open>CL a c d r\<close>: the hole is the left child of node \<open>a\<close>, whose right subtree is \<open>r\<close>;
  \<open>CR l a c d\<close> is the mirror image. The innermost step comes first.
\<close>

datatype cstep =
  CL (caddr: addr) (ccolor: COLOR) (cdata: rb_data) (csib: tree)
| CR (csib: tree) (caddr: addr) (ccolor: COLOR) (cdata: rb_data)

type_synonym ctx = "cstep list"

fun plug :: "ctx \<Rightarrow> tree \<Rightarrow> tree" where
  "plug [] t = t"
| "plug (CL a c d r # C) t = plug C (Node t a c d r)"
| "plug (CR l a c d # C) t = plug C (Node l a c d t)"

fun ctx_parent :: "ctx \<Rightarrow> addr" where
  "ctx_parent [] = NULL"
| "ctx_parent (s # C) = caddr s"

fun caddrs :: "ctx \<Rightarrow> addr list" where
  "caddrs [] = []"
| "caddrs (s # C) = caddr s # addrs (csib s) @ caddrs C"

lemma plug_append: "plug (C @ D) t = plug D (plug C t)"
  by (induction C t rule: plug.induct) auto

lemma set_addrs_plug [simp]: "set (addrs (plug C t)) = set (addrs t) \<union> set (caddrs C)"
  by (induction C t rule: plug.induct) auto

lemma distinct_plug [simp]:
  "distinct (addrs (plug C t)) \<longleftrightarrow>
     distinct (addrs t) \<and> distinct (caddrs C) \<and> set (addrs t) \<inter> set (caddrs C) = {}"
  by (induction C t rule: plug.induct) auto

lemma ctx_parent_in: "C \<noteq> [] \<Longrightarrow> ctx_parent C \<in> set (caddrs C)"
  by (cases C) auto

section \<open>The red-black rules\<close>

fun is_black :: "tree \<Rightarrow> bool" where
  "is_black Leaf = True"
| "is_black (Node l a c d r) = (c = BLACK)"

fun is_red :: "tree \<Rightarrow> bool" where
  "is_red Leaf = False"
| "is_red (Node l a c d r) = (c = RED)"

fun paint :: "COLOR \<Rightarrow> tree \<Rightarrow> tree" where
  "paint c Leaf = Leaf"
| "paint c (Node l a _ d r) = Node l a c d r"

text \<open>
  \<open>ok t n\<close>: rules 1, 4 and 5 of the header comment for the subtree \<open>t\<close>, with \<open>n\<close> black
  nodes on every path from its root down to a leaf.
\<close>

fun ok :: "tree \<Rightarrow> nat \<Rightarrow> bool" where
  "ok Leaf n = (n = 0)"
| "ok (Node l a c d r) n =
     (case c of
        BLACK \<Rightarrow> 0 < n \<and> ok l (n - 1) \<and> ok r (n - 1)
      | RED \<Rightarrow> ok l n \<and> ok r n \<and> is_black l \<and> is_black r
      | DUMMY \<Rightarrow> False)"

text \<open>Rule 2 is the colour of the root.\<close>

definition rb :: "tree \<Rightarrow> bool" where
  "rb t \<longleftrightarrow> is_black t \<and> (\<exists>n. ok t n)"

text \<open>
  What a path must satisfy so that a subtree with \<open>n\<close> black nodes on every path fits its
  hole. A hole below a red node, and the hole at the root, only take a black subtree.
\<close>

fun black_hole :: "ctx \<Rightarrow> bool" where
  "black_hole [] = True"
| "black_hole (s # C) = (ccolor s = RED)"

fun cok :: "ctx \<Rightarrow> nat \<Rightarrow> bool" where
  "cok [] n = True"
| "cok (s # C) n =
     (ok (csib s) n \<and>
      (case ccolor s of
         BLACK \<Rightarrow> cok C (Suc n)
       | RED \<Rightarrow> is_black (csib s) \<and> \<not> black_hole C \<and> cok C n
       | DUMMY \<Rightarrow> False))"

lemma ok_unique: "ok t n \<Longrightarrow> ok t k \<Longrightarrow> n = k"
proof (induction t arbitrary: n k)
  case (Node l a c d r)
  show ?case
  proof (cases c)
    case BLACK
    with Node.prems have "ok l (n - 1)" "ok l (k - 1)" "0 < n" "0 < k" by auto
    with Node.IH(1) have "n - 1 = k - 1" by blast
    with \<open>0 < n\<close> \<open>0 < k\<close> show ?thesis by simp
  next
    case RED
    with Node.prems Node.IH(1) show ?thesis by auto
  next
    case DUMMY
    with Node.prems show ?thesis by simp
  qed
qed simp

lemma ok_no_dummy: "ok t n \<Longrightarrow> is_black t \<or> is_red t"
  by (cases t) (auto split: COLOR.splits)

lemma is_red_not_black: "is_red t \<Longrightarrow> \<not> is_black t"
  by (cases t) auto

lemma rb_plug:
  "is_black (plug C t) \<and> (\<exists>k. ok (plug C t) k) \<longleftrightarrow>
     (\<exists>n. cok C n \<and> ok t n \<and> (black_hole C \<longrightarrow> is_black t))"
proof (induction C t rule: plug.induct)
  case (1 t)
  then show ?case by auto
next
  case (2 a c d r C t)
  have "(\<exists>n. cok C n \<and> ok (Node t a c d r) n \<and> (black_hole C \<longrightarrow> is_black (Node t a c d r)))
     \<longleftrightarrow> (\<exists>n. cok (CL a c d r # C) n \<and> ok t n \<and> (black_hole (CL a c d r # C) \<longrightarrow> is_black t))"
    (is "?L = ?R")
  proof
    assume ?L
    then obtain n where n: "cok C n" "ok (Node t a c d r) n" "black_hole C \<longrightarrow> c = BLACK" by auto
    show ?R
    proof (cases c)
      case BLACK
      with n show ?thesis by (auto intro!: exI [of _ "n - 1"])
    qed (use n in auto)
  next
    assume ?R
    then obtain n where n: "cok (CL a c d r # C) n" "ok t n" "c = RED \<longrightarrow> is_black t" by auto
    show ?L
    proof (cases c)
      case BLACK
      with n show ?thesis by (auto intro!: exI [of _ "Suc n"])
    qed (use n in auto)
  qed
  with 2 show ?case by simp
next
  case (3 l a c d C t)
  have "(\<exists>n. cok C n \<and> ok (Node l a c d t) n \<and> (black_hole C \<longrightarrow> is_black (Node l a c d t)))
     \<longleftrightarrow> (\<exists>n. cok (CR l a c d # C) n \<and> ok t n \<and> (black_hole (CR l a c d # C) \<longrightarrow> is_black t))"
    (is "?L = ?R")
  proof
    assume ?L
    then obtain n where n: "cok C n" "ok (Node l a c d t) n" "black_hole C \<longrightarrow> c = BLACK" by auto
    show ?R
    proof (cases c)
      case BLACK
      with n show ?thesis by (auto intro!: exI [of _ "n - 1"])
    qed (use n in auto)
  next
    assume ?R
    then obtain n where n: "cok (CR l a c d # C) n" "ok t n" "c = RED \<longrightarrow> is_black t" by auto
    show ?L
    proof (cases c)
      case BLACK
      with n show ?thesis by (auto intro!: exI [of _ "Suc n"])
    qed (use n in auto)
  qed
  with 3 show ?case by simp
qed

lemma rb_plug_iff:
  "rb (plug C t) \<longleftrightarrow> (\<exists>n. cok C n \<and> ok t n \<and> (black_hole C \<longrightarrow> is_black t))"
  by (simp add: rb_def rb_plug)

lemma rb_plugI: "cok C n \<Longrightarrow> ok t n \<Longrightarrow> (black_hole C \<Longrightarrow> is_black t) \<Longrightarrow> rb (plug C t)"
  by (auto simp: rb_plug_iff)

lemma rb_plugE:
  assumes "rb (plug C t)"
  obtains n where "cok C n" and "ok t n" and "black_hole C \<Longrightarrow> is_black t"
  using assms by (auto simp: rb_plug_iff)

section \<open>The order of the intervals\<close>

text \<open>The nodes from left to right, each with its address and its data.\<close>

fun inorder :: "tree \<Rightarrow> (addr \<times> rb_data) list" where
  "inorder Leaf = []"
| "inorder (Node l a c d r) = inorder l @ (a, d) # inorder r"

fun clow :: "ctx \<Rightarrow> (addr \<times> rb_data) list" where
  "clow [] = []"
| "clow (CL a c d r # C) = clow C"
| "clow (CR l a c d # C) = clow C @ inorder l @ [(a, d)]"

fun chigh :: "ctx \<Rightarrow> (addr \<times> rb_data) list" where
  "chigh [] = []"
| "chigh (CL a c d r # C) = (a, d) # inorder r @ chigh C"
| "chigh (CR l a c d # C) = chigh C"

lemma inorder_plug [simp]: "inorder (plug C t) = clow C @ inorder t @ chigh C"
  by (induction C t rule: plug.induct) auto

lemma inorder_paint [simp]: "inorder (paint c t) = inorder t"
  by (cases t) auto

lemma map_fst_inorder: "map fst (inorder t) = addrs t"
  by (induction t) auto

lemma set_addrs_inorder: "set (addrs t) = fst ` set (inorder t)"
  by (simp flip: map_fst_inorder)

text \<open>
  Every stored interval has its ends in order, and the intervals increase from left to right
  without touching each other.
\<close>

definition before :: "rb_data \<Rightarrow> rb_data \<Rightarrow> bool" where
  "before d d' \<longleftrightarrow> iend d < start d'"

definition ivls_ok :: "(addr \<times> rb_data) list \<Rightarrow> bool" where
  "ivls_ok xs \<longleftrightarrow>
     sorted_wrt before (map snd xs) \<and> (\<forall>d \<in> snd ` set xs. start d \<le> iend d)"

lemma before_trans:
  "before a b \<Longrightarrow> start b \<le> iend b \<Longrightarrow> before b c \<Longrightarrow> before a c"
  by (auto simp: before_def)

lemma ivls_ok_Nil [simp]: "ivls_ok []"
  by (simp add: ivls_ok_def)

lemma ivls_ok_append:
  "ivls_ok (xs @ ys) \<longleftrightarrow>
     ivls_ok xs \<and> ivls_ok ys \<and> (\<forall>x \<in> set xs. \<forall>y \<in> set ys. before (snd x) (snd y))"
  by (auto simp: ivls_ok_def sorted_wrt_append)

lemma ivls_ok_Cons:
  "ivls_ok (x # xs) \<longleftrightarrow>
     start (snd x) \<le> iend (snd x) \<and> ivls_ok xs \<and> (\<forall>y \<in> set xs. before (snd x) (snd y))"
  by (auto simp: ivls_ok_def)

lemma check_overlap_ordered:
  "s1 \<le> e1 \<Longrightarrow> s2 \<le> e2 \<Longrightarrow> check_overlap s1 e1 s2 e2 \<longleftrightarrow> s1 \<le> e2 \<and> s2 \<le> e1"
  by (auto simp: check_overlap_def Let_def)

end
