(* ===== verification/Rb_Balance.thy ===== *)
theory Rb_Balance
  imports Rb_Tree
begin

text \<open>
  What the two repair loops of \<^verbatim>\<open>range_lock.c\<close> compute, on trees with a hole:
  \<open>ins_fix\<close> for \<^verbatim>\<open>rb_insert_fixup\<close> and \<open>del_fix\<close> for \<^verbatim>\<open>rb_delete_fixup\<close>. These are the
  abstract specifications that the pointer loops are shown to implement; here they are shown
  to restore the red-black rules and to keep the order of the nodes.
\<close>

section \<open>Repair after an insertion\<close>

text \<open>\<open>ins_fix C z\<close>: \<open>z\<close> is the (red) subtree in the hole of \<open>C\<close> that may violate rule 4.\<close>

fun ins_fix :: "ctx \<Rightarrow> tree \<Rightarrow> tree" where
  "ins_fix [] z = z"
| "ins_fix [s] z = plug [s] z"
| "ins_fix (CL pa pc pd pr # CL ga gc gd u # C) z =
     (if pc = RED \<and> is_red z then
        if is_red u then ins_fix C (Node (Node z pa BLACK pd pr) ga RED gd (paint BLACK u))
        else plug C (Node z pa BLACK pd (Node pr ga RED gd u))
      else plug (CL pa pc pd pr # CL ga gc gd u # C) z)"
| "ins_fix (CR pl pa pc pd # CL ga gc gd u # C) z =
     (if pc = RED \<and> is_red z then
        if is_red u then ins_fix C (Node (Node pl pa BLACK pd z) ga RED gd (paint BLACK u))
        else (case z of Leaf \<Rightarrow> Leaf
              | Node zl za zc zd zr \<Rightarrow>
                  plug C (Node (Node pl pa RED pd zl) za BLACK zd (Node zr ga RED gd u)))
      else plug (CR pl pa pc pd # CL ga gc gd u # C) z)"
| "ins_fix (CR pl pa pc pd # CR u ga gc gd # C) z =
     (if pc = RED \<and> is_red z then
        if is_red u then ins_fix C (Node (paint BLACK u) ga RED gd (Node pl pa BLACK pd z))
        else plug C (Node (Node u ga RED gd pl) pa BLACK pd z)
      else plug (CR pl pa pc pd # CR u ga gc gd # C) z)"
| "ins_fix (CL pa pc pd pr # CR u ga gc gd # C) z =
     (if pc = RED \<and> is_red z then
        if is_red u then ins_fix C (Node (paint BLACK u) ga RED gd (Node z pa BLACK pd pr))
        else (case z of Leaf \<Rightarrow> Leaf
              | Node zl za zc zd zr \<Rightarrow>
                  plug C (Node (Node u ga RED gd zl) za BLACK zd (Node zr pa RED pd pr)))
      else plug (CL pa pc pd pr # CR u ga gc gd # C) z)"

lemma inorder_ins_fix [simp]: "inorder (ins_fix C z) = clow C @ inorder z @ chigh C"
proof (induction C z rule: ins_fix.induct)
  case (2 s z)
  then show ?case by (cases s) auto
qed (auto split: tree.splits)

lemma ok_paint_BLACK: "ok t n \<Longrightarrow> is_red t \<Longrightarrow> ok (paint BLACK t) (Suc n)"
  by (cases t) auto

lemma is_black_paint [simp]: "is_black (paint BLACK t)"
  by (cases t) auto

lemma paint_black_id [simp]: "is_black t \<Longrightarrow> paint BLACK t = t"
  by (cases t) auto

lemma ok_paint_root: "ok t n \<Longrightarrow> \<exists>k. ok (paint BLACK t) k"
  using ok_no_dummy [of t n] ok_paint_BLACK [of t n] by auto

lemma rb_paintI: "rb t \<Longrightarrow> rb (paint BLACK t)"
  by (auto simp: rb_def)

lemma not_red_black: "ok t n \<Longrightarrow> \<not> is_red t \<Longrightarrow> is_black t"
  using ok_no_dummy by blast

text \<open>Without two reds in a row nothing is left to repair.\<close>

lemma rb_hole:
  "cok C n \<Longrightarrow> ok z n \<Longrightarrow> (black_hole C \<Longrightarrow> is_black z) \<Longrightarrow> rb (paint BLACK (plug C z))"
  by (intro rb_paintI rb_plugI)

lemma rb_no_violation:
  "cok (s # C) n \<Longrightarrow> ok z n \<Longrightarrow> \<not> (ccolor s = RED \<and> is_red z) \<Longrightarrow>
     rb (paint BLACK (plug (s # C) z))"
  by (rule rb_hole [of _ n]) (auto simp: not_red_black)

text \<open>A red parent has a black grandparent; all subtrees that hang off the path are as high.\<close>

lemma cok_red_parent:
  assumes "cok (s # s' # C) n" and "ccolor s = RED"
  shows "ccolor s' = BLACK" "ok (csib s) n" "is_black (csib s)" "ok (csib s') n" "cok C (Suc n)"
  using assms by (auto split: COLOR.splits)

lemma rb_ins_fix:
  "cok C n \<Longrightarrow> ok z n \<Longrightarrow> rb (paint BLACK (ins_fix C z))"
proof (induction C z arbitrary: n rule: ins_fix.induct)
  case (1 z)
  then show ?case using ok_paint_root by (auto simp: rb_def)
next
  case (2 s z)
  then show ?case by (auto intro!: rb_hole [of _ n] split: COLOR.splits simp del: plug.simps)
next
  case (3 pa pc pd pr ga gc gd u C z)
  show ?case
  proof (cases "pc = RED \<and> is_red z")
    case True
    with 3 cok_red_parent [OF 3(2)] show ?thesis
      by (auto simp: ok_paint_BLACK not_red_black intro!: rb_hole [of _ "Suc n"])
  qed (use 3 rb_no_violation [OF 3(2,3)] in auto)
next
  case (4 pl pa pc pd ga gc gd u C z)
  show ?case
  proof (cases "pc = RED \<and> is_red z")
    case True
    with 4 cok_red_parent [OF 4(2)] show ?thesis
      by (cases z) (auto simp: ok_paint_BLACK not_red_black intro!: rb_hole [of _ "Suc n"])
  qed (use 4 rb_no_violation [OF 4(2,3)] in auto)
next
  case (5 pl pa pc pd u ga gc gd C z)
  show ?case
  proof (cases "pc = RED \<and> is_red z")
    case True
    with 5 cok_red_parent [OF 5(2)] show ?thesis
      by (auto simp: ok_paint_BLACK not_red_black intro!: rb_hole [of _ "Suc n"])
  qed (use 5 rb_no_violation [OF 5(2,3)] in auto)
next
  case (6 pa pc pd pr u ga gc gd C z)
  show ?case
  proof (cases "pc = RED \<and> is_red z")
    case True
    with 6 cok_red_parent [OF 6(2)] show ?thesis
      by (cases z) (auto simp: ok_paint_BLACK not_red_black intro!: rb_hole [of _ "Suc n"])
  qed (use 6 rb_no_violation [OF 6(2,3)] in auto)
qed

section \<open>Repair after a deletion\<close>

text \<open>
  \<open>left_case\<close>: the double black subtree \<open>x\<close> is the left child of \<open>pa\<close> and its sibling is not
  red. Either the defect moves up (\<open>Inl\<close>) or the tree is repaired (\<open>Inr\<close>). \<open>right_case\<close> is
  the mirror image.
\<close>

fun left_case :: "tree \<Rightarrow> addr \<Rightarrow> COLOR \<Rightarrow> rb_data \<Rightarrow> tree \<Rightarrow> ctx \<Rightarrow> ctx \<times> tree + tree" where
  "left_case x pa pc pd Leaf C = Inr Leaf"
| "left_case x pa pc pd (Node wl wa wc wd wr) C =
     (if is_black wl \<and> is_black wr then Inl (C, Node x pa pc pd (Node wl wa RED wd wr))
      else if is_black wr then
        (case wl of Leaf \<Rightarrow> Inr Leaf
         | Node a1 na nc nd b1 \<Rightarrow>
             Inr (plug C (Node (Node x pa BLACK pd a1) na pc nd (Node b1 wa BLACK wd wr))))
      else Inr (plug C (Node (Node x pa BLACK pd wl) wa pc wd (paint BLACK wr))))"

fun right_case :: "tree \<Rightarrow> addr \<Rightarrow> COLOR \<Rightarrow> rb_data \<Rightarrow> tree \<Rightarrow> ctx \<Rightarrow> ctx \<times> tree + tree" where
  "right_case x pa pc pd Leaf C = Inr Leaf"
| "right_case x pa pc pd (Node wl wa wc wd wr) C =
     (if is_black wl \<and> is_black wr then Inl (C, Node (Node wl wa RED wd wr) pa pc pd x)
      else if is_black wl then
        (case wr of Leaf \<Rightarrow> Inr Leaf
         | Node a1 na nc nd b1 \<Rightarrow>
             Inr (plug C (Node (Node wl wa BLACK wd a1) na pc nd (Node b1 pa BLACK pd x))))
      else Inr (plug C (Node (paint BLACK wl) wa pc wd (Node wr pa BLACK pd x))))"

text \<open>A red sibling is first rotated away.\<close>

fun del_case :: "cstep \<Rightarrow> ctx \<Rightarrow> tree \<Rightarrow> ctx \<times> tree + tree" where
  "del_case (CL pa pc pd w) C x =
     (case w of
        Node wl wa RED wd wr \<Rightarrow> left_case x pa RED pd wl (CL wa BLACK wd wr # C)
      | _ \<Rightarrow> left_case x pa pc pd w C)"
| "del_case (CR w pa pc pd) C x =
     (case w of
        Node wl wa RED wd wr \<Rightarrow> right_case x pa RED pd wr (CR wl wa BLACK wd # C)
      | _ \<Rightarrow> right_case x pa pc pd w C)"

lemma left_case_Inl:
  "left_case x pa pc pd w C = Inl (C', x') \<Longrightarrow>
     C' = C \<and> (\<exists>t. x' = Node x pa pc pd t)"
  by (cases w) (auto split: if_splits tree.splits)

lemma right_case_Inl:
  "right_case x pa pc pd w C = Inl (C', x') \<Longrightarrow>
     C' = C \<and> (\<exists>t. x' = Node t pa pc pd x)"
  by (cases w) (auto split: if_splits tree.splits)

lemma del_case_Inl:
  assumes "del_case s C x = Inl (C', x')"
  shows "is_red x' \<or> length C' \<le> length C"
proof (cases s)
  case (CL pa pc pd w)
  with assms show ?thesis
    by (simp del: left_case.simps split: tree.splits COLOR.splits) (auto simp del: left_case.simps dest!: left_case_Inl)
next
  case (CR w pa pc pd)
  with assms show ?thesis
    by (simp del: right_case.simps split: tree.splits COLOR.splits) (auto simp del: right_case.simps dest!: right_case_Inl)
qed

function del_fix :: "ctx \<Rightarrow> tree \<Rightarrow> tree" where
  "del_fix [] x = paint BLACK x"
| "del_fix (s # C) x =
     (if is_red x then plug (s # C) (paint BLACK x)
      else case del_case s C x of
             Inl (C', x') \<Rightarrow> del_fix C' x'
           | Inr t \<Rightarrow> t)"
  by pat_completeness auto
termination
  by (relation "measure (\<lambda>(C, x). if is_red x then 0 else Suc (length C))")
    (auto dest: del_case_Inl)

text \<open>The order of the nodes is untouched where the sibling exists (rule 5 provides it).\<close>

fun seq_of :: "ctx \<times> tree + tree \<Rightarrow> (addr \<times> rb_data) list" where
  "seq_of (Inl (C, x)) = clow C @ inorder x @ chigh C"
| "seq_of (Inr t) = inorder t"

lemma seq_left_case:
  "w \<noteq> Leaf \<Longrightarrow>
     seq_of (left_case x pa pc pd w C) = clow C @ inorder x @ (pa, pd) # inorder w @ chigh C"
  by (cases w) (auto split: tree.splits)

lemma seq_right_case:
  "w \<noteq> Leaf \<Longrightarrow>
     seq_of (right_case x pa pc pd w C) = clow C @ inorder w @ (pa, pd) # inorder x @ chigh C"
  by (cases w) (auto split: tree.splits)

text \<open>
  The invariant of the loop: the hole needs one black node more than \<open>x\<close> has on its paths,
  and painting a red \<open>x\<close> black would supply it.
\<close>

definition short :: "ctx \<Rightarrow> tree \<Rightarrow> nat \<Rightarrow> bool" where
  "short C x n \<longleftrightarrow> cok C (Suc n) \<and> (if is_red x then ok (paint BLACK x) (Suc n) else ok x n)"

lemma shortI: "cok C (Suc n) \<Longrightarrow> ok x n \<Longrightarrow> short C x n"
  by (auto simp: short_def ok_paint_BLACK)

lemma rb_rebuilt:
  assumes "ok l (Suc n)" and "is_black l" and "ok r (Suc n)" and "is_black r"
    and "pc = BLACK \<and> cok C (Suc (Suc n)) \<or> pc = RED \<and> cok C (Suc n) \<and> \<not> black_hole C"
  shows "rb (plug C (Node l a pc d r))"
  using assms
  by (intro rb_plugI [of _ "if pc = BLACK then Suc (Suc n) else Suc n"]) auto

lemma left_case_ok:
  assumes "ok w (Suc n)" and "is_black w" and "ok x n" and "is_black x"
    and "pc = BLACK \<and> cok C (Suc (Suc n)) \<or> pc = RED \<and> cok C (Suc n) \<and> \<not> black_hole C"
  shows "case left_case x pa pc pd w C of Inl (C', x') \<Rightarrow> \<exists>k. short C' x' k | Inr t \<Rightarrow> rb t"
proof -
  obtain wl wa wd wr where w: "w = Node wl wa BLACK wd wr" "ok wl n" "ok wr n"
    using assms(1,2) by (cases w) auto
  show ?thesis
  proof (cases "is_black wl \<and> is_black wr")
    case True
    with w assms
    have "short C (Node x pa pc pd (Node wl wa RED wd wr)) (if pc = BLACK then Suc n else n)"
      by (auto simp: short_def)
    with True w show ?thesis by auto
  next
    case False
    then have "is_red wl \<or> is_red wr" using w ok_no_dummy by blast
    show ?thesis
    proof (cases "is_red wr")
      case True
      with w assms show ?thesis
        by (auto simp: is_red_not_black ok_paint_BLACK intro!: rb_rebuilt [where n = n])
    next
      case nr: False
      with \<open>is_red wl \<or> is_red wr\<close> obtain a1 na nd b1 where wl: "wl = Node a1 na RED nd b1"
        by (cases wl) auto
      from nr w have "is_black wr" by (blast intro: not_red_black)
      with w wl assms show ?thesis by (auto intro!: rb_rebuilt [where n = n])
    qed
  qed
qed

lemma right_case_ok:
  assumes "ok w (Suc n)" and "is_black w" and "ok x n" and "is_black x"
    and "pc = BLACK \<and> cok C (Suc (Suc n)) \<or> pc = RED \<and> cok C (Suc n) \<and> \<not> black_hole C"
  shows "case right_case x pa pc pd w C of Inl (C', x') \<Rightarrow> \<exists>k. short C' x' k | Inr t \<Rightarrow> rb t"
proof -
  obtain wl wa wd wr where w: "w = Node wl wa BLACK wd wr" "ok wl n" "ok wr n"
    using assms(1,2) by (cases w) auto
  show ?thesis
  proof (cases "is_black wl \<and> is_black wr")
    case True
    with w assms
    have "short C (Node (Node wl wa RED wd wr) pa pc pd x) (if pc = BLACK then Suc n else n)"
      by (auto simp: short_def)
    with True w show ?thesis by auto
  next
    case False
    then have "is_red wl \<or> is_red wr" using w ok_no_dummy by blast
    show ?thesis
    proof (cases "is_red wl")
      case True
      with w assms show ?thesis
        by (auto simp: is_red_not_black ok_paint_BLACK intro!: rb_rebuilt [where n = n])
    next
      case nl: False
      with \<open>is_red wl \<or> is_red wr\<close> obtain a1 na nd b1 where wr: "wr = Node a1 na RED nd b1"
        by (cases wr) auto
      from nl w have "is_black wl" by (blast intro: not_red_black)
      with w wr assms show ?thesis by (auto intro!: rb_rebuilt [where n = n])
    qed
  qed
qed

text \<open>The sibling of a subtree that is one black node short is never \<^term>\<open>Leaf\<close>.\<close>

lemma short_sibling: "short (s # C) x n \<Longrightarrow> csib s \<noteq> Leaf \<and> ok (csib s) (Suc n)"
  by (auto simp: short_def)

lemma del_case_CL:
  "del_case (CL pa pc pd w) C x =
     (if is_red w
      then left_case x pa RED pd (tleft w) (CL (taddr w) BLACK (tdata w) (tright w) # C)
      else left_case x pa pc pd w C)"
  by (cases w) (auto simp del: left_case.simps split: COLOR.splits)

lemma del_case_CR:
  "del_case (CR w pa pc pd) C x =
     (if is_red w
      then right_case x pa RED pd (tright w) (CR (tleft w) (taddr w) BLACK (tdata w) # C)
      else right_case x pa pc pd w C)"
  by (cases w) (auto simp del: right_case.simps split: COLOR.splits)

lemma ok_red_node:
  "ok w n \<Longrightarrow> is_red w \<Longrightarrow> ok (tleft w) n \<and> is_black (tleft w) \<and> ok (tright w) n \<and> is_black (tright w)"
  by (cases w) auto

lemma del_case_ok:
  assumes "short (s # C) x n" and "\<not> is_red x"
  shows "case del_case s C x of Inl (C', x') \<Rightarrow> \<exists>k. short C' x' k | Inr t \<Rightarrow> rb t"
proof -
  from assms have x: "ok x n" "is_black x" by (auto simp: short_def not_red_black)
  from assms have s: "ok (csib s) (Suc n)"
    and C: "ccolor s = BLACK \<and> cok C (Suc (Suc n)) \<or>
            ccolor s = RED \<and> cok C (Suc n) \<and> \<not> black_hole C"
    and r: "ccolor s = RED \<Longrightarrow> is_black (csib s)"
    by (auto simp: short_def split: COLOR.splits)
  show ?thesis
  proof (cases "is_red (csib s)")
    case False
    with s have w: "is_black (csib s)" by (rule not_red_black)
    with False left_case_ok [OF s w x] right_case_ok [OF s w x] C show ?thesis
      by (cases s) (auto simp: del_case_CL del_case_CR simp del: del_case.simps)
  next
    case True
    with r C have "ccolor s = BLACK" "cok C (Suc (Suc n))" by (auto dest: is_red_not_black)
    with True ok_red_node [OF s True] left_case_ok [OF _ _ x] right_case_ok [OF _ _ x] show ?thesis
      by (cases s) (simp_all add: del_case_CL del_case_CR del: del_case.simps)
  qed
qed

lemma seq_del_case:
  assumes "short (s # C) x n"
  shows "seq_of (del_case s C x) = clow (s # C) @ inorder x @ chigh (s # C)"
proof -
  from short_sibling [OF assms] have w: "csib s \<noteq> Leaf" "ok (csib s) (Suc n)" by auto
  show ?thesis
  proof (cases "is_red (csib s)")
    case False
    with w show ?thesis
      by (cases s) (simp_all add: del_case_CL del_case_CR seq_left_case seq_right_case del: del_case.simps)
  next
    case True
    then obtain wl wa wd wr where n: "csib s = Node wl wa RED wd wr" by (cases "csib s") auto
    with w have "wl \<noteq> Leaf" "wr \<noteq> Leaf" by auto
    with n show ?thesis
      by (cases s) (simp_all add: del_case_CL del_case_CR seq_left_case seq_right_case del: del_case.simps)
  qed
qed

lemma rb_del_fix: "short C x n \<Longrightarrow> rb (paint BLACK (del_fix C x))"
proof (induction C x arbitrary: n rule: del_fix.induct)
  case (1 x)
  then show ?case using ok_paint_root by (auto simp: short_def rb_def split: if_splits)
next
  case (2 s C x)
  show ?case
  proof (cases "is_red x")
    case True
    with 2(2) have "rb (paint BLACK (plug (s # C) (paint BLACK x)))"
      by (intro rb_hole [of _ "Suc n"]) (auto simp: short_def simp del: cok.simps)
    with True show ?thesis by simp
  next
    case False
    with 2 del_case_ok [OF 2(2) False] show ?thesis
      by (auto simp del: del_case.simps split: sum.splits prod.splits intro: rb_paintI)
  qed
qed

lemma inorder_del_fix:
  "short C x n \<Longrightarrow> inorder (del_fix C x) = clow C @ inorder x @ chigh C"
proof (induction C x arbitrary: n rule: del_fix.induct)
  case (1 x)
  then show ?case by simp
next
  case (2 s C x)
  show ?case
  proof (cases "is_red x")
    case True
    then show ?thesis by (simp del: plug.simps clow.simps chigh.simps)
  next
    case False
    note ok = del_case_ok [OF 2(2) False] and seq = seq_del_case [OF 2(2)]
    show ?thesis
    proof (cases "del_case s C x")
      case (Inl r)
      obtain C' x' where r: "r = (C', x')" by fastforce
      with ok Inl obtain k where "short C' x' k" by auto
      with 2(1) [OF False] Inl r seq False show ?thesis by simp
    next
      case (Inr t)
      with seq False show ?thesis by simp
    qed
  qed
qed

end
