(* ===== verification/Rb_Refine.thy ===== *)
theory Rb_Refine
  imports Rb_Balance
begin

text \<open>
  The pointer structure represents a tree, and the pointer primitives of \<^verbatim>\<open>range_lock.c\<close>
  compute the corresponding operations on trees with a hole.
\<close>

section \<open>The representation\<close>

fun is_tree :: "(addr \<rightharpoonup> rb_node) \<Rightarrow> addr \<Rightarrow> tree \<Rightarrow> bool" where
  "is_tree h p Leaf = True"
| "is_tree h p (Node l a c d r) =
     (a \<noteq> NULL \<and>
      h a = Some \<lparr>parent = p, left = ptr_of l, right = ptr_of r, color = c, data = d\<rparr> \<and>
      is_tree h a l \<and> is_tree h a r)"

fun is_ctx :: "(addr \<rightharpoonup> rb_node) \<Rightarrow> addr \<Rightarrow> ctx \<Rightarrow> addr \<Rightarrow> bool" where
  "is_ctx h rt [] q = (rt = q)"
| "is_ctx h rt (CL a c d r # C) q =
     (a \<noteq> NULL \<and>
      h a = Some \<lparr>parent = ctx_parent C, left = q, right = ptr_of r, color = c, data = d\<rparr> \<and>
      is_tree h a r \<and> is_ctx h rt C a)"
| "is_ctx h rt (CR l a c d # C) q =
     (a \<noteq> NULL \<and>
      h a = Some \<lparr>parent = ctx_parent C, left = ptr_of l, right = q, color = c, data = d\<rparr> \<and>
      is_tree h a l \<and> is_ctx h rt C a)"

text \<open>
  \<open>rep K k m t\<close>: the memory holds exactly the tree \<open>t\<close>, and agrees with \<open>K\<close> everywhere else;
  the counter of the root is \<open>k\<close>.
\<close>

definition rep :: "(addr \<rightharpoonup> rb_node) \<Rightarrow> u64 \<Rightarrow> rb_mem \<Rightarrow> tree \<Rightarrow> bool" where
  "rep K k m t \<longleftrightarrow>
     rnode m = ptr_of t \<and> is_tree (nodes m) NULL t \<and> distinct (addrs t) \<and>
     (\<forall>x. x \<notin> set (addrs t) \<longrightarrow> nodes m x = K x) \<and> K NULL = None \<and> rcount m = k"

lemma is_tree_plug:
  "is_tree h NULL (plug C t) \<and> rt = ptr_of (plug C t) \<longleftrightarrow>
     is_tree h (ctx_parent C) t \<and> is_ctx h rt C (ptr_of t)"
  by (induction C t rule: plug.induct) auto

lemma rep_plug:
  "rep K k m (plug C t) \<longleftrightarrow>
     is_tree (nodes m) (ctx_parent C) t \<and> is_ctx (nodes m) (rnode m) C (ptr_of t) \<and>
     distinct (addrs t) \<and> distinct (caddrs C) \<and> set (addrs t) \<inter> set (caddrs C) = {} \<and>
     (\<forall>x. x \<notin> set (addrs t) \<longrightarrow> x \<notin> set (caddrs C) \<longrightarrow> nodes m x = K x) \<and>
     K NULL = None \<and> rcount m = k"
  using is_tree_plug [of "nodes m" C t "rnode m"] by (auto simp: rep_def)

lemma is_tree_upd [simp]:
  "x \<notin> set (addrs t) \<Longrightarrow> is_tree (h(x := n)) p t = is_tree h p t"
  by (induction t arbitrary: p) auto

lemma is_ctx_upd [simp]:
  "x \<notin> set (caddrs C) \<Longrightarrow> is_ctx (h(x := n)) rt C q = is_ctx h rt C q"
  by (induction h rt C q rule: is_ctx.induct) auto

lemma is_tree_nonnull: "is_tree h p t \<Longrightarrow> 0 \<notin> set (addrs t)"
  by (induction t arbitrary: p) auto

lemma is_ctx_nonnull: "is_ctx h rt C q \<Longrightarrow> 0 \<notin> set (caddrs C)"
  by (induction h rt C q rule: is_ctx.induct) (auto dest: is_tree_nonnull)

lemma is_tree_ptr_nonnull: "is_tree h p t \<Longrightarrow> t \<noteq> Leaf \<Longrightarrow> ptr_of t \<noteq> NULL"
  by (cases t) auto

lemma is_ctx_parent_nonnull: "is_ctx h rt C q \<Longrightarrow> C \<noteq> [] \<Longrightarrow> ctx_parent C \<noteq> NULL"
  by (induction h rt C q rule: is_ctx.induct) auto

lemma ptr_of_in: "t \<noteq> Leaf \<Longrightarrow> ptr_of t \<in> set (addrs t)"
  by (cases t) auto

lemma ptr_of_neq [simp]:
  "a \<notin> set (addrs t) \<Longrightarrow> 0 < a \<Longrightarrow> ptr_of t \<noteq> a"
  "a \<notin> set (addrs t) \<Longrightarrow> 0 < a \<Longrightarrow> a \<noteq> ptr_of t"
  by (cases t; auto)+

lemmas rep_exec = upd_node_def rep_plug Let_def

section \<open>Reads and colour changes\<close>

lemma rep_node:
  "rep K k m (plug C (Node l a c d r)) \<Longrightarrow>
     0 < a \<and>
     nodes m a = Some \<lparr>parent = ctx_parent C, left = ptr_of l, right = ptr_of r, color = c, data = d\<rparr>"
  by (simp add: rep_plug)

lemma rep_null: "rep K k m t \<Longrightarrow> nodes m 0 = None"
  by (auto simp: rep_def dest: is_tree_nonnull)

lemma rep_color:
  assumes "rep K k m (plug C (Node l a c d r))"
  shows "\<exists>m'. upd_node m a (\<lambda>n. n\<lparr>color := c'\<rparr>) = Some m' \<and> rep K k m' (plug C (Node l a c' d r))"
  using assms by (auto simp: rep_exec)

lemma rep_root_color:
  assumes "rep K k m t" and "t \<noteq> Leaf"
  shows "\<exists>m'. upd_node m (rnode m) (\<lambda>n. n\<lparr>color := c'\<rparr>) = Some m' \<and> rep K k m' (paint c' t)"
proof -
  obtain l a c d r where t: "t = Node l a c d r" using assms(2) by (cases t) auto
  with assms(1) have "rnode m = a" by (simp add: rep_def)
  with rep_color [of K k m "[]" l a c d r c'] assms(1) t show ?thesis by auto
qed

lemma rep_data:
  assumes "rep K k m (plug C (Node l a c d r))"
  shows "\<exists>m'. upd_node m a (\<lambda>n. n\<lparr>data := f (data n)\<rparr>) = Some m' \<and>
           rep K k m' (plug C (Node l a c (f d) r))"
  using assms by (auto simp: rep_exec)

section \<open>Rotations\<close>

lemma rotate_left_rep:
  assumes "rep K k m (plug C (Node l a c d (Node bl b c' d' br)))"
  shows "\<exists>m'. rotate_left m a = Some m' \<and> rep K k m' (plug C (Node (Node l a c d bl) b c' d' br))"
proof (cases C)
  case Nil
  with assms show ?thesis
    by (cases bl) (auto simp: rotate_left_def rep_exec rep_def)
next
  case (Cons s C')
  with assms show ?thesis
    by (cases s; cases bl) (simp_all add: rotate_left_def rep_exec)
qed

lemma rotate_right_rep:
  assumes "rep K k m (plug C (Node (Node bl b c' d' br) a c d r))"
  shows "\<exists>m'. rotate_right m a = Some m' \<and> rep K k m' (plug C (Node bl b c' d' (Node br a c d r)))"
proof (cases C)
  case Nil
  with assms show ?thesis
    by (cases br) (auto simp: rotate_right_def rep_exec rep_def)
next
  case (Cons s C')
  with assms show ?thesis
    by (cases s; cases br) (simp_all add: rotate_right_def rep_exec)
qed

section \<open>Replacing a subtree\<close>

text \<open>
  A node with at most one child is cut out. It stays in memory, outside the tree, with the
  members it had.
\<close>

lemma transplant_rep:
  assumes "rep K k m (plug C (Node l z c d r))" and "l = Leaf \<and> t = r \<or> r = Leaf \<and> t = l"
  shows "\<exists>m' n. rb_transplant m z (ptr_of t) = Some m' \<and> nodes m' z = Some n \<and> data n = d \<and>
           color n = c \<and> parent n = ctx_parent C \<and> rep (K(z \<mapsto> n)) k m' (plug C t)"
proof (cases C)
  case Nil
  with assms show ?thesis
    by (cases t) (auto simp: rb_transplant_def rep_exec rep_def)
next
  case (Cons s C')
  with assms show ?thesis
    by (cases s; cases t) (simp_all add: rb_transplant_def rep_exec, auto)
qed

section \<open>The leftmost node of a subtree\<close>

text \<open>\<open>min_ctx t\<close> is the path from the leftmost node of \<open>t\<close> up to its root.\<close>

fun min_ctx :: "tree \<Rightarrow> ctx" where
  "min_ctx (Node Leaf a c d r) = []"
| "min_ctx (Node (Node ll la lc ld lr) a c d r) = min_ctx (Node ll la lc ld lr) @ [CL a c d r]"
| "min_ctx Leaf = []"

fun min_node :: "tree \<Rightarrow> tree" where
  "min_node (Node Leaf a c d r) = Node Leaf a c d r"
| "min_node (Node (Node ll la lc ld lr) a c d r) = min_node (Node ll la lc ld lr)"
| "min_node Leaf = Leaf"

lemma plug_min: "plug (min_ctx t) (min_node t) = t"
  by (induction t rule: min_ctx.induct) (auto simp: plug_append)

lemma min_node_left: "t \<noteq> Leaf \<Longrightarrow> \<exists>a c d r. min_node t = Node Leaf a c d r"
  by (induction t rule: min_node.induct) auto

lemma clow_min_ctx: "clow (min_ctx t @ C) = clow C"
  by (induction t arbitrary: C rule: min_ctx.induct) auto

lemma rb_leftmost_rep:
  "is_tree (nodes m) p t \<Longrightarrow> t \<noteq> Leaf \<Longrightarrow> rb_leftmost m (ptr_of t) = Some (ptr_of (min_node t))"
proof (induction t arbitrary: p rule: min_node.induct)
  case (1 a c d r)
  then show ?case by (simp add: rb_leftmost.simps)
next
  case (2 ll la lc ld lr a c d r)
  then show ?case by (subst rb_leftmost.simps) auto
qed simp

end
