(* ===== verification/Rb_Insert.thy ===== *)
theory Rb_Insert
  imports Rb_Refine
begin

text \<open>
  Search and insertion of \<^verbatim>\<open>range_lock.c\<close>: \<^verbatim>\<open>__rb_search\<close>, \<^verbatim>\<open>rb_search\<close>,
  \<^verbatim>\<open>rb_insert_fixup\<close> and \<^verbatim>\<open>rb_insert\<close>, with the proof that they terminate, that no
  assertion fails, and that they look up and insert an interval in a red-black tree of
  pairwise disjoint intervals.
\<close>

section \<open>Search\<close>

partial_function (option) rb_search_from :: "rb_mem \<Rightarrow> addr \<Rightarrow> u64 \<Rightarrow> u64 \<Rightarrow> addr option" where
  "rb_search_from m p s e =
     (if p = NULL then Some NULL
      else do {
        n \<leftarrow> nodes m p;
        if check_overlap (start (data n)) (iend (data n)) s e then Some p
        else if start (data n) > e then rb_search_from m (left n) s e
        else if iend (data n) < s then rb_search_from m (right n) s e
        else None
      })"

declare rb_search_from.simps [code]

definition rb_search :: "rb_mem \<Rightarrow> u64 \<Rightarrow> u64 \<Rightarrow> addr option" where
  "rb_search m s e =
     (if rnode m = NULL then Some NULL
      else let (s, e) = (if s > e then (e, s) else (s, e))
           in rb_search_from m (rnode m) s e)"

definition overlaps :: "rb_data \<Rightarrow> u64 \<Rightarrow> u64 \<Rightarrow> bool" where
  "overlaps d s e \<longleftrightarrow> check_overlap (start d) (iend d) s e"

lemma overlaps_iff:
  "start d \<le> iend d \<Longrightarrow> s \<le> e \<Longrightarrow> overlaps d s e \<longleftrightarrow> start d \<le> e \<and> s \<le> iend d"
  by (simp add: overlaps_def check_overlap_ordered)

lemma overlaps_swap: "overlaps d s e = overlaps d e s"
proof -
  have "overlaps d y x = overlaps d x y" if "x < y" for x y
  proof -
    from that have "(x < y) = True" "(y < x) = False" by auto
    then show ?thesis by (simp only: overlaps_def check_overlap_def Let_def if_True if_False)
  qed
  then show ?thesis by (metis linorder_neqE)
qed

text \<open>Everything to the left of a node that lies below an interval lies below it, too.\<close>

lemma ivls_low:
  assumes "ivls_ok (xs @ (a, d) # ys)" and "s \<le> e" and "iend d < s" and "x \<in> set (xs @ [(a, d)])"
  shows "iend (snd x) < s \<and> \<not> overlaps (snd x) s e"
proof -
  have x: "start (snd x) \<le> iend (snd x)" and d: "start d \<le> iend d"
    using assms(1,4) by (auto simp: ivls_ok_def)
  have "iend (snd x) \<le> iend d"
    using assms(1,4) d by (auto simp: ivls_ok_append before_def)
  with assms(3) have "iend (snd x) < s" by simp
  with overlaps_iff [OF x \<open>s \<le> e\<close>] show ?thesis by (auto dest: leD)
qed

lemma ivls_high:
  assumes "ivls_ok (xs @ (a, d) # ys)" and "s \<le> e" and "e < start d" and "x \<in> set ((a, d) # ys)"
  shows "e < start (snd x) \<and> \<not> overlaps (snd x) s e"
proof -
  have x: "start (snd x) \<le> iend (snd x)" and d: "start d \<le> iend d"
    using assms(1,4) by (auto simp: ivls_ok_def)
  have "start d \<le> start (snd x)"
    using assms(1,4) d by (auto simp: ivls_ok_append ivls_ok_Cons before_def)
  with assms(3) have "e < start (snd x)" by simp
  with overlaps_iff [OF x \<open>s \<le> e\<close>] show ?thesis by (auto dest: leD)
qed

text \<open>What a search for \<open>[s, e]\<close> in a tree promises about the address it returns.\<close>

definition found :: "(addr \<times> rb_data) list \<Rightarrow> u64 \<Rightarrow> u64 \<Rightarrow> addr \<Rightarrow> bool" where
  "found xs s e q \<longleftrightarrow>
     (if q = NULL then \<forall>x \<in> set xs. \<not> overlaps (snd x) s e
      else \<exists>d. (q, d) \<in> set xs \<and> overlaps d s e)"

lemma found_append1:
  "found xs s e q \<Longrightarrow> \<forall>x \<in> set ys. \<not> overlaps (snd x) s e \<Longrightarrow> found (xs @ ys) s e q"
  by (auto simp: found_def split: if_splits)

lemma found_append2:
  "found ys s e q \<Longrightarrow> \<forall>x \<in> set xs. \<not> overlaps (snd x) s e \<Longrightarrow> found (xs @ ys) s e q"
  by (auto simp: found_def split: if_splits)

lemma rb_search_from_rep:
  assumes "is_tree (nodes m) p t" and "ivls_ok (inorder t)" and "s \<le> e"
  shows "\<exists>q. rb_search_from m (ptr_of t) s e = Some q \<and> found (inorder t) s e q"
  using assms
proof (induction t arbitrary: p)
  case Leaf
  then show ?case by (simp add: rb_search_from.simps found_def)
next
  case (Node l a c d r)
  from Node.prems have a: "0 < a" "nodes m a =
      Some \<lparr>parent = p, left = ptr_of l, right = ptr_of r, color = c, data = d\<rparr>"
    and l: "is_tree (nodes m) a l" "ivls_ok (inorder l)"
    and r: "is_tree (nodes m) a r" "ivls_ok (inorder r)"
    and d: "start d \<le> iend d"
    by (auto simp: ivls_ok_append ivls_ok_Cons)
  note ivls = Node.prems(2) [unfolded inorder.simps] \<open>s \<le> e\<close>
  consider (here) "overlaps d s e" | (lo) "e < start d" | (hi) "iend d < s"
    using overlaps_iff [OF d \<open>s \<le> e\<close>] by (meson not_le)
  then show ?case
  proof cases
    case here
    with a have "rb_search_from m a s e = Some a"
      by (subst rb_search_from.simps) (simp add: overlaps_def)
    with here a show ?thesis by (auto simp: found_def)
  next
    case lo
    have miss: "\<forall>x \<in> set ((a, d) # inorder r). \<not> overlaps (snd x) s e"
      using ivls_high [OF ivls lo] by blast
    with a lo have "rb_search_from m a s e = rb_search_from m (ptr_of l) s e"
      by (subst rb_search_from.simps) (simp add: overlaps_def)
    with Node.IH(1) [OF l \<open>s \<le> e\<close>] found_append1 [OF _ miss] show ?thesis by auto
  next
    case hi
    have miss: "\<forall>x \<in> set (inorder l @ [(a, d)]). \<not> overlaps (snd x) s e"
      using ivls_low [OF ivls hi] by blast
    moreover have "\<not> e < start d" using hi d \<open>s \<le> e\<close> by (simp add: not_less)
    ultimately have "rb_search_from m a s e = rb_search_from m (ptr_of r) s e"
      using a hi by (subst rb_search_from.simps) (simp add: overlaps_def)
    with Node.IH(2) [OF r \<open>s \<le> e\<close>] found_append2 [OF _ miss] show ?thesis by auto
  qed
qed

lemma rb_search_rep:
  assumes "rep K k m t" and "ivls_ok (inorder t)"
  shows "\<exists>q. rb_search m s e = Some q \<and> found (inorder t) s e q"
proof -
  let ?s = "if s > e then e else s" and ?e = "if s > e then s else e"
  have t: "is_tree (nodes m) NULL t" "rnode m = ptr_of t" using assms(1) by (auto simp: rep_def)
  have "?s \<le> ?e" by (cases "s > e") auto
  from rb_search_from_rep [OF t(1) assms(2) this]
  obtain q where q: "rb_search_from m (rnode m) ?s ?e = Some q" "found (inorder t) ?s ?e q"
    using t(2) by auto
  then have "rb_search m s e = Some q"
    by (auto simp: rb_search_def rb_search_from.simps Let_def split: if_splits)
  moreover have "found (inorder t) s e q"
    using q(2) by (auto simp: found_def overlaps_swap split: if_splits)
  ultimately show ?thesis by blast
qed

section \<open>Insertion\<close>

text \<open>
  The two tests on a pointer that may be null: \<^verbatim>\<open>p != NULL && p->color == c\<close> and
  \<^verbatim>\<open>p == NULL || p->color == c\<close>.
\<close>

definition has_color :: "rb_mem \<Rightarrow> addr \<Rightarrow> COLOR \<Rightarrow> bool option" where
  "has_color m p c =
     (if p = NULL then Some False else do { n \<leftarrow> nodes m p; Some (color n = c) })"

definition null_or_color :: "rb_mem \<Rightarrow> addr \<Rightarrow> COLOR \<Rightarrow> bool option" where
  "null_or_color m p c =
     (if p = NULL then Some True else do { n \<leftarrow> nodes m p; Some (color n = c) })"

text \<open>One round of the loop of \<^verbatim>\<open>rb_insert_fixup\<close>, from \<open>z\<close>, \<open>p\<close> to the new \<open>z\<close>, \<open>p\<close>.\<close>

definition rb_insert_fixup_body :: "rb_mem \<Rightarrow> addr \<Rightarrow> addr \<Rightarrow> (rb_mem \<times> addr \<times> addr) option" where
  "rb_insert_fixup_body m z p = do {
     u \<leftarrow> uncle m z;
     g \<leftarrow> grand_parent m z;
     red \<leftarrow> has_color m u RED;
     if red then do {
       c_assert (g \<noteq> NULL);
       m \<leftarrow> upd_node m p (\<lambda>n. n\<lparr>color := BLACK\<rparr>);
       m \<leftarrow> upd_node m u (\<lambda>n. n\<lparr>color := BLACK\<rparr>);
       m \<leftarrow> upd_node m g (\<lambda>n. n\<lparr>color := RED\<rparr>);
       n \<leftarrow> nodes m g;
       Some (m, g, parent n)
     } else do {
       black \<leftarrow> null_or_color m u BLACK;
       c_assert black;
       c_assert (g \<noteq> NULL);
       gn \<leftarrow> nodes m g;
       pn \<leftarrow> nodes m p;
       if p = left gn then do {
         (m, z) \<leftarrow> (if right pn = z then do { m \<leftarrow> rotate_left m p; Some (m, p) }
                   else Some (m, z));
         g \<leftarrow> grand_parent m z;
         n \<leftarrow> nodes m z;
         m \<leftarrow> upd_node m (parent n) (\<lambda>n. n\<lparr>color := BLACK\<rparr>);
         m \<leftarrow> upd_node m g (\<lambda>n. n\<lparr>color := RED\<rparr>);
         m \<leftarrow> rotate_right m g;
         n \<leftarrow> nodes m z;
         Some (m, z, parent n)
       } else do {
         (m, z) \<leftarrow> (if left pn = z then do { m \<leftarrow> rotate_right m p; Some (m, p) }
                   else Some (m, z));
         g \<leftarrow> grand_parent m z;
         n \<leftarrow> nodes m z;
         m \<leftarrow> upd_node m (parent n) (\<lambda>n. n\<lparr>color := BLACK\<rparr>);
         m \<leftarrow> upd_node m g (\<lambda>n. n\<lparr>color := RED\<rparr>);
         m \<leftarrow> rotate_left m g;
         n \<leftarrow> nodes m z;
         Some (m, z, parent n)
       }
     }
   }"

partial_function (option) rb_insert_fixup_loop :: "rb_mem \<Rightarrow> addr \<Rightarrow> addr \<Rightarrow> rb_mem option" where
  "rb_insert_fixup_loop m z p = do {
     pred \<leftarrow> has_color m p RED;
     if \<not> pred then Some m
     else do {
       zn \<leftarrow> nodes m z;
       if color zn \<noteq> RED then Some m
       else do {
         (m, z, p) \<leftarrow> rb_insert_fixup_body m z p;
         rb_insert_fixup_loop m z p
       }
     }
   }"

declare rb_insert_fixup_loop.simps [code]

definition rb_insert_fixup :: "rb_mem \<Rightarrow> addr \<Rightarrow> (rb_mem \<times> int) option" where
  "rb_insert_fixup m nd =
     (if nd = NULL then Some (m, -1)
      else do {
        n \<leftarrow> nodes m nd;
        m \<leftarrow> rb_insert_fixup_loop m nd (parent n);
        m \<leftarrow> upd_node m (rnode m) (\<lambda>n. n\<lparr>color := BLACK\<rparr>);
        Some (m, 0)
      })"

text \<open>
  The descent of \<^verbatim>\<open>rb_insert\<close> from \<open>n\<close>, below \<open>t\<close>: \<open>Inl\<close> is the node that overlaps, \<open>Inr\<close>
  the parent for the new node.
\<close>

partial_function (option) rb_insert_descend ::
    "rb_mem \<Rightarrow> addr \<Rightarrow> addr \<Rightarrow> u64 \<Rightarrow> u64 \<Rightarrow> (addr + addr) option" where
  "rb_insert_descend m n t s e =
     (if n = NULL then Some (Inr t)
      else do {
        nd \<leftarrow> nodes m n;
        if check_overlap (start (data nd)) (iend (data nd)) s e then Some (Inl n)
        else if start (data nd) > s then
          (if iend (data nd) > e then rb_insert_descend m (left nd) n s e else None)
        else if iend (data nd) < s then rb_insert_descend m (right nd) n s e
        else None
      })"

declare rb_insert_descend.simps [code]

text \<open>The new node becomes a child of \<open>t\<close>, or the root.\<close>

definition rb_link :: "rb_mem \<Rightarrow> addr \<Rightarrow> addr \<Rightarrow> u64 \<Rightarrow> rb_mem option" where
  "rb_link m n1 t s =
     (if t = NULL then Some (m\<lparr>rnode := n1\<rparr>)
      else do {
        tn \<leftarrow> nodes m t;
        if s < start (data tn) then upd_node m t (\<lambda>n. n\<lparr>left := n1\<rparr>)
        else if iend (data tn) < s then upd_node m t (\<lambda>n. n\<lparr>right := n1\<rparr>)
        else None
      })"

definition rb_insert :: "rb_mem \<Rightarrow> u64 \<Rightarrow> u64 \<Rightarrow> addr \<Rightarrow> int \<Rightarrow> (rb_mem \<times> addr) option" where
  "rb_insert m s e a junk = do {
     let (s, e) = (if s > e then (e, s) else (s, e));
     c_assert (s \<le> e);
     r \<leftarrow> rb_insert_descend m (rnode m) NULL s e;
     case r of
       Inl n \<Rightarrow> Some (m, n)
     | Inr t \<Rightarrow> do {
         let (m, n1) = new_node m a junk;
         if n1 = NULL then Some (m, NULL)
         else do {
           m \<leftarrow> upd_node m n1 (\<lambda>n. n\<lparr>data := (data n)\<lparr>start := s, iend := e\<rparr>, parent := t, color := RED\<rparr>);
           m \<leftarrow> rb_link m n1 t s;
           let m = m\<lparr>rcount := rcount m + 1\<rparr>;
           (m, rc) \<leftarrow> rb_insert_fixup m n1;
           Some (m, n1)
         }
       }
   }"

section \<open>The repair loop refines its specification\<close>

text \<open>The kin of the node in the hole, and the colour tests on it.\<close>

lemma rep_kin:
  assumes "rep K k m (plug (s # s' # C) z)" and "z \<noteq> Leaf"
  shows "grand_parent m (ptr_of z) = Some (caddr s')"
    and "uncle m (ptr_of z) = Some (ptr_of (csib s'))"
    and "0 < ptr_of z" and "0 < caddr s" and "0 < caddr s'"
proof -
  obtain l a c d r where z: "z = Node l a c d r" using assms(2) by (cases z) auto
  with assms(1) show "grand_parent m (ptr_of z) = Some (caddr s')"
    and "0 < ptr_of z" and "0 < caddr s" and "0 < caddr s'"
    by (cases s; cases s'; simp add: grand_parent_def rep_plug)+
  with assms(1) z show "uncle m (ptr_of z) = Some (ptr_of (csib s'))"
    by (cases s; cases s'; auto simp: uncle_def rep_plug)
qed

lemma rep_has_color:
  assumes "rep K k m (plug C t)"
  shows "has_color m (ptr_of t) RED = Some (is_red t)"
    and "has_color m (ptr_of t) BLACK = Some (t \<noteq> Leaf \<and> is_black t)"
    and "null_or_color m (ptr_of t) BLACK = Some (is_black t)"
  using assms by (cases t; auto simp: has_color_def null_or_color_def rep_plug)+

text \<open>A step of the path is a node whose other child can be addressed, too.\<close>

fun step_node :: "cstep \<Rightarrow> tree \<Rightarrow> tree" where
  "step_node (CL a c d r) t = Node t a c d r"
| "step_node (CR l a c d) t = Node l a c d t"

fun flip :: "cstep \<Rightarrow> tree \<Rightarrow> cstep" where
  "flip (CL a c d r) t = CR t a c d"
| "flip (CR l a c d) t = CL a c d t"

fun recolor :: "COLOR \<Rightarrow> cstep \<Rightarrow> cstep" where
  "recolor c' (CL a c d r) = CL a c' d r"
| "recolor c' (CR l a c d) = CR l a c' d"

fun black_sib :: "cstep \<Rightarrow> cstep" where
  "black_sib (CL a c d r) = CL a c d (paint BLACK r)"
| "black_sib (CR l a c d) = CR (paint BLACK l) a c d"

lemma plug_step: "plug (s # C) t = plug C (step_node s t)"
  by (cases s) auto

lemma plug_flip: "plug (flip s t # C) (csib s) = plug (s # C) t"
  by (cases s) auto

lemma rep_step_node:
  "rep K k m (plug (s # C) t) \<Longrightarrow>
     \<exists>n. nodes m (caddr s) = Some n \<and> parent n = ctx_parent C \<and> color n = ccolor s \<and>
         data n = cdata s \<and> left n = (case s of CL a c d r \<Rightarrow> ptr_of t | CR l a c d \<Rightarrow> ptr_of l) \<and>
         right n = (case s of CL a c d r \<Rightarrow> ptr_of r | CR l a c d \<Rightarrow> ptr_of t)"
  by (cases s) (auto simp: rep_plug)

lemma rep_sib_color:
  assumes "rep K k m (plug (s # C) t)"
  shows "has_color m (ptr_of (csib s)) RED = Some (is_red (csib s))"
    and "null_or_color m (ptr_of (csib s)) BLACK = Some (is_black (csib s))"
  using rep_has_color [of K k m "flip s t # C" "csib s"] assms by (simp_all only: plug_flip)

lemma rep_step_color:
  assumes "rep K k m (plug (s # C) t)"
  shows "has_color m (caddr s) c = Some (ccolor s = c)"
  using assms by (cases s; auto simp: has_color_def rep_plug)

lemma rep_recolor:
  assumes "rep K k m (plug (s # C) t)"
  shows "\<exists>m'. upd_node m (caddr s) (\<lambda>n. n\<lparr>color := c'\<rparr>) = Some m' \<and>
           rep K k m' (plug (recolor c' s # C) t)"
proof (cases s)
  case (CL a c d r)
  with assms rep_color [of K k m C t a c d r c'] show ?thesis by simp
next
  case (CR l a c d)
  with assms rep_color [of K k m C l a c d t c'] show ?thesis by simp
qed

lemma rep_black_sib:
  assumes "rep K k m (plug (s # C) t)" and "is_red (csib s)"
  shows "\<exists>m'. upd_node m (ptr_of (csib s)) (\<lambda>n. n\<lparr>color := BLACK\<rparr>) = Some m' \<and>
           rep K k m' (plug (black_sib s # C) t)"
proof -
  obtain l a c d r where w: "csib s = Node l a c d r" using assms(2) by (cases "csib s") auto
  with assms(1) plug_flip [of s t C] have "rep K k m (plug (flip s t # C) (Node l a c d r))" by simp
  from rep_color [OF this, of BLACK] obtain m' where
    m': "upd_node m a (\<lambda>n. n\<lparr>color := BLACK\<rparr>) = Some m'"
      "rep K k m' (plug (flip s t # C) (Node l a BLACK d r))" by blast
  have "plug (flip s t # C) (Node l a BLACK d r) = plug (black_sib s # C) t"
    using w by (cases s) simp_all
  with m' w show ?thesis by simp
qed

text \<open>A red uncle: the parent's generation turns black and the violation moves up.\<close>

lemma body_red_uncle:
  assumes r: "rep K k m (plug (s # s' # C) z)" and "is_red z" and u: "is_red (csib s')"
  shows "\<exists>m'. rb_insert_fixup_body m (ptr_of z) (caddr s) = Some (m', caddr s', ctx_parent C) \<and>
           rep K k m' (plug (recolor BLACK s # recolor RED (black_sib s') # C) z)"
proof -
  from \<open>is_red z\<close> have "z \<noteq> Leaf" by auto
  note kin = rep_kin [OF r this]
  from r have "rep K k m (plug (s' # C) (step_node s z))" by (simp only: plug_step)
  from rep_sib_color(1) [OF this] u
  have red: "has_color m (ptr_of (csib s')) RED = Some True" by simp
  from rep_recolor [OF r, of BLACK] obtain m1 where
    m1: "upd_node m (caddr s) (\<lambda>n. n\<lparr>color := BLACK\<rparr>) = Some m1"
      "rep K k m1 (plug (s' # C) (step_node (recolor BLACK s) z))"
    unfolding plug_step [of "recolor BLACK s"] by blast
  from rep_black_sib [OF m1(2) u] obtain m2 where
    m2: "upd_node m1 (ptr_of (csib s')) (\<lambda>n. n\<lparr>color := BLACK\<rparr>) = Some m2"
      "rep K k m2 (plug (black_sib s' # C) (step_node (recolor BLACK s) z))" by blast
  have "caddr (black_sib s') = caddr s'" by (cases s') auto
  with rep_recolor [OF m2(2), of RED] obtain m3 where
    m3: "upd_node m2 (caddr s') (\<lambda>n. n\<lparr>color := RED\<rparr>) = Some m3"
      "rep K k m3 (plug (recolor RED (black_sib s') # C) (step_node (recolor BLACK s) z))" by auto
  have "caddr (recolor RED (black_sib s')) = caddr s'" by (cases s') auto
  with rep_step_node [OF m3(2)] obtain n where "nodes m3 (caddr s') = Some n" "parent n = ctx_parent C"
    by auto
  with kin red m1(1) m2(1) m3 show ?thesis
    by (simp add: rb_insert_fixup_body_def plug_step [of "recolor BLACK s"])
qed

text \<open>A black uncle: one or two rotations finish the repair.\<close>

lemma body_start:
  assumes r: "rep K k m (plug (s # s' # C) z)" and "is_red z" and "is_black (csib s')"
  shows "uncle m (ptr_of z) = Some (ptr_of (csib s'))"
    and "grand_parent m (ptr_of z) = Some (caddr s')" and "0 < caddr s'"
    and "has_color m (ptr_of (csib s')) RED = Some False"
    and "null_or_color m (ptr_of (csib s')) BLACK = Some True"
proof -
  from \<open>is_red z\<close> have "z \<noteq> Leaf" by auto
  note kin = rep_kin [OF r this]
  from r have "rep K k m (plug (s' # C) (step_node s z))" by (simp only: plug_step)
  from rep_sib_color [OF this] assms(3) kin is_red_not_black
  show "uncle m (ptr_of z) = Some (ptr_of (csib s'))"
    "grand_parent m (ptr_of z) = Some (caddr s')" "0 < caddr s'"
    "has_color m (ptr_of (csib s')) RED = Some False"
    "null_or_color m (ptr_of (csib s')) BLACK = Some True" by auto
qed

lemma body_LL:
  assumes r: "rep K k m (plug (CL pa RED pd pr # CL ga gc gd u # C) z)"
    and z: "is_red z" and u: "is_black u"
  shows "\<exists>m'. rb_insert_fixup_body m (ptr_of z) pa = Some (m', ptr_of z, pa) \<and>
           rep K k m' (plug C (Node z pa BLACK pd (Node pr ga RED gd u)))"
proof -
  obtain zl za zc zd zr where zn: "z = Node zl za zc zd zr" using z by (cases z) auto
  note start = body_start [OF r z, simplified, OF u]
  from r have n: "nodes m za = Some \<lparr>parent = pa, left = ptr_of zl, right = ptr_of zr, color = zc, data = zd\<rparr>"
    "nodes m pa = Some \<lparr>parent = ga, left = za, right = ptr_of pr, color = RED, data = pd\<rparr>"
    "nodes m ga = Some \<lparr>parent = ctx_parent C, left = pa, right = ptr_of u, color = gc, data = gd\<rparr>"
    and ne: "ptr_of pr \<noteq> za"
    by (auto simp: rep_plug zn)
  from rep_recolor [OF r, of BLACK] obtain m1 where
    m1: "upd_node m pa (\<lambda>n. n\<lparr>color := BLACK\<rparr>) = Some m1"
      "rep K k m1 (plug (CL ga gc gd u # C) (Node z pa BLACK pd pr))" by auto
  from rep_recolor [OF m1(2), of RED] obtain m2 where
    m2: "upd_node m1 ga (\<lambda>n. n\<lparr>color := RED\<rparr>) = Some m2"
      "rep K k m2 (plug C (Node (Node z pa BLACK pd pr) ga RED gd u))" by auto
  from rotate_right_rep [OF m2(2)] obtain m3 where
    m3: "rotate_right m2 ga = Some m3" "rep K k m3 (plug C (Node z pa BLACK pd (Node pr ga RED gd u)))"
    by auto
  from m3(2) have "nodes m3 za = Some \<lparr>parent = pa, left = ptr_of zl, right = ptr_of zr, color = zc, data = zd\<rparr>"
    by (simp add: rep_plug zn)
  with start n ne m1(1) m2(1) m3 show ?thesis by (simp add: rb_insert_fixup_body_def zn)
qed

lemma body_LR:
  assumes r: "rep K k m (plug (CR pl pa RED pd # CL ga gc gd u # C) (Node zl za RED zd zr))"
    and u: "is_black u"
  shows "\<exists>m'. rb_insert_fixup_body m za pa = Some (m', pa, za) \<and>
           rep K k m' (plug C (Node (Node pl pa RED pd zl) za BLACK zd (Node zr ga RED gd u)))"
proof -
  note start = body_start [OF r, simplified, OF u]
  from r have n: "nodes m pa = Some \<lparr>parent = ga, left = ptr_of pl, right = za, color = RED, data = pd\<rparr>"
    "nodes m ga = Some \<lparr>parent = ctx_parent C, left = pa, right = ptr_of u, color = gc, data = gd\<rparr>"
    by (auto simp: rep_plug)
  from r have "rep K k m (plug (CL ga gc gd u # C) (Node pl pa RED pd (Node zl za RED zd zr)))"
    by simp
  from rotate_left_rep [OF this] obtain m0 where
    m0: "rotate_left m pa = Some m0"
      "rep K k m0 (plug (CL za RED zd zr # CL ga gc gd u # C) (Node pl pa RED pd zl))" by auto
  from m0(2) have n0: "nodes m0 pa = Some \<lparr>parent = za, left = ptr_of pl, right = ptr_of zl, color = RED, data = pd\<rparr>"
    by (simp add: rep_plug)
  from rep_kin [OF m0(2)] have g: "grand_parent m0 pa = Some ga" by simp
  from rep_recolor [OF m0(2), of BLACK] obtain m1 where
    m1: "upd_node m0 za (\<lambda>n. n\<lparr>color := BLACK\<rparr>) = Some m1"
      "rep K k m1 (plug (CL ga gc gd u # C) (Node (Node pl pa RED pd zl) za BLACK zd zr))" by auto
  from rep_recolor [OF m1(2), of RED] obtain m2 where
    m2: "upd_node m1 ga (\<lambda>n. n\<lparr>color := RED\<rparr>) = Some m2"
      "rep K k m2 (plug C (Node (Node (Node pl pa RED pd zl) za BLACK zd zr) ga RED gd u))" by auto
  from rotate_right_rep [OF m2(2)] obtain m3 where
    m3: "rotate_right m2 ga = Some m3"
      "rep K k m3 (plug C (Node (Node pl pa RED pd zl) za BLACK zd (Node zr ga RED gd u)))" by auto
  from m3(2) have "nodes m3 pa = Some \<lparr>parent = za, left = ptr_of pl, right = ptr_of zl, color = RED, data = pd\<rparr>"
    by (simp add: rep_plug)
  with start n n0 g m0(1) m1(1) m2(1) m3 show ?thesis by (simp add: rb_insert_fixup_body_def)
qed

lemma body_RR:
  assumes r: "rep K k m (plug (CR pl pa RED pd # CR u ga gc gd # C) z)"
    and z: "is_red z" and u: "is_black u"
  shows "\<exists>m'. rb_insert_fixup_body m (ptr_of z) pa = Some (m', ptr_of z, pa) \<and>
           rep K k m' (plug C (Node (Node u ga RED gd pl) pa BLACK pd z))"
proof -
  obtain zl za zc zd zr where zn: "z = Node zl za zc zd zr" using z by (cases z) auto
  note start = body_start [OF r z, simplified, OF u]
  from r have n: "nodes m za = Some \<lparr>parent = pa, left = ptr_of zl, right = ptr_of zr, color = zc, data = zd\<rparr>"
    "nodes m pa = Some \<lparr>parent = ga, left = ptr_of pl, right = za, color = RED, data = pd\<rparr>"
    "nodes m ga = Some \<lparr>parent = ctx_parent C, left = ptr_of u, right = pa, color = gc, data = gd\<rparr>"
    and ne: "ptr_of pl \<noteq> za" "pa \<noteq> ptr_of u"
    by (auto simp: rep_plug zn)
  from rep_recolor [OF r, of BLACK] obtain m1 where
    m1: "upd_node m pa (\<lambda>n. n\<lparr>color := BLACK\<rparr>) = Some m1"
      "rep K k m1 (plug (CR u ga gc gd # C) (Node pl pa BLACK pd z))" by auto
  from rep_recolor [OF m1(2), of RED] obtain m2 where
    m2: "upd_node m1 ga (\<lambda>n. n\<lparr>color := RED\<rparr>) = Some m2"
      "rep K k m2 (plug C (Node u ga RED gd (Node pl pa BLACK pd z)))" by auto
  from rotate_left_rep [OF m2(2)] obtain m3 where
    m3: "rotate_left m2 ga = Some m3" "rep K k m3 (plug C (Node (Node u ga RED gd pl) pa BLACK pd z))"
    by auto
  from m3(2) have "nodes m3 za = Some \<lparr>parent = pa, left = ptr_of zl, right = ptr_of zr, color = zc, data = zd\<rparr>"
    by (simp add: rep_plug zn)
  with start n ne m1(1) m2(1) m3 show ?thesis by (simp add: rb_insert_fixup_body_def zn)
qed

lemma body_RL:
  assumes r: "rep K k m (plug (CL pa RED pd pr # CR u ga gc gd # C) (Node zl za RED zd zr))"
    and u: "is_black u"
  shows "\<exists>m'. rb_insert_fixup_body m za pa = Some (m', pa, za) \<and>
           rep K k m' (plug C (Node (Node u ga RED gd zl) za BLACK zd (Node zr pa RED pd pr)))"
proof -
  note start = body_start [OF r, simplified, OF u]
  from r have n: "nodes m pa = Some \<lparr>parent = ga, left = za, right = ptr_of pr, color = RED, data = pd\<rparr>"
    "nodes m ga = Some \<lparr>parent = ctx_parent C, left = ptr_of u, right = pa, color = gc, data = gd\<rparr>"
    and ne: "pa \<noteq> ptr_of u"
    by (auto simp: rep_plug)
  from r have "rep K k m (plug (CR u ga gc gd # C) (Node (Node zl za RED zd zr) pa RED pd pr))"
    by simp
  from rotate_right_rep [OF this] obtain m0 where
    m0: "rotate_right m pa = Some m0"
      "rep K k m0 (plug (CR zl za RED zd # CR u ga gc gd # C) (Node zr pa RED pd pr))" by auto
  from m0(2) have n0: "nodes m0 pa = Some \<lparr>parent = za, left = ptr_of zr, right = ptr_of pr, color = RED, data = pd\<rparr>"
    by (simp add: rep_plug)
  from rep_kin [OF m0(2)] have g: "grand_parent m0 pa = Some ga" by simp
  from rep_recolor [OF m0(2), of BLACK] obtain m1 where
    m1: "upd_node m0 za (\<lambda>n. n\<lparr>color := BLACK\<rparr>) = Some m1"
      "rep K k m1 (plug (CR u ga gc gd # C) (Node zl za BLACK zd (Node zr pa RED pd pr)))" by auto
  from rep_recolor [OF m1(2), of RED] obtain m2 where
    m2: "upd_node m1 ga (\<lambda>n. n\<lparr>color := RED\<rparr>) = Some m2"
      "rep K k m2 (plug C (Node u ga RED gd (Node zl za BLACK zd (Node zr pa RED pd pr))))" by auto
  from rotate_left_rep [OF m2(2)] obtain m3 where
    m3: "rotate_left m2 ga = Some m3"
      "rep K k m3 (plug C (Node (Node u ga RED gd zl) za BLACK zd (Node zr pa RED pd pr)))" by auto
  from m3(2) have "nodes m3 pa = Some \<lparr>parent = za, left = ptr_of zr, right = ptr_of pr, color = RED, data = pd\<rparr>"
    by (simp add: rep_plug)
  with start n ne n0 g m0(1) m1(1) m2(1) m3 show ?thesis by (simp add: rb_insert_fixup_body_def)
qed

text \<open>How the loop stops, and how it goes on.\<close>

lemma loop_stop:
  assumes "rep K k m (plug C z)" and "z \<noteq> Leaf" and "\<not> (black_hole C \<and> C \<noteq> [] \<and> is_red z)"
  shows "rb_insert_fixup_loop m (ptr_of z) (ctx_parent C) = Some m"
proof (cases C)
  case Nil
  then show ?thesis by (simp add: rb_insert_fixup_loop.simps has_color_def)
next
  case (Cons s C')
  obtain l a c d r where z: "z = Node l a c d r" using assms(2) by (cases z) auto
  from assms(1) Cons have p: "has_color m (caddr s) RED = Some (ccolor s = RED)"
    by (simp only: rep_step_color)
  from assms(1) z rep_node have "\<exists>n. nodes m a = Some n \<and> color n = c" by fastforce
  with p Cons z assms(3) show ?thesis by (auto simp: rb_insert_fixup_loop.simps)
qed

lemma loop_go:
  assumes "rep K k m (plug (s # C) z)" and "ccolor s = RED" and "is_red z"
    and "rb_insert_fixup_body m (ptr_of z) (caddr s) = Some (m', z', p')"
  shows "rb_insert_fixup_loop m (ptr_of z) (caddr s) = rb_insert_fixup_loop m' z' p'"
proof -
  obtain l a d r where z: "z = Node l a RED d r" using assms(3) by (cases z) auto
  from assms(1) z rep_node have "\<exists>n. nodes m a = Some n \<and> color n = RED" by fastforce
  with assms z rep_step_color [OF assms(1)] show ?thesis
    by (subst rb_insert_fixup_loop.simps) auto
qed

lemma loop_black_root:
  assumes "rep K k m (plug C t)" and "t = Node l p BLACK d r" and "z = l \<or> z = r" and "z \<noteq> Leaf"
  shows "rb_insert_fixup_loop m (ptr_of z) p = Some m"
proof -
  from assms(3) show ?thesis
  proof
    assume "z = l"
    with loop_stop [of K k m "CL p BLACK d r # C" z] assms show ?thesis by simp
  next
    assume "z = r"
    with loop_stop [of K k m "CR l p BLACK d # C" z] assms show ?thesis by simp
  qed
qed

lemma loop_red_uncle:
  assumes "rep K k m (plug (s # s' # C) z)" and "ccolor s = RED" and "is_red z" and "is_red (csib s')"
  obtains m' where "rb_insert_fixup_loop m (ptr_of z) (caddr s) =
      rb_insert_fixup_loop m' (caddr s') (ctx_parent C)"
    and "rep K k m' (plug C (step_node (recolor RED (black_sib s')) (step_node (recolor BLACK s) z)))"
  using body_red_uncle [OF assms(1,3,4)] loop_go [OF assms(1-3)] by (auto simp: plug_step)

lemma loop_rotated:
  assumes "rep K k m (plug (s # C) z)" and "ccolor s = RED" and "is_red z"
    and "\<exists>m'. rb_insert_fixup_body m (ptr_of z) (caddr s) = Some (m', ptr_of z', p) \<and>
           rep K k m' (plug C' (Node l p BLACK d r))"
    and "z' = l \<or> z' = r" and "z' \<noteq> Leaf"
  shows "\<exists>m'. rb_insert_fixup_loop m (ptr_of z) (caddr s) = Some m' \<and>
           rep K k m' (plug C' (Node l p BLACK d r))"
  using assms(4) loop_go [OF assms(1-3)] loop_black_root [OF _ refl assms(5,6)] by metis

lemma is_red_node: "is_red z \<Longrightarrow> \<exists>l a d r. z = Node l a RED d r"
  by (cases z) auto

lemma loop_LL:
  assumes r: "rep K k m (plug (CL pa RED pd pr # CL ga gc gd u # C) z)"
    and z: "is_red z" and u: "is_black u"
  shows "\<exists>m'. rb_insert_fixup_loop m (ptr_of z) pa = Some m' \<and> rep K k m' (plug C (Node z pa BLACK pd (Node pr ga RED gd u)))"
  using loop_rotated [OF r _ z, of "z"] body_LL [OF r z u] is_red_node [OF z] by auto

lemma loop_LR:
  assumes r: "rep K k m (plug (CR pl pa RED pd # CL ga gc gd u # C) (Node zl za RED zd zr))"
    and z: "is_red (Node zl za RED zd zr)" and u: "is_black u"
  shows "\<exists>m'. rb_insert_fixup_loop m (ptr_of (Node zl za RED zd zr)) pa = Some m' \<and> rep K k m' (plug C (Node (Node pl pa RED pd zl) za BLACK zd (Node zr ga RED gd u)))"
  using loop_rotated [OF r _ z, of "Node pl pa RED pd zl"] body_LR [OF r u] z by auto

lemma loop_RR:
  assumes r: "rep K k m (plug (CR pl pa RED pd # CR u ga gc gd # C) z)"
    and z: "is_red z" and u: "is_black u"
  shows "\<exists>m'. rb_insert_fixup_loop m (ptr_of z) pa = Some m' \<and> rep K k m' (plug C (Node (Node u ga RED gd pl) pa BLACK pd z))"
  using loop_rotated [OF r _ z, of "z"] body_RR [OF r z u] is_red_node [OF z] by auto

lemma loop_RL:
  assumes r: "rep K k m (plug (CL pa RED pd pr # CR u ga gc gd # C) (Node zl za RED zd zr))"
    and z: "is_red (Node zl za RED zd zr)" and u: "is_black u"
  shows "\<exists>m'. rb_insert_fixup_loop m (ptr_of (Node zl za RED zd zr)) pa = Some m' \<and> rep K k m' (plug C (Node (Node u ga RED gd zl) za BLACK zd (Node zr pa RED pd pr)))"
  using loop_rotated [OF r _ z, of "Node zr pa RED pd pr"] body_RL [OF r u] z by auto

lemma rb_insert_fixup_loop_rep:
  assumes "rep K k m (plug C z)" and "z \<noteq> Leaf" and "cok C n"
  shows "\<exists>m'. rb_insert_fixup_loop m (ptr_of z) (ctx_parent C) = Some m' \<and> rep K k m' (ins_fix C z)"
  using assms
proof (induction C z arbitrary: m n rule: ins_fix.induct)
  case (1 z)
  then show ?case using loop_stop [of K k m "[]" z] by simp
next
  case (2 s z)
  then have "\<not> (black_hole [s])" by (auto split: COLOR.splits)
  with 2 loop_stop [of K k m "[s]" z] show ?case by simp
next
  case (3 pa pc pd pr ga gc gd u C z)
  show ?case
  proof (cases "pc = RED \<and> is_red z")
    case red: True
    with cok_red_parent [OF 3(4)] have C: "cok C (Suc n)" and u: "is_red u \<or> is_black u"
      by (auto dest: ok_no_dummy)
    obtain zl za zd zr where z: "z = Node zl za RED zd zr" using red is_red_node by blast
    show ?thesis
    proof (cases "is_red u")
      case True
      with loop_red_uncle [OF 3(2)] red obtain m' where
        m': "rb_insert_fixup_loop m (ptr_of z) pa = rb_insert_fixup_loop m' ga (ctx_parent C)"
          "rep K k m' (plug C (Node (Node z pa BLACK pd pr) ga RED gd (paint BLACK u)))"
        by auto
      with 3(1) [OF red True m'(2) _ C] red True show ?thesis by auto
    next
      case False
      with u have "is_black u" by blast
      with loop_LL [of K k m pa pd pr ga gc gd u C z] 3(2) red False z
      show ?thesis by auto
    qed
  next
    case False
    with loop_stop [OF 3(2,3)] 3(2) show ?thesis by auto
  qed
next
  case (4 pl pa pc pd ga gc gd u C z)
  show ?case
  proof (cases "pc = RED \<and> is_red z")
    case red: True
    with cok_red_parent [OF 4(4)] have C: "cok C (Suc n)" and u: "is_red u \<or> is_black u"
      by (auto dest: ok_no_dummy)
    obtain zl za zd zr where z: "z = Node zl za RED zd zr" using red is_red_node by blast
    show ?thesis
    proof (cases "is_red u")
      case True
      with loop_red_uncle [OF 4(2)] red obtain m' where
        m': "rb_insert_fixup_loop m (ptr_of z) pa = rb_insert_fixup_loop m' ga (ctx_parent C)"
          "rep K k m' (plug C (Node (Node pl pa BLACK pd z) ga RED gd (paint BLACK u)))"
        by auto
      with 4(1) [OF red True m'(2) _ C] red True show ?thesis by auto
    next
      case False
      with u have "is_black u" by blast
      with loop_LR [of K k m pl pa pd ga gc gd u C zl za zd zr] 4(2) red False z
      show ?thesis by auto
    qed
  next
    case False
    with loop_stop [OF 4(2,3)] 4(2) show ?thesis by auto
  qed
next
  case (5 pl pa pc pd u ga gc gd C z)
  show ?case
  proof (cases "pc = RED \<and> is_red z")
    case red: True
    with cok_red_parent [OF 5(4)] have C: "cok C (Suc n)" and u: "is_red u \<or> is_black u"
      by (auto dest: ok_no_dummy)
    obtain zl za zd zr where z: "z = Node zl za RED zd zr" using red is_red_node by blast
    show ?thesis
    proof (cases "is_red u")
      case True
      with loop_red_uncle [OF 5(2)] red obtain m' where
        m': "rb_insert_fixup_loop m (ptr_of z) pa = rb_insert_fixup_loop m' ga (ctx_parent C)"
          "rep K k m' (plug C (Node (paint BLACK u) ga RED gd (Node pl pa BLACK pd z)))"
        by auto
      with 5(1) [OF red True m'(2) _ C] red True show ?thesis by auto
    next
      case False
      with u have "is_black u" by blast
      with loop_RR [of K k m pl pa pd u ga gc gd C z] 5(2) red False z
      show ?thesis by auto
    qed
  next
    case False
    with loop_stop [OF 5(2,3)] 5(2) show ?thesis by auto
  qed
next
  case (6 pa pc pd pr u ga gc gd C z)
  show ?case
  proof (cases "pc = RED \<and> is_red z")
    case red: True
    with cok_red_parent [OF 6(4)] have C: "cok C (Suc n)" and u: "is_red u \<or> is_black u"
      by (auto dest: ok_no_dummy)
    obtain zl za zd zr where z: "z = Node zl za RED zd zr" using red is_red_node by blast
    show ?thesis
    proof (cases "is_red u")
      case True
      with loop_red_uncle [OF 6(2)] red obtain m' where
        m': "rb_insert_fixup_loop m (ptr_of z) pa = rb_insert_fixup_loop m' ga (ctx_parent C)"
          "rep K k m' (plug C (Node (paint BLACK u) ga RED gd (Node z pa BLACK pd pr)))"
        by auto
      with 6(1) [OF red True m'(2) _ C] red True show ?thesis by auto
    next
      case False
      with u have "is_black u" by blast
      with loop_RL [of K k m pa pd pr u ga gc gd C zl za zd zr] 6(2) red False z
      show ?thesis by auto
    qed
  next
    case False
    with loop_stop [OF 6(2,3)] 6(2) show ?thesis by auto
  qed
qed

lemma ins_fix_not_Leaf: "z \<noteq> Leaf \<Longrightarrow> ins_fix C z \<noteq> Leaf"
proof
  assume "z \<noteq> Leaf" and "ins_fix C z = Leaf"
  then show False using inorder_ins_fix [of C z] by (cases z) auto
qed

lemma rb_insert_fixup_rep:
  assumes "rep K k m (plug C (Node l a c d r))" and "cok C n" and "ok (Node l a c d r) n"
  shows "\<exists>m' t. rb_insert_fixup m a = Some (m', 0) \<and> rep K k m' t \<and> rb t \<and>
           inorder t = inorder (plug C (Node l a c d r))"
proof -
  let ?z = "Node l a c d r"
  from rb_insert_fixup_loop_rep [OF assms(1) _ assms(2)] obtain m1 where
    m1: "rb_insert_fixup_loop m a (ctx_parent C) = Some m1" "rep K k m1 (ins_fix C ?z)" by auto
  from rep_root_color [OF m1(2) ins_fix_not_Leaf, of BLACK] obtain m2 where
    m2: "upd_node m1 (rnode m1) (\<lambda>n. n\<lparr>color := BLACK\<rparr>) = Some m2"
      "rep K k m2 (paint BLACK (ins_fix C ?z))" by auto
  from rep_node [OF assms(1)] m1(1) m2(1) have "rb_insert_fixup m a = Some (m2, 0)"
    by (simp add: rb_insert_fixup_def)
  with m2(2) rb_ins_fix [OF assms(2,3)] show ?thesis by fastforce
qed

lemma is_tree_dom: "is_tree h p t \<Longrightarrow> x \<in> set (addrs t) \<Longrightarrow> h x \<noteq> None"
  by (induction t arbitrary: p) auto

lemma rep_dom: "rep K k m t \<Longrightarrow> nodes m x = None \<Longrightarrow> x \<notin> set (addrs t) \<and> K x = None"
proof -
  assume r: "rep K k m t" and x: "nodes m x = None"
  with is_tree_dom [of "nodes m" NULL t x] have "x \<notin> set (addrs t)" by (auto simp: rep_def)
  with r x show ?thesis by (auto simp: rep_def)
qed

section \<open>The descent of an insertion\<close>

definition fits :: "ctx \<Rightarrow> u64 \<Rightarrow> u64 \<Rightarrow> bool" where
  "fits C s e \<longleftrightarrow>
     (\<forall>x \<in> set (clow C). iend (snd x) < s) \<and> (\<forall>x \<in> set (chigh C). e < start (snd x))"

definition descended :: "tree \<Rightarrow> u64 \<Rightarrow> u64 \<Rightarrow> addr + addr \<Rightarrow> bool" where
  "descended t s e r \<longleftrightarrow>
     (case r of Inl q \<Rightarrow> \<exists>d. (q, d) \<in> set (inorder t) \<and> overlaps d s e
      | Inr p \<Rightarrow> \<exists>D. plug D Leaf = t \<and> p = ctx_parent D \<and> fits D s e)"

lemma rb_insert_descend_rep:
  assumes "rep K k m (plug C t)" and "ivls_ok (inorder (plug C t))" and "s \<le> e" and "fits C s e"
  shows "\<exists>r. rb_insert_descend m (ptr_of t) (ctx_parent C) s e = Some r \<and>
           descended (plug C t) s e r"
  using assms
proof (induction t arbitrary: C)
  case Leaf
  then show ?case by (auto simp: rb_insert_descend.simps descended_def)
next
  case (Node l a c d r)
  note a = rep_node [OF Node.prems(1)]
  have ivls: "ivls_ok ((clow C @ inorder l) @ (a, d) # inorder r @ chigh C)"
    using Node.prems(2) by simp
  then have d: "start d \<le> iend d" by (auto simp: ivls_ok_def)
  consider (here) "overlaps d s e" | (lo) "e < start d" | (hi) "iend d < s"
    using overlaps_iff [OF d \<open>s \<le> e\<close>] by (meson not_le)
  then show ?case
  proof cases
    case here
    with a have "rb_insert_descend m a (ctx_parent C) s e = Some (Inl a)"
      by (subst rb_insert_descend.simps) (simp add: overlaps_def)
    with here show ?thesis by (auto simp: descended_def)
  next
    case lo
    have "\<forall>x \<in> set ((a, d) # inorder r @ chigh C). e < start (snd x) \<and> \<not> overlaps (snd x) s e"
      using ivls_high [OF ivls \<open>s \<le> e\<close> lo] by blast
    then have C: "fits (CL a c d r # C) s e" and miss: "\<not> overlaps d s e"
      using Node.prems(4) by (auto simp: fits_def)
    have "s < start d" "e < iend d" using lo d \<open>s \<le> e\<close> by auto
    with a miss have "rb_insert_descend m a (ctx_parent C) s e = rb_insert_descend m (ptr_of l) a s e"
      by (subst rb_insert_descend.simps) (simp add: overlaps_def)
    with Node.IH(1) [of "CL a c d r # C"] Node.prems(1-3) C show ?thesis by auto
  next
    case hi
    have "\<forall>x \<in> set ((clow C @ inorder l) @ [(a, d)]). iend (snd x) < s \<and> \<not> overlaps (snd x) s e"
      using ivls_low [OF ivls \<open>s \<le> e\<close> hi] by blast
    then have C: "fits (CR l a c d # C) s e" and miss: "\<not> overlaps d s e"
      using Node.prems(4) by (auto simp: fits_def)
    have "\<not> s < start d" using hi d by auto
    with a miss hi have "rb_insert_descend m a (ctx_parent C) s e = rb_insert_descend m (ptr_of r) a s e"
      by (subst rb_insert_descend.simps) (simp add: overlaps_def)
    with Node.IH(2) [of "CR l a c d # C"] Node.prems(1-3) C show ?thesis by auto
  qed
qed

text \<open>Linking a fresh red node into the hole.\<close>

definition fresh_data :: "u64 \<Rightarrow> u64 \<Rightarrow> int \<Rightarrow> rb_data" where
  "fresh_data s e junk = \<lparr>start = s, iend = e, refcount = junk, rendez = []\<rparr>"

lemma fits_step:
  assumes "fits (x # D) s e" and "ivls_ok (inorder (plug (x # D) Leaf))" and "s \<le> e"
  shows "case x of CL a c d r \<Rightarrow> s < start d | CR l a c d \<Rightarrow> \<not> s < start d \<and> iend d < s"
proof (cases x)
  case (CL a c d r)
  with assms show ?thesis by (auto simp: fits_def)
next
  case (CR l a c d)
  with assms(2) have "start d \<le> iend d" by (auto simp: ivls_ok_def)
  moreover from CR assms(1) have "iend d < s" by (auto simp: fits_def)
  ultimately show ?thesis using CR by auto
qed

lemma rb_link_rep:
  assumes "rep K k m (plug D Leaf)" and "fits D s e" and "ivls_ok (inorder (plug D Leaf))" and "s \<le> e"
    and "a \<noteq> NULL" and "nodes m a = None"
  shows "\<exists>m'. rb_link (m\<lparr>nodes := (nodes m)(a \<mapsto> \<lparr>parent = ctx_parent D, left = NULL, right = NULL, color = RED, data = d\<rparr>)\<rparr>) a (ctx_parent D) s = Some m' \<and>
     rcount m' = k \<and> rep K k m' (plug D (Node Leaf a RED d Leaf))"
proof (cases D)
  case Nil
  with assms show ?thesis by (auto simp: rb_link_def rep_def)
next
  case (Cons x D')
  from rep_dom [OF assms(1,6)] have "a \<notin> set (caddrs D)" by simp
  with Cons assms fits_step [of x D' s e] show ?thesis by (cases x) (simp_all add: rb_link_def rep_exec)
qed

definition norm :: "u64 \<Rightarrow> u64 \<Rightarrow> u64 \<times> u64" where
  "norm s e = (if s > e then (e, s) else (s, e))"

lemma plug_Leaf_rb:
  assumes "rb (plug D Leaf)"
  shows "cok D 0 \<and> ok (Node Leaf a RED d Leaf) 0"
  using assms by (auto elim!: rb_plugE)

lemma fits_before:
  assumes "fits D s e" and "ivls_ok (clow D @ chigh D)" and "s \<le> e"
  shows "ivls_ok (clow D @ (a, fresh_data s e j) # chigh D)"
  using assms by (auto simp: ivls_ok_append ivls_ok_Cons fits_def before_def fresh_data_def)

lemma fits_free:
  assumes "fits D s e" and "ivls_ok (clow D @ chigh D)" and "s \<le> e" and "x \<in> set (clow D @ chigh D)"
  shows "\<not> overlaps (snd x) s e"
proof -
  from assms(2,4) have "start (snd x) \<le> iend (snd x)" by (auto simp: ivls_ok_def)
  with assms show ?thesis by (auto simp: overlaps_iff fits_def dest: leD)
qed

text \<open>
  An interval that overlaps a stored one is refused, and the memory stays as it is; any other
  interval is stored, at its place in the order, in a red-black tree.
\<close>

definition inserted :: "(addr \<rightharpoonup> rb_node) \<Rightarrow> u64 \<Rightarrow> tree \<Rightarrow> addr \<Rightarrow> rb_data \<Rightarrow> rb_mem \<Rightarrow> bool" where
  "inserted K k t a d m' \<longleftrightarrow>
     (\<exists>t' lo hi. rep K (k + 1) m' t' \<and> rb t' \<and> inorder t = lo @ hi \<and>
        inorder t' = lo @ (a, d) # hi \<and> ivls_ok (inorder t'))"

lemma rb_insert_rep:
  assumes rep: "rep K k m t" and "rb t" and "ivls_ok (inorder t)"
    and a: "a \<noteq> NULL" "nodes m a = None"
  shows "if \<exists>x \<in> set (inorder t). overlaps (snd x) s e
         then \<exists>q d. rb_insert m s e a j = Some (m, q) \<and> (q, d) \<in> set (inorder t) \<and> overlaps d s e
         else \<exists>m'. rb_insert m s e a j = Some (m', a) \<and>
                inserted K k t a (fresh_data (min s e) (max s e) j) m'"
proof -
  obtain s' e' where n: "(if s > e then (e, s) else (s, e)) = (s', e')" and le: "s' \<le> e'"
    and mm: "min s e = s'" "max s e = e'" and ov: "overlaps d s' e' = overlaps d s e" for d
    by (cases "s > e") (use overlaps_swap in auto)
  from rb_insert_descend_rep [of K k m "[]" t s' e'] assms le obtain r where
    r: "rb_insert_descend m (rnode m) NULL s' e' = Some r" "descended t s' e' r"
    by (auto simp: fits_def rep_def)
  show ?thesis
  proof (cases r)
    case (Inl q)
    with r n le ov show ?thesis by (force simp: rb_insert_def descended_def)
  next
    case (Inr p)
    then obtain D where D: "plug D Leaf = t" "p = ctx_parent D" "fits D s' e'"
      using r(2) by (auto simp: descended_def)
    from D(1) assms(3) have ivls: "ivls_ok (clow D @ chigh D)" by auto
    have free: "\<not> (\<exists>x \<in> set (inorder t). overlaps (snd x) s e)"
      using fits_free [OF D(3) ivls le] D(1) ov by auto
    from rb_link_rep [of K k m D s' e' a "fresh_data s' e' j"] D assms le obtain m1 where
      m1: "rb_link (m\<lparr>nodes := (nodes m)(a \<mapsto> \<lparr>parent = ctx_parent D, left = NULL, right = NULL,
                 color = RED, data = fresh_data s' e' j\<rparr>)\<rparr>) a (ctx_parent D) s' = Some m1"
        "rcount m1 = k" "rep K k m1 (plug D (Node Leaf a RED (fresh_data s' e' j) Leaf))" by auto
    have "rep K (k + 1) (m1\<lparr>rcount := rcount m1 + 1\<rparr>) (plug D (Node Leaf a RED (fresh_data s' e' j) Leaf))"
      using m1(2,3) by (simp add: rep_plug)
    from rb_insert_fixup_rep [OF this] plug_Leaf_rb [of D] D(1) assms(2) obtain m2 t' where
      m2: "rb_insert_fixup (m1\<lparr>rcount := rcount m1 + 1\<rparr>) a = Some (m2, 0)" "rep K (k + 1) m2 t'" "rb t'"
        "inorder t' = clow D @ (a, fresh_data s' e' j) # chigh D" by auto
    have "inserted K k t a (fresh_data s' e' j) m2"
      unfolding inserted_def using m2 D(1) fits_before [OF D(3) ivls le] by force
    moreover have "rb_insert m s e a j = Some (m2, a)"
      using n le r(1) Inr D(2) a m1(1) m2(1)
      by (simp add: rb_insert_def new_node_def upd_node_def fresh_data_def)
    ultimately show ?thesis using free mm by auto
  qed
qed

end
