(* ===== verification/Rb_Delete.thy ===== *)
theory Rb_Delete
  imports Rb_Insert
begin

text \<open>
  Deletion of \<^verbatim>\<open>range_lock.c\<close>: \<^verbatim>\<open>rb_delete_fixup\<close> and \<^verbatim>\<open>rb_delete\<close>, with the proof that
  the loop returns, that none of the assertions fails, and that exactly the given node leaves
  the tree, which stays a red-black tree.
\<close>

section \<open>The model\<close>

text \<open>
  One round of the loop of \<^verbatim>\<open>rb_delete_fixup\<close>; \<open>x\<close> may be null, so its parent is carried
  along. The first half of a branch of the loop makes sure that the sibling \<open>w\<close> is black, the
  second half looks at the children of \<open>w\<close>.
\<close>

definition x_parent_ok :: "rb_mem \<Rightarrow> addr \<Rightarrow> addr \<Rightarrow> bool option" where
  "x_parent_ok m x p =
     (if x = NULL then Some True else do { n \<leftarrow> nodes m x; Some (parent n = p) })"

definition set_color :: "rb_mem \<Rightarrow> addr \<Rightarrow> COLOR \<Rightarrow> rb_mem option" where
  "set_color m p c = upd_node m p (\<lambda>n. n\<lparr>color := c\<rparr>)"

definition left_red_sibling :: "rb_mem \<Rightarrow> addr \<Rightarrow> addr \<Rightarrow> (rb_mem \<times> addr) option" where
  "left_red_sibling m x pa = do {
     pn \<leftarrow> nodes m pa;
     let w = right pn;
     c_assert (w \<noteq> NULL);
     wn \<leftarrow> nodes m w;
     if color wn = RED then do {
       m \<leftarrow> set_color m w BLACK;
       m \<leftarrow> set_color m pa RED;
       xp \<leftarrow> x_parent_ok m x pa;
       c_assert xp;
       m \<leftarrow> rotate_left m pa;
       xp \<leftarrow> x_parent_ok m x pa;
       c_assert xp;
       pn \<leftarrow> nodes m pa;
       c_assert (right pn \<noteq> NULL);
       Some (m, right pn)
     } else Some (m, w)
   }"

definition left_finish :: "rb_mem \<Rightarrow> addr \<Rightarrow> addr \<Rightarrow> (rb_mem \<times> addr) option" where
  "left_finish m pa w = do {
     c_assert (w \<noteq> NULL);
     pn \<leftarrow> nodes m pa;
     m \<leftarrow> set_color m w (color pn);
     m \<leftarrow> set_color m pa BLACK;
     wn \<leftarrow> nodes m w;
     m \<leftarrow> set_color m (right wn) BLACK;
     m \<leftarrow> rotate_left m pa;
     Some (m, rnode m)
   }"

definition left_black_sibling :: "rb_mem \<Rightarrow> addr \<Rightarrow> addr \<Rightarrow> addr \<Rightarrow> (rb_mem \<times> addr) option" where
  "left_black_sibling m x pa w = do {
     c_assert (w \<noteq> NULL);
     wn \<leftarrow> nodes m w;
     bl \<leftarrow> null_or_color m (left wn) BLACK;
     br \<leftarrow> null_or_color m (right wn) BLACK;
     if bl \<and> br then do {
       m \<leftarrow> set_color m w RED;
       Some (m, pa)
     } else do {
       xp \<leftarrow> x_parent_ok m x pa;
       c_assert xp;
       (m, w) \<leftarrow> (if br then do {
                   m \<leftarrow> set_color m (left wn) BLACK;
                   m \<leftarrow> set_color m w RED;
                   m \<leftarrow> rotate_right m w;
                   pn \<leftarrow> nodes m pa;
                   c_assert (right pn \<noteq> NULL);
                   Some (m, right pn)
                 } else Some (m, w));
       left_finish m pa w
     }
   }"

definition rb_delete_fixup_left :: "rb_mem \<Rightarrow> addr \<Rightarrow> addr \<Rightarrow> (rb_mem \<times> addr) option" where
  "rb_delete_fixup_left m x pa = do {
     (m, w) \<leftarrow> left_red_sibling m x pa;
     left_black_sibling m x pa w
   }"

definition right_red_sibling :: "rb_mem \<Rightarrow> addr \<Rightarrow> addr \<Rightarrow> (rb_mem \<times> addr) option" where
  "right_red_sibling m x pa = do {
     pn \<leftarrow> nodes m pa;
     let w = left pn;
     c_assert (w \<noteq> NULL);
     wn \<leftarrow> nodes m w;
     if color wn = RED then do {
       m \<leftarrow> set_color m w BLACK;
       m \<leftarrow> set_color m pa RED;
       m \<leftarrow> rotate_right m pa;
       pn \<leftarrow> nodes m pa;
       c_assert (left pn \<noteq> NULL);
       Some (m, left pn)
     } else Some (m, w)
   }"

definition right_finish :: "rb_mem \<Rightarrow> addr \<Rightarrow> addr \<Rightarrow> (rb_mem \<times> addr) option" where
  "right_finish m pa w = do {
     c_assert (w \<noteq> NULL);
     pn \<leftarrow> nodes m pa;
     m \<leftarrow> set_color m w (color pn);
     m \<leftarrow> set_color m pa BLACK;
     wn \<leftarrow> nodes m w;
     m \<leftarrow> set_color m (left wn) BLACK;
     m \<leftarrow> rotate_right m pa;
     Some (m, rnode m)
   }"

definition right_black_sibling :: "rb_mem \<Rightarrow> addr \<Rightarrow> addr \<Rightarrow> addr \<Rightarrow> (rb_mem \<times> addr) option" where
  "right_black_sibling m x pa w = do {
     c_assert (w \<noteq> NULL);
     wn \<leftarrow> nodes m w;
     bl \<leftarrow> null_or_color m (left wn) BLACK;
     br \<leftarrow> null_or_color m (right wn) BLACK;
     if bl \<and> br then do {
       m \<leftarrow> set_color m w RED;
       Some (m, pa)
     } else do {
       xp \<leftarrow> x_parent_ok m x pa;
       c_assert xp;
       (m, w) \<leftarrow> (if bl then do {
                   m \<leftarrow> set_color m (right wn) BLACK;
                   m \<leftarrow> set_color m w RED;
                   m \<leftarrow> rotate_left m w;
                   pn \<leftarrow> nodes m pa;
                   c_assert (left pn \<noteq> NULL);
                   Some (m, left pn)
                 } else Some (m, w));
       right_finish m pa w
     }
   }"

definition rb_delete_fixup_right :: "rb_mem \<Rightarrow> addr \<Rightarrow> addr \<Rightarrow> (rb_mem \<times> addr) option" where
  "rb_delete_fixup_right m x pa = do {
     (m, w) \<leftarrow> right_red_sibling m x pa;
     right_black_sibling m x pa w
   }"

partial_function (option) rb_delete_fixup_loop :: "rb_mem \<Rightarrow> addr \<Rightarrow> addr \<Rightarrow> (rb_mem \<times> addr) option" where
  "rb_delete_fixup_loop m x pa =
     (if rnode m = x then Some (m, x)
      else do {
        black \<leftarrow> null_or_color m x BLACK;
        if \<not> black then Some (m, x)
        else do {
          pa \<leftarrow> (if x \<noteq> NULL then do { n \<leftarrow> nodes m x; Some (parent n) } else Some pa);
          pn \<leftarrow> nodes m pa;
          (m, x) \<leftarrow> (if x = left pn then rb_delete_fixup_left m x pa
                    else rb_delete_fixup_right m x pa);
          rb_delete_fixup_loop m x pa
        }
      })"

declare rb_delete_fixup_loop.simps [code]

definition rb_delete_fixup :: "rb_mem \<Rightarrow> addr \<Rightarrow> addr \<Rightarrow> rb_mem option" where
  "rb_delete_fixup m nd pa =
     (if rnode m = NULL then Some m
      else if nd = NULL \<and> pa = NULL then Some m
      else do {
        (m, x) \<leftarrow> rb_delete_fixup_loop m nd pa;
        m \<leftarrow> (if x \<noteq> NULL then set_color m x BLACK else Some m);
        set_color m (rnode m) BLACK
      })"

text \<open>
  The three parts of \<^verbatim>\<open>rb_delete\<close> for a node with two children: its successor \<open>y\<close> is cut out
  of the right subtree (the parent of the hole is returned), then \<open>y\<close> takes the place of \<open>z\<close>.
\<close>

definition rb_cut_min :: "rb_mem \<Rightarrow> addr \<Rightarrow> addr \<Rightarrow> (rb_mem \<times> addr) option" where
  "rb_cut_min m z y = do {
     zn \<leftarrow> nodes m z;
     yn \<leftarrow> nodes m y;
     let x = right yn;
     if parent yn = z then do {
       c_assert (right zn = y);
       m \<leftarrow> (if x \<noteq> NULL then do {
                xn \<leftarrow> nodes m x;
                c_assert (parent xn = y);
                upd_node m x (\<lambda>n. n\<lparr>parent := y\<rparr>)
              } else Some m);
       Some (m, y)
     } else do {
       m \<leftarrow> rb_transplant m y x;
       zn \<leftarrow> nodes m z;
       m \<leftarrow> upd_node m y (\<lambda>n. n\<lparr>right := right zn\<rparr>);
       m \<leftarrow> upd_node m (right zn) (\<lambda>n. n\<lparr>parent := y\<rparr>);
       Some (m, parent yn)
     }
   }"

definition rb_replace :: "rb_mem \<Rightarrow> addr \<Rightarrow> addr \<Rightarrow> rb_mem option" where
  "rb_replace m z y = do {
     m \<leftarrow> rb_transplant m z y;
     zn \<leftarrow> nodes m z;
     m \<leftarrow> upd_node m y (\<lambda>n. n\<lparr>left := left zn\<rparr>);
     m \<leftarrow> upd_node m (left zn) (\<lambda>n. n\<lparr>parent := y\<rparr>);
     zn \<leftarrow> nodes m z;
     upd_node m y (\<lambda>n. n\<lparr>color := color zn\<rparr>)
   }"

definition rb_delete :: "rb_mem \<Rightarrow> addr \<Rightarrow> rb_mem option" where
  "rb_delete m z =
     (if rnode m = NULL \<or> z = NULL then Some m
      else do {
        zn \<leftarrow> nodes m z;
        (m, x, p, y_color) \<leftarrow>
          (if left zn = NULL then do {
             m \<leftarrow> rb_transplant m z (right zn);
             Some (m, right zn, parent zn, color zn)
           } else if right zn = NULL then do {
             m \<leftarrow> rb_transplant m z (left zn);
             Some (m, left zn, parent zn, color zn)
           } else do {
             y \<leftarrow> rb_minimum m (right zn);
             yn \<leftarrow> nodes m y;
             c_assert (left yn = NULL);
             (m, p) \<leftarrow> rb_cut_min m z y;
             m \<leftarrow> rb_replace m z y;
             Some (m, right yn, p, color yn)
           });
        m \<leftarrow> (if y_color = BLACK then rb_delete_fixup m x p else Some m);
        Some (m\<lparr>rcount := rcount m - 1\<rparr>)
      })"

section \<open>One round refines its specification\<close>

lemma rep_set_color:
  assumes "rep K k m T" and "T = plug C (Node l a c d r)"
  obtains m' where "set_color m a c' = Some m'" and "rep K k m' (plug C (Node l a c' d r))"
  using rep_color [of K k m C l a c d r c'] assms by (auto simp: set_color_def)

lemma rep_left:
  assumes "rep K k m (plug C (Node l a c d r))"
  shows "null_or_color m (ptr_of l) BLACK = Some (is_black l)"
    and "x_parent_ok m (ptr_of l) a = Some True" 
    and "is_tree (nodes m) a l"
proof -
  from assms have "rep K k m (plug (CL a c d r # C) l)" by simp
  then show "null_or_color m (ptr_of l) BLACK = Some (is_black l)" by (simp only: rep_has_color)
  from assms show "is_tree (nodes m) a l" by (simp add: rep_plug)
  then show "x_parent_ok m (ptr_of l) a = Some True" by (cases l) (auto simp: x_parent_ok_def)
qed

lemma rep_right:
  assumes "rep K k m (plug C (Node l a c d r))"
  shows "null_or_color m (ptr_of r) BLACK = Some (is_black r)"
    and "x_parent_ok m (ptr_of r) a = Some True" 
    and "is_tree (nodes m) a r"
proof -
  from assms have "rep K k m (plug (CR l a c d # C) r)" by simp
  then show "null_or_color m (ptr_of r) BLACK = Some (is_black r)" by (simp only: rep_has_color)
  from assms show "is_tree (nodes m) a r" by (simp add: rep_plug)
  then show "x_parent_ok m (ptr_of r) a = Some True" by (cases r) (auto simp: x_parent_ok_def)
qed

text \<open>What a round leaves behind: \<open>s\<close> is the outcome of the specification.\<close>

definition round_ok :: "(addr \<rightharpoonup> rb_node) \<Rightarrow> u64 \<Rightarrow> addr \<Rightarrow> ctx \<times> tree + tree \<Rightarrow> (rb_mem \<times> addr) option \<Rightarrow> bool" where
  "round_ok K k pa s r \<longleftrightarrow>
     (\<exists>m q. r = Some (m, q) \<and>
        (case s of Inl (C, x) \<Rightarrow> rep K k m (plug C x) \<and> q = pa
         | Inr t \<Rightarrow> rep K k m t \<and> q = rnode m))"

lemma left_finish_ok:
  assumes r: "rep K k m (plug C (Node x pa pc pd (Node wl wa wc wd wr)))" and wr: "wr \<noteq> Leaf"
  shows "round_ok K k pa (Inr (plug C (Node (Node x pa BLACK pd wl) wa pc wd (paint BLACK wr)))) (left_finish m pa wa)"
proof -
  note pn = rep_node [OF r]
  from r rep_set_color [of K k m _ "CR x pa pc pd # C" wl wa wc wd wr pc] obtain m1 where
    m1: "set_color m wa pc = Some m1" "rep K k m1 (plug C (Node x pa pc pd (Node wl wa pc wd wr)))" by auto
  from rep_set_color [OF m1(2) refl, of BLACK] obtain m2 where
    m2: "set_color m1 pa BLACK = Some m2" "rep K k m2 (plug (CR x pa BLACK pd # C) (Node wl wa pc wd wr))" by auto
  note p2 = rep_node [OF m2(2)]
  obtain l a c d r where n: "wr = Node l a c d r" using wr by (cases wr) auto
  from m2(2) n rep_set_color [of K k m2 _ "CR wl wa pc wd # CR x pa BLACK pd # C" l a c d r BLACK] obtain m3 where
    m3: "set_color m2 a BLACK = Some m3" "rep K k m3 (plug C (Node x pa BLACK pd (Node wl wa pc wd (paint BLACK wr))))" by auto
  from rotate_left_rep [OF m3(2)] obtain m4 where
    m4: "rotate_left m3 pa = Some m4" "rep K k m4 (plug C (Node (Node x pa BLACK pd wl) wa pc wd (paint BLACK wr)))" by auto
  have "0 < wa" using p2 by simp
  with pn m1(1) m2(1) p2 n m3(1) m4 show ?thesis
    by (simp add: left_finish_def round_ok_def)
qed

lemma left_black_sibling_ok:
  assumes r: "rep K k m (plug C (Node x pa pc pd w))" and w: "w \<noteq> Leaf"
    and wl: "is_black (tleft w) \<or> is_red (tleft w)" and wr: "is_black (tright w) \<or> is_red (tright w)"
  shows "round_ok K k pa (left_case x pa pc pd w C) (left_black_sibling m (ptr_of x) pa (ptr_of w))"
proof -
  obtain wl wa wc wd wr where w: "w = Node wl wa wc wd wr" using w by (cases w) auto
  note rw = r [unfolded w]
  have "rep K k m (plug (CR x pa pc pd # C) (Node wl wa wc wd wr))" using rw by simp
  note wn = rep_node [OF this] and bl = rep_left [OF this] and br = rep_right [OF this]
  note pn = rep_node [OF rw] and x = rep_left [OF rw]
  note start = wn bl(1) br(1) pn x(2)
  consider (two) "is_black wl" "is_black wr" | (one) "\<not> is_black wl" "is_black wr" | (none) "\<not> is_black wr"
    by blast
  then show ?thesis
  proof cases
    case two
    from rep_set_color [OF rw, of "CR x pa pc pd # C" wl wa wc wd wr RED] obtain m1 where
      "set_color m wa RED = Some m1"
      "rep K k m1 (plug C (Node x pa pc pd (Node wl wa RED wd wr)))" by auto
    with start two w show ?thesis by (simp add: left_black_sibling_def round_ok_def)
  next
    case one
    with wl w have "is_red wl" by auto
    then obtain l na nd r where n: "wl = Node l na RED nd r" using is_red_node by blast
    from rw n rep_set_color [of K k m _ "CL wa wc wd wr # CR x pa pc pd # C" l na RED nd r BLACK] obtain m1 where
      m1: "set_color m na BLACK = Some m1"
        "rep K k m1 (plug (CR x pa pc pd # C) (Node (Node l na BLACK nd r) wa wc wd wr))" by auto
    from rep_set_color [OF m1(2) refl, of RED] obtain m2 where
      m2: "set_color m1 wa RED = Some m2"
        "rep K k m2 (plug (CR x pa pc pd # C) (Node (Node l na BLACK nd r) wa RED wd wr))" by auto
    from rotate_right_rep [OF m2(2)] obtain m3 where
      m3: "rotate_right m2 wa = Some m3"
        "rep K k m3 (plug C (Node x pa pc pd (Node l na BLACK nd (Node r wa RED wd wr))))"
      by auto
    note p3 = rep_node [OF m3(2)]
    have "0 < na" using m1(2) by (simp add: rep_plug)
    from left_finish_ok [OF m3(2)] have "round_ok K k pa (left_case x pa pc pd w C) (left_finish m3 pa na)"
      using one n w by simp
    with start one w n m1(1) m2(1) m3(1) p3 \<open>0 < na\<close> show ?thesis
      by (simp add: left_black_sibling_def)
  next
    case none
    then have "wr \<noteq> Leaf" by auto
    from left_finish_ok [OF rw this] start none w show ?thesis
      by (simp add: left_black_sibling_def)
  qed
qed

lemma right_finish_ok:
  assumes r: "rep K k m (plug C (Node (Node wr wa wc wd wl) pa pc pd x))" and wr: "wr \<noteq> Leaf"
  shows "round_ok K k pa (Inr (plug C (Node (paint BLACK wr) wa pc wd (Node wl pa BLACK pd x)))) (right_finish m pa wa)"
proof -
  note pn = rep_node [OF r]
  from r rep_set_color [of K k m _ "CL pa pc pd x # C" wr wa wc wd wl pc] obtain m1 where
    m1: "set_color m wa pc = Some m1" "rep K k m1 (plug C (Node (Node wr wa pc wd wl) pa pc pd x))" by auto
  from rep_set_color [OF m1(2) refl, of BLACK] obtain m2 where
    m2: "set_color m1 pa BLACK = Some m2" "rep K k m2 (plug (CL pa BLACK pd x # C) (Node wr wa pc wd wl))" by auto
  note p2 = rep_node [OF m2(2)]
  obtain l a c d r where n: "wr = Node l a c d r" using wr by (cases wr) auto
  from m2(2) n rep_set_color [of K k m2 _ "CL wa pc wd wl # CL pa BLACK pd x # C" l a c d r BLACK] obtain m3 where
    m3: "set_color m2 a BLACK = Some m3" "rep K k m3 (plug C (Node (Node (paint BLACK wr) wa pc wd wl) pa BLACK pd x))" by auto
  from rotate_right_rep [OF m3(2)] obtain m4 where
    m4: "rotate_right m3 pa = Some m4" "rep K k m4 (plug C (Node (paint BLACK wr) wa pc wd (Node wl pa BLACK pd x)))" by auto
  have "0 < wa" using p2 by simp
  with pn m1(1) m2(1) p2 n m3(1) m4 show ?thesis
    by (simp add: right_finish_def round_ok_def)
qed

lemma right_black_sibling_ok:
  assumes r: "rep K k m (plug C (Node w pa pc pd x))" and w: "w \<noteq> Leaf"
    and wl: "is_black (tleft w) \<or> is_red (tleft w)" and wr: "is_black (tright w) \<or> is_red (tright w)"
  shows "round_ok K k pa (right_case x pa pc pd w C) (right_black_sibling m (ptr_of x) pa (ptr_of w))"
proof -
  obtain wl wa wc wd wr where w: "w = Node wr wa wc wd wl" using w by (cases w) auto
  note rw = r [unfolded w]
  have "rep K k m (plug (CL pa pc pd x # C) (Node wr wa wc wd wl))" using rw by simp
  note wn = rep_node [OF this] and bl = rep_left [OF this] and br = rep_right [OF this]
  note pn = rep_node [OF rw] and x = rep_right [OF rw]
  note start = wn bl(1) br(1) pn x(2)
  consider (two) "is_black wl" "is_black wr" | (one) "\<not> is_black wl" "is_black wr" | (none) "\<not> is_black wr"
    by blast
  then show ?thesis
  proof cases
    case two
    from rep_set_color [OF rw, of "CL pa pc pd x # C" wr wa wc wd wl RED] obtain m1 where
      "set_color m wa RED = Some m1"
      "rep K k m1 (plug C (Node (Node wr wa RED wd wl) pa pc pd x))" by auto
    with start two w show ?thesis by (simp add: right_black_sibling_def round_ok_def)
  next
    case one
    with wr w have "is_red wl" by auto
    then obtain l na nd r where n: "wl = Node l na RED nd r" using is_red_node by blast
    from rw n rep_set_color [of K k m _ "CR wr wa wc wd # CL pa pc pd x # C" l na RED nd r BLACK] obtain m1 where
      m1: "set_color m na BLACK = Some m1"
        "rep K k m1 (plug (CL pa pc pd x # C) (Node wr wa wc wd (Node l na BLACK nd r)))" by auto
    from rep_set_color [OF m1(2) refl, of RED] obtain m2 where
      m2: "set_color m1 wa RED = Some m2"
        "rep K k m2 (plug (CL pa pc pd x # C) (Node wr wa RED wd (Node l na BLACK nd r)))" by auto
    from rotate_left_rep [OF m2(2)] obtain m3 where
      m3: "rotate_left m2 wa = Some m3"
        "rep K k m3 (plug C (Node (Node (Node wr wa RED wd l) na BLACK nd r) pa pc pd x))"
      by auto
    note p3 = rep_node [OF m3(2)]
    have "0 < na" using m1(2) by (simp add: rep_plug)
    from right_finish_ok [OF m3(2)] have "round_ok K k pa (right_case x pa pc pd w C) (right_finish m3 pa na)"
      using one n w by simp
    with start one w n m1(1) m2(1) m3(1) p3 \<open>0 < na\<close> show ?thesis
      by (simp add: right_black_sibling_def)
  next
    case none
    then have "wr \<noteq> Leaf" by auto
    from right_finish_ok [OF rw this] start none w show ?thesis
      by (simp add: right_black_sibling_def)
  qed
qed

lemma left_red_sibling_ok:
  assumes r: "rep K k m (plug C (Node x pa pc pd (Node wl wa RED wd wr)))" and "wl \<noteq> Leaf"
  shows "\<exists>m'. left_red_sibling m (ptr_of x) pa = Some (m', ptr_of wl) \<and>
           rep K k m' (plug (CL wa BLACK wd wr # C) (Node x pa RED pd wl))"
proof -
  have "rep K k m (plug (CR x pa pc pd # C) (Node wl wa RED wd wr))" using r by simp
  note wn = rep_node [OF this] and pn = rep_node [OF r]
  from r rep_set_color [of K k m _ "CR x pa pc pd # C" wl wa RED wd wr BLACK] obtain m1 where
    m1: "set_color m wa BLACK = Some m1" "rep K k m1 (plug C (Node x pa pc pd (Node wl wa BLACK wd wr)))" by auto
  from rep_set_color [OF m1(2) refl, of RED] obtain m2 where
    m2: "set_color m1 pa RED = Some m2" "rep K k m2 (plug C (Node x pa RED pd (Node wl wa BLACK wd wr)))" by auto
  from rotate_left_rep [OF m2(2)] obtain m3 where
    m3: "rotate_left m2 pa = Some m3" "rep K k m3 (plug (CL wa BLACK wd wr # C) (Node x pa RED pd wl))" by auto
  have "0 < ptr_of wl" using is_tree_ptr_nonnull [OF rep_right(3) [OF m3(2)] \<open>wl \<noteq> Leaf\<close>] by simp
  with pn wn m1(1) m2(1) rep_left(2) [OF m2(2)] m3 rep_left(2) [OF m3(2)] rep_node [OF m3(2)]
  show ?thesis by (simp add: left_red_sibling_def)
qed

lemma right_red_sibling_ok:
  assumes r: "rep K k m (plug C (Node (Node wl wa RED wd wr) pa pc pd x))" and "wr \<noteq> Leaf"
  shows "\<exists>m'. right_red_sibling m (ptr_of x) pa = Some (m', ptr_of wr) \<and>
           rep K k m' (plug (CR wl wa BLACK wd # C) (Node wr pa RED pd x))"
proof -
  have "rep K k m (plug (CL pa pc pd x # C) (Node wl wa RED wd wr))" using r by simp
  note wn = rep_node [OF this] and pn = rep_node [OF r]
  from r rep_set_color [of K k m _ "CL pa pc pd x # C" wl wa RED wd wr BLACK] obtain m1 where
    m1: "set_color m wa BLACK = Some m1" "rep K k m1 (plug C (Node (Node wl wa BLACK wd wr) pa pc pd x))" by auto
  from rep_set_color [OF m1(2) refl, of RED] obtain m2 where
    m2: "set_color m1 pa RED = Some m2" "rep K k m2 (plug C (Node (Node wl wa BLACK wd wr) pa RED pd x))" by auto
  from rotate_right_rep [OF m2(2)] obtain m3 where
    m3: "rotate_right m2 pa = Some m3" "rep K k m3 (plug (CR wl wa BLACK wd # C) (Node wr pa RED pd x))" by auto
  have "0 < ptr_of wr" using is_tree_ptr_nonnull [OF rep_left(3) [OF m3(2)] \<open>wr \<noteq> Leaf\<close>] by simp
  with pn wn m1(1) m2(1) m3 rep_node [OF m3(2)]
  show ?thesis by (simp add: right_red_sibling_def)
qed

lemma red_sibling_black:
  "rep K k m (plug C (Node x pa pc pd w)) \<Longrightarrow> w \<noteq> Leaf \<Longrightarrow> \<not> is_red w \<Longrightarrow>
     left_red_sibling m q pa = Some (m, ptr_of w)"
  "rep K k m (plug C (Node w pa pc pd x)) \<Longrightarrow> w \<noteq> Leaf \<Longrightarrow> \<not> is_red w \<Longrightarrow>
     right_red_sibling m q pa = Some (m, ptr_of w)"
  by (cases w; simp add: left_red_sibling_def right_red_sibling_def rep_plug)+

lemma ok_children:
  "ok w n \<Longrightarrow> is_black (tleft w) \<or> is_red (tleft w)" "ok w n \<Longrightarrow> is_black (tright w) \<or> is_red (tright w)"
  if "w \<noteq> Leaf"
  using that by (cases w; auto split: COLOR.splits dest: ok_no_dummy)+

lemma ok_red_children:
  "ok w (Suc n) \<Longrightarrow> is_red w \<Longrightarrow> \<exists>wl wa wd wr. w = Node wl wa RED wd wr \<and> wl \<noteq> Leaf \<and> wr \<noteq> Leaf \<and>
     ok wl (Suc n) \<and> ok wr (Suc n)"
  by (cases w) auto

lemma rb_delete_fixup_left_ok:
  assumes r: "rep K k m (plug (CL pa pc pd w # C) x)" and s: "short (CL pa pc pd w # C) x n"
  shows "round_ok K k pa (del_case (CL pa pc pd w) C x) (rb_delete_fixup_left m (ptr_of x) pa)"
proof -
  from short_sibling [OF s] have w: "w \<noteq> Leaf" "ok w (Suc n)" by auto
  from r have rw: "rep K k m (plug C (Node x pa pc pd w))" by simp
  show ?thesis
  proof (cases "is_red w")
    case False
    with red_sibling_black(1) [OF rw w(1)] left_black_sibling_ok [OF rw w(1) ok_children(1) [OF w] ok_children(2) [OF w]]
    show ?thesis
      by (simp add: rb_delete_fixup_left_def del_case_CL del: del_case.simps)
  next
    case True
    from ok_red_children [OF w(2) True] obtain wl wa wd wr where
      n: "w = Node wl wa RED wd wr" "wl \<noteq> Leaf" "ok wl (Suc n)" by auto
    from left_red_sibling_ok [OF rw [unfolded n(1)] n(2)] obtain m' where
      m': "left_red_sibling m (ptr_of x) pa = Some (m', ptr_of wl)"
        "rep K k m' (plug (CL wa BLACK wd wr # C) (Node x pa RED pd wl))" by auto
    from left_black_sibling_ok [OF m'(2) n(2) ok_children(1) [OF n(2,3)] ok_children(2) [OF n(2,3)]] m'(1) n(1) show ?thesis
      by (simp add: rb_delete_fixup_left_def)
  qed
qed

lemma rb_delete_fixup_right_ok:
  assumes r: "rep K k m (plug (CR w pa pc pd # C) x)" and s: "short (CR w pa pc pd # C) x n"
  shows "round_ok K k pa (del_case (CR w pa pc pd) C x) (rb_delete_fixup_right m (ptr_of x) pa)"
proof -
  from short_sibling [OF s] have w: "w \<noteq> Leaf" "ok w (Suc n)" by auto
  from r have rw: "rep K k m (plug C (Node w pa pc pd x))" by simp
  show ?thesis
  proof (cases "is_red w")
    case False
    with red_sibling_black(2) [OF rw w(1)] right_black_sibling_ok [OF rw w(1) ok_children(1) [OF w] ok_children(2) [OF w]]
    show ?thesis
      by (simp add: rb_delete_fixup_right_def del_case_CR del: del_case.simps)
  next
    case True
    from ok_red_children [OF w(2) True] obtain wl wa wd wr where
      n: "w = Node wl wa RED wd wr" "wr \<noteq> Leaf" "ok wr (Suc n)" by auto
    from right_red_sibling_ok [OF rw [unfolded n(1)] n(2)] obtain m' where
      m': "right_red_sibling m (ptr_of x) pa = Some (m', ptr_of wr)"
        "rep K k m' (plug (CR wl wa BLACK wd # C) (Node wr pa RED pd x))" by auto
    from right_black_sibling_ok [OF m'(2) n(2) ok_children(1) [OF n(2,3)] ok_children(2) [OF n(2,3)]] m'(1) n(1) show ?thesis
      by (simp add: rb_delete_fixup_right_def)
  qed
qed

section \<open>The loop refines its specification\<close>

lemma ctx_root: "is_ctx h rt C q \<Longrightarrow> C \<noteq> [] \<Longrightarrow> rt \<in> set (caddrs C) \<and> 0 < rt"
proof (induction h rt C q rule: is_ctx.induct)
  case (2 h rt a c d r C q)
  then show ?case by (cases C) auto
next
  case (3 h rt l a c d C q)
  then show ?case by (cases C) auto
qed simp

lemma not_root:
  assumes "rep K k m (plug C x)" and "C \<noteq> []"
  shows "rnode m \<noteq> ptr_of x" "rnode m \<noteq> NULL"
  using assms ctx_root [of "nodes m" "rnode m" C] ptr_of_in [of x] by (cases "x = Leaf"; auto simp: rep_plug)+

lemma rep_x_parent:
  assumes "rep K k m (plug C x)" and "x = Leaf \<longrightarrow> p = ctx_parent C"
  shows "(if ptr_of x \<noteq> NULL then do { n \<leftarrow> nodes m (ptr_of x); Some (parent n) } else Some p) =
     Some (ctx_parent C)"
  using assms by (cases x) (auto simp: rep_plug)

abbreviation round :: "rb_mem \<Rightarrow> cstep \<Rightarrow> addr \<Rightarrow> (rb_mem \<times> addr) option" where
  "round m s q \<equiv> (case s of CL pa pc pd w \<Rightarrow> rb_delete_fixup_left m q pa
     | CR w pa pc pd \<Rightarrow> rb_delete_fixup_right m q pa)"

lemma round_rep:
  assumes "rep K k m (plug (s # C) x)" and "short (s # C) x n"
  shows "round_ok K k (caddr s) (del_case s C x) (round m s (ptr_of x))"
proof (cases s)
  case (CL pa pc pd w)
  with rb_delete_fixup_left_ok assms show ?thesis by simp
next
  case (CR w pa pc pd)
  with rb_delete_fixup_right_ok assms show ?thesis by simp
qed

lemma sib_ptr:
  assumes "rep K k m (plug (s # C) x)" and "csib s \<noteq> Leaf"
  shows "ptr_of (csib s) \<noteq> ptr_of x"
  using assms by (cases s; cases "csib s"; cases x; auto simp: rep_plug)

lemma loop_round:
  assumes r: "rep K k m (plug (s # C) x)" and s: "short (s # C) x n" and b: "is_black x"
    and p: "x = Leaf \<longrightarrow> p = ctx_parent (s # C)"
  shows "rb_delete_fixup_loop m (ptr_of x) p =
    do { (m, q) \<leftarrow> round m s (ptr_of x); rb_delete_fixup_loop m q (caddr s) }"
proof -
  from rep_step_node [OF r] obtain n where n: "nodes m (caddr s) = Some n"
    "left n = (case s of CL a c d r \<Rightarrow> ptr_of x | CR l a c d \<Rightarrow> ptr_of l)" by auto
  from sib_ptr [OF r] short_sibling [OF s] n(2)
  have "(ptr_of x = left n) = (\<exists>pa pc pd w. s = CL pa pc pd w)" by (cases s) auto
  with not_root(1) [OF r] rep_has_color(3) [OF r] rep_x_parent [OF r p] b n(1) show ?thesis
    by (subst rb_delete_fixup_loop.simps) (cases s; simp)
qed

lemma del_case_Inl_ptr:
  assumes "del_case s C x = Inl (C', x')"
  shows "x' \<noteq> Leaf \<and> ptr_of x' = caddr s"
proof (cases s)
  case (CL pa pc pd w)
  with assms left_case_Inl show ?thesis
    by (fastforce simp: del_case_CL simp del: del_case.simps left_case.simps split: if_splits)
next
  case (CR w pa pc pd)
  with assms right_case_Inl show ?thesis
    by (fastforce simp: del_case_CR simp del: del_case.simps right_case.simps split: if_splits)
qed

lemma paint_paint [simp]: "paint c (paint c' t) = paint c t"
  by (cases t) auto

lemma rb_delete_fixup_loop_rep:
  assumes "rep K k m (plug C x)" and "short C x n" and "C \<noteq> [] \<or> x \<noteq> Leaf"
    and "x = Leaf \<longrightarrow> p = ctx_parent C"
  shows "\<exists>m' C' x'. rb_delete_fixup_loop m (ptr_of x) p = Some (m', ptr_of x') \<and> x' \<noteq> Leaf \<and>
           rep K k m' (plug C' x') \<and>
           paint BLACK (plug C' (paint BLACK x')) = paint BLACK (del_fix C x)"
  using assms
proof (induction C x arbitrary: m n p rule: del_fix.induct)
  case (1 x)
  then have "rnode m = ptr_of x" by (simp add: rep_def)
  then have "rb_delete_fixup_loop m (ptr_of x) p = Some (m, ptr_of x)"
    by (subst rb_delete_fixup_loop.simps) simp
  with 1 show ?case by (intro exI [of _ m] exI [of _ "[]"] exI [of _ x]) simp
next
  case (2 s C x)
  note nr = not_root(1) [OF 2(2)]
  note hc = rep_has_color(3) [OF 2(2)]
  show ?case
  proof (cases "is_red x")
    case True
    with is_red_not_black nr hc have "rb_delete_fixup_loop m (ptr_of x) p = Some (m, ptr_of x)"
      by (subst rb_delete_fixup_loop.simps) simp
    with True 2(2) show ?thesis
      by (intro exI [of _ m] exI [of _ "s # C"] exI [of _ x]) (auto simp del: plug.simps)
  next
    case False
    have b: "is_black x" using 2(3) False by (auto simp: short_def not_red_black)
    note go = loop_round [OF 2(2,3) b 2(5)] and ro = round_rep [OF 2(2,3)]
    show ?thesis
    proof (cases "del_case s C x")
      case (Inl y)
      obtain C' x' where y: "y = (C', x')" by fastforce
      from del_case_ok [OF 2(3) False] Inl y obtain k' where s': "short C' x' k'" by auto
      from ro Inl y obtain m' where m': "round m s (ptr_of x) = Some (m', caddr s)" "rep K k m' (plug C' x')"
        by (auto simp: round_ok_def)
      from del_case_Inl_ptr [OF Inl [unfolded y]] have x': "x' \<noteq> Leaf" "ptr_of x' = caddr s" by auto
      from 2(1) [OF False Inl [unfolded y] refl m'(2) s', of "caddr s"] x' go m'(1) False Inl y
      show ?thesis by auto
    next
      case (Inr t)
      from ro Inr obtain m' where m': "round m s (ptr_of x) = Some (m', rnode m')" "rep K k m' t"
        by (auto simp: round_ok_def)
      have "inorder t \<noteq> []" using seq_del_case [OF 2(3)] Inr by (cases s) auto
      then have "t \<noteq> Leaf" "rnode m' = ptr_of t" using m'(2) by (auto simp: rep_def)
      have "rb_delete_fixup_loop m' (rnode m') (caddr s) = Some (m', rnode m')"
        by (subst rb_delete_fixup_loop.simps) simp
      with go m' Inr False \<open>t \<noteq> Leaf\<close> \<open>rnode m' = ptr_of t\<close> show ?thesis
        by (intro exI [of _ m'] exI [of _ "[]"] exI [of _ t]) simp
    qed
  qed
qed

lemma rb_delete_fixup_rep:
  assumes r: "rep K k m (plug C x)" and s: "short C x n"
  shows "\<exists>m' t. rb_delete_fixup m (ptr_of x) (ctx_parent C) = Some m' \<and> rep K k m' t \<and> rb t \<and>
           inorder t = clow C @ inorder x @ chigh C"
proof (cases "C \<noteq> [] \<or> x \<noteq> Leaf")
  case False
  with r have "rb_delete_fixup m (ptr_of x) (ctx_parent C) = Some m"
    by (simp add: rb_delete_fixup_def rep_def)
  moreover have "rb Leaf" by (simp add: rb_def)
  ultimately show ?thesis using r False by (intro exI [of _ m] exI [of _ Leaf]) simp
next
  case True
  let ?t = "paint BLACK (del_fix C x)"
  from rb_delete_fixup_loop_rep [OF r s True, of "ctx_parent C"] obtain m1 C' x' where
    m1: "rb_delete_fixup_loop m (ptr_of x) (ctx_parent C) = Some (m1, ptr_of x')" "x' \<noteq> Leaf"
      "rep K k m1 (plug C' x')" "paint BLACK (plug C' (paint BLACK x')) = ?t" by auto
  obtain l a c d r where x': "x' = Node l a c d r" using m1(2) by (cases x') auto
  from rep_set_color [OF m1(3) [unfolded x'] refl, of BLACK] obtain m2 where
    m2: "set_color m1 a BLACK = Some m2" "rep K k m2 (plug C' (paint BLACK x'))" using x' by auto
  have "plug C' (paint BLACK x') \<noteq> Leaf" using x' by (metis inorder_plug inorder.simps Nil_is_append_conv list.discI paint.simps(2))
  from rep_root_color [OF m2(2) this, of BLACK] m1(4) obtain m3 where
    m3: "set_color m2 (rnode m2) BLACK = Some m3" "rep K k m3 ?t" by (auto simp: set_color_def)
  have nn: "rnode m \<noteq> NULL \<and> (ptr_of x \<noteq> NULL \<or> ctx_parent C \<noteq> NULL)"
  proof (cases "C = []")
    case True
    with \<open>C \<noteq> [] \<or> x \<noteq> Leaf\<close> r show ?thesis by (cases x) (auto simp: rep_def)
  next
    case False
    with not_root(2) [OF r] r show ?thesis by (auto simp: rep_plug dest: is_ctx_parent_nonnull)
  qed
  have "0 < a" using m1(3) x' by (simp add: rep_plug)
  with nn m1(1) m2(1) m3(1) x' have "rb_delete_fixup m (ptr_of x) (ctx_parent C) = Some m3"
    by (auto simp: rb_delete_fixup_def)
  with m3(2) rb_del_fix [OF s] inorder_del_fix [OF s] show ?thesis by auto
qed

section \<open>Taking the place of a node\<close>

text \<open>
  The memory in which \<open>y\<close> is about to replace \<open>z\<close>: \<open>y\<close> already owns its right subtree, and \<open>z\<close>
  still sits in the tree.
\<close>

definition replacing :: "(addr \<rightharpoonup> rb_node) \<Rightarrow> u64 \<Rightarrow> rb_mem \<Rightarrow> ctx \<Rightarrow> tree \<Rightarrow> addr \<Rightarrow> COLOR \<Rightarrow> rb_data \<Rightarrow> addr \<Rightarrow> rb_data \<Rightarrow> tree \<Rightarrow> bool" where
  "replacing K k m C l z c d y yd r \<longleftrightarrow>
     is_ctx (nodes m) (rnode m) C z \<and> z \<noteq> NULL \<and> y \<noteq> NULL \<and> y \<noteq> z \<and> l \<noteq> Leaf \<and>
     (\<exists>q. nodes m z = Some \<lparr>parent = ctx_parent C, left = ptr_of l, right = q, color = c, data = d\<rparr>) \<and>
     (\<exists>p' l' c'. nodes m y = Some \<lparr>parent = p', left = l', right = ptr_of r, color = c', data = yd\<rparr>) \<and>
     is_tree (nodes m) z l \<and> is_tree (nodes m) y r \<and>
     distinct (y # z # addrs l @ addrs r @ caddrs C) \<and>
     (\<forall>x. x \<noteq> y \<longrightarrow> x \<noteq> z \<longrightarrow> x \<notin> set (addrs l) \<longrightarrow> x \<notin> set (addrs r) \<longrightarrow> x \<notin> set (caddrs C) \<longrightarrow>
        nodes m x = K x) \<and> K NULL = None \<and> rcount m = k"

lemma rb_replace_rep:
  assumes "replacing K k m C l z c d y yd r"
  shows "\<exists>m' n. rb_replace m z y = Some m' \<and> nodes m' z = Some n \<and> data n = d \<and>
           rep (K(z \<mapsto> n)) k m' (plug C (Node l y c yd r))"
proof -
  obtain ll la lc ld lr where l: "l = Node ll la lc ld lr"
    using assms by (cases l) (auto simp: replacing_def)
  from assms l obtain q p' l' c' where n:
    "nodes m z = Some \<lparr>parent = ctx_parent C, left = la, right = q, color = c, data = d\<rparr>"
    "nodes m y = Some \<lparr>parent = p', left = l', right = ptr_of r, color = c', data = yd\<rparr>"
    "nodes m la = Some \<lparr>parent = z, left = ptr_of ll, right = ptr_of lr, color = lc, data = ld\<rparr>"
    by (auto simp: replacing_def)
  from assms have t: "is_ctx (nodes m) (rnode m) C z" "0 < z" "0 < y" "y \<noteq> z"
    "is_tree (nodes m) z l" "is_tree (nodes m) y r" "K 0 = None" "rcount m = k"
    and ds: "distinct (y # z # addrs l @ addrs r @ caddrs C)"
    and K: "\<forall>x. x \<noteq> y \<longrightarrow> x \<noteq> z \<longrightarrow> x \<notin> set (addrs l) \<longrightarrow> x \<notin> set (addrs r) \<longrightarrow>
        x \<notin> set (caddrs C) \<longrightarrow> nodes m x = K x"
    by (auto simp: replacing_def)
  show ?thesis
  proof (cases C)
    case Nil
    with n t ds K l show ?thesis
      by (simp add: rb_replace_def rb_transplant_def rep_exec) (auto simp: rep_def)
  next
    case (Cons s C')
    with n t ds K l show ?thesis
      by (cases s) (simp_all add: rb_replace_def rb_transplant_def rep_exec, blast+)
  qed
qed

lemma min_ctx_parent: "t \<noteq> Leaf \<Longrightarrow> min_node t = Node Leaf a c d r \<Longrightarrow> min_ctx t = [] \<longleftrightarrow> t = Node Leaf a c d r"
  by (cases t rule: min_ctx.cases) auto

lemma caddrs_append [simp]: "caddrs (C @ D) = caddrs C @ caddrs D"
  by (induction C) auto

lemma rb_cut_min_rep:
  assumes r: "rep K k m (plug C (Node l z c d r))" and "l \<noteq> Leaf" and "r \<noteq> Leaf"
    and y: "min_node r = Node Leaf y yc yd yr"
  shows "\<exists>m'. rb_cut_min m z y = Some (m', ctx_parent (min_ctx r @ CR l y c yd # C)) \<and>
           replacing K k m' C l z c d y yd (plug (min_ctx r) yr)"
proof (cases "min_ctx r")
  case Nil
  with min_ctx_parent [OF assms(3) y] have r': "r = Node Leaf y yc yd yr" by simp
  have "replacing K k m C l z c d y yd yr"
    using r r' \<open>l \<noteq> Leaf\<close> by (auto simp: replacing_def rep_plug)
  moreover have "rb_cut_min m z y = Some (m, y)"
  proof (cases yr)
    case Leaf
    with r r' show ?thesis by (auto simp: rb_cut_min_def rep_plug)
  next
    case (Node yl ya yc' yd' yrr)
    with r r' have "nodes m ya = Some \<lparr>parent = y, left = ptr_of yl, right = ptr_of yrr, color = yc', data = yd'\<rparr>"
      by (simp add: rep_plug)
    then have "upd_node m ya (\<lambda>n. n\<lparr>parent := y\<rparr>) = Some m"
      by (simp add: upd_node_def fun_upd_idem)
    with r r' Node show ?thesis by (auto simp: rb_cut_min_def rep_plug)
  qed
  ultimately show ?thesis using Nil by simp
next
  case (Cons s M)
  let ?M = "min_ctx r @ CR l z c d # C"
  from r plug_min [of r] y have r1: "rep K k m (plug ?M (Node Leaf y yc yd yr))"
    by (simp add: plug_append)
  note yn = rep_node [OF r1] and zn = rep_node [OF r]
  have pne: "ctx_parent ?M \<noteq> z" using r1 Cons by (auto simp: rep_plug)
  from transplant_rep [OF r1, of yr] obtain m1 n where
    m1: "rb_transplant m y (ptr_of yr) = Some m1" "nodes m1 y = Some n" "data n = yd"
      "rep (K(y \<mapsto> n)) k m1 (plug ?M yr)" by auto
  let ?r = "plug (min_ctx r) yr"
  from Cons have "?r \<noteq> Leaf" by (metis addrs.simps(1) set_addrs_plug caddrs.simps(2) list.set(1) list.set_intros(1) Un_iff empty_iff)
  then obtain rl ra rc rd rr where r': "?r = Node rl ra rc rd rr" by (cases ?r) auto
  have m1r: "rep (K(y \<mapsto> n)) k m1 (plug C (Node l z c d ?r))" using m1(4) by (simp add: plug_append)
  let ?h = "(nodes m1)(y \<mapsto> n\<lparr>right := ra\<rparr>,
      ra \<mapsto> \<lparr>parent = y, left = ptr_of rl, right = ptr_of rr, color = rc, data = rd\<rparr>)"
  note zn1 = rep_node [OF m1r]
  have yin: "y \<notin> set (addrs (plug C (Node l z c d ?r)))" "0 < y"
    using r1 by (auto simp: rep_plug)
  have ran: "nodes m1 ra = Some \<lparr>parent = z, left = ptr_of rl, right = ptr_of rr, color = rc, data = rd\<rparr>"
    and "ra \<noteq> y"
    using m1r yin r' by (auto simp: rep_plug)
  then have "rb_cut_min m z y = Some (m1\<lparr>nodes := ?h\<rparr>, ctx_parent ?M)"
    using zn yn pne m1(1,2) zn1 r' by (simp add: rb_cut_min_def upd_node_def Let_def del: ctx_parent.simps)
  moreover have "ctx_parent ?M = ctx_parent (min_ctx r @ CR l y c yd # C)" using Cons by simp
  moreover have "replacing K k (m1\<lparr>nodes := ?h\<rparr>) C l z c d y yd ?r"
    using m1r yin m1(2,3) \<open>l \<noteq> Leaf\<close> \<open>ra \<noteq> y\<close> unfolding replacing_def r'
    by (cases n) (auto simp: rep_plug)
  ultimately show ?thesis by simp
qed

lemma black_hole_relabel:
  "black_hole (M @ CR l z c d # C) = black_hole (M @ CR l y c yd # C)"
  by (cases M) auto

lemma cok_relabel: "cok (M @ CR l z c d # C) n = cok (M @ CR l y c yd # C) n"
  by (induction M arbitrary: n)
    (auto split: COLOR.splits simp: black_hole_relabel [of _ l z c d C y yd])

section \<open>Deletion\<close>

text \<open>
  After the unlinking, a subtree \<open>x\<close> stands where a node of colour \<open>c\<close> with the only child \<open>x\<close>
  stood.
\<close>

lemma rb_delete_finish:
  assumes "rep K k m (plug C x)" and "cok C n" and "ok (Node Leaf a c d x) n \<or> ok (Node x a c d Leaf) n"
    and "black_hole C \<longrightarrow> c = BLACK"
  shows "\<exists>m' t. (if c = BLACK then rb_delete_fixup m (ptr_of x) (ctx_parent C) else Some m) = Some m' \<and>
           rep K k m' t \<and> rb t \<and> inorder t = clow C @ inorder x @ chigh C"
proof (cases "c = BLACK")
  case True
  with assms(3) have "0 < n" "ok x (n - 1)" by auto
  with assms(2) have "short C x (n - 1)" by (intro shortI) auto
  from rb_delete_fixup_rep [OF assms(1) this] True show ?thesis by simp
next
  case False
  with assms(3) have "ok x n" "is_black x" by (auto split: COLOR.splits)
  with assms(2) have "rb (plug C x)" by (rule rb_plugI)
  with assms(1) False show ?thesis by auto
qed

lemma rep_outside: "rep K k m t \<Longrightarrow> x \<notin> set (addrs t) \<Longrightarrow> nodes m x = K x"
  by (simp add: rep_def)

lemma chigh_append: "chigh (C @ D) = chigh C @ chigh D"
  by (induction C rule: chigh.induct) auto

lemma inorder_min:
  assumes "min_node r = Node Leaf y yc yd yr"
  shows "inorder r = (y, yd) # inorder yr @ chigh (min_ctx r)"
  using arg_cong [OF plug_min [of r], of inorder] clow_min_ctx [of r "[]"] assms by simp

lemma set_caddrs: "set (caddrs C) = fst ` set (clow C @ chigh C)"
  by (induction C rule: clow.induct) (auto simp: set_addrs_inorder)

lemma deleted_outside:
  assumes "rep K k m (plug C (Node l z c d r))" and "rep (K(z \<mapsto> n)) k' m' t"
    and "inorder t = clow C @ inorder l @ inorder r @ chigh C"
  shows "nodes m' z = Some n"
proof -
  have "z \<notin> set (addrs l) \<union> set (addrs r) \<union> set (caddrs C)" using assms(1) by (auto simp: rep_plug)
  moreover have "set (addrs t) = set (addrs l) \<union> set (addrs r) \<union> set (caddrs C)"
    by (auto simp: set_addrs_inorder set_caddrs assms(3))
  ultimately show ?thesis using rep_outside [OF assms(2), of z] by simp
qed

lemma rep_root_nonnull:
  assumes "rep K k m (plug C (Node l z c d r))"
  shows "rnode m \<noteq> NULL"
proof (cases "C = []")
  case True
  with assms rep_node [OF assms] show ?thesis by (simp add: rep_def)
next
  case False
  with not_root(2) assms show ?thesis by blast
qed

lemma rb_dec_count: "rep K k m t \<Longrightarrow> rep K (k - 1) (m\<lparr>rcount := rcount m - 1\<rparr>) t"
  by (simp add: rep_def)

text \<open>The node leaves the tree but stays allocated; the caller frees it.\<close>

definition deleted :: "(addr \<rightharpoonup> rb_node) \<Rightarrow> u64 \<Rightarrow> ctx \<Rightarrow> tree \<Rightarrow> addr \<Rightarrow> rb_data \<Rightarrow> tree \<Rightarrow> rb_mem \<Rightarrow> bool" where
  "deleted K k C l z d r m' \<longleftrightarrow>
     (\<exists>n t. nodes m' z = Some n \<and> data n = d \<and> rep (K(z \<mapsto> n)) (k - 1) m' t \<and> rb t \<and>
        inorder t = clow C @ inorder l @ inorder r @ chigh C)"

lemma deletedI:
  assumes "rep K k m (plug C (Node l z c d r))" and "rep (K(z \<mapsto> n)) k m' t" and "data n = d" and "rb t"
    and "inorder t = clow C @ inorder l @ inorder r @ chigh C"
  shows "deleted K k C l z d r (m'\<lparr>rcount := rcount m' - 1\<rparr>)"
  unfolding deleted_def
  using rb_dec_count [OF assms(2)] deleted_outside [OF assms(1,2,5)] assms(3-5)
  by (intro exI [of _ n] exI [of _ t]) simp

lemma rb_delete_one_child:
  assumes r: "rep K k m (plug C (Node l z c d r))" and b: "rb (plug C (Node l z c d r))"
    and x: "l = Leaf \<and> x = r \<or> r = Leaf \<and> l \<noteq> Leaf \<and> x = l"
  shows "\<exists>m'. rb_delete m z = Some m' \<and> deleted K k C l z d r m'"
proof -
  from b obtain N where N: "cok C N" "ok (Node l z c d r) N" "black_hole C \<longrightarrow> c = BLACK"
    by (elim rb_plugE) auto
  from transplant_rep [OF r, of x] x obtain m1 n where
    m1: "rb_transplant m z (ptr_of x) = Some m1" "data n = d" "rep (K(z \<mapsto> n)) k m1 (plug C x)" by auto
  from rb_delete_finish [OF m1(3) N(1) _ N(3), of z d] x N(2) obtain m2 t where
    m2: "(if c = BLACK then rb_delete_fixup m1 (ptr_of x) (ctx_parent C) else Some m1) = Some m2"
      "rep (K(z \<mapsto> n)) k m2 t" "rb t" "inorder t = clow C @ inorder x @ chigh C" by auto
  have "l \<noteq> Leaf \<Longrightarrow> ptr_of l \<noteq> NULL" using is_tree_ptr_nonnull [OF rep_left(3) [OF r]] .
  with rep_root_nonnull [OF r] rep_node [OF r] x m1(1) m2(1)
  have "rb_delete m z = Some (m2\<lparr>rcount := rcount m2 - 1\<rparr>)"
    by (auto simp: rb_delete_def split: if_splits)
  with deletedI [OF r m2(2) m1(2) m2(3)] m2(4) x show ?thesis by auto
qed

lemma rb_delete_two_children:
  assumes r: "rep K k m (plug C (Node l z c d r))" and b: "rb (plug C (Node l z c d r))"
    and ne: "l \<noteq> Leaf" "r \<noteq> Leaf"
  shows "\<exists>m'. rb_delete m z = Some m' \<and> deleted K k C l z d r m'"
proof -
  obtain y yc yd yr where y: "min_node r = Node Leaf y yc yd yr" using min_node_left [OF ne(2)] by blast
  let ?z = "min_ctx r @ CR l z c d # C" and ?y = "min_ctx r @ CR l y c yd # C"
  have pz: "plug C (Node l z c d r) = plug ?z (Node Leaf y yc yd yr)"
    using plug_min [of r] y by (simp add: plug_append)
  note yn = rep_node [OF r [unfolded pz]]
  from b pz obtain N where N: "cok ?y N" "ok (Node Leaf y yc yd yr) N" "black_hole ?y \<longrightarrow> yc = BLACK"
    by (auto elim!: rb_plugE simp: cok_relabel [of _ l z c d C _ y yd] black_hole_relabel [of _ l z c d C y yd])
  from rb_cut_min_rep [OF r ne y] obtain m1 where
    m1: "rb_cut_min m z y = Some (m1, ctx_parent ?y)" "replacing K k m1 C l z c d y yd (plug (min_ctx r) yr)"
    by auto
  from rb_replace_rep [OF m1(2)] obtain m2 n where
    m2: "rb_replace m1 z y = Some m2" "data n = d" "rep (K(z \<mapsto> n)) k m2 (plug ?y yr)"
    by (auto simp: plug_append)
  from rb_delete_finish [OF m2(3) N(1) disjI1 [OF N(2)] N(3)] obtain m3 t where
    m3: "(if yc = BLACK then rb_delete_fixup m2 (ptr_of yr) (ctx_parent ?y) else Some m2) = Some m3"
      "rep (K(z \<mapsto> n)) k m3 t" "rb t" "inorder t = clow ?y @ inorder yr @ chigh ?y" by auto
  have nn: "ptr_of l \<noteq> NULL" "ptr_of r \<noteq> NULL"
    using is_tree_ptr_nonnull [OF rep_left(3) [OF r] ne(1)] is_tree_ptr_nonnull [OF rep_right(3) [OF r] ne(2)] by auto
  have "rb_minimum m (ptr_of r) = Some y"
    using rb_leftmost_rep [OF rep_right(3) [OF r] ne(2)] rep_root_nonnull [OF r] nn y
    by (simp add: rb_minimum_def)
  with nn rep_root_nonnull [OF r] rep_node [OF r] yn m1(1) m2(1) m3(1)
  have "rb_delete m z = Some (m3\<lparr>rcount := rcount m3 - 1\<rparr>)"
    by (auto simp: rb_delete_def split: if_splits)
  moreover have "inorder t = clow C @ inorder l @ inorder r @ chigh C"
    using m3(4) inorder_min [OF y] by (simp add: clow_min_ctx chigh_append)
  ultimately show ?thesis using deletedI [OF r m3(2) m2(2) m3(3)] by auto
qed

lemma rb_delete_rep:
  assumes "rep K k m (plug C (Node l z c d r))" and "rb (plug C (Node l z c d r))"
  shows "\<exists>m'. rb_delete m z = Some m' \<and> deleted K k C l z d r m'"
  using rb_delete_one_child [OF assms] rb_delete_two_children [OF assms] by blast

end
