(* ===== verification/Rb_Store.thy ===== *)
theory Rb_Store
  imports Rb_Delete
begin

text \<open>
  The contract of the interval tree of \<^verbatim>\<open>range_lock.c\<close> towards its client, the range lock:
  a store of pairwise disjoint intervals. The contract is a locale, interpreted on the
  operations of the tree; what a client concludes from it alone is proved once, inside.
  The theory ends with the self check that a build with \<^verbatim>\<open>DEBUG\<close> runs after every operation.
\<close>

section \<open>The tree as a store\<close>

text \<open>
  \<open>rb_stored K m xs\<close>: the tree in \<open>m\<close> holds exactly the nodes \<open>xs\<close>, from left to right; outside
  the tree the memory is \<open>K\<close>.
\<close>

definition rb_stored :: "(addr \<rightharpoonup> rb_node) \<Rightarrow> rb_mem \<Rightarrow> (addr \<times> rb_data) list \<Rightarrow> bool" where
  "rb_stored K m xs \<longleftrightarrow>
     (\<exists>t. rep K (of_nat (length xs)) m t \<and> rb t \<and> ivls_ok (inorder t) \<and> inorder t = xs)"

definition rb_init :: rb_mem where
  "rb_init = \<lparr>rnode = NULL, rcount = 0, nodes = Map.empty\<rparr>"

lemma rb_stored_init: "rb_stored Map.empty rb_init []"
  by (auto simp: rb_stored_def rb_init_def rep_def rb_def intro!: exI [of _ Leaf])

definition mod_data :: "rb_mem \<Rightarrow> addr \<Rightarrow> (rb_data \<Rightarrow> rb_data) \<Rightarrow> rb_mem option" where
  "mod_data m a f = upd_node m a (\<lambda>n. n\<lparr>data := f (data n)\<rparr>)"

lemma clow_append: "clow (C @ D) = clow D @ clow C"
  by (induction C rule: clow.induct) auto

lemma inorder_focus:
  assumes "inorder t = lo @ (z, d) # hi"
  shows "\<exists>C l c r. t = plug C (Node l z c d r) \<and> lo = clow C @ inorder l \<and> hi = inorder r @ chigh C"
  using assms
proof (induction t arbitrary: lo hi)
  case (Node l a c' d' r)
  from Node.prems have eq: "inorder l @ (a, d') # inorder r = lo @ (z, d) # hi" by simp
  then consider (here) "inorder l = lo" "a = z" "d' = d" "inorder r = hi"
    | (left) hi' where "inorder l = lo @ (z, d) # hi'" "hi = hi' @ (a, d') # inorder r"
    | (right) lo' where "inorder r = lo' @ (z, d) # hi" "lo = inorder l @ (a, d') # lo'"
    by (auto simp: append_eq_append_conv2 Cons_eq_append_conv append_eq_Cons_conv)
  then show ?case
  proof cases
    case here
    then show ?thesis by (intro exI [of _ "[]"] exI [of _ l] exI [of _ c'] exI [of _ r]) simp
  next
    case left
    from Node.IH(1) [OF left(1)] obtain C l1 c r1 where
      "l = plug C (Node l1 z c d r1)" "lo = clow C @ inorder l1" "hi' = inorder r1 @ chigh C" by blast
    with left show ?thesis
      by (intro exI [of _ "C @ [CL a c' d' r]"] exI [of _ l1] exI [of _ c] exI [of _ r1])
        (simp add: plug_append chigh_append clow_append)
  next
    case right
    from Node.IH(2) [OF right(1)] obtain C l1 c r1 where
      "r = plug C (Node l1 z c d r1)" "lo' = clow C @ inorder l1" "hi = inorder r1 @ chigh C" by blast
    with right show ?thesis
      by (intro exI [of _ "C @ [CR l a c' d']"] exI [of _ l1] exI [of _ c] exI [of _ r1])
        (simp add: plug_append chigh_append clow_append)
  qed
qed simp

lemma rb_recolour_data:
  "rb (plug C (Node l z c d r)) \<longleftrightarrow> rb (plug C (Node l z c d' r))"
  by (simp add: rb_plug_iff)

lemma ivls_ok_data:
  "start d' = start d \<Longrightarrow> iend d' = iend d \<Longrightarrow>
     ivls_ok (lo @ (a, d) # hi) \<longleftrightarrow> ivls_ok (lo @ (a, d') # hi)"
  by (simp add: ivls_ok_append ivls_ok_Cons before_def)

lemma rb_stored_search:
  "rb_stored K m xs \<Longrightarrow> \<exists>q. rb_search m s e = Some q \<and> found xs s e q"
  using rb_search_rep by (auto simp: rb_stored_def)

lemma rb_stored_hit:
  assumes "rb_stored K m xs" and "\<exists>x \<in> set xs. overlaps (snd x) s e" and "a \<noteq> NULL" and "nodes m a = None"
  shows "\<exists>q d. rb_insert m s e a j = Some (m, q) \<and> (q, d) \<in> set xs \<and> overlaps d s e"
proof -
  from assms(1) obtain t where "rep K (of_nat (length xs)) m t" "rb t" "ivls_ok (inorder t)" "inorder t = xs"
    by (auto simp: rb_stored_def)
  from rb_insert_rep [OF this(1-3) assms(3,4), of s e j] assms(2) this(4) show ?thesis by simp
qed

lemma rb_stored_miss:
  assumes "rb_stored K m xs" and "\<forall>x \<in> set xs. \<not> overlaps (snd x) s e" and "a \<noteq> NULL" and "nodes m a = None"
  shows "\<exists>m' lo hi. rb_insert m s e a j = Some (m', a) \<and> xs = lo @ hi \<and>
           rb_stored K m' (lo @ (a, fresh_data (min s e) (max s e) j) # hi)"
proof -
  from assms(1) obtain t where t: "rep K (of_nat (length xs)) m t" "rb t" "ivls_ok (inorder t)" "inorder t = xs"
    by (auto simp: rb_stored_def)
  have "\<not> (\<exists>x \<in> set (inorder t). overlaps (snd x) s e)" using assms(2) t(4) by simp
  with rb_insert_rep [OF t(1-3) assms(3,4), of s e j] obtain m' where
    m': "rb_insert m s e a j = Some (m', a)"
      "inserted K (of_nat (length xs)) t a (fresh_data (min s e) (max s e) j) m'" by (auto simp only: if_False)
  then obtain t' lo hi where "rep K (of_nat (length xs) + 1) m' t'" "rb t'" "xs = lo @ hi"
    "inorder t' = lo @ (a, fresh_data (min s e) (max s e) j) # hi" "ivls_ok (inorder t')"
    using t(4) by (auto simp: inserted_def)
  then have "rb_stored K m' (lo @ (a, fresh_data (min s e) (max s e) j) # hi)"
    by (auto simp: rb_stored_def add.commute intro!: exI [of _ t'])
  with m'(1) \<open>xs = lo @ hi\<close> show ?thesis by blast
qed

lemma rb_stored_remove:
  assumes "rb_stored K m (lo @ (z, d) # hi)"
  shows "\<exists>m' n. rb_delete m z = Some m' \<and> nodes m' z = Some n \<and> data n = d \<and>
           rb_stored (K(z \<mapsto> n)) m' (lo @ hi)"
proof -
  from assms obtain t where t: "rep K (of_nat (length (lo @ (z, d) # hi))) m t" "rb t" "ivls_ok (inorder t)"
    "inorder t = lo @ (z, d) # hi" by (auto simp: rb_stored_def)
  from inorder_focus [OF t(4)] obtain C l c r where
    f: "t = plug C (Node l z c d r)" "lo = clow C @ inorder l" "hi = inorder r @ chigh C" by blast
  from rb_delete_rep [OF t(1,2) [unfolded f(1)]] obtain m' where
    m': "rb_delete m z = Some m'" "deleted K (of_nat (length (lo @ (z, d) # hi))) C l z d r m'" by blast
  then obtain n t' where "nodes m' z = Some n" "data n = d" "rep (K(z \<mapsto> n)) (of_nat (length (lo @ hi))) m' t'"
    "rb t'" "inorder t' = lo @ hi" using f by (auto simp: deleted_def)
  moreover have "ivls_ok (lo @ hi)" using t(3,4) by (auto simp: ivls_ok_append ivls_ok_Cons)
  ultimately have "rb_stored (K(z \<mapsto> n)) m' (lo @ hi)" by (auto simp: rb_stored_def intro!: exI [of _ t'])
  with m'(1) \<open>nodes m' z = Some n\<close> \<open>data n = d\<close> show ?thesis by blast
qed

lemma rb_stored_mod:
  assumes "rb_stored K m (lo @ (z, d) # hi)" and "start (f d) = start d" and "iend (f d) = iend d"
  shows "\<exists>m'. mod_data m z f = Some m' \<and> rb_stored K m' (lo @ (z, f d) # hi)"
proof -
  from assms obtain t where t: "rep K (of_nat (length (lo @ (z, d) # hi))) m t" "rb t" "ivls_ok (inorder t)"
    "inorder t = lo @ (z, d) # hi" by (auto simp: rb_stored_def)
  from inorder_focus [OF t(4)] obtain C l c r where
    c: "t = plug C (Node l z c d r)" "lo = clow C @ inorder l" "hi = inorder r @ chigh C" by blast
  from rep_data [OF t(1) [unfolded c(1)], of f] obtain m' where
    m': "mod_data m z f = Some m'" "rep K (of_nat (length (lo @ (z, d) # hi))) m' (plug C (Node l z c (f d) r))"
    by (auto simp: mod_data_def)
  moreover have "rb (plug C (Node l z c (f d) r))" using t(2) c(1) rb_recolour_data by blast
  moreover have "ivls_ok (lo @ (z, f d) # hi)" using t(3,4) ivls_ok_data [OF assms(2,3)] by simp
  ultimately have "rb_stored K m' (lo @ (z, f d) # hi)"
    using c by (auto simp: rb_stored_def intro!: exI [of _ "plug C (Node l z c (f d) r)"])
  with m'(1) show ?thesis by blast
qed

lemma rb_stored_ordered:
  "rb_stored K m xs \<Longrightarrow> ivls_ok xs \<and> distinct (map fst xs) \<and> NULL \<notin> fst ` set xs"
  unfolding rb_stored_def rep_def using is_tree_nonnull map_fst_inorder set_addrs_inorder by metis

lemma rb_stored_outside:
  "rb_stored K m xs \<Longrightarrow> a \<notin> fst ` set xs \<Longrightarrow> nodes m a = K a"
  by (auto simp: rb_stored_def rep_def simp flip: set_addrs_inorder)

lemma rb_stored_node:
  assumes "rb_stored K m xs" and "(a, d) \<in> set xs"
  shows "\<exists>n. nodes m a = Some n \<and> data n = d"
proof -
  from split_list [OF assms(2)] obtain lo hi where xs: "xs = lo @ (a, d) # hi" by blast
  with assms(1) inorder_focus obtain t C l c r where "rep K (of_nat (length xs)) m t" "t = plug C (Node l a c d r)"
    unfolding rb_stored_def by metis
  with rep_node show ?thesis by fastforce
qed

lemma overlaps_fresh: "overlaps (fresh_data (min s e) (max s e) j) s e"
proof -
  have "overlaps (fresh_data x y j) x y" if "x \<le> y" for x y
    using that by (simp add: overlaps_iff fresh_data_def)
  from this [of s e] this [of e s] show ?thesis
    by (cases "s \<le> e") (auto simp: overlaps_swap [of _ s e])
qed

lemma rb_stored_null: "rb_stored K m xs \<Longrightarrow> nodes m NULL = None"
  using rep_null by (auto simp: rb_stored_def)

lemma rb_outside_upd:
  assumes "rb_stored K m xs" and "a \<notin> fst ` set xs" and "a \<noteq> NULL"
  shows "rb_stored (K(a := v)) (m\<lparr>nodes := (nodes m)(a := v)\<rparr>) xs"
proof -
  from assms(1) obtain t where t: "rep K (of_nat (length xs)) m t" "rb t" "ivls_ok (inorder t)" "inorder t = xs"
    by (auto simp: rb_stored_def)
  have "a \<notin> set (addrs t)" using assms(2) t(4) set_addrs_inorder by auto
  with t assms(3) show ?thesis by (auto simp: rb_stored_def rep_def intro!: exI [of _ t])
qed

lemma rb_outside_modify:
  assumes "rb_stored K m xs" and "a \<notin> fst ` set xs" and "nodes m a = Some n"
  shows "\<exists>m' n'. mod_data m a f = Some m' \<and> nodes m' a = Some n' \<and> data n' = f (data n) \<and>
           rb_stored (K(a \<mapsto> n')) m' xs"
proof -
  have "a \<noteq> NULL" using rb_stored_null [OF assms(1)] assms(3) by (metis option.distinct(1))
  from rb_outside_upd [OF assms(1,2) this] assms(3) show ?thesis
    by (auto simp: mod_data_def upd_node_def)
qed

lemma rb_outside_free:
  assumes "rb_stored K m xs" and "a \<notin> fst ` set xs" and "nodes m a = Some n"
  shows "\<exists>m'. free_node m a = Some m' \<and> rb_stored (K(a := None)) m' xs"
proof -
  have "a \<noteq> NULL" using rb_stored_null [OF assms(1)] assms(3) by (metis option.distinct(1))
  from rb_outside_upd [OF assms(1,2) this] assms(3) show ?thesis by (auto simp: free_node_def)
qed

section \<open>The contract of an interval store\<close>

locale interval_store =
  fixes stored :: "(addr \<rightharpoonup> 'n) \<Rightarrow> 'm \<Rightarrow> (addr \<times> rb_data) list \<Rightarrow> bool"
    and heap :: "'m \<Rightarrow> addr \<rightharpoonup> 'n"
    and node_data :: "'n \<Rightarrow> rb_data"
    and null :: addr
    and search :: "'m \<Rightarrow> u64 \<Rightarrow> u64 \<Rightarrow> addr option"
    and insert :: "'m \<Rightarrow> u64 \<Rightarrow> u64 \<Rightarrow> addr \<Rightarrow> int \<Rightarrow> ('m \<times> addr) option"
    and remove :: "'m \<Rightarrow> addr \<Rightarrow> 'm option"
    and modify :: "'m \<Rightarrow> addr \<Rightarrow> (rb_data \<Rightarrow> rb_data) \<Rightarrow> 'm option"
    and release :: "'m \<Rightarrow> addr \<Rightarrow> 'm option"
  assumes search_law: "stored K m xs \<Longrightarrow> \<exists>q. search m s e = Some q \<and>
      (if q = null then \<forall>x \<in> set xs. \<not> overlaps (snd x) s e else \<exists>d. (q, d) \<in> set xs \<and> overlaps d s e)"
    and hit_law: "stored K m xs \<Longrightarrow> \<exists>x \<in> set xs. overlaps (snd x) s e \<Longrightarrow> a \<noteq> null \<Longrightarrow> heap m a = None \<Longrightarrow>
      \<exists>q d. insert m s e a j = Some (m, q) \<and> (q, d) \<in> set xs \<and> overlaps d s e"
    and miss_law: "stored K m xs \<Longrightarrow> \<forall>x \<in> set xs. \<not> overlaps (snd x) s e \<Longrightarrow> a \<noteq> null \<Longrightarrow> heap m a = None \<Longrightarrow>
      \<exists>m' lo hi. insert m s e a j = Some (m', a) \<and> xs = lo @ hi \<and>
        stored K m' (lo @ (a, fresh_data (min s e) (max s e) j) # hi)"
    and remove_law: "stored K m (lo @ (a, d) # hi) \<Longrightarrow>
      \<exists>m' n. remove m a = Some m' \<and> heap m' a = Some n \<and> node_data n = d \<and> stored (K(a \<mapsto> n)) m' (lo @ hi)"
    and modify_law: "stored K m (lo @ (a, d) # hi) \<Longrightarrow> start (f d) = start d \<Longrightarrow> iend (f d) = iend d \<Longrightarrow>
      \<exists>m'. modify m a f = Some m' \<and> stored K m' (lo @ (a, f d) # hi)"
    and order_law: "stored K m xs \<Longrightarrow> ivls_ok xs \<and> distinct (map fst xs) \<and> null \<notin> fst ` set xs"
    and outside_law: "stored K m xs \<Longrightarrow> a \<notin> fst ` set xs \<Longrightarrow> heap m a = K a"
    and inside_law: "stored K m xs \<Longrightarrow> (a, d) \<in> set xs \<Longrightarrow> \<exists>n. heap m a = Some n \<and> node_data n = d"
    and outside_modify_law: "stored K m xs \<Longrightarrow> a \<notin> fst ` set xs \<Longrightarrow> heap m a = Some n \<Longrightarrow>
      \<exists>m' n'. modify m a f = Some m' \<and> heap m' a = Some n' \<and> node_data n' = f (node_data n) \<and>
        stored (K(a \<mapsto> n')) m' xs"
    and release_law: "stored K m xs \<Longrightarrow> a \<notin> fst ` set xs \<Longrightarrow> heap m a = Some n \<Longrightarrow>
      \<exists>m'. release m a = Some m' \<and> stored (K(a := None)) m' xs"
begin

lemma pairwise_disjoint:
  assumes "stored K m xs" and "(a, d) \<in> set xs" and "(b, d') \<in> set xs" and "a \<noteq> b"
  shows "\<not> overlaps d (start d') (iend d')"
proof -
  note ok = order_law [OF assms(1)]
  from ok assms(2,3) have se: "start d \<le> iend d" "start d' \<le> iend d'" by (auto simp: ivls_ok_def)
  from ok have "sorted_wrt before (map snd xs)" by (simp add: ivls_ok_def)
  moreover from assms(2-4) obtain i j where "i < length xs" "j < length xs" "xs ! i = (a, d)" "xs ! j = (b, d')" "i \<noteq> j"
    unfolding in_set_conv_nth by (metis Pair_inject)
  ultimately have "before d d' \<or> before d' d"
    using sorted_wrt_nth_less [of before "map snd xs" i j] sorted_wrt_nth_less [of before "map snd xs" j i]
    by (cases "i < j") auto
  with se show ?thesis by (auto simp: overlaps_iff before_def dest: leD)
qed

lemma unique_data: "stored K m xs \<Longrightarrow> (a, d) \<in> set xs \<Longrightarrow> (a, d') \<in> set xs \<Longrightarrow> d = d'"
  using order_law eq_key_imp_eq_value by metis

lemma search_null:
  "stored K m xs \<Longrightarrow> search m s e = Some null \<longleftrightarrow> (\<forall>x \<in> set xs. \<not> overlaps (snd x) s e)"
  using search_law [of K m xs s e] order_law [of K m xs] by (fastforce split: if_splits)

lemma search_hit:
  "stored K m xs \<Longrightarrow> search m s e = Some q \<Longrightarrow> q \<noteq> null \<Longrightarrow> \<exists>d. (q, d) \<in> set xs \<and> overlaps d s e"
  using search_law [of K m xs s e] by (auto split: if_splits)

text \<open>An insertion that stores its interval is visible to every later search that meets it.\<close>

lemma insert_search:
  assumes "stored K m xs" and "search m s e = Some null" and "a \<noteq> null" and "heap m a = None"
  shows "\<exists>m'. insert m s e a j = Some (m', a) \<and> (\<exists>q. search m' s e = Some q \<and> q = a)"
proof -
  from assms search_null have none: "\<forall>x \<in> set xs. \<not> overlaps (snd x) s e" by blast
  from miss_law [OF assms(1) none assms(3,4)] obtain m' lo hi where
    m': "insert m s e a j = Some (m', a)" "xs = lo @ hi"
      "stored K m' (lo @ (a, fresh_data (min s e) (max s e) j) # hi)" by blast
  have "overlaps (fresh_data (min s e) (max s e) j) s e" by (rule overlaps_fresh)
  moreover from search_law [OF m'(3), of s e] obtain q where
    q: "search m' s e = Some q" "if q = null
      then \<forall>x \<in> set (lo @ (a, fresh_data (min s e) (max s e) j) # hi). \<not> overlaps (snd x) s e
      else \<exists>d. (q, d) \<in> set (lo @ (a, fresh_data (min s e) (max s e) j) # hi) \<and> overlaps d s e" by blast
  ultimately have "q = a" using none m'(2) by (cases "q = null") force+
  with m'(1) q(1) show ?thesis by blast
qed

text \<open>An insertion followed by the removal of the new node leaves the same intervals.\<close>

lemma insert_remove:
  assumes "stored K m xs" and "search m s e = Some null" and "a \<noteq> null" and "heap m a = None"
  shows "\<exists>m' m'' n. insert m s e a j = Some (m', a) \<and> remove m' a = Some m'' \<and> stored (K(a \<mapsto> n)) m'' xs"
proof -
  from assms search_null have "\<forall>x \<in> set xs. \<not> overlaps (snd x) s e" by blast
  from miss_law [OF assms(1) this assms(3,4)] remove_law show ?thesis by metis
qed

end

interpretation rbs: interval_store rb_stored nodes data NULL rb_search rb_insert rb_delete mod_data free_node
proof (unfold_locales, goal_cases)
  case 1 then show ?case using rb_stored_search by (fastforce simp: found_def)
next
  case 2 then show ?case by (rule rb_stored_hit)
next
  case 3 then show ?case by (rule rb_stored_miss)
next
  case 4 then show ?case by (rule rb_stored_remove)
next
  case 5 then show ?case by (rule rb_stored_mod)
next
  case 6 then show ?case by (rule rb_stored_ordered)
next
  case 7 then show ?case by (rule rb_stored_outside)
next
  case 8 then show ?case by (rule rb_stored_node)
next
  case 9 then show ?case by (rule rb_outside_modify)
next
  case 10 then show ?case by (rule rb_outside_free)
qed

section \<open>The self check of a debug build\<close>

text \<open>
  \<^verbatim>\<open>__rb_verify_parent\<close>. The members \<^verbatim>\<open>lh\<close> and \<^verbatim>\<open>rh\<close>, which only a debug build has, are the
  result of the model function.
\<close>

partial_function (option) rb_verify_parent_from :: "rb_mem \<Rightarrow> addr \<Rightarrow> (int \<times> int) option" where
  "rb_verify_parent_from m p = do {
     n \<leftarrow> nodes m p;
     c_assert (start (data n) \<le> iend (data n));
     bl \<leftarrow> null_or_color m (left n) BLACK;
     br \<leftarrow> null_or_color m (right n) BLACK;
     c_assert (color n = RED \<longrightarrow> bl);
     c_assert (color n = RED \<longrightarrow> br);
     lh \<leftarrow> (if left n \<noteq> NULL then do {
             l \<leftarrow> nodes m (left n);
             c_assert (parent l = p);
             (a, b) \<leftarrow> rb_verify_parent_from m (left n);
             c_assert (a = b);
             Some (if color l = BLACK then a + 1 else a)
           } else Some 1);
     rh \<leftarrow> (if right n \<noteq> NULL then do {
             r \<leftarrow> nodes m (right n);
             c_assert (parent r = p);
             (a, b) \<leftarrow> rb_verify_parent_from m (right n);
             c_assert (a = b);
             Some (if color r = BLACK then b + 1 else b)
           } else Some 1);
     c_assert (lh = rh);
     Some (lh, rh)
   }"

declare rb_verify_parent_from.simps [code]

definition rb_verify_parent :: "rb_mem \<Rightarrow> unit option" where
  "rb_verify_parent m =
     (if rnode m = NULL then Some ()
      else do { x \<leftarrow> rb_verify_parent_from m (rnode m); Some () })"

lemma rb_verify_parent_from_rep:
  assumes "is_tree (nodes m) p t" and "ok t n" and "t \<noteq> Leaf"
    and "\<forall>x \<in> set (inorder t). start (snd x) \<le> iend (snd x)"
  shows "rb_verify_parent_from m (ptr_of t) =
     (let h = 1 + int (if is_black t then n - 1 else n) in Some (h, h))"
  using assms
proof (induction t arbitrary: p n)
  case (Node l a c d r)
  let ?k = "if c = BLACK then n - 1 else n"
  have ok: "ok l ?k" "ok r ?k" "c = RED \<longrightarrow> is_black l \<and> is_black r" and c: "c = RED \<or> c = BLACK"
    using Node.prems(2) by (auto split: COLOR.splits)
  have side: "(if ptr_of t \<noteq> NULL then do {
             l \<leftarrow> nodes m (ptr_of t);
             c_assert (parent l = a);
             (x, y) \<leftarrow> rb_verify_parent_from m (ptr_of t);
             c_assert (x = y);
             Some (if color l = BLACK then f x y + 1 else f x y)
           } else Some 1) = Some (1 + int ?k)"
    if "is_tree (nodes m) a t" "ok t ?k" "\<And>x. f x x = x"
      and "t \<noteq> Leaf \<Longrightarrow> rb_verify_parent_from m (ptr_of t) =
        (let h = 1 + int (if is_black t then ?k - 1 else ?k) in Some (h, h))" for t f
    using that by (cases t) (auto simp: Let_def split: COLOR.splits)
  have bl: "null_or_color m (ptr_of t) BLACK = Some (is_black t)" if "is_tree (nodes m) q t" for t q
    using that by (cases t) (auto simp: null_or_color_def)
  from Node.prems(1,4) have t: "is_tree (nodes m) a l" "is_tree (nodes m) a r" "start d \<le> iend d"
    "nodes m a = Some \<lparr>parent = p, left = ptr_of l, right = ptr_of r, color = c, data = d\<rparr>" by auto
  have l: "l \<noteq> Leaf \<Longrightarrow> rb_verify_parent_from m (ptr_of l) =
      (let h = 1 + int (if is_black l then ?k - 1 else ?k) in Some (h, h))"
    and r: "r \<noteq> Leaf \<Longrightarrow> rb_verify_parent_from m (ptr_of r) =
      (let h = 1 + int (if is_black r then ?k - 1 else ?k) in Some (h, h))"
    using Node.IH(1) [OF t(1) ok(1)] Node.IH(2) [OF t(2) ok(2)] Node.prems(4) by auto
  have sl: "start d \<le> iend d \<longleftrightarrow> True" "(c = RED \<longrightarrow> is_black l) \<longleftrightarrow> True" "(c = RED \<longrightarrow> is_black r) \<longleftrightarrow> True"
    using t(3) ok(3) by auto
  have "rb_verify_parent_from m a = Some (1 + int ?k, 1 + int ?k)"
    by (subst rb_verify_parent_from.simps)
      (simp only: t(4) Option.bind.bind_lunit rb_node.simps sl c_assert_True bl [OF t(1)] bl [OF t(2)] simp_thms
        side [of l "\<lambda>x y. x", OF t(1) ok(1) refl l] side [of r "\<lambda>x y. y", OF t(2) ok(2) refl r])
  then show ?case using c by (auto simp: Let_def)
qed simp

lemma rb_verify_parent_stored:
  assumes "rb_stored K m xs"
  shows "rb_verify_parent m = Some ()"
proof -
  from assms obtain t n where t: "rnode m = ptr_of t" "is_tree (nodes m) NULL t" "ok t n" "ivls_ok (inorder t)"
    by (auto simp: rb_stored_def rep_def rb_def)
  show ?thesis
  proof (cases "t = Leaf")
    case False
    from t(4) have "\<forall>x \<in> set (inorder t). start (snd x) \<le> iend (snd x)" by (auto simp: ivls_ok_def)
    from rb_verify_parent_from_rep [OF t(2,3) False this] t(1) show ?thesis
      by (simp add: rb_verify_parent_def Let_def)
  qed (use t in \<open>simp add: rb_verify_parent_def\<close>)
qed

section \<open>Theorems about the interval tree\<close>

text \<open>Two memories to evaluate on: one interval, and two.\<close>

definition mem1 :: rb_mem where "mem1 = fst (the (rb_insert rb_init 10 20 1 0))"
definition mem2 :: rb_mem where "mem2 = fst (the (rb_insert mem1 40 30 2 0))"

definition ivl1 :: "addr \<times> rb_data" where "ivl1 = (1, fresh_data 10 20 0)"
definition ivl2 :: "addr \<times> rb_data" where "ivl2 = (2, fresh_data 30 40 0)"

lemma mem1: "rb_stored Map.empty mem1 [ivl1]"
proof -
  from rbs.miss_law [OF rb_stored_init, of 10 20 1 0] obtain m' lo hi where
    "rb_insert rb_init 10 20 1 0 = Some (m', 1)" "[] = lo @ hi"
    "rb_stored Map.empty m' (lo @ (1, fresh_data (min 10 20) (max 10 20) 0) # hi)"
    by (auto simp: rb_init_def)
  then show ?thesis by (simp add: mem1_def ivl1_def)
qed

lemma mem2: "rb_stored Map.empty mem2 [ivl1, ivl2]"
proof -
  have "\<not> overlaps (snd ivl1) 40 30" "nodes mem1 2 = None" by code_simp+
  with rbs.miss_law [OF mem1, of 40 30 2 0] obtain m' lo hi where
    m': "rb_insert mem1 40 30 2 0 = Some (m', 2)" "[ivl1] = lo @ hi"
    "rb_stored Map.empty m' (lo @ (2, fresh_data (min 40 30) (max 40 30) 0) # hi)"
    by auto
  have "ivls_ok (lo @ (2, fresh_data 30 40 0) # hi)" using rbs.order_law [OF m'(3)] by simp
  with m'(2) have "lo = [ivl1] \<and> hi = []"
    by (cases lo) (auto simp: ivls_ok_Cons before_def fresh_data_def ivl1_def)
  with m' show ?thesis by (simp add: mem2_def ivl2_def)
qed

text \<open>
  \<^verbatim>\<open>rb_search\<close> returns (its \<^verbatim>\<open>assert(0)\<close> is never reached), and it returns
  a node of the tree whose interval overlaps \<open>[s, e]\<close> if there is one, and NULL otherwise.
\<close>

theorem rb_search_correct:
  assumes "rb_stored K m xs"
  shows "\<exists>q. rb_search m s e = Some q \<and>
           (if \<exists>x \<in> set xs. overlaps (snd x) s e
            then q \<noteq> NULL \<and> (\<exists>d. (q, d) \<in> set xs \<and> overlaps d s e) else q = NULL)"
proof -
  from rbs.search_law [OF assms, of s e] obtain q where
    "rb_search m s e = Some q" "if q = NULL then \<forall>x \<in> set xs. \<not> overlaps (snd x) s e
       else \<exists>d. (q, d) \<in> set xs \<and> overlaps d s e" by blast
  then show ?thesis by (cases "q = NULL") force+
qed

theorem rb_search_correct_witness:
  "\<exists>q. rb_search mem2 35 15 = Some q \<and>
     (if \<exists>x \<in> set [ivl1, ivl2]. overlaps (snd x) 35 15
      then q \<noteq> NULL \<and>
        (\<exists>d. (q, d) \<in> set [ivl1, ivl2] \<and> overlaps d 35 15)
      else q = NULL)"
  by (rule rb_search_correct [OF mem2])

text \<open>
  C5 (rb_insert_correct): given a fresh block, \<^verbatim>\<open>rb_insert\<close> returns with all its assertions passed.
  If a stored interval overlaps \<open>[s, e]\<close> it returns such a node and changes nothing. Otherwise
  the block becomes a node of the tree for \<open>[min s e, max s e]\<close>, at its place in the order, and
  the result is again a red-black tree of disjoint intervals whose counter is the number of
  its nodes (\<^term>\<open>rb_stored\<close>).
\<close>

theorem rb_insert_correct:
  assumes "rb_stored K m xs" and "a \<noteq> NULL" and "nodes m a = None"
  shows "if \<exists>x \<in> set xs. overlaps (snd x) s e
         then \<exists>q d. rb_insert m s e a junk = Some (m, q) \<and> (q, d) \<in> set xs \<and> overlaps d s e
         else \<exists>m' lo hi. rb_insert m s e a junk = Some (m', a) \<and> xs = lo @ hi \<and>
           rb_stored K m' (lo @ (a, \<lparr>start = min s e, iend = max s e, refcount = junk, rendez = []\<rparr>) # hi)"
  using rb_stored_hit [OF assms(1) _ assms(2,3), of s e junk]
    rb_stored_miss [OF assms(1) _ assms(2,3), of s e junk]
  by (auto simp: fresh_data_def)

theorem rb_insert_correct_witness:
  "if \<exists>x \<in> set [ivl1, ivl2]. overlaps (snd x) 25 22
   then \<exists>q d. rb_insert mem2 25 22 3 9 = Some (mem2, q) \<and>
     (q, d) \<in> set [ivl1, ivl2] \<and> overlaps d 25 22
   else \<exists>m' lo hi. rb_insert mem2 25 22 3 9 = Some (m', 3) \<and>
     [ivl1, ivl2] = lo @ hi \<and>
     rb_stored Map.empty m'
       (lo @ (3, \<lparr>start = min 25 22, iend = max 25 22, refcount = 9, rendez = []\<rparr>) # hi)"
proof (rule rb_insert_correct [OF mem2])
  show "nodes mem2 3 = None" by code_simp
qed simp

text \<open>
  C4 (rb_delete_correct): \<^verbatim>\<open>rb_delete\<close> of a node of the tree returns with all its assertions passed;
  the loop of \<^verbatim>\<open>rb_delete_fixup\<close> ends. Exactly that node leaves the tree, it keeps its data and
  stays allocated, and the rest is again a red-black tree in the same order.
\<close>

theorem rb_delete_correct:
  assumes "rb_stored K m (lo @ (z, d) # hi)"
  shows "\<exists>m' n. rb_delete m z = Some m' \<and> nodes m' z = Some n \<and> data n = d \<and>
           rb_stored (K(z \<mapsto> n)) m' (lo @ hi)"
  by (rule rbs.remove_law [OF assms])

theorem rb_delete_correct_witness:
  "\<exists>m' n. rb_delete mem2 1 = Some m' \<and> nodes m' 1 = Some n \<and> data n = fresh_data 10 20 0 \<and>
     rb_stored (Map.empty(1 \<mapsto> n)) m' ([] @ [ivl2])"
  using rb_delete_correct [of Map.empty mem2 "[]" 1 "fresh_data 10 20 0" "[ivl2]"] mem2
  by (simp add: ivl1_def)

text \<open>
  inserting an interval that nothing overlaps and deleting the new node gives
  back a tree of the same nodes in the same order.
\<close>

theorem rb_insert_delete:
  assumes "rb_stored K m xs" and "rb_search m s e = Some NULL" and "a \<noteq> NULL" and "nodes m a = None"
  shows "\<exists>m' m'' n. rb_insert m s e a junk = Some (m', a) \<and> rb_delete m' a = Some m'' \<and>
           rb_stored (K(a \<mapsto> n)) m'' xs"
  by (rule rbs.insert_remove [OF assms])

theorem rb_insert_delete_witness:
  "\<exists>m' m'' n. rb_insert mem2 22 25 3 0 = Some (m', 3) \<and> rb_delete m' 3 = Some m'' \<and>
     rb_stored (Map.empty(3 \<mapsto> n)) m'' [ivl1, ivl2]"
proof (rule rb_insert_delete [OF mem2])
  show "rb_search mem2 22 25 = Some NULL" by code_simp
  show "nodes mem2 3 = None" by code_simp
qed simp

end
