(* ===== verification/Range_Lock.thy ===== *)
theory Range_Lock
  imports Rb_Store
begin

text \<open>
  The range lock of \<^verbatim>\<open>range_lock.c\<close>: \<^verbatim>\<open>range_lock\<close> and \<^verbatim>\<open>range_unlock\<close>, split where
  \<^verbatim>\<open>tasksleep\<close> gives up the processor, and the system of the tasks that call them. Tasks of
  libtask are scheduled cooperatively: the code between two calls of the scheduler is one step.
\<close>

section \<open>The operations\<close>

record range =
  range_start :: u64
  range_end :: u64
  range_node :: addr

text \<open>\<^verbatim>\<open>struct range_lock\<close> and the memory that holds the \<^verbatim>\<open>struct range\<close>s.\<close>

record rl_state =
  root :: rb_mem
  ranges :: "addr \<rightharpoonup> range"

text \<open>
  One pass of the loop of \<^verbatim>\<open>range_lock\<close> for task \<open>t\<close>. The task either goes to sleep on the
  node that blocks it (\<open>Inl\<close>), or it leaves the loop and gets the range (\<open>Inr\<close>). \<open>a\<close> and \<open>ra\<close>
  are the results of the two calls of \<^verbatim>\<open>malloc\<close>.
\<close>

definition range_lock_pass ::
    "rl_state \<Rightarrow> nat \<Rightarrow> u64 \<Rightarrow> u64 \<Rightarrow> addr \<Rightarrow> int \<Rightarrow> addr \<Rightarrow> (rl_state \<times> (addr + addr)) option" where
  "range_lock_pass st t s e a junk ra = do {
     n \<leftarrow> rb_search (root st) s e;
     if n \<noteq> NULL then do {
       m \<leftarrow> mod_data (root st) n (\<lambda>d. d\<lparr>refcount := refcount d + 1\<rparr>);
       m \<leftarrow> mod_data m n (\<lambda>d. d\<lparr>rendez := rendez d @ [t]\<rparr>);
       Some (st\<lparr>root := m\<rparr>, Inl n)
     } else do {
       (m, n) \<leftarrow> rb_insert (root st) s e a junk;
       m \<leftarrow> mod_data m n (\<lambda>d. d\<lparr>refcount := 1\<rparr>);
       c_assert (ra \<noteq> NULL);
       nd \<leftarrow> nodes m n;
       Some (\<lparr>root = m, ranges = (ranges st)(ra \<mapsto>
               \<lparr>range_start = start (data nd), range_end = iend (data nd), range_node = n\<rparr>)\<rparr>, Inr ra)
     }
   }"

text \<open>What \<^verbatim>\<open>range_lock\<close> does after \<^verbatim>\<open>tasksleep\<close> returns, before the next pass.\<close>

definition range_lock_wake :: "rl_state \<Rightarrow> addr \<Rightarrow> rl_state option" where
  "range_lock_wake st n = do {
     m \<leftarrow> mod_data (root st) n (\<lambda>d. d\<lparr>refcount := refcount d - 1\<rparr>);
     nd \<leftarrow> nodes m n;
     m \<leftarrow> (if refcount (data nd) = 0 then free_node m n else Some m);
     Some (st\<lparr>root := m\<rparr>)
   }"

text \<open>The second component of the result is the list of the tasks that are made ready.\<close>

definition range_unlock :: "rl_state \<Rightarrow> addr \<Rightarrow> (rl_state \<times> nat list) option" where
  "range_unlock st r = do {
     rg \<leftarrow> ranges st r;
     let n = range_node rg;
     m \<leftarrow> rb_delete (root st) n;
     m \<leftarrow> mod_data m n (\<lambda>d. d\<lparr>refcount := refcount d - 1\<rparr>);
     nd \<leftarrow> nodes m n;
     (m, ws) \<leftarrow> (if refcount (data nd) = 0 then do { m \<leftarrow> free_node m n; Some (m, []) }
               else do {
                 m \<leftarrow> mod_data m n (\<lambda>d. d\<lparr>rendez := []\<rparr>);
                 Some (m, rendez (data nd))
               });
     Some (\<lparr>root = m, ranges = (ranges st)(r := None)\<rparr>, ws)
   }"

section \<open>The tasks\<close>

datatype tstate =
  Idle
| Sleeping u64 u64 addr
| Woken u64 u64 addr
| Holding addr

record sys =
  lock :: rl_state
  tasks :: "nat \<Rightarrow> tstate"

definition wake :: "nat list \<Rightarrow> (nat \<Rightarrow> tstate) \<Rightarrow> nat \<Rightarrow> tstate" where
  "wake ws ts t =
     (if t \<in> set ws then (case ts t of Sleeping s e n \<Rightarrow> Woken s e n | x \<Rightarrow> x) else ts t)"

definition outcome :: "u64 \<Rightarrow> u64 \<Rightarrow> addr + addr \<Rightarrow> tstate" where
  "outcome s e r = (case r of Inl n \<Rightarrow> Sleeping s e n | Inr ra \<Rightarrow> Holding ra)"

text \<open>\<^verbatim>\<open>malloc\<close> returns a non-null address that is not in use.\<close>

definition fresh :: "rl_state \<Rightarrow> addr \<Rightarrow> addr \<Rightarrow> bool" where
  "fresh st a ra \<longleftrightarrow> a \<noteq> NULL \<and> nodes (root st) a = None \<and> ra \<noteq> NULL \<and> ranges st ra = None"

inductive step :: "sys \<Rightarrow> sys \<Rightarrow> bool" where
  lock: "tasks y t = Idle \<Longrightarrow> fresh (lock y) a ra \<Longrightarrow>
    range_lock_pass (lock y) t s e a j ra = Some (st, r) \<Longrightarrow>
    step y \<lparr>lock = st, tasks = (tasks y)(t := outcome s e r)\<rparr>"
| resume: "tasks y t = Woken s e n \<Longrightarrow> range_lock_wake (lock y) n = Some st \<Longrightarrow> fresh st a ra \<Longrightarrow>
    range_lock_pass st t s e a j ra = Some (st', r) \<Longrightarrow>
    step y \<lparr>lock = st', tasks = (tasks y)(t := outcome s e r)\<rparr>"
| unlock: "tasks y t = Holding r \<Longrightarrow> range_unlock (lock y) r = Some (st, ws) \<Longrightarrow>
    step y \<lparr>lock = st, tasks = wake ws ((tasks y)(t := Idle))\<rparr>"

definition sys_init :: sys where
  "sys_init = \<lparr>lock = \<lparr>root = rb_init, ranges = Map.empty\<rparr>, tasks = (\<lambda>t. Idle)\<rparr>"

inductive reachable :: "sys \<Rightarrow> bool" where
  init: "reachable sys_init"
| step: "reachable y \<Longrightarrow> step y y' \<Longrightarrow> reachable y'"

section \<open>The invariant\<close>

text \<open>The tasks that sleep on a node, and those that were woken but still refer to it.\<close>

definition sleepers :: "(nat \<Rightarrow> tstate) \<Rightarrow> addr \<Rightarrow> nat set" where
  "sleepers ts a = {t. \<exists>s e. ts t = Sleeping s e a}"

definition wokens :: "(nat \<Rightarrow> tstate) \<Rightarrow> addr \<Rightarrow> nat set" where
  "wokens ts a = {t. \<exists>s e. ts t = Woken s e a}"

definition held :: "(nat \<Rightarrow> tstate) \<Rightarrow> addr set" where
  "held ts = {r. \<exists>t. ts t = Holding r}"

definition range_of :: "addr \<Rightarrow> rb_data \<Rightarrow> range" where
  "range_of a d = \<lparr>range_start = start d, range_end = iend d, range_node = a\<rparr>"

text \<open>
  A node of the tree: one task holds it, the tasks on its list sleep on it because it overlaps
  the range they want, and its counter counts all of them.
\<close>

definition node_inv :: "(nat \<Rightarrow> tstate) \<Rightarrow> (addr \<rightharpoonup> range) \<Rightarrow> addr \<Rightarrow> rb_data \<Rightarrow> bool" where
  "node_inv ts R a d \<longleftrightarrow>
     distinct (rendez d) \<and> set (rendez d) = sleepers ts a \<and>
     refcount d = 1 + int (length (rendez d)) \<and>
     (\<forall>t s e. ts t = Sleeping s e a \<longrightarrow> overlaps d s e) \<and>
     (\<exists>t r. ts t = Holding r \<and> R r = Some (range_of a d))"

text \<open>A node that left the tree lives until the last task that slept on it has run again.\<close>

definition zombie_inv :: "(nat \<Rightarrow> tstate) \<Rightarrow> addr \<Rightarrow> rb_node option \<Rightarrow> bool" where
  "zombie_inv ts a v \<longleftrightarrow>
     (case v of None \<Rightarrow> wokens ts a = {}
      | Some n \<Rightarrow> wokens ts a \<noteq> {} \<and> refcount (data n) = int (card (wokens ts a)))"

definition lock_inv :: "(addr \<rightharpoonup> rb_node) \<Rightarrow> (addr \<times> rb_data) list \<Rightarrow> sys \<Rightarrow> bool" where
  "lock_inv K xs y \<longleftrightarrow>
     rb_stored K (root (lock y)) xs \<and>
     (\<forall>(a, d) \<in> set xs. K a = None \<and> node_inv (tasks y) (ranges (lock y)) a d) \<and>
     (\<forall>a. zombie_inv (tasks y) a (K a)) \<and>
     (\<forall>a. a \<notin> fst ` set xs \<longrightarrow> sleepers (tasks y) a = {}) \<and>
     (\<forall>t r. tasks y t = Holding r \<longrightarrow> (\<exists>a d. (a, d) \<in> set xs \<and> ranges (lock y) r = Some (range_of a d))) \<and>
     (\<forall>t t' r r' g g'. tasks y t = Holding r \<longrightarrow> tasks y t' = Holding r' \<longrightarrow>
        ranges (lock y) r = Some g \<longrightarrow> ranges (lock y) r' = Some g' \<longrightarrow>
        range_node g = range_node g' \<longrightarrow> t = t') \<and>
     dom (ranges (lock y)) = held (tasks y) \<and>
     finite {t. tasks y t \<noteq> Idle}"

definition sys_inv :: "sys \<Rightarrow> bool" where
  "sys_inv y \<longleftrightarrow> (\<exists>K xs. lock_inv K xs y)"

lemma lock_inv_init: "sys_inv sys_init"
  by (auto simp: sys_inv_def lock_inv_def sys_init_def zombie_inv_def wokens_def sleepers_def held_def rb_stored_init
      intro!: exI [of _ Map.empty] exI [of _ "[]"])

lemma lock_invD:
  assumes "lock_inv K xs y"
  shows "rb_stored K (root (lock y)) xs"
    and "(a, d) \<in> set xs \<Longrightarrow> K a = None \<and> node_inv (tasks y) (ranges (lock y)) a d"
    and "zombie_inv (tasks y) a (K a)"
    and "a \<notin> fst ` set xs \<Longrightarrow> sleepers (tasks y) a = {}"
    and "tasks y t = Holding r \<Longrightarrow> \<exists>a d. (a, d) \<in> set xs \<and> ranges (lock y) r = Some (range_of a d)"
    and "tasks y t = Holding r \<Longrightarrow> tasks y t' = Holding r' \<Longrightarrow> ranges (lock y) r = Some g \<Longrightarrow>
       ranges (lock y) r' = Some g' \<Longrightarrow> range_node g = range_node g' \<Longrightarrow> t = t'"
    and "dom (ranges (lock y)) = held (tasks y)"
    and "finite {t. tasks y t \<noteq> Idle}"
  using assms by (simp add: lock_inv_def, fastforce simp: lock_inv_def, (simp add: lock_inv_def; blast)+)

lemma sleepers_upd [simp]:
  "sleepers (ts(t := v)) a = (sleepers ts a - {t}) \<union> (if \<exists>s e. v = Sleeping s e a then {t} else {})"
  by (auto simp: sleepers_def)

lemma wokens_upd [simp]:
  "wokens (ts(t := v)) a = (wokens ts a - {t}) \<union> (if \<exists>s e. v = Woken s e a then {t} else {})"
  by (auto simp: wokens_def)

lemma held_upd:
  assumes "\<And>r. ts t \<noteq> Holding r"
  shows "held (ts(t := v)) = held ts \<union> {r. v = Holding r}"
proof (intro set_eqI iffI)
  fix r assume "r \<in> held ts \<union> {r. v = Holding r}"
  then obtain t' where "v = Holding r \<or> ts t' = Holding r \<and> t' \<noteq> t" using assms by (auto simp: held_def)
  then show "r \<in> held (ts(t := v))" unfolding held_def
    by (auto intro: exI [of _ t] exI [of _ t'])
qed (auto simp: held_def split: if_splits)

lemma idle_free [simp]:
  "ts t = Idle \<Longrightarrow> t \<notin> sleepers ts a" "ts t = Idle \<Longrightarrow> t \<notin> wokens ts a"
  by (auto simp: sleepers_def wokens_def)

lemma node_invI:
  "distinct (rendez d) \<Longrightarrow> set (rendez d) = sleepers ts a \<Longrightarrow> refcount d = 1 + int (length (rendez d)) \<Longrightarrow>
   (\<And>t s e. ts t = Sleeping s e a \<Longrightarrow> overlaps d s e) \<Longrightarrow> ts h = Holding r \<Longrightarrow> R r = Some (range_of a d) \<Longrightarrow>
     node_inv ts R a d"
  by (auto simp: node_inv_def)

lemma node_inv_frame:
  assumes "node_inv ts R a d" and "sleepers ts' a = sleepers ts a"
    and "\<And>t s e. ts' t = Sleeping s e a \<Longrightarrow> ts t = Sleeping s e a"
    and "\<And>t r. ts t = Holding r \<Longrightarrow> R r = Some (range_of a d) \<Longrightarrow> ts' t = Holding r \<and> R' r = R r"
  shows "node_inv ts' R' a d"
  using assms unfolding node_inv_def by (metis (no_types, lifting))

lemma zombie_frame: "zombie_inv ts a v \<Longrightarrow> wokens ts' a = wokens ts a \<Longrightarrow> zombie_inv ts' a v"
  by (simp add: zombie_inv_def split: option.splits)

lemma other_addr:
  assumes "rb_stored K m (lo @ (n, d) # hi)" and "(b, d') \<in> set lo \<union> set hi"
  shows "b \<noteq> n"
  using rbs.order_law [OF assms(1)] assms(2) by (force simp: image_iff)

lemma pass_block:
  assumes i: "lock_inv K xs y" and t: "tasks y t = Idle" and "rb_search (root (lock y)) s e = Some n" and "n \<noteq> NULL"
  shows "\<exists>st. range_lock_pass (lock y) t s e a j ra = Some (st, Inl n) \<and>
           ranges st = ranges (lock y) \<and> sys_inv \<lparr>lock = st, tasks = (tasks y)(t := Sleeping s e n)\<rparr>"
proof -
  note D = lock_invD [OF i]
  from rbs.search_hit [OF D(1) assms(3,4)] obtain d where d: "(n, d) \<in> set xs" "overlaps d s e" by blast
  from split_list [OF d(1)] obtain lo hi where xs: "xs = lo @ (n, d) # hi" by blast
  let ?d = "d\<lparr>refcount := refcount d + 1, rendez := rendez d @ [t]\<rparr>"
  let ?xs = "lo @ (n, ?d) # hi"
  from rbs.modify_law [OF D(1) [unfolded xs], of "\<lambda>d. d\<lparr>refcount := refcount d + 1\<rparr>"] obtain m1 where
    m1: "mod_data (root (lock y)) n (\<lambda>d. d\<lparr>refcount := refcount d + 1\<rparr>) = Some m1"
      "rb_stored K m1 (lo @ (n, d\<lparr>refcount := refcount d + 1\<rparr>) # hi)" by auto
  from rbs.modify_law [OF m1(2), of "\<lambda>d. d\<lparr>rendez := rendez d @ [t]\<rparr>"] obtain m2 where
    m2: "mod_data m1 n (\<lambda>d. d\<lparr>rendez := rendez d @ [t]\<rparr>) = Some m2" "rb_stored K m2 ?xs" by auto
  let ?y = "\<lparr>lock = (lock y)\<lparr>root := m2\<rparr>, tasks = (tasks y)(t := Sleeping s e n)\<rparr>"
  have dist: "b \<noteq> n" if "(b, d') \<in> set lo \<union> set hi" for b d'
    using other_addr [OF D(1) [unfolded xs] that] .
  from D(2) [OF d(1)] obtain h r where h: "tasks y h = Holding r" "ranges (lock y) r = Some (range_of n d)"
    by (auto simp: node_inv_def)
  with t have "h \<noteq> t" by auto
  have ni: "node_inv (tasks ?y) (ranges (lock y)) n ?d"
    using D(2) [OF d(1)] t d(2) h \<open>h \<noteq> t\<close>
    by (intro node_invI [where h = h and r = r])
      (auto simp: node_inv_def range_of_def overlaps_def split: if_splits)
  have no: "node_inv (tasks ?y) (ranges (lock y)) b d'" if "(b, d') \<in> set lo \<union> set hi" for b d'
  proof -
    have "node_inv (tasks y) (ranges (lock y)) b d'" using D(2) [of b d'] that xs by auto
    then show ?thesis by (rule node_inv_frame) (use t dist [OF that] in \<open>auto split: if_splits\<close>)
  qed
  have "lock_inv K ?xs ?y"
    unfolding lock_inv_def
  proof (intro conjI allI impI ballI, goal_cases)
    case 1 then show ?case using m2(2) by simp
  next
    case (2 x) then show ?case using ni no D(2) d(1) xs by auto
  next
    case (3 b) then show ?case using zombie_frame [OF D(3)] t by simp
  next
    case (4 b) then show ?case using D(4) [of b] xs by auto
  next
    case (5 t' r)
    then have "tasks y t' = Holding r" by (auto split: if_splits)
    from D(5) [OF this] obtain b d0 where b: "(b, d0) \<in> set xs" "ranges (lock y) r = Some (range_of b d0)" by auto
    from b(1) xs consider "(b, d0) \<in> set lo \<union> set hi" | "b = n" "d0 = d" by auto
    then show ?case
    proof cases
      case 2
      with b(2) show ?thesis by (intro exI [of _ n] exI [of _ ?d]) (simp add: range_of_def)
    qed (use b(2) in auto)
  next
    case (6 t1 t2 r r' g g') then show ?case using D(6) by (auto split: if_splits)
  next
    case 7 then show ?case using D(7) t by (simp add: held_upd)
  next
    case 8 then show ?case using D(8) by (auto intro: finite_subset [of _ "insert t {t. tasks y t \<noteq> Idle}"])
  qed
  moreover have "range_lock_pass (lock y) t s e a j ra = Some ((lock y)\<lparr>root := m2\<rparr>, Inl n)"
    using assms(3,4) m1(1) m2(1) by (simp add: range_lock_pass_def)
  ultimately show ?thesis by (auto simp: sys_inv_def)
qed


lemma pass_acquire:
  assumes i: "lock_inv K xs y" and t: "tasks y t = Idle" and "rb_search (root (lock y)) s e = Some NULL"
    and f: "fresh (lock y) a ra"
  shows "\<exists>st. range_lock_pass (lock y) t s e a j ra = Some (st, Inr ra) \<and>
           ranges st = (ranges (lock y))(ra \<mapsto> range_of a (fresh_data (min s e) (max s e) 1)) \<and>
           sys_inv \<lparr>lock = st, tasks = (tasks y)(t := Holding ra)\<rparr>"
proof -
  note D = lock_invD [OF i]
  from f have a: "a \<noteq> NULL" "nodes (root (lock y)) a = None" "ra \<noteq> NULL" "ranges (lock y) ra = None"
    by (auto simp: fresh_def)
  from assms(3) rbs.search_null [OF D(1)] have "\<forall>x \<in> set xs. \<not> overlaps (snd x) s e" by blast
  from rbs.miss_law [OF D(1) this a(1,2), of j] obtain m1 lo hi where
    m1: "rb_insert (root (lock y)) s e a j = Some (m1, a)" "xs = lo @ hi"
      "rb_stored K m1 (lo @ (a, fresh_data (min s e) (max s e) j) # hi)" by blast
  let ?d = "fresh_data (min s e) (max s e) 1"
  let ?xs = "lo @ (a, ?d) # hi"
  from rbs.modify_law [OF m1(3), of "\<lambda>d. d\<lparr>refcount := 1\<rparr>"] obtain m2 where
    m2: "mod_data m1 a (\<lambda>d. d\<lparr>refcount := 1\<rparr>) = Some m2" "rb_stored K m2 ?xs"
    by (auto simp: fresh_data_def)
  from rbs.inside_law [OF m2(2), of a ?d] obtain nd where nd: "nodes m2 a = Some nd" "data nd = ?d" by auto
  let ?R = "(ranges (lock y))(ra \<mapsto> range_of a ?d)"
  let ?y = "\<lparr>lock = \<lparr>root = m2, ranges = ?R\<rparr>, tasks = (tasks y)(t := Holding ra)\<rparr>"
  have axs: "a \<notin> fst ` set xs" using rbs.inside_law [OF D(1)] a(2) by force
  have Ka: "K a = None" using rbs.outside_law [OF D(1) axs] a(2) by simp
  have held: "r \<noteq> ra" if "tasks y t' = Holding r" for t' r
    using D(5) [OF that] a(4) by auto
  have none: "sleepers (tasks ?y) a = {}" using D(4) [OF axs] t by simp
  then have ni: "node_inv (tasks ?y) ?R a ?d"
    by (intro node_invI [where h = t and r = ra]) (auto simp: fresh_data_def sleepers_def)
  have no: "node_inv (tasks ?y) ?R b d'" if "(b, d') \<in> set lo \<union> set hi" for b d'
  proof -
    have "node_inv (tasks y) (ranges (lock y)) b d'" using D(2) [of b d'] that m1(2) by auto
    then show ?thesis by (rule node_inv_frame) (use t held in \<open>auto split: if_splits\<close>)
  qed
  have "lock_inv K ?xs ?y"
    unfolding lock_inv_def
  proof (intro conjI allI impI ballI, goal_cases)
    case 1 then show ?case using m2(2) by simp
  next
    case (2 x) then show ?case using ni no D(2) Ka m1(2) by auto
  next
    case (3 b) then show ?case using zombie_frame [OF D(3)] t by simp
  next
    case (4 b) then show ?case using D(4) [of b] m1(2) t by auto
  next
    case (5 t' r)
    show ?case
    proof (cases "t' = t")
      case True
      with 5 show ?thesis by auto
    next
      case False
      with 5 have h: "tasks y t' = Holding r" by simp
      from D(5) [OF h] held [OF h] m1(2) show ?thesis by auto
    qed
  next
    case (6 t1 t2 r r' g g')
    have ne: "range_node g \<noteq> a" if "tasks y t' = Holding r" "ranges (lock y) r = Some g" for t' r g
      using D(5) [OF that(1)] that(2) axs by (force simp: range_of_def)
    show ?case
    proof (cases "t1 = t \<or> t2 = t")
      case True
      with 6 ne [of t1 r g] ne [of t2 r' g'] held [of t1 r] held [of t2 r'] show ?thesis
        by (auto simp: range_of_def split: if_splits)
    next
      case False
      with 6 held [of t1 r] held [of t2 r'] D(6) show ?thesis by (auto split: if_splits)
    qed
  next
    case 7 then show ?case using D(7) t by (auto simp: held_upd)
  next
    case 8 then show ?case using D(8) by (auto intro: finite_subset [of _ "insert t {t. tasks y t \<noteq> Idle}"])
  qed
  moreover have "range_lock_pass (lock y) t s e a j ra = Some (\<lparr>root = m2, ranges = ?R\<rparr>, Inr ra)"
    using assms(3) a(3) m1(1) m2(1) nd by (simp add: range_lock_pass_def range_of_def)
  ultimately show ?thesis by (auto simp: sys_inv_def)
qed

lemma pass_inv:
  assumes "sys_inv y" and "tasks y t = Idle" and "fresh (lock y) a ra"
  shows "\<exists>st r. range_lock_pass (lock y) t s e a j ra = Some (st, r) \<and>
           sys_inv \<lparr>lock = st, tasks = (tasks y)(t := outcome s e r)\<rparr>"
proof -
  from assms(1) obtain K xs where i: "lock_inv K xs y" by (auto simp: sys_inv_def)
  from rbs.search_law [OF lock_invD(1) [OF i], of s e] obtain n where "rb_search (root (lock y)) s e = Some n" by blast
  with pass_block [OF i assms(2)] pass_acquire [OF i assms(2) _ assms(3)] show ?thesis
    by (cases "n = NULL") (fastforce simp: outcome_def)+
qed

lemma wake_inv:
  assumes "sys_inv y" and w: "tasks y t = Woken s e n"
  shows "\<exists>st. range_lock_wake (lock y) n = Some st \<and> sys_inv \<lparr>lock = st, tasks = (tasks y)(t := Idle)\<rparr>"
proof -
  from assms(1) obtain K xs where i: "lock_inv K xs y" by (auto simp: sys_inv_def)
  note D = lock_invD [OF i]
  have tw: "t \<in> wokens (tasks y) n" using w by (auto simp: wokens_def)
  with D(3) [of n] obtain nd where nd: "K n = Some nd" "refcount (data nd) = int (card (wokens (tasks y) n))"
    by (auto simp: zombie_inv_def split: option.splits)
  have nxs: "n \<notin> fst ` set xs" using D(2) nd(1) by force
  have fin: "finite (wokens (tasks y) n)"
    using D(8) by (rule rev_finite_subset) (auto simp: wokens_def)
  let ?ts = "(tasks y)(t := Idle)"
  have cnt: "int (card (wokens ?ts n)) = refcount (data nd) - 1"
    using tw fin nd(2) by (simp add: card_Diff_singleton) (metis card_gt_0_iff empty_iff of_nat_diff One_nat_def Suc_leI of_nat_1)
  from rbs.outside_law [OF D(1) nxs] nd(1) have hn: "nodes (root (lock y)) n = Some nd" by simp
  from rbs.outside_modify_law [OF D(1) nxs hn, of "\<lambda>d. d\<lparr>refcount := refcount d - 1\<rparr>"] obtain m1 n1 where
    m1: "mod_data (root (lock y)) n (\<lambda>d. d\<lparr>refcount := refcount d - 1\<rparr>) = Some m1" "nodes m1 n = Some n1"
      "data n1 = (data nd)\<lparr>refcount := refcount (data nd) - 1\<rparr>" "rb_stored (K(n \<mapsto> n1)) m1 xs" by auto
  have keep: "lock_inv K' xs \<lparr>lock = (lock y)\<lparr>root := m\<rparr>, tasks = ?ts\<rparr>"
    if "rb_stored K' m xs" "\<forall>b. b \<noteq> n \<longrightarrow> K' b = K b" "zombie_inv ?ts n (K' n)" for K' m
    unfolding lock_inv_def
  proof (intro conjI allI impI ballI, goal_cases)
    case 1 then show ?case using that(1) by simp
  next
    case (2 x)
    obtain b d where x: "x = (b, d)" by fastforce
    with 2 nxs have "b \<noteq> n" by force
    from 2 x D(2) [of b d] have "K b = None" and n: "node_inv (tasks y) (ranges (lock y)) b d" by auto
    from n have "node_inv ?ts (ranges (lock y)) b d"
      by (rule node_inv_frame) (use w in \<open>auto simp: sleepers_def split: if_splits\<close>)
    with that(2) \<open>K b = None\<close> \<open>b \<noteq> n\<close> x show ?case by simp
  next
    case (3 b)
    have "wokens ?ts b = wokens (tasks y) b" if "b \<noteq> n" using w that by (auto simp: wokens_def)
    with that(2,3) zombie_frame [OF D(3) [of b]] show ?case by (cases "b = n") auto
  next
    case (4 b) then show ?case using D(4) [of b] by auto
  next
    case (5 t' r) then show ?case using D(5) by (auto split: if_splits)
  next
    case (6 t1 t2 r r' g g') then show ?case using D(6) by (auto split: if_splits)
  next
    case 7 then show ?case using D(7) w by (simp add: held_upd)
  next
    case 8 then show ?case using D(8) by (auto intro: finite_subset [of _ "{t. tasks y t \<noteq> Idle}"])
  qed
  show ?thesis
  proof (cases "refcount (data n1) = 0")
    case True
    from rbs.release_law [OF m1(4) nxs m1(2)] obtain m2 where
      m2: "free_node m1 n = Some m2" "rb_stored ((K(n \<mapsto> n1))(n := None)) m2 xs" by blast
    have "range_lock_wake (lock y) n = Some ((lock y)\<lparr>root := m2\<rparr>)"
      using m1(1,2) m2(1) True by (simp add: range_lock_wake_def)
    moreover have "wokens ?ts n = {}" using cnt True m1(3) fin by auto
    ultimately show ?thesis using keep [OF m2(2)] by (auto simp: sys_inv_def zombie_inv_def)
  next
    case False
    have "range_lock_wake (lock y) n = Some ((lock y)\<lparr>root := m1\<rparr>)"
      using m1(1,2) False by (simp add: range_lock_wake_def)
    moreover have "zombie_inv ?ts n (Some n1)"
      using cnt False m1(3) by (auto simp: zombie_inv_def simp del: wokens_upd)
    ultimately show ?thesis using keep [OF m1(4)] by (auto simp: sys_inv_def)
  qed
qed


lemma wake_simps [simp]:
  "wake ws ts t = Idle \<longleftrightarrow> ts t = Idle"
  "wake ws ts t = Holding r \<longleftrightarrow> ts t = Holding r"
  "wake ws ts t = Sleeping s e a \<longleftrightarrow> t \<notin> set ws \<and> ts t = Sleeping s e a"
  "wake ws ts t = Woken s e a \<longleftrightarrow> ts t = Woken s e a \<or> t \<in> set ws \<and> ts t = Sleeping s e a"
  by (cases "ts t"; auto simp: wake_def)+

lemma wake_sleepers: "sleepers (wake ws ts) a = sleepers ts a - set ws"
  by (auto simp: sleepers_def)

lemma wake_wokens: "wokens (wake ws ts) a = wokens ts a \<union> (set ws \<inter> sleepers ts a)"
  by (auto simp: wokens_def sleepers_def)

lemma unlock_inv:
  assumes "sys_inv y" and h: "tasks y t = Holding r"
  shows "\<exists>st ws. range_unlock (lock y) r = Some (st, ws) \<and>
           set ws = sleepers (tasks y) (range_node (the (ranges (lock y) r))) \<and>
           sys_inv \<lparr>lock = st, tasks = wake ws ((tasks y)(t := Idle))\<rparr>"
proof -
  from assms(1) obtain K xs where i: "lock_inv K xs y" by (auto simp: sys_inv_def)
  note D = lock_invD [OF i]
  from D(5) [OF h] obtain a d where a: "(a, d) \<in> set xs" "ranges (lock y) r = Some (range_of a d)" by blast
  from split_list [OF a(1)] obtain lo hi where xs: "xs = lo @ (a, d) # hi" by blast
  from D(2) [OF a(1)] have Ka: "K a = None" and rd: "distinct (rendez d)" "set (rendez d) = sleepers (tasks y) a"
    "refcount d = 1 + int (length (rendez d))" by (auto simp: node_inv_def)
  from D(3) [of a] Ka have wa: "wokens (tasks y) a = {}" by (simp add: zombie_inv_def)
  from rbs.remove_law [OF D(1) [unfolded xs]] obtain m1 n where
    m1: "rb_delete (root (lock y)) a = Some m1" "nodes m1 a = Some n" "data n = d" "rb_stored (K(a \<mapsto> n)) m1 (lo @ hi)"
    by blast
  have out: "a \<notin> fst ` set (lo @ hi)" using other_addr [OF D(1) [unfolded xs]] by force
  from rbs.outside_modify_law [OF m1(4) out m1(2), of "\<lambda>d. d\<lparr>refcount := refcount d - 1\<rparr>"] obtain m2 n2 where
    m2: "mod_data m1 a (\<lambda>d. d\<lparr>refcount := refcount d - 1\<rparr>) = Some m2" "nodes m2 a = Some n2"
      "data n2 = d\<lparr>refcount := refcount d - 1\<rparr>" "rb_stored (K(a \<mapsto> n2)) m2 (lo @ hi)" using m1(3) by auto
  let ?R = "(ranges (lock y))(r := None)"
  let ?ts = "wake (rendez d) ((tasks y)(t := Idle))"
  have ts: "tasks y t' \<noteq> Holding r" if "t' \<noteq> t" for t' using D(6) [OF _ h, of t' r] that a(2) by auto
  have slp: "sleepers ?ts b = (if b = a then {} else sleepers (tasks y) b)" for b
    using rd(2) h by (auto simp: wake_sleepers) (auto simp: sleepers_def)
  have wok: "wokens ?ts b = (if b = a then set (rendez d) else wokens (tasks y) b)" for b
    using rd(2) h wa by (auto simp: wake_wokens) (auto simp: sleepers_def wokens_def)
  have keep: "lock_inv K' (lo @ hi) \<lparr>lock = \<lparr>root = m, ranges = ?R\<rparr>, tasks = ?ts\<rparr>"
    if "rb_stored K' m (lo @ hi)" "\<forall>b. b \<noteq> a \<longrightarrow> K' b = K b" "zombie_inv ?ts a (K' a)" for K' m
    unfolding lock_inv_def
  proof (intro conjI allI impI ballI, goal_cases)
    case 1 then show ?case using that(1) by simp
  next
    case (2 x)
    obtain b d' where x: "x = (b, d')" by fastforce
    with 2 out have "b \<noteq> a" by force
    from 2 x xs D(2) [of b d'] have "K b = None" and n: "node_inv (tasks y) (ranges (lock y)) b d'" by auto
    have "r' \<noteq> r" if "ranges (lock y) r' = Some (range_of b d')" for r'
      using that a(2) \<open>b \<noteq> a\<close> by (auto simp: range_of_def)
    with n have "node_inv ?ts ?R b d'"
      using slp [of b] \<open>b \<noteq> a\<close> h
      by (elim node_inv_frame) (auto split: if_splits)
    with that(2) \<open>K b = None\<close> \<open>b \<noteq> a\<close> x show ?case by simp
  next
    case (3 b)
    with that(2,3) zombie_frame [OF D(3) [of b]] wok [of b] show ?case by (cases "b = a") auto
  next
    case (4 b) then show ?case using D(4) [of b] slp [of b] xs by auto
  next
    case (5 t' r')
    then have h': "tasks y t' = Holding r'" "t' \<noteq> t" by (auto split: if_splits)
    with ts have "r' \<noteq> r" by auto
    from D(5) [OF h'(1)] obtain b d' where b: "(b, d') \<in> set xs" "ranges (lock y) r' = Some (range_of b d')" by blast
    have "b \<noteq> a" using D(6) [OF h h'(1) a(2) b(2)] h'(2) by (auto simp: range_of_def)
    with b xs \<open>r' \<noteq> r\<close> show ?case by auto
  next
    case (6 t1 t2 r1 r2 g g') then show ?case using D(6) by (auto split: if_splits)
  next
    case 7
    have "x \<in> held ?ts \<longleftrightarrow> x \<in> held (tasks y) - {r}" for x
      using ts h unfolding held_def by (cases "x = r") (auto split: if_splits, metis tstate.inject(3))
    then have "held ?ts = held (tasks y) - {r}" by blast
    with D(7) show ?case by simp
  next
    case 8 then show ?case using D(8) by (auto intro: finite_subset [of _ "{t. tasks y t \<noteq> Idle}"])
  qed
  have ws: "set (rendez d) = sleepers (tasks y) (range_node (the (ranges (lock y) r)))"
    using rd(2) a(2) by (simp add: range_of_def)
  show ?thesis
  proof (cases "refcount (data n2) = 0")
    case True
    then have "rendez d = []" using m2(3) rd(3) by simp
    from rbs.release_law [OF m2(4) out m2(2)] obtain m3 where
      m3: "free_node m2 a = Some m3" "rb_stored ((K(a \<mapsto> n2))(a := None)) m3 (lo @ hi)" by blast
    have "range_unlock (lock y) r = Some (\<lparr>root = m3, ranges = ?R\<rparr>, rendez d)"
      using a(2) m1(1) m2(1,2) m3(1) True \<open>rendez d = []\<close> by (simp add: range_unlock_def range_of_def)
    moreover have "zombie_inv ?ts a None" using wok [of a] \<open>rendez d = []\<close> by (simp add: zombie_inv_def)
    ultimately show ?thesis using keep [OF m3(2)] ws by (auto simp: sys_inv_def)
  next
    case False
    from rbs.outside_modify_law [OF m2(4) out m2(2), of "\<lambda>d. d\<lparr>rendez := []\<rparr>"] obtain m3 n3 where
      m3: "mod_data m2 a (\<lambda>d. d\<lparr>rendez := []\<rparr>) = Some m3" "nodes m3 a = Some n3"
        "data n3 = d\<lparr>refcount := refcount d - 1, rendez := []\<rparr>" "rb_stored ((K(a \<mapsto> n2))(a \<mapsto> n3)) m3 (lo @ hi)"
      using m2(3) by auto
    have "range_unlock (lock y) r = Some (\<lparr>root = m3, ranges = ?R\<rparr>, rendez d)"
      using a(2) m1(1) m2(1-3) m3(1) False by (simp add: range_unlock_def range_of_def)
    moreover have "card (sleepers (tasks y) a) = length (rendez d)" using rd(1,2) distinct_card by metis
    with wok [of a] m2(3) m3(3) rd False have "zombie_inv ?ts a (Some n3)"
      by (auto simp: zombie_inv_def)
    ultimately show ?thesis using keep [OF m3(4)] ws by (auto simp: sys_inv_def)
  qed
qed


section \<open>What the lock guarantees\<close>

lemma step_inv:
  assumes "step y y'" and "sys_inv y"
  shows "sys_inv y'"
  using assms(1)
proof (cases rule: step.cases)
  case (lock t a ra s e j st r)
  with pass_inv [OF assms(2) lock(2,3), of s e j] show ?thesis by auto
next
  case (resume t s e n st a ra j st' r)
  from wake_inv [OF assms(2) resume(2)] resume(3)
  have w: "sys_inv \<lparr>lock = st, tasks = (tasks y)(t := Idle)\<rparr>" by auto
  from pass_inv [OF this, of t a ra s e j] resume show ?thesis by auto
next
  case (unlock t r st ws)
  with unlock_inv [OF assms(2) unlock(2)] show ?thesis by auto
qed

lemma reachable_inv: "reachable y \<Longrightarrow> sys_inv y"
  by (induction rule: reachable.induct) (auto intro: lock_inv_init step_inv)

lemma reachable_lock_inv:
  assumes "reachable y"
  obtains K xs where "lock_inv K xs y"
  using reachable_inv [OF assms] by (auto simp: sys_inv_def)



section \<open>Runs of the system\<close>

definition do_lock :: "nat \<Rightarrow> u64 \<Rightarrow> u64 \<Rightarrow> addr \<Rightarrow> addr \<Rightarrow> sys \<Rightarrow> sys option" where
  "do_lock t s e a ra y = do {
     (st, r) \<leftarrow> range_lock_pass (lock y) t s e a 0 ra;
     Some \<lparr>lock = st, tasks = (tasks y)(t := outcome s e r)\<rparr>
   }"

definition do_unlock :: "nat \<Rightarrow> addr \<Rightarrow> sys \<Rightarrow> sys option" where
  "do_unlock t r y = do {
     (st, ws) \<leftarrow> range_unlock (lock y) r;
     Some \<lparr>lock = st, tasks = wake ws ((tasks y)(t := Idle))\<rparr>
   }"

lemma reach_lock:
  assumes "reachable y" and "tasks y t = Idle" and "fresh (lock y) a ra" and "do_lock t s e a ra y = Some y'"
  shows "reachable y'"
proof -
  from assms(4) obtain st r where "range_lock_pass (lock y) t s e a 0 ra = Some (st, r)"
    "y' = \<lparr>lock = st, tasks = (tasks y)(t := outcome s e r)\<rparr>"
    by (cases "range_lock_pass (lock y) t s e a 0 ra") (auto simp: do_lock_def)
  with step.lock [OF assms(2,3)] reachable.step [OF assms(1)] show ?thesis by blast
qed

lemma reach_unlock:
  assumes "reachable y" and "tasks y t = Holding r" and "do_unlock t r y = Some y'"
  shows "reachable y' \<and> (\<exists>ws. tasks y' = wake ws ((tasks y)(t := Idle)))"
proof -
  from assms(3) obtain st ws where "range_unlock (lock y) r = Some (st, ws)"
    "y' = \<lparr>lock = st, tasks = wake ws ((tasks y)(t := Idle))\<rparr>"
    by (cases "range_unlock (lock y) r") (auto simp: do_unlock_def)
  with step.unlock [OF assms(2)] reachable.step [OF assms(1)] show ?thesis by auto
qed

lemma tasks_lock: "do_lock t s e a ra y = Some y' \<Longrightarrow> \<exists>v. tasks y' = (tasks y)(t := v)"
  by (cases "range_lock_pass (lock y) t s e a 0 ra") (auto simp: do_lock_def)

text \<open>Task 1 locks \<open>[10, 20]\<close>, task 2 locks \<open>[40, 30]\<close>, and task 3 waits for \<open>[15, 35]\<close>.\<close>

definition run1 :: sys where "run1 = the (do_lock 1 10 20 1 1 sys_init)"
definition run2 :: sys where "run2 = the (do_lock 2 40 30 2 2 run1)"
definition run3 :: sys where "run3 = the (do_lock 3 15 35 3 3 run2)"
definition run4 :: sys where "run4 = the (do_unlock 1 1 run1)"

lemma run1: "reachable run1"
proof -
  have "do_lock 1 10 20 1 1 sys_init \<noteq> None" by code_simp
  then have "do_lock 1 10 20 1 1 sys_init = Some run1" by (auto simp: run1_def)
  then show ?thesis by (rule reach_lock [OF reachable.init, rotated 2]) code_simp+
qed

lemma run2: "reachable run2"
proof -
  have "do_lock 2 40 30 2 2 run1 \<noteq> None" by code_simp
  then have "do_lock 2 40 30 2 2 run1 = Some run2" by (auto simp: run2_def)
  then show ?thesis by (rule reach_lock [OF run1, rotated 2]) code_simp+
qed

lemma run3: "reachable run3"
proof -
  have "do_lock 3 15 35 3 3 run2 \<noteq> None" by code_simp
  then have "do_lock 3 15 35 3 3 run2 = Some run3" by (auto simp: run3_def)
  then show ?thesis by (rule reach_lock [OF run2, rotated 2]) code_simp+
qed

lemma run4: "reachable run4 \<and> (\<forall>t. tasks run4 t = Idle)"
proof -
  have "do_unlock 1 1 run1 \<noteq> None" "tasks run1 1 = Holding 1" "do_lock 1 10 20 1 1 sys_init \<noteq> None"
    by code_simp+
  then have r: "do_unlock 1 1 run1 = Some run4" "do_lock 1 10 20 1 1 sys_init = Some run1"
    by (auto simp: run4_def run1_def)
  from tasks_lock [OF r(2)] reach_unlock [OF run1 \<open>tasks run1 1 = Holding 1\<close> r(1)] show ?thesis
    by (auto simp: sys_init_def)
qed

section \<open>Theorems about the range lock\<close>

text \<open>
  C3 (range_lock_exclusive): mutual exclusion. In every reachable state of the system of tasks, two
  tasks that hold a range hold ranges that do not overlap.
\<close>

theorem range_lock_exclusive:
  assumes "reachable y" and "tasks y t = Holding r" and "tasks y t' = Holding r'" and "t \<noteq> t'"
  shows "\<exists>g g'. ranges (lock y) r = Some g \<and> ranges (lock y) r' = Some g' \<and>
           \<not> check_overlap (range_start g) (range_end g) (range_start g') (range_end g')"
proof -
  from assms(1) obtain K xs where i: "lock_inv K xs y" by (rule reachable_lock_inv)
  note D = lock_invD [OF i]
  from D(5) [OF assms(2)] D(5) [OF assms(3)] obtain a d a' d' where
    a: "(a, d) \<in> set xs" "ranges (lock y) r = Some (range_of a d)" and
    a': "(a', d') \<in> set xs" "ranges (lock y) r' = Some (range_of a' d')" by blast
  from D(6) [OF assms(2,3) a(2) a'(2)] assms(4) have "a \<noteq> a'" by (auto simp: range_of_def)
  from rbs.pairwise_disjoint [OF D(1) a(1) a'(1) this] a(2) a'(2) show ?thesis
    by (simp add: range_of_def overlaps_def)
qed

theorem range_lock_exclusive_witness:
  "\<exists>g g'. ranges (lock run2) 1 = Some g \<and> ranges (lock run2) 2 = Some g' \<and>
     \<not> check_overlap (range_start g) (range_end g) (range_start g') (range_end g')"
  by (rule range_lock_exclusive [OF run2, of 1 1 2 2]) code_simp+



text \<open>
  no task ever gets stuck inside the lock. The code that a woken task runs
  before it tries again, the pass that follows it, and every call of \<^verbatim>\<open>range_unlock\<close> by a
  holder return: no assertion fails and no freed node is touched.
\<close>

theorem range_lock_safe:
  assumes "reachable y"
  shows "(tasks y t = Woken s e n \<longrightarrow>
            (\<exists>st. range_lock_wake (lock y) n = Some st \<and>
               (fresh st a ra \<longrightarrow> (\<exists>st' r. range_lock_pass st t s e a j ra = Some (st', r))))) \<and>
         (tasks y t = Holding r \<longrightarrow> (\<exists>st ws. range_unlock (lock y) r = Some (st, ws)))"
proof (intro conjI impI)
  note i = reachable_inv [OF assms]
  assume "tasks y t = Woken s e n"
  from wake_inv [OF i this] obtain st where st: "range_lock_wake (lock y) n = Some st"
    "sys_inv \<lparr>lock = st, tasks = (tasks y)(t := Idle)\<rparr>" by blast
  with pass_inv [OF st(2), of t a ra s e j]
  show "\<exists>st. range_lock_wake (lock y) n = Some st \<and>
      (fresh st a ra \<longrightarrow> (\<exists>st' r. range_lock_pass st t s e a j ra = Some (st', r)))" by auto
next
  assume "tasks y t = Holding r"
  with unlock_inv [OF reachable_inv [OF assms]]
  show "\<exists>st ws. range_unlock (lock y) r = Some (st, ws)" by blast
qed

theorem range_lock_safe_witness:
  "\<exists>st ws. range_unlock (lock run3) 1 = Some (st, ws)"
proof -
  have "tasks run3 1 = Holding 1" by code_simp
  with range_lock_safe [OF run3, of 1 0 0 0 0 0 0 1] show ?thesis by blast
qed

text \<open>
  C12 (range_lock_no_lost_wakeup): a task sleeps only while another task holds a range that overlaps
  the one it wants, and the unlock of that range wakes it up.
\<close>

theorem range_lock_no_lost_wakeup:
  assumes "reachable y" and "tasks y t = Sleeping s e n"
  shows "\<exists>h r g. tasks y h = Holding r \<and> ranges (lock y) r = Some g \<and> range_node g = n \<and>
           check_overlap (range_start g) (range_end g) s e \<and>
           (\<exists>st ws. range_unlock (lock y) r = Some (st, ws) \<and> t \<in> set ws)"
proof -
  from assms(1) obtain K xs where i: "lock_inv K xs y" by (rule reachable_lock_inv)
  note D = lock_invD [OF i]
  have sl: "t \<in> sleepers (tasks y) n" using assms(2) by (auto simp: sleepers_def)
  with D(4) [of n] obtain d where d: "(n, d) \<in> set xs" by fastforce
  from D(2) [OF d] assms(2) obtain h r where h: "tasks y h = Holding r" "ranges (lock y) r = Some (range_of n d)"
    and "overlaps d s e" by (auto simp: node_inv_def)
  moreover from unlock_inv [OF reachable_inv [OF assms(1)] h(1)] h(2) sl
  have "\<exists>st ws. range_unlock (lock y) r = Some (st, ws) \<and> t \<in> set ws" by (auto simp: range_of_def)
  ultimately have "tasks y h = Holding r \<and> ranges (lock y) r = Some (range_of n d) \<and>
      range_node (range_of n d) = n \<and>
      check_overlap (range_start (range_of n d)) (range_end (range_of n d)) s e \<and>
      (\<exists>st ws. range_unlock (lock y) r = Some (st, ws) \<and> t \<in> set ws)"
    by (simp add: range_of_def overlaps_def)
  then show ?thesis by blast
qed

theorem range_lock_no_lost_wakeup_witness:
  "\<exists>h r g. tasks run3 h = Holding r \<and> ranges (lock run3) r = Some g \<and> range_node g = 1 \<and>
     check_overlap (range_start g) (range_end g) 15 35 \<and>
     (\<exists>st ws. range_unlock (lock run3) r = Some (st, ws) \<and> 3 \<in> set ws)"
proof (rule range_lock_no_lost_wakeup [OF run3])
  show "tasks run3 3 = Sleeping 15 35 1" by code_simp
qed

text \<open>
  when no task is inside the lock any more, every node and every
  \<^verbatim>\<open>struct range\<close> has been freed, and the tree is empty.
\<close>

theorem range_lock_no_leak:
  assumes "reachable y" and "\<forall>t. tasks y t = Idle"
  shows "nodes (root (lock y)) = Map.empty \<and> ranges (lock y) = Map.empty \<and>
         rnode (root (lock y)) = NULL \<and> rcount (root (lock y)) = 0"
proof -
  from assms(1) obtain K xs where i: "lock_inv K xs y" by (rule reachable_lock_inv)
  note D = lock_invD [OF i]
  have "xs = []"
  proof (rule ccontr)
    assume "xs \<noteq> []"
    then obtain a d where "(a, d) \<in> set xs" by (cases xs) auto
    with D(2) assms(2) show False by (force simp: node_inv_def)
  qed
  have "nodes (root (lock y)) a = None" for a
    using rbs.outside_law [OF D(1), of a] D(3) [of a] assms(2) \<open>xs = []\<close>
    by (auto simp: zombie_inv_def wokens_def split: option.splits)
  moreover have "rnode (root (lock y)) = NULL" "rcount (root (lock y)) = 0"
    using D(1) \<open>xs = []\<close> by (auto simp: rb_stored_def rep_def) (metis Nil_is_append_conv inorder.elims list.discI ptr_of.simps(1))
  moreover have "dom (ranges (lock y)) = {}" using D(7) assms(2) by (auto simp: held_def)
  ultimately show ?thesis by auto
qed

theorem range_lock_no_leak_witness:
  "nodes (root (lock run4)) = Map.empty \<and> ranges (lock run4) = Map.empty \<and>
   rnode (root (lock run4)) = NULL \<and> rcount (root (lock run4)) = 0"
  by (rule range_lock_no_leak) (simp_all add: run4)

text \<open>
  the self check \<^verbatim>\<open>rb_verify_parent\<close> that a debug build runs at the
  end of \<^verbatim>\<open>range_lock\<close> and \<^verbatim>\<open>range_unlock\<close> passes in every reachable state.
\<close>

theorem range_lock_debug_check:
  assumes "reachable y"
  shows "rb_verify_parent (root (lock y)) = Some ()"
  using assms reachable_lock_inv lock_invD(1) rb_verify_parent_stored by metis

theorem range_lock_debug_check_witness: "rb_verify_parent (root (lock run2)) = Some ()"
  by (rule range_lock_debug_check [OF run2])

end
