(* ===== verification/Dll.thy ===== *)
theory Dll
  imports Prelude
begin

text \<open>
  The circular doubly linked lists of \<^verbatim>\<open>dll.h\<close> (the same macros in \<^verbatim>\<open>iosplitter/include\<close> and in
  \<^verbatim>\<open>vmware_kernel/mpp\<close>). A list head and its entries are nodes of one ring of pointers; the
  macros are specified by what they do to the sequence of entries of the ring.
\<close>

section \<open>The macros\<close>

record dll =
  dll_next :: addr
  dll_prev :: addr

type_synonym dlls = "addr \<rightharpoonup> dll"

definition set_next :: "dlls \<Rightarrow> addr \<Rightarrow> addr \<Rightarrow> dlls option" where
  "set_next h p v = store h p (\<lambda>n. n\<lparr>dll_next := v\<rparr>)"

definition set_prev :: "dlls \<Rightarrow> addr \<Rightarrow> addr \<Rightarrow> dlls option" where
  "set_prev h p v = store h p (\<lambda>n. n\<lparr>dll_prev := v\<rparr>)"

definition DLL_NEXT :: "dlls \<Rightarrow> addr \<Rightarrow> addr option" where
  "DLL_NEXT h p = map_option dll_next (h p)"

definition DLL_PREV :: "dlls \<Rightarrow> addr \<Rightarrow> addr option" where
  "DLL_PREV h p = map_option dll_prev (h p)"

definition DLL_INIT :: "dlls \<Rightarrow> addr \<Rightarrow> dlls option" where
  "DLL_INIT h p = do { h \<leftarrow> set_next h p p; set_prev h p p }"

definition DLL_REM :: "dlls \<Rightarrow> addr \<Rightarrow> dlls option" where
  "DLL_REM h p = do {
     n \<leftarrow> DLL_NEXT h p;
     q \<leftarrow> DLL_PREV h p;
     h \<leftarrow> set_prev h n q;
     n \<leftarrow> DLL_NEXT h p;
     q \<leftarrow> DLL_PREV h p;
     h \<leftarrow> set_next h q n;
     h \<leftarrow> set_next h p p;
     set_prev h p p
   }"

definition DLL_ADD :: "dlls \<Rightarrow> addr \<Rightarrow> addr \<Rightarrow> dlls option" where
  "DLL_ADD h p new = do {
     n \<leftarrow> DLL_NEXT h p;
     h \<leftarrow> set_next h new n;
     h \<leftarrow> set_prev h new p;
     n \<leftarrow> DLL_NEXT h p;
     h \<leftarrow> set_prev h n new;
     set_next h p new
   }"

definition DLL_REVADD :: "dlls \<Rightarrow> addr \<Rightarrow> addr \<Rightarrow> dlls option" where
  "DLL_REVADD h p new = do {
     q \<leftarrow> DLL_PREV h p;
     h \<leftarrow> set_prev h new q;
     h \<leftarrow> set_next h new p;
     h \<leftarrow> set_prev h p new;
     q \<leftarrow> DLL_PREV h new;
     set_next h q new
   }"

definition DLL_MOVE :: "dlls \<Rightarrow> addr \<Rightarrow> addr \<Rightarrow> dlls option" where
  "DLL_MOVE h old new = do { h \<leftarrow> DLL_ADD h old new; DLL_REM h old }"

definition DLL_ISEMPTY :: "dlls \<Rightarrow> addr \<Rightarrow> bool option" where
  "DLL_ISEMPTY h p = do { n \<leftarrow> DLL_NEXT h p; Some (n = p) }"

section \<open>Rings\<close>

fun links :: "dlls \<Rightarrow> addr list \<Rightarrow> bool" where
  "links h (a # b # xs) = (DLL_NEXT h a = Some b \<and> DLL_PREV h b = Some a \<and> links h (b # xs))"
| "links h _ = True"

text \<open>\<open>ring h p xs\<close>: the entries \<open>xs\<close> follow the head \<open>p\<close> along the \<^verbatim>\<open>dll_next\<close> pointers.\<close>

definition ring :: "dlls \<Rightarrow> addr \<Rightarrow> addr list \<Rightarrow> bool" where
  "ring h p xs \<longleftrightarrow> distinct (p # xs) \<and> links h (p # xs @ [p])"

text \<open>What a write changes.\<close>

lemma next_upd [simp]:
  "DLL_NEXT (h(p \<mapsto> n)) q = (if q = p then Some (dll_next n) else DLL_NEXT h q)"
  by (simp add: DLL_NEXT_def)

lemma prev_upd [simp]:
  "DLL_PREV (h(p \<mapsto> n)) q = (if q = p then Some (dll_prev n) else DLL_PREV h q)"
  by (simp add: DLL_PREV_def)

lemma links_cong:
  "\<forall>x \<in> set (butlast xs). DLL_NEXT h' x = DLL_NEXT h x \<Longrightarrow>
   \<forall>x \<in> set (tl xs). DLL_PREV h' x = DLL_PREV h x \<Longrightarrow> links h xs \<Longrightarrow> links h' xs"
  by (induction h xs rule: links.induct) auto

lemma links_append:
  "links h (xs @ a # ys) \<longleftrightarrow> links h (xs @ [a]) \<and> links h (a # ys)"
proof (induction xs)
  case (Cons b xs)
  then show ?case by (cases xs) auto
qed simp

lemma links_join:
  "xs \<noteq> [] \<Longrightarrow> ys \<noteq> [] \<Longrightarrow> links g xs \<Longrightarrow> links g ys \<Longrightarrow> links g [last xs, hd ys] \<Longrightarrow> links g (xs @ ys)"
proof (induction xs)
  case (Cons a xs)
  then show ?case by (cases xs; cases ys) auto
qed simp

lemma links_between:
  "xs \<noteq> [] \<Longrightarrow> ys \<noteq> [] \<Longrightarrow> links g (xs @ ys) \<Longrightarrow> links g [last xs, hd ys]"
proof (induction xs)
  case (Cons a xs)
  then show ?case by (cases xs; cases ys) auto
qed simp

text \<open>Neighbours in the ring.\<close>

lemma ring_neighbours:
  assumes "ring h p (xs @ ys)"
  shows "DLL_PREV h (hd (ys @ [p])) = Some (last (p # xs))"
    and "DLL_NEXT h (last (p # xs)) = Some (hd (ys @ [p]))"
  using assms links_between [of "p # xs" "ys @ [p]" h] by (auto simp: ring_def)

lemma ring_frame:
  "ring h p xs \<Longrightarrow> \<forall>x \<in> set (p # xs). h' x = h x \<Longrightarrow> ring h' p xs"
  unfolding ring_def by (auto elim!: links_cong [rotated 2] simp: DLL_NEXT_def DLL_PREV_def butlast_append)

lemma ring_ends:
  assumes "ring h p xs"
  shows "DLL_NEXT h p = Some (hd (xs @ [p]))" and "DLL_PREV h p = Some (last (p # xs))"
proof -
  from assms show "DLL_NEXT h p = Some (hd (xs @ [p]))" by (cases xs) (auto simp: ring_def)
  from assms show "DLL_PREV h p = Some (last (p # xs))"
  proof (cases xs rule: rev_cases)
    case (snoc ys y)
    with assms links_append [of h "p # ys" y "[p]"] show ?thesis by (simp add: ring_def)
  qed (simp add: ring_def)
qed

lemma DLL_SomeD:
  "DLL_NEXT h p = Some q \<Longrightarrow> \<exists>n. h p = Some n \<and> dll_next n = q"
  "DLL_PREV h p = Some q \<Longrightarrow> \<exists>n. h p = Some n \<and> dll_prev n = q"
  by (auto simp: DLL_NEXT_def DLL_PREV_def)

lemma ring_mem: "ring h p xs \<Longrightarrow> x \<in> set (p # xs) \<Longrightarrow> \<exists>n. h x = Some n"
proof -
  have "links h (a # ys @ [b]) \<Longrightarrow> x \<in> set (a # ys) \<Longrightarrow> \<exists>n. h x = Some n" for a b ys
    by (induction ys arbitrary: a) (auto dest: DLL_SomeD)
  from this [of p xs p] show "ring h p xs \<Longrightarrow> x \<in> set (p # xs) \<Longrightarrow> \<exists>n. h x = Some n"
    by (simp add: ring_def)
qed

lemma ring_empty: "ring h p xs \<Longrightarrow> DLL_ISEMPTY h p = Some (xs = [])"
  by (cases xs) (auto simp: DLL_ISEMPTY_def ring_def)

lemma DLL_INIT_ring:
  "h p = Some n \<Longrightarrow> \<exists>h'. DLL_INIT h p = Some h' \<and> ring h' p [] \<and> (\<forall>x. x \<noteq> p \<longrightarrow> h' x = h x)"
  by (simp add: DLL_INIT_def set_next_def set_prev_def ring_def)

text \<open>\<open>agree S h h'\<close>: nothing outside \<open>S\<close> has been written.\<close>

definition agree :: "addr set \<Rightarrow> dlls \<Rightarrow> dlls \<Rightarrow> bool" where
  "agree S h h' \<longleftrightarrow> (\<forall>x. x \<notin> S \<longrightarrow> h' x = h x) \<and> dom h' = dom h"

lemma agree_dom: "agree S h h' \<Longrightarrow> h' x = None \<longleftrightarrow> h x = None"
  unfolding agree_def dom_def by blast

lemma DLL_ADD_ring:
  assumes "ring h p xs" and "new \<notin> set (p # xs)" and "h new = Some n"
  shows "\<exists>h'. DLL_ADD h p new = Some h' \<and> ring h' p (new # xs) \<and> agree (set (p # new # xs)) h h'"
proof -
  let ?b = "hd (xs @ [p])"
  note e = ring_ends [OF assms(1)]
  from DLL_SomeD(1) [OF e(1)] obtain pn where p: "h p = Some pn" "dll_next pn = ?b" by blast
  have b: "?b \<in> set (p # xs)" by (cases xs) auto
  from ring_mem [OF assms(1) b] obtain bn where bn: "h ?b = Some bn" by blast
  from assms(2) b have ne: "new \<noteq> p" "new \<noteq> ?b" by auto
  have old: "DLL_NEXT h ?b = Some (dll_next bn)" "DLL_PREV h p = Some (dll_prev pn)"
    using bn p by (auto simp: DLL_NEXT_def DLL_PREV_def)
  let ?h = "h(new \<mapsto> \<lparr>dll_next = ?b, dll_prev = p\<rparr>, ?b \<mapsto> bn\<lparr>dll_prev := new\<rparr>)"
  let ?g = "?h(p \<mapsto> (the (?h p))\<lparr>dll_next := new\<rparr>)"
  have "DLL_ADD h p new = Some ?g"
    using assms(3) p bn ne
    by (cases n) (auto simp: DLL_ADD_def set_next_def set_prev_def DLL_NEXT_def)
  moreover have "ring ?g p (new # xs)"
  proof (cases xs)
    case Nil
    with assms(2) p bn ne show ?thesis by (auto simp: ring_def)
  next
    case (Cons x ys)
    from assms(1) Cons have d: "distinct (p # x # ys)" and "links h (x # ys @ [p])" by (auto simp: ring_def)
    then have "links ?g (x # ys @ [p])"
      using ne Cons assms(2) p bn old by (auto elim!: links_cong [rotated 2] simp: butlast_append)
    with Cons d ne assms(2) p bn show ?thesis by (auto simp: ring_def)
  qed
  moreover have "agree (set (p # new # xs)) h ?g" using b p bn assms(3) by (auto simp: agree_def)
  ultimately show ?thesis by blast
qed

lemma DLL_REVADD_ring:
  assumes "ring h p xs" and "new \<notin> set (p # xs)" and "h new = Some n"
  shows "\<exists>h'. DLL_REVADD h p new = Some h' \<and> ring h' p (xs @ [new]) \<and> agree (set (p # new # xs)) h h'"
proof -
  let ?b = "last (p # xs)"
  note e = ring_ends [OF assms(1)]
  from DLL_SomeD(2) [OF e(2)] obtain pn where p: "h p = Some pn" "dll_prev pn = ?b" by blast
  have b: "?b \<in> set (p # xs)" by (cases xs) auto
  from ring_mem [OF assms(1) b] obtain bn where bn: "h ?b = Some bn" by blast
  from assms(2) b have ne: "new \<noteq> p" "new \<noteq> ?b" by auto
  have old: "DLL_PREV h ?b = Some (dll_prev bn)" "DLL_NEXT h p = Some (dll_next pn)"
    using bn p by (auto simp: DLL_NEXT_def DLL_PREV_def)
  let ?h = "h(new \<mapsto> \<lparr>dll_next = p, dll_prev = ?b\<rparr>, p \<mapsto> pn\<lparr>dll_prev := new\<rparr>)"
  let ?g = "?h(?b \<mapsto> (the (?h ?b))\<lparr>dll_next := new\<rparr>)"
  have "DLL_REVADD h p new = Some ?g"
    using assms(3) p bn ne
    by (cases n) (auto simp: DLL_REVADD_def set_next_def set_prev_def DLL_PREV_def)
  moreover have "ring ?g p (xs @ [new])"
  proof (cases xs rule: rev_cases)
    case Nil
    with assms(2) p bn ne show ?thesis by (auto simp: ring_def)
  next
    case (snoc ys x)
    from assms(1) snoc have d: "distinct (p # ys @ [x])" and "links h (p # ys @ [x])"
      using links_append [of h "p # ys" x "[p]"] by (auto simp: ring_def)
    then have "links ?g (p # ys @ [x])"
      using ne snoc assms(2) p bn old by (auto elim!: links_cong [rotated 2] simp: butlast_append)
    with snoc d ne assms(2) p bn links_append [of ?g "p # ys" x "[new, p]"] show ?thesis
      by (auto simp: ring_def)
  qed
  moreover have "agree (set (p # new # xs)) h ?g" using b p bn assms(3) by (auto simp: agree_def)
  ultimately show ?thesis by blast
qed

lemma DLL_REM_ring:
  assumes "ring h p (xs @ x # ys)"
  shows "\<exists>h'. DLL_REM h x = Some h' \<and> ring h' p (xs @ ys) \<and> ring h' x [] \<and> agree (set (p # xs @ x # ys)) h h'"
proof -
  let ?a = "last (p # xs)" and ?b = "hd (ys @ [p])"
  from assms have d: "distinct (p # xs @ x # ys)" and l: "links h (p # xs @ x # ys @ [p])"
    by (auto simp: ring_def)
  from l links_append [of h "p # xs" x "ys @ [p]"]
  have l1: "links h (p # xs @ [x])" and l2: "links h (x # ys @ [p])" by auto
  have nx: "DLL_NEXT h x = Some ?b" using l2 by (cases ys) auto
  have px: "DLL_PREV h x = Some ?a"
  proof (cases xs rule: rev_cases)
    case (snoc zs z)
    with l1 links_append [of h "p # zs" z "[x]"] show ?thesis by simp
  qed (use l1 in simp)
  have ab: "?a \<in> set (p # xs @ x # ys)" "?b \<in> set (p # xs @ x # ys)" by (cases xs; cases ys; auto)+
  have ne: "?a \<noteq> x" "?b \<noteq> x" using d by (cases xs rule: rev_cases; cases ys; auto)+
  from ring_mem [OF assms ab(1)] ring_mem [OF assms ab(2)] ring_mem [OF assms, of x] obtain an bn xn where
    n: "h ?a = Some an" "h ?b = Some bn" "h x = Some xn" by auto
  let ?h = "h(?b \<mapsto> bn\<lparr>dll_prev := ?a\<rparr>)"
  let ?g = "?h(?a \<mapsto> (the (?h ?a))\<lparr>dll_next := ?b\<rparr>, x \<mapsto> \<lparr>dll_next = x, dll_prev = x\<rparr>)"
  have "DLL_REM h x = Some ?g"
    using n nx px ne by (cases xn) (auto simp: DLL_REM_def set_next_def set_prev_def DLL_NEXT_def DLL_PREV_def)
  moreover have "ring ?g x []" by (simp add: ring_def)
  moreover have "agree (set (p # xs @ x # ys)) h ?g" using ab n by (auto simp: agree_def)
  moreover have "ring ?g p (xs @ ys)"
  proof -
    have old: "DLL_NEXT h ?b = Some (dll_next bn)" "DLL_PREV h ?a = Some (dll_prev an)"
      "DLL_NEXT h ?a = Some (dll_next an)" "DLL_PREV h ?b = Some (dll_prev bn)"
      using n by (auto simp: DLL_NEXT_def DLL_PREV_def)
    have m1: "links ?g (p # xs)"
    proof (cases xs rule: rev_cases)
      case (snoc zs z)
      with l1 links_append [of h "p # zs" z "[x]"] have "links h (p # zs @ [z])" by simp
      with snoc d old n ne show ?thesis
        by (cases ys) (auto elim!: links_cong [rotated 2] simp: butlast_append)
    qed simp
    have m2: "links ?g (ys @ [p])"
    proof (cases ys)
      case (Cons y zs)
      with l2 have "links h (y # zs @ [p])" by simp
      with Cons d old n ne show ?thesis
        by (cases xs rule: rev_cases) (auto elim!: links_cong [rotated 2] simp: butlast_append)
    qed simp
    have m3: "links ?g [?a, ?b]" using n ne by auto
    have "links ?g ((p # xs) @ ys @ [p])" by (rule links_join) (use m1 m2 m3 in simp_all)
    then have "links ?g (p # (xs @ ys) @ [p])" by simp
    then show ?thesis using d by (simp add: ring_def)
  qed
  ultimately show ?thesis by blast
qed

lemma DLL_MOVE_ring:
  assumes "ring h old xs" and "new \<notin> set (old # xs)" and "h new = Some n"
  shows "\<exists>h'. DLL_MOVE h old new = Some h' \<and> ring h' new xs \<and> ring h' old []"
proof -
  from DLL_ADD_ring [OF assms] obtain h1 where h1: "DLL_ADD h old new = Some h1" "ring h1 old (new # xs)" by blast
  have "ring h1 new (xs @ [old])" using h1(2) links_append [of h1 "new # xs" old "[new]"]
    by (auto simp: ring_def)
  with DLL_REM_ring [of h1 new xs old "[]"] h1(1) show ?thesis by (auto simp: DLL_MOVE_def)
qed

end
