(* ===== verification/Hash.thy ===== *)
theory Hash
  imports Dll
begin

text \<open>
  \<^verbatim>\<open>hash.c\<close>: an array of list heads, the comparison function given by the client. The list node
  is the first member of \<^verbatim>\<open>hash_entry_t\<close>, so an entry and its list node have the same address
  (\<^verbatim>\<open>container_of\<close> is the identity on addresses).
\<close>

section \<open>The operations\<close>

record hash_table =
  buckets :: addr
  count :: int
  no_buckets :: int

text \<open>The list nodes and the member \<^verbatim>\<open>bucket\<close> of the entries in memory, and the table.\<close>

record hmem =
  hdlls :: dlls
  bucket :: "addr \<rightharpoonup> int"
  tab :: hash_table

definition head_at :: "hmem \<Rightarrow> int \<Rightarrow> addr" where
  "head_at m i = buckets (tab m) + nat i"

text \<open>
  \<^verbatim>\<open>hash_init\<close>; \<open>base\<close> is what \<^verbatim>\<open>calloc\<close> returned, \<open>n\<close> consecutive zeroed list heads. In the
  kernel half the heap is created first; \<open>name_ok\<close> and \<open>heap_ok\<close> say whether \<^verbatim>\<open>vmware_name\<close> and
  \<^verbatim>\<open>vmware_heap_create\<close> succeeded.
\<close>

definition calloc_heads :: "dlls \<Rightarrow> addr \<Rightarrow> nat \<Rightarrow> dlls" where
  "calloc_heads h base n =
     (\<lambda>a. if base \<le> a \<and> a < base + n then Some \<lparr>dll_next = NULL, dll_prev = NULL\<rparr> else h a)"

primrec init_heads :: "dlls \<Rightarrow> addr \<Rightarrow> nat \<Rightarrow> dlls option" where
  "init_heads h base 0 = Some h"
| "init_heads h base (Suc n) = do { h \<leftarrow> init_heads h base n; DLL_INIT h (base + n) }"

definition hash_init :: "hmem \<Rightarrow> int \<Rightarrow> addr \<Rightarrow> (hmem \<times> int) option" where
  "hash_init m n base = do {
     c_assert (n > 0);
     let m = m\<lparr>tab := \<lparr>buckets = base, count = 0, no_buckets = n\<rparr>\<rparr>;
     if base = NULL then Some (m, -1)
     else do {
       h \<leftarrow> init_heads (calloc_heads (hdlls m) base (nat n)) base (nat n);
       Some (m\<lparr>hdlls := h\<rparr>, 0)
     }
   }"

definition mpp_hash_init :: "hmem \<Rightarrow> bool \<Rightarrow> bool \<Rightarrow> int \<Rightarrow> addr \<Rightarrow> (hmem \<times> int) option" where
  "mpp_hash_init m name_ok heap_ok n base = do {
     c_assert (n > 0);
     if \<not> name_ok then Some (m\<lparr>tab := \<lparr>buckets = NULL, count = 0, no_buckets = 0\<rparr>\<rparr>, -1)
     else if \<not> heap_ok then Some (m\<lparr>tab := \<lparr>buckets = NULL, count = 0, no_buckets = 0\<rparr>\<rparr>, -1)
     else hash_init m n base
   }"

definition hash_deinit :: "hmem \<Rightarrow> hmem option" where
  "hash_deinit m = do {
     c_assert (no_buckets (tab m) > 0);
     c_assert (count (tab m) = 0);
     Some (m\<lparr>hdlls := (\<lambda>a. if buckets (tab m) \<le> a \<and> a < buckets (tab m) + nat (no_buckets (tab m))
                            then None else hdlls m a)\<rparr>)
   }"

definition hash_add :: "hmem \<Rightarrow> addr \<Rightarrow> int \<Rightarrow> (hmem \<times> int) option" where
  "hash_add m e b = do {
     c_assert (e \<noteq> NULL);
     c_assert (no_buckets (tab m) > 0);
     c_assert (b \<ge> 0 \<and> b < no_buckets (tab m));
     h \<leftarrow> DLL_ADD (hdlls m) (head_at m b) e;
     bk \<leftarrow> store (bucket m) e (\<lambda>_. b);
     Some (m\<lparr>hdlls := h, bucket := bk, tab := (tab m)\<lparr>count := count (tab m) + 1\<rparr>\<rparr>, 0)
   }"

partial_function (option) hash_find :: "dlls \<Rightarrow> (addr \<Rightarrow> int) \<Rightarrow> addr \<Rightarrow> addr \<Rightarrow> addr option" where
  "hash_find h cmp b t =
     (if t = b then Some NULL
      else if cmp t = 1 then Some t
      else do { t \<leftarrow> DLL_NEXT h t; hash_find h cmp b t })"

declare hash_find.simps [code]

text \<open>\<open>cmp\<close> is the client's comparison with the key. The result is the value of \<^verbatim>\<open>*entry\<close>.\<close>

definition hash_lookup :: "hmem \<Rightarrow> int \<Rightarrow> (addr \<Rightarrow> int) \<Rightarrow> (int \<times> addr) option" where
  "hash_lookup m b cmp = do {
     c_assert (no_buckets (tab m) > 0);
     c_assert (b \<ge> 0 \<and> b < no_buckets (tab m));
     t \<leftarrow> DLL_NEXT (hdlls m) (head_at m b);
     e \<leftarrow> hash_find (hdlls m) cmp (head_at m b) t;
     Some (if e = NULL then (-1, NULL) else (0, e))
   }"

definition hash_rem :: "hmem \<Rightarrow> addr \<Rightarrow> hmem option" where
  "hash_rem m e = do {
     c_assert (e \<noteq> NULL);
     empty \<leftarrow> DLL_ISEMPTY (hdlls m) e;
     m \<leftarrow> (if \<not> empty then do {
              h \<leftarrow> DLL_REM (hdlls m) e;
              Some (m\<lparr>hdlls := h, tab := (tab m)\<lparr>count := count (tab m) - 1\<rparr>\<rparr>)
            } else Some m);
     c_assert (count (tab m) \<ge> 0);
     Some m
   }"

text \<open>
  \<^verbatim>\<open>hash_cleanup\<close>: \<open>cb\<close> is the client's callback (possibly absent in the source, which is the
  identity). The result also lists the entries it was called on, in order.
\<close>

partial_function (option) cleanup_bucket ::
    "(hmem \<Rightarrow> addr \<Rightarrow> hmem option) \<Rightarrow> hmem \<Rightarrow> addr \<Rightarrow> addr \<Rightarrow> (hmem \<times> addr list) option" where
  "cleanup_bucket cb m h t =
     (if t = h then Some (m, [])
      else do {
        t' \<leftarrow> DLL_PREV (hdlls m) t;
        m \<leftarrow> hash_rem m t;
        m \<leftarrow> cb m t;
        (m, es) \<leftarrow> cleanup_bucket cb m h t';
        Some (m, t # es)
      })"

declare cleanup_bucket.simps [code]

primrec cleanup_buckets ::
    "(hmem \<Rightarrow> addr \<Rightarrow> hmem option) \<Rightarrow> hmem \<Rightarrow> nat \<Rightarrow> (hmem \<times> addr list) option" where
  "cleanup_buckets cb m 0 = Some (m, [])"
| "cleanup_buckets cb m (Suc i) = do {
     (m, es) \<leftarrow> cleanup_buckets cb m i;
     t \<leftarrow> DLL_PREV (hdlls m) (head_at m (int i));
     (m, fs) \<leftarrow> cleanup_bucket cb m (head_at m (int i)) t;
     Some (m, es @ fs)
   }"

definition hash_cleanup :: "(hmem \<Rightarrow> addr \<Rightarrow> hmem option) \<Rightarrow> hmem \<Rightarrow> (hmem \<times> addr list) option" where
  "hash_cleanup cb m = do {
     c_assert (no_buckets (tab m) > 0);
     (m, es) \<leftarrow> cleanup_buckets cb m (nat (no_buckets (tab m)));
     c_assert (count (tab m) = 0);
     Some (m, es)
   }"

section \<open>The table as a family of sequences\<close>

text \<open>
  \<open>hash_holds m bs\<close>: bucket \<open>i\<close> holds the entries \<open>bs ! i\<close>, the newest first. No entry is in
  two buckets, and no entry is one of the list heads.
\<close>

definition is_head :: "hmem \<Rightarrow> addr \<Rightarrow> bool" where
  "is_head m a \<longleftrightarrow> buckets (tab m) \<le> a \<and> a < buckets (tab m) + nat (no_buckets (tab m))"

definition hash_holds :: "hmem \<Rightarrow> addr list list \<Rightarrow> bool" where
  "hash_holds m bs \<longleftrightarrow>
     bs \<noteq> [] \<and> no_buckets (tab m) = int (length bs) \<and> buckets (tab m) \<noteq> NULL \<and>
     count (tab m) = (\<Sum>xs\<leftarrow>bs. int (length xs)) \<and>
     (\<forall>i < length bs. ring (hdlls m) (buckets (tab m) + i) (bs ! i) \<and>
        (\<forall>e \<in> set (bs ! i). e \<noteq> NULL \<and> \<not> is_head m e \<and> bucket m e = Some (int i)))"

text \<open>An entry that is on no list: its node is linked to itself, as \<^verbatim>\<open>hash_entry_init\<close> leaves it.\<close>

definition off_list :: "hmem \<Rightarrow> addr list list \<Rightarrow> addr \<Rightarrow> bool" where
  "off_list m bs e \<longleftrightarrow>
     e \<noteq> NULL \<and> ring (hdlls m) e [] \<and> bucket m e \<noteq> None \<and> e \<notin> set (concat bs) \<and> \<not> is_head m e"

definition hash_entry_init :: "hmem \<Rightarrow> addr \<Rightarrow> hmem option" where
  "hash_entry_init m e = do {
     h \<leftarrow> DLL_INIT (hdlls m) e;
     bk \<leftarrow> store (bucket m) e (\<lambda>_. -1);
     Some (m\<lparr>hdlls := h, bucket := bk\<rparr>)
   }"

lemma hash_holdsD:
  assumes "hash_holds m bs" and "i < length bs"
  shows "ring (hdlls m) (buckets (tab m) + i) (bs ! i)"
    and "e \<in> set (bs ! i) \<Longrightarrow> e \<noteq> NULL \<and> \<not> is_head m e \<and> bucket m e = Some (int i)"
    and "head_at m (int i) = buckets (tab m) + i"
    and "no_buckets (tab m) = int (length bs)"
    and "is_head m (buckets (tab m) + i)" and "bs \<noteq> []"
  using assms by (auto simp: hash_holds_def head_at_def is_head_def)

text \<open>The buckets other than \<open>i\<close> do not notice a change of the ring of bucket \<open>i\<close>.\<close>

lemma other_ring:
  assumes h: "hash_holds m bs" and j: "j < length bs" "j \<noteq> i" and i: "i < length bs"
    and "agree (set ((buckets (tab m) + i) # x # bs ! i)) (hdlls m) h'" and x: "x \<notin> set (bs ! j)" "\<not> is_head m x"
  shows "ring h' (buckets (tab m) + j) (bs ! j)"
proof (rule ring_frame [OF hash_holdsD(1) [OF h j(1)]])
  have "y \<notin> set (bs ! i)" if "y \<in> set (bs ! j)" for y
    using hash_holdsD(2) [OF h j(1) that] hash_holdsD(2) [OF h i, of y] j(2) by auto
  then have "y \<notin> set ((buckets (tab m) + i) # x # bs ! i)" if "y \<in> set ((buckets (tab m) + j) # bs ! j)" for y
    using that hash_holdsD(2) [OF h j(1)] hash_holdsD(2) [OF h i] hash_holdsD(5) [OF h i]
      hash_holdsD(5) [OF h j(1)] j(2) x by auto
  with assms(5) show "\<forall>y \<in> set ((buckets (tab m) + j) # bs ! j). h' y = hdlls m y"
    by (auto simp: agree_def)
qed

lemma sum_length_update:
  "i < length bs \<Longrightarrow> (\<Sum>xs\<leftarrow>bs[i := ys]. int (length xs)) =
     (\<Sum>xs\<leftarrow>bs. int (length xs)) + int (length ys) - int (length (bs ! i))"
proof (induction bs arbitrary: i)
  case (Cons b bs)
  then show ?case by (cases i) auto
qed simp

lemma hash_add_holds:
  assumes h: "hash_holds m bs" and e: "off_list m bs e" and b: "0 \<le> b" "b < int (length bs)"
  shows "\<exists>m'. hash_add m e b = Some (m', 0) \<and> hash_holds m' (bs[nat b := e # bs ! nat b]) \<and>
           bucket m' = (bucket m)(e \<mapsto> b) \<and> tab m' = (tab m)\<lparr>count := count (tab m) + 1\<rparr>"
proof -
  define i where "i = nat b"
  have i: "i < length bs" "b = int i" using b by (auto simp: i_def)
  note D = hash_holdsD [OF h i(1)]
  have eni: "e \<notin> set (bs ! j)" if "j < length bs" for j
    using e that by (auto simp: off_list_def dest: nth_mem)
  have "e \<notin> set ((buckets (tab m) + i) # bs ! i)" using e D(5) eni [OF i(1)] by (auto simp: off_list_def)
  moreover obtain n where "hdlls m e = Some n" using e ring_mem [of "hdlls m" e "[]" e] by (auto simp: off_list_def)
  ultimately obtain h' where h': "DLL_ADD (hdlls m) (buckets (tab m) + i) e = Some h'"
    "ring h' (buckets (tab m) + i) (e # bs ! i)"
    "agree (set ((buckets (tab m) + i) # e # bs ! i)) (hdlls m) h'" using DLL_ADD_ring [OF D(1)] by blast
  from e obtain b0 where b0: "bucket m e = Some b0" by (auto simp: off_list_def)
  let ?m = "m\<lparr>hdlls := h', bucket := (bucket m)(e \<mapsto> b), tab := (tab m)\<lparr>count := count (tab m) + 1\<rparr>\<rparr>"
  have "hash_holds ?m (bs[i := e # bs ! i])"
    unfolding hash_holds_def
  proof (intro conjI allI impI, goal_cases)
    case 4
    from h i(1) sum_length_update [OF i(1), of "e # bs ! i"] show ?case by (simp add: hash_holds_def)
  next
    case (5 j)
    then have j: "j < length bs" by simp
    show ?case
    proof (cases "j = i")
      case True
      with h'(2) i(1) show ?thesis by simp
    next
      case False
      from other_ring [OF h j False i(1) h'(3) eni [OF j]] e False j show ?thesis
        by (simp add: off_list_def)
    qed
  next
    case (6 j)
    then have j: "j < length bs" by simp
    from hash_holdsD(2) [OF h j] eni [OF j] e 6 i show ?case
      by (cases "j = i") (auto simp: off_list_def is_head_def)
  qed (use h in \<open>auto simp: hash_holds_def\<close>)
  moreover have "hash_add m e b = Some (?m, 0)"
    using e h'(1) b0 b i D(3,4,6) by (simp add: hash_add_def off_list_def)
  ultimately show ?thesis by (simp add: i_def)
qed

lemma hash_find_ring:
  assumes "ring h b (xs @ ys)"
  shows "hash_find h cmp b (hd (ys @ [b])) =
     Some (case filter (\<lambda>e. cmp e = 1) ys of [] \<Rightarrow> NULL | e # _ \<Rightarrow> e)"
  using assms
proof (induction ys arbitrary: xs)
  case Nil
  then show ?case by (simp add: hash_find.simps)
next
  case (Cons y ys)
  from Cons.prems have "y \<noteq> b" by (auto simp: ring_def)
  moreover have "DLL_NEXT h y = Some (hd (ys @ [b]))"
    using ring_neighbours(2) [of h b "xs @ [y]" ys] Cons.prems by simp
  ultimately show ?case using Cons.IH [of "xs @ [y]"] Cons.prems by (subst hash_find.simps) simp
qed

lemma hash_lookup_holds:
  assumes h: "hash_holds m bs" and b: "0 \<le> b" "b < int (length bs)"
  shows "hash_lookup m b cmp = Some (case filter (\<lambda>e. cmp e = 1) (bs ! nat b) of
     [] \<Rightarrow> (-1, NULL) | e # _ \<Rightarrow> (0, e))"
proof -
  define i where "i = nat b"
  have i: "i < length bs" "b = int i" using b by (auto simp: i_def)
  note D = hash_holdsD [OF h i(1)]
  have "e \<noteq> NULL" if "filter (\<lambda>e. cmp e = 1) (bs ! i) = e # es" for e es
    using D(2) [of e] that by (metis filter_eq_ConsD in_set_conv_decomp)
  with hash_find_ring [of "hdlls m" "buckets (tab m) + i" "[]" "bs ! i" cmp] D ring_ends(1) [OF D(1)] i(1)
  show ?thesis unfolding i(2) by (auto simp: hash_lookup_def split: list.splits)
qed

lemma hash_rem_holds:
  assumes h: "hash_holds m bs" and i: "i < length bs" and bi: "bs ! i = xs @ e # ys"
  shows "\<exists>m'. hash_rem m e = Some m' \<and> hash_holds m' (bs[i := xs @ ys]) \<and> off_list m' (bs[i := xs @ ys]) e \<and>
           bucket m' = bucket m \<and> tab m' = (tab m)\<lparr>count := count (tab m) - 1\<rparr>"
proof -
  note D = hash_holdsD [OF h i]
  from D(1) bi have r: "ring (hdlls m) (buckets (tab m) + i) (xs @ e # ys)" by simp
  have ei: "e \<in> set (bs ! i)" using bi by simp
  have enj: "e \<notin> set (bs ! j)" if "j < length bs" "j \<noteq> i" for j
    using hash_holdsD(2) [OF h that(1)] D(2) [OF ei] that(2) by auto
  from DLL_REM_ring [OF r] obtain h' where h': "DLL_REM (hdlls m) e = Some h'"
    "ring h' (buckets (tab m) + i) (xs @ ys)" "ring h' e []"
    "agree (set ((buckets (tab m) + i) # xs @ e # ys)) (hdlls m) h'" by blast
  have ag: "agree (set ((buckets (tab m) + i) # e # bs ! i)) (hdlls m) h'"
    using h'(4) bi by (auto simp: agree_def)
  have ne: "DLL_NEXT (hdlls m) e \<noteq> Some e"
    using ring_neighbours(2) [of "hdlls m" "buckets (tab m) + i" "xs @ [e]" ys] r
    by (cases ys) (auto simp: ring_def)
  obtain n where n: "DLL_NEXT (hdlls m) e = Some n"
    using ring_neighbours(2) [of "hdlls m" "buckets (tab m) + i" "xs @ [e]" ys] r by auto
  let ?m = "m\<lparr>hdlls := h', tab := (tab m)\<lparr>count := count (tab m) - 1\<rparr>\<rparr>"
  have cnt: "count (tab m) - 1 = (\<Sum>xs\<leftarrow>bs[i := xs @ ys]. int (length xs))"
    using h sum_length_update [OF i, of "xs @ ys"] bi by (simp add: hash_holds_def)
  have "hash_holds ?m (bs[i := xs @ ys])"
    unfolding hash_holds_def
  proof (intro conjI allI impI, goal_cases)
    case 4 from cnt show ?case by simp
  next
    case (5 j)
    then have j: "j < length bs" by simp
    show ?case
    proof (cases "j = i")
      case True
      with h'(2) i show ?thesis by simp
    next
      case False
      from other_ring [OF h j False i ag enj [OF j False]] D(2) [OF ei] False j show ?thesis by simp
    qed
  next
    case (6 j)
    then have j: "j < length bs" by simp
    from hash_holdsD(2) [OF h j] 6 i bi show ?case by (cases "j = i") (auto simp: is_head_def)
  qed (use h in \<open>auto simp: hash_holds_def\<close>)
  moreover have "off_list ?m (bs[i := xs @ ys]) e"
  proof -
    have "e \<notin> set (bs[i := xs @ ys] ! j)" if "j < length bs" for j
      using that enj r i by (cases "j = i") (auto simp: ring_def)
    then have "e \<notin> set (concat (bs[i := xs @ ys]))" by (auto simp: in_set_conv_nth) (metis in_set_conv_nth nth_list_update)
    with h'(3) D(2) [OF ei] show ?thesis by (auto simp: off_list_def is_head_def)
  qed
  moreover have "count (tab m) - 1 \<ge> 0" unfolding cnt by (rule sum_list_nonneg) auto
  then have "hash_rem m e = Some ?m"
    using D(2) [OF ei] h'(1) ne n by (simp add: hash_rem_def DLL_ISEMPTY_def)
  ultimately show ?thesis by auto
qed

lemma hash_rem_off:
  "off_list m bs e \<Longrightarrow> hash_holds m bs \<Longrightarrow> hash_rem m e = Some m"
proof -
  assume e: "off_list m bs e" and h: "hash_holds m bs"
  have "0 \<le> (\<Sum>xs\<leftarrow>bs. int (length xs))" by (rule sum_list_nonneg) auto
  with e h ring_empty [of "hdlls m" e "[]"] show ?thesis
    by (simp add: off_list_def hash_rem_def hash_holds_def)
qed

text \<open>
  What \<^verbatim>\<open>hash_cleanup\<close> needs of the callback: it returns, and it leaves the table alone (it may
  release or reuse the entry it is given).
\<close>

definition good_callback :: "(hmem \<Rightarrow> addr \<Rightarrow> hmem option) \<Rightarrow> bool" where
  "good_callback cb \<longleftrightarrow>
     (\<forall>m bs e. hash_holds m bs \<longrightarrow> off_list m bs e \<longrightarrow>
        (\<exists>m'. cb m e = Some m' \<and> hash_holds m' bs \<and> tab m' = tab m))"

lemma cleanup_bucket_holds:
  assumes "good_callback cb" and "hash_holds m bs" and "i < length bs" and "bs ! i = xs"
  shows "\<exists>m'. cleanup_bucket cb m (buckets (tab m) + i) (last ((buckets (tab m) + i) # xs)) = Some (m', rev xs) \<and>
           hash_holds m' (bs[i := []]) \<and> buckets (tab m') = buckets (tab m) \<and>
           no_buckets (tab m') = no_buckets (tab m)"
  using assms(2-)
proof (induction xs arbitrary: m bs rule: rev_induct)
  case Nil
  then have "bs[i := []] = bs" by (metis list_update_id)
  with Nil show ?case by (simp add: cleanup_bucket.simps)
next
  case (snoc z zs)
  let ?b = "buckets (tab m) + i"
  note D = hash_holdsD [OF snoc.prems(1,2)]
  have zb: "z \<noteq> ?b" using D(1) snoc.prems(3) by (auto simp: ring_def)
  have pz: "DLL_PREV (hdlls m) z = Some (last (?b # zs))"
    using ring_neighbours(1) [of "hdlls m" ?b zs "[z]"] D(1) snoc.prems(3) by simp
  from hash_rem_holds [OF snoc.prems(1,2), of zs z "[]"] snoc.prems(3) obtain m1 where
    m1: "hash_rem m z = Some m1" "hash_holds m1 (bs[i := zs])" "off_list m1 (bs[i := zs]) z"
      "tab m1 = (tab m)\<lparr>count := count (tab m) - 1\<rparr>" by auto
  from assms(1) m1(2,3) obtain m2 where m2: "cb m1 z = Some m2" "hash_holds m2 (bs[i := zs])" "tab m2 = tab m1"
    unfolding good_callback_def by blast
  from snoc.IH [OF m2(2)] snoc.prems(2) m2(3) m1(4) obtain m3 where
    m3: "cleanup_bucket cb m2 ?b (last (?b # zs)) = Some (m3, rev zs)" "hash_holds m3 (bs[i := []])"
      "buckets (tab m3) = buckets (tab m)" "no_buckets (tab m3) = no_buckets (tab m)" by auto
  with zb pz m1(1) m2(1) show ?case by (subst cleanup_bucket.simps) simp
qed

lemma cleanup_buckets_holds:
  assumes "good_callback cb" and "hash_holds m bs" and "n \<le> length bs"
  shows "\<exists>m'. cleanup_buckets cb m n = Some (m', concat (map rev (take n bs))) \<and>
           hash_holds m' (replicate n [] @ drop n bs) \<and> buckets (tab m') = buckets (tab m) \<and>
           no_buckets (tab m') = no_buckets (tab m)"
  using assms(3)
proof (induction n)
  case (Suc n)
  then obtain m1 where m1: "cleanup_buckets cb m n = Some (m1, concat (map rev (take n bs)))"
    "hash_holds m1 (replicate n [] @ drop n bs)" "buckets (tab m1) = buckets (tab m)"
    "no_buckets (tab m1) = no_buckets (tab m)" by auto
  let ?bs = "replicate n [] @ drop n bs"
  have n: "n < length ?bs" "?bs ! n = bs ! n" using Suc.prems by (auto simp: nth_append)
  from cleanup_bucket_holds [OF assms(1) m1(2) n] obtain m2 where
    m2: "cleanup_bucket cb m1 (buckets (tab m) + n) (last ((buckets (tab m) + n) # bs ! n)) = Some (m2, rev (bs ! n))"
      "hash_holds m2 (?bs[n := []])" "buckets (tab m2) = buckets (tab m)" "no_buckets (tab m2) = no_buckets (tab m)"
    using m1(3,4) by auto
  have "?bs[n := []] = replicate (Suc n) [] @ drop (Suc n) bs"
    using Suc.prems by (simp add: list_update_append Cons_nth_drop_Suc [symmetric] replicate_append_same)
  moreover have "DLL_PREV (hdlls m1) (head_at m1 (int n)) = Some (last ((buckets (tab m) + n) # bs ! n))"
    using ring_ends(2) [OF hash_holdsD(1) [OF m1(2) n(1)]] hash_holdsD(3) [OF m1(2) n(1)] n(2) m1(3) by simp
  moreover have "take (Suc n) bs = take n bs @ [bs ! n]" using Suc.prems by (simp add: take_Suc_conv_app_nth)
  ultimately show ?case using m1(1,3) m2 hash_holdsD(3) [OF m1(2) n(1)] by simp
qed (use assms(2) in simp)

lemma hash_cleanup_holds:
  assumes "good_callback cb" and "hash_holds m bs"
  shows "\<exists>m'. hash_cleanup cb m = Some (m', concat (map rev bs)) \<and> hash_holds m' (replicate (length bs) [])"
proof -
  from assms(2) have n: "no_buckets (tab m) = int (length bs)" "bs \<noteq> []" by (auto simp: hash_holds_def)
  from cleanup_buckets_holds [OF assms order_refl] obtain m' where
    m': "cleanup_buckets cb m (length bs) = Some (m', concat (map rev bs))"
      "hash_holds m' (replicate (length bs) [])" by auto
  from m'(2) have "count (tab m') = 0" by (simp add: hash_holds_def sum_list_replicate)
  with m' n show ?thesis by (simp add: hash_cleanup_def)
qed

text \<open>Initialisation.\<close>

lemma init_heads_ring:
  assumes "\<forall>i < n. h (base + i) \<noteq> None"
  shows "\<exists>h'. init_heads h base n = Some h' \<and> (\<forall>i < n. ring h' (base + i) []) \<and>
           (\<forall>a. a < base \<or> base + n \<le> a \<longrightarrow> h' a = h a)"
  using assms
proof (induction n)
  case (Suc n)
  then obtain h1 where h1: "init_heads h base n = Some h1" "\<forall>i < n. ring h1 (base + i) []"
    "\<forall>a. a < base \<or> base + n \<le> a \<longrightarrow> h1 a = h a" by auto
  with Suc.prems obtain v where "h1 (base + n) = Some v" by auto
  from DLL_INIT_ring [of h1 "base + n" v, OF this] obtain h2 where h2: "DLL_INIT h1 (base + n) = Some h2" "ring h2 (base + n) []"
    "\<forall>x. x \<noteq> base + n \<longrightarrow> h2 x = h1 x" by blast
  have "ring h2 (base + i) []" if "i < Suc n" for i
    using that h1(2) h2(2,3) ring_frame [of h1 "base + i" "[]" h2] by (cases "i = n") auto
  with h1 h2 show ?case by auto
qed simp

lemma hash_init_holds:
  assumes "0 < n" and "base \<noteq> NULL"
  shows "\<exists>m'. hash_init m n base = Some (m', 0) \<and> hash_holds m' (replicate (nat n) []) \<and>
           bucket m' = bucket m \<and> tab m' = \<lparr>buckets = base, count = 0, no_buckets = n\<rparr> \<and>
           (\<forall>a. a < base \<or> base + nat n \<le> a \<longrightarrow> hdlls m' a = hdlls m a)"
proof -
  let ?h = "calloc_heads (hdlls m) base (nat n)"
  from init_heads_ring [of "nat n" ?h base] obtain h' where h': "init_heads ?h base (nat n) = Some h'"
    "\<forall>i < nat n. ring h' (base + i) []" "\<forall>a. a < base \<or> base + nat n \<le> a \<longrightarrow> h' a = ?h a"
    by (auto simp: calloc_heads_def)
  moreover have "?h a = hdlls m a" if "a < base \<or> base + nat n \<le> a" for a
    using that by (auto simp: calloc_heads_def)
  ultimately show ?thesis
    using assms by (simp add: hash_init_def hash_holds_def sum_list_replicate Let_def)
qed

section \<open>Theorems about the hash table\<close>

text \<open>A table of two buckets with three entries, to evaluate on.\<close>

definition demo_mem :: hmem where
  "demo_mem = \<lparr>hdlls = (\<lambda>a. if a \<in> {20, 21, 22} then Some \<lparr>dll_next = a, dll_prev = a\<rparr> else None),
     bucket = (\<lambda>a. if a \<in> {20, 21, 22} then Some (-1) else None),
     tab = \<lparr>buckets = 0, count = 0, no_buckets = 0\<rparr>\<rparr>"

definition demo0 :: hmem where "demo0 = fst (the (hash_init demo_mem 2 10))"
definition demo1 :: hmem where "demo1 = fst (the (hash_add demo0 20 1))"
definition demo2 :: hmem where "demo2 = fst (the (hash_add demo1 21 1))"

lemma demo0: "hash_holds demo0 [[], []] \<and> bucket demo0 = bucket demo_mem \<and> buckets (tab demo0) = 10 \<and>
    no_buckets (tab demo0) = 2 \<and> (\<forall>a \<in> {20, 21, 22}. hdlls demo0 a = Some \<lparr>dll_next = a, dll_prev = a\<rparr>)"
  using hash_init_holds [of 2 10 demo_mem] by (auto simp: demo0_def demo_mem_def numeral_2_eq_2)

lemma off_demo:
  assumes "hash_holds m bs" and "e \<in> {20, 21, 22}" and "hdlls m e = Some \<lparr>dll_next = e, dll_prev = e\<rparr>"
    and "bucket m e \<noteq> None" and "e \<notin> set (concat bs)" and "buckets (tab m) = 10" and "no_buckets (tab m) = 2"
  shows "off_list m bs e"
  using assms by (auto simp: off_list_def is_head_def ring_def DLL_NEXT_def DLL_PREV_def)

lemma demo1: "hash_holds demo1 [[], [20]]"
proof -
  have "off_list demo0 [[], []] 20" using demo0 by (intro off_demo) (auto simp: demo_mem_def)
  with hash_add_holds [of demo0 "[[], []]" 20 1] demo0 show ?thesis by (auto simp: demo1_def)
qed

lemma demo2: "hash_holds demo2 [[], [21, 20]]"
proof -
  have "hdlls demo1 21 = Some \<lparr>dll_next = 21, dll_prev = 21\<rparr>" "bucket demo1 21 = Some (-1)"
    "buckets (tab demo1) = 10" "no_buckets (tab demo1) = 2" by code_simp+
  with demo1 have "off_list demo1 [[], [20]] 21" by (intro off_demo) auto
  with hash_add_holds [of demo1 "[[], [20]]" 21 1] demo1 show ?thesis by (auto simp: demo2_def)
qed

text \<open>
  \<^verbatim>\<open>hash_lookup\<close> in bucket \<open>b\<close> returns the newest entry of the bucket for
  which the comparison function answers 1, and -1 with a null entry if there is none.
\<close>

theorem hash_lookup_correct:
  assumes "hash_holds m bs" and "0 \<le> b" and "b < int (length bs)"
  shows "hash_lookup m b cmp = Some (case filter (\<lambda>e. cmp e = 1) (bs ! nat b) of
     [] \<Rightarrow> (-1, NULL) | e # _ \<Rightarrow> (0, e))"
  by (rule hash_lookup_holds [OF assms])

theorem hash_lookup_correct_witness:
  "hash_lookup demo2 1 (\<lambda>e. if e = 20 then 1 else 0) =
     Some (case filter (\<lambda>e. (if e = 20 then 1 else 0) = (1 :: int)) ([[], [21, 20]] ! nat 1) of
       [] \<Rightarrow> (-1, NULL) | e # _ \<Rightarrow> (0, e))"
  by (rule hash_lookup_correct [OF demo2]) simp_all

text \<open>
  an entry that is on no list can be added; the table then holds it in
  front of its bucket, and a lookup whose comparison accepts it finds it. Removing it afterwards
  restores the table and leaves the entry on no list.
\<close>

theorem hash_add_then_lookup:
  assumes "hash_holds m bs" and "off_list m bs e" and "0 \<le> b" and "b < int (length bs)" and "cmp e = 1"
  shows "\<exists>m' m''. hash_add m e b = Some (m', 0) \<and> hash_holds m' (bs[nat b := e # bs ! nat b]) \<and>
           hash_lookup m' b cmp = Some (0, e) \<and>
           hash_rem m' e = Some m'' \<and> hash_holds m'' bs \<and> off_list m'' bs e"
proof -
  let ?bs = "bs[nat b := e # bs ! nat b]"
  from hash_add_holds [OF assms(1-4)] obtain m' where
    m': "hash_add m e b = Some (m', 0)" "hash_holds m' ?bs" by blast
  from assms have b: "nat b < length ?bs" "?bs ! nat b = [] @ e # bs ! nat b" by auto
  from hash_rem_holds [OF m'(2) b] obtain m'' where
    "hash_rem m' e = Some m''" "hash_holds m'' bs" "off_list m'' bs e" by auto
  with m' hash_lookup_holds [OF m'(2) assms(3), of cmp] assms(4,5) b show ?thesis by simp
qed

theorem hash_add_then_lookup_witness:
  "\<exists>m' m''. hash_add demo1 21 1 = Some (m', 0) \<and>
     hash_holds m' ([[], [20]][nat 1 := 21 # [[], [20]] ! nat 1]) \<and>
     hash_lookup m' 1 (\<lambda>e. int e - 20) = Some (0, 21) \<and>
     hash_rem m' 21 = Some m'' \<and> hash_holds m'' [[], [20]] \<and> off_list m'' [[], [20]] 21"
proof (rule hash_add_then_lookup [OF demo1])
  have "hdlls demo1 21 = Some \<lparr>dll_next = 21, dll_prev = 21\<rparr>" "bucket demo1 21 = Some (-1)"
    "buckets (tab demo1) = 10" "no_buckets (tab demo1) = 2" by code_simp+
  with demo1 show "off_list demo1 [[], [20]] 21" by (intro off_demo) auto
qed simp_all

text \<open>
  \<^verbatim>\<open>hash_cleanup\<close> calls the callback once on every entry of the table,
  bucket by bucket and the oldest entry of a bucket first, although the callback may release the
  entry; the table is empty afterwards and the final assertion holds.
\<close>

theorem hash_cleanup_correct:
  assumes "good_callback cb" and "hash_holds m bs"
  shows "\<exists>m'. hash_cleanup cb m = Some (m', concat (map rev bs)) \<and> hash_holds m' (replicate (length bs) [])"
  by (rule hash_cleanup_holds [OF assms])

text \<open>A callback that frees the entry.\<close>

lemma free_callback: "good_callback (\<lambda>m e. Some (m\<lparr>hdlls := (hdlls m)(e := None), bucket := (bucket m)(e := None)\<rparr>))"
  unfolding good_callback_def
proof (intro allI impI)
  fix m bs e
  assume h: "hash_holds m bs" and e: "off_list m bs e"
  have "ring ((hdlls m)(e := None)) (buckets (tab m) + i) (bs ! i)" if "i < length bs" for i
    using e hash_holdsD(5) [OF h that] that
    by (intro ring_frame [OF hash_holdsD(1) [OF h that]]) (auto simp: off_list_def dest: nth_mem)
  moreover have "e \<notin> set (bs ! i)" if "i < length bs" for i
    using e that by (auto simp: off_list_def dest: nth_mem)
  ultimately show "\<exists>m'. Some (m\<lparr>hdlls := (hdlls m)(e := None), bucket := (bucket m)(e := None)\<rparr>) = Some m' \<and>
      hash_holds m' bs \<and> tab m' = tab m"
    using h by (auto simp: hash_holds_def is_head_def)
qed

theorem hash_cleanup_correct_witness:
  "\<exists>m'. hash_cleanup (\<lambda>m e. Some (m\<lparr>hdlls := (hdlls m)(e := None), bucket := (bucket m)(e := None)\<rparr>)) demo2 =
      Some (m', concat (map rev [[], [21, 20]])) \<and> hash_holds m' (replicate (length [[], [21, 20 :: addr]]) [])"
  by (rule hash_cleanup_correct [OF free_callback demo2])

end
