(* ===== verification/Fifo.thy ===== *)
theory Fifo
  imports Prelude
begin

text \<open>
  The contract of a first-in first-out queue of linked entries, which the intrusive queues of
  the program share: \<^verbatim>\<open>queue.c\<close> of both halves and the task lists of \<^verbatim>\<open>libtask\<close>. An entry is
  an address; \<open>can_add\<close> says that it is a node that may be linked into the queue.
\<close>

primrec add_all :: "('m \<Rightarrow> 'a \<Rightarrow> 'm option) \<Rightarrow> 'm \<Rightarrow> 'a list \<Rightarrow> 'm option" where
  "add_all add m [] = Some m"
| "add_all add m (x # xs) = do { m \<leftarrow> add m x; add_all add m xs }"

primrec rem_many :: "('m \<Rightarrow> ('m \<times> 'a option) option) \<Rightarrow> 'm \<Rightarrow> nat \<Rightarrow> ('m \<times> 'a list) option" where
  "rem_many rem m 0 = Some (m, [])"
| "rem_many rem m (Suc n) = do {
     (m, x) \<leftarrow> rem m;
     case x of None \<Rightarrow> Some (m, [])
     | Some x \<Rightarrow> do { (m, xs) \<leftarrow> rem_many rem m n; Some (m, x # xs) }
   }"

locale fifo =
  fixes holds :: "'m \<Rightarrow> 'a list \<Rightarrow> bool"
    and can_add :: "'m \<Rightarrow> 'a \<Rightarrow> bool"
    and add :: "'m \<Rightarrow> 'a \<Rightarrow> 'm option"
    and rem :: "'m \<Rightarrow> ('m \<times> 'a option) option"
  assumes add_law: "holds m xs \<Longrightarrow> can_add m x \<Longrightarrow> x \<notin> set xs \<Longrightarrow>
      \<exists>m'. add m x = Some m' \<and> holds m' (xs @ [x]) \<and> (\<forall>y. can_add m' y = can_add m y)"
    and rem_empty_law: "holds m [] \<Longrightarrow> rem m = Some (m, None)"
    and rem_law: "holds m (x # xs) \<Longrightarrow>
      \<exists>m'. rem m = Some (m', Some x) \<and> holds m' xs \<and> (\<forall>y. can_add m' y = can_add m y)"
    and distinct_law: "holds m xs \<Longrightarrow> distinct xs"
begin

lemma add_all_holds:
  "holds m xs \<Longrightarrow> distinct (xs @ ys) \<Longrightarrow> \<forall>y \<in> set ys. can_add m y \<Longrightarrow>
     \<exists>m'. add_all add m ys = Some m' \<and> holds m' (xs @ ys) \<and> (\<forall>y. can_add m' y = can_add m y)"
proof (induction ys arbitrary: m xs)
  case (Cons y ys)
  from add_law [OF Cons.prems(1), of y] Cons.prems obtain m1 where
    m1: "add m y = Some m1" "holds m1 (xs @ [y])" "\<forall>y. can_add m1 y = can_add m y" by auto
  from Cons.IH [OF m1(2)] Cons.prems(2,3) m1 show ?case by auto
qed simp

lemma rem_many_holds:
  "holds m xs \<Longrightarrow> \<exists>m'. rem_many rem m n = Some (m', take n xs) \<and> holds m' (drop n xs)"
proof (induction n arbitrary: m xs)
  case (Suc n)
  show ?case
  proof (cases xs)
    case Nil
    with Suc.prems rem_empty_law show ?thesis by auto
  next
    case (Cons x ys)
    with Suc.prems rem_law obtain m1 where m1: "rem m = Some (m1, Some x)" "holds m1 ys" by metis
    from Suc.IH [OF m1(2)] m1(1) Cons show ?thesis by auto
  qed
qed simp

text \<open>What went in comes out, in the same order, behind what was there before.\<close>

lemma first_in_first_out:
  assumes "holds m xs" and "distinct (xs @ ys)" and "\<forall>y \<in> set ys. can_add m y"
  shows "\<exists>m' m''. add_all add m ys = Some m' \<and>
           rem_many rem m' (length xs + length ys) = Some (m'', xs @ ys) \<and> holds m'' []"
proof -
  from add_all_holds [OF assms] obtain m' where m': "add_all add m ys = Some m'" "holds m' (xs @ ys)" by blast
  from rem_many_holds [OF m'(2), of "length xs + length ys"] m'(1) show ?thesis by simp
qed

end

end
