(* ===== verification/Queue.thy ===== *)
theory Queue
  imports Dll Fifo
begin

text \<open>
  \<^verbatim>\<open>queue.c\<close>: a queue is a list head followed by a counter; entries are added behind the head and
  removed in front of it. The file is the same in \<^verbatim>\<open>iosplitter/common\<close> and \<^verbatim>\<open>vmware_kernel/mpp\<close>,
  apart from the include lines.
\<close>

text \<open>The list nodes in memory, and the counters of the \<^verbatim>\<open>queue_t\<close>s, by the address of the queue.\<close>

record qmem =
  dlls :: dlls
  q_len :: "addr \<rightharpoonup> int"

definition on_dlls :: "qmem \<Rightarrow> dlls option \<Rightarrow> qmem option" where
  "on_dlls m r = do { h \<leftarrow> r; Some (m\<lparr>dlls := h\<rparr>) }"

definition add_len :: "qmem \<Rightarrow> addr \<Rightarrow> int \<Rightarrow> qmem option" where
  "add_len m q d = do { l \<leftarrow> store (q_len m) q (\<lambda>n. n + d); Some (m\<lparr>q_len := l\<rparr>) }"

definition queue_init :: "qmem \<Rightarrow> addr \<Rightarrow> qmem option" where
  "queue_init m q = do {
     c_assert (q \<noteq> NULL);
     m \<leftarrow> on_dlls m (DLL_INIT (dlls m) q);
     l \<leftarrow> store (q_len m) q (\<lambda>n. 0);
     Some (m\<lparr>q_len := l\<rparr>)
   }"

definition queue_clear :: "qmem \<Rightarrow> addr \<Rightarrow> unit option" where
  "queue_clear m q = do {
     n \<leftarrow> q_len m q;
     c_assert (n = 0);
     e \<leftarrow> DLL_ISEMPTY (dlls m) q;
     c_assert e
   }"

definition queue_add :: "qmem \<Rightarrow> addr \<Rightarrow> addr \<Rightarrow> qmem option" where
  "queue_add m q e = do {
     c_assert (e \<noteq> NULL);
     m \<leftarrow> on_dlls m (DLL_ADD (dlls m) q e);
     add_len m q 1
   }"

text \<open>The result of \<^verbatim>\<open>queue_rem\<close> is its return value and the value of \<^verbatim>\<open>*entry\<close>.\<close>

definition queue_rem :: "qmem \<Rightarrow> addr \<Rightarrow> (qmem \<times> int \<times> addr) option" where
  "queue_rem m q = do {
     b \<leftarrow> DLL_ISEMPTY (dlls m) q;
     if b then Some (m, -1, NULL)
     else do {
       e \<leftarrow> DLL_PREV (dlls m) q;
       m \<leftarrow> on_dlls m (DLL_REM (dlls m) e);
       m \<leftarrow> add_len m q (-1);
       n \<leftarrow> q_len m q;
       c_assert (n \<ge> 0);
       Some (m, 0, e)
     }
   }"

text \<open>The struct is set to all zeros.\<close>

definition queue_deinit :: "qmem \<Rightarrow> addr \<Rightarrow> qmem option" where
  "queue_deinit m q = do {
     n \<leftarrow> q_len m q;
     c_assert (n = 0);
     e \<leftarrow> DLL_ISEMPTY (dlls m) q;
     c_assert e;
     h \<leftarrow> store (dlls m) q (\<lambda>n. \<lparr>dll_next = NULL, dll_prev = NULL\<rparr>);
     l \<leftarrow> store (q_len m) q (\<lambda>n. 0);
     Some \<lparr>dlls = h, q_len = l\<rparr>
   }"

record queue_iter =
  qi_qp :: addr
  qi_curdllp :: addr

definition queue_iter_init :: "addr \<Rightarrow> queue_iter" where
  "queue_iter_init q = \<lparr>qi_qp = q, qi_curdllp = q\<rparr>"

definition queue_iter_next :: "qmem \<Rightarrow> queue_iter \<Rightarrow> (queue_iter \<times> addr) option" where
  "queue_iter_next m it = do {
     p \<leftarrow> DLL_PREV (dlls m) (qi_curdllp it);
     if p = qi_qp it then Some (it, NULL)
     else Some (it\<lparr>qi_curdllp := p\<rparr>, p)
   }"

text \<open>\<open>queue_holds q m xs\<close>: the queue \<open>q\<close> holds \<open>xs\<close>, the oldest entry first.\<close>

definition queue_holds :: "addr \<Rightarrow> qmem \<Rightarrow> addr list \<Rightarrow> bool" where
  "queue_holds q m xs \<longleftrightarrow>
     ring (dlls m) q (rev xs) \<and> q_len m q = Some (int (length xs)) \<and> NULL \<notin> set (q # xs)"

definition queue_can_add :: "addr \<Rightarrow> qmem \<Rightarrow> addr \<Rightarrow> bool" where
  "queue_can_add q m e \<longleftrightarrow> e \<noteq> NULL \<and> e \<noteq> q \<and> dlls m e \<noteq> None"

text \<open>\<^verbatim>\<open>queue_rem\<close> seen as an operation that may find nothing.\<close>

definition queue_get :: "addr \<Rightarrow> qmem \<Rightarrow> (qmem \<times> addr option) option" where
  "queue_get q m = do { (m, rc, e) \<leftarrow> queue_rem m q; Some (m, if rc = 0 then Some e else None) }"

lemma queue_init_holds:
  assumes "dlls m q = Some n" and "q_len m q = Some k" and "q \<noteq> NULL"
  shows "\<exists>m'. queue_init m q = Some m' \<and> queue_holds q m' [] \<and>
           (\<forall>x. x \<noteq> q \<longrightarrow> dlls m' x = dlls m x \<and> q_len m' x = q_len m x)"
  using DLL_INIT_ring [of "dlls m" q n] assms
  by (auto simp: queue_init_def on_dlls_def queue_holds_def)

lemma queue_add_holds:
  assumes "queue_holds q m xs" and "queue_can_add q m e" and "e \<notin> set xs"
  shows "\<exists>m'. queue_add m q e = Some m' \<and> queue_holds q m' (xs @ [e]) \<and>
           agree (set (q # e # xs)) (dlls m) (dlls m') \<and> (\<forall>x. x \<noteq> q \<longrightarrow> q_len m' x = q_len m x)"
proof -
  from assms have r: "ring (dlls m) q (rev xs)" "e \<notin> set (q # rev xs)" "q_len m q = Some (int (length xs))"
    by (auto simp: queue_holds_def queue_can_add_def)
  from assms(2) obtain n where "dlls m e = Some n" by (auto simp: queue_can_add_def)
  from DLL_ADD_ring [OF r(1,2) this] r(3) assms show ?thesis
    by (auto simp: queue_add_def on_dlls_def add_len_def queue_holds_def queue_can_add_def)
qed

lemma queue_rem_holds:
  assumes "queue_holds q m (x # xs)"
  shows "\<exists>m'. queue_rem m q = Some (m', 0, x) \<and> queue_holds q m' xs \<and> ring (dlls m') x [] \<and>
           agree (set (q # x # xs)) (dlls m) (dlls m') \<and> (\<forall>y. y \<noteq> q \<longrightarrow> q_len m' y = q_len m y)"
proof -
  from assms have r: "ring (dlls m) q (rev xs @ x # [])" and l: "q_len m q = Some (int (Suc (length xs)))"
    by (auto simp: queue_holds_def)
  from DLL_REM_ring [OF r] obtain h' where
    h': "DLL_REM (dlls m) x = Some h'" "ring h' q (rev xs)" "ring h' x []"
      "agree (set (q # rev xs @ x # [])) (dlls m) h'" by auto
  from ring_ends(2) [OF r] ring_empty [OF r] h' l assms show ?thesis
    by (auto simp: queue_rem_def on_dlls_def add_len_def queue_holds_def insert_commute Un_commute)
qed

lemma queue_rem_empty: "queue_holds q m [] \<Longrightarrow> queue_rem m q = Some (m, -1, NULL)"
  using ring_empty [of "dlls m" q "[]"] by (simp add: queue_holds_def queue_rem_def)

interpretation queue: fifo "queue_holds q" "queue_can_add q" "\<lambda>m. queue_add m q" "queue_get q" for q
proof (unfold_locales, goal_cases)
  case (1 m xs x)
  from queue_add_holds [OF 1] show ?case by (fastforce simp: queue_can_add_def agree_def)
next
  case (2 m)
  then show ?case by (simp add: queue_get_def queue_rem_empty)
next
  case (3 m x xs)
  from queue_rem_holds [OF 3] show ?case by (fastforce simp: queue_get_def queue_can_add_def agree_def)
next
  case (4 m xs)
  then show ?case by (auto simp: queue_holds_def ring_def)
qed

lemma queue_deinit_ok:
  "queue_holds q m [] \<Longrightarrow> \<exists>m'. queue_deinit m q = Some m' \<and> queue_clear m q = Some ()"
  using ring_mem [of "dlls m" q "[]" q]
  by (auto simp: queue_holds_def queue_deinit_def queue_clear_def ring_empty)

text \<open>
  A \<^verbatim>\<open>while ((e = queue_iter_next(&it)) != NULL)\<close> loop: \<open>n\<close> rounds are enough when the queue
  has fewer than \<open>n\<close> entries.
\<close>

primrec iterate :: "qmem \<Rightarrow> queue_iter \<Rightarrow> nat \<Rightarrow> (queue_iter \<times> addr list) option" where
  "iterate m it 0 = None"
| "iterate m it (Suc n) = do {
     (it, e) \<leftarrow> queue_iter_next m it;
     if e = NULL then Some (it, [])
     else do { (it, es) \<leftarrow> iterate m it n; Some (it, e # es) }
   }"

lemma iterate_from:
  assumes "queue_holds q m (xs @ ys)" and "length ys < n"
  shows "\<exists>it. iterate m \<lparr>qi_qp = q, qi_curdllp = last (q # xs)\<rparr> n = Some (it, ys)"
  using assms
proof (induction ys arbitrary: xs n)
  case Nil
  then obtain k where n: "n = Suc k" by (cases n) auto
  have "last (q # xs) = hd (rev xs @ [q])" by (cases xs rule: rev_cases) auto
  with ring_neighbours(1) [of "dlls m" q "[]" "rev xs"] Nil.prems(1) n show ?case
    by (simp add: queue_holds_def queue_iter_next_def)
next
  case (Cons y ys)
  then obtain k where n: "n = Suc k" "length ys < k" by (cases n) auto
  have "last (q # xs) = hd (rev xs @ [q])" by (cases xs rule: rev_cases) auto
  with ring_neighbours(1) [of "dlls m" q "rev ys @ [y]" "rev xs"] Cons.prems(1)
  have "DLL_PREV (dlls m) (last (q # xs)) = Some y" by (simp add: queue_holds_def)
  moreover have "y \<noteq> q" "y \<noteq> NULL" using Cons.prems(1) by (auto simp: queue_holds_def ring_def)
  moreover from Cons.IH [of "xs @ [y]" k] Cons.prems(1) n(2) obtain it where
    "iterate m \<lparr>qi_qp = q, qi_curdllp = y\<rparr> k = Some (it, ys)" by auto
  ultimately show ?case using n(1) by (simp add: queue_iter_next_def)
qed

section \<open>Theorems about the queue\<close>

definition demo_queue :: qmem where
  "demo_queue = \<lparr>dlls = (\<lambda>a. if a \<in> {1, 11, 12, 13} then Some \<lparr>dll_next = a, dll_prev = a\<rparr> else None),
     q_len = [1 \<mapsto> 0]\<rparr>"

definition demo_queue1 :: qmem where "demo_queue1 = the (queue_add demo_queue 1 11)"

lemma demo_queue: "queue_holds 1 demo_queue []"
  by (simp add: queue_holds_def demo_queue_def ring_def DLL_NEXT_def DLL_PREV_def)

lemma demo_queue1: "queue_holds 1 demo_queue1 [11] \<and> dlls demo_queue1 12 \<noteq> None \<and> dlls demo_queue1 13 \<noteq> None"
proof -
  have "dlls demo_queue1 12 \<noteq> None" "dlls demo_queue1 13 \<noteq> None" by code_simp+
  moreover have "queue_can_add 1 demo_queue 11" by (simp add: queue_can_add_def demo_queue_def)
  ultimately show ?thesis using queue_add_holds [OF demo_queue, of 11] by (auto simp: demo_queue1_def)
qed

text \<open>
  entries that are added one by one come out of the queue in the
  order in which they were added, after those that were in it; every call returns, no assertion
  fails, and the queue is empty at the end.
\<close>

theorem queue_first_in_first_out:
  assumes "queue_holds q m xs" and "distinct (xs @ ys)" and "\<forall>y \<in> set ys. queue_can_add q m y"
  shows "\<exists>m' m''. add_all (\<lambda>m. queue_add m q) m ys = Some m' \<and>
           rem_many (queue_get q) m' (length xs + length ys) = Some (m'', xs @ ys) \<and> queue_holds q m'' []"
  by (rule queue.first_in_first_out [OF assms])

theorem queue_first_in_first_out_witness:
  "\<exists>m' m''. add_all (\<lambda>m. queue_add m 1) demo_queue1 [12, 13] = Some m' \<and>
     rem_many (queue_get 1) m' (length [11 :: addr] + length [12 :: addr, 13]) = Some (m'', [11] @ [12, 13]) \<and>
     queue_holds 1 m'' []"
proof (rule queue_first_in_first_out)
  show "queue_holds 1 demo_queue1 [11]" by (simp only: demo_queue1)
  show "\<forall>y \<in> set [12, 13]. queue_can_add 1 demo_queue1 y" using demo_queue1 by (simp add: queue_can_add_def)
qed simp

text \<open>
  the iterator visits every entry once, in the order in which
  \<^verbatim>\<open>queue_rem\<close> would return them, and then returns NULL.
\<close>

theorem queue_iterates_in_order:
  assumes "queue_holds q m xs"
  shows "\<exists>it. iterate m (queue_iter_init q) (Suc (length xs)) = Some (it, xs)"
  using iterate_from [of q m "[]" xs "Suc (length xs)"] assms by (simp add: queue_iter_init_def)

theorem queue_iterates_in_order_witness:
  "\<exists>it. iterate demo_queue1 (queue_iter_init 1) (Suc (length [11 :: addr])) = Some (it, [11])"
  by (rule queue_iterates_in_order) (simp only: demo_queue1)

end
