(* ===== verification/Tasklist.thy ===== *)
theory Tasklist
  imports Prelude Fifo
begin

text \<open>
  The \<^verbatim>\<open>Tasklist\<close> of \<^verbatim>\<open>libtask/task.c\<close> (\<^verbatim>\<open>addtask\<close>, \<^verbatim>\<open>deltask\<close>): the doubly linked list that
  holds the runnable tasks, the task cache and the tasks that sleep in a lock or a \<^verbatim>\<open>Rendez\<close>. It
  is shown to be a first-in first-out queue from which any task can be removed; the later theories
  then write such a list as a list of tasks. The wake-up loop of \<^verbatim>\<open>rendez.c\<close> is here as well.
\<close>

record task_links =
  t_next :: addr
  t_prev :: addr

type_synonym links = "addr \<rightharpoonup> task_links"

record tasklist =
  tl_head :: addr
  tl_tail :: addr

type_synonym tlmem = "links \<times> tasklist"

definition addtask :: "tlmem \<Rightarrow> addr \<Rightarrow> tlmem option" where
  "addtask = (\<lambda>(h, l) t. do {
     (h, l) \<leftarrow> (if tl_tail l \<noteq> NULL then do {
                 h \<leftarrow> store h (tl_tail l) (\<lambda>n. n\<lparr>t_next := t\<rparr>);
                 h \<leftarrow> store h t (\<lambda>n. n\<lparr>t_prev := tl_tail l\<rparr>);
                 Some (h, l)
               } else do {
                 h \<leftarrow> store h t (\<lambda>n. n\<lparr>t_prev := NULL\<rparr>);
                 Some (h, l\<lparr>tl_head := t\<rparr>)
               });
     h \<leftarrow> store h t (\<lambda>n. n\<lparr>t_next := NULL\<rparr>);
     Some (h, l\<lparr>tl_tail := t\<rparr>)
   })"

definition deltask :: "tlmem \<Rightarrow> addr \<Rightarrow> tlmem option" where
  "deltask = (\<lambda>(h, l) t. do {
     n \<leftarrow> h t;
     (h, l) \<leftarrow> (if t_prev n \<noteq> NULL then do {
                 h \<leftarrow> store h (t_prev n) (\<lambda>m. m\<lparr>t_next := t_next n\<rparr>);
                 Some (h, l)
               } else Some (h, l\<lparr>tl_head := t_next n\<rparr>));
     n \<leftarrow> h t;
     if t_next n \<noteq> NULL then do {
       h \<leftarrow> store h (t_next n) (\<lambda>m. m\<lparr>t_prev := t_prev n\<rparr>);
       Some (h, l)
     } else Some (h, l\<lparr>tl_tail := t_prev n\<rparr>)
   })"

text \<open>Taking the first task out, as the scheduler and the wake-up code do.\<close>

definition tasklist_pop :: "tlmem \<Rightarrow> (tlmem \<times> addr option) option" where
  "tasklist_pop m =
     (if tl_head (snd m) = NULL then Some (m, None)
      else do { m' \<leftarrow> deltask m (tl_head (snd m)); Some (m', Some (tl_head (snd m))) })"

section \<open>The list that a task list holds\<close>

primrec tseg :: "links \<Rightarrow> addr \<Rightarrow> addr list \<Rightarrow> addr \<Rightarrow> bool" where
  "tseg h p [] n \<longleftrightarrow> True"
| "tseg h p (x # xs) n \<longleftrightarrow> x \<noteq> NULL \<and> h x = Some \<lparr>t_next = hd (xs @ [n]), t_prev = p\<rparr> \<and> tseg h x xs n"

definition tl_holds :: "tlmem \<Rightarrow> addr list \<Rightarrow> bool" where
  "tl_holds m xs \<longleftrightarrow> distinct xs \<and> tseg (fst m) NULL xs NULL \<and>
     tl_head (snd m) = hd (xs @ [NULL]) \<and> tl_tail (snd m) = last (NULL # xs)"

lemma tseg_append:
  "tseg h p (xs @ ys) n \<longleftrightarrow> tseg h p xs (hd (ys @ [n])) \<and> tseg h (last (p # xs)) ys n"
  by (induction xs arbitrary: p) (auto simp: hd_append)

lemma tseg_frame: "tseg h p xs n \<Longrightarrow> \<forall>x \<in> set xs. h' x = h x \<Longrightarrow> tseg h' p xs n"
  by (induction xs arbitrary: p) auto

lemma tseg_mem: "tseg h p xs n \<Longrightarrow> x \<in> set xs \<Longrightarrow> x \<noteq> NULL \<and> h x \<noteq> None"
  by (induction xs arbitrary: p) auto

text \<open>Changing the successor of the last and the predecessor of the first task of a segment.\<close>

lemma tseg_set_next:
  assumes "tseg h p (xs @ [x]) n" and "distinct (xs @ [x])" and "h x = Some k"
  shows "tseg (h(x \<mapsto> k\<lparr>t_next := n'\<rparr>)) p (xs @ [x]) n'"
  using assms by (auto simp: tseg_append intro: tseg_frame)

lemma tseg_set_prev:
  assumes "tseg h p (x # xs) n" and "distinct (x # xs)" and "h x = Some k"
  shows "tseg (h(x \<mapsto> k\<lparr>t_prev := p'\<rparr>)) p' (x # xs) n"
  using assms by (auto intro: tseg_frame)

lemma addtask_holds:
  assumes "tl_holds (h, l) xs" and t: "t \<noteq> NULL" "t \<notin> set xs" "h t = Some k"
  shows "\<exists>h' l'. addtask (h, l) t = Some (h', l') \<and> tl_holds (h', l') (xs @ [t]) \<and> dom h' = dom h \<and>
           (\<forall>x. x \<notin> set (t # xs) \<longrightarrow> h' x = h x)"
proof (cases xs rule: rev_cases)
  case Nil
  with assms show ?thesis by (auto simp: tl_holds_def addtask_def)
next
  case (snoc ys y)
  from assms(1) have s: "tseg h NULL (ys @ [y]) NULL" and d: "distinct (ys @ [y])" and "tl_tail l = y" "y \<noteq> NULL"
    "tl_head l = hd (ys @ [y])" by (auto simp: tl_holds_def snoc tseg_append hd_append)
  from tseg_mem [OF s] obtain m where m: "h y = Some m" by auto
  have ty: "t \<noteq> y" using t(2) snoc by auto
  let ?h1 = "h(y \<mapsto> m\<lparr>t_next := t\<rparr>)"
  let ?h = "?h1(t \<mapsto> \<lparr>t_next = NULL, t_prev = y\<rparr>)"
  have "tseg ?h1 NULL (ys @ [y]) t" by (rule tseg_set_next [OF s d m])
  then have s1: "tseg ?h NULL (ys @ [y]) t" by (rule tseg_frame) (use t(2) snoc in auto)
  have "tseg ?h NULL ((ys @ [y]) @ [t]) NULL" by (subst tseg_append) (use s1 t(1) in simp)
  then have "tl_holds (?h, l\<lparr>tl_tail := t\<rparr>) ((ys @ [y]) @ [t])"
    using t(1,2) d snoc \<open>tl_head l = hd (ys @ [y])\<close> unfolding tl_holds_def by (simp add: hd_append)
  moreover have "addtask (h, l) t = Some (?h, l\<lparr>tl_tail := t\<rparr>)"
    using \<open>tl_tail l = y\<close> \<open>y \<noteq> NULL\<close> m t(3) ty by (cases k) (simp add: addtask_def)
  ultimately show ?thesis using snoc m t(3) by (auto simp: dom_def)
qed

lemma deltask_holds:
  assumes "tl_holds (h, l) (xs @ t # ys)"
  shows "\<exists>h' l'. deltask (h, l) t = Some (h', l') \<and> tl_holds (h', l') (xs @ ys) \<and> dom h' = dom h \<and>
           (\<forall>x. x \<notin> set (xs @ ys) \<longrightarrow> h' x = h x)"
proof -
  define p where "p = last (NULL # xs)"
  define n where "n = hd (ys @ [NULL])"
  from assms have d: "distinct (xs @ t # ys)" and s: "tseg h NULL xs t" "t \<noteq> NULL" "tseg h t ys NULL"
    and ht: "h t = Some \<lparr>t_next = n, t_prev = p\<rparr>"
    and l: "tl_head l = hd (xs @ [t])" "tl_tail l = last (t # ys)"
    by (auto simp: tl_holds_def tseg_append p_def n_def hd_append)
  define h1 where "h1 = (if xs = [] then h else h(p \<mapsto> (the (h p))\<lparr>t_next := n\<rparr>))"
  define l1 where "l1 = (if xs = [] then l\<lparr>tl_head := n\<rparr> else l)"
  have h1: "tseg h1 NULL xs n \<and> tseg h1 t ys NULL \<and> h1 t = h t \<and> dom h1 = dom h \<and>
      (\<forall>x. x \<notin> set xs \<longrightarrow> h1 x = h x) \<and> deltask (h, l) t = do {
        m \<leftarrow> h1 t;
        if t_next m \<noteq> NULL then do { h \<leftarrow> store h1 (t_next m) (\<lambda>k. k\<lparr>t_prev := t_prev m\<rparr>); Some (h, l1) }
        else Some (h1, l1\<lparr>tl_tail := t_prev m\<rparr>) }"
  proof (cases xs rule: rev_cases)
    case Nil
    then show ?thesis using s ht by (simp add: h1_def l1_def p_def deltask_def)
  next
    case (snoc as a)
    with tseg_mem [OF s(1)] obtain k where k: "h a = Some k" "a \<noteq> NULL" by auto
    have h1: "h1 = h(a \<mapsto> k\<lparr>t_next := n\<rparr>)" using snoc k by (simp add: h1_def p_def)
    have "tseg h1 NULL (as @ [a]) n" unfolding h1 by (rule tseg_set_next) (use s(1) d snoc k in auto)
    moreover have "tseg h1 t ys NULL" by (rule tseg_frame [OF s(3)]) (use d snoc in \<open>auto simp: h1\<close>)
    ultimately show ?thesis using snoc k ht d by (auto simp: h1 l1_def p_def deltask_def)
  qed
  have h1t: "h1 t = Some \<lparr>t_next = n, t_prev = p\<rparr>" using h1 ht by simp
  show ?thesis
  proof (cases ys)
    case Nil
    then have "tl_holds (h1, l1\<lparr>tl_tail := p\<rparr>) (xs @ ys)"
      using h1 d l by (auto simp: tl_holds_def n_def p_def l1_def hd_append)
    then show ?thesis using h1 h1t Nil by (auto simp: n_def)
  next
    case (Cons y zs)
    with tseg_mem [of h1 t ys NULL y] h1 obtain k where k: "h1 y = Some k" "y \<noteq> NULL" by auto
    let ?h = "h1(y \<mapsto> k\<lparr>t_prev := p\<rparr>)"
    have "tseg ?h p (y # zs) NULL" by (rule tseg_set_prev [of h1 t]) (use h1 Cons k d in auto)
    moreover have "tseg ?h NULL xs y" by (rule tseg_frame [of h1]) (use h1 Cons d in \<open>auto simp: n_def\<close>)
    ultimately have "tl_holds (?h, l1) (xs @ ys)"
      using d l Cons by (auto simp: tl_holds_def tseg_append p_def l1_def n_def hd_append)
    moreover have "deltask (h, l) t = Some (?h, l1)" using h1 h1t k Cons by (simp add: n_def)
    ultimately show ?thesis using h1 k Cons by (auto simp: dom_def)
  qed
qed

definition tl_can_add :: "tlmem \<Rightarrow> addr \<Rightarrow> bool" where
  "tl_can_add m t \<longleftrightarrow> t \<noteq> NULL \<and> fst m t \<noteq> None"

interpretation tasklist: fifo tl_holds tl_can_add addtask tasklist_pop
proof (unfold_locales, goal_cases)
  case (1 m xs t)
  then show ?case using addtask_holds [of "fst m" "snd m" xs t] by (fastforce simp: tl_can_add_def dom_def set_eq_iff)
next
  case (2 m)
  then show ?case by (simp add: tl_holds_def tasklist_pop_def)
next
  case (3 m x xs)
  then have "tl_head (snd m) = x" "x \<noteq> NULL" by (auto simp: tl_holds_def)
  with deltask_holds [of "fst m" "snd m" "[]" x xs] 3 show ?case
    by (fastforce simp: tl_can_add_def tasklist_pop_def dom_def set_eq_iff)
next
  case (4 m xs)
  then show ?case by (simp add: tl_holds_def)
qed

text \<open>
  C33 (tasklist_first_in_first_out) Tasks that are added to a task list leave it in the order in
  which they came, behind those that were in it before.
\<close>

theorem tasklist_first_in_first_out:
  assumes "tl_holds m xs" and "distinct (xs @ ts)" and "\<forall>t \<in> set ts. tl_can_add m t"
  shows "\<exists>m' m''. add_all addtask m ts = Some m' \<and>
           rem_many tasklist_pop m' (length xs + length ts) = Some (m'', xs @ ts) \<and> tl_holds m'' []"
  by (rule tasklist.first_in_first_out [OF assms])

theorem tasklist_first_in_first_out_witness:
  "\<exists>m' m''. add_all addtask ((\<lambda>_. Some \<lparr>t_next = 9, t_prev = 9\<rparr>), \<lparr>tl_head = 0, tl_tail = 0\<rparr>) [3, 1] = Some m' \<and>
     rem_many tasklist_pop m' 2 = Some (m'', [3, 1])"
proof -
  let ?m = "((\<lambda>_. Some \<lparr>t_next = 9, t_prev = 9\<rparr>), \<lparr>tl_head = 0, tl_tail = 0\<rparr>) :: tlmem"
  have "tl_holds ?m []" by (simp add: tl_holds_def)
  from tasklist_first_in_first_out [OF this, of "[3, 1]"] show ?thesis
    by (simp add: tl_can_add_def numeral_2_eq_2) blast
qed

section \<open>Waking tasks\<close>

text \<open>
  The loop of \<^verbatim>\<open>_taskwakeup\<close>: which sleeping tasks are made ready, which sleep on, and the result.
\<close>

fun taskwakeup_loop :: "bool \<Rightarrow> int \<Rightarrow> nat list \<Rightarrow> nat list \<times> nat list \<times> int" where
  "taskwakeup_loop all i ws =
     (if i = 1 \<and> \<not> all then ([], ws, i)
      else case ws of
        [] \<Rightarrow> ([], [], i)
      | t # ws \<Rightarrow> (let (woken, ws, n) = taskwakeup_loop all (i + 1) ws in (t # woken, ws, n)))"

declare taskwakeup_loop.simps [simp del]

definition taskwakeup :: "nat list \<Rightarrow> nat list \<times> nat list \<times> int" where
  "taskwakeup ws = taskwakeup_loop False 0 ws"

definition taskwakeupall :: "nat list \<Rightarrow> nat list \<times> nat list \<times> int" where
  "taskwakeupall ws = taskwakeup_loop True 0 ws"

lemma taskwakeup_eq [simp]: "taskwakeup ws = (take 1 ws, drop 1 ws, if ws = [] then 0 else 1)"
  by (cases ws) (simp_all add: taskwakeup_def taskwakeup_loop.simps)

lemma taskwakeup_loop_all: "0 \<le> i \<Longrightarrow> taskwakeup_loop True i ws = (ws, [], i + int (length ws))"
  by (induction ws arbitrary: i) (simp_all add: taskwakeup_loop.simps [of True])

lemma taskwakeupall_eq [simp]: "taskwakeupall ws = (ws, [], int (length ws))"
  by (simp add: taskwakeupall_def taskwakeup_loop_all)

end
