(* ===== verification/Bufpool.thy ===== *)
theory Bufpool
  imports Queue Tasklist
begin

text \<open>
  The buffer pools: \<^verbatim>\<open>iosplitter/common/bufpool.c\<close>, whose callers are coroutines, and
  \<^verbatim>\<open>vmware_kernel/mpp/bufpool.c\<close>, whose callers are kernel threads that hold a lock inside the
  pool and wait with \<^verbatim>\<open>vmk_WorldWait\<close>. A free buffer is linked into the queue of free buffers
  through its first bytes; an issued buffer belongs to the caller.
\<close>

section \<open>The state of a pool\<close>

datatype BUFPOOL_STATE = UNINITIALIZED | INITIALIZED | DEINITING | DEINTED

text \<open>\<open>deinit\<close> and \<open>waiters\<close> are the two \<^verbatim>\<open>Rendez\<close> members, as the lists of sleeping tasks.\<close>

record bufpool =
  freelist :: addr
  issued :: u64
  owned :: u64
  bufsize :: u64
  nbufs :: u64
  nmax :: u64
  waiters :: "nat list"
  deinit :: "nat list"
  state :: BUFPOOL_STATE
  nmallocs :: int
  nfrees :: int

text \<open>The pool and the memory in which its buffers live.\<close>

record pool_st =
  qm :: qmem
  bp :: bufpool

text \<open>\<^verbatim>\<open>malloc\<close> of a buffer returns \<open>a\<close>; its first bytes hold anything.\<close>

definition alloc_buf :: "'z pool_st_scheme \<Rightarrow> addr \<Rightarrow> 'z pool_st_scheme" where
  "alloc_buf st a = st\<lparr>qm := (qm st)\<lparr>dlls := (dlls (qm st))(a \<mapsto> \<lparr>dll_next = NULL, dll_prev = NULL\<rparr>)\<rparr>\<rparr>"

definition free_buf :: "'z pool_st_scheme \<Rightarrow> addr \<Rightarrow> 'z pool_st_scheme option" where
  "free_buf st a = do {
     n \<leftarrow> dlls (qm st) a;
     Some (st\<lparr>qm := (qm st)\<lparr>dlls := (dlls (qm st))(a := None)\<rparr>\<rparr>)
   }"

definition on_queue :: "'z pool_st_scheme \<Rightarrow> qmem option \<Rightarrow> 'z pool_st_scheme option" where
  "on_queue st r = do { m \<leftarrow> r; Some (st\<lparr>qm := m\<rparr>) }"

definition dll_init_buf :: "'z pool_st_scheme \<Rightarrow> addr \<Rightarrow> 'z pool_st_scheme option" where
  "dll_init_buf st a = on_queue st (on_dlls (qm st) (DLL_INIT (dlls (qm st)) a))"

section \<open>The pool of the I/O splitter\<close>

text \<open>\<open>alloc i\<close> is the result of the \<open>i\<close>-th call of \<^verbatim>\<open>malloc\<close> in the loop of \<^verbatim>\<open>bufpool_init\<close>.\<close>

primrec bufpool_fill :: "(nat \<Rightarrow> addr) \<Rightarrow> 'z pool_st_scheme \<Rightarrow> nat \<Rightarrow> 'z pool_st_scheme option" where
  "bufpool_fill alloc st 0 = Some st"
| "bufpool_fill alloc st (Suc k) =
     (let a = alloc (unat (owned (bp st))) in
      if a = NULL then Some st
      else do {
        let st = alloc_buf st a;
        st \<leftarrow> dll_init_buf st a;
        st \<leftarrow> on_queue st (queue_add (qm st) (freelist (bp st)) a);
        bufpool_fill alloc (st\<lparr>bp := (bp st)\<lparr>owned := owned (bp st) + 1\<rparr>\<rparr>) k
      })"

definition sizeof_dll :: u64 where "sizeof_dll = 16"

text \<open>The struct is zeroed first; the address of \<open>freelist\<close> is fixed by the address of the
  pool. The result is the \<^verbatim>\<open>int\<close> that \<open>owned\<close> is converted to.\<close>

definition bufpool_init :: "(nat \<Rightarrow> addr) \<Rightarrow> pool_st \<Rightarrow> u64 \<Rightarrow> u64 \<Rightarrow> u64 \<Rightarrow> (pool_st \<times> u32) option" where
  "bufpool_init alloc st bufsz nb nm = do {
     c_assert (nb > 0 \<and> nm \<ge> nb);
     let bufsz = (if bufsz < sizeof_dll then sizeof_dll else bufsz);
     m \<leftarrow> queue_init (qm st) (freelist (bp st));
     let st = \<lparr>qm = m, bp = \<lparr>freelist = freelist (bp st), issued = 0, owned = 0, bufsize = bufsz,
                 nbufs = nb, nmax = nm, waiters = [], deinit = [], state = INITIALIZED,
                 nmallocs = 0, nfrees = 0\<rparr>\<rparr>;
     st \<leftarrow> bufpool_fill alloc st (unat nb);
     Some (st, ucast (owned (bp st)))
   }"

text \<open>The bookkeeping for a buffer that comes from the free list, and for a new one at \<open>a\<close>.\<close>

definition issue :: "'z pool_st_scheme \<Rightarrow> qmem \<Rightarrow> 'z pool_st_scheme" where
  "issue st m = st\<lparr>qm := m, bp := (bp st)\<lparr>issued := issued (bp st) + 1\<rparr>\<rparr>"

definition issue_new :: "'z pool_st_scheme \<Rightarrow> addr \<Rightarrow> 'z pool_st_scheme" where
  "issue_new st a =
     (let st = alloc_buf st a in
      st\<lparr>bp := (bp st)\<lparr>owned := owned (bp st) + 1, issued := issued (bp st) + 1,
             nmallocs := nmallocs (bp st) + 1\<rparr>\<rparr>)"

datatype get_result = Got addr | Failed | Slept

text \<open>
  One pass of the loop of \<^verbatim>\<open>bufpool_get\<close> for task \<open>t\<close>; \<open>a\<close> is the result of \<^verbatim>\<open>calloc\<close>.
\<close>

definition bufpool_get_pass :: "pool_st \<Rightarrow> nat \<Rightarrow> bool \<Rightarrow> addr \<Rightarrow> (pool_st \<times> get_result) option" where
  "bufpool_get_pass st t noblock a = do {
     (m, rc, e) \<leftarrow> queue_rem (qm st) (freelist (bp st));
     if rc = 0 then Some (issue st m, Got e)
     else if owned (bp st) < nmax (bp st) \<and> a \<noteq> NULL then Some (issue_new (st\<lparr>qm := m\<rparr>) a, Got a)
     else if noblock then Some (st\<lparr>qm := m\<rparr>, Failed)
     else Some (st\<lparr>qm := m, bp := (bp st)\<lparr>waiters := waiters (bp st) @ [t]\<rparr>\<rparr>, Slept)
   }"

definition bufpool_get :: "pool_st \<Rightarrow> nat \<Rightarrow> bool \<Rightarrow> addr \<Rightarrow> (pool_st \<times> get_result) option" where
  "bufpool_get st t noblock a = do {
     c_assert (state (bp st) = INITIALIZED);
     bufpool_get_pass st t noblock a
   }"

text \<open>
  \<^verbatim>\<open>bufpool_get_zero\<close>: the last part of the result is the call of \<^verbatim>\<open>memset\<close>, as the address and the
  number of bytes that are cleared.
\<close>

definition bufpool_get_zero ::
  "pool_st \<Rightarrow> nat \<Rightarrow> bool \<Rightarrow> addr \<Rightarrow> (pool_st \<times> get_result \<times> (addr \<times> u64) option) option" where
  "bufpool_get_zero st t noblock a = do {
     (st, r) \<leftarrow> bufpool_get st t noblock a;
     Some (st, r, case r of Got b \<Rightarrow> Some (b, bufsize (bp st)) | _ \<Rightarrow> None)
   }"

text \<open>\<^verbatim>\<open>taskwakeup\<close>: the first sleeping task, if any, becomes ready.\<close>

definition wake1 :: "nat list \<Rightarrow> nat list \<times> nat list" where
  "wake1 ws = (let (woken, ws, n) = taskwakeup ws in (woken, ws))"

text \<open>
  The part of \<^verbatim>\<open>bufpool_put\<close> that returns the buffer. The tests \<^verbatim>\<open>issued >= 0\<close> and
  \<^verbatim>\<open>owned >= 0\<close> of the source are on unsigned members.
\<close>

definition put_buffer :: "'z pool_st_scheme \<Rightarrow> addr \<Rightarrow> 'z pool_st_scheme option" where
  "put_buffer st buf = do {
     let st = st\<lparr>bp := (bp st)\<lparr>issued := issued (bp st) - 1\<rparr>\<rparr>;
     c_assert (issued (bp st) \<ge> 0);
     if owned (bp st) \<le> nbufs (bp st) then do {
       st \<leftarrow> dll_init_buf st buf;
       on_queue st (queue_add (qm st) (freelist (bp st)) buf)
     } else do {
       st \<leftarrow> free_buf st buf;
       let st = st\<lparr>bp := (bp st)\<lparr>owned := owned (bp st) - 1\<rparr>\<rparr>;
       c_assert (owned (bp st) \<ge> 0);
       let st = st\<lparr>bp := (bp st)\<lparr>nfrees := nfrees (bp st) + 1\<rparr>\<rparr>;
       c_assert (owned (bp st) \<ge> nbufs (bp st));
       Some st
     }
   }"

text \<open>The list in the result of \<^verbatim>\<open>bufpool_put\<close> holds the tasks that become ready, in order.\<close>

definition bufpool_put :: "pool_st \<Rightarrow> addr \<Rightarrow> (pool_st \<times> nat list) option" where
  "bufpool_put st buf = do {
     c_assert (buf \<noteq> NULL);
     st \<leftarrow> put_buffer st buf;
     let (r1, ws) = wake1 (waiters (bp st));
     let st = st\<lparr>bp := (bp st)\<lparr>waiters := ws\<rparr>\<rparr>;
     let (r2, ds) = (if issued (bp st) = 0 \<and> state (bp st) = DEINITING then wake1 (deinit (bp st))
                     else ([], deinit (bp st)));
     Some (st\<lparr>bp := (bp st)\<lparr>deinit := ds\<rparr>\<rparr>, r1 @ r2)
   }"

partial_function (option) bufpool_drain :: "'z pool_st_scheme \<Rightarrow> 'z pool_st_scheme option" where
  "bufpool_drain st = do {
     (m, rc, e) \<leftarrow> queue_rem (qm st) (freelist (bp st));
     if rc = 0 then do {
       st \<leftarrow> free_buf (st\<lparr>qm := m\<rparr>) e;
       bufpool_drain (st\<lparr>bp := (bp st)\<lparr>owned := owned (bp st) - 1\<rparr>\<rparr>)
     } else Some (st\<lparr>qm := m\<rparr>)
   }"

declare bufpool_drain.simps [code]

text \<open>
  \<^verbatim>\<open>bufpool_deinit\<close>, up to the point where task \<open>t\<close> may sleep (the flag says whether it does), and
  from there on.
\<close>

definition bufpool_deinit_start :: "pool_st \<Rightarrow> nat \<Rightarrow> (pool_st \<times> bool) option" where
  "bufpool_deinit_start st t = do {
     c_assert (state (bp st) = INITIALIZED);
     let st = st\<lparr>bp := (bp st)\<lparr>state := DEINITING\<rparr>\<rparr>;
     if issued (bp st) \<noteq> 0 then Some (st\<lparr>bp := (bp st)\<lparr>deinit := deinit (bp st) @ [t]\<rparr>\<rparr>, True)
     else Some (st, False)
   }"

definition bufpool_deinit_finish :: "pool_st \<Rightarrow> pool_st option" where
  "bufpool_deinit_finish st = do {
     c_assert (issued (bp st) = 0);
     st \<leftarrow> bufpool_drain st;
     st \<leftarrow> on_queue st (queue_deinit (qm st) (freelist (bp st)));
     Some (st\<lparr>bp := (bp st)\<lparr>state := DEINTED\<rparr>\<rparr>)
   }"

section \<open>The invariant of a pool\<close>

text \<open>
  \<open>pool_ok st xs H\<close>: the free buffers are \<open>xs\<close>, the buffers in the hands of the callers are \<open>H\<close>;
  the counters count them, the pool owns at most \<open>nmax\<close> buffers, and no more than \<open>nbufs\<close> while
  one of them is free.
\<close>

definition pool_ok :: "'z pool_st_scheme \<Rightarrow> addr list \<Rightarrow> addr set \<Rightarrow> bool" where
  "pool_ok st xs H \<longleftrightarrow>
     queue_holds (freelist (bp st)) (qm st) xs \<and>
     finite H \<and> set xs \<inter> H = {} \<and>
     (\<forall>b \<in> H. b \<noteq> NULL \<and> b \<noteq> freelist (bp st) \<and> dlls (qm st) b \<noteq> None) \<and>
     unat (issued (bp st)) = card H \<and> unat (owned (bp st)) = card H + length xs \<and>
     0 < nbufs (bp st) \<and> nbufs (bp st) \<le> nmax (bp st) \<and> owned (bp st) \<le> nmax (bp st) \<and>
     (xs \<noteq> [] \<longrightarrow> owned (bp st) \<le> nbufs (bp st))"

lemma queue_holds_frame:
  "queue_holds q m xs \<Longrightarrow> \<forall>x \<in> set (q # xs). dlls m' x = dlls m x \<Longrightarrow> q_len m' q = q_len m q \<Longrightarrow> queue_holds q m' xs"
  using ring_frame [of "dlls m" q "rev xs" "dlls m'"] by (simp add: queue_holds_def)

lemma pool_take_free:
  assumes "pool_ok st (x # xs) H"
  shows "\<exists>m. queue_rem (qm st) (freelist (bp st)) = Some (m, 0, x) \<and> pool_ok (issue st m) xs (insert x H) \<and> x \<notin> H"
proof -
  from assms have q: "queue_holds (freelist (bp st)) (qm st) (x # xs)"
    and H: "finite H" "x \<notin> H" "set xs \<inter> H = {}"
      "\<forall>b \<in> H. b \<noteq> NULL \<and> b \<noteq> freelist (bp st) \<and> dlls (qm st) b \<noteq> None"
    and c: "unat (issued (bp st)) = card H" "unat (owned (bp st)) = card H + Suc (length xs)"
      "0 < nbufs (bp st)" "nbufs (bp st) \<le> nmax (bp st)" "owned (bp st) \<le> nmax (bp st)"
      "owned (bp st) \<le> nbufs (bp st)"
    by (auto simp: pool_ok_def)
  from queue_rem_holds [OF q] obtain m' where
    m': "queue_rem (qm st) (freelist (bp st)) = Some (m', 0, x)" "queue_holds (freelist (bp st)) m' xs"
      "agree (set (freelist (bp st) # x # xs)) (dlls (qm st)) (dlls m')" by auto
  from c have "issued (bp st) < owned (bp st)" by (simp add: word_less_nat_alt)
  from unat_inc [OF this] have i: "unat (issued (bp st) + 1) = Suc (card H)" using c(1) by simp
  have dom: "dlls m' b \<noteq> None \<longleftrightarrow> dlls (qm st) b \<noteq> None" for b
    using agree_dom [OF m'(3)] by simp
  have x: "x \<noteq> NULL" "x \<noteq> freelist (bp st)" "x \<notin> set xs" "dlls (qm st) x \<noteq> None"
    using q ring_mem [of "dlls (qm st)" "freelist (bp st)" "rev (x # xs)" x]
    by (auto simp: queue_holds_def ring_def)
  have "pool_ok (issue st m') xs (insert x H)"
    using m'(2) H c i x dom by (auto simp: pool_ok_def issue_def)
  with m'(1) H(2) show ?thesis by auto
qed

lemma pool_take_new:
  assumes "pool_ok st [] H" and lt: "owned (bp st) < nmax (bp st)" and a: "a \<noteq> NULL" "dlls (qm st) a = None"
  shows "pool_ok (issue_new st a) [] (insert a H) \<and> a \<notin> H"
proof -
  from assms have q: "queue_holds (freelist (bp st)) (qm st) []" and aH: "a \<notin> H" by (auto simp: pool_ok_def)
  have af: "a \<noteq> freelist (bp st)"
    using q ring_mem [of "dlls (qm st)" "freelist (bp st)" "[]" "freelist (bp st)"] a(2)
    by (auto simp: queue_holds_def)
  have q': "queue_holds (freelist (bp st))
      ((qm st)\<lparr>dlls := (dlls (qm st))(a \<mapsto> \<lparr>dll_next = NULL, dll_prev = NULL\<rparr>)\<rparr>) []"
    by (rule queue_holds_frame [OF q]) (use af in auto)
  from assms(1) have c: "unat (issued (bp st)) = card H" "unat (owned (bp st)) = card H" by (auto simp: pool_ok_def)
  then have "issued (bp st) = owned (bp st)" by (metis word_unat_eq_iff)
  with unat_inc [OF lt] c have u: "unat (owned (bp st) + 1) = Suc (card H)" "issued (bp st) = owned (bp st)" by auto
  show ?thesis
    using assms(1) q' u inc_le [OF lt] aH a af by (auto simp: pool_ok_def issue_new_def alloc_buf_def)
qed

lemma issue_simps [simp]:
  "waiters (bp (issue st m)) = waiters (bp st)" "nmax (bp (issue st m)) = nmax (bp st)"
  "state (bp (issue st m)) = state (bp st)" "nbufs (bp (issue st m)) = nbufs (bp st)"
  "owned (bp (issue st m)) = owned (bp st)"
  "waiters (bp (issue_new st a)) = waiters (bp st)" "nmax (bp (issue_new st a)) = nmax (bp st)"
  "state (bp (issue_new st a)) = state (bp st)" "nbufs (bp (issue_new st a)) = nbufs (bp st)"
  "owned (bp (issue_new st a)) = owned (bp st) + 1"
  by (simp_all add: issue_def issue_new_def alloc_buf_def)

lemma pool_empty: "pool_ok st [] H \<Longrightarrow> queue_rem (qm st) (freelist (bp st)) = Some (qm st, -1, NULL)"
  by (simp add: pool_ok_def queue_rem_empty)

text \<open>What one pass of \<^verbatim>\<open>bufpool_get\<close> does in a pool that is well formed.\<close>

lemma pool_get_pass:
  assumes ok: "pool_ok st xs H" and a: "a \<noteq> NULL \<Longrightarrow> dlls (qm st) a = None"
  obtains (got) st' b ys where "bufpool_get_pass st t noblock a = Some (st', Got b)"
      "pool_ok st' ys (insert b H)" "b \<notin> H" "waiters (bp st') = waiters (bp st)"
      "nmax (bp st') = nmax (bp st)" "state (bp st') = state (bp st)"
      "xs \<noteq> [] \<and> b = hd xs \<and> ys = tl xs \<or> xs = [] \<and> b = a \<and> ys = [] \<and> a \<noteq> NULL \<and> owned (bp st) < nmax (bp st)"
    | (none) "bufpool_get_pass st t noblock a =
        Some (if noblock then (st, Failed) else (st\<lparr>bp := (bp st)\<lparr>waiters := waiters (bp st) @ [t]\<rparr>\<rparr>, Slept))"
      "xs = []" "owned (bp st) = nmax (bp st) \<or> a = NULL"
proof (cases xs)
  case (Cons x ys)
  from pool_take_free [OF ok [unfolded Cons]] obtain m where
    "queue_rem (qm st) (freelist (bp st)) = Some (m, 0, x)" "pool_ok (issue st m) ys (insert x H)" "x \<notin> H" by auto
  then show thesis by (intro got [of "issue st m" x ys]) (auto simp: bufpool_get_pass_def Cons)
next
  case Nil
  note ok' = ok [unfolded Nil]
  show thesis
  proof (cases "owned (bp st) < nmax (bp st) \<and> a \<noteq> NULL")
    case True
    with pool_take_new [OF ok'] a have n: "pool_ok (issue_new st a) [] (insert a H)" "a \<notin> H" by auto
    show thesis
      by (rule got [OF _ n]) (use True Nil in \<open>auto simp: bufpool_get_pass_def pool_empty [OF ok']\<close>)
  next
    case False
    then have "owned (bp st) = nmax (bp st) \<or> a = NULL" using ok by (auto simp: pool_ok_def)
    with False show thesis
      by (intro none) (auto simp: Nil bufpool_get_pass_def pool_empty [OF ok'])
  qed
qed

lemma pool_ok_waiters: "pool_ok (st\<lparr>bp := (bp st)\<lparr>waiters := ws\<rparr>\<rparr>) xs H = pool_ok st xs H"
  by (simp add: pool_ok_def)

lemma card_remove: "finite H \<Longrightarrow> b \<in> H \<Longrightarrow> card H = Suc (card (H - {b}))"
  by (metis card_Suc_Diff1)

lemma pool_put_buffer:
  assumes ok: "pool_ok st xs H" and b: "b \<in> H"
  shows "\<exists>st' xs'. put_buffer st b = Some st' \<and> pool_ok st' xs' (H - {b}) \<and>
           xs' = (if owned (bp st) \<le> nbufs (bp st) then xs @ [b] else xs) \<and>
           waiters (bp st') = waiters (bp st) \<and> nmax (bp st') = nmax (bp st) \<and>
           state (bp st') = state (bp st) \<and> deinit (bp st') = deinit (bp st)"
proof -
  let ?f = "freelist (bp st)" and ?B = "bp st"
  from ok have q: "queue_holds ?f (qm st) xs" and H: "finite H" "set xs \<inter> H = {}"
      "\<forall>b \<in> H. b \<noteq> NULL \<and> b \<noteq> ?f \<and> dlls (qm st) b \<noteq> None"
    and c: "unat (issued ?B) = card H" "unat (owned ?B) = card H + length xs"
      "0 < nbufs ?B" "nbufs ?B \<le> nmax ?B" "owned ?B \<le> nmax ?B" "xs \<noteq> [] \<longrightarrow> owned ?B \<le> nbufs ?B"
    by (auto simp: pool_ok_def)
  from b H(3) have bn: "b \<noteq> NULL" "b \<noteq> ?f" and bx: "b \<notin> set xs" using H(2) b by auto
  from b H(3) obtain n where n: "dlls (qm st) b = Some n" by auto
  note cr = card_remove [OF H(1) b]
  have "issued ?B \<noteq> 0" using c(1) cr by auto
  from unat_dec [OF this] have i: "unat (issued ?B - 1) = card (H - {b})" using c(1) cr by simp
  show ?thesis
  proof (cases "owned ?B \<le> nbufs ?B")
    case True
    from DLL_INIT_ring [of "dlls (qm st)" b n, OF n] obtain h where
      h: "DLL_INIT (dlls (qm st)) b = Some h" "\<forall>x. x \<noteq> b \<longrightarrow> h x = dlls (qm st) x" "ring h b []" by blast
    let ?m = "(qm st)\<lparr>dlls := h\<rparr>"
    have q1: "queue_holds ?f ?m xs" by (rule queue_holds_frame [OF q]) (use h(2) bn bx in auto)
    have "h b \<noteq> None" using h(3) ring_mem [of h b "[]" b] by auto
    with queue_add_holds [OF q1 _ bx] bn obtain m' where m': "queue_add ?m ?f b = Some m'"
      "queue_holds ?f m' (xs @ [b])" "agree (set (?f # b # xs)) h (dlls m')" by (auto simp: queue_can_add_def)
    have dom: "dlls m' x \<noteq> None \<longleftrightarrow> dlls (qm st) x \<noteq> None" for x
      using agree_dom [OF m'(3), of x] h(2) n \<open>h b \<noteq> None\<close> by (cases "x = b") auto
    let ?st = "st\<lparr>qm := m', bp := ?B\<lparr>issued := issued ?B - 1\<rparr>\<rparr>"
    have "pool_ok ?st (xs @ [b]) (H - {b})"
      using m'(2) H c(1-5) i cr dom bx True by (auto simp: pool_ok_def)
    moreover have "put_buffer st b = Some ?st"
      using True h(1) m'(1) by (simp add: put_buffer_def dll_init_buf_def on_queue_def on_dlls_def)
    ultimately show ?thesis using True by auto
  next
    case False
    have "owned ?B \<noteq> 0" using False by auto
    from unat_dec [OF this] have o: "unat (owned ?B - 1) = card (H - {b}) + length xs" using c(2) cr by simp
    have le: "nbufs ?B \<le> owned ?B - 1" "owned ?B - 1 \<le> nmax ?B"
      using False c(5) unat_dec [OF \<open>owned ?B \<noteq> 0\<close>] by (auto simp: word_le_nat_alt)
    let ?m = "(qm st)\<lparr>dlls := (dlls (qm st))(b := None)\<rparr>"
    have q1: "queue_holds ?f ?m xs" by (rule queue_holds_frame [OF q]) (use bn bx in auto)
    let ?st = "st\<lparr>qm := ?m, bp := ?B\<lparr>issued := issued ?B - 1, owned := owned ?B - 1, nfrees := nfrees ?B + 1\<rparr>\<rparr>"
    have "xs = []" using False c(6) by auto
    then have "pool_ok ?st xs (H - {b})" using q1 H c i o le by (auto simp: pool_ok_def)
    moreover have "put_buffer st b = Some ?st"
      using False n le by (simp add: put_buffer_def free_buf_def)
    ultimately show ?thesis using False by auto
  qed
qed

lemma pool_put:
  assumes ok: "pool_ok st xs H" and b: "b \<in> H" and init: "state (bp st) = INITIALIZED"
  obtains st' where "bufpool_put st b = Some (st', take 1 (waiters (bp st)))"
    "pool_ok st' (if owned (bp st) \<le> nbufs (bp st) then xs @ [b] else xs) (H - {b})"
    "waiters (bp st') = drop 1 (waiters (bp st))" "nmax (bp st') = nmax (bp st)" "state (bp st') = INITIALIZED"
proof -
  from pool_put_buffer [OF ok b] obtain s1 where s1: "put_buffer st b = Some s1"
    "pool_ok s1 (if owned (bp st) \<le> nbufs (bp st) then xs @ [b] else xs) (H - {b})"
    "waiters (bp s1) = waiters (bp st)" "nmax (bp s1) = nmax (bp st)" "state (bp s1) = state (bp st)" by auto
  have "b \<noteq> NULL" using ok b by (auto simp: pool_ok_def)
  let ?st = "s1\<lparr>bp := (bp s1)\<lparr>waiters := drop 1 (waiters (bp st))\<rparr>\<rparr>"
  have "bufpool_put st b = Some (?st, take 1 (waiters (bp st)))"
    using s1 init \<open>b \<noteq> NULL\<close> by (simp add: bufpool_put_def wake1_def)
  moreover have "pool_ok ?st (if owned (bp st) \<le> nbufs (bp st) then xs @ [b] else xs) (H - {b})"
    using s1(2) by (simp add: pool_ok_waiters)
  ultimately show thesis using that [of ?st] s1(4,5) init by simp
qed

section \<open>Initialisation\<close>

text \<open>The calls of \<^verbatim>\<open>malloc\<close> in the loop return null or blocks that are not in use.\<close>

definition good_alloc :: "pool_st \<Rightarrow> (nat \<Rightarrow> addr) \<Rightarrow> nat \<Rightarrow> bool" where
  "good_alloc st alloc n \<longleftrightarrow>
     (\<forall>i < n. alloc i \<noteq> NULL \<longrightarrow> dlls (qm st) (alloc i) = None \<and> alloc i \<noteq> freelist (bp st)) \<and>
     (\<forall>i < n. \<forall>j < n. alloc i = alloc j \<longrightarrow> alloc i \<noteq> NULL \<longrightarrow> i = j)"

lemma fill_ok:
  assumes "pool_ok st xs {}" and "length xs + k = unat (nbufs (bp st))"
    and "\<forall>i. length xs \<le> i \<longrightarrow> i < length xs + k \<longrightarrow> alloc i \<noteq> NULL \<longrightarrow>
           dlls (qm st) (alloc i) = None \<and> alloc i \<noteq> freelist (bp st)"
    and "inj_on alloc ({i. length xs \<le> i \<and> i < length xs + k \<and> alloc i \<noteq> NULL})"
    and "state (bp st) = INITIALIZED" and "waiters (bp st) = []"
  shows "\<exists>st' ys. bufpool_fill alloc st k = Some st' \<and> pool_ok st' (xs @ ys) {} \<and>
           ys = takeWhile (\<lambda>a. a \<noteq> NULL) (map alloc [length xs..<length xs + k]) \<and>
           state (bp st') = INITIALIZED \<and> waiters (bp st') = [] \<and> nmax (bp st') = nmax (bp st)"
  using assms
proof (induction k arbitrary: st xs)
  case (Suc k)
  let ?f = "freelist (bp st)"
  from Suc.prems(1) have q: "queue_holds ?f (qm st) xs"
    and c: "unat (issued (bp st)) = 0" "unat (owned (bp st)) = length xs"
      "0 < nbufs (bp st)" "nbufs (bp st) \<le> nmax (bp st)" "owned (bp st) \<le> nmax (bp st)"
    by (auto simp: pool_ok_def)
  define a where "a = alloc (length xs)"
  have upt: "[length xs..<length xs + Suc k] = length xs # [length (xs @ [a])..<length (xs @ [a]) + k]"
    by (simp add: upt_conv_Cons)
  show ?case
  proof (cases "a = NULL")
    case True
    then have e: "takeWhile (\<lambda>a. a \<noteq> NULL) (map alloc [length xs..<length xs + Suc k]) = []"
      by (subst upt) (simp add: a_def)
    have "bufpool_fill alloc st (Suc k) = Some st" using True c(2) by (simp add: a_def)
    moreover have "pool_ok st (xs @ []) {}" using Suc.prems(1) by simp
    ultimately show ?thesis using Suc.prems(5,6) e by (intro exI [of _ st] exI [of _ "[]"]) (simp only: simp_thms)
  next
    case False
    have fr: "dlls (qm st) a = None" "a \<noteq> ?f" using Suc.prems(3) False by (auto simp: a_def)
    have ax: "a \<notin> set xs"
    proof
      assume "a \<in> set xs"
      with q ring_mem [of "dlls (qm st)" ?f "rev xs" a] fr show False by (auto simp: queue_holds_def)
    qed
    let ?h0 = "(dlls (qm st))(a \<mapsto> \<lparr>dll_next = NULL, dll_prev = NULL\<rparr>)"
    from DLL_INIT_ring [of ?h0 a] obtain h where h: "DLL_INIT ?h0 a = Some h" "\<forall>x. x \<noteq> a \<longrightarrow> h x = ?h0 x"
      "ring h a []" by auto
    let ?m = "(qm st)\<lparr>dlls := h\<rparr>"
    have q1: "queue_holds ?f ?m xs" by (rule queue_holds_frame [OF q]) (use h(2) fr ax in auto)
    have ha: "h a \<noteq> None" using h(3) ring_mem [of h a "[]" a] by auto
    with queue_add_holds [OF q1 _ ax] False fr obtain m' where m': "queue_add ?m ?f a = Some m'"
      "queue_holds ?f m' (xs @ [a])" "agree (set (?f # a # xs)) h (dlls m')" by (auto simp: queue_can_add_def)
    let ?st = "st\<lparr>qm := m', bp := (bp st)\<lparr>owned := owned (bp st) + 1\<rparr>\<rparr>"
    have lt: "owned (bp st) < nbufs (bp st)" using Suc.prems(2) c(2) by (simp add: word_less_nat_alt)
    have ok: "pool_ok ?st (xs @ [a]) {}"
      using m'(2) c unat_inc [OF lt] inc_le [OF lt] by (auto simp: pool_ok_def)
    have dom: "dlls m' x = None" if "dlls (qm st) x = None" "x \<noteq> a" for x
      using agree_dom [OF m'(3), of x] h(2) that by auto
    have new: "alloc i \<noteq> a" if "length (xs @ [a]) \<le> i" "i < length (xs @ [a]) + k" "alloc i \<noteq> NULL" for i
      using inj_onD [OF Suc.prems(4), of i "length xs"] that False by (auto simp: a_def)
    have "\<exists>st' ys. bufpool_fill alloc ?st k = Some st' \<and> pool_ok st' ((xs @ [a]) @ ys) {} \<and>
           ys = takeWhile (\<lambda>a. a \<noteq> NULL) (map alloc [length (xs @ [a])..<length (xs @ [a]) + k]) \<and>
           state (bp st') = INITIALIZED \<and> waiters (bp st') = [] \<and> nmax (bp st') = nmax (bp ?st)"
    proof (rule Suc.IH [OF ok])
      show "inj_on alloc {i. length (xs @ [a]) \<le> i \<and> i < length (xs @ [a]) + k \<and> alloc i \<noteq> NULL}"
        by (rule inj_on_subset [OF Suc.prems(4)]) auto
      show "\<forall>i. length (xs @ [a]) \<le> i \<longrightarrow> i < length (xs @ [a]) + k \<longrightarrow> alloc i \<noteq> NULL \<longrightarrow>
          dlls (qm ?st) (alloc i) = None \<and> alloc i \<noteq> freelist (bp ?st)"
        using Suc.prems(3) new dom by auto
    qed (use Suc.prems in auto)
    moreover have "bufpool_fill alloc st (Suc k) = bufpool_fill alloc ?st k"
      using False c(2) h(1) m'(1)
      by (simp add: a_def Let_def alloc_buf_def dll_init_buf_def on_queue_def on_dlls_def)
    ultimately show ?thesis using False upt by (auto simp: a_def)
  qed
qed simp

lemma bufpool_init_ok:
  assumes "0 < nb" and "nb \<le> nm" and f: "dlls (qm st) (freelist (bp st)) \<noteq> None"
    "q_len (qm st) (freelist (bp st)) \<noteq> None" "freelist (bp st) \<noteq> NULL" and g: "good_alloc st alloc (unat nb)"
  shows "\<exists>st' xs. bufpool_init alloc st bufsz nb nm = Some (st', of_nat (length xs)) \<and> pool_ok st' xs {} \<and>
           xs = takeWhile (\<lambda>a. a \<noteq> NULL) (map alloc [0..<unat nb]) \<and>
           state (bp st') = INITIALIZED \<and> waiters (bp st') = [] \<and> nmax (bp st') = nm"
proof -
  let ?f = "freelist (bp st)"
  from f(1,2) obtain n0 k0 where n0: "dlls (qm st) ?f = Some n0" "q_len (qm st) ?f = Some k0" by auto
  from queue_init_holds [OF n0 f(3)] obtain m where m: "queue_init (qm st) ?f = Some m" "queue_holds ?f m []"
    "\<forall>x. x \<noteq> ?f \<longrightarrow> dlls m x = dlls (qm st) x" by blast
  define bs where "bs = (if bufsz < sizeof_dll then sizeof_dll else bufsz)"
  let ?st = "\<lparr>qm = m, bp = \<lparr>freelist = ?f, issued = 0, owned = 0, bufsize = bs,
      nbufs = nb, nmax = nm, waiters = [], deinit = [], state = INITIALIZED, nmallocs = 0, nfrees = 0\<rparr>\<rparr>"
  have ok: "pool_ok ?st [] {}" using m(2) assms(1,2) by (simp add: pool_ok_def)
  have "\<exists>st' ys. bufpool_fill alloc ?st (unat nb) = Some st' \<and> pool_ok st' ([] @ ys) {} \<and>
           ys = takeWhile (\<lambda>a. a \<noteq> NULL) (map alloc [length ([]::addr list)..<length ([]::addr list) + unat nb]) \<and>
           state (bp st') = INITIALIZED \<and> waiters (bp st') = [] \<and> nmax (bp st') = nmax (bp ?st)"
    by (rule fill_ok [OF ok]) (use g m(3) in \<open>auto simp: good_alloc_def inj_on_def\<close>)
  then obtain st' ys where st': "bufpool_fill alloc ?st (unat nb) = Some st'" "pool_ok st' ys {}"
    "ys = takeWhile (\<lambda>a. a \<noteq> NULL) (map alloc [0..<unat nb])" "state (bp st') = INITIALIZED"
    "waiters (bp st') = []" "nmax (bp st') = nm" by auto
  have len: "unat (owned (bp st')) = length ys" using st'(2) by (simp add: pool_ok_def)
  have "ucast (owned (bp st')) = (of_nat (length ys) :: u32)" unfolding len [symmetric] by simp
  with st' m(1) assms(1,2) show ?thesis by (simp add: bufpool_init_def bs_def Let_def)
qed

section \<open>The tasks that use a pool\<close>

text \<open>
  The pool together with the buffers \<open>held\<close> by its users and the tasks that a \<^verbatim>\<open>bufpool_put\<close> has
  made ready but that have not run yet. Coroutines are not preempted, so a call runs from one
  \<^verbatim>\<open>TASKSLEEP\<close> to the next without interruption. With \<open>oom\<close>, \<^verbatim>\<open>calloc\<close> may fail.
\<close>

record pool_sys =
  pst :: pool_st
  held :: "addr set"
  ready :: "nat list"

definition fresh_buf :: "pool_sys \<Rightarrow> bool \<Rightarrow> addr \<Rightarrow> bool" where
  "fresh_buf s oom a \<longleftrightarrow> (a = NULL \<longrightarrow> oom) \<and> (a \<noteq> NULL \<longrightarrow> dlls (qm (pst s)) a = None)"

definition took :: "pool_sys \<Rightarrow> pool_st \<Rightarrow> get_result \<Rightarrow> pool_sys" where
  "took s st r = s\<lparr>pst := st, held := (case r of Got b \<Rightarrow> insert b (held s) | _ \<Rightarrow> held s)\<rparr>"

inductive pool_step :: "bool \<Rightarrow> pool_sys \<Rightarrow> pool_sys \<Rightarrow> bool" for oom where
  get: "pool_step oom s (took s st r)"
    if "bufpool_get (pst s) t noblock a = Some (st, r)" and "fresh_buf s oom a"
| resume: "pool_step oom s (took s st r\<lparr>ready := remove1 t (ready s)\<rparr>)"
    if "t \<in> set (ready s)" and "bufpool_get_pass (pst s) t False a = Some (st, r)" and "fresh_buf s oom a"
| put: "pool_step oom s (s\<lparr>pst := st, held := held s - {b}, ready := ready s @ ws\<rparr>)"
    if "b \<in> held s" and "bufpool_put (pst s) b = Some (st, ws)"

inductive pool_reach :: "bool \<Rightarrow> pool_sys \<Rightarrow> bool" for oom where
  init: "pool_reach oom \<lparr>pst = st', held = {}, ready = []\<rparr>"
    if "bufpool_init alloc st bufsz nb nm = Some (st', n)" and "good_alloc st alloc (unat nb)"
      and "dlls (qm st) (freelist (bp st)) \<noteq> None" and "q_len (qm st) (freelist (bp st)) \<noteq> None"
      and "freelist (bp st) \<noteq> NULL"
| step: "pool_reach oom s'" if "pool_reach oom s" and "pool_step oom s s'"

text \<open>
  The invariant. The second part is what rules out lost wake-ups: while a task sleeps, every buffer
  that could be handed out is matched by a task that has been woken for it.
\<close>

definition sys_ok :: "bool \<Rightarrow> pool_sys \<Rightarrow> bool" where
  "sys_ok oom s \<longleftrightarrow>
     (\<exists>xs. pool_ok (pst s) xs (held s)) \<and> state (bp (pst s)) = INITIALIZED \<and>
     (\<not> oom \<longrightarrow> waiters (bp (pst s)) \<noteq> [] \<longrightarrow> unat (nmax (bp (pst s))) \<le> card (held s) + length (ready s))"

lemma sys_ok_init:
  assumes "bufpool_init alloc st bufsz nb nm = Some (st', n)" and "good_alloc st alloc (unat nb)"
    and "dlls (qm st) (freelist (bp st)) \<noteq> None" and "q_len (qm st) (freelist (bp st)) \<noteq> None"
    and "freelist (bp st) \<noteq> NULL"
  shows "sys_ok oom \<lparr>pst = st', held = {}, ready = []\<rparr>"
proof -
  from assms(1) have "0 < nb" "nb \<le> nm"
    by (auto simp: bufpool_init_def c_assert_def split: if_splits)
  from bufpool_init_ok [OF this assms(3,4,5,2), of bufsz] assms(1) show ?thesis by (auto simp: sys_ok_def)
qed

lemma full_pool: "pool_ok st [] H \<Longrightarrow> owned (bp st) = nmax (bp st) \<Longrightarrow> unat (nmax (bp st)) = card H"
  by (simp add: pool_ok_def)

lemma sys_ok_pass:
  assumes ok: "sys_ok oom s" and p: "bufpool_get_pass (pst s) t noblock a = Some (st, r)"
    and f: "fresh_buf s oom a" and l: "length (ready s) \<le> Suc (length rd)"
    and k: "noblock \<Longrightarrow> length (ready s) \<le> length rd"
  shows "sys_ok oom (took s st r\<lparr>ready := rd\<rparr>)"
proof -
  from ok obtain xs where x: "pool_ok (pst s) xs (held s)" by (auto simp: sys_ok_def)
  have a: "a \<noteq> NULL \<Longrightarrow> dlls (qm (pst s)) a = None" using f by (simp add: fresh_buf_def)
  show ?thesis
  proof (rule pool_get_pass [where t = t and noblock = noblock, OF x a], assumption, goal_cases)
    case (1 st' b ys)
    then have "finite (held s)" using x by (simp add: pool_ok_def)
    with 1 p ok l show ?case by (auto simp: sys_ok_def took_def)
  next
    case 2
    show ?case
    proof (cases noblock)
      case True
      with k have "length (ready s) \<le> length rd" by simp
      with True 2 p ok x show ?thesis by (auto simp: sys_ok_def took_def)
    next
      case False
      with 2 x f have "\<not> oom \<Longrightarrow> unat (nmax (bp (pst s))) = card (held s)"
        by (auto simp: fresh_buf_def intro: full_pool)
      with False 2 p ok x show ?thesis by (auto simp: sys_ok_def took_def pool_ok_waiters)
    qed
  qed
qed

lemma sys_ok_step:
  assumes "pool_step oom s s'" and ok: "sys_ok oom s"
  shows "sys_ok oom s'"
  using assms(1)
proof cases
  case (get t noblock a st r)
  have "bufpool_get_pass (pst s) t noblock a = Some (st, r)"
    using get(2) by (auto simp: bufpool_get_def c_assert_def split: if_splits)
  from sys_ok_pass [OF ok this get(3), of "ready s"] show ?thesis by (simp add: get(1) took_def)
next
  case (resume t a st r)
  from resume(2) have "length (ready s) \<le> Suc (length (remove1 t (ready s)))"
    by (simp add: length_remove1)
  from sys_ok_pass [OF ok resume(3,4) this] resume(1) show ?thesis by simp
next
  case (put b st ws)
  from ok obtain xs where x: "pool_ok (pst s) xs (held s)" "state (bp (pst s)) = INITIALIZED" by (auto simp: sys_ok_def)
  obtain st' where st': "bufpool_put (pst s) b = Some (st', take 1 (waiters (bp (pst s))))"
    "\<exists>ys. pool_ok st' ys (held s - {b})" "waiters (bp st') = drop 1 (waiters (bp (pst s)))"
    "nmax (bp st') = nmax (bp (pst s))" "state (bp st') = INITIALIZED" by (rule pool_put [OF x(1) put(2) x(2)]) blast
  have c: "card (held s) \<le> Suc (card (held s - {b}))"
    using x(1) put(2) card_remove [of "held s" b] by (auto simp: pool_ok_def)
  have "st = st'" "ws = take 1 (waiters (bp (pst s)))" using put(3) st'(1) by simp_all
  with put(1) st'(2-5) ok c show ?thesis by (cases "waiters (bp (pst s))") (auto simp: sys_ok_def)
qed

lemma pool_reach_ok: "pool_reach oom s \<Longrightarrow> sys_ok oom s"
  by (induction rule: pool_reach.induct) (auto intro: sys_ok_init sys_ok_step)



text \<open>
  When \<^verbatim>\<open>calloc\<close> does not fail: as long as a task sleeps in
  \<^verbatim>\<open>bufpool_get\<close> and no woken task is still to run, all \<open>nmax\<close> buffers are in use, so that a task
  sleeps only while no buffer can be had.
\<close>

theorem bufpool_no_lost_wakeup:
  assumes "pool_reach False s" and "waiters (bp (pst s)) \<noteq> []" and "ready s = []"
  shows "card (held s) = unat (nmax (bp (pst s))) \<and> issued (bp (pst s)) = nmax (bp (pst s))"
proof -
  from pool_reach_ok [OF assms(1)] assms(2,3) obtain xs where
    x: "pool_ok (pst s) xs (held s)" and c: "unat (nmax (bp (pst s))) \<le> card (held s)" by (auto simp: sys_ok_def)
  from x have "card (held s) \<le> unat (nmax (bp (pst s)))" "unat (issued (bp (pst s))) = card (held s)"
    by (auto simp: pool_ok_def word_le_nat_alt)
  with c show ?thesis by (metis le_antisym word_unat_eq_iff)
qed

section \<open>Concrete runs\<close>

definition pool0 :: pool_st where
  "pool0 = \<lparr>qm = \<lparr>dlls = [100 \<mapsto> \<lparr>dll_next = 0, dll_prev = 0\<rparr>], q_len = [100 \<mapsto> 0]\<rparr>,
            bp = \<lparr>freelist = 100, issued = 0, owned = 0, bufsize = 0, nbufs = 0, nmax = 0,
                  waiters = [], deinit = [], state = UNINITIALIZED, nmallocs = 0, nfrees = 0\<rparr>\<rparr>"

definition pool1 :: pool_st where
  "pool1 = fst (the (bufpool_init (\<lambda>i. 200 + i) pool0 16 1 1))"

definition after_get :: pool_st where
  "after_get = fst (the (bufpool_get pool1 1 False 300))"

definition after_wait :: pool_st where
  "after_wait = fst (the (bufpool_get after_get 2 False 300))"

lemma pool1_eq: "bufpool_init (\<lambda>i. 200 + i) pool0 16 1 1 = Some (pool1, 1)"
  unfolding pool1_def by (rule run_eq) code_simp

lemma after_get_eq: "bufpool_get pool1 1 False 300 = Some (after_get, Got 200)"
  unfolding after_get_def by (rule run_eq) code_simp

lemma after_wait_eq: "bufpool_get after_get 2 False 300 = Some (after_wait, Slept)"
  unfolding after_wait_def by (rule run_eq) code_simp

lemma pool1_reach: "pool_reach oom \<lparr>pst = pool1, held = {}, ready = []\<rparr>"
  by (rule pool_reach.init [OF pool1_eq]) (simp_all add: good_alloc_def pool0_def)

lemma after_get_reach: "pool_reach oom \<lparr>pst = after_get, held = {200}, ready = []\<rparr>"
proof -
  have "dlls (qm pool1) 300 = None" by code_simp
  with pool_step.get [of "\<lparr>pst = pool1, held = {}, ready = []\<rparr>" 1 False 300 after_get "Got 200" oom] after_get_eq
  have "pool_step oom \<lparr>pst = pool1, held = {}, ready = []\<rparr> \<lparr>pst = after_get, held = {200}, ready = []\<rparr>"
    by (simp add: fresh_buf_def took_def)
  from pool_reach.step [OF pool1_reach this] show ?thesis .
qed

lemma after_wait_reach: "pool_reach oom \<lparr>pst = after_wait, held = {200}, ready = []\<rparr>"
proof -
  have "dlls (qm after_get) 300 = None" by code_simp
  with pool_step.get [of "\<lparr>pst = after_get, held = {200}, ready = []\<rparr>" 2 False 300 after_wait Slept oom] after_wait_eq
  have "pool_step oom \<lparr>pst = after_get, held = {200}, ready = []\<rparr> \<lparr>pst = after_wait, held = {200}, ready = []\<rparr>"
    by (simp add: fresh_buf_def took_def)
  from pool_reach.step [OF after_get_reach this] show ?thesis .
qed


theorem bufpool_no_lost_wakeup_witness: "issued (bp after_wait) = nmax (bp after_wait)"
proof -
  have "waiters (bp after_wait) \<noteq> []" by code_simp
  with bufpool_no_lost_wakeup [OF after_wait_reach] show ?thesis by simp
qed

text \<open>
  \<^verbatim>\<open>bufpool_init\<close> returns the number of buffers that it could allocate
  before the first failure of \<^verbatim>\<open>malloc\<close>; these are the free buffers of the new pool, in the order
  of their allocation, and nothing is issued. It returns for every outcome of the allocations.
\<close>

theorem bufpool_init_correct:
  assumes "0 < nb" and "nb \<le> nm" and "dlls (qm st) (freelist (bp st)) \<noteq> None"
    and "q_len (qm st) (freelist (bp st)) \<noteq> None" and "freelist (bp st) \<noteq> NULL" and "good_alloc st alloc (unat nb)"
  shows "\<exists>st' xs. bufpool_init alloc st bufsz nb nm = Some (st', of_nat (length xs)) \<and>
           xs = takeWhile (\<lambda>a. a \<noteq> NULL) (map alloc [0..<unat nb]) \<and>
           queue_holds (freelist (bp st')) (qm st') xs \<and> unat (owned (bp st')) = length xs \<and>
           issued (bp st') = 0 \<and> state (bp st') = INITIALIZED"
proof -
  from bufpool_init_ok [OF assms(1-6), of bufsz] obtain st' xs where
    st': "bufpool_init alloc st bufsz nb nm = Some (st', of_nat (length xs))" "pool_ok st' xs {}"
    "xs = takeWhile (\<lambda>a. a \<noteq> NULL) (map alloc [0..<unat nb])" "state (bp st') = INITIALIZED" by blast
  have "issued (bp st') = 0" using st'(2) by (simp add: pool_ok_def word_unat_eq_iff)
  with st' show ?thesis by (auto simp: pool_ok_def)
qed

theorem bufpool_init_correct_witness:
  "\<exists>st'. bufpool_init (\<lambda>i. if i = 2 then 0 else 200 + i) pool0 16 4 4 = Some (st', 2) \<and>
     queue_holds (freelist (bp st')) (qm st') [200, 201]"
proof -
  have "good_alloc pool0 (\<lambda>i. if i = 2 then 0 else 200 + i) 4" by (simp add: good_alloc_def pool0_def)
  with bufpool_init_correct [of 4 4 pool0 "\<lambda>i. if i = 2 then 0 else 200 + i" 16]
  show ?thesis by (simp add: pool0_def upt_conv_Cons) blast
qed

section \<open>Taking a pool down\<close>

lemma drain_ok:
  assumes "queue_holds (freelist (bp st)) (qm st) xs" and "unat (owned (bp st)) = length xs"
  shows "\<exists>st'. bufpool_drain st = Some st' \<and> queue_holds (freelist (bp st)) (qm st') [] \<and>
           bp st' = (bp st)\<lparr>owned := 0\<rparr> \<and> (\<forall>b. b \<in> set xs \<or> dlls (qm st) b = None \<longrightarrow> dlls (qm st') b = None)"
  using assms
proof (induction xs arbitrary: st)
  case Nil
  then show ?case
    by (subst bufpool_drain.simps) (auto simp: queue_rem_empty word_unat_eq_iff)
next
  case (Cons x xs)
  let ?f = "freelist (bp st)"
  note q = Cons.prems(1)
  from queue_rem_holds [OF q] obtain m' where
    m': "queue_rem (qm st) ?f = Some (m', 0, x)" "queue_holds ?f m' xs" "ring (dlls m') x []"
    "agree (set (?f # x # xs)) (dlls (qm st)) (dlls m')" by auto
  from m'(3) obtain n where n: "dlls m' x = Some n" using ring_mem [of "dlls m'" x "[]" x] by auto
  have x: "x \<noteq> ?f" "x \<notin> set xs" using q by (auto simp: queue_holds_def ring_def)
  let ?st = "st\<lparr>qm := m'\<lparr>dlls := (dlls m')(x := None)\<rparr>, bp := (bp st)\<lparr>owned := owned (bp st) - 1\<rparr>\<rparr>"
  have q1: "queue_holds (freelist (bp ?st)) (qm ?st) xs"
    using queue_holds_frame [OF m'(2), of "qm ?st"] x by auto
  have "owned (bp st) \<noteq> 0" using Cons.prems(2) by auto
  from unat_dec [OF this] Cons.prems(2) have "unat (owned (bp ?st)) = length xs" by simp
  from Cons.IH [OF q1 this] obtain st' where st': "bufpool_drain ?st = Some st'" "queue_holds ?f (qm st') []"
    "bp st' = (bp st)\<lparr>owned := 0\<rparr>" "\<forall>b. b \<in> set xs \<or> dlls (qm ?st) b = None \<longrightarrow> dlls (qm st') b = None" by auto
  moreover have "\<forall>b. dlls (qm st) b = None \<longrightarrow> dlls m' b = None" using agree_dom [OF m'(4)] by blast
  moreover have "bufpool_drain st = bufpool_drain ?st"
    by (subst bufpool_drain.simps) (simp add: m'(1) n free_buf_def)
  ultimately show ?case by simp
qed


text \<open>
  When nothing is issued, \<^verbatim>\<open>bufpool_deinit\<close> does not sleep, frees every
  buffer of the pool, and leaves no buffer owned.
\<close>

theorem bufpool_deinit_correct:
  assumes "pool_ok st xs {}" and "state (bp st) = INITIALIZED"
  shows "\<exists>st1 st2. bufpool_deinit_start st t = Some (st1, False) \<and> bufpool_deinit_finish st1 = Some st2 \<and>
           (\<forall>b \<in> set xs. dlls (qm st2) b = None) \<and> owned (bp st2) = 0 \<and> state (bp st2) = DEINTED"
proof -
  from assms(1) have q: "queue_holds (freelist (bp st)) (qm st) xs" and o: "unat (owned (bp st)) = length xs"
    and i: "issued (bp st) = 0" by (auto simp: pool_ok_def word_unat_eq_iff)
  let ?f = "freelist (bp st)"
  let ?st1 = "st\<lparr>bp := (bp st)\<lparr>state := DEINITING\<rparr>\<rparr>"
  from drain_ok [of ?st1 xs] q o obtain s where s: "bufpool_drain ?st1 = Some s" "queue_holds ?f (qm s) []"
    "bp s = (bp st)\<lparr>state := DEINITING, owned := 0\<rparr>" "\<forall>b \<in> set xs. dlls (qm s) b = None" by auto
  have f: "?f \<notin> set xs" using q by (auto simp: queue_holds_def ring_def)
  from s(2) ring_mem [of "dlls (qm s)" ?f "[]" ?f] obtain n where n: "dlls (qm s) ?f = Some n" "q_len (qm s) ?f = Some 0"
    "DLL_ISEMPTY (dlls (qm s)) ?f = Some True" using ring_empty [of "dlls (qm s)" ?f "[]"]
    by (auto simp: queue_holds_def)
  have "bufpool_deinit_finish ?st1 = Some (s\<lparr>qm := \<lparr>dlls = (dlls (qm s))(?f \<mapsto> \<lparr>dll_next = NULL, dll_prev = NULL\<rparr>),
      q_len = (q_len (qm s))(?f \<mapsto> 0)\<rparr>, bp := (bp st)\<lparr>state := DEINTED, owned := 0\<rparr>\<rparr>)"
    using n by (simp add: bufpool_deinit_finish_def i s(1,3) on_queue_def queue_deinit_def)
  moreover have "bufpool_deinit_start st t = Some (?st1, False)"
    using assms(2) i by (simp add: bufpool_deinit_start_def)
  ultimately show ?thesis using s(4) f by fastforce
qed

theorem bufpool_deinit_correct_witness:
  "\<exists>st2. bufpool_deinit_finish (fst (the (bufpool_deinit_start pool1 1))) = Some st2 \<and> dlls (qm st2) 200 = None"
proof -
  have "good_alloc pool0 (\<lambda>i. 200 + i) 1" by (simp add: good_alloc_def pool0_def)
  with bufpool_init_ok [of 1 1 pool0 "\<lambda>i. 200 + i" 16] have "pool_ok pool1 [200] {} \<and> state (bp pool1) = INITIALIZED"
    by (simp add: pool0_def pool1_eq [unfolded pool0_def])
  with bufpool_deinit_correct [of pool1 "[200]" 1] show ?thesis by auto
qed

text \<open>
  Task 1 holds the only buffer, task 2 sleeps in \<^verbatim>\<open>bufpool_get\<close> and task 3
  in \<^verbatim>\<open>bufpool_deinit\<close>. The \<^verbatim>\<open>bufpool_put\<close> of task 1 wakes task 2 and task 3. Task 2 runs first and
  gets the buffer, as the loop of \<^verbatim>\<open>bufpool_get\<close> does not test the state of the pool again; then the
  assertion of task 3 that nothing is issued fails.
\<close>

theorem bufpool_deinit_race:
  "do {
     (st, r1) \<leftarrow> bufpool_get pool1 1 False 0;
     (st, r2) \<leftarrow> bufpool_get st 2 False 0;
     (st, sleeps) \<leftarrow> bufpool_deinit_start st 3;
     (st, woken) \<leftarrow> bufpool_put st 200;
     (st, r3) \<leftarrow> bufpool_get_pass st 2 False 0;
     Some (r1, r2, sleeps, woken, r3, Option.is_none (bufpool_deinit_finish st))
   } = Some (Got 200, Slept, True, [2, 3], Got 200, True)"
  by code_simp

text \<open>
  The test of \<^verbatim>\<open>bufpool_put\<close> that \<open>issued\<close> has not become negative never
  fails, as the counter is unsigned: a buffer that is put back although none is issued is accepted
  by the free list, and \<open>issued\<close> becomes the largest number there is.
\<close>

theorem bufpool_put_unchecked:
  "map_option (\<lambda>(st, woken). (issued (bp st), woken)) (bufpool_put (alloc_buf pool1 300) 300) =
     Some (2 ^ 64 - 1, [])"
  by code_simp

end
