(* ===== verification/Mpp_Bufpool.thy ===== *)
theory Mpp_Bufpool
  imports Bufpool
begin

text \<open>
  \<^verbatim>\<open>vmware_kernel/mpp/bufpool.c\<close>. The pool has a lock of its own and a number \<open>reserve\<close> of buffers
  that only \<^verbatim>\<open>bufpool_get_reserve\<close> may allocate. Every definition below is one critical section:
  what a world does from \<^verbatim>\<open>pthread_mutex_lock\<close> to the \<^verbatim>\<open>pthread_mutex_unlock\<close> or the
  \<^verbatim>\<open>vmk_WorldWait\<close> that releases the lock. A wait ends with a wake-up or with its timeout, so a
  waiting world may continue at any time. The members \<open>waiters\<close> and \<open>deinit\<close>, which this pool does
  not have, stay empty.
\<close>

record mpp_pool = pool_st +
  reserve :: int

section \<open>Operations\<close>

definition zero_pool :: "mpp_pool \<Rightarrow> mpp_pool option" where
  "zero_pool st = do {
     h \<leftarrow> store (dlls (qm st)) (freelist (bp st)) (\<lambda>n. \<lparr>dll_next = NULL, dll_prev = NULL\<rparr>);
     l \<leftarrow> store (q_len (qm st)) (freelist (bp st)) (\<lambda>n. 0);
     Some \<lparr>qm = \<lparr>dlls = h, q_len = l\<rparr>,
           bp = \<lparr>freelist = freelist (bp st), issued = 0, owned = 0, bufsize = 0, nbufs = 0, nmax = 0,
                 waiters = [], deinit = [], state = UNINITIALIZED, nmallocs = 0, nfrees = 0\<rparr>,
           reserve = 0\<rparr>
   }"

text \<open>
  \<open>name_ok\<close>, \<open>heap_ok\<close> and \<open>lock_ok\<close> are the outcomes of \<^verbatim>\<open>vmware_name\<close>, \<^verbatim>\<open>vmware_heap_create\<close> and
  \<^verbatim>\<open>pthread_mutex_init\<close>, which are wrappers of kernel calls.
\<close>

definition mpp_bufpool_init_reserve ::
  "(nat \<Rightarrow> addr) \<Rightarrow> bool \<Rightarrow> bool \<Rightarrow> bool \<Rightarrow> mpp_pool \<Rightarrow> u64 \<Rightarrow> u64 \<Rightarrow> int \<Rightarrow> u64 \<Rightarrow> (mpp_pool \<times> u32) option" where
  "mpp_bufpool_init_reserve alloc name_ok heap_ok lock_ok st bufsz nb rsv nm = do {
     c_assert (nb > 0 \<and> nm \<ge> nb);
     st \<leftarrow> zero_pool st;
     c_assert name_ok;
     let bufsz = (if bufsz < sizeof_dll then sizeof_dll else bufsz);
     if \<not> heap_ok then Some (st, -1)
     else do {
       m \<leftarrow> queue_init (qm st) (freelist (bp st));
       let st = st\<lparr>qm := m, bp := (bp st)\<lparr>bufsize := bufsz, nbufs := nb, nmax := nm, state := INITIALIZED\<rparr>,
                   reserve := rsv\<rparr>;
       c_assert lock_ok;
       st \<leftarrow> bufpool_fill alloc st (unat nb);
       Some (st, ucast (owned (bp st)))
     }
   }"

definition mpp_bufpool_init ::
  "(nat \<Rightarrow> addr) \<Rightarrow> bool \<Rightarrow> bool \<Rightarrow> bool \<Rightarrow> mpp_pool \<Rightarrow> u64 \<Rightarrow> u64 \<Rightarrow> u64 \<Rightarrow> (mpp_pool \<times> u32) option" where
  "mpp_bufpool_init alloc name_ok heap_ok lock_ok st bufsz nb nm =
     mpp_bufpool_init_reserve alloc name_ok heap_ok lock_ok st bufsz nb 0 nm"

text \<open>The sum of \<open>owned\<close> and the \<^verbatim>\<open>int\<close> member \<open>reserve\<close> is computed in \<^verbatim>\<open>size_t\<close>.\<close>

definition room_left :: "mpp_pool \<Rightarrow> bool" where
  "room_left st \<longleftrightarrow> owned (bp st) + word_of_int (reserve st) < nmax (bp st)"

text \<open>One pass of the outer loop of \<^verbatim>\<open>_bufpool_get\<close>; \<open>rsv\<close> is \<^verbatim>\<open>alloc_reserve\<close>, \<open>a\<close> the result of \<^verbatim>\<open>malloc\<close>.\<close>

definition mpp_get_pass :: "mpp_pool \<Rightarrow> bool \<Rightarrow> bool \<Rightarrow> addr \<Rightarrow> (mpp_pool \<times> get_result) option" where
  "mpp_get_pass st noblock rsv a = do {
     c_assert (state (bp st) = INITIALIZED);
     (m, rc, e) \<leftarrow> queue_rem (qm st) (freelist (bp st));
     if rc = 0 then Some (issue st m, Got e)
     else if (room_left st \<or> rsv \<and> reserve st \<noteq> 0 \<and> owned (bp st) < nmax (bp st)) \<and> a \<noteq> NULL
     then Some (issue_new (st\<lparr>qm := m\<rparr>) a, Got a)
     else Some (st\<lparr>qm := m\<rparr>, if noblock then Failed else Slept)
   }"

definition mpp_bufpool_get :: "mpp_pool \<Rightarrow> bool \<Rightarrow> bool \<Rightarrow> addr \<Rightarrow> (mpp_pool \<times> get_result) option" where
  "mpp_bufpool_get st noblock rsv a = do {
     c_assert (state (bp st) = INITIALIZED);
     c_assert (\<not> (rsv \<and> reserve st = 0));
     mpp_get_pass st noblock rsv a
   }"

text \<open>The entry points that do not wait in the middle of their work; the last part is the \<^verbatim>\<open>memset\<close>.\<close>

definition mpp_bufpool_get_zero ::
  "mpp_pool \<Rightarrow> bool \<Rightarrow> bool \<Rightarrow> addr \<Rightarrow> (mpp_pool \<times> get_result \<times> (addr \<times> u64) option) option" where
  "mpp_bufpool_get_zero st noblock rsv a = do {
     (st, r) \<leftarrow> mpp_bufpool_get st noblock rsv a;
     Some (st, r, case r of Got b \<Rightarrow> Some (b, bufsize (bp st)) | _ \<Rightarrow> None)
   }"

text \<open>What a waiting world does when its wait ends: it waits again, or runs another pass.\<close>

definition mpp_get_wake :: "mpp_pool \<Rightarrow> bool \<Rightarrow> addr \<Rightarrow> (mpp_pool \<times> get_result) option" where
  "mpp_get_wake st rsv a =
     (if rsv \<and> owned (bp st) < nmax (bp st) \<or> room_left st then mpp_get_pass st False rsv a
      else Some (st, Slept))"

definition mpp_bufpool_put :: "mpp_pool \<Rightarrow> addr \<Rightarrow> mpp_pool option" where
  "mpp_bufpool_put st buf = do { c_assert (buf \<noteq> NULL); put_buffer st buf }"

text \<open>\<^verbatim>\<open>bufpool_deinit\<close>; the flag says whether the world has to wait (again).\<close>

definition mpp_deinit_wake :: "mpp_pool \<Rightarrow> (mpp_pool \<times> bool) option" where
  "mpp_deinit_wake st =
     (if issued (bp st) \<noteq> 0 then Some (st, True)
      else do {
        c_assert (issued (bp st) = 0);
        st \<leftarrow> bufpool_drain st;
        st \<leftarrow> on_queue st (queue_deinit (qm st) (freelist (bp st)));
        Some (st\<lparr>bp := (bp st)\<lparr>state := DEINTED\<rparr>\<rparr>, False)
      })"

definition mpp_bufpool_deinit :: "mpp_pool \<Rightarrow> (mpp_pool \<times> bool) option" where
  "mpp_bufpool_deinit st =
     (if state (bp st) \<noteq> INITIALIZED then Some (st, False)
      else mpp_deinit_wake (st\<lparr>bp := (bp st)\<lparr>state := DEINITING\<rparr>\<rparr>))"

section \<open>What the operations do in a well-formed pool\<close>

lemma fill_more: "bufpool_fill alloc st k = Some st' \<Longrightarrow> pool_st.more st' = pool_st.more st"
  by (induction k arbitrary: st)
    (auto simp: Let_def alloc_buf_def dll_init_buf_def on_queue_def split: if_splits bind_splits option.splits)

definition mpp_room :: "mpp_pool \<Rightarrow> bool" where
  "mpp_room st \<longleftrightarrow> 0 \<le> reserve st \<and> unat (nmax (bp st)) + nat (reserve st) < 2 ^ 64"

lemma room_left_iff:
  assumes "mpp_room st" and "owned (bp st) \<le> nmax (bp st)"
  shows "room_left st \<longleftrightarrow> unat (owned (bp st)) + nat (reserve st) < unat (nmax (bp st))"
proof -
  from assms have r: "reserve st = int (nat (reserve st))" and
    n: "unat (owned (bp st)) + nat (reserve st) < 2 ^ LENGTH(64)" by (auto simp: mpp_room_def word_le_nat_alt)
  have "word_of_int (reserve st) = (of_nat (nat (reserve st)) :: u64)" by (subst r) simp
  moreover have "unat (owned (bp st) + of_nat (nat (reserve st))) = unat (owned (bp st)) + nat (reserve st)"
    using n by (simp add: unat_word_ariths unat_of_nat)
  ultimately show ?thesis by (simp add: room_left_def word_less_nat_alt)
qed

lemma mpp_get_pass_cases:
  assumes ok: "pool_ok st xs H" and i: "state (bp st) = INITIALIZED" and room: "mpp_room st"
    and a: "a \<noteq> NULL \<Longrightarrow> dlls (qm st) a = None"
  obtains (got) st' b ys where "mpp_get_pass st noblock rsv a = Some (st', Got b)"
      "pool_ok st' ys (insert b H)" "b \<notin> H" "reserve st' = reserve st" "nmax (bp st') = nmax (bp st)"
      "nbufs (bp st') = nbufs (bp st)" "state (bp st') = INITIALIZED"
      "xs \<noteq> [] \<and> owned (bp st') = owned (bp st) \<or>
       xs = [] \<and> owned (bp st') = owned (bp st) + 1 \<and> owned (bp st) < nmax (bp st) \<and> (room_left st \<or> rsv)"
    | (none) "mpp_get_pass st noblock rsv a = Some (st, if noblock then Failed else Slept)" "xs = []"
      "a = NULL \<or> \<not> (room_left st \<or> rsv \<and> reserve st \<noteq> 0 \<and> owned (bp st) < nmax (bp st))"
proof (cases xs)
  case (Cons x ys)
  from pool_take_free [OF ok [unfolded Cons]] obtain m where
    "queue_rem (qm st) (freelist (bp st)) = Some (m, 0, x)" "pool_ok (issue st m) ys (insert x H)" "x \<notin> H" by auto
  then show thesis by (intro got [of "issue st m" x ys]) (auto simp: mpp_get_pass_def Cons i issue_def)
next
  case Nil
  note ok' = ok [unfolded Nil]
  show thesis
  proof (cases "(room_left st \<or> rsv \<and> reserve st \<noteq> 0 \<and> owned (bp st) < nmax (bp st)) \<and> a \<noteq> NULL")
    case True
    have "owned (bp st) \<le> nmax (bp st)" using ok by (simp add: pool_ok_def)
    from room_left_iff [OF room this] True have lt: "owned (bp st) < nmax (bp st)" by (auto simp: word_less_nat_alt)
    from pool_take_new [OF ok' lt] a True have n: "pool_ok (issue_new st a) [] (insert a H)" "a \<notin> H" by auto
    show thesis
      by (rule got [OF _ n])
        (use True Nil i lt in \<open>auto simp: mpp_get_pass_def pool_empty [OF ok'] issue_new_def alloc_buf_def Let_def\<close>)
  next
    case False
    then show thesis by (intro none) (auto simp: Nil mpp_get_pass_def pool_empty [OF ok'] i)
  qed
qed

section \<open>The worlds that use a pool\<close>

text \<open>\<open>waiting\<close> are the worlds inside the wait of \<^verbatim>\<open>_bufpool_get\<close>, with their \<^verbatim>\<open>alloc_reserve\<close>.\<close>

record mpp_sys =
  mpool :: mpp_pool
  mheld :: "addr set"
  waiting :: "(nat \<times> bool) list"

definition unused :: "mpp_sys \<Rightarrow> addr \<Rightarrow> bool" where
  "unused s a \<longleftrightarrow> (a \<noteq> NULL \<longrightarrow> dlls (qm (mpool s)) a = None)"

definition mpp_took :: "mpp_sys \<Rightarrow> nat \<times> bool \<Rightarrow> mpp_pool \<Rightarrow> get_result \<Rightarrow> mpp_sys" where
  "mpp_took s w st r = s\<lparr>mpool := st, mheld := (case r of Got b \<Rightarrow> insert b (mheld s) | _ \<Rightarrow> mheld s),
     waiting := (if r = Slept then w # waiting s else waiting s)\<rparr>"

inductive mpp_step :: "mpp_sys \<Rightarrow> mpp_sys \<Rightarrow> bool" where
  get: "mpp_step s (mpp_took s (t, rsv) st r)"
    if "rsv \<longrightarrow> reserve (mpool s) \<noteq> 0" and "mpp_bufpool_get (mpool s) noblock rsv a = Some (st, r)" and "unused s a"
| wake: "mpp_step s (mpp_took (s\<lparr>waiting := remove1 (t, rsv) (waiting s)\<rparr>) (t, rsv) st r)"
    if "(t, rsv) \<in> set (waiting s)" and "mpp_get_wake (mpool s) rsv a = Some (st, r)" and "unused s a"
| put: "mpp_step s (s\<lparr>mpool := st, mheld := mheld s - {b}\<rparr>)"
    if "b \<in> mheld s" and "mpp_bufpool_put (mpool s) b = Some st"

inductive mpp_reach :: "mpp_sys \<Rightarrow> bool" where
  init: "mpp_reach \<lparr>mpool = st', mheld = {}, waiting = []\<rparr>"
    if "mpp_bufpool_init_reserve alloc True True True st bufsz nb rsv nm = Some (st', n)"
      and "good_alloc (pool_st.truncate st) alloc (unat nb)" and "freelist (bp st) \<noteq> NULL"
      and "0 \<le> rsv" and "unat nm + nat rsv < 2 ^ 64"
| step: "mpp_reach s'" if "mpp_reach s" and "mpp_step s s'"

definition mpp_ok :: "mpp_sys \<Rightarrow> bool" where
  "mpp_ok s \<longleftrightarrow> (\<exists>xs. pool_ok (mpool s) xs (mheld s)) \<and> state (bp (mpool s)) = INITIALIZED \<and>
     mpp_room (mpool s) \<and> (\<forall>w \<in> set (waiting s). snd w \<longrightarrow> reserve (mpool s) \<noteq> 0)"

lemma mpp_init_ok:
  assumes r: "mpp_bufpool_init_reserve alloc True True True st bufsz nb rsv nm = Some (st', n)"
    and g: "good_alloc (pool_st.truncate st) alloc (unat nb)" and f: "freelist (bp st) \<noteq> NULL"
  shows "pool_ok st' (takeWhile (\<lambda>a. a \<noteq> NULL) (map alloc [0..<unat nb])) {} \<and> state (bp st') = INITIALIZED \<and>
     reserve st' = rsv \<and> nmax (bp st') = nm"
proof -
  let ?f = "freelist (bp st)"
  define bs where "bs = (if bufsz < sizeof_dll then sizeof_dll else bufsz)"
  from r obtain z m where nb: "0 < nb" "nb \<le> nm" and z: "zero_pool st = Some z"
    and m: "queue_init (qm z) (freelist (bp z)) = Some m"
    and b: "bufpool_fill alloc (z\<lparr>qm := m, bp := (bp z)\<lparr>bufsize := bs, nbufs := nb, nmax := nm, state := INITIALIZED\<rparr>,
      reserve := rsv\<rparr>) (unat nb) = Some st'"
    by (auto simp: mpp_bufpool_init_reserve_def bs_def split: bind_splits if_splits)
  from z obtain n0 k0 where n0: "dlls (qm st) ?f = Some n0" "q_len (qm st) ?f = Some k0"
    and ze: "qm z = \<lparr>dlls = (dlls (qm st))(?f \<mapsto> \<lparr>dll_next = NULL, dll_prev = NULL\<rparr>), q_len = (q_len (qm st))(?f \<mapsto> 0)\<rparr>"
      "bp z = \<lparr>freelist = ?f, issued = 0, owned = 0, bufsize = 0, nbufs = 0, nmax = 0,
                 waiters = [], deinit = [], state = UNINITIALIZED, nmallocs = 0, nfrees = 0\<rparr>"
    by (auto simp: zero_pool_def store_def split: bind_splits option.splits)
  from queue_init_holds [of "qm z" ?f _ 0, OF _ _ f] m have q: "queue_holds ?f m []"
    "\<forall>x. x \<noteq> ?f \<longrightarrow> dlls m x = dlls (qm st) x" by (auto simp: ze)
  let ?st = "z\<lparr>qm := m, bp := (bp z)\<lparr>bufsize := bs, nbufs := nb, nmax := nm, state := INITIALIZED\<rparr>, reserve := rsv\<rparr>"
  have ok: "pool_ok ?st [] {}" using q(1) nb by (simp add: pool_ok_def ze)
  have "\<exists>s ys. bufpool_fill alloc ?st (unat nb) = Some s \<and> pool_ok s ([] @ ys) {} \<and>
           ys = takeWhile (\<lambda>a. a \<noteq> NULL) (map alloc [length ([]::addr list)..<length ([]::addr list) + unat nb]) \<and>
           state (bp s) = INITIALIZED \<and> waiters (bp s) = [] \<and> nmax (bp s) = nmax (bp ?st)"
    by (rule fill_ok [OF ok]) (use g q(2) in \<open>auto simp: good_alloc_def inj_on_def ze pool_st.defs\<close>)
  with b fill_more [OF b] show ?thesis by (cases st', cases z) auto
qed

lemma mpp_pass_ok:
  assumes ok: "mpp_ok s" and u: "unused s a" and r: "rsv \<longrightarrow> reserve (mpool s) \<noteq> 0"
    and p: "mpp_get_pass (mpool s) noblock rsv a = Some (st, r)"
  shows "mpp_ok (mpp_took s (t, rsv) st r)"
proof -
  from ok obtain xs where x: "pool_ok (mpool s) xs (mheld s)" "state (bp (mpool s)) = INITIALIZED" "mpp_room (mpool s)"
    and w: "\<forall>w \<in> set (waiting s). snd w \<longrightarrow> reserve (mpool s) \<noteq> 0" by (auto simp: mpp_ok_def)
  have a: "a \<noteq> NULL \<Longrightarrow> dlls (qm (mpool s)) a = None" using u by (simp add: unused_def)
  show ?thesis
  proof (rule mpp_get_pass_cases [where noblock = noblock and rsv = rsv, OF x a], assumption, goal_cases)
    case (1 st' b ys)
    then show ?case using p x w by (auto simp: mpp_ok_def mpp_took_def mpp_room_def)
  next
    case 2
    then show ?case using p x w r by (auto simp: mpp_ok_def mpp_took_def)
  qed
qed

lemma mpp_put_ok:
  assumes ok: "mpp_ok s" and b: "b \<in> mheld s"
  shows "\<exists>st. mpp_bufpool_put (mpool s) b = Some st \<and> mpp_ok (s\<lparr>mpool := st, mheld := mheld s - {b}\<rparr>)"
proof -
  from ok obtain xs where x: "pool_ok (mpool s) xs (mheld s)" by (auto simp: mpp_ok_def)
  from pool_put_buffer [OF x b] obtain st xs' where st: "put_buffer (mpool s) b = Some st" "pool_ok st xs' (mheld s - {b})"
    "nmax (bp st) = nmax (bp (mpool s))" "state (bp st) = state (bp (mpool s))" by blast
  from st(1) have "pool_st.more st = pool_st.more (mpool s)"
    by (auto simp: put_buffer_def Let_def dll_init_buf_def on_queue_def free_buf_def split: if_splits bind_splits option.splits)
  then have "reserve st = reserve (mpool s)" by (cases st; cases "mpool s") auto
  moreover have "b \<noteq> NULL" using x b by (auto simp: pool_ok_def)
  ultimately show ?thesis using ok st by (auto simp: mpp_ok_def mpp_room_def mpp_bufpool_put_def)
qed

lemma mpp_reach_ok: "mpp_reach s \<Longrightarrow> mpp_ok s"
proof (induction rule: mpp_reach.induct)
  case (init alloc st bufsz nb rsv nm st' n)
  from mpp_init_ok [OF init(1,2,3)] init(4,5) show ?case by (auto simp: mpp_ok_def mpp_room_def)
next
  case (step s s')
  from step(2) show ?case
  proof cases
    case (get rsv noblock a st r t)
    then have "mpp_get_pass (mpool s) noblock rsv a = Some (st, r)" by (auto simp: mpp_bufpool_get_def split: bind_splits)
    from mpp_pass_ok [OF step(3) get(4) get(2) this] get(1) show ?thesis by simp
  next
    case (wake t rsv a st r)
    let ?s = "s\<lparr>waiting := remove1 (t, rsv) (waiting s)\<rparr>"
    have r: "rsv \<longrightarrow> reserve (mpool s) \<noteq> 0" using wake(2) step(3) by (fastforce simp: mpp_ok_def)
    have ok: "mpp_ok ?s" using step(3) set_remove1_subset [of "(t, rsv)" "waiting s"] by (fastforce simp: mpp_ok_def)
    show ?thesis
    proof (cases "rsv \<and> owned (bp (mpool s)) < nmax (bp (mpool s)) \<or> room_left (mpool s)")
      case True
      with wake(3) have "mpp_get_pass (mpool ?s) False rsv a = Some (st, r)" by (simp add: mpp_get_wake_def)
      from mpp_pass_ok [OF ok _ _ this] wake(1,4) r show ?thesis by (simp add: unused_def)
    next
      case False
      with wake(1,3) r ok show ?thesis by (auto simp: mpp_get_wake_def mpp_took_def mpp_ok_def)
    qed
  next
    case (put b st)
    from mpp_put_ok [OF step(3) put(2)] put show ?thesis by auto
  qed
qed



text \<open>
  When the preallocated buffers and the reserve fit into \<open>nmax\<close>, an ordinary
  \<^verbatim>\<open>bufpool_get\<close> never eats into the reserve: after it has returned a buffer, \<open>reserve\<close> further
  buffers can still be allocated, and \<^verbatim>\<open>bufpool_get_reserve\<close> returns one at once if \<^verbatim>\<open>malloc\<close> does.
\<close>

theorem mpp_reserve_kept:
  assumes "mpp_reach s" and "unat (nbufs (bp (mpool s))) + nat (reserve (mpool s)) \<le> unat (nmax (bp (mpool s)))"
    and "mpp_bufpool_get (mpool s) noblock False a = Some (st, Got b)" and "unused s a"
  shows "unat (owned (bp st)) + nat (reserve st) \<le> unat (nmax (bp st)) \<and>
         (reserve st \<noteq> 0 \<longrightarrow> (\<forall>c. c \<noteq> NULL \<longrightarrow> dlls (qm st) c = None \<longrightarrow>
            (\<exists>st' b'. mpp_bufpool_get st True True c = Some (st', Got b'))))"
proof -
  from mpp_reach_ok [OF assms(1)] obtain xs where
    x: "pool_ok (mpool s) xs (mheld s)" "state (bp (mpool s)) = INITIALIZED" "mpp_room (mpool s)" by (auto simp: mpp_ok_def)
  have a: "a \<noteq> NULL \<Longrightarrow> dlls (qm (mpool s)) a = None" using assms(4) by (simp add: unused_def)
  have p: "mpp_get_pass (mpool s) noblock False a = Some (st, Got b)"
    using assms(3) x(2) by (simp add: mpp_bufpool_get_def)
  have le: "owned (bp (mpool s)) \<le> nmax (bp (mpool s))" "xs \<noteq> [] \<longrightarrow> owned (bp (mpool s)) \<le> nbufs (bp (mpool s))"
    using x(1) by (auto simp: pool_ok_def)
  obtain ys where st: "pool_ok st ys (insert b (mheld s))" "reserve st = reserve (mpool s)" "state (bp st) = INITIALIZED"
    "nmax (bp st) = nmax (bp (mpool s))" "xs \<noteq> [] \<and> owned (bp st) = owned (bp (mpool s)) \<or>
       owned (bp st) = owned (bp (mpool s)) + 1 \<and> owned (bp (mpool s)) < nmax (bp (mpool s)) \<and> room_left (mpool s)"
    by (rule mpp_get_pass_cases [where noblock = noblock and rsv = False, OF x a]) (use p in \<open>auto split: if_splits\<close>)
  have o: "unat (owned (bp st)) + nat (reserve st) \<le> unat (nmax (bp st))"
    using st(2,4,5) assms(2) le room_left_iff [OF x(3) le(1)]
      unat_inc [of "owned (bp (mpool s))" "nmax (bp (mpool s))"]
    by (auto simp: word_le_nat_alt)
  have "\<exists>st' b'. mpp_bufpool_get st True True c = Some (st', Got b')"
    if r: "reserve st \<noteq> 0" and c: "c \<noteq> NULL" "dlls (qm st) c = None" for c
  proof -
    have room: "mpp_room st" using x(3) st(2,4) by (simp add: mpp_room_def)
    then have "owned (bp st) < nmax (bp st)" using o r by (auto simp: mpp_room_def word_less_nat_alt)
    with r c(1) show ?thesis
      by - (rule mpp_get_pass_cases [where noblock = True and rsv = True, OF st(1,3) room c(2)],
        auto simp: mpp_bufpool_get_def st(3))
  qed
  with o show ?thesis by blast
qed

text \<open>
  When all buffers have been put back and the preallocated buffers leave room
  for one more besides the reserve, a waiting world gets a buffer as soon as its wait ends.
\<close>

theorem mpp_waiter_served:
  assumes "mpp_reach s" and "mheld s = {}" and "a \<noteq> NULL" and "unused s a"
    and "unat (nbufs (bp (mpool s))) + nat (reserve (mpool s)) < unat (nmax (bp (mpool s)))"
  shows "\<exists>st b. mpp_get_wake (mpool s) rsv a = Some (st, Got b)"
proof -
  from mpp_reach_ok [OF assms(1)] obtain xs where
    x: "pool_ok (mpool s) xs (mheld s)" "state (bp (mpool s)) = INITIALIZED" "mpp_room (mpool s)" by (auto simp: mpp_ok_def)
  have a: "a \<noteq> NULL \<Longrightarrow> dlls (qm (mpool s)) a = None" using assms(4) by (simp add: unused_def)
  from x(1) assms(2) have "unat (owned (bp (mpool s))) \<le> unat (nbufs (bp (mpool s)))"
    "owned (bp (mpool s)) \<le> nmax (bp (mpool s))" by (cases "xs = []"; auto simp: pool_ok_def word_le_nat_alt)+
  with room_left_iff [OF x(3)] assms(5) have rl: "room_left (mpool s)" by auto
  show ?thesis
    by (rule mpp_get_pass_cases [where noblock = False and rsv = rsv, OF x a]) (use rl assms(3) in \<open>auto simp: mpp_get_wake_def\<close>)
qed

section \<open>Concrete runs\<close>

definition mpool0 :: mpp_pool where
  "mpool0 = \<lparr>qm = qm pool0, bp = bp pool0, reserve = 0\<rparr>"

definition mpp_start :: "u64 \<Rightarrow> int \<Rightarrow> u64 \<Rightarrow> mpp_pool" where
  "mpp_start nb rsv nm = fst (the (mpp_bufpool_init_reserve (\<lambda>i. 200 + i) True True True mpool0 16 nb rsv nm))"

lemma mpp_start_reach:
  assumes "map_option snd (mpp_bufpool_init_reserve (\<lambda>i. 200 + i) True True True mpool0 16 nb rsv nm) = Some n"
    and "0 \<le> rsv" and "unat nm + nat rsv < 2 ^ 64"
  shows "mpp_reach \<lparr>mpool = mpp_start nb rsv nm, mheld = {}, waiting = []\<rparr>"
  unfolding mpp_start_def
  by (rule mpp_reach.init [OF run_eq [OF assms(1)]]) (use assms(2,3) in \<open>auto simp: good_alloc_def mpool0_def pool0_def pool_st.defs\<close>)


theorem mpp_reserve_kept_witness:
  "\<exists>st. mpp_bufpool_get (mpp_start 1 1 2) True False 300 = Some (st, Got 200) \<and>
     unat (owned (bp st)) + nat (reserve st) \<le> unat (nmax (bp st))"
proof -
  let ?s = "\<lparr>mpool = mpp_start 1 1 2, mheld = {}, waiting = []\<rparr>"
  have r: "mpp_reach ?s" by (rule mpp_start_reach [of 1 1 2 1]) (code_simp, simp_all)
  have c: "dlls (qm (mpp_start 1 1 2)) 300 = None" "reserve (mpp_start 1 1 2) = 1" "nbufs (bp (mpp_start 1 1 2)) = 1"
    "nmax (bp (mpp_start 1 1 2)) = 2" by code_simp+
  define st where "st = fst (the (mpp_bufpool_get (mpp_start 1 1 2) True False 300))"
  have g: "mpp_bufpool_get (mpp_start 1 1 2) True False 300 = Some (st, Got 200)"
    unfolding st_def by (rule run_eq) code_simp
  from mpp_reserve_kept [OF r, of True 300 st 200] g c show ?thesis by (simp add: unused_def)
qed

theorem mpp_waiter_served_witness: "\<exists>st b. mpp_get_wake (mpp_start 1 0 2) False 300 = Some (st, Got b)"
proof -
  have r: "mpp_reach \<lparr>mpool = mpp_start 1 0 2, mheld = {}, waiting = []\<rparr>"
    by (rule mpp_start_reach [of 1 0 2 1]) (code_simp, simp_all)
  have "dlls (qm (mpp_start 1 0 2)) 300 = None" "reserve (mpp_start 1 0 2) = 0" "nbufs (bp (mpp_start 1 0 2)) = 1"
    "nmax (bp (mpp_start 1 0 2)) = 2" by code_simp+
  with mpp_waiter_served [OF r, of 300 False] show ?thesis by (simp add: unused_def)
qed


lemma mpp_stall_forever: "\<not> room_left st \<Longrightarrow> \<not> rsv \<Longrightarrow> mpp_get_wake st rsv a = Some (st, Slept)"
  by (simp add: mpp_get_wake_def)

end
