(* ===== verification/Locks.thy ===== *)
theory Locks
  imports Tasklist
begin

text \<open>
  \<^verbatim>\<open>libtask/qlock.c\<close> and \<^verbatim>\<open>libtask/rendez.c\<close>: the locks of the coroutines and the condition
  variables that can be tied to one. A task is a number, 0 is the null pointer; a waiting list is
  written as the list it holds. A call that has to wait returns \<open>Waits\<close>; what the task does when
  it runs again is a definition of its own. The tasks that a call makes ready are part of its result.
\<close>

section \<open>Queuing locks\<close>

record QLock =
  owner :: nat
  qwaiting :: "nat list"

datatype lock_result = Locked | Refused | Waits

definition qlock_op :: "QLock \<Rightarrow> nat \<Rightarrow> bool \<Rightarrow> QLock \<times> lock_result" where
  "qlock_op l self block =
     (if owner l = 0 then (l\<lparr>owner := self\<rparr>, Locked)
      else if \<not> block then (l, Refused)
      else (l\<lparr>qwaiting := qwaiting l @ [self]\<rparr>, Waits))"

text \<open>What \<^verbatim>\<open>_qlock\<close> checks when the task runs again: it aborts unless the task owns the lock.\<close>

definition qlock_resume :: "QLock \<Rightarrow> nat \<Rightarrow> unit option" where
  "qlock_resume l self = c_assert (owner l = self)"

definition qlock :: "QLock \<Rightarrow> nat \<Rightarrow> QLock \<times> lock_result" where
  "qlock l self = qlock_op l self True"

definition canqlock :: "QLock \<Rightarrow> nat \<Rightarrow> QLock \<times> lock_result" where
  "canqlock l self = qlock_op l self False"

definition qunlock :: "QLock \<Rightarrow> (QLock \<times> nat list) option" where
  "qunlock l = do {
     c_assert (owner l \<noteq> 0);
     case qwaiting l of
       [] \<Rightarrow> Some (l\<lparr>owner := 0\<rparr>, [])
     | t # ws \<Rightarrow> Some (l\<lparr>owner := t, qwaiting := ws\<rparr>, [t])
   }"

section \<open>Reader-writer locks\<close>

record RWLock =
  readers :: int
  writer :: nat
  rwaiting :: "nat list"
  wwaiting :: "nat list"

definition rlock_op :: "RWLock \<Rightarrow> nat \<Rightarrow> bool \<Rightarrow> RWLock \<times> lock_result" where
  "rlock_op l self block =
     (if writer l = 0 \<and> wwaiting l = [] then (l\<lparr>readers := readers l + 1\<rparr>, Locked)
      else if \<not> block then (l, Refused)
      else (l\<lparr>rwaiting := rwaiting l @ [self]\<rparr>, Waits))"

definition wlock_op :: "RWLock \<Rightarrow> nat \<Rightarrow> bool \<Rightarrow> RWLock \<times> lock_result" where
  "wlock_op l self block =
     (if writer l = 0 \<and> readers l = 0 then (l\<lparr>writer := self\<rparr>, Locked)
      else if \<not> block then (l, Refused)
      else (l\<lparr>wwaiting := wwaiting l @ [self]\<rparr>, Waits))"

definition grant_writer :: "RWLock \<Rightarrow> RWLock \<times> nat list" where
  "grant_writer l =
     (case wwaiting l of [] \<Rightarrow> (l, []) | t # ws \<Rightarrow> (l\<lparr>wwaiting := ws, writer := t\<rparr>, [t]))"

definition runlock :: "RWLock \<Rightarrow> RWLock \<times> nat list" where
  "runlock l =
     (let l = l\<lparr>readers := readers l - 1\<rparr> in
      if readers l = 0 then grant_writer l else (l, []))"

text \<open>The loop over the waiting readers; it makes every one of them ready.\<close>

primrec grant_readers :: "RWLock \<Rightarrow> nat list \<Rightarrow> RWLock \<times> nat list" where
  "grant_readers l [] = (l\<lparr>rwaiting := []\<rparr>, [])"
| "grant_readers l (t # ts) =
     (let (l, woken) = grant_readers (l\<lparr>rwaiting := ts, readers := readers l + 1\<rparr>) ts in (l, t # woken))"

definition wunlock :: "RWLock \<Rightarrow> (RWLock \<times> nat list) option" where
  "wunlock l = do {
     c_assert (writer l \<noteq> 0);
     let l = l\<lparr>writer := 0\<rparr>;
     c_assert (readers l = 0);
     let (l, woken) = grant_readers l (rwaiting l);
     let (l, woken') = (if readers l = 0 then grant_writer l else (l, []));
     Some (l, woken @ woken')
   }"

section \<open>Condition variables\<close>

text \<open>
  A \<^verbatim>\<open>Rendez\<close> with the lock it is tied to (\<^verbatim>\<open>nil\<close> is \<open>None\<close>). \<^verbatim>\<open>tasksleep\<close> gives the lock up and,
  when the task runs again, takes it again; both halves are modelled.
\<close>

record Rendez =
  rlk :: "QLock option"
  rz_waiting :: "nat list"

definition tasksleep :: "Rendez \<Rightarrow> nat \<Rightarrow> (Rendez \<times> nat list) option" where
  "tasksleep r self = do {
     let r = r\<lparr>rz_waiting := rz_waiting r @ [self]\<rparr>;
     case rlk r of
       None \<Rightarrow> Some (r, [])
     | Some l \<Rightarrow> do { (l, woken) \<leftarrow> qunlock l; Some (r\<lparr>rlk := Some l\<rparr>, woken) }
   }"

definition tasksleep_resume :: "Rendez \<Rightarrow> nat \<Rightarrow> Rendez \<times> lock_result" where
  "tasksleep_resume r self =
     (case rlk r of
        None \<Rightarrow> (r, Locked)
      | Some l \<Rightarrow> (let (l, res) = qlock l self in (r\<lparr>rlk := Some l\<rparr>, res)))"

definition rendez_wakeup :: "Rendez \<Rightarrow> bool \<Rightarrow> Rendez \<times> nat list \<times> int" where
  "rendez_wakeup r all =
     (let (woken, ws, n) = taskwakeup_loop all 0 (rz_waiting r) in (r\<lparr>rz_waiting := ws\<rparr>, woken, n))"

section \<open>The tasks that use a queuing lock\<close>

text \<open>
  \<open>inside\<close>: the tasks whose \<^verbatim>\<open>qlock\<close> has returned and that have not called \<^verbatim>\<open>qunlock\<close> yet; \<open>qready\<close>:
  the tasks that \<^verbatim>\<open>qunlock\<close> has made ready and that have not run since.
\<close>

record qsys =
  qlk :: QLock
  inside :: "nat set"
  qready :: "nat list"

definition q_entered :: "qsys \<Rightarrow> nat \<Rightarrow> QLock \<times> lock_result \<Rightarrow> qsys" where
  "q_entered s t = (\<lambda>(l, r). s\<lparr>qlk := l, inside := (if r = Locked then insert t (inside s) else inside s)\<rparr>)"

inductive q_step :: "qsys \<Rightarrow> qsys \<Rightarrow> bool" where
  lock: "q_step s (q_entered s t (qlock_op (qlk s) t block))"
    if "t \<noteq> 0" and "t \<notin> inside s" and "t \<notin> set (qready s)" and "t \<notin> set (qwaiting (qlk s))"
| resume: "q_step s (s\<lparr>inside := insert t (inside s), qready := remove1 t (qready s)\<rparr>)"
    if "t \<in> set (qready s)" and "qlock_resume (qlk s) t = Some ()"
| unlock: "q_step s (s\<lparr>qlk := l, inside := inside s - {t}, qready := qready s @ woken\<rparr>)"
    if "t \<in> inside s" and "qunlock (qlk s) = Some (l, woken)"

inductive q_reach :: "qsys \<Rightarrow> bool" where
  init: "q_reach \<lparr>qlk = \<lparr>owner = 0, qwaiting = []\<rparr>, inside = {}, qready = []\<rparr>"
| step: "q_reach s'" if "q_reach s" and "q_step s s'"

definition q_ok :: "qsys \<Rightarrow> bool" where
  "q_ok s \<longleftrightarrow> distinct (qwaiting (qlk s)) \<and> 0 \<notin> set (qwaiting (qlk s)) \<and> owner (qlk s) \<notin> set (qwaiting (qlk s)) \<and>
     (if owner (qlk s) = 0 then qwaiting (qlk s) = [] \<and> inside s = {} \<and> qready s = []
      else inside s = {owner (qlk s)} \<and> qready s = [] \<or> inside s = {} \<and> qready s = [owner (qlk s)])"

lemma q_ok_ready:
  assumes "q_ok s" and "t \<in> set (qready s)"
  shows "owner (qlk s) = t \<and> t \<noteq> 0 \<and> inside s = {} \<and> qready s = [t]"
proof (cases "owner (qlk s) = 0")
  case True
  with assms show ?thesis by (simp add: q_ok_def)
next
  case False
  with assms(1) have "qready s = [] \<or> inside s = {} \<and> qready s = [owner (qlk s)]" by (auto simp: q_ok_def)
  with assms(2) False show ?thesis by auto
qed

lemma q_ok_inside:
  assumes "q_ok s" and "t \<in> inside s"
  shows "owner (qlk s) = t \<and> t \<noteq> 0 \<and> inside s = {t} \<and> qready s = []"
proof (cases "owner (qlk s) = 0")
  case True
  with assms show ?thesis by (simp add: q_ok_def)
next
  case False
  with assms(1) have "inside s = {} \<or> inside s = {owner (qlk s)} \<and> qready s = []" by (auto simp: q_ok_def)
  with assms(2) False show ?thesis by auto
qed

lemma q_ok_waiting:
  "q_ok s \<Longrightarrow> distinct (qwaiting (qlk s)) \<and> 0 \<notin> set (qwaiting (qlk s)) \<and> owner (qlk s) \<notin> set (qwaiting (qlk s))"
  by (simp add: q_ok_def)

lemma q_reach_ok: "q_reach s \<Longrightarrow> q_ok s"
proof (induction rule: q_reach.induct)
  case init
  then show ?case by (simp add: q_ok_def)
next
  case (step s s')
  from step(2) show ?case
  proof cases
    case (lock t block)
    with step(3) show ?thesis by (auto simp: q_ok_def q_entered_def qlock_op_def split: if_splits)
  next
    case (resume t)
    from q_ok_ready [OF step(3) resume(2)] q_ok_waiting [OF step(3)] show ?thesis
      by (simp add: resume(1) q_ok_def)
  next
    case (unlock t l woken)
    from q_ok_inside [OF step(3) unlock(2)] q_ok_waiting [OF step(3)] unlock(3) show ?thesis
      by (cases "qwaiting (qlk s)") (auto simp: unlock(1) q_ok_def qunlock_def)
  qed
qed

text \<open>
  C34 (qlock_exclusive) In every reachable state at most one task is inside the lock, and it is the
  owner; the release of the lock by that task does not abort, and neither does a task that has been
  given the lock and runs again.
\<close>

theorem qlock_exclusive:
  assumes "q_reach s"
  shows "(\<forall>t \<in> inside s. inside s = {t} \<and> owner (qlk s) = t \<and> qunlock (qlk s) \<noteq> None) \<and>
         (\<forall>t \<in> set (qready s). inside s = {} \<and> qlock_resume (qlk s) t = Some ())"
proof -
  note ok = q_reach_ok [OF assms]
  show ?thesis
    using q_ok_inside [OF ok] q_ok_ready [OF ok] by (simp add: qunlock_def qlock_resume_def split: list.split)
qed

theorem qlock_exclusive_witness:
  "qunlock (fst (qlock \<lparr>owner = 0, qwaiting = []\<rparr> 7)) \<noteq> None"
proof -
  have "q_reach \<lparr>qlk = \<lparr>owner = 7, qwaiting = []\<rparr>, inside = {7}, qready = []\<rparr>"
    using q_reach.step [OF q_reach.init q_step.lock [of 7 _ True]] by (simp add: q_entered_def qlock_op_def)
  from qlock_exclusive [OF this] show ?thesis by (simp add: qlock_def qlock_op_def)
qed

text \<open>
  A task waits only for a lock that has an owner, and the lock goes to
  the waiting tasks in the order of their calls: \<^verbatim>\<open>qunlock\<close> gives it to the first of them and makes
  exactly this task ready, and it leaves the lock free only if nobody waits.
\<close>

theorem qlock_hands_over_in_order:
  assumes "q_reach s" and "t \<in> inside s"
  shows "\<exists>l woken. qunlock (qlk s) = Some (l, woken) \<and>
           (case qwaiting (qlk s) of
              [] \<Rightarrow> owner l = 0 \<and> woken = []
            | w # ws \<Rightarrow> owner l = w \<and> woken = [w] \<and> qwaiting l = ws \<and> w \<noteq> t \<and> qlock_resume l w = Some ())"
proof -
  note ok = q_reach_ok [OF assms(1)]
  from q_ok_inside [OF ok assms(2)] q_ok_waiting [OF ok] show ?thesis by (cases "qwaiting (qlk s)") (auto simp: qunlock_def qlock_resume_def)
qed

theorem qlock_hands_over_in_order_witness:
  "\<exists>l. qunlock \<lparr>owner = 7, qwaiting = [8]\<rparr> = Some (l, [8]) \<and> owner l = 8"
proof -
  have "q_reach \<lparr>qlk = \<lparr>owner = 7, qwaiting = []\<rparr>, inside = {7}, qready = []\<rparr>"
    using q_reach.step [OF q_reach.init q_step.lock [of 7 _ True]] by (simp add: q_entered_def qlock_op_def)
  from q_reach.step [OF this q_step.lock [of 8 _ True]]
  have r: "q_reach \<lparr>qlk = \<lparr>owner = 7, qwaiting = [8]\<rparr>, inside = {7}, qready = []\<rparr>"
    by (simp add: q_entered_def qlock_op_def)
  from qlock_hands_over_in_order [OF r, of 7] show ?thesis by auto
qed

section \<open>The tasks that use a reader-writer lock\<close>

text \<open>
  A task holds the lock from the moment it is granted, which for a waiting task is when another
  task makes it ready: \<^verbatim>\<open>_rlock\<close> and \<^verbatim>\<open>_wlock\<close> return without a further test.
\<close>

record rwsys =
  rwl :: RWLock
  reading :: "nat set"
  writing :: "nat set"

definition rw_waiters :: "rwsys \<Rightarrow> nat list" where
  "rw_waiters s = rwaiting (rwl s) @ wwaiting (rwl s)"

inductive rw_step :: "rwsys \<Rightarrow> rwsys \<Rightarrow> bool" where
  rlock: "rw_step s (s\<lparr>rwl := l, reading := (if r = Locked then insert t (reading s) else reading s)\<rparr>)"
    if "t \<noteq> 0" and "t \<notin> reading s \<union> writing s \<union> set (rw_waiters s)" and "rlock_op (rwl s) t block = (l, r)"
| wlock: "rw_step s (s\<lparr>rwl := l, writing := (if r = Locked then insert t (writing s) else writing s)\<rparr>)"
    if "t \<noteq> 0" and "t \<notin> reading s \<union> writing s \<union> set (rw_waiters s)" and "wlock_op (rwl s) t block = (l, r)"
| runlock: "rw_step s (s\<lparr>rwl := l, reading := reading s - {t}, writing := writing s \<union> set woken\<rparr>)"
    if "t \<in> reading s" and "runlock (rwl s) = (l, woken)"
| wunlock: "rw_step s (s\<lparr>rwl := l, reading := reading s \<union> (set woken \<inter> set (rwaiting (rwl s))),
      writing := (writing s - {t}) \<union> (set woken \<inter> set (wwaiting (rwl s)))\<rparr>)"
    if "t \<in> writing s" and "wunlock (rwl s) = Some (l, woken)"

inductive rw_reach :: "rwsys \<Rightarrow> bool" where
  init: "rw_reach \<lparr>rwl = \<lparr>readers = 0, writer = 0, rwaiting = [], wwaiting = []\<rparr>, reading = {}, writing = {}\<rparr>"
| step: "rw_reach s'" if "rw_reach s" and "rw_step s s'"

definition rw_ok :: "rwsys \<Rightarrow> bool" where
  "rw_ok s \<longleftrightarrow> finite (reading s) \<and> readers (rwl s) = int (card (reading s)) \<and>
     writing s = (if writer (rwl s) = 0 then {} else {writer (rwl s)}) \<and>
     (writer (rwl s) \<noteq> 0 \<longrightarrow> reading s = {}) \<and>
     distinct (rw_waiters s) \<and> 0 \<notin> set (rw_waiters s) \<and> (reading s \<union> writing s) \<inter> set (rw_waiters s) = {} \<and>
     (rwaiting (rwl s) \<noteq> [] \<longrightarrow> writer (rwl s) \<noteq> 0 \<or> wwaiting (rwl s) \<noteq> []) \<and>
     (wwaiting (rwl s) \<noteq> [] \<longrightarrow> writer (rwl s) \<noteq> 0 \<or> reading s \<noteq> {})"

lemma grant_readers_eq:
  "grant_readers l ts = (l\<lparr>rwaiting := [], readers := readers l + int (length ts)\<rparr>, ts)"
  by (induction ts arbitrary: l) simp_all

lemma rw_step_ok:
  assumes "rw_step s s'" and ok: "rw_ok s"
  shows "rw_ok s'"
  using assms(1)
proof cases
  case (rlock t l r block)
  with ok show ?thesis
    by (cases "writer (rwl s) = 0"; cases "wwaiting (rwl s) = []") (auto simp: rw_ok_def rlock_op_def rw_waiters_def split: if_splits)
next
  case (wlock t l r block)
  with ok show ?thesis
    by (cases "writer (rwl s) = 0"; cases "reading s = {}") (auto simp: rw_ok_def wlock_op_def rw_waiters_def split: if_splits)
next
  case (runlock t l woken)
  from ok runlock(2) have w: "writer (rwl s) = 0" "writing s = {}" "finite (reading s)" "readers (rwl s) = int (card (reading s))"
    by (auto simp: rw_ok_def split: if_splits)
  have r: "readers (rwl s) - 1 = int (card (reading s - {t}))"
    using w(3,4) runlock(2) card_Suc_Diff1 [of "reading s" t] by simp
  show ?thesis
  proof (cases "reading s - {t} = {}")
    case True
    with r have z: "readers (rwl s) - 1 = 0" by (simp only: card.empty)
    show ?thesis
    proof (cases "wwaiting (rwl s)")
      case Nil
      with ok z runlock(3) True w show ?thesis
        by (simp add: runlock(1) rw_ok_def runlock_def grant_writer_def rw_waiters_def) auto
    next
      case (Cons a ws)
      with ok z runlock(3) True w show ?thesis
        by (simp add: runlock(1) rw_ok_def runlock_def grant_writer_def rw_waiters_def) auto
    qed
  next
    case False
    with w(3) have "card (reading s - {t}) \<noteq> 0" by simp
    with r have "readers (rwl s) - 1 \<noteq> 0" by simp
    with ok runlock(3) False w r show ?thesis
      by (simp add: runlock(1) rw_ok_def runlock_def rw_waiters_def) auto
  qed
next
  case (wunlock t l woken)
  from ok wunlock(2) have w: "writer (rwl s) = t" "t \<noteq> 0" "writing s = {t}" "reading s = {}" "readers (rwl s) = 0"
    by (auto simp: rw_ok_def split: if_splits)
  show ?thesis
  proof (cases "rwaiting (rwl s)")
    case Nil
    with ok wunlock(3) w show ?thesis
      by (cases "wwaiting (rwl s)")
        (auto simp: wunlock(1) rw_ok_def wunlock_def grant_readers_eq grant_writer_def rw_waiters_def)
  next
    case (Cons a rs)
    have l: "l = (rwl s)\<lparr>writer := 0, rwaiting := [], readers := int (length (rwaiting (rwl s)))\<rparr>"
      "woken = rwaiting (rwl s)"
      using wunlock(3) w by (auto simp: wunlock_def grant_readers_eq Cons)
    have d: "distinct (rw_waiters s)" "0 \<notin> set (rw_waiters s)" "(reading s \<union> writing s) \<inter> set (rw_waiters s) = {}"
      using ok unfolding rw_ok_def by blast+
    then have "set (rwaiting (rwl s)) \<inter> set (wwaiting (rwl s)) = {}" "distinct (rwaiting (rwl s))"
      "distinct (wwaiting (rwl s))" by (auto simp: rw_waiters_def)
    with d w show ?thesis using Cons distinct_card [of "rwaiting (rwl s)"]
      by (simp add: wunlock(1) l rw_ok_def rw_waiters_def)
  qed
qed

lemma rw_reach_ok: "rw_reach s \<Longrightarrow> rw_ok s"
proof (induction rule: rw_reach.induct)
  case init
  then show ?case by (simp add: rw_ok_def rw_waiters_def)
qed (rule rw_step_ok)

text \<open>
  C35 (rwlock_exclusive) In every reachable state of tasks that use a reader-writer lock, a writer
  excludes every other holder, the count of readers is exact, \<^verbatim>\<open>wunlock\<close> by the writer does not abort,
  and nobody waits for a lock that is free: a waiting task is still to be woken by a holder.
\<close>

theorem rwlock_exclusive:
  assumes "rw_reach s"
  shows "(\<forall>t \<in> writing s. writing s = {t} \<and> reading s = {} \<and> wunlock (rwl s) \<noteq> None) \<and>
         readers (rwl s) = int (card (reading s)) \<and>
         (rwaiting (rwl s) \<noteq> [] \<or> wwaiting (rwl s) \<noteq> [] \<longrightarrow> reading s \<noteq> {} \<or> writing s \<noteq> {})"
proof -
  note ok = rw_reach_ok [OF assms]
  have "writing s = {t} \<and> reading s = {} \<and> wunlock (rwl s) \<noteq> None" if t: "t \<in> writing s" for t
  proof -
    from ok t have "writer (rwl s) = t" "t \<noteq> 0" "writing s = {t}" "reading s = {}" "readers (rwl s) = 0"
      by (auto simp: rw_ok_def split: if_splits)
    then show ?thesis by (simp add: wunlock_def grant_readers_eq grant_writer_def Let_def split: list.split)
  qed
  moreover have "readers (rwl s) = int (card (reading s))"
    "rwaiting (rwl s) \<noteq> [] \<or> wwaiting (rwl s) \<noteq> [] \<longrightarrow> reading s \<noteq> {} \<or> writing s \<noteq> {}"
    using ok by (auto simp: rw_ok_def)
  ultimately show ?thesis by blast
qed

theorem rwlock_exclusive_witness: "wunlock \<lparr>readers = 0, writer = 7, rwaiting = [], wwaiting = []\<rparr> \<noteq> None"
proof -
  have "rw_reach \<lparr>rwl = \<lparr>readers = 0, writer = 7, rwaiting = [], wwaiting = []\<rparr>, reading = {}, writing = {7}\<rparr>"
    using rw_reach.step [OF rw_reach.init rw_step.wlock [of 7 _ True]] by (simp add: wlock_op_def rw_waiters_def)
  from rwlock_exclusive [OF this] show ?thesis by simp
qed

text \<open>
  The release of a write lock grants the lock to all waiting readers
  at once, in the order of their calls, or else to the first waiting writer.
\<close>

theorem wunlock_lets_all_readers_in:
  assumes "writer l \<noteq> 0" and "readers l = 0"
  shows "\<exists>l'. wunlock l = Some (l', if rwaiting l \<noteq> [] then rwaiting l else take 1 (wwaiting l)) \<and>
           readers l' = int (length (rwaiting l)) \<and> rwaiting l' = [] \<and>
           writer l' = (if rwaiting l = [] \<and> wwaiting l \<noteq> [] then hd (wwaiting l) else 0)"
  using assms by (cases "rwaiting l"; cases "wwaiting l") (auto simp: wunlock_def grant_readers_eq grant_writer_def)

theorem wunlock_lets_all_readers_in_witness:
  "\<exists>l'. wunlock \<lparr>readers = 0, writer = 7, rwaiting = [3, 4], wwaiting = [5]\<rparr> = Some (l', [3, 4]) \<and> readers l' = 2"
  using wunlock_lets_all_readers_in [of "\<lparr>readers = 0, writer = 7, rwaiting = [3, 4], wwaiting = [5]\<rparr>"] by auto

section \<open>Sleeping with a lock\<close>

text \<open>
  A task that owns the lock of a \<^verbatim>\<open>Rendez\<close> and sleeps on it gives the lock to
  the next task that waits for it; \<^verbatim>\<open>taskwakeup\<close> wakes the task that has slept longest and
  \<^verbatim>\<open>taskwakeupall\<close> all of them, and a woken task finds itself behind the others that want the lock.
\<close>

theorem rendez_sleep_wake:
  assumes "rlk r = Some l" and "owner l = self" and "self \<noteq> 0"
  shows "\<exists>r' l' woken. tasksleep r self = Some (r', woken) \<and> rlk r' = Some l' \<and> rz_waiting r' = rz_waiting r @ [self] \<and>
           woken = take 1 (qwaiting l) \<and> owner l' = (if qwaiting l = [] then 0 else hd (qwaiting l)) \<and>
           fst (snd (rendez_wakeup r' False)) = take 1 (rz_waiting r @ [self]) \<and>
           rendez_wakeup r' True = (r'\<lparr>rz_waiting := []\<rparr>, rz_waiting r @ [self], int (length (rz_waiting r)) + 1) \<and>
           snd (tasksleep_resume r' self) = (if qwaiting l = [] then Locked else if hd (qwaiting l) = 0 then Locked else Waits)"
  using assms
  by (cases "qwaiting l") (auto simp: tasksleep_def qunlock_def rendez_wakeup_def tasksleep_resume_def qlock_def qlock_op_def
      taskwakeup_loop_all taskwakeup_eq [unfolded taskwakeup_def])

theorem rendez_sleep_wake_witness:
  "\<exists>r'. tasksleep \<lparr>rlk = Some \<lparr>owner = 7, qwaiting = [8]\<rparr>, rz_waiting = [5]\<rparr> 7 = Some (r', [8]) \<and>
     fst (snd (rendez_wakeup r' False)) = [5]"
  using rendez_sleep_wake [of "\<lparr>rlk = Some \<lparr>owner = 7, qwaiting = [8]\<rparr>, rz_waiting = [5]\<rparr>" "\<lparr>owner = 7, qwaiting = [8]\<rparr>" 7]
  by auto

end
