(* ===== verification/Plugin.thy ===== *)
theory Plugin
  imports Prelude
begin

unbundle bit_operations_syntax

text \<open>
  The multipathing plugin \<^verbatim>\<open>vmware_kernel/mpp/mp_plugin_example.c\<close>: its devices, paths and commands,
  and the operations on their counters, flags and queues. The SCSI layer above and below the plugin
  (the \<^verbatim>\<open>vmk_\<close> functions) is not part of the repository. Its status codes, sense keys and command
  codes are kept as names, what it answers is an argument, and what the plugin tells it is recorded
  in the state: the path states, the completed commands, the requested probes. Logging and the
  accounting of CPU time are left out. A wake-up of a waiting world is left out as well, since every
  world that waits tests its condition again; a section under a spin lock runs without interruption.
\<close>

section \<open>Codes of the SCSI layer\<close>

datatype host_status = HOST_OK | HOST_NO_CONNECT | HOST_BUS_BUSY | HOST_RESET | HOST_ABORT | HOST_TIMEOUT |
  HOST_ERROR | HOST_RETRY | HOST_OTHER nat

datatype plugin_status = PLUGIN_GOOD | PLUGIN_RESERVATION_LOST | PLUGIN_REQUEUE | PLUGIN_OTHER nat

datatype device_status = DEVICE_GOOD | DEVICE_CHECK | DEVICE_RESV_CONFLICT | DEVICE_OTHER nat

record scsi_status =
  st_device :: device_status
  st_host :: host_status
  st_plugin :: plugin_status

datatype sense_key = KEY_UNIT_ATTENTION | KEY_NOT_READY | KEY_ILLEGAL_REQUEST | KEY_HARDWARE_ERROR | KEY_OTHER nat

datatype asc = ASC_MEDIUM_MAY_HAVE_CHANGED | ASC_CHANGED | ASC_MEDIUM_NOT_PRESENT | ASC_INVALID_COMMAND_OPERATION |
  ASC_INVALID_FIELD_IN_CDB | ASC_LU_NOT_SUPPORTED | ASC_LU_NOT_CONFIGURED | ASC_LU_NOT_READY |
  ASC_FAILED_SELF_CONFIG | ASC_LU_ERROR | ASC_OTHER nat

datatype ascq = ASCQ_ZERO | ASCQ_REPORTED_LUNS_DATA_CHANGED | ASCQ_MANUAL_INTERVENTION_REQUIRED |
  ASCQ_FAILED_SELF_TEST | ASCQ_LU_FAILURE | ASCQ_OTHER nat

text \<open>
  What \<^verbatim>\<open>vmk_ScsiCmdGetSenseData\<close> and \<^verbatim>\<open>vmk_ScsiExtractSenseData\<close> give for a command: the first or
  the second call may fail.
\<close>

datatype sense = NoSense | UnreadableSense | Sense sense_key asc ascq

datatype VMK_ReturnStatus = VMK_OK | VMK_TIMEOUT | VMK_NO_CONNECT | VMK_NO_MEMORY | VMK_BUSY | VMK_FAILURE |
  VMK_BAD_PARAM | VMK_NO_RESOURCES | VMK_NOT_FOUND | VMK_OTHER nat

datatype scsi_op = READ6 | READ10 | READ12 | READ16 | WRITE6 | WRITE10 | WRITE12 | WRITE16 |
  RESERVE_UNIT | RELEASE_UNIT | OP_OTHER nat

datatype path_state = PATH_ON | PATH_STANDBY | PATH_DEAD | PATH_OFF | PATH_OTHER nat

datatype device_state = DEV_ON | DEV_APD | DEV_PERM_LOSS | DEV_OTHER nat

section \<open>Commands, paths and devices\<close>

text \<open>
  \<^verbatim>\<open>vmk_ScsiCommand\<close>, as far as the plugin uses it; \<open>c_id\<close> identifies it, \<open>c_por\<close> is what
  \<^verbatim>\<open>vmk_ScsiCmdSenseIsPOR\<close> says of its sense data, \<open>c_lba\<close> and \<open>c_lbc\<close> are what \<^verbatim>\<open>vmk_ScsiGetLbaLbc\<close>
  finds in the command block.
\<close>

record scsi_cmd =
  c_id :: nat
  c_op :: scsi_op
  c_resv_sensitive :: bool
  c_probe_for_support :: bool
  isReadCdb :: bool
  isWriteCdb :: bool
  c_lba :: u64
  c_lbc :: u32
  c_status :: scsi_status
  c_sense :: sense
  c_por :: bool
  bytesXferred :: u64

text \<open>The answers of the SCSI layer to questions about a status.\<close>

record scsi_api =
  is_successful :: "scsi_status \<Rightarrow> bool"
  is_check :: "scsi_status \<Rightarrow> bool"
  is_resv_conflict :: "scsi_status \<Rightarrow> bool"

text \<open>
  The plugin's record for a command. \<open>x_direct\<close> tells whether the command was sent to a path directly:
  then its completion function is \<^verbatim>\<open>ExampleCompletePathCommandDirect\<close> and the pointer to the device
  is null (0); otherwise it is \<^verbatim>\<open>Example_CompletePathCommand\<close>.
\<close>

record ExampleCommand =
  x_dev :: nat
  x_path :: nat
  x_direct :: bool
  x_cmd :: scsi_cmd

record ExamplePath =
  p_state :: path_state
  p_dev :: nat
  p_isPDL :: bool
  p_activeCmdCount :: u32
  p_refCount :: u32

definition EXAMPLE_DEVICE_REGISTERED :: u32 where "EXAMPLE_DEVICE_REGISTERED = 0x1"
definition EXAMPLE_DEVICE_REMOVING :: u32 where "EXAMPLE_DEVICE_REMOVING = 0x2"
definition EXAMPLE_DEVICE_NEEDS_UPDATE :: u32 where "EXAMPLE_DEVICE_NEEDS_UPDATE = 0x4"
definition EXAMPLE_DEVICE_RESERVED :: u32 where "EXAMPLE_DEVICE_RESERVED = 0x8"
definition EXAMPLE_DEVICE_RESERVING :: u32 where "EXAMPLE_DEVICE_RESERVING = 0x10"

text \<open>
  A device. \<open>d_paths\<close> has \<^verbatim>\<open>EXAMPLE_MAX_PATHS_PER_DEVICE\<close> slots, with 0 for a null pointer; \<open>resvGen\<close>
  counts the calls of \<^verbatim>\<open>vmk_ScsiIncReserveGeneration\<close>, \<open>d_state\<close> is the state that the SCSI layer has
  been told, \<open>d_device\<close> says whether the device of the SCSI layer exists, and \<open>psa_queue\<close> is its queue
  of commands for the device.
\<close>

record ExampleDevice =
  d_flags :: u32
  busyCount :: u32
  blocked :: u64
  inProbe :: bool
  openCount :: u32
  numPaths :: u32
  activePathIndex :: u32
  d_paths :: "nat list"
  activeCmdCount :: u32
  pendingReserves :: u32
  resPath :: nat
  startTimer :: bool
  resvSensitiveCmdQueue :: "nat list"
  resvSensitiveAbtQueue :: "nat list"
  resvUpdateInProgress :: bool
  resvGen :: nat
  d_state :: device_state
  d_uid :: nat
  d_index :: nat
  d_device :: bool
  psa_queue :: "scsi_cmd list"

definition EXAMPLE_MAX_PATHS_PER_DEVICE :: nat where "EXAMPLE_MAX_PATHS_PER_DEVICE = 16"

text \<open>
  The state of the plugin: its structs, the array of devices, the queue of commands to be retried, the
  work that is scheduled on the sending thread pool, and the traffic with the SCSI layer and the cache
  box: the commands that have been handed to them (\<open>issued\<close>) or whose completion has been scheduled,
  the commands that have been taken from the layer above (\<open>accepted\<close>) and given back to it
  (\<open>completed\<close>), and the devices for which a fast probe has been requested.
\<close>

record plugin =
  devs :: "nat \<rightharpoonup> ExampleDevice"
  pths :: "nat \<rightharpoonup> ExamplePath"
  cmds :: "nat \<rightharpoonup> ExampleCommand"
  retryQueue :: "nat list"
  works :: "nat list"
  issued :: "nat set"
  scheduled :: "nat set"
  createdDevices :: "nat list"
  accepted :: "scsi_cmd list"
  completed :: "scsi_cmd list"
  fast_probes :: "nat list"

definition on_dev :: "plugin \<Rightarrow> nat \<Rightarrow> (ExampleDevice \<Rightarrow> ExampleDevice) \<Rightarrow> plugin option" where
  "on_dev s d f = do { m \<leftarrow> store (devs s) d f; Some (s\<lparr>devs := m\<rparr>) }"

definition on_path :: "plugin \<Rightarrow> nat \<Rightarrow> (ExamplePath \<Rightarrow> ExamplePath) \<Rightarrow> plugin option" where
  "on_path s p f = do { m \<leftarrow> store (pths s) p f; Some (s\<lparr>pths := m\<rparr>) }"

definition on_cmd :: "plugin \<Rightarrow> nat \<Rightarrow> (ExampleCommand \<Rightarrow> ExampleCommand) \<Rightarrow> plugin option" where
  "on_cmd s x f = do { m \<leftarrow> store (cmds s) x f; Some (s\<lparr>cmds := m\<rparr>) }"

section \<open>Reservations\<close>

definition ExampleUpdateDevOnRes :: "plugin \<Rightarrow> nat \<Rightarrow> nat \<Rightarrow> plugin option" where
  "ExampleUpdateDevOnRes s d p = do {
     s \<leftarrow> on_dev s d (\<lambda>D. D\<lparr>d_flags := d_flags D AND NOT EXAMPLE_DEVICE_RESERVING\<rparr>);
     s \<leftarrow> on_dev s d (\<lambda>D. D\<lparr>d_flags := d_flags D OR EXAMPLE_DEVICE_RESERVED\<rparr>);
     D \<leftarrow> devs s d;
     c_assert (pendingReserves D > 0);
     on_dev s d (\<lambda>D. D\<lparr>pendingReserves := pendingReserves D - 1, resPath := p\<rparr>)
   }"

definition has_flag :: "ExampleDevice \<Rightarrow> u32 \<Rightarrow> bool" where
  "has_flag D f \<longleftrightarrow> d_flags D AND f \<noteq> 0"

definition ExampleUpdateDevOnRel :: "plugin \<Rightarrow> nat \<Rightarrow> bool \<Rightarrow> plugin option" where
  "ExampleUpdateDevOnRel s d incResvCount = do {
     s \<leftarrow> (if incResvCount then on_dev s d (\<lambda>D. D\<lparr>resvGen := resvGen D + 1\<rparr>) else Some s);
     D \<leftarrow> devs s d;
     if has_flag D EXAMPLE_DEVICE_RESERVED then
       on_dev s d (\<lambda>D. D\<lparr>d_flags := d_flags D AND NOT EXAMPLE_DEVICE_RESERVED, resPath := NULL\<rparr>)
     else Some s
   }"

section \<open>Reference counts, busy counts and the block count\<close>

definition ExamplePathIncRefCount :: "plugin \<Rightarrow> nat \<Rightarrow> plugin option" where
  "ExamplePathIncRefCount s p = on_path s p (\<lambda>P. P\<lparr>p_refCount := p_refCount P + 1\<rparr>)"

definition ExamplePathDecRefCount :: "plugin \<Rightarrow> nat \<Rightarrow> plugin option" where
  "ExamplePathDecRefCount s p = do {
     P \<leftarrow> pths s p;
     c_assert (p_refCount P > 0);
     on_path s p (\<lambda>P. P\<lparr>p_refCount := p_refCount P - 1\<rparr>)
   }"

definition ExampleDeviceIncBusyCount :: "plugin \<Rightarrow> nat \<Rightarrow> plugin option" where
  "ExampleDeviceIncBusyCount s d = on_dev s d (\<lambda>D. D\<lparr>busyCount := busyCount D + 1\<rparr>)"

definition ExampleDeviceDecBusyCount :: "plugin \<Rightarrow> nat \<Rightarrow> plugin option" where
  "ExampleDeviceDecBusyCount s d = do {
     D \<leftarrow> devs s d;
     c_assert (busyCount D > 0);
     on_dev s d (\<lambda>D. D\<lparr>busyCount := busyCount D - 1\<rparr>)
   }"

text \<open>The timer is scheduled unless it is already; scheduling it does not fail.\<close>

definition ExampleDeviceSchedStart :: "plugin \<Rightarrow> nat \<Rightarrow> plugin option" where
  "ExampleDeviceSchedStart s d = do {
     D \<leftarrow> devs s d;
     if \<not> startTimer D then do {
       s \<leftarrow> ExampleDeviceIncBusyCount s d;
       on_dev s d (\<lambda>D. D\<lparr>startTimer := True\<rparr>)
     } else Some s
   }"

definition ExampleDevice_IsBlocked :: "ExampleDevice \<Rightarrow> bool" where
  "ExampleDevice_IsBlocked D \<longleftrightarrow> blocked D > 0"

definition ExampleDevice_Block :: "plugin \<Rightarrow> nat \<Rightarrow> plugin option" where
  "ExampleDevice_Block s d = on_dev s d (\<lambda>D. D\<lparr>blocked := blocked D + 1\<rparr>)"

definition ExampleDevice_Unblock :: "plugin \<Rightarrow> nat \<Rightarrow> plugin option" where
  "ExampleDevice_Unblock s d = do {
     D \<leftarrow> devs s d;
     c_assert (ExampleDevice_IsBlocked D);
     s \<leftarrow> on_dev s d (\<lambda>D. D\<lparr>blocked := blocked D - 1\<rparr>);
     if blocked D = 1 then ExampleDeviceSchedStart s d else Some s
   }"

section \<open>The queues of commands\<close>

definition ExampleDequeueCommand :: "nat list \<Rightarrow> (nat \<times> nat list) option" where
  "ExampleDequeueCommand queue = (case queue of [] \<Rightarrow> None | x # xs \<Rightarrow> Some (x, xs))"

text \<open>\<open>links\<close> of a command: whether it is on one of the three lists a command can be on.\<close>

definition unlinked :: "plugin \<Rightarrow> nat \<Rightarrow> bool" where
  "unlinked s x \<longleftrightarrow> x \<notin> set (retryQueue s) \<and>
     (case cmds s x of None \<Rightarrow> True
      | Some X \<Rightarrow> (case devs s (x_dev X) of None \<Rightarrow> True
          | Some D \<Rightarrow> x \<notin> set (resvSensitiveCmdQueue D) \<and> x \<notin> set (resvSensitiveAbtQueue D)))"

definition ExampleFreeExCommand :: "plugin \<Rightarrow> nat \<Rightarrow> plugin option" where
  "ExampleFreeExCommand s x = do {
     X \<leftarrow> cmds s x;
     c_assert (unlinked s x);
     Some (s\<lparr>cmds := (cmds s)(x := None)\<rparr>)
   }"

definition ExampleQueueCmdToRetry :: "plugin \<Rightarrow> nat \<Rightarrow> plugin option" where
  "ExampleQueueCmdToRetry s x = do {
     X \<leftarrow> cmds s x;
     c_assert (unlinked s x);
     c_assert (\<not> c_resv_sensitive (x_cmd X));
     s \<leftarrow> ExampleDevice_Block s (x_dev X);
     Some (s\<lparr>retryQueue := retryQueue s @ [x]\<rparr>)
   }"

section \<open>What a failed command means\<close>

definition ExampleShouldLogFailure :: "scsi_api \<Rightarrow> bool \<Rightarrow> scsi_cmd \<Rightarrow> bool" where
  "ExampleShouldLogFailure api doLog cmd =
     (if \<not> doLog then False
      else if is_resv_conflict api (c_status cmd) then False
      else if is_check api (c_status cmd) then
        (case c_sense cmd of
           NoSense \<Rightarrow> False
         | UnreadableSense \<Rightarrow> False
         | Sense key a q \<Rightarrow>
             if key = KEY_NOT_READY \<and> a = ASC_MEDIUM_NOT_PRESENT then False
             else if c_probe_for_support cmd \<and> (key = KEY_ILLEGAL_REQUEST \<and>
                (a = ASC_INVALID_COMMAND_OPERATION \<or> a = ASC_INVALID_FIELD_IN_CDB)) then False
             else True)
      else True)"

definition Example_PathPossibleDeviceChange :: "scsi_api \<Rightarrow> scsi_cmd \<Rightarrow> bool" where
  "Example_PathPossibleDeviceChange api cmd =
     (if \<not> is_check api (c_status cmd) then False
      else case c_sense cmd of
        NoSense \<Rightarrow> False
      | UnreadableSense \<Rightarrow> False
      | Sense key a q \<Rightarrow> key = KEY_UNIT_ATTENTION \<and>
          (a = ASC_MEDIUM_MAY_HAVE_CHANGED \<or> a = ASC_CHANGED \<and> q = ASCQ_REPORTED_LUNS_DATA_CHANGED))"

datatype failure_action = ACTION_NOP | ACTION_FAILOVER | ACTION_EVAL

text \<open>The switch on the host status.\<close>

definition host_action :: "scsi_api \<Rightarrow> scsi_cmd \<Rightarrow> failure_action" where
  "host_action api cmd =
     (case st_host (c_status cmd) of
        HOST_OK \<Rightarrow> if Example_PathPossibleDeviceChange api cmd then ACTION_EVAL else ACTION_NOP
      | HOST_NO_CONNECT \<Rightarrow> ACTION_FAILOVER
      | HOST_BUS_BUSY \<Rightarrow> ACTION_EVAL
      | HOST_RESET \<Rightarrow> ACTION_EVAL
      | HOST_ABORT \<Rightarrow> ACTION_EVAL
      | HOST_TIMEOUT \<Rightarrow> ACTION_EVAL
      | HOST_ERROR \<Rightarrow> ACTION_EVAL
      | _ \<Rightarrow> ACTION_NOP)"

definition Example_PathDetermineFailure :: "scsi_api \<Rightarrow> plugin \<Rightarrow> nat \<Rightarrow> (plugin \<times> failure_action) option" where
  "Example_PathDetermineFailure api s x = do {
     X \<leftarrow> cmds s x;
     let action = host_action api (x_cmd X);
     if action = ACTION_FAILOVER \<and> c_resv_sensitive (x_cmd X) then do {
       s \<leftarrow> (if st_host (c_status (x_cmd X)) = HOST_NO_CONNECT
             then on_path s (x_path X) (\<lambda>P. P\<lparr>p_state := PATH_DEAD\<rparr>) else Some s);
       s \<leftarrow> on_cmd s x (\<lambda>X. X\<lparr>x_cmd := (x_cmd X)\<lparr>c_status := (c_status (x_cmd X))\<lparr>st_plugin := PLUGIN_RESERVATION_LOST\<rparr>\<rparr>\<rparr>);
       Some (s, ACTION_EVAL)
     } else Some (s, action)
   }"

section \<open>Which path to use\<close>

text \<open>
  The loop of \<^verbatim>\<open>ExampleGetFailoverPathIndex\<close>: \<open>st p\<close> is the state of the path \<open>p\<close>; the loop counter
  and the index are \<^verbatim>\<open>vmk_uint32\<close>. An access outside the array has no value.
\<close>

definition nth_opt :: "'a list \<Rightarrow> nat \<Rightarrow> 'a option" where
  "nth_opt xs i = (if i < length xs then Some (xs ! i) else None)"

partial_function (option) failover_loop ::
  "(nat \<Rightarrow> path_state) \<Rightarrow> nat list \<Rightarrow> u32 \<Rightarrow> u32 \<Rightarrow> u32 \<Rightarrow> u32 option" where
  "failover_loop st ps originalIndex i newIndex =
     (if i = originalIndex then Some (if newIndex < 16 then newIndex else i)
      else do {
        p \<leftarrow> nth_opt ps (unat i);
        if p = NULL then failover_loop st ps originalIndex ((i + 1) mod 16) newIndex
        else if st p = PATH_ON then Some i
        else failover_loop st ps originalIndex ((i + 1) mod 16) (if newIndex = 16 then i else newIndex)
      })"

declare failover_loop.simps [code]

definition ExampleGetFailoverPathIndex :: "(nat \<Rightarrow> path_state) \<Rightarrow> ExampleDevice \<Rightarrow> u32 option" where
  "ExampleGetFailoverPathIndex st D =
     failover_loop st (d_paths D) (activePathIndex D) ((activePathIndex D + 1) mod 16) 16"


end
