(* ===== verification/Plugin_Paths.thy ===== *)
theory Plugin_Paths
  imports Plugin
begin

text \<open>
  The paths of a device: which one to fail over to, what is claimed and unclaimed, and how the states
  of the paths determine the state of the device.
\<close>

section \<open>The path to fail over to\<close>

definition path_ok :: "ExampleDevice \<Rightarrow> bool" where
  "path_ok D \<longleftrightarrow> length (d_paths D) = 16 \<and> unat (activePathIndex D) < 16"

text \<open>The other slots in the order in which the loop visits them.\<close>

definition others :: "ExampleDevice \<Rightarrow> nat list" where
  "others D = map (\<lambda>j. (unat (activePathIndex D) + j) mod 16) [1..<16]"

text \<open>
  What the loop is meant to find: the first other path that is on, else the first other path, else
  the active path itself.
\<close>

definition failover_spec :: "(nat \<Rightarrow> path_state) \<Rightarrow> ExampleDevice \<Rightarrow> nat" where
  "failover_spec st D =
     (case find (\<lambda>i. d_paths D ! i \<noteq> NULL \<and> st (d_paths D ! i) = PATH_ON) (others D) of
        Some i \<Rightarrow> i
      | None \<Rightarrow> (case find (\<lambda>i. d_paths D ! i \<noteq> NULL) (others D) of
            Some i \<Rightarrow> i | None \<Rightarrow> unat (activePathIndex D)))"

primrec scan :: "(nat \<Rightarrow> path_state) \<Rightarrow> nat list \<Rightarrow> nat \<Rightarrow> nat list \<Rightarrow> nat \<Rightarrow> nat" where
  "scan st ps orig [] new = (if new < 16 then new else orig)"
| "scan st ps orig (i # is) new =
     (if ps ! i = NULL then scan st ps orig is new
      else if st (ps ! i) = PATH_ON then i
      else scan st ps orig is (if new = 16 then i else new))"

lemma next_index: "unat (i :: u32) < 16 \<Longrightarrow> unat ((i + 1) mod 16) = (unat i + 1) mod 16"
proof -
  assume "unat i < 16"
  then have "unat (i + 1) = unat i + 1" by (simp add: unat_word_ariths)
  then show ?thesis by (simp add: unat_mod)
qed

lemma add_mod_same: "(a + b) mod 16 = a mod (16::nat) \<Longrightarrow> b mod 16 = 0"
  using mod_eq_dvd_iff_nat [of a "a + b" 16] by (simp add: dvd_eq_mod_eq_0)

lemma failover_loop_scan:
  assumes len: "length ps = 16" and o: "unat orig < 16"
  shows "k \<le> 15 \<Longrightarrow> unat i = (unat orig + (16 - k)) mod 16 \<Longrightarrow>
    \<exists>w. failover_loop st ps orig i new = Some w \<and>
        unat w = scan st ps (unat orig) (map (\<lambda>j. (unat orig + j) mod 16) [16 - k..<16]) (unat new)"
proof (induction k arbitrary: i new)
  case 0
  then have "unat i = unat orig" using o by simp
  then have "i = orig" by (simp add: word_unat_eq_iff)
  then show ?case by (subst failover_loop.simps) (simp add: word_less_nat_alt)
next
  case (Suc k)
  let ?j = "16 - Suc k"
  have j: "1 \<le> ?j" "?j \<le> 15" using Suc.prems(1) by auto
  have ne: "i \<noteq> orig"
  proof
    assume "i = orig"
    with Suc.prems(2) have "(unat orig + ?j) mod 16 = unat orig mod 16" using o by simp
    from add_mod_same [OF this] have "?j mod 16 = 0" .
    with j show False by simp
  qed
  have i: "unat i < 16" using Suc.prems(2) by simp
  have sj: "Suc ?j = 16 - k" using j by linarith
  have upt: "[?j..<16] = ?j # [16 - k..<16]" using j unfolding sj [symmetric] by (intro upt_conv_Cons) linarith
  have nx: "unat ((i + 1) mod 16) = (unat orig + (16 - k)) mod 16"
  proof -
    have "unat orig + (16 - k) = (unat orig + ?j) + 1" using sj by linarith
    then show ?thesis unfolding next_index [OF i] Suc.prems(2) by (simp only: mod_add_left_eq)
  qed
  have k: "k \<le> 15" using Suc.prems(1) by simp
  let ?p = "ps ! unat i"
  have new: "unat (if new = 16 then i else new) = (if unat new = 16 then unat i else unat new)"
    by (auto simp: word_unat_eq_iff)
  have step: "failover_loop st ps orig i new =
      (if ?p = NULL then failover_loop st ps orig ((i + 1) mod 16) new
       else if st ?p = PATH_ON then Some i
       else failover_loop st ps orig ((i + 1) mod 16) (if new = 16 then i else new))"
    using ne i len by (subst failover_loop.simps) (simp add: nth_opt_def)
  have hd: "(unat orig + ?j) mod 16 = unat i" using Suc.prems(2) by (rule sym)
  show ?case
    unfolding step upt list.map scan.simps hd
    using Suc.IH [OF k nx, of new] Suc.IH [OF k nx, of "if new = 16 then i else new", unfolded new] by simp
qed

lemma scan_find:
  "\<forall>i \<in> set is. i < 16 \<Longrightarrow> new \<le> 16 \<Longrightarrow>
   scan st ps orig is new =
     (case find (\<lambda>i. ps ! i \<noteq> NULL \<and> st (ps ! i) = PATH_ON) is of
        Some i \<Rightarrow> i
      | None \<Rightarrow> if new < 16 then new
                else (case find (\<lambda>i. ps ! i \<noteq> NULL) is of Some i \<Rightarrow> i | None \<Rightarrow> orig))"
  by (induction "is" arbitrary: new) (auto split: option.split)

lemma failover_path_finds:
  assumes "path_ok D"
  shows "\<exists>i. ExampleGetFailoverPathIndex st D = Some i \<and> unat i = failover_spec st D"
proof -
  from assms have o: "length (d_paths D) = 16" "unat (activePathIndex D) < 16" by (auto simp: path_ok_def)
  have nx: "unat ((activePathIndex D + 1) mod 16) = (unat (activePathIndex D) + (16 - 15)) mod 16"
    using next_index [OF o(2)] by simp
  have l: "\<forall>i \<in> set (others D). i < 16" by (auto simp: others_def)
  from failover_loop_scan [OF o, of 15 _ st 16, OF _ nx] show ?thesis
    using scan_find [OF l, of 16 st "d_paths D" "unat (activePathIndex D)"]
    by (auto simp: ExampleGetFailoverPathIndex_def failover_spec_def others_def split: option.splits)
qed

text \<open>
  C36 (failover_path_correct) \<^verbatim>\<open>ExampleGetFailoverPathIndex\<close> returns for every state of the paths, and
  what it returns is the first slot behind the active one with a path that is on, else the first
  one with any path, else the active slot.
\<close>

theorem failover_path_correct:
  assumes "path_ok D"
  shows "\<exists>i. ExampleGetFailoverPathIndex st D = Some i \<and> unat i = failover_spec st D"
  by (rule failover_path_finds [OF assms])

text \<open>A device with two paths, for the examples.\<close>

definition sample_device :: ExampleDevice where
  "sample_device = \<lparr>d_flags = 1, busyCount = 0, blocked = 0, inProbe = False, openCount = 1, numPaths = 2,
     activePathIndex = 0, d_paths = [11, 0, 0, 12] @ replicate 12 0, activeCmdCount = 0, pendingReserves = 0,
     resPath = 0, startTimer = False, resvSensitiveCmdQueue = [], resvSensitiveAbtQueue = [],
     resvUpdateInProgress = False, resvGen = 0, d_state = DEV_ON, d_uid = 7, d_index = 0, d_device = True,
     psa_queue = []\<rparr>"

definition sample_path :: "path_state \<Rightarrow> ExamplePath" where
  "sample_path st = \<lparr>p_state = st, p_dev = 1, p_isPDL = False, p_activeCmdCount = 0, p_refCount = 0\<rparr>"

lemma failover_path_correct_witness:
  "path_ok sample_device \<and> map_option unat (ExampleGetFailoverPathIndex (\<lambda>p. PATH_ON) sample_device) = Some 3"
proof -
  have "path_ok sample_device" by (simp add: path_ok_def sample_device_def)
  moreover have "failover_spec (\<lambda>p. PATH_ON) sample_device = 3" by code_simp
  ultimately show ?thesis using failover_path_correct [of sample_device "\<lambda>p. PATH_ON"] by auto
qed

lemma find_upt_mem: "find P xs = Some x \<Longrightarrow> x \<in> set xs \<and> P x"
  by (induction xs) (auto split: if_splits)

text \<open>The slot that is found holds a path if the active one does.\<close>

lemma failover_path_present:
  assumes "path_ok D" and "d_paths D ! unat (activePathIndex D) \<noteq> NULL"
    and "ExampleGetFailoverPathIndex st D = Some i"
  shows "unat i < 16 \<and> d_paths D ! unat i \<noteq> NULL"
proof -
  from failover_path_finds [OF assms(1), of st] assms(3) have "unat i = failover_spec st D" by auto
  moreover have "failover_spec st D < 16 \<and> d_paths D ! failover_spec st D \<noteq> NULL"
    using assms(1,2) find_upt_mem [of _ "others D"]
    by (auto simp: failover_spec_def path_ok_def others_def split: option.split dest!: find_upt_mem)
  ultimately show ?thesis by simp
qed


section \<open>Working paths\<close>

definition path_state_of :: "plugin \<Rightarrow> nat \<Rightarrow> path_state" where
  "path_state_of s p = (case pths s p of Some P \<Rightarrow> p_state P | None \<Rightarrow> PATH_OTHER 0)"

definition set_path_state :: "plugin \<Rightarrow> nat \<Rightarrow> path_state \<Rightarrow> plugin option" where
  "set_path_state s p ps = on_path s p (\<lambda>P. P\<lparr>p_state := ps\<rparr>)"

text \<open>The second part of the result is \<^verbatim>\<open>*lastPath\<close>.\<close>

definition ExampleHasMoreWorkingPaths :: "plugin \<Rightarrow> nat \<Rightarrow> bool \<Rightarrow> (bool \<times> bool) option" where
  "ExampleHasMoreWorkingPaths s path activeOnly = do {
     P \<leftarrow> pths s path;
     D \<leftarrow> devs s (p_dev P);
     if numPaths D = 1 then Some (False, True)
     else if list_ex (\<lambda>q. q \<noteq> NULL \<and> path \<noteq> q \<and> path_state_of s q = PATH_ON) (d_paths D) then Some (True, False)
     else if \<not> activeOnly \<and> list_ex (\<lambda>q. q \<noteq> NULL \<and> path \<noteq> q \<and> path_state_of s q = PATH_STANDBY) (d_paths D)
     then Some (True, False)
     else Some (False, False)
   }"

section \<open>The state of a device\<close>

text \<open>The loop returns at once (\<open>Inl\<close>), or ends with the values of \<open>isPDL\<close> and \<open>isAPD\<close>.\<close>

primrec update_state_loop ::
  "plugin \<Rightarrow> device_state \<Rightarrow> nat list \<Rightarrow> bool \<Rightarrow> bool \<Rightarrow> (device_state + bool \<times> bool) option" where
  "update_state_loop s cur [] isPDL isAPD = Some (Inr (isPDL, isAPD))"
| "update_state_loop s cur (q # qs) isPDL isAPD =
     (if q = NULL then update_state_loop s cur qs isPDL isAPD
      else do {
        P \<leftarrow> pths s q;
        let isAPD = (if p_state P \<noteq> PATH_DEAD then False else isAPD);
        if (cur = DEV_PERM_LOSS \<or> cur = DEV_APD) \<and> p_state P = PATH_ON then Some (Inl DEV_ON)
        else update_state_loop s cur qs (if \<not> p_isPDL P then False else isPDL) isAPD
      })"

text \<open>The new state, if it has changed; \<open>d_state\<close> is what \<^verbatim>\<open>vmk_ScsiGetDeviceState\<close> returns.\<close>

definition ExampleDeviceUpdateState :: "plugin \<Rightarrow> nat \<Rightarrow> device_state option option" where
  "ExampleDeviceUpdateState s d = do {
     D \<leftarrow> devs s d;
     r \<leftarrow> update_state_loop s (d_state D) (d_paths D) True True;
     Some (case r of
             Inl st \<Rightarrow> Some st
           | Inr (isPDL, isAPD) \<Rightarrow>
               if isPDL \<and> d_state D \<noteq> DEV_PERM_LOSS then Some DEV_PERM_LOSS
               else if \<not> isPDL \<and> isAPD \<and> d_state D \<noteq> DEV_APD then Some DEV_APD
               else None)
   }"

definition real_paths :: "plugin \<Rightarrow> nat list \<Rightarrow> ExamplePath list" where
  "real_paths s ps = map (\<lambda>q. the (pths s q)) (filter (\<lambda>q. q \<noteq> NULL) ps)"

text \<open>
  What the state of a device should be: usable if some path is on, lost for good if all its paths
  report that, out of reach if all its paths are dead; in the other cases it stays as it is.
\<close>

definition state_spec :: "device_state \<Rightarrow> ExamplePath list \<Rightarrow> device_state" where
  "state_spec cur Ps =
     (if (cur = DEV_PERM_LOSS \<or> cur = DEV_APD) \<and> (\<exists>P \<in> set Ps. p_state P = PATH_ON) then DEV_ON
      else if \<forall>P \<in> set Ps. p_isPDL P then DEV_PERM_LOSS
      else if \<forall>P \<in> set Ps. p_state P = PATH_DEAD then DEV_APD
      else cur)"

lemma update_state_loop_eq:
  "\<forall>q \<in> set ps. q \<noteq> NULL \<longrightarrow> pths s q \<noteq> None \<Longrightarrow>
   update_state_loop s cur ps pdl apd =
     Some (if (cur = DEV_PERM_LOSS \<or> cur = DEV_APD) \<and> (\<exists>P \<in> set (real_paths s ps). p_state P = PATH_ON) then Inl DEV_ON
           else Inr (pdl \<and> (\<forall>P \<in> set (real_paths s ps). p_isPDL P), apd \<and> (\<forall>P \<in> set (real_paths s ps). p_state P = PATH_DEAD)))"
  by (induction ps arbitrary: pdl apd) (auto simp: real_paths_def Let_def)

text \<open>
  \<^verbatim>\<open>ExampleDeviceUpdateState\<close> reports a state exactly when the paths call for
  another state than the present one, and then reports that state.
\<close>

theorem device_state_correct:
  assumes "devs s d = Some D" and "\<forall>q \<in> set (d_paths D). q \<noteq> NULL \<longrightarrow> pths s q \<noteq> None"
  shows "ExampleDeviceUpdateState s d =
     Some (let new = state_spec (d_state D) (real_paths s (d_paths D)) in if new = d_state D then None else Some new)"
  using assms(1) update_state_loop_eq [OF assms(2), of "d_state D" True True]
  by (auto simp: ExampleDeviceUpdateState_def state_spec_def Let_def)

definition sample_plugin :: "path_state \<Rightarrow> plugin" where
  "sample_plugin st = \<lparr>devs = [1 \<mapsto> sample_device], pths = [11 \<mapsto> sample_path st, 12 \<mapsto> sample_path PATH_DEAD],
     cmds = Map.empty, retryQueue = [], works = [], issued = {}, scheduled = {}, createdDevices = [1],
     accepted = [], completed = [], fast_probes = []\<rparr>"

lemma device_state_correct_witness: "ExampleDeviceUpdateState (sample_plugin PATH_DEAD) 1 = Some (Some DEV_APD)"
proof -
  let ?s = "sample_plugin PATH_DEAD"
  have d: "devs ?s 1 = Some sample_device" by (simp add: sample_plugin_def)
  have "\<forall>q \<in> set (d_paths sample_device). q \<noteq> NULL \<longrightarrow> pths ?s q \<noteq> None"
    by (simp add: sample_device_def sample_plugin_def)
  from device_state_correct [OF d this] show ?thesis
    by (simp add: state_spec_def real_paths_def sample_device_def sample_path_def sample_plugin_def)
qed

section \<open>Opening and closing a device\<close>

text \<open>The device 0 is a null pointer.\<close>

definition ExampleDeviceOpen :: "plugin \<Rightarrow> nat \<Rightarrow> (plugin \<times> VMK_ReturnStatus) option" where
  "ExampleDeviceOpen s d =
     (if d = NULL then Some (s, VMK_NOT_FOUND)
      else do {
        D \<leftarrow> devs s d;
        if has_flag D EXAMPLE_DEVICE_REMOVING then Some (s, VMK_BUSY)
        else do {
          s \<leftarrow> on_dev s d (\<lambda>D. D\<lparr>openCount := openCount D + 1\<rparr>);
          Some (s, VMK_OK)
        }
      })"

definition ExampleDeviceClose :: "plugin \<Rightarrow> nat \<Rightarrow> plugin option" where
  "ExampleDeviceClose s d = do {
     D \<leftarrow> devs s d;
     c_assert (openCount D > 0);
     on_dev s d (\<lambda>D. D\<lparr>openCount := openCount D - 1\<rparr>)
   }"

end
