(* ===== verification/Plugin_Io.thy ===== *)
theory Plugin_Io
  imports Plugin_Paths
begin

text \<open>
  The way of a command through the plugin: from the queue of its device to a path or to the cache box,
  back as completed or failed, onto the retry queue and from there to another path. The operations
  take what the environment answers as arguments: \<open>al s\<close> is the address that the heap gives for a new
  \<^verbatim>\<open>ExampleCommand\<close> in state \<open>s\<close> (0 when there is no memory), and a status is the result of handing
  a command to the layer below.
\<close>

section \<open>Starting the commands of a device\<close>

text \<open>
  \<^verbatim>\<open>ExampleDeviceStartCommand\<close>. A command that is taken from the queue of the device gets an
  \<^verbatim>\<open>ExampleCommand\<close> and is scheduled as work for the sending threads. If the queue is empty, the new
  \<^verbatim>\<open>ExampleCommand\<close> is freed again.
\<close>

partial_function (option) ExampleDeviceStartCommand ::
  "(plugin \<Rightarrow> nat) \<Rightarrow> plugin \<Rightarrow> nat \<Rightarrow> plugin option" where
  "ExampleDeviceStartCommand al s d = do {
     D \<leftarrow> devs s d;
     if ExampleDevice_IsBlocked D then Some s
     else if al s = NULL then ExampleDeviceSchedStart s d
     else (case psa_queue D of
         [] \<Rightarrow> Some s
       | cmd # rest \<Rightarrow> do {
           let x = al s;
           s \<leftarrow> on_dev s d (\<lambda>D. D\<lparr>psa_queue := rest\<rparr>);
           c_assert (\<not> has_flag D EXAMPLE_DEVICE_REMOVING);
           ExampleDeviceStartCommand al
             (s\<lparr>cmds := (cmds s)(x \<mapsto> \<lparr>x_dev = d, x_path = NULL, x_direct = False, x_cmd = cmd\<rparr>),
                works := works s @ [x], accepted := accepted s @ [cmd]\<rparr>) d
         })
   }"

declare ExampleDeviceStartCommand.simps [code]

definition ExampleDeviceStartFromTimer :: "(plugin \<Rightarrow> nat) \<Rightarrow> plugin \<Rightarrow> nat \<Rightarrow> plugin option" where
  "ExampleDeviceStartFromTimer al s d = do {
     s \<leftarrow> on_dev s d (\<lambda>D. D\<lparr>startTimer := False\<rparr>);
     s \<leftarrow> ExampleDeviceStartCommand al s d;
     ExampleDeviceDecBusyCount s d
   }"

section \<open>Completing a command\<close>

definition ExampleCompleteDeviceCommand ::
  "scsi_api \<Rightarrow> (plugin \<Rightarrow> nat) \<Rightarrow> plugin \<Rightarrow> nat \<Rightarrow> plugin option" where
  "ExampleCompleteDeviceCommand api al s x = do {
     X \<leftarrow> cmds s x;
     let d = x_dev X;
     let cmd = x_cmd X;
     s \<leftarrow> (if is_check api (c_status cmd) \<and> c_sense cmd \<noteq> NoSense \<and> c_por cmd
           then ExampleUpdateDevOnRel s d True else Some s);
     s \<leftarrow> on_dev s d (\<lambda>D. D\<lparr>activeCmdCount := activeCmdCount D - 1\<rparr>);
     s \<leftarrow> (if c_resv_sensitive cmd
           then on_dev s d (\<lambda>D. D\<lparr>resvSensitiveCmdQueue := removeAll x (resvSensitiveCmdQueue D),
                                  resvSensitiveAbtQueue := removeAll x (resvSensitiveAbtQueue D)\<rparr>)
           else Some s);
     s \<leftarrow> ExampleFreeExCommand s x;
     ExampleDeviceStartCommand al (s\<lparr>completed := completed s @ [cmd]\<rparr>) d
   }"

text \<open>Both completion functions end with giving up the path.\<close>

definition deref_path :: "plugin \<Rightarrow> nat \<Rightarrow> plugin option" where
  "deref_path s p = do {
     s \<leftarrow> on_path s p (\<lambda>P. P\<lparr>p_activeCmdCount := p_activeCmdCount P - 1\<rparr>);
     ExamplePathDecRefCount s p
   }"

text \<open>The update of the reservation when a command has succeeded.\<close>

definition resv_done :: "plugin \<Rightarrow> nat \<Rightarrow> nat \<Rightarrow> scsi_op \<Rightarrow> plugin option" where
  "resv_done s d p op =
     (if op = RESERVE_UNIT then ExampleUpdateDevOnRes s d p
      else if op = RELEASE_UNIT then ExampleUpdateDevOnRel s d False
      else Some s)"

definition Example_CompletePathCommand ::
  "scsi_api \<Rightarrow> (plugin \<Rightarrow> nat) \<Rightarrow> plugin \<Rightarrow> nat \<Rightarrow> plugin option" where
  "Example_CompletePathCommand api al s x = do {
     X \<leftarrow> cmds s x;
     let p = x_path X;
     let d = x_dev X;
     P \<leftarrow> pths s p;
     if is_successful api (c_status (x_cmd X)) then do {
       s \<leftarrow> (if p_state P = PATH_DEAD then set_path_state s p PATH_ON else Some s);
       s \<leftarrow> resv_done s d p (c_op (x_cmd X));
       s \<leftarrow> ExampleCompleteDeviceCommand api al s x;
       deref_path s p
     } else do {
       (s, action) \<leftarrow> Example_PathDetermineFailure api s x;
       if action = ACTION_FAILOVER then do {
         s \<leftarrow> (if st_host (c_status (x_cmd X)) = HOST_NO_CONNECT then set_path_state s p PATH_DEAD else Some s);
         s \<leftarrow> ExampleQueueCmdToRetry s x;
         deref_path s p
       } else do {
         let s = (if action = ACTION_EVAL then s\<lparr>fast_probes := fast_probes s @ [d]\<rparr> else s);
         s \<leftarrow> ExampleCompleteDeviceCommand api al s x;
         deref_path s p
       }
     }
   }"

definition ExampleCompletePathCommandDirect :: "scsi_api \<Rightarrow> plugin \<Rightarrow> nat \<Rightarrow> plugin option" where
  "ExampleCompletePathCommandDirect api s x = do {
     X \<leftarrow> cmds s x;
     let p = x_path X;
     let cmd = x_cmd X;
     P \<leftarrow> pths s p;
     s \<leftarrow> (if is_check api (c_status cmd) \<and> c_sense cmd \<noteq> NoSense \<and> c_sense cmd \<noteq> UnreadableSense \<and> c_por cmd
           then ExampleUpdateDevOnRel s (p_dev P) True else Some s);
     s \<leftarrow> ExampleFreeExCommand s x;
     s \<leftarrow> deref_path s p;
     Some (s\<lparr>completed := completed s @ [cmd]\<rparr>)
   }"

section \<open>Requests to the cache box\<close>

definition SECTOR_SHIFT :: nat where "SECTOR_SHIFT = 9"

definition SECTOR_TO_BYTES :: "'a :: len word \<Rightarrow> 'a word" where
  "SECTOR_TO_BYTES sectors = push_bit SECTOR_SHIFT sectors"

datatype cb_request = READ_REQ u64 u64 | WRITE_REQ u64 u64

text \<open>The shift of the 32-bit number of blocks is done in 32 bits, and then widened.\<close>

definition read_cmd :: "scsi_cmd \<Rightarrow> cb_request" where
  "read_cmd cmd = READ_REQ (SECTOR_TO_BYTES (c_lba cmd)) (ucast (SECTOR_TO_BYTES (c_lbc cmd)))"

definition write_cmd :: "scsi_cmd \<Rightarrow> cb_request" where
  "write_cmd cmd = WRITE_REQ (SECTOR_TO_BYTES (c_lba cmd)) (ucast (SECTOR_TO_BYTES (c_lbc cmd)))"

text \<open>Without a read or a write the variable that is returned is not set: there is no value.\<close>

definition cachebox_rw_cmd :: "scsi_cmd \<Rightarrow> cb_request option" where
  "cachebox_rw_cmd cmd =
     (if isReadCdb cmd then Some (read_cmd cmd) else if isWriteCdb cmd then Some (write_cmd cmd) else None)"

definition should_cb_handle :: "scsi_cmd \<Rightarrow> bool" where
  "should_cb_handle cmd =
     (if c_op cmd \<notin> {READ6, READ10, READ12, READ16, WRITE6, WRITE10, WRITE12, WRITE16} then False
      else if c_resv_sensitive cmd then False
      else isReadCdb cmd \<or> isWriteCdb cmd)"

definition set_cmd_complete :: "scsi_cmd \<Rightarrow> u64 \<Rightarrow> scsi_cmd" where
  "set_cmd_complete cmd len =
     cmd\<lparr>c_status := \<lparr>st_device = DEVICE_GOOD, st_host = HOST_OK, st_plugin = PLUGIN_GOOD\<rparr>, bytesXferred := len\<rparr>"

text \<open>
  The replies of the cache box. \<open>len\<close> is the length in the request and \<open>payloadlen\<close> the one in the
  reply; the buffers of the command have room for \<open>sg\<close> bytes. The command that is given to its
  completion function is the result.
\<close>

definition resp_read_cmd :: "scsi_cmd \<Rightarrow> u64 \<Rightarrow> u64 \<Rightarrow> u64 \<Rightarrow> scsi_cmd option" where
  "resp_read_cmd cmd len payloadlen sg = do {
     c_assert (sg = payloadlen);
     c_assert (len = payloadlen);
     Some (set_cmd_complete cmd len)
   }"

definition resp_write_cmd :: "scsi_cmd \<Rightarrow> u64 \<Rightarrow> u64 \<Rightarrow> scsi_cmd option" where
  "resp_write_cmd cmd len payloadlen = do {
     c_assert (payloadlen = 0);
     Some (set_cmd_complete cmd len)
   }"

section \<open>Issuing a command\<close>

definition ExampleIssueFail :: "plugin \<Rightarrow> nat \<Rightarrow> VMK_ReturnStatus \<Rightarrow> plugin option" where
  "ExampleIssueFail s x status = do {
     c_assert (status \<noteq> VMK_OK);
     s \<leftarrow> on_cmd s x (\<lambda>X. X\<lparr>x_cmd := (x_cmd X)\<lparr>c_status :=
            (case status of
               VMK_TIMEOUT \<Rightarrow> (c_status (x_cmd X))\<lparr>st_host := HOST_TIMEOUT\<rparr>
             | VMK_NO_CONNECT \<Rightarrow> (c_status (x_cmd X))\<lparr>st_host := HOST_NO_CONNECT\<rparr>
             | _ \<Rightarrow> (c_status (x_cmd X))\<lparr>st_plugin := PLUGIN_REQUEUE\<rparr>)\<rparr>\<rparr>);
     Some (s\<lparr>scheduled := insert x (scheduled s)\<rparr>)
   }"

text \<open>Handing a command to the layer below, which answers with \<open>status\<close>.\<close>

definition hand_over :: "plugin \<Rightarrow> nat \<Rightarrow> VMK_ReturnStatus \<Rightarrow> plugin option" where
  "hand_over s x status =
     (if status = VMK_OK then Some (s\<lparr>issued := insert x (issued s)\<rparr>) else ExampleIssueFail s x status)"

text \<open>The path of the device that is in use.\<close>

definition active_path :: "ExampleDevice \<Rightarrow> nat option" where
  "active_path D = nth_opt (d_paths D) (unat (activePathIndex D))"

definition hold_path :: "plugin \<Rightarrow> nat \<Rightarrow> plugin option" where
  "hold_path s p = do {
     s \<leftarrow> on_path s p (\<lambda>P. P\<lparr>p_activeCmdCount := p_activeCmdCount P + 1\<rparr>);
     ExamplePathIncRefCount s p
   }"

definition note_reserve :: "plugin \<Rightarrow> nat \<Rightarrow> nat \<Rightarrow> scsi_cmd \<Rightarrow> plugin option" where
  "note_reserve s d p cmd =
     (if c_op cmd = RESERVE_UNIT then
        on_dev s d (\<lambda>D. if \<not> has_flag D EXAMPLE_DEVICE_RESERVED
          then D\<lparr>pendingReserves := pendingReserves D + 1, d_flags := d_flags D OR EXAMPLE_DEVICE_RESERVING, resPath := p\<rparr>
          else D\<lparr>pendingReserves := pendingReserves D + 1\<rparr>)
      else Some s)"

definition ExampleIssueCommand ::
  "scsi_api \<Rightarrow> (plugin \<Rightarrow> nat) \<Rightarrow> plugin \<Rightarrow> nat \<Rightarrow> VMK_ReturnStatus \<Rightarrow> plugin option" where
  "ExampleIssueCommand api al s x status = do {
     X \<leftarrow> cmds s x;
     let d = x_dev X;
     let cmd = x_cmd X;
     D \<leftarrow> devs s d;
     c_assert (unlinked s x);
     c_assert (openCount D > 0);
     s \<leftarrow> on_dev s d (\<lambda>D. D\<lparr>activeCmdCount := activeCmdCount D + 1\<rparr>);
     if c_resv_sensitive cmd \<and> resvUpdateInProgress D then do {
       s \<leftarrow> on_dev s d (\<lambda>D. D\<lparr>resvSensitiveAbtQueue := resvSensitiveAbtQueue D @ [x]\<rparr>);
       s \<leftarrow> on_cmd s x (\<lambda>X. X\<lparr>x_cmd := (x_cmd X)\<lparr>c_status :=
              (c_status (x_cmd X))\<lparr>st_host := HOST_RETRY, st_plugin := PLUGIN_RESERVATION_LOST\<rparr>\<rparr>\<rparr>);
       ExampleCompleteDeviceCommand api al s x
     } else do {
       s \<leftarrow> (if c_resv_sensitive cmd
             then on_dev s d (\<lambda>D. D\<lparr>resvSensitiveCmdQueue := resvSensitiveCmdQueue D @ [x]\<rparr>) else Some s);
       p \<leftarrow> active_path D;
       s \<leftarrow> on_cmd s x (\<lambda>X. X\<lparr>x_path := p\<rparr>);
       s \<leftarrow> note_reserve s d p cmd;
       s \<leftarrow> hold_path s p;
       hand_over s x status
     }
   }"

text \<open>A sending thread runs \<^verbatim>\<open>issue_cmd\<close> on the work that it has taken from the queue.\<close>

definition issue_cmd ::
  "scsi_api \<Rightarrow> (plugin \<Rightarrow> nat) \<Rightarrow> plugin \<Rightarrow> nat \<Rightarrow> VMK_ReturnStatus \<Rightarrow> plugin option" where
  "issue_cmd api al s x status = ExampleIssueCommand api al (s\<lparr>works := removeAll x (works s)\<rparr>) x status"

text \<open>A command that is sent to a path directly; \<open>VMK_OK\<close> is returned even when it could not be sent.\<close>

definition ExamplePathIssueCommandDirect ::
  "(plugin \<Rightarrow> nat) \<Rightarrow> plugin \<Rightarrow> nat \<Rightarrow> scsi_cmd \<Rightarrow> VMK_ReturnStatus \<Rightarrow> (plugin \<times> VMK_ReturnStatus) option" where
  "ExamplePathIssueCommandDirect al s p cmd status = do {
     c_assert (c_op cmd \<noteq> RESERVE_UNIT);
     c_assert (c_op cmd \<noteq> RELEASE_UNIT);
     let x = al s;
     if x = NULL then Some (s, VMK_NO_MEMORY)
     else do {
       let s = s\<lparr>cmds := (cmds s)(x \<mapsto> \<lparr>x_dev = NULL, x_path = p, x_direct = True, x_cmd = cmd\<rparr>),
                 accepted := accepted s @ [cmd]\<rparr>;
       s \<leftarrow> hold_path s p;
       s \<leftarrow> hand_over s x status;
       Some (s, VMK_OK)
     }
   }"

section \<open>Retrying\<close>

definition ExampleRetryCmd :: "plugin \<Rightarrow> nat \<Rightarrow> VMK_ReturnStatus \<Rightarrow> plugin option" where
  "ExampleRetryCmd s x status = do {
     X \<leftarrow> cmds s x;
     D \<leftarrow> devs s (x_dev X);
     c_assert (\<not> c_resv_sensitive (x_cmd X));
     c_assert (unlinked s x);
     c_assert (ExampleDevice_IsBlocked D);
     c_assert (openCount D > 0);
     p \<leftarrow> active_path D;
     s \<leftarrow> on_cmd s x (\<lambda>X. X\<lparr>x_path := p\<rparr>);
     s \<leftarrow> hold_path s p;
     hand_over s x status
   }"

text \<open>
  \<^verbatim>\<open>ExampleDevice_AttemptFailover\<close> up to the update of the reservation: the new path, on which the
  caller holds a reference, unless there is only one path.
\<close>

definition ExampleDevice_AttemptFailover :: "plugin \<Rightarrow> nat \<Rightarrow> (plugin \<times> nat option) option" where
  "ExampleDevice_AttemptFailover s d = do {
     D \<leftarrow> devs s d;
     c_assert (ExampleDevice_IsBlocked D);
     c_assert (openCount D > 0);
     if numPaths D = 1 then Some (s, None)
     else do {
       i \<leftarrow> ExampleGetFailoverPathIndex (path_state_of s) D;
       s \<leftarrow> on_dev s d (\<lambda>D. D\<lparr>activePathIndex := i\<rparr>);
       p \<leftarrow> nth_opt (d_paths D) (unat i);
       s \<leftarrow> ExamplePathIncRefCount s p;
       Some (s, Some p)
     }
   }"

text \<open>
  \<^verbatim>\<open>ExampleUpdateResvOnFailover\<close>: whether a reservation must be cleared (then the reservation
  sensitive commands are aborted first), and what is done after these have been aborted; \<open>status\<close> is
  the answer to the reset of the logical unit.
\<close>

definition resv_must_clear :: "ExampleDevice \<Rightarrow> nat \<Rightarrow> bool" where
  "resv_must_clear D p \<longleftrightarrow>
     (has_flag D EXAMPLE_DEVICE_RESERVED \<or> has_flag D EXAMPLE_DEVICE_RESERVING) \<and> resPath D \<noteq> p"

definition resv_reset :: "plugin \<Rightarrow> nat \<Rightarrow> VMK_ReturnStatus \<Rightarrow> plugin option" where
  "resv_reset s d status = do {
     s \<leftarrow> on_dev s d (\<lambda>D. D\<lparr>resvGen := resvGen D + 1\<rparr>);
     if status = VMK_OK then ExampleUpdateDevOnRel s d False else Some s
   }"

text \<open>
  One section of \<^verbatim>\<open>ExampleAbortAllRSIOs\<close> under the lock of the device: the next command is marked as
  being aborted, or all have been marked. Then the loop ends if none is left, and otherwise it starts
  again. \<open>split\<close> stands for \<^verbatim>\<open>vmk_ListSplitAfter\<close> at the first element of the list.
\<close>

definition ExampleAbortAllRSIOs ::
  "(nat list \<Rightarrow> nat list \<times> nat list) \<Rightarrow> plugin \<Rightarrow> nat \<Rightarrow> (plugin \<times> bool) option" where
  "ExampleAbortAllRSIOs split s d = do {
     D \<leftarrow> devs s d;
     c_assert (ExampleDevice_IsBlocked D);
     s \<leftarrow> on_dev s d (\<lambda>D. D\<lparr>resvUpdateInProgress := True\<rparr>);
     case resvSensitiveCmdQueue D of
       x # xs \<Rightarrow> do {
         X \<leftarrow> cmds s x;
         c_assert (c_resv_sensitive (x_cmd X));
         s \<leftarrow> on_dev s d (\<lambda>D. D\<lparr>resvSensitiveCmdQueue := xs, resvSensitiveAbtQueue := resvSensitiveAbtQueue D @ [x]\<rparr>);
         Some (s, False)
       }
     | [] \<Rightarrow>
         if resvSensitiveAbtQueue D = [] then do {
           s \<leftarrow> on_dev s d (\<lambda>D. D\<lparr>resvUpdateInProgress := False\<rparr>);
           Some (s, True)
         } else do {
           let (rest, moved) = split (resvSensitiveAbtQueue D);
           s \<leftarrow> on_dev s d (\<lambda>D. D\<lparr>resvSensitiveAbtQueue := rest, resvSensitiveCmdQueue := moved\<rparr>);
           Some (s, False)
         }
   }"

section \<open>Task management\<close>

text \<open>
  The first loop of \<^verbatim>\<open>ExampleDeviceTaskManagement\<close> goes through the retry queue of all devices;
  \<open>query\<close> is the answer of \<^verbatim>\<open>vmk_ScsiQueryTaskMgmt\<close>. It returns the commands to be aborted.
\<close>

primrec tm_collect :: "(scsi_cmd \<Rightarrow> bool) \<Rightarrow> nat list \<Rightarrow> plugin \<Rightarrow> nat \<Rightarrow> nat list \<Rightarrow> (plugin \<times> nat list) option" where
  "tm_collect query [] s d abortQueue = Some (s, abortQueue)"
| "tm_collect query (x # xs) s d abortQueue = do {
     X \<leftarrow> cmds s x;
     if query (x_cmd X) then do {
       s \<leftarrow> ExampleDevice_Unblock (s\<lparr>retryQueue := removeAll x (retryQueue s)\<rparr>) d;
       tm_collect query xs s d (abortQueue @ [x])
     } else tm_collect query xs s d abortQueue
   }"

primrec tm_abort :: "scsi_api \<Rightarrow> (plugin \<Rightarrow> nat) \<Rightarrow> scsi_status \<Rightarrow> nat list \<Rightarrow> plugin \<Rightarrow> plugin option" where
  "tm_abort api al st [] s = Some s"
| "tm_abort api al st (x # xs) s = do {
     s \<leftarrow> on_cmd s x (\<lambda>X. X\<lparr>x_cmd := (x_cmd X)\<lparr>c_status := st\<rparr>\<rparr>);
     s \<leftarrow> ExampleCompleteDeviceCommand api al s x;
     tm_abort api al st xs s
   }"

text \<open>
  The last loop sends the request to the paths with commands under way and to the active one; \<open>answer p\<close>
  is the status that comes back, \<open>reset\<close> tells whether the request is a reset.
\<close>

primrec tm_paths ::
  "bool \<Rightarrow> (nat \<Rightarrow> VMK_ReturnStatus) \<Rightarrow> nat list \<Rightarrow> plugin \<Rightarrow> nat \<Rightarrow> VMK_ReturnStatus \<Rightarrow>
   (plugin \<times> VMK_ReturnStatus) option" where
  "tm_paths reset answer [] s d agg = Some (s, agg)"
| "tm_paths reset answer (i # is) s d agg = do {
     D \<leftarrow> devs s d;
     p \<leftarrow> nth_opt (d_paths D) i;
     if p = NULL then tm_paths reset answer is s d agg
     else do {
       P \<leftarrow> pths s p;
       s \<leftarrow> ExamplePathIncRefCount s p;
       if p_activeCmdCount P \<noteq> 0 \<or> i = unat (activePathIndex D) then do {
         let individual = answer p;
         s \<leftarrow> (if reset \<and> individual = VMK_OK then ExampleUpdateDevOnRel s d False else Some s);
         s \<leftarrow> ExamplePathDecRefCount s p;
         tm_paths reset answer is s d (if agg = VMK_OK \<and> individual \<noteq> VMK_OK then individual else agg)
       } else do {
         s \<leftarrow> ExamplePathDecRefCount s p;
         tm_paths reset answer is s d agg
       }
     }
   }"

definition ExampleDeviceTaskManagement ::
  "scsi_api \<Rightarrow> (plugin \<Rightarrow> nat) \<Rightarrow> (scsi_cmd \<Rightarrow> bool) \<Rightarrow> scsi_status \<Rightarrow> bool \<Rightarrow> (nat \<Rightarrow> VMK_ReturnStatus) \<Rightarrow>
   plugin \<Rightarrow> nat \<Rightarrow> (plugin \<times> VMK_ReturnStatus) option" where
  "ExampleDeviceTaskManagement api al query st reset answer s d = do {
     (s, abortQueue) \<leftarrow> tm_collect query (retryQueue s) s d [];
     s \<leftarrow> tm_abort api al st abortQueue s;
     D \<leftarrow> devs s d;
     c_assert (openCount D > 0);
     tm_paths reset answer [0..<EXAMPLE_MAX_PATHS_PER_DEVICE] s d VMK_OK
   }"

end
