(* ===== verification/Plugin_Inv.thy ===== *)
theory Plugin_Inv
  imports Plugin_Io "HOL-Library.Multiset"
begin

text \<open>
  What holds between the operations of the plugin: every command is at one place, and the counters of
  devices and paths say how many commands there are. An operation may be in the middle of its work;
  what it has in hand is described by a ghost state.
\<close>

section \<open>Counting\<close>

definition num :: "nat set \<Rightarrow> (nat \<Rightarrow> bool) \<Rightarrow> nat" where
  "num A Q = card {x \<in> A. Q x}"

lemma num_empty [simp]: "num {} Q = 0"
  by (simp add: num_def)

lemma num_insert: "finite A \<Longrightarrow> x \<notin> A \<Longrightarrow> num (insert x A) Q = num A Q + (if Q x then 1 else 0)"
proof -
  assume f: "finite A" "x \<notin> A"
  have "{y \<in> insert x A. Q y} = (if Q x then insert x {y \<in> A. Q y} else {y \<in> A. Q y})" by auto
  with f show ?thesis by (simp add: num_def)
qed

lemma num_remove: "finite A \<Longrightarrow> x \<in> A \<Longrightarrow> num A Q = num (A - {x}) Q + (if Q x then 1 else 0)"
  using num_insert [of "A - {x}" x Q] by (simp add: insert_absorb)

lemma num_cong: "A = B \<Longrightarrow> (\<And>x. x \<in> B \<Longrightarrow> Q x = Q' x) \<Longrightarrow> num A Q = num B Q'"
  unfolding num_def by (rule arg_cong [where f = card]) auto

lemma num_le_card: "finite A \<Longrightarrow> num A Q \<le> card A"
  unfolding num_def by (rule card_mono) auto

lemma num_pos: "finite A \<Longrightarrow> x \<in> A \<Longrightarrow> Q x \<Longrightarrow> 0 < num A Q"
  by (simp add: num_remove)

lemma num_Un: "finite A \<Longrightarrow> finite B \<Longrightarrow> A \<inter> B = {} \<Longrightarrow> num (A \<union> B) Q = num A Q + num B Q"
proof -
  assume f: "finite A" "finite B" "A \<inter> B = {}"
  have "{x \<in> A \<union> B. Q x} = {x \<in> A. Q x} \<union> {x \<in> B. Q x}" by auto
  with f show ?thesis unfolding num_def by (simp add: card_Un_disjoint disjoint_iff)
qed

section \<open>The invariant\<close>

text \<open>
  What is fixed while a command is in the plugin: whether it was sent to a path directly, its device,
  whether it is reservation sensitive, its operation, and its identity.
\<close>

type_synonym sig = "bool \<times> nat \<times> bool \<times> scsi_op \<times> nat"

definition sig_of :: "ExampleCommand \<Rightarrow> sig" where
  "sig_of X = (x_direct X, x_dev X, c_resv_sensitive (x_cmd X), c_op (x_cmd X), c_id (x_cmd X))"

definition sigs :: "plugin \<Rightarrow> nat \<rightharpoonup> sig" where
  "sigs s x = map_option sig_of (cmds s x)"

definition of_dev :: "(nat \<rightharpoonup> sig) \<Rightarrow> nat \<Rightarrow> nat \<Rightarrow> bool" where
  "of_dev K d x \<longleftrightarrow> (case K x of Some (dir, e, sens, op, i) \<Rightarrow> \<not> dir \<and> e = d | None \<Rightarrow> False)"

definition sensitive :: "(nat \<rightharpoonup> sig) \<Rightarrow> nat \<Rightarrow> bool" where
  "sensitive K x \<longleftrightarrow> (case K x of Some (dir, e, sens, op, i) \<Rightarrow> sens | None \<Rightarrow> False)"

definition reserves :: "(nat \<rightharpoonup> sig) \<Rightarrow> nat \<Rightarrow> nat \<Rightarrow> bool" where
  "reserves K d x \<longleftrightarrow> (case K x of Some (dir, e, sens, op, i) \<Rightarrow> \<not> dir \<and> e = d \<and> op = RESERVE_UNIT | None \<Rightarrow> False)"

definition id_of :: "(nat \<rightharpoonup> sig) \<Rightarrow> nat \<Rightarrow> nat" where
  "id_of K x = (case K x of Some (dir, e, sens, op, i) \<Rightarrow> i | None \<Rightarrow> 0)"

text \<open>The path that a command has been sent to, and the device of a path.\<close>

definition path_of :: "plugin \<Rightarrow> nat \<Rightarrow> nat" where
  "path_of s x = (case cmds s x of Some X \<Rightarrow> x_path X | None \<Rightarrow> NULL)"

definition path_dev :: "plugin \<Rightarrow> nat \<rightharpoonup> nat" where
  "path_dev s p = map_option p_dev (pths s p)"

definition flying :: "plugin \<Rightarrow> nat set" where
  "flying s = issued s \<union> scheduled s"

text \<open>
  The ghost state: the commands that the retry world holds, the commands that an operation is about to
  pass on (\<open>limbo\<close>), and what is counted for these and other reasons: the references to paths and the
  commands that use them, the blocks and the busy counts of devices, the reservations that are being completed. \<open>g_resv\<close> is the
  number of \<^verbatim>\<open>RESERVE\<close> commands so far, and \<open>g_open\<close> tells which devices are kept open for other reasons
  than their commands.
\<close>

record ghost =
  g_held :: "nat set"
  g_limbo :: "nat set"
  g_pin :: "nat \<Rightarrow> nat"
  g_act :: "nat \<Rightarrow> nat"
  g_blk :: "nat \<Rightarrow> nat"
  g_busy :: "nat \<Rightarrow> nat"
  g_credit :: "nat \<Rightarrow> nat"
  g_resv :: nat
  g_open :: "nat \<Rightarrow> bool"

text \<open>Every command is at one place.\<close>

definition places :: "ghost \<Rightarrow> plugin \<Rightarrow> bool" where
  "places G s \<longleftrightarrow>
     distinct (works s) \<and> distinct (retryQueue s) \<and>
     finite (issued s) \<and> finite (scheduled s) \<and> finite (g_held G) \<and> finite (g_limbo G) \<and>
     set (works s) \<inter> set (retryQueue s) = {} \<and>
     flying s \<inter> (set (works s) \<union> set (retryQueue s)) = {} \<and> issued s \<inter> scheduled s = {} \<and>
     g_held G \<inter> (set (works s) \<union> set (retryQueue s) \<union> flying s) = {} \<and>
     g_limbo G \<inter> (set (works s) \<union> set (retryQueue s) \<union> flying s \<union> g_held G) = {} \<and>
     dom (cmds s) = set (works s) \<union> set (retryQueue s) \<union> flying s \<union> g_held G \<union> g_limbo G"

definition heap_ok :: "plugin \<Rightarrow> bool" where
  "heap_ok s \<longleftrightarrow> finite (dom (cmds s)) \<and> NULL \<notin> dom (cmds s) \<and> card (dom (cmds s)) \<le> 2 ^ 31"

definition kinds :: "ghost \<Rightarrow> plugin \<Rightarrow> bool" where
  "kinds G s \<longleftrightarrow>
     (\<forall>x \<in> set (works s). \<exists>d. of_dev (sigs s) d x) \<and>
     (\<forall>x \<in> set (retryQueue s) \<union> g_held G. \<not> sensitive (sigs s) x \<and> (\<exists>d. of_dev (sigs s) d x)) \<and>
     (\<forall>x d. of_dev (sigs s) d x \<longrightarrow> d \<in> dom (devs s)) \<and>
     (\<forall>x \<in> flying s. path_of s x \<in> dom (pths s)) \<and>
     (\<forall>p. 0 < g_pin G p \<longrightarrow> p \<in> dom (pths s)) \<and>
     (\<forall>p d. path_dev s p = Some d \<longrightarrow> d \<in> dom (devs s)) \<and>
     (\<forall>d. g_open G d \<longrightarrow> d \<in> dom (devs s)) \<and>
     (\<forall>d. g_blk G d \<le> 2 \<and> g_busy G d \<le> 2)"

text \<open>
  How the members of a device fit the numbers of its commands that wait for a retry, that are in the
  plugin and have been issued, the other numbers of the ghost state, and the set of its reservation
  sensitive commands. The sets of a device's commands: \<open>W\<close> is scheduled work, \<open>R\<close> waits for a retry, \<open>F\<close> is on its way and \<open>H\<close> is
  held by the retry world; \<open>L\<close> is in limbo.
\<close>

definition fits :: "nat \<Rightarrow> nat \<Rightarrow> nat \<Rightarrow> nat \<Rightarrow> nat \<Rightarrow> nat set \<Rightarrow> nat \<Rightarrow> nat \<Rightarrow> bool \<Rightarrow> (nat \<rightharpoonup> nat) \<Rightarrow> nat \<Rightarrow> ExampleDevice \<Rightarrow> bool" where
  "fits retry active busy resv limit sens credit work any Pd d D \<longleftrightarrow>
     unat (blocked D) = retry \<and>
     unat (activeCmdCount D) = active \<and>
     unat (busyCount D) = (if startTimer D then 1 else 0) + busy \<and>
     distinct (resvSensitiveCmdQueue D @ resvSensitiveAbtQueue D) \<and>
     set (resvSensitiveCmdQueue D @ resvSensitiveAbtQueue D) = sens \<and>
     resv + credit \<le> unat (pendingReserves D) \<and>
     unat (pendingReserves D) + work + length (filter (\<lambda>c. c_op c = RESERVE_UNIT) (psa_queue D)) \<le> limit \<and>
     (any \<or> psa_queue D \<noteq> [] \<longrightarrow> 0 < openCount D \<and> \<not> has_flag D EXAMPLE_DEVICE_REMOVING) \<and>
     path_ok D \<and> d_paths D ! unat (activePathIndex D) \<noteq> NULL \<and>
     (\<forall>q \<in> set (d_paths D). q \<noteq> NULL \<longrightarrow> Pd q = Some d)"

definition dev_ok :: "ghost \<Rightarrow> (nat \<rightharpoonup> sig) \<Rightarrow> (nat \<rightharpoonup> nat) \<Rightarrow> nat set \<Rightarrow> nat set \<Rightarrow> nat set \<Rightarrow> nat \<Rightarrow> ExampleDevice \<Rightarrow> bool" where
  "dev_ok G K Pd W R F d D \<longleftrightarrow>
     fits (num R (of_dev K d) + g_blk G d) (num (F \<union> R \<union> g_held G \<union> g_limbo G) (of_dev K d)) (g_busy G d)
       (num (F \<union> R \<union> g_held G) (reserves K d)) (g_resv G)
       {x \<in> F \<union> g_limbo G. of_dev K d x \<and> sensitive K x} (g_credit G d) (num W (reserves K d)) ((\<exists>x. of_dev K d x) \<or> g_open G d) Pd d D"

definition path_counts :: "ghost \<Rightarrow> (nat \<Rightarrow> nat) \<Rightarrow> nat set \<Rightarrow> nat \<Rightarrow> ExamplePath \<Rightarrow> bool" where
  "path_counts G Pa F p P \<longleftrightarrow>
     unat (p_refCount P) = num F (\<lambda>x. Pa x = p) + g_pin G p \<and>
     unat (p_activeCmdCount P) = num F (\<lambda>x. Pa x = p) + g_act G p"

definition devs_ok :: "ghost \<Rightarrow> plugin \<Rightarrow> bool" where
  "devs_ok G s \<longleftrightarrow> (\<forall>d D. devs s d = Some D \<longrightarrow>
     dev_ok G (sigs s) (path_dev s) (set (works s)) (set (retryQueue s)) (flying s) d D)"

definition paths_ok :: "ghost \<Rightarrow> plugin \<Rightarrow> bool" where
  "paths_ok G s \<longleftrightarrow> (\<forall>p P. pths s p = Some P \<longrightarrow> path_counts G (path_of s) (flying s) p P)"

text \<open>No command is lost and none is given back twice.\<close>

definition conserved :: "plugin \<Rightarrow> bool" where
  "conserved s \<longleftrightarrow>
     mset (map c_id (accepted s)) = mset (map c_id (completed s)) + image_mset (id_of (sigs s)) (mset_set (dom (cmds s)))"

definition Inv :: "ghost \<Rightarrow> plugin \<Rightarrow> bool" where
  "Inv G s \<longleftrightarrow> places G s \<and> heap_ok s \<and> kinds G s \<and> devs_ok G s \<and> paths_ok G s \<and> conserved s \<and> g_resv G < 2 ^ 32"

section \<open>Changes to a single struct\<close>

lemma views [simp]:
  "sigs (s\<lparr>devs := m\<rparr>) = sigs s" "path_of (s\<lparr>devs := m\<rparr>) = path_of s" "path_dev (s\<lparr>devs := m\<rparr>) = path_dev s" "flying (s\<lparr>devs := m\<rparr>) = flying s"
  "sigs (s\<lparr>pths := n\<rparr>) = sigs s" "path_of (s\<lparr>pths := n\<rparr>) = path_of s" "flying (s\<lparr>pths := n\<rparr>) = flying s"
  "path_dev (s\<lparr>cmds := c\<rparr>) = path_dev s" "flying (s\<lparr>cmds := c\<rparr>) = flying s"
  "sigs (s\<lparr>works := w\<rparr>) = sigs s" "path_of (s\<lparr>works := w\<rparr>) = path_of s" "path_dev (s\<lparr>works := w\<rparr>) = path_dev s" "flying (s\<lparr>works := w\<rparr>) = flying s"
  "sigs (s\<lparr>retryQueue := w\<rparr>) = sigs s" "path_of (s\<lparr>retryQueue := w\<rparr>) = path_of s" "path_dev (s\<lparr>retryQueue := w\<rparr>) = path_dev s" "flying (s\<lparr>retryQueue := w\<rparr>) = flying s"
  "sigs (s\<lparr>issued := i\<rparr>) = sigs s" "path_of (s\<lparr>issued := i\<rparr>) = path_of s" "path_dev (s\<lparr>issued := i\<rparr>) = path_dev s" "flying (s\<lparr>issued := i\<rparr>) = i \<union> scheduled s"
  "sigs (s\<lparr>scheduled := i\<rparr>) = sigs s" "path_of (s\<lparr>scheduled := i\<rparr>) = path_of s" "path_dev (s\<lparr>scheduled := i\<rparr>) = path_dev s" "flying (s\<lparr>scheduled := i\<rparr>) = issued s \<union> i"
  "sigs (s\<lparr>accepted := a\<rparr>) = sigs s" "path_of (s\<lparr>accepted := a\<rparr>) = path_of s" "path_dev (s\<lparr>accepted := a\<rparr>) = path_dev s" "flying (s\<lparr>accepted := a\<rparr>) = flying s"
  "sigs (s\<lparr>completed := a\<rparr>) = sigs s" "path_of (s\<lparr>completed := a\<rparr>) = path_of s" "path_dev (s\<lparr>completed := a\<rparr>) = path_dev s" "flying (s\<lparr>completed := a\<rparr>) = flying s"
  "sigs (s\<lparr>fast_probes := b\<rparr>) = sigs s" "path_of (s\<lparr>fast_probes := b\<rparr>) = path_of s" "path_dev (s\<lparr>fast_probes := b\<rparr>) = path_dev s" "flying (s\<lparr>fast_probes := b\<rparr>) = flying s"
  by (simp_all add: sigs_def [abs_def] path_of_def [abs_def] path_dev_def [abs_def] flying_def)

lemma sigs_cmd [simp]:
  "sigs (s\<lparr>cmds := (cmds t)(x \<mapsto> X)\<rparr>) = (sigs t)(x \<mapsto> sig_of X)"
  "sigs (s\<lparr>cmds := (cmds t)(x := None)\<rparr>) = (sigs t)(x := None)"
  by (simp_all add: sigs_def [abs_def] fun_eq_iff)

lemma path_of_cmd:
  "path_of (s\<lparr>cmds := (cmds t)(x \<mapsto> X)\<rparr>) = (path_of t)(x := x_path X)"
  "path_of (s\<lparr>cmds := (cmds t)(x := None)\<rparr>) = (path_of t)(x := NULL)"
  by (simp_all add: path_of_def [abs_def] fun_eq_iff)

lemma path_dev_path: "path_dev (s\<lparr>pths := (pths s)(p \<mapsto> P)\<rparr>) = (path_dev s)(p \<mapsto> p_dev P)"
  by (simp add: path_dev_def [abs_def] fun_eq_iff)

lemma places_frame [simp]:
  "places G (s\<lparr>devs := m\<rparr>) = places G s" "places G (s\<lparr>pths := n\<rparr>) = places G s"
  "places G (s\<lparr>accepted := a\<rparr>) = places G s" "places G (s\<lparr>completed := a\<rparr>) = places G s"
  "places G (s\<lparr>fast_probes := b\<rparr>) = places G s"
  by (simp_all add: places_def)

lemma heap_ok_frame [simp]:
  "heap_ok (s\<lparr>devs := m\<rparr>) = heap_ok s" "heap_ok (s\<lparr>pths := n\<rparr>) = heap_ok s"
  "heap_ok (s\<lparr>works := w\<rparr>) = heap_ok s" "heap_ok (s\<lparr>retryQueue := w\<rparr>) = heap_ok s"
  "heap_ok (s\<lparr>issued := i\<rparr>) = heap_ok s" "heap_ok (s\<lparr>scheduled := i\<rparr>) = heap_ok s"
  "heap_ok (s\<lparr>accepted := a\<rparr>) = heap_ok s" "heap_ok (s\<lparr>completed := a\<rparr>) = heap_ok s"
  "heap_ok (s\<lparr>fast_probes := b\<rparr>) = heap_ok s"
  by (simp_all add: heap_ok_def)

lemma conserved_frame [simp]:
  "conserved (s\<lparr>devs := m\<rparr>) = conserved s" "conserved (s\<lparr>pths := n\<rparr>) = conserved s"
  "conserved (s\<lparr>works := w\<rparr>) = conserved s" "conserved (s\<lparr>retryQueue := w\<rparr>) = conserved s"
  "conserved (s\<lparr>issued := i\<rparr>) = conserved s" "conserved (s\<lparr>scheduled := i\<rparr>) = conserved s"
  "conserved (s\<lparr>fast_probes := b\<rparr>) = conserved s"
  by (simp_all add: conserved_def)

lemma places_cmd:
  assumes "x \<in> dom (cmds s)"
  shows "places G (s\<lparr>cmds := (cmds s)(x \<mapsto> X)\<rparr>) = places G s" "heap_ok (s\<lparr>cmds := (cmds s)(x \<mapsto> X)\<rparr>) = heap_ok s"
proof -
  from assms have "dom ((cmds s)(x \<mapsto> X)) = dom (cmds s)" by auto
  then show "places G (s\<lparr>cmds := (cmds s)(x \<mapsto> X)\<rparr>) = places G s" "heap_ok (s\<lparr>cmds := (cmds s)(x \<mapsto> X)\<rparr>) = heap_ok s"
    by (simp_all add: places_def heap_ok_def del: dom_fun_upd)
qed

lemma dom_sigs: "x \<in> dom (cmds s) \<longleftrightarrow> sigs s x \<noteq> None"
  by (auto simp: sigs_def)

lemma Inv_dev:
  assumes i: "Inv G s" and D: "devs s d = Some D"
    and ok: "dev_ok G (sigs s) (path_dev s) (set (works s)) (set (retryQueue s)) (flying s) d D'"
  shows "Inv G (s\<lparr>devs := (devs s)(d \<mapsto> D')\<rparr>)"
proof -
  have dm: "dom ((devs s)(d \<mapsto> D')) = dom (devs s)" using D by auto
  show ?thesis
    using i ok dm by (simp add: Inv_def kinds_def devs_ok_def paths_ok_def del: dom_fun_upd)
qed

lemma Inv_path:
  assumes i: "Inv G s" and P: "pths s p = Some P" and eq: "p_dev P' = p_dev P"
    and ok: "path_counts G (path_of s) (flying s) p P'"
  shows "Inv G (s\<lparr>pths := (pths s)(p \<mapsto> P')\<rparr>)"
proof -
  have dm: "dom ((pths s)(p \<mapsto> P')) = dom (pths s)" using P by auto
  have pd: "path_dev (s\<lparr>pths := (pths s)(p \<mapsto> P')\<rparr>) = path_dev s"
    unfolding path_dev_path eq using P by (simp add: path_dev_def [abs_def] fun_eq_iff)
  show ?thesis
    using i ok dm by (simp add: Inv_def kinds_def devs_ok_def paths_ok_def pd del: dom_fun_upd)
qed

lemma Inv_cmd:
  assumes i: "Inv G s" and x: "cmds s x = Some X" "x \<in> g_limbo G" and eq: "sig_of X' = sig_of X"
  shows "Inv G (s\<lparr>cmds := (cmds s)(x \<mapsto> X')\<rparr>)"
proof -
  let ?s = "s\<lparr>cmds := (cmds s)(x \<mapsto> X')\<rparr>"
  have dm: "dom ((cmds s)(x \<mapsto> X')) = dom (cmds s)" using x by auto
  have sg: "(sigs s)(x \<mapsto> sig_of X') = sigs s"
    unfolding eq using x by (simp add: sigs_def [abs_def] fun_eq_iff)
  have "x \<notin> flying s" using i x by (auto simp: Inv_def places_def)
  then have po: "\<forall>y \<in> flying s. path_of ?s y = path_of s y" unfolding path_of_cmd by auto
  have k: "kinds G ?s" using i po by (simp add: Inv_def kinds_def sg)
  have pc: "num (flying s) (\<lambda>y. path_of ?s y = p) = num (flying s) (\<lambda>y. path_of s y = p)" for p
    by (rule num_cong) (use po in auto)
  have "paths_ok G ?s" using i by (simp add: Inv_def paths_ok_def path_counts_def pc)
  moreover have "places G ?s \<and> heap_ok ?s" using places_cmd x i by (simp add: Inv_def domI)
  ultimately show ?thesis
    using i dm k by (simp add: Inv_def devs_ok_def conserved_def sg del: dom_fun_upd)
qed

lemma InvD_dev: "Inv G s \<Longrightarrow> devs s d = Some D \<Longrightarrow>
   dev_ok G (sigs s) (path_dev s) (set (works s)) (set (retryQueue s)) (flying s) d D"
  by (simp add: Inv_def devs_ok_def)

lemma InvD_path: "Inv G s \<Longrightarrow> pths s p = Some P \<Longrightarrow> path_counts G (path_of s) (flying s) p P"
  by (simp add: Inv_def paths_ok_def)

lemma InvD_fin:
  assumes "Inv G s"
  shows "finite (flying s)" "finite (set (works s))" "finite (set (retryQueue s))" "finite (g_held G)" "finite (g_limbo G)"
  using assms by (auto simp: Inv_def places_def flying_def)

text \<open>No count of commands exceeds their number.\<close>

lemma Inv_num_le:
  assumes i: "Inv G s" and sub: "A \<subseteq> dom (cmds s)"
  shows "num A Q \<le> 2 ^ 31"
proof -
  have f: "finite (dom (cmds s))" using i by (simp add: Inv_def heap_ok_def)
  have "num A Q \<le> card (dom (cmds s))"
    unfolding num_def by (rule card_mono [OF f]) (use sub in auto)
  also have "\<dots> \<le> 2 ^ 31" using i by (simp add: Inv_def heap_ok_def)
  finally show ?thesis .
qed

section \<open>Operations on the counters and flags of a device\<close>

lemma SchedStart_Inv:
  assumes i: "Inv G s" and d: "devs s d = Some D"
  shows "\<exists>s'. ExampleDeviceSchedStart s d = Some s' \<and> Inv G s'"
proof (cases "startTimer D")
  case True
  then show ?thesis using i d by (simp add: ExampleDeviceSchedStart_def)
next
  case False
  let ?D = "D\<lparr>busyCount := busyCount D + 1, startTimer := True\<rparr>"
  note ok = InvD_dev [OF i d]
  have "g_busy G d \<le> 2" using i by (simp add: Inv_def kinds_def)
  moreover have b: "unat (busyCount D) = g_busy G d" using ok False by (simp add: dev_ok_def fits_def)
  ultimately have "unat (busyCount D + 1) = g_busy G d + 1" by (simp add: unat_word_ariths)
  then have "dev_ok G (sigs s) (path_dev s) (set (works s)) (set (retryQueue s)) (flying s) d ?D"
    using ok unfolding dev_ok_def fits_def path_ok_def has_flag_def by simp
  from Inv_dev [OF i d this] show ?thesis
    using d False by (simp add: ExampleDeviceSchedStart_def ExampleDeviceIncBusyCount_def on_dev_def)
qed

text \<open>A change of a device's members that the invariant does not mention.\<close>

definition dkey :: "ExampleDevice \<Rightarrow> ExampleDevice" where
  "dkey D = D\<lparr>d_flags := d_flags D AND EXAMPLE_DEVICE_REMOVING, inProbe := False, numPaths := 0, resPath := 0,
     resvUpdateInProgress := False, resvGen := 0, d_state := DEV_ON, openCount := of_bool (openCount D > 0)\<rparr>"

lemma dev_ok_dkey:
  assumes "dkey D' = dkey D"
  shows "dev_ok G K Pd W R F d D' = dev_ok G K Pd W R F d D"
proof -
  have "of_bool (openCount D' > 0) = (of_bool (openCount D > 0) :: u32)"
    using arg_cong [OF assms, of openCount] by (simp add: dkey_def)
  then have o: "(0 < openCount D') = (0 < openCount D)" by (simp only: of_bool_eq_iff)
  have f: "has_flag D' EXAMPLE_DEVICE_REMOVING = has_flag D EXAMPLE_DEVICE_REMOVING"
    using arg_cong [OF assms, of d_flags] by (simp add: dkey_def has_flag_def)
  have e: "blocked D' = blocked D" "activeCmdCount D' = activeCmdCount D" "busyCount D' = busyCount D"
    "startTimer D' = startTimer D" "resvSensitiveCmdQueue D' = resvSensitiveCmdQueue D"
    "resvSensitiveAbtQueue D' = resvSensitiveAbtQueue D" "pendingReserves D' = pendingReserves D"
    "psa_queue D' = psa_queue D" "d_paths D' = d_paths D" "activePathIndex D' = activePathIndex D"
    using arg_cong [OF assms, of blocked] arg_cong [OF assms, of activeCmdCount] arg_cong [OF assms, of busyCount]
      arg_cong [OF assms, of startTimer] arg_cong [OF assms, of resvSensitiveCmdQueue]
      arg_cong [OF assms, of resvSensitiveAbtQueue] arg_cong [OF assms, of pendingReserves]
      arg_cong [OF assms, of psa_queue] arg_cong [OF assms, of d_paths] arg_cong [OF assms, of activePathIndex]
    by (simp_all add: dkey_def)
  show ?thesis unfolding dev_ok_def fits_def path_ok_def e o f ..
qed

lemma Inv_dkey:
  assumes i: "Inv G s" and D: "devs s d = Some D" and "dkey D' = dkey D"
  shows "Inv G (s\<lparr>devs := (devs s)(d \<mapsto> D')\<rparr>)"
  by (rule Inv_dev [OF i D]) (use InvD_dev [OF i D] dev_ok_dkey [OF assms(3)] in simp)

lemma flag_masks:
  "(w AND NOT EXAMPLE_DEVICE_RESERVED) AND EXAMPLE_DEVICE_REMOVING = w AND EXAMPLE_DEVICE_REMOVING"
  "(w AND NOT EXAMPLE_DEVICE_RESERVING) AND EXAMPLE_DEVICE_REMOVING = w AND EXAMPLE_DEVICE_REMOVING"
  "(w OR EXAMPLE_DEVICE_RESERVING) AND EXAMPLE_DEVICE_REMOVING = w AND EXAMPLE_DEVICE_REMOVING"
  "(w OR EXAMPLE_DEVICE_RESERVED) AND EXAMPLE_DEVICE_REMOVING = w AND EXAMPLE_DEVICE_REMOVING"
  unfolding EXAMPLE_DEVICE_RESERVED_def EXAMPLE_DEVICE_RESERVING_def EXAMPLE_DEVICE_REMOVING_def
  by (simp_all add: bit.conj_disj_distrib2 and.assoc)

lemma UpdateDevOnRel_Inv:
  assumes i: "Inv G s" and d: "devs s d = Some D"
  shows "\<exists>s' D'. ExampleUpdateDevOnRel s d b = Some s' \<and> Inv G s' \<and> s' = s\<lparr>devs := (devs s)(d \<mapsto> D')\<rparr>"
proof -
  let ?D1 = "if b then D\<lparr>resvGen := resvGen D + 1\<rparr> else D"
  let ?D2 = "if has_flag D EXAMPLE_DEVICE_RESERVED then
      ?D1\<lparr>d_flags := d_flags D AND NOT EXAMPLE_DEVICE_RESERVED, resPath := NULL\<rparr> else ?D1"
  have tr: "(devs s)(d \<mapsto> D) = devs s" using d by (simp add: fun_upd_idem)
  have "dkey ?D2 = dkey D" by (simp add: dkey_def flag_masks)
  moreover have "ExampleUpdateDevOnRel s d b = Some (s\<lparr>devs := (devs s)(d \<mapsto> ?D2)\<rparr>)"
    using d tr by (simp add: ExampleUpdateDevOnRel_def on_dev_def has_flag_def)
  ultimately show ?thesis using Inv_dkey [OF i d] by blast
qed

end
