(* ===== verification/Plugin_Moves.thy ===== *)
theory Plugin_Moves
  imports Plugin_Inv
begin

section \<open>A command changes its place\<close>

text \<open>A device is not concerned by a change at the command \<open>x\<close> if that is not one of its commands.\<close>

lemma dev_ok_other:
  assumes K: "\<And>y. y \<noteq> x \<Longrightarrow> K' y = K y" and x: "\<not> of_dev K e x" "\<not> of_dev K' e x"
    and W: "W' - {x} = W - {x}" and R: "R' - {x} = R - {x}" and F: "F' - {x} = F - {x}"
    and H: "g_held G' - {x} = g_held G - {x}" and L: "g_limbo G' - {x} = g_limbo G - {x}"
    and g: "g_blk G' e = g_blk G e" "g_busy G' e = g_busy G e" "g_credit G' e = g_credit G e" "g_resv G' = g_resv G" "g_open G' = g_open G"
  shows "dev_ok G' K' Pd W' R' F' e D = dev_ok G K Pd W R F e D"
proof -
  have o: "of_dev K' e y = of_dev K e y" "reserves K' e y = reserves K e y"
    "(of_dev K' e y \<and> sensitive K' y) = (of_dev K e y \<and> sensitive K y)" for y
    using K [of y] x by (cases "y = x"; auto simp: of_dev_def reserves_def sensitive_def split: option.splits prod.splits)+
  have nx: "\<not> of_dev K e x" "\<not> reserves K e x"
    using x by (auto simp: of_dev_def reserves_def split: option.splits prod.splits)
  have drop: "num A' Q = num A Q" if "A' - {x} = A - {x}" "\<not> Q x" for A A' :: "nat set" and Q
  proof -
    have "{y \<in> A'. Q y} = {y \<in> A' - {x}. Q y}" "{y \<in> A. Q y} = {y \<in> A - {x}. Q y}" using that(2) by auto
    then show ?thesis using that(1) by (simp add: num_def)
  qed
  have u: "(F' \<union> R' \<union> g_held G' \<union> g_limbo G') - {x} = (F \<union> R \<union> g_held G \<union> g_limbo G) - {x}"
      "(F' \<union> R' \<union> g_held G') - {x} = (F \<union> R \<union> g_held G) - {x}"
    using R F H L by blast+
  have K': "of_dev K' e = of_dev K e" "reserves K' e = reserves K e" using o by (auto simp: fun_eq_iff)
  have q: "{y \<in> F' \<union> g_limbo G'. of_dev K e y \<and> sensitive K' y} = {y \<in> F \<union> g_limbo G. of_dev K e y \<and> sensitive K y}"
    using F L nx o(3) unfolding K' by blast
  show ?thesis
    unfolding dev_ok_def K' q
      drop [OF R, of "of_dev K e", OF nx(1)] drop [OF u(1), of "of_dev K e", OF nx(1)]
      drop [OF u(2), of "reserves K e", OF nx(2)] drop [OF W, of "reserves K e", OF nx(2)] g ..
qed

lemma disjoint_move:
  "A \<inter> B = {} \<Longrightarrow> A' - {x} = A - {x} \<Longrightarrow> B' - {x} = B - {x} \<Longrightarrow> \<not> (x \<in> A' \<and> x \<in> B') \<Longrightarrow> A' \<inter> B' = {}"
  by blast

lemma mem_move: "A' - {x} = A - {x} \<Longrightarrow> y \<in> A' \<Longrightarrow> y \<noteq> x \<Longrightarrow> y \<in> A"
  by blast

lemma equal_move: "A - {x} = B - {x} \<Longrightarrow> x \<in> A \<longleftrightarrow> x \<in> B \<Longrightarrow> A = B"
  by blast

definition at_one_place :: "ghost \<Rightarrow> plugin \<Rightarrow> nat \<Rightarrow> bool" where
  "at_one_place G s x \<longleftrightarrow>
     \<not> (x \<in> set (works s) \<and> x \<in> set (retryQueue s)) \<and>
     \<not> (x \<in> flying s \<and> (x \<in> set (works s) \<or> x \<in> set (retryQueue s))) \<and> \<not> (x \<in> issued s \<and> x \<in> scheduled s) \<and>
     \<not> (x \<in> g_held G \<and> (x \<in> set (works s) \<or> x \<in> set (retryQueue s) \<or> x \<in> flying s)) \<and>
     \<not> (x \<in> g_limbo G \<and> (x \<in> set (works s) \<or> x \<in> set (retryQueue s) \<or> x \<in> flying s \<or> x \<in> g_held G)) \<and>
     (cmds s x \<noteq> None \<longleftrightarrow> x \<in> set (works s) \<or> x \<in> set (retryQueue s) \<or> x \<in> flying s \<or> x \<in> g_held G \<or> x \<in> g_limbo G)"

text \<open>
  A change at the command \<open>x\<close> of the device \<open>d\<close>: the other commands stay where they are, \<open>x\<close> is at one
  place or has gone, and the counts of \<open>d\<close> and of the paths fit.
\<close>

lemma Inv_move:
  assumes i: "Inv G s" and D: "devs s d = Some D"
    and D': "devs s' = (devs s)(d \<mapsto> D')" and P': "pths s' = pths s"
    and C: "\<And>y. y \<noteq> x \<Longrightarrow> cmds s' y = cmds s y"
    and x: "\<And>e. of_dev (sigs s) e x \<Longrightarrow> e = d" "\<And>e. of_dev (sigs s') e x \<Longrightarrow> e = d"
    and W: "set (works s') - {x} = set (works s) - {x}" "distinct (works s')"
    and R: "set (retryQueue s') - {x} = set (retryQueue s) - {x}" "distinct (retryQueue s')"
    and I: "issued s' - {x} = issued s - {x}" and S: "scheduled s' - {x} = scheduled s - {x}"
    and H: "g_held G' - {x} = g_held G - {x}" and L: "g_limbo G' - {x} = g_limbo G - {x}"
    and one: "at_one_place G' s' x"
    and kx: "x \<in> set (works s') \<Longrightarrow> of_dev (sigs s') d x"
      "x \<in> set (retryQueue s') \<or> x \<in> g_held G' \<Longrightarrow> \<not> sensitive (sigs s') x \<and> of_dev (sigs s') d x"
      "x \<in> flying s' \<Longrightarrow> path_of s' x \<in> dom (pths s)"
    and hp: "heap_ok s'" and cv: "conserved s'"
    and g: "\<And>e. e \<noteq> d \<Longrightarrow> g_blk G' e = g_blk G e \<and> g_busy G' e = g_busy G e \<and> g_credit G' e = g_credit G e" "g_resv G' = g_resv G" "g_open G' = g_open G"
    and gd: "g_blk G' d \<le> 2" "g_busy G' d \<le> 2"
    and pin: "\<And>p. 0 < g_pin G' p \<Longrightarrow> p \<in> dom (pths s)"
      "\<And>p. num (flying s') (\<lambda>y. path_of s' y = p) + g_pin G' p = num (flying s) (\<lambda>y. path_of s y = p) + g_pin G p"
      "\<And>p. num (flying s') (\<lambda>y. path_of s' y = p) + g_act G' p = num (flying s) (\<lambda>y. path_of s y = p) + g_act G p"
    and ok: "dev_ok G' (sigs s') (path_dev s) (set (works s')) (set (retryQueue s')) (flying s') d D'"
  shows "Inv G' s'"
proof -
  have K: "\<And>y. y \<noteq> x \<Longrightarrow> sigs s' y = sigs s y" and po: "\<And>y. y \<noteq> x \<Longrightarrow> path_of s' y = path_of s y"
    using C by (simp_all add: sigs_def path_of_def)
  have pd: "path_dev s' = path_dev s" by (simp add: path_dev_def [abs_def] P')
  have F: "flying s' - {x} = flying s - {x}" using I S unfolding flying_def by blast
  have pl: "places G s" and kd: "kinds G s" using i by (auto simp: Inv_def)
  have fin: "finite A'" if "A' - {x} = A - {x}" "finite A" for A A' :: "nat set"
    using that by (metis finite_Diff finite_insert insert_Diff_single)
  have dm: "dom (cmds s') - {x} = dom (cmds s) - {x}" using C by auto
  have dd: "dom (devs s') = dom (devs s)" using D D' by auto
  have excl: "\<not> (x \<in> set (works s') \<and> x \<in> set (retryQueue s'))"
      "\<not> (x \<in> flying s' \<and> (x \<in> set (works s') \<or> x \<in> set (retryQueue s')))" "\<not> (x \<in> issued s' \<and> x \<in> scheduled s')"
      "\<not> (x \<in> g_held G' \<and> (x \<in> set (works s') \<or> x \<in> set (retryQueue s') \<or> x \<in> flying s'))"
      "\<not> (x \<in> g_limbo G' \<and> (x \<in> set (works s') \<or> x \<in> set (retryQueue s') \<or> x \<in> flying s' \<or> x \<in> g_held G'))"
      "x \<in> dom (cmds s') \<longleftrightarrow> x \<in> set (works s') \<or> x \<in> set (retryQueue s') \<or> x \<in> flying s' \<or> x \<in> g_held G' \<or> x \<in> g_limbo G'"
    using one unfolding at_one_place_def domIff by blast+
  have WR: "(set (works s') \<union> set (retryQueue s')) - {x} = (set (works s) \<union> set (retryQueue s)) - {x}"
    unfolding Un_Diff W(1) R(1) ..
  have WRF: "(set (works s') \<union> set (retryQueue s') \<union> flying s') - {x} = (set (works s) \<union> set (retryQueue s) \<union> flying s) - {x}"
    unfolding Un_Diff W(1) R(1) F ..
  have WRFH: "(set (works s') \<union> set (retryQueue s') \<union> flying s' \<union> g_held G') - {x} =
      (set (works s) \<union> set (retryQueue s) \<union> flying s \<union> g_held G) - {x}"
    unfolding Un_Diff W(1) R(1) F H ..
  have all: "(set (works s') \<union> set (retryQueue s') \<union> flying s' \<union> g_held G' \<union> g_limbo G') - {x} =
      (set (works s) \<union> set (retryQueue s) \<union> flying s \<union> g_held G \<union> g_limbo G) - {x}"
    unfolding Un_Diff W(1) R(1) F H L ..
  have pl': "places G' s'"
    unfolding places_def
  proof (intro conjI)
    show "finite (issued s')" "finite (scheduled s')" "finite (g_held G')" "finite (g_limbo G')"
      using pl fin [OF I] fin [OF S] fin [OF H] fin [OF L] unfolding places_def by blast+
    show "set (works s') \<inter> set (retryQueue s') = {}"
      by (rule disjoint_move [OF _ W(1) R(1)]) (use pl excl(1) in \<open>simp_all add: places_def\<close>)
    show "flying s' \<inter> (set (works s') \<union> set (retryQueue s')) = {}"
      by (rule disjoint_move [OF _ F WR]) (use pl excl(2) in \<open>simp_all add: places_def\<close>)
    show "issued s' \<inter> scheduled s' = {}"
      by (rule disjoint_move [OF _ I S]) (use pl excl(3) in \<open>simp_all add: places_def\<close>)
    show "g_held G' \<inter> (set (works s') \<union> set (retryQueue s') \<union> flying s') = {}"
      by (rule disjoint_move [OF _ H WRF]) (use pl excl(4) in \<open>simp_all add: places_def\<close>)
    show "g_limbo G' \<inter> (set (works s') \<union> set (retryQueue s') \<union> flying s' \<union> g_held G') = {}"
      by (rule disjoint_move [OF _ L WRFH]) (use pl excl(5) in \<open>simp_all add: places_def\<close>)
    have "dom (cmds s) = set (works s) \<union> set (retryQueue s) \<union> flying s \<union> g_held G \<union> g_limbo G"
      using pl unfolding places_def by blast
    then have "dom (cmds s') - {x} = (set (works s') \<union> set (retryQueue s') \<union> flying s' \<union> g_held G' \<union> g_limbo G') - {x}"
      using dm all by (simp only:)
    then show "dom (cmds s') = set (works s') \<union> set (retryQueue s') \<union> flying s' \<union> g_held G' \<union> g_limbo G'"
      by (rule equal_move) (use excl(6) in simp)
  qed (fact W(2), fact R(2))
  have od: "of_dev (sigs s') e y = of_dev (sigs s) e y" "sensitive (sigs s') y = sensitive (sigs s) y" if "y \<noteq> x" for e y
    using K [OF that] by (simp_all add: of_dev_def sensitive_def)
  have dx: "d \<in> dom (devs s)" using D by auto
  have kdW: "\<And>y. y \<in> set (works s) \<Longrightarrow> \<exists>e. of_dev (sigs s) e y"
    and kdR: "\<And>y. y \<in> set (retryQueue s) \<union> g_held G \<Longrightarrow> \<not> sensitive (sigs s) y \<and> (\<exists>e. of_dev (sigs s) e y)"
    and kdD: "\<And>y e. of_dev (sigs s) e y \<Longrightarrow> e \<in> dom (devs s)" and kdF: "\<And>y. y \<in> flying s \<Longrightarrow> path_of s y \<in> dom (pths s)"
    and kdG: "\<And>e. g_blk G e \<le> 2 \<and> g_busy G e \<le> 2"
    using kd unfolding kinds_def by blast+
  have RH: "(set (retryQueue s') \<union> g_held G') - {x} = (set (retryQueue s) \<union> g_held G) - {x}"
    unfolding Un_Diff R(1) H ..
  have kd': "kinds G' s'"
    unfolding kinds_def dd P' pd
  proof (intro conjI ballI allI impI)
    fix y assume y: "y \<in> set (works s')"
    show "\<exists>e. of_dev (sigs s') e y"
    proof (cases "y = x")
      case True with kx(1) y show ?thesis by blast
    next
      case False with kdW [OF mem_move [OF W(1) y False]] od(1) show ?thesis by simp
    qed
  next
    fix y assume y: "y \<in> set (retryQueue s') \<union> g_held G'"
    have "\<not> sensitive (sigs s') y \<and> (\<exists>e. of_dev (sigs s') e y)"
    proof (cases "y = x")
      case True with kx(2) y show ?thesis by blast
    next
      case False with kdR [OF mem_move [OF RH y False]] od show ?thesis by simp
    qed
    then show "\<not> sensitive (sigs s') y" "\<exists>e. of_dev (sigs s') e y" by blast+
  next
    fix y e assume y: "of_dev (sigs s') e y"
    show "e \<in> dom (devs s)"
    proof (cases "y = x")
      case True with x(2) y dx show ?thesis by simp
    next
      case False with kdD od(1) y show ?thesis by simp
    qed
  next
    fix y assume y: "y \<in> flying s'"
    show "path_of s' y \<in> dom (pths s)"
    proof (cases "y = x")
      case True with kx(3) y show ?thesis by simp
    next
      case False with kdF [OF mem_move [OF F y False]] po show ?thesis by simp
    qed
  next
    fix e show "g_blk G' e \<le> 2" "g_busy G' e \<le> 2" using kdG g(1) [of e] gd by (cases "e = d"; simp)+
  next
    show "\<And>p e. path_dev s p = Some e \<Longrightarrow> e \<in> dom (devs s)" using kd unfolding kinds_def by blast
    show "\<And>e. g_open G' e \<Longrightarrow> e \<in> dom (devs s)" using kd unfolding kinds_def g(3) by blast
  qed (rule pin(1))
  have "dev_ok G' (sigs s') (path_dev s') (set (works s')) (set (retryQueue s')) (flying s') e E"
    if E: "devs s' e = Some E" for e E
  proof (cases "e = d")
    case True
    with E D' have "E = D'" by simp
    with True ok pd show ?thesis by simp
  next
    case False
    with E D' have e: "devs s e = Some E" by simp
    have "\<not> of_dev (sigs s) e x" "\<not> of_dev (sigs s') e x" using x False by blast+
    from dev_ok_other [OF K this W(1) R(1) F H L] g False InvD_dev [OF i e] pd show ?thesis by simp
  qed
  then have "devs_ok G' s'" by (simp add: devs_ok_def)
  moreover have "paths_ok G' s'"
    using InvD_path [OF i] pin(2,3) by (simp add: paths_ok_def path_counts_def P')
  moreover have "g_resv G' < 2 ^ 32" using i g(2) by (simp add: Inv_def)
  ultimately show ?thesis using pl' kd' hp cv by (simp add: Inv_def)
qed

lemma places_ghost: "g_held G' = g_held G \<Longrightarrow> g_limbo G' = g_limbo G \<Longrightarrow> places G' s = places G s"
  by (simp add: places_def)

text \<open>A change of the ghost counts of a device together with the device.\<close>

lemma Inv_dev_ghost:
  assumes i: "Inv G s" and D: "devs s d = Some D"
    and same: "g_held G' = g_held G" "g_limbo G' = g_limbo G" "g_pin G' = g_pin G" "g_act G' = g_act G" "g_resv G' = g_resv G" "g_open G' = g_open G"
    and g: "\<And>e. e \<noteq> d \<Longrightarrow> g_blk G' e = g_blk G e \<and> g_busy G' e = g_busy G e \<and> g_credit G' e = g_credit G e"
    and le: "g_blk G' d \<le> 2" "g_busy G' d \<le> 2"
    and ok: "dev_ok G' (sigs s) (path_dev s) (set (works s)) (set (retryQueue s)) (flying s) d D'"
  shows "Inv G' (s\<lparr>devs := (devs s)(d \<mapsto> D')\<rparr>)"
proof -
  have dm: "dom ((devs s)(d \<mapsto> D')) = dom (devs s)" using D by auto
  have bb: "\<forall>e. g_blk G' e \<le> 2 \<and> g_busy G' e \<le> 2"
  proof
    fix e show "g_blk G' e \<le> 2 \<and> g_busy G' e \<le> 2"
      using i g [of e] le by (cases "e = d") (auto simp: Inv_def kinds_def)
  qed
  have pl: "places G' s" using i places_ghost [OF same(1,2)] by (simp add: Inv_def)
  have k: "kinds G' (s\<lparr>devs := (devs s)(d \<mapsto> D')\<rparr>)"
    using i same dm bb by (simp add: Inv_def kinds_def del: dom_fun_upd)
  have po: "paths_ok G' s" using i same by (simp add: Inv_def paths_ok_def path_counts_def)
  have "dev_ok G' (sigs s) (path_dev s) (set (works s)) (set (retryQueue s)) (flying s) e E"
    if "((devs s)(d \<mapsto> D')) e = Some E" for e E
    using that ok g [of e] InvD_dev [OF i, of e E] same by (cases "e = d") (auto simp: dev_ok_def)
  then have "devs_ok G' (s\<lparr>devs := (devs s)(d \<mapsto> D')\<rparr>)" by (simp add: devs_ok_def)
  then show ?thesis using i same pl k po by (simp add: Inv_def paths_ok_def)
qed

lemma Unblock_Inv:
  assumes i: "Inv (G\<lparr>g_blk := (g_blk G)(d := Suc (g_blk G d))\<rparr>) s" and d: "devs s d = Some D"
  shows "\<exists>s'. ExampleDevice_Unblock s d = Some s' \<and> Inv G s'"
proof -
  let ?G = "G\<lparr>g_blk := (g_blk G)(d := Suc (g_blk G d))\<rparr>"
  note ok = InvD_dev [OF i d]
  have b: "unat (blocked D) = num (set (retryQueue s)) (of_dev (sigs s) d) + Suc (g_blk G d)"
    using ok by (simp add: dev_ok_def fits_def)
  then have nz: "blocked D \<noteq> 0" by auto
  then have b': "unat (blocked D - 1) = num (set (retryQueue s)) (of_dev (sigs s) d) + g_blk G d"
    using b by (simp add: unat_dec)
  let ?D = "D\<lparr>blocked := blocked D - 1\<rparr>"
  have "g_blk ?G d \<le> 2 \<and> g_busy ?G d \<le> 2" using i unfolding Inv_def kinds_def by blast
  then have le: "g_blk G d \<le> 2" "g_busy G d \<le> 2" by auto
  have ok': "dev_ok G (sigs s) (path_dev s) (set (works s)) (set (retryQueue s)) (flying s) d ?D"
    using ok b' unfolding dev_ok_def fits_def path_ok_def has_flag_def by simp
  have "Inv G (s\<lparr>devs := (devs s)(d \<mapsto> ?D)\<rparr>)"
    by (rule Inv_dev_ghost [OF i d _ _ _ _ _ _ _ le ok']) simp_all
  with SchedStart_Inv [OF this, of d ?D] show ?thesis
    unfolding ExampleDevice_Unblock_def
    using nz d by (cases "blocked D = 1") (auto simp: ExampleDevice_IsBlocked_def on_dev_def word_neq_0_conv)
qed

section \<open>Accepting and giving back\<close>

lemma mset_ids_cong: "(\<And>y. y \<in> A \<Longrightarrow> K' y = K y) \<Longrightarrow> image_mset (id_of K') (mset_set A) = image_mset (id_of K) (mset_set A)"
  by (rule image_mset_cong) (cases "finite A"; auto simp: id_of_def)

lemma conserved_accept:
  assumes c: "conserved s" and f: "finite (dom (cmds s))" and x: "cmds s x = None"
    and s': "accepted s' = accepted s @ [cmd]" "completed s' = completed s" "cmds s' = (cmds s)(x \<mapsto> X)" and X: "x_cmd X = cmd"
  shows "conserved s'"
proof -
  have sg: "sigs s' = (sigs s)(x \<mapsto> sig_of X)" by (simp add: sigs_def [abs_def] s' fun_eq_iff)
  have nx: "x \<notin> dom (cmds s)" using x by auto
  have "image_mset (id_of (sigs s')) (mset_set (dom (cmds s))) = image_mset (id_of (sigs s)) (mset_set (dom (cmds s)))"
    by (rule mset_ids_cong) (use nx sg in auto)
  moreover have "id_of (sigs s') x = c_id cmd" using X by (simp add: sg id_of_def sig_of_def)
  ultimately show ?thesis using c f nx by (simp add: conserved_def s' mset_set.insert)
qed

lemma conserved_retire:
  assumes c: "conserved s" and f: "finite (dom (cmds s))" and x: "cmds s x = Some X"
    and s': "accepted s' = accepted s" "completed s' = completed s @ [x_cmd X]" "cmds s' = (cmds s)(x := None)"
  shows "conserved s'"
proof -
  have sg: "sigs s' = (sigs s)(x := None)" by (simp add: sigs_def [abs_def] s' fun_eq_iff)
  have dm: "dom (cmds s) = insert x (dom (cmds s) - {x})" using x by auto
  have "image_mset (id_of (sigs s')) (mset_set (dom (cmds s) - {x})) = image_mset (id_of (sigs s)) (mset_set (dom (cmds s) - {x}))"
    by (rule mset_ids_cong) (use sg in auto)
  moreover have "id_of (sigs s) x = c_id (x_cmd X)" using x by (simp add: sigs_def id_of_def sig_of_def)
  moreover have "mset_set (dom (cmds s)) = add_mset x (mset_set (dom (cmds s) - {x}))"
    by (subst dm, rule mset_set.insert) (use f in auto)
  ultimately show ?thesis using c by (simp add: conserved_def s')
qed

definition fresh_heap :: "(plugin \<Rightarrow> nat) \<Rightarrow> bool" where
  "fresh_heap al \<longleftrightarrow> (\<forall>s. al s \<noteq> NULL \<longrightarrow> cmds s (al s) = None \<and> card (dom (cmds s)) < 2 ^ 31)"

lemma limbo_dev_cases:
  assumes i: "Inv G s" and x: "cmds s x = Some X" and k: "of_dev (sigs s) d x"
  shows "x_dev X = d" "\<not> x_direct X"
  using x k by (auto simp: of_dev_def sigs_def sig_of_def)

lemma of_dev_iff: "cmds s x = Some X \<Longrightarrow> of_dev (sigs s) d x \<longleftrightarrow> \<not> x_direct X \<and> x_dev X = d"
  by (simp add: of_dev_def sigs_def sig_of_def)

lemma sensitive_iff: "cmds s x = Some X \<Longrightarrow> sensitive (sigs s) x \<longleftrightarrow> c_resv_sensitive (x_cmd X)"
  by (simp add: sensitive_def sigs_def sig_of_def)

lemma reserves_iff: "cmds s x = Some X \<Longrightarrow> reserves (sigs s) d x \<longleftrightarrow> \<not> x_direct X \<and> x_dev X = d \<and> c_op (x_cmd X) = RESERVE_UNIT"
  by (simp add: reserves_def sigs_def sig_of_def)

lemma none_iff:
  assumes "K x = None"
  shows "\<not> of_dev K d x" "\<not> sensitive K x" "\<not> reserves K d x"
  using assms by (simp_all add: of_dev_def sensitive_def reserves_def)

lemma num_same_off:
  assumes "A' = A" "x \<notin> A" "\<And>y. y \<noteq> x \<Longrightarrow> Q' y = Q y"
  shows "num A' Q' = num A Q"
  using assms(1) by (rule num_cong) (metis assms(1,2,3))

lemma sigs_views:
  assumes "sigs s' y = sigs s y"
  shows "of_dev (sigs s') e y = of_dev (sigs s) e y" "sensitive (sigs s') y = sensitive (sigs s) y"
    "reserves (sigs s') e y = reserves (sigs s) e y"
  using assms by (simp_all add: of_dev_def sensitive_def reserves_def)

lemma sens_same_off:
  assumes "x \<notin> A" "\<And>y. y \<noteq> x \<Longrightarrow> K' y = K y"
  shows "{y \<in> A. of_dev K' d y \<and> sensitive K' y} = {y \<in> A. of_dev K d y \<and> sensitive K y}"
proof (rule Collect_cong)
  fix y
  show "(y \<in> A \<and> of_dev K' d y \<and> sensitive K' y) = (y \<in> A \<and> of_dev K d y \<and> sensitive K y)"
    using assms(1) assms(2) [of y] by (cases "y = x") (simp_all add: of_dev_def sensitive_def)
qed

lemma accept_Inv:
  assumes i: "Inv G s" and D: "devs s d = Some D" and x: "cmds s x = None" "x \<noteq> NULL" "card (dom (cmds s)) < 2 ^ 31"
    and q: "psa_queue D = cmd # rest"
  shows "Inv G (s\<lparr>devs := (devs s)(d \<mapsto> D\<lparr>psa_queue := rest\<rparr>),
      cmds := (cmds s)(x \<mapsto> \<lparr>x_dev = d, x_path = NULL, x_direct = False, x_cmd = cmd\<rparr>),
      works := works s @ [x], accepted := accepted s @ [cmd]\<rparr>)" (is "Inv G ?s")
proof -
  have pl: "places G s" and hp: "heap_ok s" and kd: "kinds G s" using i by (auto simp: Inv_def)
  have nx: "x \<notin> set (works s)" "x \<notin> set (retryQueue s)" "x \<notin> issued s" "x \<notin> scheduled s" "x \<notin> flying s" "x \<notin> g_held G" "x \<notin> g_limbo G"
    using pl x(1) unfolding places_def flying_def by blast+
  have c: "cmds ?s x = Some \<lparr>x_dev = d, x_path = NULL, x_direct = False, x_cmd = cmd\<rparr>" by simp
  have K: "sigs ?s y = sigs s y" if "y \<noteq> x" for y using that by simp
  note same = sigs_views [OF K]
  have ox: "of_dev (sigs ?s) e x \<longleftrightarrow> e = d" "reserves (sigs ?s) d x \<longleftrightarrow> c_op cmd = RESERVE_UNIT" for e
    using of_dev_iff [OF c] reserves_iff [OF c] by auto
  have n: "num A (of_dev (sigs ?s) d) = num A (of_dev (sigs s) d)" "num A (reserves (sigs ?s) d) = num A (reserves (sigs s) d)"
    if "x \<notin> A" for A by (rule num_same_off [OF refl that same(1)]; simp) (rule num_same_off [OF refl that same(3)]; simp)
  have w: "num (set (works ?s)) (reserves (sigs ?s) d) =
      num (set (works s)) (reserves (sigs s) d) + (if c_op cmd = RESERVE_UNIT then 1 else 0)"
    using num_insert [of "set (works s)" x "reserves (sigs ?s) d"] nx(1) n(2) [OF nx(1)] ox(2) by simp
  have se: "{y \<in> flying s \<union> g_limbo G. of_dev (sigs ?s) d y \<and> sensitive (sigs ?s) y} =
      {y \<in> flying s \<union> g_limbo G. of_dev (sigs s) d y \<and> sensitive (sigs s) y}"
    by (rule sens_same_off [where x = x]) (use nx K in auto)
  have rq: "set (retryQueue ?s) = set (retryQueue s)" "flying ?s = flying s" by simp_all
  note n' = n(1) [of "set (retryQueue s)"] n(1) [of "flying s \<union> set (retryQueue s) \<union> g_held G \<union> g_limbo G"]
    n(2) [of "flying s \<union> set (retryQueue s) \<union> g_held G"]
  have ok: "dev_ok G (sigs ?s) (path_dev s) (set (works ?s)) (set (retryQueue ?s)) (flying ?s) d (D\<lparr>psa_queue := rest\<rparr>)"
    using InvD_dev [OF i D] n' nx unfolding dev_ok_def w se rq fits_def path_ok_def has_flag_def
    by (auto simp: q split: if_splits)
  have pn: "num (flying ?s) (\<lambda>y. path_of ?s y = p) = num (flying s) (\<lambda>y. path_of s y = p)" for p
    by (rule num_same_off [where x = x]) (use nx in \<open>auto simp: path_of_cmd\<close>)
  show ?thesis
  proof (rule Inv_move [OF i D, where s' = ?s and x = x])
    have "dom (cmds ?s) = insert x (dom (cmds s))" by simp
    then show "heap_ok ?s" using hp x unfolding heap_ok_def by (simp add: card_insert_if)
    show "conserved ?s" by (rule conserved_accept [of s x]) (use i hp x in \<open>auto simp: Inv_def heap_ok_def\<close>)
    show "dev_ok G (sigs ?s) (path_dev s) (set (works ?s)) (set (retryQueue ?s)) (flying ?s) d (D\<lparr>psa_queue := rest\<rparr>)"
      by (rule ok)
    show "\<And>e. of_dev (sigs s) e x \<Longrightarrow> e = d" using none_iff(1) [of "sigs s" x] x(1) by (auto simp: sigs_def)
    show "\<And>p. num (flying ?s) (\<lambda>y. path_of ?s y = p) + g_pin G p = num (flying s) (\<lambda>y. path_of s y = p) + g_pin G p"
      "\<And>p. num (flying ?s) (\<lambda>y. path_of ?s y = p) + g_act G p = num (flying s) (\<lambda>y. path_of s y = p) + g_act G p"
      by (simp_all only: pn)
    show "\<And>p. 0 < g_pin G p \<Longrightarrow> p \<in> dom (pths s)" "g_blk G d \<le> 2" "g_busy G d \<le> 2" using kd unfolding kinds_def by blast+
    show "distinct (works ?s)" "distinct (retryQueue ?s)" using pl nx unfolding places_def by auto
    show "at_one_place G ?s x" using nx by (simp add: at_one_place_def)
  qed (use nx ox in auto)
qed

lemma InvD_lim:
  assumes "Inv G s"
  shows "g_blk G d \<le> 2" "g_busy G d \<le> 2" "0 < g_pin G p \<Longrightarrow> p \<in> dom (pths s)"
    "of_dev (sigs s) d x \<Longrightarrow> d \<in> dom (devs s)" "x \<in> flying s \<Longrightarrow> path_of s x \<in> dom (pths s)"
    "path_dev s p = Some d \<Longrightarrow> d \<in> dom (devs s)"
    "g_open G d \<Longrightarrow> d \<in> dom (devs s)"
  using assms unfolding Inv_def kinds_def by blast+

lemma SchedStart_cmds: "ExampleDeviceSchedStart s d = Some s' \<Longrightarrow> cmds s' = cmds s"
  by (auto simp: ExampleDeviceSchedStart_def ExampleDeviceIncBusyCount_def on_dev_def store_eq_Some split: bind_splits if_splits)

lemma Start_Inv:
  assumes f: "fresh_heap al"
  shows "Inv G s \<Longrightarrow> devs s d = Some D \<Longrightarrow> \<exists>s'. ExampleDeviceStartCommand al s d = Some s' \<and> Inv G s' \<and>
     (\<forall>y Y. cmds s y = Some Y \<longrightarrow> cmds s' y = Some Y)"
proof (induction "psa_queue D" arbitrary: s D)
  case Nil
  show ?case
    using SchedStart_Inv [OF Nil.prems] SchedStart_cmds Nil
    by (subst ExampleDeviceStartCommand.simps) auto
next
  case (Cons cmd rest)
  show ?case
  proof (cases "ExampleDevice_IsBlocked D \<or> al s = NULL")
    case True
    then show ?thesis
      using SchedStart_Inv [OF Cons.prems] SchedStart_cmds Cons.prems by (subst ExampleDeviceStartCommand.simps) auto
  next
    case False
    have fr: "cmds s (al s) = None" "card (dom (cmds s)) < 2 ^ 31" using f False by (auto simp: fresh_heap_def)
    let ?s = "s\<lparr>devs := (devs s)(d \<mapsto> D\<lparr>psa_queue := rest\<rparr>),
      cmds := (cmds s)(al s \<mapsto> \<lparr>x_dev = d, x_path = NULL, x_direct = False, x_cmd = cmd\<rparr>),
      works := works s @ [al s], accepted := accepted s @ [cmd]\<rparr>"
    have i: "Inv G ?s" using accept_Inv [OF Cons.prems fr(1) _ fr(2)] Cons.hyps(2) False by simp
    have nr: "\<not> has_flag D EXAMPLE_DEVICE_REMOVING"
      using InvD_dev [OF Cons.prems] Cons.hyps(2) by (auto simp: dev_ok_def fits_def)
    have d': "devs ?s d = Some (D\<lparr>psa_queue := rest\<rparr>)" by simp
    have "\<exists>s'. ExampleDeviceStartCommand al ?s d = Some s' \<and> Inv G s' \<and> (\<forall>y Y. cmds ?s y = Some Y \<longrightarrow> cmds s' y = Some Y)"
      by (rule Cons.hyps(1) [OF _ i d']) simp
    then obtain s' where s': "ExampleDeviceStartCommand al ?s d = Some s'" "Inv G s'"
      "\<forall>y Y. cmds ?s y = Some Y \<longrightarrow> cmds s' y = Some Y" by blast
    have "\<forall>y Y. cmds s y = Some Y \<longrightarrow> cmds s' y = Some Y"
    proof (intro allI impI)
      fix y Y assume y: "cmds s y = Some Y"
      then have "y \<noteq> al s" using fr(1) by auto
      with y have "cmds ?s y = Some Y" by simp
      with s'(3) show "cmds s' y = Some Y" by blast
    qed
    then show ?thesis
      using s'(1,2) False nr Cons.prems(2) Cons.hyps(2) [symmetric]
      by (subst ExampleDeviceStartCommand.simps) (simp add: on_dev_def Let_def)
  qed
qed

lemma limbo_notin:
  assumes "Inv G s" "x \<in> g_limbo G"
  shows "x \<notin> set (works s)" "x \<notin> set (retryQueue s)" "x \<notin> issued s" "x \<notin> scheduled s" "x \<notin> flying s" "x \<notin> g_held G"
  using assms unfolding Inv_def places_def flying_def by blast+

lemma fits_retire:
  assumes "fits r a b v lim q cr w any Pd d D" "0 < a" "any' \<longrightarrow> any"
  shows "fits r (a - 1) b v lim (q - {x}) cr w any' Pd d (D\<lparr>activeCmdCount := activeCmdCount D - 1,
      resvSensitiveCmdQueue := removeAll x (resvSensitiveCmdQueue D),
      resvSensitiveAbtQueue := removeAll x (resvSensitiveAbtQueue D)\<rparr>)"
proof -
  have "activeCmdCount D \<noteq> 0" using assms by (auto simp: fits_def)
  from unat_dec [OF this] show ?thesis
    using assms by (auto simp: fits_def path_ok_def has_flag_def distinct_removeAll)
qed

lemma retire_Inv:
  assumes i: "Inv G s" and L: "x \<in> g_limbo G" and x: "cmds s x = Some X" "\<not> x_direct X" and D: "devs s (x_dev X) = Some D"
  shows "Inv (G\<lparr>g_limbo := g_limbo G - {x}\<rparr>)
     (s\<lparr>devs := (devs s)(x_dev X \<mapsto> D\<lparr>activeCmdCount := activeCmdCount D - 1,
            resvSensitiveCmdQueue := removeAll x (resvSensitiveCmdQueue D),
            resvSensitiveAbtQueue := removeAll x (resvSensitiveAbtQueue D)\<rparr>),
        cmds := (cmds s)(x := None), completed := completed s @ [x_cmd X]\<rparr>)" (is "Inv ?G (s\<lparr>devs := _(_ \<mapsto> ?D), cmds := _, completed := _\<rparr>)")
proof -
  let ?d = "x_dev X"
  let ?s = "s\<lparr>devs := (devs s)(?d \<mapsto> ?D), cmds := (cmds s)(x := None), completed := completed s @ [x_cmd X]\<rparr>"
  note nx = limbo_notin [OF i L] and fin = InvD_fin [OF i]
  have hp: "heap_ok s" using i by (simp add: Inv_def)
  have K: "sigs ?s y = sigs s y" if "y \<noteq> x" for y using that by simp
  note same = sigs_views [OF K]
  have nox: "\<not> of_dev (sigs ?s) e x" for e by (rule none_iff) simp
  have ox: "of_dev (sigs s) e x \<longleftrightarrow> e = ?d" for e using of_dev_iff [OF x(1)] x(2) by auto
  have n: "num A (of_dev (sigs ?s) e) = num A (of_dev (sigs s) e)" "num A (reserves (sigs ?s) e) = num A (reserves (sigs s) e)"
    if "x \<notin> A" for A e by (rule num_same_off [OF refl that same(1)]; simp) (rule num_same_off [OF refl that same(3)]; simp)
  let ?A = "flying s \<union> set (retryQueue s) \<union> g_held G \<union> g_limbo G"
  have A: "?A - {x} = flying s \<union> set (retryQueue s) \<union> g_held G \<union> (g_limbo G - {x})" using nx by blast
  have a: "num ?A (of_dev (sigs s) ?d) = num (flying s \<union> set (retryQueue s) \<union> g_held G \<union> (g_limbo G - {x})) (of_dev (sigs ?s) ?d) + 1"
    using num_remove [of ?A x "of_dev (sigs s) ?d"] fin L ox nx n(1) [of "?A - {x}"] unfolding A by simp
  have se: "{y \<in> flying s \<union> (g_limbo G - {x}). of_dev (sigs ?s) ?d y \<and> sensitive (sigs ?s) y} =
      {y \<in> flying s \<union> g_limbo G. of_dev (sigs s) ?d y \<and> sensitive (sigs s) y} - {x}"
  proof -
    have "{y \<in> flying s \<union> (g_limbo G - {x}). of_dev (sigs ?s) ?d y \<and> sensitive (sigs ?s) y} =
        {y \<in> flying s \<union> (g_limbo G - {x}). of_dev (sigs s) ?d y \<and> sensitive (sigs s) y}"
      by (rule sens_same_off [where x = x]) (use nx K in auto)
    then show ?thesis using nx by blast
  qed
  have any: "(\<exists>y. of_dev (sigs ?s) ?d y) \<or> g_open G ?d \<longrightarrow> (\<exists>y. of_dev (sigs s) ?d y) \<or> g_open G ?d" using ox by blast
  have eqs: "set (works ?s) = set (works s)" "set (retryQueue ?s) = set (retryQueue s)" "flying ?s = flying s"
    "g_held ?G = g_held G" "g_limbo ?G = g_limbo G - {x}" "g_blk ?G = g_blk G" "g_busy ?G = g_busy G" "g_resv ?G = g_resv G" "g_open ?G = g_open G" "g_credit ?G = g_credit G"
    by simp_all
  have nu: "x \<notin> flying s \<union> set (retryQueue s) \<union> g_held G" using nx by blast
  have a': "num (flying s \<union> set (retryQueue s) \<union> g_held G \<union> (g_limbo G - {x})) (of_dev (sigs ?s) ?d) = num ?A (of_dev (sigs s) ?d) - 1"
    using a by simp
  have ok: "dev_ok ?G (sigs ?s) (path_dev s) (set (works ?s)) (set (retryQueue ?s)) (flying ?s) ?d ?D"
    unfolding dev_ok_def eqs se n(1) [OF nx(2)] n(2) [OF nx(1)] n(2) [OF nu] a'
    by (rule fits_retire [OF InvD_dev [OF i D, unfolded dev_ok_def] _ any]) (simp only: a)
  have pn: "num (flying ?s) (\<lambda>y. path_of ?s y = p) = num (flying s) (\<lambda>y. path_of s y = p)" for p
    by (rule num_same_off [where x = x]) (use nx in \<open>auto simp: path_of_cmd\<close>)
  show ?thesis
  proof (rule Inv_move [OF i D, where s' = ?s and x = x])
    have "dom (cmds ?s) = dom (cmds s) - {x}" by simp
    moreover have "card (dom (cmds s) - {x}) \<le> card (dom (cmds s))" using hp by (intro card_mono) (auto simp: heap_ok_def)
    ultimately show "heap_ok ?s" using hp unfolding heap_ok_def by simp
    show "conserved ?s" by (rule conserved_retire [of s x X]) (use i hp x in \<open>auto simp: Inv_def heap_ok_def\<close>)
    show "dev_ok ?G (sigs ?s) (path_dev s) (set (works ?s)) (set (retryQueue ?s)) (flying ?s) ?d ?D" by (rule ok)
    show "\<And>e. of_dev (sigs s) e x \<Longrightarrow> e = ?d" "\<And>e. of_dev (sigs ?s) e x \<Longrightarrow> e = ?d" using ox nox by blast+
    show "\<And>p. num (flying ?s) (\<lambda>y. path_of ?s y = p) + g_pin ?G p = num (flying s) (\<lambda>y. path_of s y = p) + g_pin G p"
      "\<And>p. num (flying ?s) (\<lambda>y. path_of ?s y = p) + g_act ?G p = num (flying s) (\<lambda>y. path_of s y = p) + g_act G p"
      by (simp_all only: pn) simp_all
    show "\<And>p. 0 < g_pin ?G p \<Longrightarrow> p \<in> dom (pths s)" "g_blk ?G ?d \<le> 2" "g_busy ?G ?d \<le> 2" using InvD_lim [OF i] by simp_all
    show "distinct (works ?s)" "distinct (retryQueue ?s)" using i unfolding Inv_def places_def by auto
    show "at_one_place ?G ?s x" using nx by (simp add: at_one_place_def)
  qed (use nx in auto)
qed

section \<open>Moving a command\<close>

text \<open>The numbers of a set with and without \<open>x\<close>.\<close>

lemma num_split: "finite A \<Longrightarrow> num A Q = num (A - {x}) Q + of_bool (x \<in> A \<and> Q x)"
  by (cases "x \<in> A") (simp_all add: num_remove [of A x Q])

lemma num_diff_eq: "A' - {x} = A - {x} \<Longrightarrow> num (A' - {x}) Q = num (A - {x}) Q"
  by simp

text \<open>
  Whether a device fits its commands after \<open>x\<close> has been moved is a matter of the numbers without \<open>x\<close>,
  which stay, and of the places of \<open>x\<close>.
\<close>

definition moves_ok :: "nat \<Rightarrow> nat \<Rightarrow> ghost \<Rightarrow> plugin \<Rightarrow> ExampleDevice \<Rightarrow> ghost \<Rightarrow> plugin \<Rightarrow> ExampleDevice \<Rightarrow> bool" where
  "moves_ok x d G s D G' s' D' \<longleftrightarrow> (\<forall>r a v w q any.
      fits (r + of_bool (x \<in> set (retryQueue s) \<and> of_dev (sigs s) d x) + g_blk G d)
        (a + of_bool ((x \<in> flying s \<or> x \<in> set (retryQueue s) \<or> x \<in> g_held G \<or> x \<in> g_limbo G) \<and> of_dev (sigs s) d x)) (g_busy G d)
        (v + of_bool ((x \<in> flying s \<or> x \<in> set (retryQueue s) \<or> x \<in> g_held G) \<and> reserves (sigs s) d x)) (g_resv G)
        (q \<union> (if (x \<in> flying s \<or> x \<in> g_limbo G) \<and> of_dev (sigs s) d x \<and> sensitive (sigs s) x then {x} else {})) (g_credit G d)
        (w + of_bool (x \<in> set (works s) \<and> reserves (sigs s) d x)) any (path_dev s) d D \<longrightarrow> x \<notin> q \<longrightarrow>
      fits (r + of_bool (x \<in> set (retryQueue s') \<and> of_dev (sigs s) d x) + g_blk G' d)
        (a + of_bool ((x \<in> flying s' \<or> x \<in> set (retryQueue s') \<or> x \<in> g_held G' \<or> x \<in> g_limbo G') \<and> of_dev (sigs s) d x)) (g_busy G' d)
        (v + of_bool ((x \<in> flying s' \<or> x \<in> set (retryQueue s') \<or> x \<in> g_held G') \<and> reserves (sigs s) d x)) (g_resv G)
        (q \<union> (if (x \<in> flying s' \<or> x \<in> g_limbo G') \<and> of_dev (sigs s) d x \<and> sensitive (sigs s) x then {x} else {})) (g_credit G' d)
        (w + of_bool (x \<in> set (works s') \<and> reserves (sigs s) d x)) any (path_dev s) d D')"

text \<open>
  A command is moved, and nothing else about commands changes.
\<close>

lemma shift_Inv:
  assumes i: "Inv G s" and D: "devs s d = Some D"
    and D': "devs s' = (devs s)(d \<mapsto> D')" and P': "pths s' = pths s" and C: "cmds s' = cmds s"
    and ac: "accepted s' = accepted s" "completed s' = completed s"
    and x: "\<And>e. of_dev (sigs s) e x \<Longrightarrow> e = d" "x \<in> dom (cmds s)"
    and W: "set (works s') - {x} = set (works s) - {x}" "distinct (works s')"
    and R: "set (retryQueue s') - {x} = set (retryQueue s) - {x}" "distinct (retryQueue s')"
    and I: "issued s' - {x} = issued s - {x}" and S: "scheduled s' - {x} = scheduled s - {x}"
    and H: "g_held G' - {x} = g_held G - {x}" and L: "g_limbo G' - {x} = g_limbo G - {x}"
    and one: "at_one_place G' s' x"
    and kx: "x \<in> set (works s') \<Longrightarrow> of_dev (sigs s) d x"
      "x \<in> set (retryQueue s') \<or> x \<in> g_held G' \<Longrightarrow> \<not> sensitive (sigs s) x \<and> of_dev (sigs s) d x"
      "x \<in> flying s' \<Longrightarrow> path_of s x \<in> dom (pths s)"
    and g: "\<And>e. e \<noteq> d \<Longrightarrow> g_blk G' e = g_blk G e \<and> g_busy G' e = g_busy G e \<and> g_credit G' e = g_credit G e" "g_resv G' = g_resv G" "g_open G' = g_open G"
    and gd: "g_blk G' d \<le> 2" "g_busy G' d \<le> 2"
    and pin: "\<And>p. 0 < g_pin G' p \<Longrightarrow> p \<in> dom (pths s)"
      "\<And>p. of_bool (x \<in> flying s' \<and> path_of s x = p) + g_pin G' p = of_bool (x \<in> flying s \<and> path_of s x = p) + g_pin G p"
      "\<And>p. of_bool (x \<in> flying s' \<and> path_of s x = p) + g_act G' p = of_bool (x \<in> flying s \<and> path_of s x = p) + g_act G p"
    and ok: "moves_ok x d G s D G' s' D'"
  shows "Inv G' s'"
proof -
  have sg: "sigs s' = sigs s" and po: "path_of s' = path_of s"
    by (simp_all add: sigs_def [abs_def] path_of_def [abs_def] C)
  have fin: "finite A'" if "A' - {x} = A - {x}" "finite A" for A A' :: "nat set"
    using that by (metis finite_Diff finite_insert insert_Diff_single)
  note f = InvD_fin [OF i]
  have F: "flying s' - {x} = flying s - {x}" using I S unfolding flying_def by blast
  have f': "finite (flying s')" "finite (set (works s'))" "finite (set (retryQueue s'))" "finite (g_held G')" "finite (g_limbo G')"
    using fin [OF F f(1)] fin [OF H f(4)] fin [OF L f(5)] by simp_all
  let ?A = "flying s \<union> set (retryQueue s) \<union> g_held G \<union> g_limbo G" and ?A' = "flying s' \<union> set (retryQueue s') \<union> g_held G' \<union> g_limbo G'"
  let ?V = "flying s \<union> set (retryQueue s) \<union> g_held G" and ?V' = "flying s' \<union> set (retryQueue s') \<union> g_held G'"
  let ?K = "sigs s" let ?od = "of_dev ?K d" let ?rv = "reserves ?K d"
  have u: "?A' - {x} = ?A - {x}" "?V' - {x} = ?V - {x}" unfolding Un_Diff F R(1) H L by (rule refl)+
  let ?q = "{y \<in> (flying s \<union> g_limbo G) - {x}. ?od y \<and> sensitive ?K y}"
  have FL: "(flying s' \<union> g_limbo G') - {x} = (flying s \<union> g_limbo G) - {x}" unfolding Un_Diff F L ..
  have q: "{y \<in> flying s \<union> g_limbo G. ?od y \<and> sensitive ?K y} =
      ?q \<union> (if (x \<in> flying s \<or> x \<in> g_limbo G) \<and> ?od x \<and> sensitive ?K x then {x} else {})" by auto
  have q': "{y \<in> flying s' \<union> g_limbo G'. ?od y \<and> sensitive ?K y} =
      ?q \<union> (if (x \<in> flying s' \<or> x \<in> g_limbo G') \<and> ?od x \<and> sensitive ?K x then {x} else {})"
    unfolding FL [symmetric] by auto
  have fu: "finite ?A" "finite ?V" "finite ?A'" "finite ?V'" using f f' by blast+
  have s0: "num (set (retryQueue s)) ?od = num (set (retryQueue s) - {x}) ?od + of_bool (x \<in> set (retryQueue s) \<and> ?od x)"
    "num ?A ?od = num (?A - {x}) ?od + of_bool ((x \<in> flying s \<or> x \<in> set (retryQueue s) \<or> x \<in> g_held G \<or> x \<in> g_limbo G) \<and> ?od x)"
    "num ?V ?rv = num (?V - {x}) ?rv + of_bool ((x \<in> flying s \<or> x \<in> set (retryQueue s) \<or> x \<in> g_held G) \<and> ?rv x)"
    "num (set (works s)) ?rv = num (set (works s) - {x}) ?rv + of_bool (x \<in> set (works s) \<and> ?rv x)"
    using num_split [OF f(3), of ?od x] num_split [OF fu(1), of ?od x] num_split [OF fu(2), of ?rv x] num_split [OF f(2), of ?rv x] by simp_all
  have s1: "num (set (retryQueue s')) ?od = num (set (retryQueue s) - {x}) ?od + of_bool (x \<in> set (retryQueue s') \<and> ?od x)"
    "num ?A' ?od = num (?A - {x}) ?od + of_bool ((x \<in> flying s' \<or> x \<in> set (retryQueue s') \<or> x \<in> g_held G' \<or> x \<in> g_limbo G') \<and> ?od x)"
    "num ?V' ?rv = num (?V - {x}) ?rv + of_bool ((x \<in> flying s' \<or> x \<in> set (retryQueue s') \<or> x \<in> g_held G') \<and> ?rv x)"
    "num (set (works s')) ?rv = num (set (works s) - {x}) ?rv + of_bool (x \<in> set (works s') \<and> ?rv x)"
    using num_split [OF f'(3), of ?od x] num_split [OF fu(3), of ?od x] num_split [OF fu(4), of ?rv x] num_split [OF f'(2), of ?rv x]
    unfolding u R(1) W(1) by simp_all
  have dok: "dev_ok G' (sigs s') (path_dev s) (set (works s')) (set (retryQueue s')) (flying s') d D'"
    unfolding dev_ok_def sg s1 q' g(2,3)
    by (rule ok [unfolded moves_ok_def, rule_format, OF InvD_dev [OF i D, unfolded dev_ok_def s0 q]]) simp
  have pf: "num (flying s) (\<lambda>y. path_of s y = p) = num (flying s - {x}) (\<lambda>y. path_of s y = p) + of_bool (x \<in> flying s \<and> path_of s x = p)"
    "num (flying s') (\<lambda>y. path_of s y = p) = num (flying s - {x}) (\<lambda>y. path_of s y = p) + of_bool (x \<in> flying s' \<and> path_of s x = p)" for p
    using num_split [OF f(1), of "\<lambda>y. path_of s y = p" x] num_split [OF f'(1), of "\<lambda>y. path_of s y = p" x] unfolding F by blast+
  show ?thesis
  proof (rule Inv_move [OF i D D' P', where x = x])
    show "heap_ok s'" "conserved s'" using i by (simp_all add: Inv_def heap_ok_def conserved_def sg C ac)
    show "\<And>p. num (flying s') (\<lambda>y. path_of s' y = p) + g_pin G' p = num (flying s) (\<lambda>y. path_of s y = p) + g_pin G p"
      "\<And>p. num (flying s') (\<lambda>y. path_of s' y = p) + g_act G' p = num (flying s) (\<lambda>y. path_of s y = p) + g_act G p"
      unfolding po pf using pin(2,3) by (simp_all only: add.assoc)
    show "dev_ok G' (sigs s') (path_dev s) (set (works s')) (set (retryQueue s')) (flying s') d D'" by (rule dok)
    show "\<And>e. of_dev (sigs s') e x \<Longrightarrow> e = d" unfolding sg by (rule x(1))
    show "x \<in> set (works s') \<Longrightarrow> of_dev (sigs s') d x"
      "x \<in> set (retryQueue s') \<or> x \<in> g_held G' \<Longrightarrow> \<not> sensitive (sigs s') x \<and> of_dev (sigs s') d x"
      "x \<in> flying s' \<Longrightarrow> path_of s' x \<in> dom (pths s)"
      unfolding sg po by (fact kx)+
  qed (simp add: C | fact x(1) one W R I S H L g gd pin(1))+
qed

lemma fly_Inv:
  assumes i: "Inv G s" and L: "x \<in> g_limbo G" and p: "path_of s x = p" "0 < g_pin G p" "0 < g_act G p"
    and D: "devs s d = Some D" and x: "\<And>e. of_dev (sigs s) e x \<Longrightarrow> e = d"
    and cr: "of_bool (reserves (sigs s) d x) \<le> g_credit G d"
    and s': "s' = s\<lparr>issued := insert x (issued s)\<rparr> \<or> s' = s\<lparr>scheduled := insert x (scheduled s)\<rparr>"
  shows "Inv (G\<lparr>g_limbo := g_limbo G - {x}, g_pin := (g_pin G)(p := g_pin G p - 1), g_act := (g_act G)(p := g_act G p - 1),
      g_credit := (g_credit G)(d := g_credit G d - of_bool (reserves (sigs s) d x))\<rparr>) s'" (is "Inv ?G s'")
proof -
  note nx = limbo_notin [OF i L]
  have xd: "x \<in> dom (cmds s)" using i L unfolding Inv_def places_def by blast
  have e: "works s' = works s" "retryQueue s' = retryQueue s" "flying s' = insert x (flying s)" "cmds s' = cmds s" "pths s' = pths s"
    "accepted s' = accepted s" "completed s' = completed s" "devs s' = devs s"
    "issued s' - {x} = issued s - {x}" "scheduled s' - {x} = scheduled s - {x}" "\<not> (x \<in> issued s' \<and> x \<in> scheduled s')"
    using s' nx by (auto simp: flying_def)
  show ?thesis
  proof (rule shift_Inv [OF i D, where x = x and D' = D])
    show "devs s' = (devs s)(d \<mapsto> D)" using e D by (simp add: fun_upd_idem)
    show "distinct (works s')" "distinct (retryQueue s')" using i e unfolding Inv_def places_def by auto
    show "x \<in> flying s' \<Longrightarrow> path_of s x \<in> dom (pths s)" using InvD_lim(3) [OF i] p by blast
    show "moves_ok x d G s D ?G s' D" using nx L cr by (auto simp: moves_ok_def fits_def e)
    show "\<And>q. 0 < g_pin ?G q \<Longrightarrow> q \<in> dom (pths s)" using InvD_lim(3) [OF i] by (simp split: if_splits)
    show "at_one_place ?G s' x" using nx xd e by (auto simp: at_one_place_def)
    show "g_blk ?G d \<le> 2" "g_busy ?G d \<le> 2" using InvD_lim(1,2) [OF i] by simp_all
    show "\<And>e. of_dev (sigs s) e x \<Longrightarrow> e = d" by (rule x)
  qed (use xd nx p in \<open>auto simp: e\<close>)
qed

text \<open>The layer below gives a command back.\<close>

lemma take_Inv:
  assumes i: "Inv G s" and F: "x \<in> flying s" and p: "path_of s x = p"
    and D: "devs s d = Some D" and x: "\<And>e. of_dev (sigs s) e x \<Longrightarrow> e = d"
  shows "Inv (G\<lparr>g_limbo := insert x (g_limbo G), g_pin := (g_pin G)(p := g_pin G p + 1), g_act := (g_act G)(p := g_act G p + 1),
      g_credit := (g_credit G)(d := g_credit G d + of_bool (reserves (sigs s) d x))\<rparr>)
     (s\<lparr>issued := issued s - {x}, scheduled := scheduled s - {x}\<rparr>)" (is "Inv ?G ?s")
proof -
  have nx: "x \<notin> set (works s)" "x \<notin> set (retryQueue s)" "x \<notin> g_held G" "x \<notin> g_limbo G"
    using i F unfolding Inv_def places_def by blast+
  have xd: "x \<in> dom (cmds s)" using i F unfolding Inv_def places_def by blast
  have f: "x \<notin> flying ?s" by simp
  show ?thesis
  proof (rule shift_Inv [OF i D, where x = x and D' = D])
    show "devs ?s = (devs s)(d \<mapsto> D)" using D by (simp add: fun_upd_idem)
    show "distinct (works ?s)" "distinct (retryQueue ?s)" using i unfolding Inv_def places_def by auto
    show "moves_ok x d G s D ?G ?s D" using nx F by (auto simp: moves_ok_def fits_def path_ok_def has_flag_def)
    show "\<And>q. 0 < g_pin ?G q \<Longrightarrow> q \<in> dom (pths s)" using InvD_lim(3) [OF i] InvD_lim(5) [OF i F] p by (auto split: if_splits)
    show "at_one_place ?G ?s x" using nx xd F by (auto simp: at_one_place_def flying_def)
    show "g_blk ?G d \<le> 2" "g_busy ?G d \<le> 2" using InvD_lim(1,2) [OF i]  by simp_all
    show "\<And>e. of_dev (sigs s) e x \<Longrightarrow> e = d" by (rule x)
  qed (use xd nx F p in auto)
qed

text \<open>A command is queued for a retry, and taken from the queue.\<close>

lemma retry_Inv:
  assumes i: "Inv G s" and L: "x \<in> g_limbo G" and ns: "\<not> sensitive (sigs s) x"
    and D: "devs s d = Some D" and od: "of_dev (sigs s) d x"
    and cr: "of_bool (reserves (sigs s) d x) \<le> g_credit G d"
  shows "Inv (G\<lparr>g_limbo := g_limbo G - {x}, g_credit := (g_credit G)(d := g_credit G d - of_bool (reserves (sigs s) d x))\<rparr>)
     (s\<lparr>devs := (devs s)(d \<mapsto> D\<lparr>blocked := blocked D + 1\<rparr>), retryQueue := retryQueue s @ [x]\<rparr>)" (is "Inv ?G ?s")
proof -
  note nx = limbo_notin [OF i L]
  have xd: "x \<in> dom (cmds s)" using i L unfolding Inv_def places_def by blast
  have sub: "set (retryQueue s) \<subseteq> dom (cmds s)" using i unfolding Inv_def places_def by blast
  have "unat (blocked D) = num (set (retryQueue s)) (of_dev (sigs s) d) + g_blk G d"
    using InvD_dev [OF i D] by (simp add: dev_ok_def fits_def)
  then have "unat (blocked D) \<le> 2 ^ 31 + 2"
    using Inv_num_le [OF i sub, of "of_dev (sigs s) d"] InvD_lim(1) [OF i, of d] by linarith
  then have bl: "unat (blocked D + 1) = unat (blocked D) + 1" by (simp add: unat_word_ariths)
  have x: "e = d" if "of_dev (sigs s) e x" for e using that od by (auto simp: of_dev_def split: option.splits)
  show ?thesis
  proof (rule shift_Inv [OF i D, where x = x and D' = "D\<lparr>blocked := blocked D + 1\<rparr>"])
    show "distinct (works ?s)" "distinct (retryQueue ?s)" using i nx unfolding Inv_def places_def by auto
    show "moves_ok x d G s D ?G ?s (D\<lparr>blocked := blocked D + 1\<rparr>)" using nx L od ns cr bl by (auto simp: moves_ok_def fits_def path_ok_def has_flag_def)
    show "\<And>q. 0 < g_pin ?G q \<Longrightarrow> q \<in> dom (pths s)" using InvD_lim(3,5) [OF i]  by (simp split: if_splits)
    show "at_one_place ?G ?s x" using nx xd L by (auto simp: at_one_place_def flying_def)
    show "g_blk ?G d \<le> 2" "g_busy ?G d \<le> 2" using InvD_lim(1,2) [OF i]  by simp_all
    show "\<And>e. of_dev (sigs s) e x \<Longrightarrow> e = d" by (rule x)
  qed (use xd nx od ns in auto)
qed

lemma dequeue_Inv:
  assumes i: "Inv G s" and q: "retryQueue s = x # xs" and D: "devs s d = Some D" and od: "of_dev (sigs s) d x" and b: "g_blk G d \<le> 1"
  shows "Inv (G\<lparr>g_held := insert x (g_held G), g_blk := (g_blk G)(d := g_blk G d + 1)\<rparr>) (s\<lparr>retryQueue := xs\<rparr>)" (is "Inv ?G ?s")
proof -
  have R: "x \<in> set (retryQueue s)" using q by simp
  have nx: "x \<notin> set (works s)" "x \<notin> flying s" "x \<notin> issued s" "x \<notin> scheduled s" "x \<notin> g_held G" "x \<notin> g_limbo G" "x \<notin> set xs"
    using i R q unfolding Inv_def places_def flying_def by auto
  have xd: "x \<in> dom (cmds s)" using i R unfolding Inv_def places_def by blast
  have ns: "\<not> sensitive (sigs s) x" using i R unfolding Inv_def kinds_def by blast
  have x: "e = d" if "of_dev (sigs s) e x" for e using that od by (auto simp: of_dev_def split: option.splits)
  show ?thesis
  proof (rule shift_Inv [OF i D, where x = x and D' = D])
    show "devs ?s = (devs s)(d \<mapsto> D)" using D by (simp add: fun_upd_idem)
    show "distinct (works ?s)" "distinct (retryQueue ?s)" using i q unfolding Inv_def places_def by auto
    show "moves_ok x d G s D ?G ?s D" using nx q od ns by (auto simp: moves_ok_def fits_def path_ok_def has_flag_def)
    show "\<And>q. 0 < g_pin ?G q \<Longrightarrow> q \<in> dom (pths s)" using InvD_lim(3,5) [OF i]  by (simp split: if_splits)
    show "at_one_place ?G ?s x" using nx xd q by (auto simp: at_one_place_def flying_def)
    show "g_blk ?G d \<le> 2" "g_busy ?G d \<le> 2" using InvD_lim(1,2) [OF i] b by simp_all
    show "\<And>e. of_dev (sigs s) e x \<Longrightarrow> e = d" by (rule x)
  qed (use xd nx q od ns in auto)
qed

lemma release_Inv:
  assumes i: "Inv G s" and H: "x \<in> g_held G" and D: "devs s d = Some D" and od: "of_dev (sigs s) d x"
  shows "Inv (G\<lparr>g_held := g_held G - {x}, g_limbo := insert x (g_limbo G),
      g_credit := (g_credit G)(d := g_credit G d + of_bool (reserves (sigs s) d x))\<rparr>) s" (is "Inv ?G s")
proof -
  have nx: "x \<notin> set (works s)" "x \<notin> flying s" "x \<notin> issued s" "x \<notin> scheduled s" "x \<notin> set (retryQueue s)" "x \<notin> g_limbo G"
    using i H unfolding Inv_def places_def flying_def by auto
  have xd: "x \<in> dom (cmds s)" using i H unfolding Inv_def places_def by blast
  have ns: "\<not> sensitive (sigs s) x" using i H unfolding Inv_def kinds_def by blast
  have x: "e = d" if "of_dev (sigs s) e x" for e using that od by (auto simp: of_dev_def split: option.splits)
  show ?thesis
  proof (rule shift_Inv [OF i D, where x = x and D' = D])
    show "devs s = (devs s)(d \<mapsto> D)" using D by (simp add: fun_upd_idem)
    show "distinct (works s)" "distinct (retryQueue s)" using i unfolding Inv_def places_def by auto
    show "moves_ok x d G s D ?G s D" using nx H od ns by (auto simp: moves_ok_def fits_def path_ok_def has_flag_def)
    show "\<And>q. 0 < g_pin ?G q \<Longrightarrow> q \<in> dom (pths s)" using InvD_lim(3,5) [OF i]  by (simp split: if_splits)
    show "at_one_place ?G s x" using nx xd H by (auto simp: at_one_place_def flying_def)
    show "g_blk ?G d \<le> 2" "g_busy ?G d \<le> 2" using InvD_lim(1,2) [OF i]  by simp_all
    show "\<And>e. of_dev (sigs s) e x \<Longrightarrow> e = d" by (rule x)
  qed (use xd nx H od ns in auto)
qed

lemma unretry_Inv:
  assumes i: "Inv G s" and R: "x \<in> set (retryQueue s)" and D: "devs s d = Some D" and od: "of_dev (sigs s) d x" and b: "g_blk G d \<le> 1"
  shows "Inv (G\<lparr>g_limbo := insert x (g_limbo G), g_blk := (g_blk G)(d := Suc (g_blk G d))\<rparr>)
     (s\<lparr>retryQueue := removeAll x (retryQueue s)\<rparr>)" (is "Inv ?G ?s")
proof -
  have nx: "x \<notin> set (works s)" "x \<notin> flying s" "x \<notin> issued s" "x \<notin> scheduled s" "x \<notin> g_held G" "x \<notin> g_limbo G"
    using i R unfolding Inv_def places_def flying_def by auto
  have xd: "x \<in> dom (cmds s)" using i R unfolding Inv_def places_def by blast
  have ns: "\<not> sensitive (sigs s) x" using i R unfolding Inv_def kinds_def by blast
  have x: "e = d" if "of_dev (sigs s) e x" for e using that od by (auto simp: of_dev_def split: option.splits)
  show ?thesis
  proof (rule shift_Inv [OF i D, where x = x and D' = D])
    show "devs ?s = (devs s)(d \<mapsto> D)" using D by (simp add: fun_upd_idem)
    show "distinct (works ?s)" "distinct (retryQueue ?s)" using i unfolding Inv_def places_def by (auto simp: distinct_removeAll)
    show "moves_ok x d G s D ?G ?s D" using nx R od ns by (auto simp: moves_ok_def fits_def path_ok_def has_flag_def)
    show "\<And>q. 0 < g_pin ?G q \<Longrightarrow> q \<in> dom (pths s)" using InvD_lim(3,5) [OF i]  by (simp split: if_splits)
    show "at_one_place ?G ?s x" using nx xd R by (auto simp: at_one_place_def flying_def)
    show "g_blk ?G d \<le> 2" "g_busy ?G d \<le> 2" using InvD_lim(1,2) [OF i] b by simp_all
    show "\<And>e. of_dev (sigs s) e x \<Longrightarrow> e = d" by (rule x)
  qed (use xd nx R od ns in auto)
qed

end
