(* ===== verification/Plugin_Ops.thy ===== *)
theory Plugin_Ops
  imports Plugin_Moves
begin

text \<open>The operations keep the invariant, and no assertion in them fails.\<close>

section \<open>Paths\<close>

lemma Inv_path_ghost:
  assumes i: "Inv G s" and P: "pths s p = Some P" and eq: "p_dev P' = p_dev P"
    and G': "G' = G\<lparr>g_pin := (g_pin G)(p := a), g_act := (g_act G)(p := b)\<rparr>"
    and ok: "path_counts G' (path_of s) (flying s) p P'"
  shows "Inv G' (s\<lparr>pths := (pths s)(p \<mapsto> P')\<rparr>)"
proof -
  have dm: "dom ((pths s)(p \<mapsto> P')) = dom (pths s)" and pp: "p \<in> dom (pths s)" using P by auto
  have pd: "path_dev (s\<lparr>pths := (pths s)(p \<mapsto> P')\<rparr>) = path_dev s"
    unfolding path_dev_path eq using P by (simp add: path_dev_def [abs_def] fun_eq_iff)
  have "places G' s" using i places_ghost [of G' G s] by (simp add: Inv_def G')
  moreover have "kinds G' (s\<lparr>pths := (pths s)(p \<mapsto> P')\<rparr>)"
    using i dm pp by (simp add: Inv_def kinds_def pd G' del: dom_fun_upd)
  moreover have "devs_ok G' s" using i by (simp add: Inv_def devs_ok_def dev_ok_def G')
  moreover have "paths_ok G' (s\<lparr>pths := (pths s)(p \<mapsto> P')\<rparr>)"
    using i ok by (simp add: Inv_def paths_ok_def path_counts_def G')
  ultimately show ?thesis using i by (simp add: Inv_def devs_ok_def pd G')
qed

lemma flying_num_le: "Inv G s \<Longrightarrow> num (flying s) Q \<le> 2 ^ 31"
  by (rule Inv_num_le) (auto simp: Inv_def places_def)

lemma hold_path_Inv:
  assumes i: "Inv G s" and P: "pths s p = Some P" and le: "g_pin G p \<le> 2 ^ 20" "g_act G p \<le> 2 ^ 20"
  shows "\<exists>s' m. hold_path s p = Some s' \<and> s' = s\<lparr>pths := m\<rparr> \<and>
     Inv (G\<lparr>g_pin := (g_pin G)(p := g_pin G p + 1), g_act := (g_act G)(p := g_act G p + 1)\<rparr>) s'"
proof -
  let ?P = "P\<lparr>p_activeCmdCount := p_activeCmdCount P + 1, p_refCount := p_refCount P + 1\<rparr>"
  have n: "unat (p_refCount P) \<le> 2 ^ 31 + 2 ^ 20" "unat (p_activeCmdCount P) \<le> 2 ^ 31 + 2 ^ 20"
    using InvD_path [OF i P] flying_num_le [OF i, of "\<lambda>x. path_of s x = p"] le by (simp_all add: path_counts_def)
  then have "unat (p_refCount P + 1) = unat (p_refCount P) + 1" "unat (p_activeCmdCount P + 1) = unat (p_activeCmdCount P) + 1"
    by (simp_all add: unat_word_ariths)
  then have "Inv (G\<lparr>g_pin := (g_pin G)(p := g_pin G p + 1), g_act := (g_act G)(p := g_act G p + 1)\<rparr>)
      (s\<lparr>pths := (pths s)(p \<mapsto> ?P)\<rparr>)"
    by (intro Inv_path_ghost [OF i P _ refl]) (use InvD_path [OF i P] in \<open>simp_all add: path_counts_def\<close>)
  moreover have "hold_path s p = Some (s\<lparr>pths := (pths s)(p \<mapsto> ?P)\<rparr>)"
    using P by (simp add: hold_path_def ExamplePathIncRefCount_def on_path_def)
  ultimately show ?thesis by blast
qed

lemma deref_path_Inv:
  assumes i: "Inv G s" and g: "0 < g_pin G p" "0 < g_act G p"
  shows "\<exists>s' m. deref_path s p = Some s' \<and> s' = s\<lparr>pths := m\<rparr> \<and>
     Inv (G\<lparr>g_pin := (g_pin G)(p := g_pin G p - 1), g_act := (g_act G)(p := g_act G p - 1)\<rparr>) s'"
proof -
  obtain P where P: "pths s p = Some P" using InvD_lim(3) [OF i g(1)] by auto
  let ?P = "P\<lparr>p_activeCmdCount := p_activeCmdCount P - 1, p_refCount := p_refCount P - 1\<rparr>"
  have nz: "p_refCount P \<noteq> 0" "p_activeCmdCount P \<noteq> 0"
    using InvD_path [OF i P] g by (auto simp: path_counts_def)
  have "Inv (G\<lparr>g_pin := (g_pin G)(p := g_pin G p - 1), g_act := (g_act G)(p := g_act G p - 1)\<rparr>)
      (s\<lparr>pths := (pths s)(p \<mapsto> ?P)\<rparr>)"
    by (intro Inv_path_ghost [OF i P _ refl])
      (use InvD_path [OF i P] g unat_dec [OF nz(1)] unat_dec [OF nz(2)] in \<open>simp_all add: path_counts_def\<close>)
  moreover have "deref_path s p = Some (s\<lparr>pths := (pths s)(p \<mapsto> ?P)\<rparr>)"
    using P nz by (simp add: deref_path_def ExamplePathDecRefCount_def on_path_def word_neq_0_conv)
  ultimately show ?thesis by blast
qed

lemma IncRef_Inv:
  assumes i: "Inv G s" and P: "pths s p = Some P" and le: "g_pin G p \<le> 2 ^ 20"
  shows "\<exists>s' m. ExamplePathIncRefCount s p = Some s' \<and> s' = s\<lparr>pths := m\<rparr> \<and>
     Inv (G\<lparr>g_pin := (g_pin G)(p := g_pin G p + 1)\<rparr>) s'"
proof -
  let ?P = "P\<lparr>p_refCount := p_refCount P + 1\<rparr>"
  have "unat (p_refCount P) \<le> 2 ^ 31 + 2 ^ 20"
    using InvD_path [OF i P] flying_num_le [OF i, of "\<lambda>x. path_of s x = p"] le by (simp add: path_counts_def)
  then have "unat (p_refCount P + 1) = unat (p_refCount P) + 1" by (simp add: unat_word_ariths)
  then have "Inv (G\<lparr>g_pin := (g_pin G)(p := g_pin G p + 1)\<rparr>) (s\<lparr>pths := (pths s)(p \<mapsto> ?P)\<rparr>)"
    by (intro Inv_path_ghost [OF i P, where b = "g_act G p"]) (use InvD_path [OF i P] in \<open>simp_all add: path_counts_def\<close>)
  moreover have "ExamplePathIncRefCount s p = Some (s\<lparr>pths := (pths s)(p \<mapsto> ?P)\<rparr>)"
    using P by (simp add: ExamplePathIncRefCount_def on_path_def)
  ultimately show ?thesis by blast
qed

lemma DecRef_Inv:
  assumes i: "Inv G s" and g: "0 < g_pin G p"
  shows "\<exists>s' m. ExamplePathDecRefCount s p = Some s' \<and> s' = s\<lparr>pths := m\<rparr> \<and>
     Inv (G\<lparr>g_pin := (g_pin G)(p := g_pin G p - 1)\<rparr>) s'"
proof -
  obtain P where P: "pths s p = Some P" using InvD_lim(3) [OF i g] by auto
  let ?P = "P\<lparr>p_refCount := p_refCount P - 1\<rparr>"
  have nz: "p_refCount P \<noteq> 0" using InvD_path [OF i P] g by (auto simp: path_counts_def)
  have "Inv (G\<lparr>g_pin := (g_pin G)(p := g_pin G p - 1)\<rparr>) (s\<lparr>pths := (pths s)(p \<mapsto> ?P)\<rparr>)"
    by (intro Inv_path_ghost [OF i P, where b = "g_act G p"])
      (use InvD_path [OF i P] g unat_dec [OF nz] in \<open>simp_all add: path_counts_def\<close>)
  moreover have "ExamplePathDecRefCount s p = Some (s\<lparr>pths := (pths s)(p \<mapsto> ?P)\<rparr>)"
    using P nz by (simp add: ExamplePathDecRefCount_def on_path_def word_neq_0_conv)
  ultimately show ?thesis by blast
qed

lemma set_path_state_Inv:
  assumes i: "Inv G s" and P: "pths s p = Some P"
  shows "\<exists>s' m. set_path_state s p st = Some s' \<and> s' = s\<lparr>pths := m\<rparr> \<and> Inv G s'"
proof -
  have "Inv G (s\<lparr>pths := (pths s)(p \<mapsto> P\<lparr>p_state := st\<rparr>)\<rparr>)"
    by (rule Inv_path [OF i P]) (use InvD_path [OF i P] in \<open>simp_all add: path_counts_def\<close>)
  then show ?thesis using P by (auto simp: set_path_state_def on_path_def)
qed

section \<open>Completing a command\<close>

lemma limbo_dev:
  assumes i: "Inv G s" and x: "cmds s x = Some X" "\<not> x_direct X"
  obtains D where "devs s (x_dev X) = Some D"
proof -
  have "of_dev (sigs s) (x_dev X) x" using of_dev_iff [OF x(1)] x(2) by simp
  from InvD_lim(4) [OF i this] show thesis using that by auto
qed

lemma queue_sens:
  assumes i: "Inv G s" and D: "devs s d = Some D" and x: "\<not> sensitive (sigs s) x"
  shows "x \<notin> set (resvSensitiveCmdQueue D)" "x \<notin> set (resvSensitiveAbtQueue D)"
  using InvD_dev [OF i D] x by (auto simp: dev_ok_def fits_def)

lemma CompleteDevice_Inv:
  assumes i: "Inv G s" and f: "fresh_heap al" and L: "x \<in> g_limbo G" and x: "cmds s x = Some X" "\<not> x_direct X"
  shows "\<exists>s'. ExampleCompleteDeviceCommand api al s x = Some s' \<and> Inv (G\<lparr>g_limbo := g_limbo G - {x}\<rparr>) s' \<and>
     (\<forall>y Y. y \<noteq> x \<longrightarrow> cmds s y = Some Y \<longrightarrow> cmds s' y = Some Y)"
proof -
  let ?d = "x_dev X" and ?c = "x_cmd X"
  obtain D where D: "devs s ?d = Some D" using limbo_dev [OF i x] .
  let ?por = "is_check api (c_status ?c) \<and> c_sense ?c \<noteq> NoSense \<and> c_por ?c"
  have "\<exists>s1 D1. (if ?por then ExampleUpdateDevOnRel s ?d True else Some s) = Some s1 \<and> Inv G s1 \<and>
      s1 = s\<lparr>devs := (devs s)(?d \<mapsto> D1)\<rparr>"
  proof (cases ?por)
    case True then show ?thesis using UpdateDevOnRel_Inv [OF i D, of True] by auto
  next
    case False
    have "s\<lparr>devs := (devs s)(?d \<mapsto> D)\<rparr> = s" using D by (simp add: fun_upd_idem)
    with False i show ?thesis by (metis (no_types, lifting))
  qed
  then obtain s1 D1 where s1: "(if ?por then ExampleUpdateDevOnRel s ?d True else Some s) = Some s1" "Inv G s1"
    and s1': "s1 = s\<lparr>devs := (devs s)(?d \<mapsto> D1)\<rparr>" by blast
  have D1: "devs s1 ?d = Some D1" and x1: "cmds s1 x = Some X" using s1' x by simp_all
  let ?D2 = "D1\<lparr>activeCmdCount := activeCmdCount D1 - 1\<rparr>"
  let ?D3 = "?D2\<lparr>resvSensitiveCmdQueue := removeAll x (resvSensitiveCmdQueue D1),
            resvSensitiveAbtQueue := removeAll x (resvSensitiveAbtQueue D1)\<rparr>"
  let ?s3 = "s1\<lparr>devs := (devs s1)(?d \<mapsto> ?D3)\<rparr>"
  let ?s4 = "s1\<lparr>devs := (devs s1)(?d \<mapsto> ?D3), cmds := (cmds s1)(x := None), completed := completed s1 @ [?c]\<rparr>"
  have i4: "Inv (G\<lparr>g_limbo := g_limbo G - {x}\<rparr>) ?s4" by (rule retire_Inv [OF s1(2) L x1 x(2) D1])
  have q: "\<not> c_resv_sensitive ?c \<Longrightarrow> ?D3 = ?D2"
    using queue_sens [OF s1(2) D1, of x] sensitive_iff [OF x1] by simp
  have nr: "x \<notin> set (retryQueue s1)" using limbo_notin(2) [OF s1(2) L] .
  have st: "(on_dev s1 ?d (\<lambda>D. D\<lparr>activeCmdCount := activeCmdCount D - 1\<rparr>) \<bind> (\<lambda>s.
      (if c_resv_sensitive ?c then on_dev s ?d (\<lambda>D. D\<lparr>resvSensitiveCmdQueue := removeAll x (resvSensitiveCmdQueue D),
          resvSensitiveAbtQueue := removeAll x (resvSensitiveAbtQueue D)\<rparr>) else Some s))) = Some ?s3"
    using D1 q by (simp add: on_dev_def)
  have un: "unlinked ?s3 x" using x1 nr by (simp add: unlinked_def)
  have fr: "ExampleFreeExCommand ?s3 x = Some (?s3\<lparr>cmds := (cmds s1)(x := None)\<rparr>)"
    using un x1 by (simp add: ExampleFreeExCommand_def)
  have d4: "devs ?s4 ?d = Some ?D3" by simp
  obtain s5 where s5: "ExampleDeviceStartCommand al ?s4 ?d = Some s5" "Inv (G\<lparr>g_limbo := g_limbo G - {x}\<rparr>) s5"
    "\<forall>y Y. cmds ?s4 y = Some Y \<longrightarrow> cmds s5 y = Some Y"
    using Start_Inv [OF f i4 d4] by blast
  have k: "\<forall>y Y. y \<noteq> x \<longrightarrow> cmds s y = Some Y \<longrightarrow> cmds s5 y = Some Y" using s5(3) s1' by auto
  have "ExampleCompleteDeviceCommand api al s x = Some s5"
  proof -
    have "ExampleCompleteDeviceCommand api al s x =
        (on_dev s1 ?d (\<lambda>D. D\<lparr>activeCmdCount := activeCmdCount D - 1\<rparr>) \<bind> (\<lambda>s.
      (if c_resv_sensitive ?c then on_dev s ?d (\<lambda>D. D\<lparr>resvSensitiveCmdQueue := removeAll x (resvSensitiveCmdQueue D),
          resvSensitiveAbtQueue := removeAll x (resvSensitiveAbtQueue D)\<rparr>) else Some s))) \<bind>
        (\<lambda>s. ExampleFreeExCommand s x \<bind> (\<lambda>s. ExampleDeviceStartCommand al (s\<lparr>completed := completed s @ [?c]\<rparr>) ?d))"
      using x s1(1) by (simp add: ExampleCompleteDeviceCommand_def Let_def)
    then show ?thesis unfolding st using fr s5(1) by simp
  qed
  with s5(2) k show ?thesis by blast
qed

text \<open>Credit for a reservation can be given up.\<close>

lemma credit_drop:
  assumes i: "Inv G s" and c: "c \<le> g_credit G d"
  shows "Inv (G\<lparr>g_credit := (g_credit G)(d := c)\<rparr>) s"
proof -
  have "dev_ok (G\<lparr>g_credit := (g_credit G)(d := c)\<rparr>) (sigs s) (path_dev s) (set (works s)) (set (retryQueue s)) (flying s) e E"
    if "devs s e = Some E" for e E
    using InvD_dev [OF i that] c by (auto simp: dev_ok_def fits_def)
  then show ?thesis using i by (simp add: Inv_def devs_ok_def kinds_def paths_ok_def path_counts_def places_def)
qed

lemma resv_done_Inv:
  assumes i: "Inv G s" and D: "devs s d = Some D" and c: "op = RESERVE_UNIT \<Longrightarrow> 0 < g_credit G d"
  shows "\<exists>s' m. resv_done s d p op = Some s' \<and> s' = s\<lparr>devs := m\<rparr> \<and>
     Inv (G\<lparr>g_credit := (g_credit G)(d := g_credit G d - of_bool (op = RESERVE_UNIT))\<rparr>) s'"
proof (cases "op = RESERVE_UNIT")
  case True
  let ?G = "G\<lparr>g_credit := (g_credit G)(d := g_credit G d - 1)\<rparr>"
  let ?D = "D\<lparr>d_flags := (d_flags D AND NOT EXAMPLE_DEVICE_RESERVING) OR EXAMPLE_DEVICE_RESERVED,
      pendingReserves := pendingReserves D - 1, resPath := p\<rparr>"
  note ok = InvD_dev [OF i D]
  have nz: "pendingReserves D \<noteq> 0" using ok c [OF True] by (auto simp: dev_ok_def fits_def)
  have f: "has_flag ?D EXAMPLE_DEVICE_REMOVING = has_flag D EXAMPLE_DEVICE_REMOVING"
    by (simp add: has_flag_def flag_masks)
  have ok': "dev_ok ?G (sigs s) (path_dev s) (set (works s)) (set (retryQueue s)) (flying s) d ?D"
    using ok c [OF True] unat_dec [OF nz] f unfolding dev_ok_def fits_def path_ok_def by auto
  have "Inv ?G (s\<lparr>devs := (devs s)(d \<mapsto> ?D)\<rparr>)"
    by (rule Inv_dev_ghost [OF i D _ _ _ _ _ _ _ _ _ ok']) (use InvD_lim(1,2) [OF i] in simp_all)
  moreover have "resv_done s d p op = Some (s\<lparr>devs := (devs s)(d \<mapsto> ?D)\<rparr>)"
    using True D nz by (simp add: resv_done_def ExampleUpdateDevOnRes_def on_dev_def word_neq_0_conv)
  ultimately show ?thesis using True by auto
next
  case False
  have "s\<lparr>devs := devs s\<rparr> = s" by simp
  moreover have "\<exists>s' m. resv_done s d p op = Some s' \<and> s' = s\<lparr>devs := m\<rparr> \<and> Inv G s'"
  proof (cases "op = RELEASE_UNIT")
    case True with UpdateDevOnRel_Inv [OF i D, of False] show ?thesis by (auto simp: resv_done_def)
  next
    case False with \<open>op \<noteq> RESERVE_UNIT\<close> i show ?thesis
      by (intro exI [of _ s] exI [of _ "devs s"]) (simp add: resv_done_def)
  qed
  ultimately show ?thesis using False by simp
qed

lemma on_cmd_Inv:
  assumes i: "Inv G s" and x: "cmds s x = Some X" "x \<in> g_limbo G" and eq: "sig_of (f X) = sig_of X"
  shows "on_cmd s x f = Some (s\<lparr>cmds := (cmds s)(x \<mapsto> f X)\<rparr>)" "Inv G (s\<lparr>cmds := (cmds s)(x \<mapsto> f X)\<rparr>)"
  using Inv_cmd [OF i x eq] x by (simp_all add: on_cmd_def)

lemma sig_same:
  "x_direct X' = x_direct X \<Longrightarrow> x_dev X' = x_dev X \<Longrightarrow> c_resv_sensitive (x_cmd X') = c_resv_sensitive (x_cmd X) \<Longrightarrow>
   c_op (x_cmd X') = c_op (x_cmd X) \<Longrightarrow> c_id (x_cmd X') = c_id (x_cmd X) \<Longrightarrow> sig_of X' = sig_of X"
  by (simp add: sig_of_def)

lemma sig_ofD:
  "sig_of X' = sig_of X \<Longrightarrow> x_direct X' = x_direct X \<and> x_dev X' = x_dev X \<and>
     c_resv_sensitive (x_cmd X') = c_resv_sensitive (x_cmd X) \<and> c_op (x_cmd X') = c_op (x_cmd X)"
  by (simp add: sig_of_def)

lemma DetermineFailure_Inv:
  assumes i: "Inv G s" and x: "cmds s x = Some X" "x \<in> g_limbo G" and P: "pths s (x_path X) = Some P"
  shows "\<exists>s' a X' m. Example_PathDetermineFailure api s x = Some (s', a) \<and> Inv G s' \<and>
     (a = ACTION_FAILOVER \<longrightarrow> \<not> c_resv_sensitive (x_cmd X)) \<and>
     s' = s\<lparr>pths := m, cmds := (cmds s)(x \<mapsto> X')\<rparr> \<and> sig_of X' = sig_of X \<and> x_path X' = x_path X"
proof (cases "host_action api (x_cmd X) = ACTION_FAILOVER \<and> c_resv_sensitive (x_cmd X)")
  case False
  have "s = s\<lparr>pths := pths s, cmds := (cmds s)(x \<mapsto> X)\<rparr>" using x by (simp add: fun_upd_idem)
  then show ?thesis using False i x
    by (intro exI [of _ s] exI [of _ "host_action api (x_cmd X)"] exI [of _ X] exI [of _ "pths s"])
      (auto simp: Example_PathDetermineFailure_def Let_def)
next
  case True
  let ?X = "X\<lparr>x_cmd := (x_cmd X)\<lparr>c_status := (c_status (x_cmd X))\<lparr>st_plugin := PLUGIN_RESERVATION_LOST\<rparr>\<rparr>\<rparr>"
  have sg: "sig_of ?X = sig_of X" by (rule sig_same) simp_all
  have "\<exists>s1 m. (if st_host (c_status (x_cmd X)) = HOST_NO_CONNECT
      then on_path s (x_path X) (\<lambda>P. P\<lparr>p_state := PATH_DEAD\<rparr>) else Some s) = Some s1 \<and> s1 = s\<lparr>pths := m\<rparr> \<and> Inv G s1"
  proof (cases "st_host (c_status (x_cmd X)) = HOST_NO_CONNECT")
    case True
    then show ?thesis using set_path_state_Inv [OF i P, of PATH_DEAD] by (simp add: set_path_state_def)
  next
    case False
    then show ?thesis using i by (intro exI [of _ s] exI [of _ "pths s"]) simp
  qed
  then obtain s1 m where s1: "(if st_host (c_status (x_cmd X)) = HOST_NO_CONNECT
      then on_path s (x_path X) (\<lambda>P. P\<lparr>p_state := PATH_DEAD\<rparr>) else Some s) = Some s1" "s1 = s\<lparr>pths := m\<rparr>" "Inv G s1" by blast
  have x1: "cmds s1 x = Some X" using s1(2) x by simp
  note c = on_cmd_Inv [OF s1(3) x1 x(2), of "\<lambda>X. X\<lparr>x_cmd := (x_cmd X)\<lparr>c_status := (c_status (x_cmd X))\<lparr>st_plugin := PLUGIN_RESERVATION_LOST\<rparr>\<rparr>\<rparr>", OF sg]
  have "Example_PathDetermineFailure api s x = Some (s1\<lparr>cmds := (cmds s1)(x \<mapsto> ?X)\<rparr>, ACTION_EVAL)"
    unfolding Example_PathDetermineFailure_def using True x(1) s1(1) c(1) by (simp add: Let_def)
  with c(2) sg s1(2) show ?thesis
    by (intro exI [of _ "s1\<lparr>cmds := (cmds s1)(x \<mapsto> ?X)\<rparr>"] exI [of _ ACTION_EVAL] exI [of _ ?X] exI [of _ m]) simp
qed

lemma QueueToRetry_Inv:
  assumes i: "Inv G s" and x: "cmds s x = Some X" "x \<in> g_limbo G" "\<not> x_direct X" "\<not> c_resv_sensitive (x_cmd X)"
    and c: "of_bool (c_op (x_cmd X) = RESERVE_UNIT) \<le> g_credit G (x_dev X)"
  shows "\<exists>s' m. ExampleQueueCmdToRetry s x = Some s' \<and> s' = s\<lparr>devs := m, retryQueue := retryQueue s @ [x]\<rparr> \<and>
    Inv (G\<lparr>g_limbo := g_limbo G - {x}, g_credit := (g_credit G)(x_dev X := g_credit G (x_dev X) - of_bool (c_op (x_cmd X) = RESERVE_UNIT))\<rparr>) s'"
proof -
  let ?d = "x_dev X"
  obtain D where D: "devs s ?d = Some D" using limbo_dev [OF i x(1,3)] .
  have ns: "\<not> sensitive (sigs s) x" using sensitive_iff [OF x(1)] x(4) by simp
  have od: "of_dev (sigs s) ?d x" using of_dev_iff [OF x(1)] x(3) by simp
  have rv: "reserves (sigs s) ?d x = (c_op (x_cmd X) = RESERVE_UNIT)" using reserves_iff [OF x(1)] x(3) by simp
  have un: "unlinked s x"
    using limbo_notin(2) [OF i x(2)] queue_sens [OF i D ns] x(1) D by (simp add: unlinked_def)
  let ?s = "s\<lparr>devs := (devs s)(?d \<mapsto> D\<lparr>blocked := blocked D + 1\<rparr>), retryQueue := retryQueue s @ [x]\<rparr>"
  have "Inv (G\<lparr>g_limbo := g_limbo G - {x}, g_credit := (g_credit G)(?d := g_credit G ?d - of_bool (reserves (sigs s) ?d x))\<rparr>) ?s"
    by (rule retry_Inv [OF i x(2) ns D od]) (use c rv in simp)
  moreover have "ExampleQueueCmdToRetry s x = Some ?s"
    using x un D by (simp add: ExampleQueueCmdToRetry_def ExampleDevice_Block_def on_dev_def)
  ultimately show ?thesis unfolding rv by blast
qed

text \<open>The completion of a command that has been taken from the layer below.\<close>

lemma CompletePath_Inv:
  assumes i: "Inv G s" and f: "fresh_heap al" and x: "cmds s x = Some X" "x \<in> g_limbo G" "\<not> x_direct X"
    and g: "0 < g_pin G (x_path X)" "0 < g_act G (x_path X)"
    and c: "of_bool (c_op (x_cmd X) = RESERVE_UNIT) \<le> g_credit G (x_dev X)"
  shows "\<exists>s'. Example_CompletePathCommand api al s x = Some s' \<and>
     Inv (G\<lparr>g_credit := (g_credit G)(x_dev X := g_credit G (x_dev X) - of_bool (c_op (x_cmd X) = RESERVE_UNIT)),
        g_limbo := g_limbo G - {x}, g_pin := (g_pin G)(x_path X := g_pin G (x_path X) - 1),
        g_act := (g_act G)(x_path X := g_act G (x_path X) - 1)\<rparr>) s'"
proof -
  let ?p = "x_path X" and ?d = "x_dev X" and ?r = "of_bool (c_op (x_cmd X) = RESERVE_UNIT) :: nat"
  obtain P where P: "pths s ?p = Some P" using InvD_lim(3) [OF i g(1)] by auto
  obtain D where D: "devs s ?d = Some D" using limbo_dev [OF i x(1,3)] .
  let ?Gc = "G\<lparr>g_credit := (g_credit G)(?d := g_credit G ?d - ?r)\<rparr>"
  have comm: "G\<lparr>g_limbo := a, g_credit := b\<rparr> = G\<lparr>g_credit := b, g_limbo := a\<rparr>" for a b by simp
  let ?Gl = "?Gc\<lparr>g_limbo := g_limbo G - {x}\<rparr>"
  let ?G' = "?Gl\<lparr>g_pin := (g_pin G)(?p := g_pin G ?p - 1), g_act := (g_act G)(?p := g_act G ?p - 1)\<rparr>"
  have der: "\<exists>s'. deref_path s3 ?p = Some s' \<and> Inv ?G' s'" if "Inv ?Gl s3" for s3
    using deref_path_Inv [OF that, of ?p] g by auto
  show ?thesis
  proof (cases "is_successful api (c_status (x_cmd X))")
    case True
    have "\<exists>s1 m. (if p_state P = PATH_DEAD then set_path_state s ?p PATH_ON else Some s) = Some s1 \<and> s1 = s\<lparr>pths := m\<rparr> \<and> Inv G s1"
    proof (cases "p_state P = PATH_DEAD")
      case True then show ?thesis using set_path_state_Inv [OF i P, of PATH_ON] by simp
    next
      case False then show ?thesis using i by (intro exI [of _ s] exI [of _ "pths s"]) simp
    qed
    then obtain s1 m where s1: "(if p_state P = PATH_DEAD then set_path_state s ?p PATH_ON else Some s) = Some s1"
      "s1 = s\<lparr>pths := m\<rparr>" "Inv G s1" by blast
    have D1: "devs s1 ?d = Some D" using s1(2) D by simp
    have cc: "c_op (x_cmd X) = RESERVE_UNIT \<Longrightarrow> 0 < g_credit G ?d" using c by simp
    obtain s2 m2 where s2: "resv_done s1 ?d ?p (c_op (x_cmd X)) = Some s2" "s2 = s1\<lparr>devs := m2\<rparr>" "Inv ?Gc s2"
      using resv_done_Inv [OF s1(3) D1, of "c_op (x_cmd X)" ?p, OF cc] by blast
    have x2: "cmds s2 x = Some X" using s2(2) s1(2) x(1) by simp
    obtain s3 where s3: "ExampleCompleteDeviceCommand api al s2 x = Some s3" "Inv ?Gl s3"
      using CompleteDevice_Inv [OF s2(3) f _ x2 x(3), of api] x(2) by auto
    from der [OF s3(2)] show ?thesis
      unfolding Example_CompletePathCommand_def using x(1) P True s1(1) s2(1) s3(1) by (simp add: Let_def)
  next
    case False
    obtain s1 a X1 m where s1: "Example_PathDetermineFailure api s x = Some (s1, a)" "Inv G s1"
      "a = ACTION_FAILOVER \<longrightarrow> \<not> c_resv_sensitive (x_cmd X)" "s1 = s\<lparr>pths := m, cmds := (cmds s)(x \<mapsto> X1)\<rparr>"
      "sig_of X1 = sig_of X" "x_path X1 = x_path X"
      using DetermineFailure_Inv [OF i x(1,2) P, of api] by blast
    have x1: "cmds s1 x = Some X1" using s1(4) by simp
    note sg = sig_ofD [OF s1(5)]
    obtain P1 where P1: "pths s1 ?p = Some P1" using InvD_lim(3) [OF s1(2) g(1)] by auto
    show ?thesis
    proof (cases "a = ACTION_FAILOVER")
      case True
      have "\<exists>s2 m. (if st_host (c_status (x_cmd X)) = HOST_NO_CONNECT then set_path_state s1 ?p PATH_DEAD else Some s1) = Some s2
          \<and> s2 = s1\<lparr>pths := m\<rparr> \<and> Inv G s2"
      proof (cases "st_host (c_status (x_cmd X)) = HOST_NO_CONNECT")
        case True then show ?thesis using set_path_state_Inv [OF s1(2) P1, of PATH_DEAD] by simp
      next
        case False then show ?thesis using s1(2) by (intro exI [of _ s1] exI [of _ "pths s1"]) simp
      qed
      then obtain s2 m2 where s2: "(if st_host (c_status (x_cmd X)) = HOST_NO_CONNECT then set_path_state s1 ?p PATH_DEAD else Some s1) = Some s2"
        "s2 = s1\<lparr>pths := m2\<rparr>" "Inv G s2" by blast
      have x2: "cmds s2 x = Some X1" using s2(2) x1 by simp
      obtain s3 where s3: "ExampleQueueCmdToRetry s2 x = Some s3" "Inv ?Gl s3"
        using QueueToRetry_Inv [OF s2(3) x2 x(2)] sg x(3) s1(3) True c by (auto simp: comm)
      from der [OF s3(2)] show ?thesis
        unfolding Example_CompletePathCommand_def using x(1) P False s1(1) True s2(1) s3(1) by (simp add: Let_def)
    next
      case na: False
      define s2 where "s2 = (if a = ACTION_EVAL then s1\<lparr>fast_probes := fast_probes s1 @ [?d]\<rparr> else s1)"
      have i2: "Inv G s2" using s1(2) by (simp add: s2_def Inv_def kinds_def devs_ok_def paths_ok_def)
      have x2: "cmds s2 x = Some X1" using x1 by (simp add: s2_def)
      obtain s3 where s3: "ExampleCompleteDeviceCommand api al s2 x = Some s3" "Inv (G\<lparr>g_limbo := g_limbo G - {x}\<rparr>) s3"
        using CompleteDevice_Inv [OF i2 f x(2) x2, of api] sg x(3) by auto
      have "g_credit G ?d - ?r \<le> g_credit (G\<lparr>g_limbo := g_limbo G - {x}\<rparr>) ?d" by simp
      moreover have "g_credit (G\<lparr>g_limbo := g_limbo G - {x}\<rparr>) = g_credit G" by simp
      ultimately have "Inv ?Gl s3" using credit_drop [OF s3(2), of "g_credit G ?d - ?r" ?d] unfolding comm [symmetric] by metis
      from der [OF this] show ?thesis
        unfolding Example_CompletePathCommand_def using x(1) P False s1(1) na s3(1) by (simp add: Let_def s2_def)
    qed
  qed
qed

end
