(* ===== verification/Plugin_Steps.thy ===== *)
theory Plugin_Steps
  imports Plugin_Ops
begin

text \<open>Issuing commands, directly or for a device, and retrying them.\<close>

section \<open>Handing a command over\<close>

lemma hand_over_Inv:
  assumes i: "Inv G s" and L: "x \<in> g_limbo G" and x: "cmds s x = Some X" and p: "0 < g_pin G (x_path X)" "0 < g_act G (x_path X)"
    and D: "devs s d = Some D" and xd: "\<And>e. of_dev (sigs s) e x \<Longrightarrow> e = d"
    and cr: "of_bool (reserves (sigs s) d x) \<le> g_credit G d"
  shows "\<exists>s'. hand_over s x status = Some s' \<and>
    Inv (G\<lparr>g_limbo := g_limbo G - {x}, g_pin := (g_pin G)(x_path X := g_pin G (x_path X) - 1),
      g_act := (g_act G)(x_path X := g_act G (x_path X) - 1),
      g_credit := (g_credit G)(d := g_credit G d - of_bool (reserves (sigs s) d x))\<rparr>) s'"
proof (cases "status = VMK_OK")
  case True
  have "path_of s x = x_path X" using x by (simp add: path_of_def)
  from fly_Inv [OF i L this p D xd cr disjI1 [OF refl]] True show ?thesis
    by (simp add: hand_over_def)
next
  case False
  let ?f = "\<lambda>X. X\<lparr>x_cmd := (x_cmd X)\<lparr>c_status :=
            (case status of
               VMK_TIMEOUT \<Rightarrow> (c_status (x_cmd X))\<lparr>st_host := HOST_TIMEOUT\<rparr>
             | VMK_NO_CONNECT \<Rightarrow> (c_status (x_cmd X))\<lparr>st_host := HOST_NO_CONNECT\<rparr>
             | _ \<Rightarrow> (c_status (x_cmd X))\<lparr>st_plugin := PLUGIN_REQUEUE\<rparr>)\<rparr>\<rparr>"
  have sg: "sig_of (?f X) = sig_of X" by (rule sig_same) simp_all
  note c = on_cmd_Inv [OF i x L, of ?f, OF sg]
  let ?s = "s\<lparr>cmds := (cmds s)(x \<mapsto> ?f X)\<rparr>"
  have po: "path_of ?s x = x_path X" by (simp add: path_of_def)
  have sgs: "sigs ?s = sigs s" using x sg by (simp add: sigs_def [abs_def] fun_eq_iff)
  have d: "devs ?s d = Some D" using D by simp
  note fly = fly_Inv [OF c(2) L po p d, of "?s\<lparr>scheduled := insert x (scheduled ?s)\<rparr>", unfolded sgs, OF xd cr disjI2 [OF refl]]
  have "hand_over s x status = Some (?s\<lparr>scheduled := insert x (scheduled ?s)\<rparr>)"
    using False c(1) by (simp add: hand_over_def ExampleIssueFail_def)
  with fly show ?thesis by blast
qed

section \<open>Issuing a command of a device\<close>

lemma start_issue_Inv:
  assumes i: "Inv G s" and W: "x \<in> set (works s)" and D: "devs s d = Some D" and od: "of_dev (sigs s) d x"
    and eq: "blocked D' = blocked D" "busyCount D' = busyCount D" "startTimer D' = startTimer D" "psa_queue D' = psa_queue D"
      "d_paths D' = d_paths D" "activePathIndex D' = activePathIndex D" "openCount D' = openCount D"
      "has_flag D' EXAMPLE_DEVICE_REMOVING = has_flag D EXAMPLE_DEVICE_REMOVING"
    and act: "activeCmdCount D' = activeCmdCount D + 1"
    and pend: "pendingReserves D' = pendingReserves D + of_nat c" "c \<le> of_bool (reserves (sigs s) d x)"
    and q: "distinct (resvSensitiveCmdQueue D' @ resvSensitiveAbtQueue D')"
      "set (resvSensitiveCmdQueue D' @ resvSensitiveAbtQueue D') = set (resvSensitiveCmdQueue D @ resvSensitiveAbtQueue D) \<union>
        (if sensitive (sigs s) x then {x} else {})"
  shows "Inv (G\<lparr>g_limbo := insert x (g_limbo G), g_credit := (g_credit G)(d := g_credit G d + c)\<rparr>)
     (s\<lparr>works := removeAll x (works s), devs := (devs s)(d \<mapsto> D')\<rparr>)" (is "Inv ?G ?s")
proof -
  have nx: "x \<notin> set (retryQueue s)" "x \<notin> flying s" "x \<notin> issued s" "x \<notin> scheduled s" "x \<notin> g_held G" "x \<notin> g_limbo G"
    using i W unfolding Inv_def places_def flying_def by auto
  have xd: "x \<in> dom (cmds s)" using i W unfolding Inv_def places_def by blast
  have x: "e = d" if "of_dev (sigs s) e x" for e using that od by (auto simp: of_dev_def split: option.splits)
  note ok = InvD_dev [OF i D]
  have "flying s \<union> set (retryQueue s) \<union> g_held G \<union> g_limbo G \<subseteq> dom (cmds s)" using i unfolding Inv_def places_def by blast
  from Inv_num_le [OF i this, of "of_dev (sigs s) d"] have "unat (activeCmdCount D) \<le> 2 ^ 31" using ok by (simp add: dev_ok_def fits_def)
  then have a1: "unat (activeCmdCount D + 1) = unat (activeCmdCount D) + 1" by (simp add: unat_word_ariths)
  have lim: "unat (pendingReserves D) + num (set (works s)) (reserves (sigs s) d) \<le> g_resv G" "g_resv G < 2 ^ 32"
    using ok i by (auto simp: dev_ok_def fits_def Inv_def)
  have "of_bool (reserves (sigs s) d x) \<le> num (set (works s)) (reserves (sigs s) d)"
    using num_pos [of "set (works s)" x "reserves (sigs s) d"] W by auto
  then have le: "unat (pendingReserves D) + c < 2 ^ 32" using lim pend(2) by linarith
  moreover have "c < 2 ^ 32" using le by linarith
  ultimately have p1: "unat (pendingReserves D') = unat (pendingReserves D) + c"
    unfolding pend(1) by (simp add: unat_word_ariths unat_of_nat)
  show ?thesis
  proof (rule shift_Inv [OF i D, where x = x and D' = D'])
    show "distinct (works ?s)" "distinct (retryQueue ?s)" using i unfolding Inv_def places_def by (auto simp: distinct_removeAll)
    show "moves_ok x d G s D ?G ?s D'"
      unfolding moves_ok_def
    proof (intro allI impI)
      fix r a v w q' any
      assume h: "fits (r + of_bool (x \<in> set (retryQueue s) \<and> of_dev (sigs s) d x) + g_blk G d)
        (a + of_bool ((x \<in> flying s \<or> x \<in> set (retryQueue s) \<or> x \<in> g_held G \<or> x \<in> g_limbo G) \<and> of_dev (sigs s) d x)) (g_busy G d)
        (v + of_bool ((x \<in> flying s \<or> x \<in> set (retryQueue s) \<or> x \<in> g_held G) \<and> reserves (sigs s) d x)) (g_resv G)
        (q' \<union> (if (x \<in> flying s \<or> x \<in> g_limbo G) \<and> of_dev (sigs s) d x \<and> sensitive (sigs s) x then {x} else {})) (g_credit G d)
        (w + of_bool (x \<in> set (works s) \<and> reserves (sigs s) d x)) any (path_dev s) d D"
        and nq: "x \<notin> q'"
      have h': "fits (r + g_blk G d) a (g_busy G d) v (g_resv G) q' (g_credit G d) (w + of_bool (reserves (sigs s) d x)) any (path_dev s) d D"
        using h nx W by simp
      have "fits (r + g_blk G d) (a + 1) (g_busy G d) v (g_resv G) (q' \<union> (if sensitive (sigs s) x then {x} else {}))
          (g_credit G d + c) w any (path_dev s) d D'"
        using h' act a1 eq p1 q pend(2) unfolding fits_def path_ok_def by auto
      then show "fits (r + of_bool (x \<in> set (retryQueue ?s) \<and> of_dev (sigs s) d x) + g_blk ?G d)
        (a + of_bool ((x \<in> flying ?s \<or> x \<in> set (retryQueue ?s) \<or> x \<in> g_held ?G \<or> x \<in> g_limbo ?G) \<and> of_dev (sigs s) d x)) (g_busy ?G d)
        (v + of_bool ((x \<in> flying ?s \<or> x \<in> set (retryQueue ?s) \<or> x \<in> g_held ?G) \<and> reserves (sigs s) d x)) (g_resv G)
        (q' \<union> (if (x \<in> flying ?s \<or> x \<in> g_limbo ?G) \<and> of_dev (sigs s) d x \<and> sensitive (sigs s) x then {x} else {})) (g_credit ?G d)
        (w + of_bool (x \<in> set (works ?s) \<and> reserves (sigs s) d x)) any (path_dev s) d D'"
        using nx od by simp
    qed
    show "at_one_place ?G ?s x" using nx xd W by (auto simp: at_one_place_def)
    show "\<And>q. 0 < g_pin ?G q \<Longrightarrow> q \<in> dom (pths s)" using InvD_lim(3) [OF i] by simp
    show "g_blk ?G d \<le> 2" "g_busy ?G d \<le> 2" using InvD_lim(1,2) [OF i] by simp_all
    show "\<And>e. of_dev (sigs s) e x \<Longrightarrow> e = d" by (rule x)
  qed (use xd nx W od in auto)
qed

lemma active_path_ok:
  assumes i: "Inv G s" and D: "devs s d = Some D"
  obtains p P where "active_path D = Some p" "pths s p = Some P" "p \<noteq> NULL"
proof -
  have l: "length (d_paths D) = 16" "unat (activePathIndex D) < 16" and n: "d_paths D ! unat (activePathIndex D) \<noteq> NULL"
    and q: "\<forall>q \<in> set (d_paths D). q \<noteq> NULL \<longrightarrow> path_dev s q = Some d"
    using InvD_dev [OF i D] by (auto simp: dev_ok_def fits_def path_ok_def)
  let ?p = "d_paths D ! unat (activePathIndex D)"
  have "?p \<in> set (d_paths D)" using l by simp
  with q n have "path_dev s ?p = Some d" by blast
  then obtain P where "pths s ?p = Some P" by (auto simp: path_dev_def)
  moreover have "active_path D = Some ?p" using l by (simp add: active_path_def nth_opt_def)
  ultimately show thesis using that n by blast
qed

text \<open>A command in limbo with its reservation credited is sent to the path \<open>p\<close>.\<close>

lemma send_Inv:
  assumes i: "Inv G s" and x: "cmds s x = Some X" "x \<in> g_limbo G" and P: "pths s p = Some P"
    and D: "devs s d = Some D" and od: "of_dev (sigs s) d x" and c: "g_credit G d = c + of_bool (reserves (sigs s) d x)"
    and le: "g_pin G p \<le> 2 ^ 20" "g_act G p \<le> 2 ^ 20"
  shows "\<exists>s' . (on_cmd s x (\<lambda>X. X\<lparr>x_path := p\<rparr>) \<bind> (\<lambda>s. hold_path s p \<bind> (\<lambda>s. hand_over s x status))) = Some s' \<and>
    Inv (G\<lparr>g_limbo := g_limbo G - {x}, g_credit := (g_credit G)(d := c)\<rparr>) s'"
proof -
  let ?X = "X\<lparr>x_path := p\<rparr>"
  have sg: "sig_of ?X = sig_of X" by (rule sig_same) simp_all
  note o = on_cmd_Inv [OF i x, of "\<lambda>X. X\<lparr>x_path := p\<rparr>", OF sg]
  let ?s1 = "s\<lparr>cmds := (cmds s)(x \<mapsto> ?X)\<rparr>"
  let ?G1 = "G\<lparr>g_pin := (g_pin G)(p := g_pin G p + 1), g_act := (g_act G)(p := g_act G p + 1)\<rparr>"
  obtain s2 m where s2: "hold_path ?s1 p = Some s2" "s2 = ?s1\<lparr>pths := m\<rparr>" "Inv ?G1 s2"
    using hold_path_Inv [OF o(2), of p P] P le by auto
  have x2: "cmds s2 x = Some ?X" and d2: "devs s2 d = Some D" using s2(2) D by simp_all
  have "sigs ?s1 = sigs s" using x sg by (simp add: sigs_def [abs_def] fun_eq_iff)
  then have sgs: "sigs s2 = sigs s" unfolding s2(2) by (simp del: sigs_cmd)
  have xd: "e = d" if "of_dev (sigs s2) e x" for e using that od unfolding sgs by (auto simp: of_dev_def split: option.splits)
  have "\<exists>s'. hand_over s2 x status = Some s' \<and>
    Inv (?G1\<lparr>g_limbo := g_limbo ?G1 - {x}, g_pin := (g_pin ?G1)(x_path ?X := g_pin ?G1 (x_path ?X) - 1),
      g_act := (g_act ?G1)(x_path ?X := g_act ?G1 (x_path ?X) - 1),
      g_credit := (g_credit ?G1)(d := g_credit ?G1 d - of_bool (reserves (sigs s2) d x))\<rparr>) s'"
    by (rule hand_over_Inv [OF s2(3) _ x2 _ _ d2 xd]) (use x c sgs in auto)
  moreover have "?G1\<lparr>g_limbo := g_limbo ?G1 - {x}, g_pin := (g_pin ?G1)(x_path ?X := g_pin ?G1 (x_path ?X) - 1),
      g_act := (g_act ?G1)(x_path ?X := g_act ?G1 (x_path ?X) - 1),
      g_credit := (g_credit ?G1)(d := g_credit ?G1 d - of_bool (reserves (sigs s2) d x))\<rparr> =
    G\<lparr>g_limbo := g_limbo G - {x}, g_credit := (g_credit G)(d := c)\<rparr>"
    using c sgs by (simp add: fun_upd_idem)
  ultimately obtain s' where s': "hand_over s2 x status = Some s'" "Inv (G\<lparr>g_limbo := g_limbo G - {x}, g_credit := (g_credit G)(d := c)\<rparr>) s'"
    by auto
  then show ?thesis using o(1) s2(1) by auto
qed

lemma note_reserve_eq:
  assumes D: "devs s d = Some D"
  obtains D' where "note_reserve s d p cmd = Some (s\<lparr>devs := (devs s)(d \<mapsto> D')\<rparr>)"
    "pendingReserves D' = pendingReserves D + of_nat (of_bool (c_op cmd = RESERVE_UNIT))"
    "D' = D\<lparr>pendingReserves := pendingReserves D', d_flags := d_flags D', resPath := resPath D'\<rparr>"
    "has_flag D' EXAMPLE_DEVICE_REMOVING = has_flag D EXAMPLE_DEVICE_REMOVING"
proof (cases "c_op cmd = RESERVE_UNIT")
  case True
  let ?D = "if \<not> has_flag D EXAMPLE_DEVICE_RESERVED
          then D\<lparr>pendingReserves := pendingReserves D + 1, d_flags := d_flags D OR EXAMPLE_DEVICE_RESERVING, resPath := p\<rparr>
          else D\<lparr>pendingReserves := pendingReserves D + 1\<rparr>"
  show thesis
    by (rule that [of ?D]) (use True D in \<open>simp_all add: note_reserve_def on_dev_def flag_masks has_flag_def\<close>)
next
  case False
  show thesis
    by (rule that [of D]) (use False D in \<open>simp_all add: note_reserve_def fun_upd_idem\<close>)
qed

lemma Issue_Inv:
  assumes i: "Inv G s" and f: "fresh_heap al" and W: "x \<in> set (works s)"
    and le: "\<And>p. g_pin G p \<le> 2 ^ 20" "\<And>p. g_act G p \<le> 2 ^ 20"
  shows "\<exists>s'. issue_cmd api al s x status = Some s' \<and> Inv G s'"
proof -
  have xd: "x \<in> dom (cmds s)" using i W unfolding Inv_def places_def by blast
  then obtain X where x: "cmds s x = Some X" by auto
  have nL: "x \<notin> g_limbo G" "x \<notin> set (retryQueue s)" "x \<notin> flying s" using i W unfolding Inv_def places_def by auto
  obtain d where od: "of_dev (sigs s) d x" using i W unfolding Inv_def kinds_def by blast
  then have X: "\<not> x_direct X" "x_dev X = d" using of_dev_iff [OF x] by auto
  obtain D where D: "devs s d = Some D" using InvD_lim(4) [OF i od] by auto
  have op: "0 < openCount D" using InvD_dev [OF i D] od by (auto simp: dev_ok_def fits_def)
  let ?w = "removeAll x (works s)" and ?c = "x_cmd X"
  let ?D1 = "D\<lparr>activeCmdCount := activeCmdCount D + 1\<rparr>"
  let ?s1 = "s\<lparr>works := ?w, devs := (devs s)(d \<mapsto> ?D1)\<rparr>"
  have sens: "sensitive (sigs s) x = c_resv_sensitive ?c" using sensitive_iff [OF x] .
  have rv: "reserves (sigs s) d x = (c_op ?c = RESERVE_UNIT)" using reserves_iff [OF x] X by simp
  have qn: "x \<notin> set (resvSensitiveCmdQueue D)" "x \<notin> set (resvSensitiveAbtQueue D)"
    using InvD_dev [OF i D] nL by (auto simp: dev_ok_def fits_def)
  have qd: "distinct (resvSensitiveCmdQueue D @ resvSensitiveAbtQueue D)" using InvD_dev [OF i D] by (simp add: dev_ok_def fits_def)
  have un: "unlinked (s\<lparr>works := ?w\<rparr>) x" using x X D nL qn by (simp add: unlinked_def)
  have start: "issue_cmd api al s x status =
     (if c_resv_sensitive ?c \<and> resvUpdateInProgress D then do {
       s \<leftarrow> on_dev ?s1 d (\<lambda>D. D\<lparr>resvSensitiveAbtQueue := resvSensitiveAbtQueue D @ [x]\<rparr>);
       s \<leftarrow> on_cmd s x (\<lambda>X. X\<lparr>x_cmd := (x_cmd X)\<lparr>c_status :=
              (c_status (x_cmd X))\<lparr>st_host := HOST_RETRY, st_plugin := PLUGIN_RESERVATION_LOST\<rparr>\<rparr>\<rparr>);
       ExampleCompleteDeviceCommand api al s x
     } else do {
       s \<leftarrow> (if c_resv_sensitive ?c
             then on_dev ?s1 d (\<lambda>D. D\<lparr>resvSensitiveCmdQueue := resvSensitiveCmdQueue D @ [x]\<rparr>) else Some ?s1);
       p \<leftarrow> active_path D;
       s \<leftarrow> on_cmd s x (\<lambda>X. X\<lparr>x_path := p\<rparr>);
       s \<leftarrow> note_reserve s d p ?c;
       s \<leftarrow> hold_path s p;
       hand_over s x status
     })"
    unfolding issue_cmd_def ExampleIssueCommand_def using x X D un op by (simp add: Let_def on_dev_def)
  show ?thesis
  proof (cases "c_resv_sensitive ?c \<and> resvUpdateInProgress D")
    case True
    let ?D2 = "?D1\<lparr>resvSensitiveAbtQueue := resvSensitiveAbtQueue D @ [x]\<rparr>"
    let ?s2 = "s\<lparr>works := ?w, devs := (devs s)(d \<mapsto> ?D2)\<rparr>"
    have "Inv (G\<lparr>g_limbo := insert x (g_limbo G), g_credit := (g_credit G)(d := g_credit G d + 0)\<rparr>) ?s2"
      by (rule start_issue_Inv [OF i W D od]) (use True qn qd sens in \<open>simp_all add: has_flag_def\<close>)
    then have i2: "Inv (G\<lparr>g_limbo := insert x (g_limbo G)\<rparr>) ?s2" by simp
    have x2: "cmds ?s2 x = Some X" using x by simp
    let ?f = "\<lambda>X. X\<lparr>x_cmd := (x_cmd X)\<lparr>c_status :=
              (c_status (x_cmd X))\<lparr>st_host := HOST_RETRY, st_plugin := PLUGIN_RESERVATION_LOST\<rparr>\<rparr>\<rparr>"
    have sg: "sig_of (?f X) = sig_of X" by (rule sig_same) simp_all
    have L: "x \<in> g_limbo (G\<lparr>g_limbo := insert x (g_limbo G)\<rparr>)" by simp
    note o = on_cmd_Inv [OF i2 x2 L, of ?f, OF sg]
    have gl: "G\<lparr>g_limbo := insert x (g_limbo G) - {x}\<rparr> = G" using nL by simp
    have x3: "cmds (?s2\<lparr>cmds := (cmds ?s2)(x \<mapsto> ?f X)\<rparr>) x = Some (?f X)" "\<not> x_direct (?f X)" using X by simp_all
    have "\<exists>s'. ExampleCompleteDeviceCommand api al (?s2\<lparr>cmds := (cmds ?s2)(x \<mapsto> ?f X)\<rparr>) x = Some s' \<and>
        Inv (G\<lparr>g_limbo := insert x (g_limbo G) - {x}\<rparr>) s'"
      using CompleteDevice_Inv [OF o(2) f L x3, of api] by auto
    moreover have "issue_cmd api al s x status =
        ExampleCompleteDeviceCommand api al (?s2\<lparr>cmds := (cmds ?s2)(x \<mapsto> ?f X)\<rparr>) x"
      unfolding start using True o(1) by (simp add: on_dev_def)
    ultimately show ?thesis unfolding gl by metis
  next
    case False
    let ?D2 = "if c_resv_sensitive ?c then ?D1\<lparr>resvSensitiveCmdQueue := resvSensitiveCmdQueue D @ [x]\<rparr> else ?D1"
    let ?s2 = "s\<lparr>works := ?w, devs := (devs s)(d \<mapsto> ?D2)\<rparr>"
    obtain p P where p: "active_path D = Some p" "pths s p = Some P" using active_path_ok [OF i D] by blast
    let ?n = "of_bool (c_op ?c = RESERVE_UNIT) :: nat"
    have d2: "devs ?s2 d = Some ?D2" by simp
    obtain D3 where D3: "note_reserve ?s2 d p ?c = Some (?s2\<lparr>devs := (devs ?s2)(d \<mapsto> D3)\<rparr>)"
      "pendingReserves D3 = pendingReserves ?D2 + of_nat ?n"
      "D3 = ?D2\<lparr>pendingReserves := pendingReserves D3, d_flags := d_flags D3, resPath := resPath D3\<rparr>"
      "has_flag D3 EXAMPLE_DEVICE_REMOVING = has_flag ?D2 EXAMPLE_DEVICE_REMOVING"
      using note_reserve_eq [OF d2, of p ?c] by blast
    have e3: "blocked D3 = blocked D" "busyCount D3 = busyCount D" "startTimer D3 = startTimer D" "psa_queue D3 = psa_queue D"
      "d_paths D3 = d_paths D" "activePathIndex D3 = activePathIndex D" "openCount D3 = openCount D" "activeCmdCount D3 = activeCmdCount D + 1"
      "resvSensitiveCmdQueue D3 = (if c_resv_sensitive ?c then resvSensitiveCmdQueue D @ [x] else resvSensitiveCmdQueue D)"
      "resvSensitiveAbtQueue D3 = resvSensitiveAbtQueue D" by (subst D3(3); simp)+
    have f3: "has_flag D3 EXAMPLE_DEVICE_REMOVING = has_flag D EXAMPLE_DEVICE_REMOVING" using D3(4) by (simp add: has_flag_def)
    have pr: "pendingReserves D3 = pendingReserves D + of_nat ?n" using D3(2) by simp
    let ?s3 = "s\<lparr>works := ?w, devs := (devs s)(d \<mapsto> D3)\<rparr>"
    let ?G3 = "G\<lparr>g_limbo := insert x (g_limbo G), g_credit := (g_credit G)(d := g_credit G d + ?n)\<rparr>"
    have i3: "Inv ?G3 ?s3"
      by (rule start_issue_Inv [OF i W D od]) (use e3 f3 pr rv qn qd sens in \<open>auto split: if_splits\<close>)
    have c3: "g_credit ?G3 d = g_credit G d + of_bool (reserves (sigs ?s3) d x)" using rv by simp
    have x3: "cmds ?s3 x = Some X" "x \<in> g_limbo ?G3" and P3: "pths ?s3 p = Some P" and d3: "devs ?s3 d = Some D3" and o3: "of_dev (sigs ?s3) d x"
      using x p od by simp_all
    obtain s' where s': "(on_cmd ?s3 x (\<lambda>X. X\<lparr>x_path := p\<rparr>) \<bind> (\<lambda>s. hold_path s p \<bind> (\<lambda>s. hand_over s x status))) = Some s'"
      "Inv (?G3\<lparr>g_limbo := g_limbo ?G3 - {x}, g_credit := (g_credit ?G3)(d := g_credit G d)\<rparr>) s'"
      using send_Inv [OF i3 x3 P3 d3 o3 c3, of status] le by auto
    have g: "?G3\<lparr>g_limbo := g_limbo ?G3 - {x}, g_credit := (g_credit ?G3)(d := g_credit G d)\<rparr> = G"
      using nL by (simp add: fun_upd_idem)
    have nr: "note_reserve (?s2\<lparr>cmds := c\<rparr>) d p ?c = map_option (\<lambda>s. s\<lparr>cmds := c\<rparr>) (note_reserve ?s2 d p ?c)" for c
      by (simp add: note_reserve_def on_dev_def)
    have "issue_cmd api al s x status = (on_cmd ?s3 x (\<lambda>X. X\<lparr>x_path := p\<rparr>) \<bind> (\<lambda>s. hold_path s p \<bind> (\<lambda>s. hand_over s x status)))"
    proof -
      have "issue_cmd api al s x status = do { s \<leftarrow> on_cmd ?s2 x (\<lambda>X. X\<lparr>x_path := p\<rparr>); s \<leftarrow> note_reserve s d p ?c;
          s \<leftarrow> hold_path s p; hand_over s x status }"
        unfolding start using False p(1) by (simp add: on_dev_def)
      then show ?thesis using x3 nr D3(1) by (simp add: on_cmd_def)
    qed
    then show ?thesis using s' unfolding g by metis
  qed
qed

section \<open>Retrying a command on another path\<close>

lemma RetryCmd_Inv:
  assumes i: "Inv G s" and H: "x \<in> g_held G" and od: "of_dev (sigs s) d x" and b: "0 < g_blk G d"
    and le: "\<And>p. g_pin G p \<le> 2 ^ 20" "\<And>p. g_act G p \<le> 2 ^ 20"
  shows "\<exists>s'. ExampleRetryCmd s x status = Some s' \<and> Inv (G\<lparr>g_held := g_held G - {x}\<rparr>) s'"
proof -
  have "x \<in> dom (cmds s)" and nL: "x \<notin> g_limbo G" "x \<notin> set (retryQueue s)" "x \<notin> flying s"
    using i H unfolding Inv_def places_def by blast+
  then obtain X where x: "cmds s x = Some X" by auto
  have X: "\<not> x_direct X" "x_dev X = d" using od of_dev_iff [OF x] by auto
  obtain D where D: "devs s d = Some D" using InvD_lim(4) [OF i od] by auto
  have "\<not> sensitive (sigs s) x" using i H unfolding Inv_def kinds_def by blast
  then have ns: "\<not> c_resv_sensitive (x_cmd X)" using sensitive_iff [OF x] by simp
  have op: "0 < openCount D" and bl: "0 < blocked D"
    using InvD_dev [OF i D] od b by (auto simp: dev_ok_def fits_def word_less_nat_alt)
  have un: "unlinked s x" using x X D nL queue_sens [OF i D \<open>\<not> sensitive (sigs s) x\<close>] by (simp add: unlinked_def)
  obtain p P where p: "active_path D = Some p" "pths s p = Some P" using active_path_ok [OF i D] by blast
  let ?G1 = "G\<lparr>g_held := g_held G - {x}, g_limbo := insert x (g_limbo G),
      g_credit := (g_credit G)(d := g_credit G d + of_bool (reserves (sigs s) d x))\<rparr>"
  have i1: "Inv ?G1 s" by (rule release_Inv [OF i H D od])
  have c: "g_credit ?G1 d = g_credit G d + of_bool (reserves (sigs s) d x)" by simp
  have L: "x \<in> g_limbo ?G1" by simp
  have g: "?G1\<lparr>g_limbo := g_limbo ?G1 - {x}, g_credit := (g_credit ?G1)(d := g_credit G d)\<rparr> = G\<lparr>g_held := g_held G - {x}\<rparr>"
    using nL by (simp add: fun_upd_idem)
  have "\<exists>s'. (on_cmd s x (\<lambda>X. X\<lparr>x_path := p\<rparr>) \<bind> (\<lambda>s. hold_path s p \<bind> (\<lambda>s. hand_over s x status))) = Some s' \<and>
      Inv (?G1\<lparr>g_limbo := g_limbo ?G1 - {x}, g_credit := (g_credit ?G1)(d := g_credit G d)\<rparr>) s'"
    by (rule send_Inv [OF i1 x L p(2) D od c]) (use le in simp_all)
  then show ?thesis
    unfolding g using x X D ns un bl op p(1) by (simp add: ExampleRetryCmd_def ExampleDevice_IsBlocked_def)
qed

lemma AttemptFailover_Inv:
  assumes i: "Inv G s" and D: "devs s d = Some D" and b: "0 < g_blk G d" and o: "of_dev (sigs s) d x"
    and le: "\<And>p. g_pin G p \<le> 2 ^ 19"
  shows "\<exists>s' r. ExampleDevice_AttemptFailover s d = Some (s', r) \<and> sigs s' = sigs s \<and>
     (case r of None \<Rightarrow> Inv G s'
      | Some p \<Rightarrow> Inv (G\<lparr>g_pin := (g_pin G)(p := g_pin G p + 1)\<rparr>) s')"
proof -
  note ok = InvD_dev [OF i D]
  have op: "0 < openCount D" and bl: "0 < blocked D" using ok o b by (auto simp: dev_ok_def fits_def word_less_nat_alt)
  show ?thesis
  proof (cases "numPaths D = 1")
    case True
    then show ?thesis using i D op bl by (simp add: ExampleDevice_AttemptFailover_def ExampleDevice_IsBlocked_def)
  next
    case False
    have pok: "path_ok D" and nn: "d_paths D ! unat (activePathIndex D) \<noteq> NULL"
      and q: "\<forall>q \<in> set (d_paths D). q \<noteq> NULL \<longrightarrow> path_dev s q = Some d"
      using ok by (auto simp: dev_ok_def fits_def)
    obtain j where j: "ExampleGetFailoverPathIndex (path_state_of s) D = Some j"
      using failover_path_finds [OF pok] by blast
    note jj = failover_path_present [OF pok nn j]
    let ?D = "D\<lparr>activePathIndex := j\<rparr>" and ?p = "d_paths D ! unat j"
    have len: "length (d_paths D) = 16" using pok by (simp add: path_ok_def)
    have ok': "dev_ok G (sigs s) (path_dev s) (set (works s)) (set (retryQueue s)) (flying s) d ?D"
      using ok jj len unfolding dev_ok_def fits_def path_ok_def has_flag_def by simp
    let ?s1 = "s\<lparr>devs := (devs s)(d \<mapsto> ?D)\<rparr>"
    have i1: "Inv G ?s1" by (rule Inv_dev [OF i D ok'])
    have "?p \<in> set (d_paths D)" using jj len by simp
    with q jj have "path_dev s ?p = Some d" by blast
    then obtain P where "pths ?s1 ?p = Some P" by (auto simp: path_dev_def)
    moreover have "g_pin G ?p \<le> 2 ^ 20" using le [of ?p] by simp
    ultimately obtain s2 m where s2: "ExamplePathIncRefCount ?s1 ?p = Some s2" "s2 = ?s1\<lparr>pths := m\<rparr>"
      "Inv (G\<lparr>g_pin := (g_pin G)(?p := g_pin G ?p + 1)\<rparr>) s2"
      using IncRef_Inv [OF i1] by blast
    have "ExampleDevice_AttemptFailover s d = Some (s2, Some ?p)"
      using D op bl False j s2(1) jj len
      by (simp add: ExampleDevice_AttemptFailover_def ExampleDevice_IsBlocked_def on_dev_def nth_opt_def)
    moreover have "sigs s2 = sigs s" using s2(2) by simp
    ultimately show ?thesis using s2(3) by auto
  qed
qed

text \<open>\<^verbatim>\<open>vmk_ListSplitAfter\<close> keeps the elements of the list.\<close>

definition splits :: "(nat list \<Rightarrow> nat list \<times> nat list) \<Rightarrow> bool" where
  "splits f \<longleftrightarrow> (\<forall>xs. mset (fst (f xs)) + mset (snd (f xs)) = mset xs)"

lemma AbortAllRSIOs_Inv:
  assumes i: "Inv G s" and D: "devs s d = Some D" and b: "0 < g_blk G d" and sp: "splits f"
  shows "\<exists>s' r. ExampleAbortAllRSIOs f s d = Some (s', r) \<and> Inv G s' \<and> (\<exists>m. s' = s\<lparr>devs := m\<rparr>)"
proof -
  note ok = InvD_dev [OF i D]
  have bl: "ExampleDevice_IsBlocked D" using ok b by (auto simp: dev_ok_def fits_def word_less_nat_alt ExampleDevice_IsBlocked_def)
  have qs: "set (resvSensitiveCmdQueue D @ resvSensitiveAbtQueue D) = {x \<in> flying s \<union> g_limbo G. of_dev (sigs s) d x \<and> sensitive (sigs s) x}"
    "distinct (resvSensitiveCmdQueue D @ resvSensitiveAbtQueue D)" using ok by (simp_all add: dev_ok_def fits_def)
  have upd: "Inv G (s\<lparr>devs := (devs s)(d \<mapsto> D\<lparr>resvUpdateInProgress := u, resvSensitiveCmdQueue := c, resvSensitiveAbtQueue := a\<rparr>)\<rparr>)"
    if "distinct (c @ a)" "set (c @ a) = set (resvSensitiveCmdQueue D @ resvSensitiveAbtQueue D)" for u c a
  proof (rule Inv_dev [OF i D])
    show "dev_ok G (sigs s) (path_dev s) (set (works s)) (set (retryQueue s)) (flying s) d
        (D\<lparr>resvUpdateInProgress := u, resvSensitiveCmdQueue := c, resvSensitiveAbtQueue := a\<rparr>)"
      using ok that unfolding dev_ok_def fits_def path_ok_def has_flag_def by simp
  qed
  show ?thesis
  proof (cases "resvSensitiveCmdQueue D")
    case (Cons x xs)
    then have "sensitive (sigs s) x" using qs(1) by auto
    then obtain X where X: "cmds s x = Some X" "c_resv_sensitive (x_cmd X)"
      by (auto simp: sensitive_def sigs_def sig_of_def split: option.splits)
    have "Inv G (s\<lparr>devs := (devs s)(d \<mapsto> D\<lparr>resvUpdateInProgress := True, resvSensitiveCmdQueue := xs,
        resvSensitiveAbtQueue := resvSensitiveAbtQueue D @ [x]\<rparr>)\<rparr>)"
      by (rule upd) (use qs(2) Cons in auto)
    moreover have "ExampleAbortAllRSIOs f s d = Some (s\<lparr>devs := (devs s)(d \<mapsto> D\<lparr>resvUpdateInProgress := True,
        resvSensitiveCmdQueue := xs, resvSensitiveAbtQueue := resvSensitiveAbtQueue D @ [x]\<rparr>)\<rparr>, False)"
      using D bl Cons X by (simp add: ExampleAbortAllRSIOs_def on_dev_def)
    ultimately show ?thesis by blast
  next
    case Nil
    show ?thesis
    proof (cases "resvSensitiveAbtQueue D = []")
      case True
      have "Inv G (s\<lparr>devs := (devs s)(d \<mapsto> D\<lparr>resvUpdateInProgress := False, resvSensitiveCmdQueue := [], resvSensitiveAbtQueue := []\<rparr>)\<rparr>)"
        by (rule upd) (use Nil True in simp_all)
      moreover have "D\<lparr>resvUpdateInProgress := False, resvSensitiveCmdQueue := [], resvSensitiveAbtQueue := []\<rparr> = D\<lparr>resvUpdateInProgress := False\<rparr>"
        using Nil True by (cases D) simp
      moreover have "ExampleAbortAllRSIOs f s d = Some (s\<lparr>devs := (devs s)(d \<mapsto> D\<lparr>resvUpdateInProgress := False\<rparr>)\<rparr>, True)"
        using D bl Nil True by (simp add: ExampleAbortAllRSIOs_def on_dev_def)
      ultimately show ?thesis by auto
    next
      case False
      obtain a c where ac: "f (resvSensitiveAbtQueue D) = (a, c)" by fastforce
      have m: "mset a + mset c = mset (resvSensitiveAbtQueue D)" using sp ac unfolding splits_def by (metis fst_conv snd_conv)
      then have s1: "set (c @ a) = set (resvSensitiveAbtQueue D)"
        by (metis mset_append set_append set_mset_mset union_commute Un_commute)
      have "mset (c @ a) = mset (resvSensitiveAbtQueue D)" using m by (simp add: union_commute)
      then have d1: "distinct (c @ a)" using qs(2) mset_eq_imp_distinct_iff [of "c @ a" "resvSensitiveAbtQueue D"] by simp
      have cm: "D\<lparr>resvUpdateInProgress := True, resvSensitiveAbtQueue := a, resvSensitiveCmdQueue := c\<rparr> =
          D\<lparr>resvUpdateInProgress := True, resvSensitiveCmdQueue := c, resvSensitiveAbtQueue := a\<rparr>" by simp
      have "Inv G (s\<lparr>devs := (devs s)(d \<mapsto> D\<lparr>resvUpdateInProgress := True, resvSensitiveAbtQueue := a, resvSensitiveCmdQueue := c\<rparr>)\<rparr>)"
        unfolding cm by (rule upd) (use Nil s1 d1 in simp_all)
      then show ?thesis
        using D bl Nil False ac by (auto simp: ExampleAbortAllRSIOs_def on_dev_def)
    qed
  qed
qed

lemma resv_reset_Inv:
  assumes i: "Inv G s" and D: "devs s d = Some D"
  shows "\<exists>s' m. resv_reset s d status = Some s' \<and> Inv G s' \<and> s' = s\<lparr>devs := m\<rparr>"
proof -
  let ?D = "D\<lparr>resvGen := resvGen D + 1\<rparr>"
  have i1: "Inv G (s\<lparr>devs := (devs s)(d \<mapsto> ?D)\<rparr>)" by (rule Inv_dkey [OF i D]) (simp add: dkey_def)
  have d1: "devs (s\<lparr>devs := (devs s)(d \<mapsto> ?D)\<rparr>) d = Some ?D" by simp
  from UpdateDevOnRel_Inv [OF i1 d1, of False] i1 show ?thesis
    using D by (cases "status = VMK_OK") (auto simp: resv_reset_def on_dev_def)
qed

section \<open>Commands sent to a path directly\<close>

text \<open>A command that is none of a device's can come and go without any device noticing.\<close>

lemma direct_dev_ok:
  assumes "dev_ok G K Pd W R F e D" and "\<And>y. y \<noteq> x \<Longrightarrow> K' y = K y" "\<not> of_dev K e x" "\<not> of_dev K' e x"
    and "g_limbo G' - {x} = g_limbo G - {x}" "g_held G' = g_held G"
    and "g_blk G' = g_blk G" "g_busy G' = g_busy G" "g_credit G' = g_credit G" "g_resv G' = g_resv G" "g_open G' = g_open G"
  shows "dev_ok G' K' Pd W R F e D"
  using assms dev_ok_other [OF assms(2-4) refl refl refl _ assms(5)] by simp

lemma accept_direct_Inv:
  assumes i: "Inv G s" and x: "cmds s x = None" "x \<noteq> NULL" "card (dom (cmds s)) < 2 ^ 31" and X: "x_direct X" "x_cmd X = cmd"
  shows "Inv (G\<lparr>g_limbo := insert x (g_limbo G)\<rparr>) (s\<lparr>cmds := (cmds s)(x \<mapsto> X), accepted := accepted s @ [cmd]\<rparr>)" (is "Inv ?G ?s")
proof -
  have pl: "places G s" and hp: "heap_ok s" and kd: "kinds G s" using i by (auto simp: Inv_def)
  have nx: "x \<notin> set (works s)" "x \<notin> set (retryQueue s)" "x \<notin> flying s" "x \<notin> g_held G" "x \<notin> g_limbo G"
    using pl x(1) unfolding places_def by blast+
  have dm: "dom (cmds ?s) = insert x (dom (cmds s))" by simp
  have K: "\<And>y. y \<noteq> x \<Longrightarrow> sigs ?s y = sigs s y" and po: "\<And>y. y \<noteq> x \<Longrightarrow> path_of ?s y = path_of s y"
    by (simp_all add: path_of_cmd)
  have nd: "\<not> of_dev (sigs s) e x" "\<not> of_dev (sigs ?s) e x" for e
    using none_iff(1) [of "sigs s" x e] x(1) X(1) by (simp_all add: sigs_def of_dev_def sig_of_def)
  note sv = sigs_views [OF K]
  have "places ?G ?s"
    using pl nx unfolding places_def dm by (simp add: insert_commute)
  moreover have "heap_ok ?s" using hp x dm unfolding heap_ok_def by (simp add: card_insert_if)
  moreover have "kinds ?G ?s"
  proof -
    have "\<exists>e. of_dev (sigs ?s) e y" if "y \<in> set (works s)" for y
      using kd that nx sv(1) [of y] unfolding kinds_def by metis
    moreover have "\<not> sensitive (sigs ?s) y \<and> (\<exists>e. of_dev (sigs ?s) e y)" if "y \<in> set (retryQueue s) \<union> g_held G" for y
      using kd that nx sv(1,2) [of y] unfolding kinds_def by (metis UnE)
    moreover have "e \<in> dom (devs s)" if "of_dev (sigs ?s) e y" for e y
      using kd that nd sv(1) [of y] unfolding kinds_def by metis
    moreover have "path_of ?s y \<in> dom (pths s)" if "y \<in> flying s" for y
      using kd that nx po [of y] unfolding kinds_def by metis
    ultimately show ?thesis using kd unfolding kinds_def by simp
  qed
  moreover have "devs_ok ?G ?s"
    unfolding devs_ok_def
  proof (intro allI impI)
    fix e E assume "devs ?s e = Some E"
    then have e: "devs s e = Some E" by simp
    have "dev_ok ?G (sigs ?s) (path_dev s) (set (works s)) (set (retryQueue s)) (flying s) e E"
      by (rule direct_dev_ok [OF InvD_dev [OF i e] K nd]) simp_all
    then show "dev_ok ?G (sigs ?s) (path_dev ?s) (set (works ?s)) (set (retryQueue ?s)) (flying ?s) e E" by simp
  qed
  moreover have "paths_ok ?G ?s"
  proof -
    have "num (flying s) (\<lambda>y. path_of ?s y = p) = num (flying s) (\<lambda>y. path_of s y = p)" for p
      by (rule num_same_off [where x = x]) (use nx po in auto)
    then show ?thesis using i by (simp add: Inv_def paths_ok_def path_counts_def)
  qed
  moreover have "conserved ?s" by (rule conserved_accept [of s x]) (use i hp x X in \<open>auto simp: Inv_def heap_ok_def\<close>)
  ultimately show ?thesis using i by (simp add: Inv_def)
qed

lemma retire_direct_Inv:
  assumes i: "Inv G s" and L: "x \<in> g_limbo G" and x: "cmds s x = Some X" "x_direct X"
  shows "Inv (G\<lparr>g_limbo := g_limbo G - {x}\<rparr>) (s\<lparr>cmds := (cmds s)(x := None), completed := completed s @ [x_cmd X]\<rparr>)" (is "Inv ?G ?s")
proof -
  have pl: "places G s" and hp: "heap_ok s" and kd: "kinds G s" using i by (auto simp: Inv_def)
  note nx = limbo_notin [OF i L]
  have dm: "dom (cmds ?s) = dom (cmds s) - {x}" by simp
  have K: "\<And>y. y \<noteq> x \<Longrightarrow> sigs ?s y = sigs s y" and po: "\<And>y. y \<noteq> x \<Longrightarrow> path_of ?s y = path_of s y"
    by (simp_all add: path_of_cmd)
  have nd: "\<not> of_dev (sigs s) e x" "\<not> of_dev (sigs ?s) e x" for e
    using of_dev_iff [OF x(1)] x(2) by (simp_all add: of_dev_def)
  note sv = sigs_views [OF K]
  have "places ?G ?s"
  proof -
    have "dom (cmds s) - {x} = set (works s) \<union> set (retryQueue s) \<union> flying s \<union> g_held G \<union> (g_limbo G - {x})"
      using pl nx unfolding places_def by blast
    moreover have "(g_limbo G - {x}) \<inter> (set (works s) \<union> set (retryQueue s) \<union> flying s \<union> g_held G) = {}"
      using pl unfolding places_def by blast
    ultimately show ?thesis using pl unfolding places_def dm by simp
  qed
  moreover have "heap_ok ?s"
  proof -
    have "card (dom (cmds s) - {x}) \<le> card (dom (cmds s))" using hp by (intro card_mono) (auto simp: heap_ok_def)
    then show ?thesis using hp unfolding heap_ok_def dm by simp
  qed
  moreover have "kinds ?G ?s"
  proof -
    have "\<exists>e. of_dev (sigs ?s) e y" if "y \<in> set (works s)" for y
      using kd that nx sv(1) [of y] unfolding kinds_def by metis
    moreover have "\<not> sensitive (sigs ?s) y \<and> (\<exists>e. of_dev (sigs ?s) e y)" if "y \<in> set (retryQueue s) \<union> g_held G" for y
      using kd that nx sv(1,2) [of y] unfolding kinds_def by (metis UnE)
    moreover have "e \<in> dom (devs s)" if "of_dev (sigs ?s) e y" for e y
      using kd that nd sv(1) [of y] unfolding kinds_def by metis
    moreover have "path_of ?s y \<in> dom (pths s)" if "y \<in> flying s" for y
      using kd that nx po [of y] unfolding kinds_def by metis
    ultimately show ?thesis using kd unfolding kinds_def by simp
  qed
  moreover have "devs_ok ?G ?s"
    unfolding devs_ok_def
  proof (intro allI impI)
    fix e E assume "devs ?s e = Some E"
    then have e: "devs s e = Some E" by simp
    have "dev_ok ?G (sigs ?s) (path_dev s) (set (works s)) (set (retryQueue s)) (flying s) e E"
      by (rule direct_dev_ok [OF InvD_dev [OF i e] K nd]) simp_all
    then show "dev_ok ?G (sigs ?s) (path_dev ?s) (set (works ?s)) (set (retryQueue ?s)) (flying ?s) e E" by simp
  qed
  moreover have "paths_ok ?G ?s"
  proof -
    have "num (flying s) (\<lambda>y. path_of ?s y = p) = num (flying s) (\<lambda>y. path_of s y = p)" for p
      by (rule num_same_off [where x = x]) (use nx po in auto)
    then show ?thesis using i by (simp add: Inv_def paths_ok_def path_counts_def)
  qed
  moreover have "conserved ?s" by (rule conserved_retire [of s x X]) (use i hp x in \<open>auto simp: Inv_def heap_ok_def\<close>)
  ultimately show ?thesis using i by (simp add: Inv_def)
qed

lemma direct_dev:
  assumes i: "Inv G s" and P: "pths s p = Some P"
  obtains D where "devs s (p_dev P) = Some D"
proof -
  have "path_dev s p = Some (p_dev P)" using P by (simp add: path_dev_def)
  from InvD_lim(6) [OF i this] show thesis using that by auto
qed

lemma IssueDirect_Inv:
  assumes i: "Inv G s" and f: "fresh_heap al" and P: "pths s p = Some P" and op: "c_op cmd \<noteq> RESERVE_UNIT" "c_op cmd \<noteq> RELEASE_UNIT"
    and le: "g_pin G p \<le> 2 ^ 20" "g_act G p \<le> 2 ^ 20"
  shows "\<exists>s' r. ExamplePathIssueCommandDirect al s p cmd status = Some (s', r) \<and> Inv G s'"
proof (cases "al s = NULL")
  case True
  then show ?thesis using i op by (simp add: ExamplePathIssueCommandDirect_def Let_def)
next
  case False
  let ?x = "al s" let ?X = "\<lparr>x_dev = NULL, x_path = p, x_direct = True, x_cmd = cmd\<rparr>"
  have fr: "cmds s ?x = None" "card (dom (cmds s)) < 2 ^ 31" using f False by (auto simp: fresh_heap_def)
  have nL: "?x \<notin> g_limbo G" using i fr(1) unfolding Inv_def places_def by blast
  let ?s1 = "s\<lparr>cmds := (cmds s)(?x \<mapsto> ?X), accepted := accepted s @ [cmd]\<rparr>" and ?G1 = "G\<lparr>g_limbo := insert ?x (g_limbo G)\<rparr>"
  have i1: "Inv ?G1 ?s1" by (rule accept_direct_Inv [OF i fr(1) False fr(2)]) simp_all
  have P1: "pths ?s1 p = Some P" using P by simp
  let ?G2 = "?G1\<lparr>g_pin := (g_pin ?G1)(p := g_pin ?G1 p + 1), g_act := (g_act ?G1)(p := g_act ?G1 p + 1)\<rparr>"
  obtain s2 m where s2: "hold_path ?s1 p = Some s2" "s2 = ?s1\<lparr>pths := m\<rparr>" "Inv ?G2 s2"
    using hold_path_Inv [OF i1 P1] le by auto
  obtain D where D: "devs s (p_dev P) = Some D" using direct_dev [OF i P] .
  have x2: "cmds s2 ?x = Some ?X" and d2: "devs s2 (p_dev P) = Some D" using s2(2) D by simp_all
  have nd: "\<not> of_dev (sigs s2) e ?x" "\<not> reserves (sigs s2) e ?x" for e using of_dev_iff [OF x2] reserves_iff [OF x2] by simp_all
  have L: "?x \<in> g_limbo ?G2" by simp
  obtain s3 where s3: "hand_over s2 ?x status = Some s3"
    "Inv (?G2\<lparr>g_limbo := g_limbo ?G2 - {?x}, g_pin := (g_pin ?G2)(x_path ?X := g_pin ?G2 (x_path ?X) - 1),
      g_act := (g_act ?G2)(x_path ?X := g_act ?G2 (x_path ?X) - 1),
      g_credit := (g_credit ?G2)(p_dev P := g_credit ?G2 (p_dev P) - of_bool (reserves (sigs s2) (p_dev P) ?x))\<rparr>) s3"
    using hand_over_Inv [OF s2(3) L x2 _ _ d2, of status] nd by auto
  have "?G2\<lparr>g_limbo := g_limbo ?G2 - {?x}, g_pin := (g_pin ?G2)(x_path ?X := g_pin ?G2 (x_path ?X) - 1),
      g_act := (g_act ?G2)(x_path ?X := g_act ?G2 (x_path ?X) - 1),
      g_credit := (g_credit ?G2)(p_dev P := g_credit ?G2 (p_dev P) - of_bool (reserves (sigs s2) (p_dev P) ?x))\<rparr> = G"
    using nL nd by (simp add: fun_upd_idem)
  with s3 s2(1) False op show ?thesis by (auto simp: ExamplePathIssueCommandDirect_def Let_def)
qed

lemma deref_path_eq:
  "deref_path s p = (case pths s p of None \<Rightarrow> None | Some P \<Rightarrow> if p_refCount P > 0
     then Some (s\<lparr>pths := (pths s)(p \<mapsto> P\<lparr>p_activeCmdCount := p_activeCmdCount P - 1, p_refCount := p_refCount P - 1\<rparr>)\<rparr>)
     else None)"
  by (simp add: deref_path_def ExamplePathDecRefCount_def on_path_def store_def split: option.split)

lemma deref_path_frame:
  assumes "pths t = pths s" "deref_path s p = Some (s\<lparr>pths := m\<rparr>)"
  shows "deref_path t p = Some (t\<lparr>pths := m\<rparr>)"
proof -
  obtain P where P: "pths s p = Some P" "p_refCount P > 0"
    and e: "s\<lparr>pths := (pths s)(p \<mapsto> P\<lparr>p_activeCmdCount := p_activeCmdCount P - 1, p_refCount := p_refCount P - 1\<rparr>)\<rparr> = s\<lparr>pths := m\<rparr>"
    using assms(2) by (auto simp: deref_path_eq split: option.splits if_splits)
  from arg_cong [OF e, of pths] have "m = (pths s)(p \<mapsto> P\<lparr>p_activeCmdCount := p_activeCmdCount P - 1, p_refCount := p_refCount P - 1\<rparr>)"
    by simp
  with P assms(1) show ?thesis by (simp add: deref_path_eq)
qed

lemma CompleteDirect_Inv:
  assumes i: "Inv G s" and x: "cmds s x = Some X" "x \<in> g_limbo G" "x_direct X"
    and g: "0 < g_pin G (x_path X)" "0 < g_act G (x_path X)"
  shows "\<exists>s'. ExampleCompletePathCommandDirect api s x = Some s' \<and>
     Inv (G\<lparr>g_limbo := g_limbo G - {x}, g_pin := (g_pin G)(x_path X := g_pin G (x_path X) - 1),
        g_act := (g_act G)(x_path X := g_act G (x_path X) - 1)\<rparr>) s'"
proof -
  let ?p = "x_path X" and ?c = "x_cmd X"
  obtain P where P: "pths s ?p = Some P" using InvD_lim(3) [OF i g(1)] by auto
  obtain D where D: "devs s (p_dev P) = Some D" using direct_dev [OF i P] .
  let ?por = "is_check api (c_status ?c) \<and> c_sense ?c \<noteq> NoSense \<and> c_sense ?c \<noteq> UnreadableSense \<and> c_por ?c"
  have "\<exists>s1 m. (if ?por then ExampleUpdateDevOnRel s (p_dev P) True else Some s) = Some s1 \<and> Inv G s1 \<and> s1 = s\<lparr>devs := m\<rparr>"
  proof (cases ?por)
    case True then show ?thesis using UpdateDevOnRel_Inv [OF i D, of True] by auto
  next
    case False
    show ?thesis unfolding if_not_P [OF False] using i by (intro exI [of _ s] exI [of _ "devs s"]) simp
  qed
  then obtain s1 m where s1: "(if ?por then ExampleUpdateDevOnRel s (p_dev P) True else Some s) = Some s1" "Inv G s1" "s1 = s\<lparr>devs := m\<rparr>"
    by blast
  have x1: "cmds s1 x = Some X" using s1(3) x by simp
  have nd: "\<not> of_dev (sigs s1) e x" for e using of_dev_iff [OF x1] x(3) by simp
  have un: "unlinked s1 x"
  proof -
    have q: "x \<notin> set (resvSensitiveCmdQueue E) \<and> x \<notin> set (resvSensitiveAbtQueue E)" if E: "devs s1 e = Some E" for e E
      using InvD_dev [OF s1(2) E] nd by (auto simp: dev_ok_def fits_def)
    show ?thesis using x1 limbo_notin(2) [OF s1(2) x(2)] q by (auto simp: unlinked_def split: option.splits)
  qed
  let ?s2 = "s1\<lparr>cmds := (cmds s1)(x := None)\<rparr>" and ?s2' = "s1\<lparr>cmds := (cmds s1)(x := None), completed := completed s1 @ [?c]\<rparr>"
  have i2: "Inv (G\<lparr>g_limbo := g_limbo G - {x}\<rparr>) ?s2'" by (rule retire_direct_Inv [OF s1(2) x(2) x1 x(3)])
  obtain s3 n where s3: "deref_path ?s2' ?p = Some s3" "s3 = ?s2'\<lparr>pths := n\<rparr>"
    "Inv (G\<lparr>g_limbo := g_limbo G - {x}, g_pin := (g_pin G)(?p := g_pin G ?p - 1), g_act := (g_act G)(?p := g_act G ?p - 1)\<rparr>) s3"
    using deref_path_Inv [OF i2, of ?p] g by auto
  have "deref_path ?s2 ?p = Some (?s2\<lparr>pths := n\<rparr>)"
    by (rule deref_path_frame [OF _ s3(1) [unfolded s3(2)]]) simp
  then have "ExampleCompletePathCommandDirect api s x = Some s3"
    unfolding ExampleCompletePathCommandDirect_def using x(1) P s1(1) un x1 s3(2)
    by (simp add: Let_def ExampleFreeExCommand_def)
  with s3(3) show ?thesis by blast
qed

section \<open>Task management\<close>

lemma Unblock_frame:
  "ExampleDevice_Unblock s d = Some s' \<Longrightarrow> \<exists>m. s' = s\<lparr>devs := m\<rparr>"
  by (auto simp: ExampleDevice_Unblock_def ExampleDeviceSchedStart_def ExampleDeviceIncBusyCount_def on_dev_def store_eq_Some
      split: bind_splits if_splits)

lemma tm_collect_Inv:
  "Inv G s \<Longrightarrow> devs s d \<noteq> None \<Longrightarrow> distinct xs \<Longrightarrow> set xs \<subseteq> set (retryQueue s) \<Longrightarrow> g_blk G d \<le> 1 \<Longrightarrow>
     \<forall>x X. x \<in> set xs \<longrightarrow> cmds s x = Some X \<longrightarrow> query (x_cmd X) \<longrightarrow> x_dev X = d \<Longrightarrow>
     set q0 \<subseteq> g_limbo G \<Longrightarrow> distinct q0 \<Longrightarrow> \<forall>x \<in> set q0. \<exists>X. cmds s x = Some X \<and> \<not> x_direct X \<Longrightarrow>
     \<exists>s' q1. tm_collect query xs s d q0 = Some (s', q0 @ q1) \<and> Inv (G\<lparr>g_limbo := g_limbo G \<union> set q1\<rparr>) s' \<and>
       distinct (q0 @ q1) \<and> (\<forall>x \<in> set (q0 @ q1). \<exists>X. cmds s' x = Some X \<and> \<not> x_direct X) \<and> set q1 \<inter> g_limbo G = {}"
proof (induction xs arbitrary: s G q0)
  case Nil
  then show ?case by (intro exI [of _ s] exI [of _ "[]"]) simp
next
  case (Cons x xs)
  have R: "x \<in> set (retryQueue s)" using Cons.prems(4) by simp
  then have "x \<in> dom (cmds s)" using Cons.prems(1) unfolding Inv_def places_def by blast
  then obtain X where X: "cmds s x = Some X" by auto
  obtain e where e: "of_dev (sigs s) e x" using Cons.prems(1) R unfolding Inv_def kinds_def by blast
  have nd: "\<not> x_direct X" "x_dev X = e" using e of_dev_iff [OF X] by auto
  have nL: "x \<notin> g_limbo G" using Cons.prems(1) R unfolding Inv_def places_def by blast
  show ?case
  proof (cases "query (x_cmd X)")
    case False
    obtain s' q1 where "tm_collect query xs s d q0 = Some (s', q0 @ q1) \<and> Inv (G\<lparr>g_limbo := g_limbo G \<union> set q1\<rparr>) s' \<and>
       distinct (q0 @ q1) \<and> (\<forall>x \<in> set (q0 @ q1). \<exists>X. cmds s' x = Some X \<and> \<not> x_direct X) \<and> set q1 \<inter> g_limbo G = {}"
      using Cons.IH [OF Cons.prems(1,2) _ _ Cons.prems(5) _ Cons.prems(7-9)] Cons.prems(3,4,6) by fastforce
    then show ?thesis using False X by (intro exI [of _ s'] exI [of _ q1]) simp
  next
    case True
    have ed: "e = d" using Cons.prems(6) X True nd(2) by auto
    obtain D where D: "devs s d = Some D" using Cons.prems(2) by auto
    let ?G1 = "G\<lparr>g_limbo := insert x (g_limbo G)\<rparr>" and ?s1 = "s\<lparr>retryQueue := removeAll x (retryQueue s)\<rparr>"
    have i1: "Inv (?G1\<lparr>g_blk := (g_blk ?G1)(d := Suc (g_blk ?G1 d))\<rparr>) ?s1"
      using unretry_Inv [OF Cons.prems(1) R D e [unfolded ed] Cons.prems(5)] by simp
    have d1: "devs ?s1 d = Some D" using D by simp
    obtain s2 where s2: "ExampleDevice_Unblock ?s1 d = Some s2" "Inv ?G1 s2" using Unblock_Inv [OF i1 d1] by blast
    obtain m where m: "s2 = ?s1\<lparr>devs := m\<rparr>" using Unblock_frame [OF s2(1)] by blast
    have d2: "devs s2 d \<noteq> None" using InvD_lim(4) [OF s2(2), of d x] e ed m by auto
    obtain s' q1 where r: "tm_collect query xs s2 d (q0 @ [x]) = Some (s', (q0 @ [x]) @ q1)"
       "Inv (?G1\<lparr>g_limbo := g_limbo ?G1 \<union> set q1\<rparr>) s'" "distinct ((q0 @ [x]) @ q1)"
       "\<forall>x \<in> set ((q0 @ [x]) @ q1). \<exists>X. cmds s' x = Some X \<and> \<not> x_direct X" "set q1 \<inter> g_limbo ?G1 = {}"
    proof -
      have a: "distinct xs" "set xs \<subseteq> set (retryQueue s2)" using Cons.prems(3,4) m by auto
      have b: "g_blk ?G1 d \<le> 1" using Cons.prems(5) by simp
      have c: "\<forall>x X. x \<in> set xs \<longrightarrow> cmds s2 x = Some X \<longrightarrow> query (x_cmd X) \<longrightarrow> x_dev X = d" using Cons.prems(6) m by simp
      have d: "set (q0 @ [x]) \<subseteq> g_limbo ?G1" "distinct (q0 @ [x])" using Cons.prems(7,8) nL by auto
      have f: "\<forall>x \<in> set (q0 @ [x]). \<exists>X. cmds s2 x = Some X \<and> \<not> x_direct X" using Cons.prems(9) X nd m by simp
      from Cons.IH [OF s2(2) d2 a b c d f] show thesis using that by blast
    qed
    have "insert x (g_limbo G) \<union> set q1 = g_limbo G \<union> set (x # q1)" by auto
    then show ?thesis using True X s2(1) r nL by (intro exI [of _ s'] exI [of _ "x # q1"]) auto
  qed
qed

lemma on_cmd_frame: "on_cmd s x f = Some s' \<Longrightarrow> y \<noteq> x \<Longrightarrow> cmds s' y = cmds s y"
  by (auto simp: on_cmd_def store_eq_Some split: bind_splits)

lemma tm_abort_Inv:
  assumes f: "fresh_heap al"
  shows "Inv G s \<Longrightarrow> distinct xs \<Longrightarrow> set xs \<subseteq> g_limbo G \<Longrightarrow> \<forall>x \<in> set xs. \<exists>X. cmds s x = Some X \<and> \<not> x_direct X \<Longrightarrow>
    \<exists>s'. tm_abort api al st xs s = Some s' \<and> Inv (G\<lparr>g_limbo := g_limbo G - set xs\<rparr>) s'"
proof (induction xs arbitrary: s G)
  case Nil
  then show ?case by simp
next
  case (Cons x xs)
  obtain X where X: "cmds s x = Some X" "\<not> x_direct X" using Cons.prems(4) by auto
  let ?f = "\<lambda>X. X\<lparr>x_cmd := (x_cmd X)\<lparr>c_status := st\<rparr>\<rparr>"
  have L: "x \<in> g_limbo G" using Cons.prems(3) by simp
  have sg: "sig_of (?f X) = sig_of X" by (rule sig_same) simp_all
  note o = on_cmd_Inv [OF Cons.prems(1) X(1) L, of ?f, OF sg]
  let ?s1 = "s\<lparr>cmds := (cmds s)(x \<mapsto> ?f X)\<rparr>"
  have x1: "cmds ?s1 x = Some (?f X)" "\<not> x_direct (?f X)" using X by simp_all
  obtain s2 where s2: "ExampleCompleteDeviceCommand api al ?s1 x = Some s2" "Inv (G\<lparr>g_limbo := g_limbo G - {x}\<rparr>) s2"
    "\<forall>y Y. y \<noteq> x \<longrightarrow> cmds ?s1 y = Some Y \<longrightarrow> cmds s2 y = Some Y"
    using CompleteDevice_Inv [OF o(2) f L x1, of api] by blast
  let ?G1 = "G\<lparr>g_limbo := g_limbo G - {x}\<rparr>"
  have nx: "x \<notin> set xs" using Cons.prems(2) by simp
  have k: "\<forall>y \<in> set xs. \<exists>Y. cmds s2 y = Some Y \<and> \<not> x_direct Y"
  proof
    fix y assume y: "y \<in> set xs"
    then obtain Y where Y: "cmds s y = Some Y" "\<not> x_direct Y" using Cons.prems(4) by auto
    then have "cmds ?s1 y = Some Y" using y nx by auto
    moreover have "y \<noteq> x" using y nx by blast
    ultimately have "cmds s2 y = Some Y" using s2(3) by blast
    with Y show "\<exists>Y. cmds s2 y = Some Y \<and> \<not> x_direct Y" by blast
  qed
  have "\<exists>s'. tm_abort api al st xs s2 = Some s' \<and> Inv (?G1\<lparr>g_limbo := g_limbo ?G1 - set xs\<rparr>) s'"
    by (rule Cons.IH [OF s2(2) _ _ k]) (use Cons.prems(2,3) nx in auto)
  moreover have "g_limbo ?G1 - set xs = g_limbo G - set (x # xs)" by auto
  ultimately show ?case using o(1) s2(1) by simp
qed

lemma tm_paths_Inv:
  "Inv G s \<Longrightarrow> devs s d = Some D \<Longrightarrow> set is \<subseteq> {..<16} \<Longrightarrow> \<forall>p. g_pin G p \<le> 2 ^ 20 \<Longrightarrow>
   \<exists>s' r. tm_paths reset answer is s d agg = Some (s', r) \<and> Inv G s'"
proof (induction "is" arbitrary: s D agg)
  case Nil
  then show ?case by simp
next
  case (Cons i js)
  note inv = Cons.prems(1)
  have js: "set js \<subseteq> {..<16}" and ii: "i < 16" using Cons.prems(3) by auto
  have len: "length (d_paths D) = 16" and q: "\<forall>q \<in> set (d_paths D). q \<noteq> NULL \<longrightarrow> path_dev s q = Some d"
    using InvD_dev [OF inv Cons.prems(2)] by (auto simp: dev_ok_def fits_def path_ok_def)
  let ?p = "d_paths D ! i"
  have np: "nth_opt (d_paths D) i = Some ?p" using ii len by (simp add: nth_opt_def)
  show ?case
  proof (cases "?p = NULL")
    case True
    then show ?thesis using Cons.IH [OF inv Cons.prems(2) js Cons.prems(4)] Cons.prems(2) np by simp
  next
    case False
    have "?p \<in> set (d_paths D)" using ii len by simp
    with q False have "path_dev s ?p = Some d" by blast
    then obtain P where P: "pths s ?p = Some P" by (auto simp: path_dev_def)
    let ?G1 = "G\<lparr>g_pin := (g_pin G)(?p := g_pin G ?p + 1)\<rparr>"
    obtain s1 m where s1: "ExamplePathIncRefCount s ?p = Some s1" "s1 = s\<lparr>pths := m\<rparr>" "Inv ?G1 s1"
      using IncRef_Inv [OF inv P] Cons.prems(4) by blast
    have d1: "devs s1 d = Some D" using s1(2) Cons.prems(2) by simp
    have dec: "\<exists>s3. ExamplePathDecRefCount s2 ?p = Some s3 \<and> Inv G s3 \<and> devs s3 d = devs s2 d" if "Inv ?G1 s2" for s2
      using DecRef_Inv [OF that, of ?p] by auto
    let ?cond = "p_activeCmdCount P \<noteq> 0 \<or> i = unat (activePathIndex D)"
    show ?thesis
    proof (cases ?cond)
      case True
      have "\<exists>s2 D2. (if reset \<and> answer ?p = VMK_OK then ExampleUpdateDevOnRel s1 d False else Some s1) = Some s2 \<and> Inv ?G1 s2 \<and> devs s2 d = Some D2"
      proof (cases "reset \<and> answer ?p = VMK_OK")
        case True
        obtain s2 D2 where "ExampleUpdateDevOnRel s1 d False = Some s2 \<and> Inv ?G1 s2 \<and> s2 = s1\<lparr>devs := (devs s1)(d \<mapsto> D2)\<rparr>"
          using UpdateDevOnRel_Inv [OF s1(3) d1, of False] by blast
        then show ?thesis using True by auto
      next
        case False
        show ?thesis unfolding if_not_P [OF False] using s1(3) d1 by blast
      qed
      then obtain s2 D2 where s2: "(if reset \<and> answer ?p = VMK_OK then ExampleUpdateDevOnRel s1 d False else Some s1) = Some s2"
        "Inv ?G1 s2" "devs s2 d = Some D2" by blast
      obtain s3 where s3: "ExamplePathDecRefCount s2 ?p = Some s3" "Inv G s3" "devs s3 d = Some D2" using dec [OF s2(2)] s2(3) by auto
      show ?thesis
        using Cons.IH [OF s3(2,3) js Cons.prems(4)] Cons.prems(2) np False P s1(1) True s2(1) s3(1) by (simp add: Let_def)
    next
      case nc: False
      obtain s3 where s3: "ExamplePathDecRefCount s1 ?p = Some s3" "Inv G s3" "devs s3 d = Some D" using dec [OF s1(3)] d1 by auto
      show ?thesis
        using Cons.IH [OF s3(2,3) js Cons.prems(4)] Cons.prems(2) np False P s1(1) nc s3(1) by (simp add: Let_def)
    qed
  qed
qed

text \<open>Something else than its commands keeps a device open, and no longer does.\<close>

lemma open_Inv:
  assumes i: "Inv G s" and D: "devs s d = Some D" "0 < openCount D" "\<not> has_flag D EXAMPLE_DEVICE_REMOVING"
  shows "Inv (G\<lparr>g_open := (\<lambda>e. e = d)\<rparr>) s"
proof -
  have "dev_ok (G\<lparr>g_open := (\<lambda>e. e = d)\<rparr>) (sigs s) (path_dev s) (set (works s)) (set (retryQueue s)) (flying s) e E"
    if "devs s e = Some E" for e E
    using InvD_dev [OF i that] that D by (auto simp: dev_ok_def fits_def)
  then show ?thesis using i D by (auto simp: Inv_def devs_ok_def kinds_def paths_ok_def path_counts_def places_def)
qed

lemma close_Inv:
  assumes i: "Inv G s"
  shows "Inv (G\<lparr>g_open := (\<lambda>e. False)\<rparr>) s"
proof -
  have "dev_ok (G\<lparr>g_open := (\<lambda>e. False)\<rparr>) (sigs s) (path_dev s) (set (works s)) (set (retryQueue s)) (flying s) e E"
    if "devs s e = Some E" for e E
    using InvD_dev [OF i that] by (auto simp: dev_ok_def fits_def)
  then show ?thesis using i by (auto simp: Inv_def devs_ok_def kinds_def paths_ok_def path_counts_def places_def)
qed

lemma TaskManagement_Inv:
  assumes i: "Inv G s" and f: "fresh_heap al" and D: "devs s d = Some D" "0 < openCount D" "\<not> has_flag D EXAMPLE_DEVICE_REMOVING"
    and g: "g_blk G d \<le> 1" "g_open G = (\<lambda>e. False)" "\<forall>p. g_pin G p \<le> 2 ^ 20" "g_limbo G = {}"
    and q: "\<forall>x X. x \<in> set (retryQueue s) \<longrightarrow> cmds s x = Some X \<longrightarrow> query (x_cmd X) \<longrightarrow> x_dev X = d"
  shows "\<exists>s' r. ExampleDeviceTaskManagement api al query st reset answer s d = Some (s', r) \<and> Inv G s'"
proof -
  let ?G1 = "G\<lparr>g_open := (\<lambda>e. e = d)\<rparr>"
  have i1: "Inv ?G1 s" by (rule open_Inv [OF i D])
  have dq: "distinct (retryQueue s)" using i unfolding Inv_def places_def by blast
  have b: "devs s d \<noteq> None" "g_blk ?G1 d \<le> 1" "set [] \<subseteq> g_limbo ?G1" using D g by simp_all
  obtain s1 q1 where s1: "tm_collect query (retryQueue s) s d [] = Some (s1, [] @ q1)" "Inv (?G1\<lparr>g_limbo := g_limbo ?G1 \<union> set q1\<rparr>) s1"
    "distinct ([] @ q1)" "\<forall>x \<in> set ([] @ q1). \<exists>X. cmds s1 x = Some X \<and> \<not> x_direct X" "set q1 \<inter> g_limbo ?G1 = {}"
    using tm_collect_Inv [OF i1 b(1) dq subset_refl b(2) q b(3)] by auto
  let ?G2 = "?G1\<lparr>g_limbo := g_limbo ?G1 \<union> set q1\<rparr>"
  obtain s2 where s2: "tm_abort api al st q1 s1 = Some s2" "Inv (?G2\<lparr>g_limbo := g_limbo ?G2 - set q1\<rparr>) s2"
    using tm_abort_Inv [OF f s1(2), of q1 api st] s1(3,4) by auto
  have ge: "?G2\<lparr>g_limbo := g_limbo ?G2 - set q1\<rparr> = ?G1" using g(4) by simp
  have i2: "Inv ?G1 s2" using s2(2) unfolding ge .
  obtain D2 where D2: "devs s2 d = Some D2" using InvD_lim(7) [OF i2, of d] by auto
  have op: "0 < openCount D2" using InvD_dev [OF i2 D2] by (auto simp: dev_ok_def fits_def)
  obtain s3 r where s3: "tm_paths reset answer [0..<EXAMPLE_MAX_PATHS_PER_DEVICE] s2 d VMK_OK = Some (s3, r)" "Inv ?G1 s3"
    using tm_paths_Inv [OF i2 D2, of "[0..<EXAMPLE_MAX_PATHS_PER_DEVICE]" reset answer VMK_OK] g(3)
    by (auto simp: EXAMPLE_MAX_PATHS_PER_DEVICE_def atLeast0LessThan)
  have "Inv G s3"
  proof -
    have "?G1\<lparr>g_open := (\<lambda>e. False)\<rparr> = G" using g(2) by (cases G) simp
    with close_Inv [OF s3(2)] show ?thesis by simp
  qed
  then show ?thesis using s1(1) s2(1) D2 op s3(1) by (simp add: ExampleDeviceTaskManagement_def)
qed

end
