(* ===== verification/Plugin_Probe.thy ===== *)
theory Plugin_Probe
  imports Plugin_Paths
begin

text \<open>
  Probing the paths of a device with a command, and turning a path on or off. An additional sense code
  qualifier is named by what it means under its additional sense code. A probe runs without
  interruption by other operations on the device.
\<close>

section \<open>Probing\<close>

text \<open>
  What the SCSI layer answers when a path is probed: whether a command could be created, the result
  of sending it, the command as it comes back, and whether \<^verbatim>\<open>vmk_ScsiVerifyPathUID\<close> finds that the
  device behind the path has changed or is lost. \<open>tur s p\<close> is the answer in state \<open>s\<close> for path \<open>p\<close>.
\<close>

record tur_answer =
  t_created :: bool
  t_result :: VMK_ReturnStatus
  t_cmd :: scsi_cmd
  t_uid_changed :: bool

definition ExamplePathUnrecHWError :: "sense \<Rightarrow> bool" where
  "ExamplePathUnrecHWError sn =
     (case sn of Sense key a q \<Rightarrow> key = KEY_HARDWARE_ERROR \<and>
        (a = ASC_FAILED_SELF_CONFIG \<and> q = ASCQ_ZERO \<or>
         a = ASC_LU_ERROR \<and> (q = ASCQ_FAILED_SELF_TEST \<or> q = ASCQ_LU_FAILURE))
      | _ \<Rightarrow> False)"

definition ExampleLUNotSupported :: "sense \<Rightarrow> bool" where
  "ExampleLUNotSupported sn =
     (case sn of Sense key a q \<Rightarrow>
        a = ASC_LU_NOT_SUPPORTED \<and> q = ASCQ_ZERO \<or> a = ASC_LU_NOT_CONFIGURED \<and> q = ASCQ_ZERO
      | _ \<Rightarrow> False)"

text \<open>The part of \<^verbatim>\<open>ExampleUpdatePathState\<close> before \<open>updatePDL\<close>: the new state of the path, and \<open>isPDL\<close>.\<close>

definition probe_verdict :: "scsi_api \<Rightarrow> path_state \<Rightarrow> tur_answer \<Rightarrow> path_state \<times> bool" where
  "probe_verdict api st t =
     (let cmd = t_cmd t in
      if is_successful api (c_status cmd) then (PATH_ON, False)
      else if is_check api (c_status cmd) then
        (case c_sense cmd of
           Sense KEY_NOT_READY ASC_LU_NOT_READY ASCQ_MANUAL_INTERVENTION_REQUIRED \<Rightarrow> (PATH_STANDBY, False)
         | sn \<Rightarrow> (PATH_DEAD,
             if ExampleLUNotSupported sn \<or> ExamplePathUnrecHWError sn then True
             else (st = PATH_STANDBY \<or> st = PATH_ON) \<and> t_uid_changed t))
      else (PATH_DEAD, False))"

text \<open>\<open>probe\<close> stands for \<^verbatim>\<open>ExampleDeviceProbe\<close>, which this function calls when the path gets in or out of PDL.\<close>

definition ExampleUpdatePathState ::
  "(plugin \<Rightarrow> nat \<Rightarrow> (plugin \<times> VMK_ReturnStatus) option) \<Rightarrow> scsi_api \<Rightarrow> plugin \<Rightarrow> nat \<Rightarrow> tur_answer \<Rightarrow> plugin option" where
  "ExampleUpdatePathState probe api s p t = do {
     P \<leftarrow> pths s p;
     if p_state P = PATH_OFF then Some s
     else do {
       let (new, isPDL) = probe_verdict api (p_state P) t;
       s \<leftarrow> set_path_state s p new;
       if isPDL \<noteq> p_isPDL P then do {
         s \<leftarrow> on_path s p (\<lambda>P. P\<lparr>p_isPDL := isPDL\<rparr>);
         D \<leftarrow> devs s (p_dev P);
         if has_flag D EXAMPLE_DEVICE_REGISTERED then do {
           c_assert (d_device D);
           (s, _) \<leftarrow> probe s (p_dev P);
           Some s
         } else Some s
       } else do {
         D \<leftarrow> devs s (p_dev P);
         if has_flag D EXAMPLE_DEVICE_REGISTERED then do {
           r \<leftarrow> ExampleDeviceUpdateState s (p_dev P);
           (case r of Some st \<Rightarrow> on_dev s (p_dev P) (\<lambda>D. D\<lparr>d_state := st\<rparr>) | None \<Rightarrow> Some s)
         } else Some s
       }
     }
   }"

definition ExampleProbePath ::
  "(plugin \<Rightarrow> nat \<Rightarrow> (plugin \<times> VMK_ReturnStatus) option) \<Rightarrow> scsi_api \<Rightarrow> (plugin \<Rightarrow> nat \<Rightarrow> tur_answer) \<Rightarrow>
   plugin \<Rightarrow> nat \<Rightarrow> (plugin \<times> VMK_ReturnStatus) option" where
  "ExampleProbePath probe api tur s p = do {
     let t = tur s p;
     if \<not> t_created t then Some (s, VMK_NO_MEMORY)
     else if t_result t = VMK_OK then do {
       s \<leftarrow> ExampleUpdatePathState probe api s p t;
       Some (s, VMK_OK)
     } else Some (s, t_result t)
   }"

text \<open>The loop of \<^verbatim>\<open>ExampleDeviceProbe\<close> over the slots; a slot is read when its turn comes.\<close>

primrec probe_paths ::
  "(plugin \<Rightarrow> nat \<Rightarrow> (plugin \<times> VMK_ReturnStatus) option) \<Rightarrow> scsi_api \<Rightarrow> (plugin \<Rightarrow> nat \<Rightarrow> tur_answer) \<Rightarrow>
   nat list \<Rightarrow> plugin \<Rightarrow> nat \<Rightarrow> VMK_ReturnStatus \<Rightarrow> (plugin \<times> VMK_ReturnStatus) option" where
  "probe_paths probe api tur [] s d agg = Some (s, agg)"
| "probe_paths probe api tur (i # is) s d agg = do {
     D \<leftarrow> devs s d;
     p \<leftarrow> nth_opt (d_paths D) i;
     if p = NULL then probe_paths probe api tur is s d agg
     else do {
       s \<leftarrow> ExamplePathIncRefCount s p;
       (s, curr) \<leftarrow> ExampleProbePath probe api tur s p;
       s \<leftarrow> ExamplePathDecRefCount s p;
       probe_paths probe api tur is s d (if curr \<noteq> VMK_OK then curr else agg)
     }
   }"

text \<open>
  \<^verbatim>\<open>ExampleDeviceProbe\<close> is called again while a probe is under way; \<open>depth\<close> bounds the nesting of the
  calls, and \<^term>\<open>None\<close> at depth 0 stands for a nesting that is not modelled.
\<close>

primrec ExampleDeviceProbe ::
  "nat \<Rightarrow> scsi_api \<Rightarrow> (plugin \<Rightarrow> nat \<Rightarrow> tur_answer) \<Rightarrow> plugin \<Rightarrow> nat \<Rightarrow> (plugin \<times> VMK_ReturnStatus) option" where
  "ExampleDeviceProbe 0 api tur s d = None"
| "ExampleDeviceProbe (Suc depth) api tur s d = do {
     (s, curr) \<leftarrow> ExampleDeviceOpen s d;
     if curr \<noteq> VMK_OK then Some (s, curr)
     else do {
       D \<leftarrow> devs s d;
       if inProbe D then do {
         s \<leftarrow> ExampleDeviceClose s d;
         Some (s, VMK_BUSY)
       } else do {
         s \<leftarrow> on_dev s d (\<lambda>D. D\<lparr>inProbe := True\<rparr>);
         (s, agg) \<leftarrow> probe_paths (ExampleDeviceProbe depth api tur) api tur [0..<EXAMPLE_MAX_PATHS_PER_DEVICE] s d VMK_OK;
         r \<leftarrow> ExampleDeviceUpdateState s d;
         s \<leftarrow> on_dev s d (\<lambda>D. D\<lparr>inProbe := False\<rparr>);
         s \<leftarrow> (case r of Some st \<Rightarrow> on_dev s d (\<lambda>D. D\<lparr>d_state := st\<rparr>) | None \<Rightarrow> Some s);
         s \<leftarrow> ExampleDeviceClose s d;
         Some (s, agg)
       }
     }
   }"

text \<open>The request of an administrator to turn a path on or off.\<close>

definition ExamplePathSetState ::
  "nat \<Rightarrow> scsi_api \<Rightarrow> (plugin \<Rightarrow> nat \<Rightarrow> tur_answer) \<Rightarrow> plugin \<Rightarrow> nat \<Rightarrow> path_state \<Rightarrow>
   (plugin \<times> VMK_ReturnStatus) option" where
  "ExamplePathSetState depth api tur s p new = do {
     c_assert (new = PATH_ON \<or> new = PATH_OFF);
     P \<leftarrow> pths s p;
     if p_state P = new then Some (s, VMK_OK)
     else if new = PATH_ON then do {
       s \<leftarrow> (if p_state P = PATH_OFF then set_path_state s p PATH_DEAD else Some s);
       (s, _) \<leftarrow> ExampleProbePath (ExampleDeviceProbe depth api tur) api tur s p;
       Some (s, VMK_OK)
     } else do {
       (working, _) \<leftarrow> ExampleHasMoreWorkingPaths s p False;
       if \<not> working then Some (s, VMK_BUSY)
       else do {
         s \<leftarrow> set_path_state s p PATH_OFF;
         (s, _) \<leftarrow> ExampleProbePath (ExampleDeviceProbe depth api tur) api tur s p;
         Some (s, VMK_OK)
       }
     }
   }"

section \<open>A probe returns\<close>

text \<open>
  Everything but the states of paths and devices: two states with the same \<open>score\<close> differ in these only.
\<close>

definition dcore :: "ExampleDevice \<Rightarrow> ExampleDevice" where
  "dcore D = D\<lparr>d_state := DEV_ON\<rparr>"

definition pcore :: "ExamplePath \<Rightarrow> ExamplePath" where
  "pcore P = P\<lparr>p_state := PATH_ON, p_isPDL := False\<rparr>"

definition score :: "plugin \<Rightarrow> plugin" where
  "score s = s\<lparr>devs := map_option dcore \<circ> devs s, pths := map_option pcore \<circ> pths s\<rparr>"

text \<open>
  The structs fit together: the paths of a device exist and belong to it, and a registered device has
  its counterpart in the SCSI layer. There is room for \<open>n\<close> more openings and \<open>m\<close> more references.
\<close>

definition links_ok :: "nat \<Rightarrow> nat \<Rightarrow> plugin \<Rightarrow> bool" where
  "links_ok n m s \<longleftrightarrow>
     (\<forall>d D. devs s d = Some D \<longrightarrow> length (d_paths D) = 16 \<and> unat (openCount D) + n < 2 ^ 32 \<and>
        (has_flag D EXAMPLE_DEVICE_REGISTERED \<longrightarrow> d_device D) \<and>
        (\<forall>q \<in> set (d_paths D). q \<noteq> NULL \<longrightarrow> (\<exists>P. pths s q = Some P \<and> p_dev P = d \<and> unat (p_refCount P) + m < 2 ^ 32)))"

lemma score_path: "score (s\<lparr>pths := (pths s)(p \<mapsto> P)\<rparr>) = (score s)\<lparr>pths := (pths (score s))(p \<mapsto> pcore P)\<rparr>"
  by (simp add: score_def fun_upd_def comp_def fun_eq_iff)

lemma score_dev: "score (s\<lparr>devs := (devs s)(d \<mapsto> D)\<rparr>) = (score s)\<lparr>devs := (devs (score s))(d \<mapsto> dcore D)\<rparr>"
  by (simp add: score_def fun_upd_def comp_def fun_eq_iff)

lemma score_path_same: "pths s p = Some P \<Longrightarrow> pcore P' = pcore P \<Longrightarrow> score (s\<lparr>pths := (pths s)(p \<mapsto> P')\<rparr>) = score s"
  by (simp add: score_path) (simp add: score_def fun_upd_def comp_def fun_eq_iff)

lemma score_dev_same: "devs s d = Some D \<Longrightarrow> dcore D' = dcore D \<Longrightarrow> score (s\<lparr>devs := (devs s)(d \<mapsto> D')\<rparr>) = score s"
  by (simp add: score_dev) (simp add: score_def fun_upd_def comp_def fun_eq_iff)

lemma devs_score: "devs (score s) d = map_option dcore (devs s d)"
  and pths_score: "pths (score s) p = map_option pcore (pths s p)"
  by (simp_all add: score_def)

lemma dcoreD:
  "dcore D' = dcore D \<Longrightarrow> d_flags D' = d_flags D \<and> inProbe D' = inProbe D \<and> openCount D' = openCount D \<and>
     d_paths D' = d_paths D \<and> d_device D' = d_device D"
  by (cases D, cases D') (simp add: dcore_def)

lemma pcoreD: "pcore P' = pcore P \<Longrightarrow> p_dev P' = p_dev P \<and> p_refCount P' = p_refCount P"
  by (cases P, cases P') (simp add: pcore_def)

lemma score_devD:
  assumes "score s' = score s" "devs s d = Some D"
  obtains D' where "devs s' d = Some D'" "dcore D' = dcore D"
proof -
  from assms have "map_option dcore (devs s' d) = Some (dcore D)"
    using devs_score [of s' d] devs_score [of s d] by simp
  then show thesis using that by auto
qed

lemma score_pathD:
  assumes "score s' = score s" "pths s p = Some P"
  obtains P' where "pths s' p = Some P'" "pcore P' = pcore P"
proof -
  from assms have "map_option pcore (pths s' p) = Some (pcore P)"
    using pths_score [of s' p] pths_score [of s p] by simp
  then show thesis using that by auto
qed

lemma links_score:
  assumes "score s' = score s" and l: "links_ok n m s"
  shows "links_ok n m s'"
proof -
  have "length (d_paths D') = 16 \<and> unat (openCount D') + n < 2 ^ 32 \<and>
        (has_flag D' EXAMPLE_DEVICE_REGISTERED \<longrightarrow> d_device D') \<and>
        (\<forall>q \<in> set (d_paths D'). q \<noteq> NULL \<longrightarrow> (\<exists>P. pths s' q = Some P \<and> p_dev P = d \<and> unat (p_refCount P) + m < 2 ^ 32))"
    if d': "devs s' d = Some D'" for d D'
  proof -
    obtain D where d: "devs s d = Some D" and c: "dcore D = dcore D'"
      using score_devD [OF assms(1) [symmetric] d'] .
    have q: "\<exists>P. pths s' q = Some P \<and> p_dev P = d \<and> unat (p_refCount P) + m < 2 ^ 32"
      if "q \<in> set (d_paths D)" "q \<noteq> NULL" for q
    proof -
      from l d that obtain P where P: "pths s q = Some P" "p_dev P = d" "unat (p_refCount P) + m < 2 ^ 32"
        unfolding links_ok_def by blast
      obtain P' where "pths s' q = Some P'" "pcore P' = pcore P" using score_pathD [OF assms(1) P(1)] .
      with P pcoreD [of P' P] show ?thesis by auto
    qed
    from l d have "length (d_paths D) = 16 \<and> unat (openCount D) + n < 2 ^ 32 \<and>
        (has_flag D EXAMPLE_DEVICE_REGISTERED \<longrightarrow> d_device D)" unfolding links_ok_def by blast
    with q dcoreD [OF c] show ?thesis by (auto simp: has_flag_def)
  qed
  then show ?thesis unfolding links_ok_def by blast
qed

lemma links_mono: "links_ok n m s \<Longrightarrow> n' \<le> n \<Longrightarrow> m' \<le> m \<Longrightarrow> links_ok n' m' s"
  unfolding links_ok_def by (meson add_le_mono1 nat_add_left_cancel_le order_le_less_trans)

lemma links_dev:
  assumes l: "links_ok n m s" and D: "devs s d = Some D" and eq: "d_paths D' = d_paths D"
    "has_flag D' EXAMPLE_DEVICE_REGISTERED = has_flag D EXAMPLE_DEVICE_REGISTERED" "d_device D' = d_device D"
    and o: "unat (openCount D') + n' < 2 ^ 32" and le: "n' \<le> n"
  shows "links_ok n' m (s\<lparr>devs := (devs s)(d \<mapsto> D')\<rparr>)"
proof -
  have l': "links_ok n' m s" by (rule links_mono [OF l le]) simp
  show ?thesis
    unfolding links_ok_def
  proof (intro allI impI)
    fix e E assume "devs (s\<lparr>devs := (devs s)(d \<mapsto> D')\<rparr>) e = Some E"
    then show "length (d_paths E) = 16 \<and> unat (openCount E) + n' < 2 ^ 32 \<and>
        (has_flag E EXAMPLE_DEVICE_REGISTERED \<longrightarrow> d_device E) \<and>
        (\<forall>q \<in> set (d_paths E). q \<noteq> NULL \<longrightarrow>
          (\<exists>P. pths (s\<lparr>devs := (devs s)(d \<mapsto> D')\<rparr>) q = Some P \<and> p_dev P = e \<and> unat (p_refCount P) + m < 2 ^ 32))"
      using l' D o eq unfolding links_ok_def by (cases "e = d") auto
  qed
qed

lemma links_path:
  assumes l: "links_ok n m s" and P: "pths s p = Some P" and eq: "p_dev P' = p_dev P"
    and o: "unat (p_refCount P') + m' < 2 ^ 32" and le: "m' \<le> m"
  shows "links_ok n m' (s\<lparr>pths := (pths s)(p \<mapsto> P')\<rparr>)"
proof -
  have l': "links_ok n m' s" by (rule links_mono [OF l _ le]) simp
  show ?thesis
    unfolding links_ok_def
  proof (intro allI impI)
    fix e E assume "devs (s\<lparr>pths := (pths s)(p \<mapsto> P')\<rparr>) e = Some E"
    then have E: "devs s e = Some E" by simp
    have q: "\<exists>P. (if q = p then Some P' else pths s q) = Some P \<and> p_dev P = e \<and> unat (p_refCount P) + m' < 2 ^ 32"
      if q: "q \<in> set (d_paths E)" "q \<noteq> NULL" for q
    proof -
      obtain Q where Q: "pths s q = Some Q" "p_dev Q = e" "unat (p_refCount Q) + m' < 2 ^ 32"
        using l' E q unfolding links_ok_def by blast
      show ?thesis using Q P eq o by (cases "q = p") auto
    qed
    have "length (d_paths E) = 16 \<and> unat (openCount E) + n < 2 ^ 32 \<and>
        (has_flag E EXAMPLE_DEVICE_REGISTERED \<longrightarrow> d_device E)"
      using l' E unfolding links_ok_def by blast
    with q show "length (d_paths E) = 16 \<and> unat (openCount E) + n < 2 ^ 32 \<and>
        (has_flag E EXAMPLE_DEVICE_REGISTERED \<longrightarrow> d_device E) \<and>
        (\<forall>q \<in> set (d_paths E). q \<noteq> NULL \<longrightarrow>
          (\<exists>Q. pths (s\<lparr>pths := (pths s)(p \<mapsto> P')\<rparr>) q = Some Q \<and> p_dev Q = e \<and> unat (p_refCount Q) + m' < 2 ^ 32))"
      by (simp add: fun_upd_def)
  qed
qed

text \<open>The state of an existing device can be computed.\<close>

lemma update_state_total:
  assumes "links_ok n m s" "devs s d = Some D"
  shows "\<exists>r. ExampleDeviceUpdateState s d = Some r"
proof -
  have "\<forall>q \<in> set (d_paths D). q \<noteq> NULL \<longrightarrow> pths s q \<noteq> None"
    using assms unfolding links_ok_def by fastforce
  from update_state_loop_eq [OF this, of "d_state D" True True] assms(2) show ?thesis
    by (simp add: ExampleDeviceUpdateState_def)
qed

text \<open>A probe of a device that is being probed changes nothing.\<close>

definition busy_probe :: "(plugin \<Rightarrow> nat \<Rightarrow> (plugin \<times> VMK_ReturnStatus) option) \<Rightarrow> bool" where
  "busy_probe probe \<longleftrightarrow> (\<forall>s d D. links_ok 1 0 s \<longrightarrow> devs s d = Some D \<longrightarrow> inProbe D \<longrightarrow> (\<exists>r. probe s d = Some (s, r)))"

lemma nested_probe: "busy_probe (ExampleDeviceProbe (Suc n) api tur)"
proof -
  have "\<exists>r. ExampleDeviceProbe (Suc n) api tur s d = Some (s, r)"
    if l: "links_ok 1 0 s" and d: "devs s d = Some D" and p: "inProbe D" for s d D
  proof -
    from l d have "unat (openCount D) + 1 < 2 ^ 32" unfolding links_ok_def by blast
    then have "openCount D + 1 \<noteq> 0" by (simp add: word_unat_eq_iff unat_word_ariths)
    then have o: "openCount D + 1 > 0" by (simp add: word_neq_0_conv)
    have tr: "s\<lparr>devs := (devs s)(d \<mapsto> D)\<rparr> = s" using d by (simp add: fun_upd_idem)
    show ?thesis using d p o tr
      by (auto simp: ExampleDeviceOpen_def ExampleDeviceClose_def on_dev_def)
  qed
  then show ?thesis unfolding busy_probe_def by blast
qed

lemma probe_path_total:
  assumes b: "\<And>s2. score s2 = score s \<Longrightarrow> \<exists>s' r. probe s2 (p_dev P) = Some (s', r) \<and> score s' = score s"
    and l: "links_ok 1 0 s" and p: "pths s p = Some P" and d: "devs s (p_dev P) = Some D"
  shows "\<exists>s' r. ExampleProbePath probe api tur s p = Some (s', r) \<and> score s' = score s"
proof -
  let ?t = "tur s p"
  have "\<exists>s'. ExampleUpdatePathState probe api s p ?t = Some s' \<and> score s' = score s"
  proof (cases "p_state P = PATH_OFF")
    case True
    then show ?thesis using p by (simp add: ExampleUpdatePathState_def)
  next
    case False
    obtain new pdl where v: "probe_verdict api (p_state P) ?t = (new, pdl)" by fastforce
    define s1 where "s1 = s\<lparr>pths := (pths s)(p \<mapsto> P\<lparr>p_state := new\<rparr>)\<rparr>"
    have s1: "score s1 = score s" unfolding s1_def by (rule score_path_same [OF p]) (simp add: pcore_def)
    define s2 where "s2 = s1\<lparr>pths := (pths s1)(p \<mapsto> P\<lparr>p_state := new, p_isPDL := pdl\<rparr>)\<rparr>"
    have p1: "pths s1 p = Some (P\<lparr>p_state := new\<rparr>)" by (simp add: s1_def)
    have s2: "score s2 = score s" unfolding s2_def using score_path_same [OF p1] s1 by (simp add: pcore_def)
    have d1: "devs s1 (p_dev P) = Some D" "devs s2 (p_dev P) = Some D" using d by (simp_all add: s1_def s2_def)
    have st: "set_path_state s p new = Some s1" using p by (simp add: set_path_state_def on_path_def s1_def)
    have pd: "on_path s1 p (\<lambda>P. P\<lparr>p_isPDL := pdl\<rparr>) = Some s2" using p1 by (simp add: on_path_def s2_def)
    have l1: "links_ok 1 0 s1" "links_ok 1 0 s2" using links_score l s1 s2 by blast+
    obtain s3 r where r: "probe s2 (p_dev P) = Some (s3, r)" and s3: "score s3 = score s"
      using b [OF s2] by blast
    obtain u where u: "ExampleDeviceUpdateState s1 (p_dev P) = Some u"
      using update_state_total [OF l1(1) d1(1)] by blast
    have dev: "has_flag D EXAMPLE_DEVICE_REGISTERED \<Longrightarrow> d_device D" using l d unfolding links_ok_def by blast
    have up: "\<exists>s'. (case u of Some st \<Rightarrow> on_dev s1 (p_dev P) (\<lambda>D. D\<lparr>d_state := st\<rparr>) | None \<Rightarrow> Some s1) = Some s'
        \<and> score s' = score s"
    proof (cases u)
      case None then show ?thesis using s1 by simp
    next
      case (Some st)
      have "score (s1\<lparr>devs := (devs s1)(p_dev P \<mapsto> D\<lparr>d_state := st\<rparr>)\<rparr>) = score s1"
        by (rule score_dev_same [OF d1(1)]) (simp add: dcore_def)
      then show ?thesis using Some s1 d1(1) by (simp add: on_dev_def)
    qed
    show ?thesis
    proof (cases "pdl = p_isPDL P")
      case True
      then show ?thesis unfolding ExampleUpdatePathState_def using False p v st d1(1) u up s1
        by (simp add: split_def)
    next
      case ne: False
      have "ExampleUpdatePathState probe api s p ?t = Some (if has_flag D EXAMPLE_DEVICE_REGISTERED then s3 else s2)"
        unfolding ExampleUpdatePathState_def using False p v st pd [unfolded id_def] d1(2) r dev ne
        by (simp add: split_def cong del: if_weak_cong)
      then show ?thesis using s2 s3 by simp
    qed
  qed
  then show ?thesis by (auto simp: ExampleProbePath_def Let_def)
qed

lemma busy_probe_score:
  assumes b: "busy_probe probe" and l: "links_ok 1 0 s" and d: "devs s d = Some D" and ip: "inProbe D" and s2: "score s2 = score s"
  shows "\<exists>s' r. probe s2 d = Some (s', r) \<and> score s' = score s"
proof -
  obtain D2 where D2: "devs s2 d = Some D2" "dcore D2 = dcore D" using score_devD [OF s2 d] .
  then have "inProbe D2" using dcoreD [OF D2(2)] ip by simp
  with b links_score [OF s2 l] D2(1) s2 show ?thesis unfolding busy_probe_def by blast
qed

lemma probe_paths_total:
  assumes b: "busy_probe probe"
  shows "set is \<subseteq> {..<16} \<Longrightarrow> links_ok 1 1 s \<Longrightarrow> devs s d = Some D \<Longrightarrow> inProbe D \<Longrightarrow>
    \<exists>s' r. probe_paths probe api tur is s d agg = Some (s', r) \<and> score s' = score s"
proof (induction "is" arbitrary: s D agg)
  case Nil
  then show ?case by simp
next
  case (Cons i js)
  have len: "length (d_paths D) = 16" using Cons.prems unfolding links_ok_def by blast
  then have i: "i < length (d_paths D)" using Cons.prems by auto
  let ?p = "d_paths D ! i"
  have js: "set js \<subseteq> {..<16}" using Cons.prems(1) by auto
  show ?case
  proof (cases "?p = NULL")
    case True
    then show ?thesis using Cons.IH [OF js Cons.prems(2-4), of agg] Cons.prems(3) i by (simp add: nth_opt_def)
  next
    case False
    have "?p \<in> set (d_paths D)" using i by simp
    then obtain P where P: "pths s ?p = Some P" "p_dev P = d" "unat (p_refCount P) + 1 < 2 ^ 32"
      using Cons.prems(2,3) False unfolding links_ok_def by blast
    define s1 where "s1 = s\<lparr>pths := (pths s)(?p \<mapsto> P\<lparr>p_refCount := p_refCount P + 1\<rparr>)\<rparr>"
    have inc: "ExamplePathIncRefCount s ?p = Some s1" using P by (simp add: ExamplePathIncRefCount_def on_path_def s1_def)
    have p1: "pths s1 ?p = Some (P\<lparr>p_refCount := p_refCount P + 1\<rparr>)" and d1: "devs s1 d = Some D"
      using Cons.prems(3) by (simp_all add: s1_def)
    have up: "unat (p_refCount P + 1) = unat (p_refCount P) + 1" using P(3) by (simp add: unat_word_ariths)
    have l1: "links_ok 1 0 s1"
      unfolding s1_def by (rule links_path [OF Cons.prems(2) P(1)]) (use up P(3) in auto)
    obtain s2 r where s2: "ExampleProbePath probe api tur s1 ?p = Some (s2, r)" "score s2 = score s1"
      using probe_path_total [where probe = probe and D = D and api = api and tur = tur, OF _ l1 p1]
        busy_probe_score [OF b l1 d1 Cons.prems(4)] d1 P(2) by auto
    obtain P2 where P2: "pths s2 ?p = Some P2" "pcore P2 = pcore (P\<lparr>p_refCount := p_refCount P + 1\<rparr>)"
      using score_pathD [OF s2(2) p1] .
    have ref: "p_refCount P2 = p_refCount P + 1" using pcoreD [OF P2(2)] by simp
    define s3 where "s3 = s2\<lparr>pths := (pths s2)(?p \<mapsto> P2\<lparr>p_refCount := p_refCount P2 - 1\<rparr>)\<rparr>"
    have "p_refCount P2 > 0" using ref up by (simp add: word_less_nat_alt)
    then have dec: "ExamplePathDecRefCount s2 ?p = Some s3"
      using P2 by (simp add: ExamplePathDecRefCount_def on_path_def s3_def)
    have "pcore (P2\<lparr>p_refCount := p_refCount P2 - 1\<rparr>) = pcore P"
      using P2(2) ref by (cases P, cases P2) (simp add: pcore_def)
    then have "score s3 = (score s)\<lparr>pths := (pths (score s))(?p \<mapsto> pcore P)\<rparr>"
      unfolding s3_def score_path s2(2) s1_def by simp
    also have "\<dots> = score s" using P(1) by (simp add: score_def fun_upd_def comp_def fun_eq_iff)
    finally have s3: "score s3 = score s" .
    obtain D3 where D3: "devs s3 d = Some D3" "dcore D3 = dcore D" using score_devD [OF s3 Cons.prems(3)] .
    have "\<exists>s' r'. probe_paths probe api tur js s3 d (if r \<noteq> VMK_OK then r else agg) = Some (s', r') \<and> score s' = score s3"
      by (rule Cons.IH [OF js links_score [OF s3 Cons.prems(2)] D3(1)]) (use dcoreD [OF D3(2)] Cons.prems(4) in simp)
    with s3 show ?thesis using False Cons.prems(3) i inc s2(1) dec by (simp add: nth_opt_def)
  qed
qed

lemma probe_score:
  assumes l: "links_ok 2 1 s" and d: "d \<noteq> NULL" "devs s d = Some D"
  shows "\<exists>s' r. ExampleDeviceProbe (Suc (Suc n)) api tur s d = Some (s', r) \<and> score s' = score s"
proof (cases "has_flag D EXAMPLE_DEVICE_REMOVING \<or> inProbe D")
  case True
  have "unat (openCount D) + 2 < 2 ^ 32" using l d unfolding links_ok_def by blast
  then have o: "openCount D + 1 > 0" by (simp add: word_less_nat_alt unat_word_ariths)
  have "s\<lparr>devs := (devs s)(d \<mapsto> D)\<rparr> = s" using d by (simp add: fun_upd_idem)
  with True d o show ?thesis
    by (auto simp: ExampleDeviceOpen_def ExampleDeviceClose_def on_dev_def)
next
  case False
  let ?D1 = "D\<lparr>openCount := openCount D + 1, inProbe := True\<rparr>"
  define s1 where "s1 = s\<lparr>devs := (devs s)(d \<mapsto> ?D1)\<rparr>"
  have o: "unat (openCount D) + 2 < 2 ^ 32" using l d unfolding links_ok_def by blast
  then have up: "unat (openCount D + 1) = unat (openCount D) + 1" by (simp add: unat_word_ariths)
  have d1: "devs s1 d = Some ?D1" by (simp add: s1_def)
  have "links_ok 1 1 s1"
    unfolding s1_def by (rule links_dev [OF l d(2)]) (use up o in \<open>auto simp: has_flag_def\<close>)
  then obtain s2 agg where s2: "probe_paths (ExampleDeviceProbe (Suc n) api tur) api tur [0..<EXAMPLE_MAX_PATHS_PER_DEVICE] s1 d VMK_OK
      = Some (s2, agg)" "score s2 = score s1"
    using probe_paths_total [OF nested_probe _ _ d1, of "[0..<EXAMPLE_MAX_PATHS_PER_DEVICE]" n api tur api tur VMK_OK]
    by (auto simp: EXAMPLE_MAX_PATHS_PER_DEVICE_def atLeast0LessThan)
  obtain D2 where D2: "devs s2 d = Some D2" "dcore D2 = dcore ?D1" using score_devD [OF s2(2) d1] .
  obtain u where u: "ExampleDeviceUpdateState s2 d = Some u"
    using update_state_total [OF links_score [OF s2(2) \<open>links_ok 1 1 s1\<close>] D2(1)] by blast
  define D3 where "D3 = D2\<lparr>inProbe := False, d_state := (case u of Some st \<Rightarrow> st | None \<Rightarrow> d_state D2)\<rparr>"
  define s3 where "s3 = s2\<lparr>devs := (devs s2)(d \<mapsto> D3)\<rparr>"
  have ou: "openCount D2 = openCount D + 1" using dcoreD [OF D2(2)] by simp
  have c3: "dcore (D3\<lparr>openCount := openCount D3 - 1\<rparr>) = dcore D"
    using D2(2) False by (cases D, cases D2) (simp add: dcore_def D3_def)
  let ?s4 = "s3\<lparr>devs := (devs s3)(d \<mapsto> D3\<lparr>openCount := openCount D3 - 1\<rparr>)\<rparr>"
  have "score ?s4 = (score s)\<lparr>devs := (devs (score s))(d \<mapsto> dcore D)\<rparr>"
    unfolding score_dev c3 s3_def s2(2) s1_def by simp
  also have "\<dots> = score s" using d by (simp add: score_def fun_upd_def comp_def fun_eq_iff)
  finally have s4: "score ?s4 = score s" .
  have ip: "\<exists>w. (case u of Some st \<Rightarrow> on_dev (s2\<lparr>devs := (devs s2)(d \<mapsto> D2\<lparr>inProbe := False\<rparr>)\<rparr>) d (\<lambda>D. D\<lparr>d_state := st\<rparr>)
      | None \<Rightarrow> Some (s2\<lparr>devs := (devs s2)(d \<mapsto> D2\<lparr>inProbe := False\<rparr>)\<rparr>)) = Some s3"
    by (cases u) (simp_all add: on_dev_def s3_def D3_def)
  have "openCount D3 > 0" using ou up by (simp add: D3_def word_less_nat_alt)
  then have cl: "ExampleDeviceClose s3 d = Some ?s4"
    by (simp add: ExampleDeviceClose_def on_dev_def s3_def)
  have op: "ExampleDeviceOpen s d = Some (s\<lparr>devs := (devs s)(d \<mapsto> D\<lparr>openCount := openCount D + 1\<rparr>)\<rparr>, VMK_OK)"
    using d False by (simp add: ExampleDeviceOpen_def on_dev_def)
  have pr: "on_dev (s\<lparr>devs := (devs s)(d \<mapsto> D\<lparr>openCount := openCount D + 1\<rparr>)\<rparr>) d (\<lambda>D. D\<lparr>inProbe := True\<rparr>) = Some s1"
    by (simp add: on_dev_def s1_def)
  have en: "on_dev s2 d (\<lambda>D. D\<lparr>inProbe := False\<rparr>) = Some (s2\<lparr>devs := (devs s2)(d \<mapsto> D2\<lparr>inProbe := False\<rparr>)\<rparr>)"
    using D2 by (simp add: on_dev_def)
  have "ExampleDeviceProbe (Suc (Suc n)) api tur s d = Some (?s4, agg)"
    unfolding ExampleDeviceProbe.simps(2) [of "Suc n"] op
    using False s2(1) u ip cl pr en by simp
  with s4 show ?thesis by blast
qed

text \<open>A path can be turned on and off.\<close>

lemma set_state_score:
  assumes l: "links_ok 2 1 s" and P: "pths s p = Some P" "p_dev P \<noteq> NULL" "devs s (p_dev P) = Some D" and new: "new = PATH_ON \<or> new = PATH_OFF"
  shows "\<exists>s' r. ExamplePathSetState (Suc (Suc n)) api tur s p new = Some (s', r) \<and> score s' = score s"
proof -
  have probe: "\<exists>s' r. ExampleProbePath (ExampleDeviceProbe (Suc (Suc n)) api tur) api tur s1 p = Some (s', r) \<and> score s' = score s"
    if s1: "score s1 = score s" for s1
  proof -
    obtain P1 where P1: "pths s1 p = Some P1" "pcore P1 = pcore P" using score_pathD [OF s1 P(1)] .
    have pd: "p_dev P1 = p_dev P" using pcoreD [OF P1(2)] by simp
    obtain D1 where D1: "devs s1 (p_dev P) = Some D1" using score_devD [OF s1 P(3)] by blast
    have l1: "links_ok 2 1 s1" by (rule links_score [OF s1 l])
    have "\<exists>s' r. ExampleDeviceProbe (Suc (Suc n)) api tur s2 (p_dev P1) = Some (s', r) \<and> score s' = score s1" if s2: "score s2 = score s1" for s2
    proof -
      obtain D2 where D2: "devs s2 (p_dev P) = Some D2" using score_devD [OF s2 D1] by blast
      from probe_score [OF links_score [OF s2 l1] P(2) D2, of n api tur] s2 pd show ?thesis by simp
    qed
    moreover have "links_ok 1 0 s1" using links_mono [OF l1] by simp
    ultimately have "\<exists>s' r. ExampleProbePath (ExampleDeviceProbe (Suc (Suc n)) api tur) api tur s1 p = Some (s', r) \<and> score s' = score s1"
      by (rule probe_path_total [OF _ _ P1(1)]) (use D1 pd in simp_all)
    with s1 show ?thesis by simp
  qed
  have st: "\<exists>s1. set_path_state s p st = Some s1 \<and> score s1 = score s" for st
  proof -
    have "score (s\<lparr>pths := (pths s)(p \<mapsto> P\<lparr>p_state := st\<rparr>)\<rparr>) = score s"
      by (rule score_path_same [OF P(1)]) (simp add: pcore_def)
    with P(1) show ?thesis by (simp add: set_path_state_def on_path_def)
  qed
  obtain s1 where s1: "set_path_state s p PATH_DEAD = Some s1" "score s1 = score s" using st by blast
  obtain s2 where s2: "set_path_state s p PATH_OFF = Some s2" "score s2 = score s" using st by blast
  have "ExampleHasMoreWorkingPaths s p False \<noteq> None" using P by (auto simp: ExampleHasMoreWorkingPaths_def)
  then obtain w v where w: "ExampleHasMoreWorkingPaths s p False = Some (w, v)" by (cases "ExampleHasMoreWorkingPaths s p False") auto
  show ?thesis
    using new P(1) s1 s2 w probe [OF refl] probe [OF s1(2)] probe [OF s2(2)]
    by (auto simp: ExamplePathSetState_def split: if_splits)
qed

text \<open>
  C37 (device_probe_returns) \<^verbatim>\<open>ExampleDeviceProbe\<close> returns: a probe can ask for another probe of its
  device, which finds \<open>inProbe\<close> set, so the calls nest at most twice, whatever the SCSI layer answers.
  A probe changes nothing but the states of the paths and the device: it gives back the references to
  the paths, closes the device and clears \<open>inProbe\<close>.
\<close>

theorem device_probe_returns:
  assumes l: "links_ok 2 1 s" and d: "d \<noteq> NULL" "devs s d = Some D"
  shows "\<exists>s' r. ExampleDeviceProbe (Suc (Suc n)) api tur s d = Some (s', r) \<and> score s' = score s"
  using assms by (rule probe_score)

definition sample_cmd :: "nat \<Rightarrow> scsi_op \<Rightarrow> scsi_cmd" where
  "sample_cmd i op = \<lparr>c_id = i, c_op = op, c_resv_sensitive = (op = RESERVE_UNIT \<or> op = RELEASE_UNIT),
     c_probe_for_support = False, isReadCdb = (op = READ10), isWriteCdb = (op = WRITE10), c_lba = 8, c_lbc = 2,
     c_status = \<lparr>st_device = DEVICE_GOOD, st_host = HOST_OK, st_plugin = PLUGIN_GOOD\<rparr>, c_sense = NoSense,
     c_por = False, bytesXferred = 0\<rparr>"

definition sample_api :: scsi_api where
  "sample_api = \<lparr>is_successful = (\<lambda>st. st_host st = HOST_OK \<and> st_device st = DEVICE_GOOD \<and> st_plugin st = PLUGIN_GOOD),
     is_check = (\<lambda>st. st_host st = HOST_OK \<and> st_device st = DEVICE_CHECK),
     is_resv_conflict = (\<lambda>st. st_host st = HOST_OK \<and> st_device st = DEVICE_RESV_CONFLICT)\<rparr>"

definition sample_tur :: tur_answer where
  "sample_tur = \<lparr>t_created = True, t_result = VMK_OK, t_cmd = sample_cmd 0 (OP_OTHER 0), t_uid_changed = False\<rparr>"

lemma device_probe_returns_witness:
  "\<exists>s' r. ExampleDeviceProbe 2 sample_api (\<lambda>s p. sample_tur) (sample_plugin PATH_ON) 1 = Some (s', r) \<and>
    score s' = score (sample_plugin PATH_ON)"
proof -
  have "links_ok 2 1 (sample_plugin PATH_ON)"
    by (auto simp: links_ok_def sample_plugin_def sample_device_def sample_path_def has_flag_def EXAMPLE_DEVICE_REGISTERED_def)
  moreover have "devs (sample_plugin PATH_ON) 1 = Some sample_device" by (simp add: sample_plugin_def)
  ultimately show ?thesis
    using device_probe_returns [of "sample_plugin PATH_ON" 1 sample_device 0 sample_api "\<lambda>s p. sample_tur"] by (simp add: numeral_2_eq_2)
qed

end
