(* ===== verification/Plugin_Keeps.thy ===== *)
theory Plugin_Keeps
  imports Plugin_Steps Plugin_Probe
begin

text \<open>
  What the operations of the plugin leave alone: all devices stay, and the commands that an operation is
  not about stay as they are. The retry world relies on this for the command that it holds between two
  of its sections.
\<close>

section \<open>What an operation leaves alone\<close>

text \<open>The devices stay the same, and so do the commands that the operation is not about.\<close>

definition keeps :: "nat set \<Rightarrow> plugin \<Rightarrow> plugin \<Rightarrow> bool" where
  "keeps Y s s' \<longleftrightarrow> dom (devs s') = dom (devs s) \<and> (\<forall>x. x \<notin> Y \<longrightarrow> cmds s x \<noteq> None \<longrightarrow> cmds s' x = cmds s x)"

lemma keeps_refl [simp]: "keeps Y s s" by (simp add: keeps_def)

lemma keeps_trans: "keeps Y s s' \<Longrightarrow> keeps Y s' s'' \<Longrightarrow> keeps Y s s''"
  unfolding keeps_def by metis

lemma keeps_mono: "keeps Y s s' \<Longrightarrow> Y \<subseteq> Z \<Longrightarrow> keeps Z s s'"
  unfolding keeps_def by blast

lemma keeps_views [simp]:
  "keeps Y s (s'\<lparr>works := w\<rparr>) = keeps Y s s'" "keeps Y s (s'\<lparr>retryQueue := w\<rparr>) = keeps Y s s'"
  "keeps Y s (s'\<lparr>issued := i\<rparr>) = keeps Y s s'" "keeps Y s (s'\<lparr>scheduled := i\<rparr>) = keeps Y s s'"
  "keeps Y s (s'\<lparr>completed := a\<rparr>) = keeps Y s s'" "keeps Y s (s'\<lparr>accepted := a\<rparr>) = keeps Y s s'"
  "keeps Y s (s'\<lparr>fast_probes := b\<rparr>) = keeps Y s s'" "keeps Y s (s'\<lparr>pths := m\<rparr>) = keeps Y s s'"
  "keeps Y (s\<lparr>works := w\<rparr>) s' = keeps Y s s'" "keeps Y (s\<lparr>retryQueue := w\<rparr>) s' = keeps Y s s'"
  "keeps Y (s\<lparr>issued := i\<rparr>) s' = keeps Y s s'" "keeps Y (s\<lparr>scheduled := i\<rparr>) s' = keeps Y s s'"
  "keeps Y (s\<lparr>completed := a\<rparr>) s' = keeps Y s s'" "keeps Y (s\<lparr>accepted := a\<rparr>) s' = keeps Y s s'"
  "keeps Y (s\<lparr>fast_probes := b\<rparr>) s' = keeps Y s s'" "keeps Y (s\<lparr>pths := m\<rparr>) s' = keeps Y s s'"
  by (simp_all add: keeps_def)

text \<open>
  \<open>lv R s r\<close>: if the operation succeeds, its result \<open>r\<close> is a state that \<open>R\<close> relates to \<open>s\<close>. When \<open>R\<close> is
  reflexive and transitive, what the parts of an operation do not change is not changed by the whole.
\<close>

definition lv :: "(plugin \<Rightarrow> plugin \<Rightarrow> bool) \<Rightarrow> plugin \<Rightarrow> plugin option \<Rightarrow> bool" where
  "lv R s r \<longleftrightarrow> (\<forall>s'. r = Some s' \<longrightarrow> R s s')"

definition lv2 :: "(plugin \<Rightarrow> plugin \<Rightarrow> bool) \<Rightarrow> plugin \<Rightarrow> (plugin \<times> 'a) option \<Rightarrow> bool" where
  "lv2 R s r \<longleftrightarrow> (\<forall>s' a. r = Some (s', a) \<longrightarrow> R s s')"

locale frame =
  fixes R :: "plugin \<Rightarrow> plugin \<Rightarrow> bool"
  assumes unchanged: "R s s" and chain: "R s t \<Longrightarrow> R t u \<Longrightarrow> R s u"
begin

lemma bind:
  "lv R s r \<Longrightarrow> (\<And>s'. lv R s' (f s')) \<Longrightarrow> lv R s (r \<bind> f)"
  "lv R s r \<Longrightarrow> (\<And>s'. lv2 R s' (g s')) \<Longrightarrow> lv2 R s (r \<bind> g)"
  "lv2 R s q \<Longrightarrow> (\<And>s' a. lv R s' (h (s', a))) \<Longrightarrow> lv R s (q \<bind> h)"
  "lv2 R s q \<Longrightarrow> (\<And>s' a. lv2 R s' (k (s', a))) \<Longrightarrow> lv2 R s (q \<bind> k)"
  unfolding lv_def lv2_def by (fastforce simp: bind_eq_Some_conv intro: chain)+

lemma read: "(\<And>v. lv R s (f v)) \<Longrightarrow> lv R s (r \<bind> f)" "(\<And>v. lv2 R s (g v)) \<Longrightarrow> lv2 R s (r \<bind> g)"
  unfolding lv_def lv2_def by (auto simp: bind_eq_Some_conv)

lemma base: "lv R s (Some s)" "lv R s None" "lv2 R s (Some (s, a))" "lv2 R s None"
  by (simp_all add: lv_def lv2_def unchanged)

lemma branch: "lv R s a \<Longrightarrow> lv R s b \<Longrightarrow> lv R s (if c then a else b)" "lv2 R s a' \<Longrightarrow> lv2 R s b' \<Longrightarrow> lv2 R s (if c then a' else b')"
  by simp_all

lemma later: "lv R s' r \<Longrightarrow> R s s' \<Longrightarrow> lv R s r" "lv2 R s' q \<Longrightarrow> R s s' \<Longrightarrow> lv2 R s q"
  unfolding lv_def lv2_def by (blast intro: chain)+

lemma result: "R s s' \<Longrightarrow> lv R s (Some s')" "R s s' \<Longrightarrow> lv2 R s (Some (s', a))"
  unfolding lv_def lv2_def by simp_all

end

abbreviation leaves :: "nat set \<Rightarrow> plugin \<Rightarrow> plugin option \<Rightarrow> bool" where "leaves Y \<equiv> lv (keeps Y)"

abbreviation leaves2 :: "nat set \<Rightarrow> plugin \<Rightarrow> (plugin \<times> 'a) option \<Rightarrow> bool" where "leaves2 Y \<equiv> lv2 (keeps Y)"

interpretation keep: frame "keeps Y" for Y
  by unfold_locales (auto intro: keeps_trans)

lemmas leaves_bind = keep.bind(1)
lemmas leaves2_bind = keep.bind(2)
lemmas leaves_binds = keep.bind
lemmas leaves_read = keep.read
lemmas leaves_if = keep.branch
lemmas leaves_base = keep.base
lemmas leaves_cong = keep.later
lemmas leaves_const = keep.result

declare leaves_base [simp]

lemma leaves_on_dev: "leaves Y s (on_dev s d f)"
  by (auto simp: lv_def on_dev_def keeps_def bind_eq_Some_conv store_def split: if_splits option.splits)

lemma leaves_on_path: "leaves Y s (on_path s d f)"
  by (auto simp: lv_def on_path_def bind_eq_Some_conv)

lemma leaves_on_cmd: "x \<in> Y \<Longrightarrow> leaves Y s (on_cmd s x f)"
  by (auto simp: lv_def on_cmd_def keeps_def bind_eq_Some_conv store_def split: if_splits option.splits)

lemmas leaves_atoms = leaves_on_dev leaves_on_path leaves_on_cmd leaves_base

lemma leaves_Rel: "leaves Y s (ExampleUpdateDevOnRel s d b)"
  unfolding ExampleUpdateDevOnRel_def by (rule leaves_binds leaves_if leaves_atoms | rule leaves_read)+

lemma leaves_Res: "leaves Y s (ExampleUpdateDevOnRes s d p)"
  unfolding ExampleUpdateDevOnRes_def by (rule leaves_binds leaves_if leaves_atoms | rule leaves_read)+

lemma leaves_counts:
  "leaves Y s (ExamplePathIncRefCount s p)" "leaves Y s (ExamplePathDecRefCount s p)"
  "leaves Y s (ExampleDeviceIncBusyCount s d)" "leaves Y s (ExampleDeviceDecBusyCount s d)"
  "leaves Y s (ExampleDevice_Block s d)" "leaves Y s (set_path_state s p st)"
  unfolding ExamplePathIncRefCount_def ExamplePathDecRefCount_def ExampleDeviceIncBusyCount_def
    ExampleDeviceDecBusyCount_def ExampleDevice_Block_def set_path_state_def
  by (rule leaves_binds leaves_if leaves_atoms | rule leaves_read)+

lemma leaves_Sched: "leaves Y s (ExampleDeviceSchedStart s d)"
  unfolding ExampleDeviceSchedStart_def by (rule leaves_binds leaves_if leaves_atoms leaves_counts | rule leaves_read)+

lemma leaves_Unblock: "leaves Y s (ExampleDevice_Unblock s d)"
  unfolding ExampleDevice_Unblock_def by (rule leaves_binds leaves_if leaves_atoms leaves_Sched | rule leaves_read)+

lemma leaves_paths: "leaves Y s (hold_path s p)" "leaves Y s (deref_path s p)"
  unfolding hold_path_def deref_path_def by (rule leaves_binds leaves_if leaves_atoms leaves_counts | rule leaves_read)+

lemma leaves_resv: "leaves Y s (resv_done s d p op)" "leaves Y s (note_reserve s d p cmd)"
  unfolding resv_done_def note_reserve_def by (rule leaves_binds leaves_if leaves_atoms leaves_Res leaves_Rel | rule leaves_read)+

lemma leaves_Free: "x \<in> Y \<Longrightarrow> leaves Y s (ExampleFreeExCommand s x)"
  unfolding ExampleFreeExCommand_def
  by (rule leaves_binds leaves_if leaves_atoms | rule leaves_read | rule leaves_const | simp add: keeps_def)+

lemma leaves_Start:
  assumes f: "fresh_heap al"
  shows "leaves Y s (ExampleDeviceStartCommand al s d)"
proof -
  have "fresh_heap al \<longrightarrow> keeps Y s s'" if "ExampleDeviceStartCommand al s d = Some s'" for s'
    using that
  proof (rule ExampleDeviceStartCommand.raw_induct [where P = "\<lambda>al s d s'. fresh_heap al \<longrightarrow> keeps Y s s'", rotated], intro impI)
    fix start al s d s'
    assume IH: "\<And>al s d s'. start al s d = Some s' \<Longrightarrow> fresh_heap al \<longrightarrow> keeps Y s s'" and f: "fresh_heap al"
      and e: "devs s d \<bind> (\<lambda>D. if ExampleDevice_IsBlocked D then Some s
         else if al s = NULL then ExampleDeviceSchedStart s d
         else case psa_queue D of [] \<Rightarrow> Some s
           | cmd # rest \<Rightarrow> let x = al s in on_dev s d (\<lambda>D. D\<lparr>psa_queue := rest\<rparr>) \<bind>
             (\<lambda>s. c_assert (\<not> has_flag D EXAMPLE_DEVICE_REMOVING) \<bind> (\<lambda>_.
               start al (s\<lparr>cmds := (cmds s)(x \<mapsto> \<lparr>x_dev = d, x_path = NULL, x_direct = False, x_cmd = cmd\<rparr>),
                 works := works s @ [x], accepted := accepted s @ [cmd]\<rparr>) d))) = Some s'"
    show "keeps Y s s'"
    proof (cases "\<exists>D. devs s d = Some D \<and> \<not> ExampleDevice_IsBlocked D \<and> al s \<noteq> NULL \<and> psa_queue D \<noteq> []")
      case True
      then obtain D c r where D: "devs s d = Some D" "psa_queue D = c # r" "al s \<noteq> NULL" "\<not> ExampleDevice_IsBlocked D"
        by (auto simp: neq_Nil_conv)
      have "cmds s (al s) = None" using f D(3) by (simp add: fresh_heap_def)
      then have k: "keeps Y s (s\<lparr>devs := (devs s)(d \<mapsto> D\<lparr>psa_queue := r\<rparr>),
           cmds := (cmds s)(al s \<mapsto> \<lparr>x_dev = d, x_path = NULL, x_direct = False, x_cmd = c\<rparr>),
           works := works s @ [al s], accepted := accepted s @ [c]\<rparr>)" (is "keeps Y s ?s")
        using D(1) by (auto simp: keeps_def)
      from e D have "start al ?s d = Some s'" by (simp add: on_dev_def Let_def) (simp add: bind_eq_Some_conv)
      from IH [OF this] f have "keeps Y ?s s'" by blast
      with k show ?thesis by (rule keeps_trans)
    next
      case False
      have "leaves Y s (Some s')"
        using e False leaves_Sched [of Y s d] 
        by (auto simp: bind_eq_Some_conv lv_def split: if_splits list.splits)
      then show ?thesis by (simp add: lv_def)
    qed
  qed
  then show ?thesis using f by (simp add: lv_def)
qed

lemmas leaves_ops = leaves_Res leaves_Rel leaves_counts leaves_Sched leaves_Unblock leaves_paths leaves_resv

lemma leaves_Determine: "x \<in> Y \<Longrightarrow> leaves2 Y s (Example_PathDetermineFailure api s x)"
  unfolding Example_PathDetermineFailure_def Let_def
  by (rule leaves_binds leaves_if leaves_atoms leaves_ops | rule leaves_read | assumption)+

lemma leaves_CompleteDevice: "fresh_heap al \<Longrightarrow> x \<in> Y \<Longrightarrow> leaves Y s (ExampleCompleteDeviceCommand api al s x)"
  unfolding ExampleCompleteDeviceCommand_def Let_def
  by (rule leaves_binds leaves_if leaves_atoms leaves_ops leaves_Free | rule leaves_read | assumption
    | rule leaves_cong(1) [OF leaves_Start] | simp only: keeps_views keeps_refl)+

lemma leaves_ToRetry: "leaves Y s (ExampleQueueCmdToRetry s x)"
  unfolding ExampleQueueCmdToRetry_def
  by (rule leaves_binds leaves_if leaves_atoms leaves_ops | rule leaves_read | rule leaves_const
    | simp only: keeps_views keeps_refl)+

lemma leaves_CompletePath: "fresh_heap al \<Longrightarrow> x \<in> Y \<Longrightarrow> leaves Y s (Example_CompletePathCommand api al s x)"
  unfolding Example_CompletePathCommand_def Let_def
  by (rule leaves_if leaves_binds leaves_atoms leaves_ops leaves_Determine leaves_CompleteDevice leaves_ToRetry
    | rule leaves_read | assumption | simp only: prod.case | rule leaves_cong(1) [OF leaves_CompleteDevice] 
    | simp only: keeps_views keeps_refl if_split simp_thms)+

lemma leaves_CompleteDirect: "x \<in> Y \<Longrightarrow> leaves Y s (ExampleCompletePathCommandDirect api s x)"
  unfolding ExampleCompletePathCommandDirect_def Let_def
  by (rule leaves_if leaves_binds leaves_atoms leaves_ops leaves_Free
    | rule leaves_read | assumption | rule leaves_const | simp only: keeps_views keeps_refl)+

lemma leaves_hand_over: "x \<in> Y \<Longrightarrow> leaves Y s (hand_over s x status)"
  unfolding hand_over_def ExampleIssueFail_def
  by (rule leaves_if leaves_binds leaves_atoms | rule leaves_read | assumption | rule leaves_const
    | simp only: keeps_views keeps_refl)+

lemma leaves_Issue: "fresh_heap al \<Longrightarrow> x \<in> Y \<Longrightarrow> leaves Y s (issue_cmd api al s x status)"
  unfolding issue_cmd_def
  by (rule leaves_cong(1) [of _ "s\<lparr>works := removeAll x (works s)\<rparr>"], unfold ExampleIssueCommand_def Let_def)
    (rule leaves_if leaves_binds leaves_atoms leaves_ops leaves_CompleteDevice leaves_hand_over
    | rule leaves_read | assumption | simp only: keeps_views keeps_refl)+

lemma leaves_Timer: "fresh_heap al \<Longrightarrow> leaves Y s (ExampleDeviceStartFromTimer al s d)"
  unfolding ExampleDeviceStartFromTimer_def
  by (rule leaves_binds leaves_atoms leaves_ops leaves_Start | assumption)+

lemma leaves_IssueDirect:
  assumes f: "fresh_heap al"
  shows "leaves2 {} s (ExamplePathIssueCommandDirect al s p cmd status)"
proof (cases "al s = NULL")
  case True
  then show ?thesis unfolding ExamplePathIssueCommandDirect_def Let_def
    by (auto simp: lv2_def bind_eq_Some_conv)
next
  case False
  then have c: "cmds s (al s) = None" using f by (simp add: fresh_heap_def)
  have "keeps {al s} s s'" if "ExamplePathIssueCommandDirect al s p cmd status = Some (s', r)" for s' r
  proof -
    have "leaves2 {al s} s (ExamplePathIssueCommandDirect al s p cmd status)"
      unfolding ExamplePathIssueCommandDirect_def Let_def
      by (rule leaves_if leaves_binds leaves_atoms leaves_paths leaves_hand_over | rule leaves_read
        | rule leaves_cong(1) [OF leaves_paths(1)] | simp add: keeps_def)+
    with that show ?thesis by (simp add: lv2_def)
  qed
  with c show ?thesis unfolding lv2_def keeps_def by (metis empty_iff singletonD)
qed

lemma leaves_tm_collect: "leaves2 Y s (tm_collect query xs s d q0)"
proof (induct xs arbitrary: s q0)
  case (Cons x xs)
  have "leaves Y s (ExampleDevice_Unblock (s\<lparr>retryQueue := removeAll x (retryQueue s)\<rparr>) d)"
    by (rule leaves_cong(1) [OF leaves_Unblock]) simp
  then show ?case unfolding tm_collect.simps
    by (rule_tac leaves_read(2)) (rule leaves_if leaves_binds Cons.hyps | assumption)+
qed simp

lemma leaves_tm_abort: "fresh_heap al \<Longrightarrow> set xs \<subseteq> Y \<Longrightarrow> leaves Y s (tm_abort api al st xs s)"
proof (induct xs arbitrary: s)
  case (Cons x xs)
  then show ?case unfolding tm_abort.simps
    by (intro leaves_bind leaves_on_cmd leaves_CompleteDevice) simp_all
qed simp

lemma leaves_tm_paths: "leaves2 Y s (tm_paths reset answer is s d agg)"
proof (induct "is" arbitrary: s agg)
  case (Cons i "is")
  show ?case unfolding tm_paths.simps Let_def
    by (rule leaves_if leaves_binds leaves_atoms leaves_ops Cons.hyps | rule leaves_read)+
qed simp

lemma tm_collect_subset: "tm_collect query xs s d q0 = Some (s', q1) \<Longrightarrow> set q1 \<subseteq> set xs \<union> set q0"
proof (induct xs arbitrary: s q0)
  case (Cons x xs)
  then show ?case by (fastforce simp: bind_eq_Some_conv split: if_splits)
qed simp

lemma leaves_TaskManagement:
  assumes f: "fresh_heap al"
  shows "leaves2 (set (retryQueue s)) s (ExampleDeviceTaskManagement api al query st reset answer s d)"
proof -
  let ?Y = "set (retryQueue s)"
  have "keeps ?Y s s'" if e: "ExampleDeviceTaskManagement api al query st reset answer s d = Some (s', r)" for s' r
  proof -
    from e obtain s1 q1 where 1: "tm_collect query (retryQueue s) s d [] = Some (s1, q1)"
      and 2: "(tm_abort api al st q1 s1 \<bind> (\<lambda>s. devs s d \<bind> (\<lambda>D. c_assert (openCount D > 0) \<bind> (\<lambda>_.
        tm_paths reset answer [0..<EXAMPLE_MAX_PATHS_PER_DEVICE] s d VMK_OK)))) = Some (s', r)" 
      unfolding ExampleDeviceTaskManagement_def by (auto simp: bind_eq_Some_conv)
    have "set q1 \<subseteq> ?Y" using tm_collect_subset [OF 1] by simp
    then have "leaves2 ?Y s1 (tm_abort api al st q1 s1 \<bind> (\<lambda>s. devs s d \<bind> (\<lambda>D. c_assert (openCount D > 0) \<bind> (\<lambda>_.
        tm_paths reset answer [0..<EXAMPLE_MAX_PATHS_PER_DEVICE] s d VMK_OK))))"
      by (intro leaves2_bind leaves_tm_abort leaves_read(2) leaves_tm_paths f)
    with 2 have "keeps ?Y s1 s'" by (simp add: lv2_def)
    moreover have "keeps ?Y s s1" using leaves_tm_collect [of ?Y s query "retryQueue s" d "[]"] 1 by (simp add: lv2_def)
    ultimately show ?thesis by (rule keeps_trans [rotated])
  qed
  then show ?thesis by (simp add: lv2_def)
qed

end
