(* ===== verification/Plugin_System.thy ===== *)
theory Plugin_System
  imports Plugin_Keeps
begin

section \<open>The retry world\<close>

text \<open>
  Where the world is in its loop, with its variables: the command \<open>x\<close> and the device \<open>d\<close>, and a path on
  which it holds a reference. The loop goes from \<open>RIdle\<close>, where it takes the next command off the
  queue, through \<open>RGot\<close> (hold the active path), \<open>RCheck\<close> (ask for its state), and, if that is bad,
  \<open>RFail\<close> (fail over), \<open>RResv\<close>, \<open>RAbort\<close>, \<open>RReset\<close> (clear a reservation on the old path) and \<open>RDrop\<close>
  (give up the new path) to \<open>RReady\<close>, \<open>RIssue\<close>, \<open>RUnblock\<close> and \<open>RDone\<close>.
\<close>

datatype retry_pc = RIdle | RGot nat nat | RCheck nat nat nat | RFail nat nat | RResv nat nat nat | RAbort nat nat nat
  | RReset nat nat nat | RDrop nat nat nat | RReady nat nat | RIssue nat nat | RUnblock nat | RDone nat

text \<open>One section of \<^verbatim>\<open>Example_RetryWorld\<close>; \<open>status\<close> answers the request that is made in it, if any.\<close>

fun Example_RetryWorld ::
  "(nat list \<Rightarrow> nat list \<times> nat list) \<Rightarrow> VMK_ReturnStatus \<Rightarrow> retry_pc \<Rightarrow> plugin \<Rightarrow> (retry_pc \<times> plugin) option" where
  "Example_RetryWorld split status RIdle s =
     (case ExampleDequeueCommand (retryQueue s) of
        None \<Rightarrow> Some (RIdle, s)
      | Some (x, xs) \<Rightarrow> do { X \<leftarrow> cmds s x; Some (RGot x (x_dev X), s\<lparr>retryQueue := xs\<rparr>) })"
| "Example_RetryWorld split status (RGot x d) s = do {
     D \<leftarrow> devs s d;
     p \<leftarrow> active_path D;
     s \<leftarrow> ExamplePathIncRefCount s p;
     Some (RCheck x d p, s)
   }"
| "Example_RetryWorld split status (RCheck x d p) s = do {
     P \<leftarrow> pths s p;
     s \<leftarrow> ExamplePathDecRefCount s p;
     Some (if p_state P \<noteq> PATH_ON then RFail x d else RReady x d, s)
   }"
| "Example_RetryWorld split status (RFail x d) s = do {
     (s, r) \<leftarrow> ExampleDevice_AttemptFailover s d;
     Some (case r of None \<Rightarrow> RReady x d | Some p \<Rightarrow> RResv x d p, s)
   }"
| "Example_RetryWorld split status (RResv x d p) s = do {
     D \<leftarrow> devs s d;
     Some (if resv_must_clear D p then RAbort x d p else RDrop x d p, s)
   }"
| "Example_RetryWorld split status (RAbort x d p) s = do {
     (s, finished) \<leftarrow> ExampleAbortAllRSIOs split s d;
     Some (if finished then RReset x d p else RAbort x d p, s)
   }"
| "Example_RetryWorld split status (RReset x d p) s = do {
     s \<leftarrow> resv_reset s d status;
     Some (RDrop x d p, s)
   }"
| "Example_RetryWorld split status (RDrop x d p) s = do {
     s \<leftarrow> ExamplePathDecRefCount s p;
     Some (RReady x d, s)
   }"
| "Example_RetryWorld split status (RReady x d) s = do {
     s \<leftarrow> ExampleDeviceIncBusyCount s d;
     Some (RIssue x d, s)
   }"
| "Example_RetryWorld split status (RIssue x d) s = do {
     s \<leftarrow> ExampleRetryCmd s x status;
     Some (RUnblock d, s)
   }"
| "Example_RetryWorld split status (RUnblock d) s = do {
     s \<leftarrow> ExampleDevice_Unblock s d;
     Some (RDone d, s)
   }"
| "Example_RetryWorld split status (RDone d) s = do {
     s \<leftarrow> ExampleDeviceDecBusyCount s d;
     Some (RIdle, s)
   }"

section \<open>The events\<close>

text \<open>
  The answers of the environment that are the same throughout: what the SCSI layer says of a status,
  the heap, and \<^verbatim>\<open>vmk_ListSplitAfter\<close>.
\<close>

record environment =
  e_api :: scsi_api
  e_heap :: "plugin \<Rightarrow> nat"
  e_split :: "nat list \<Rightarrow> nat list \<times> nat list"

record system =
  plg :: plugin
  world :: retry_pc
  reserved :: nat

text \<open>
  What can happen: the layer above puts a command on the queue of a device, has the device start
  commands, opens and closes it, sends a command to a path, manages tasks, probes, turns a path on or
  off; a sending thread takes up work; a command comes back from the layer below or from the cache box
  (with the state \<open>c\<close> in which it is then); the timer of a device runs off; the retry world does its next
  section.
\<close>

datatype event =
  Submit nat scsi_cmd
  | Start nat
  | Open nat
  | Close nat
  | IssueDirect nat scsi_cmd VMK_ReturnStatus
  | TaskMgmt nat "scsi_cmd \<Rightarrow> bool" scsi_status bool "nat \<Rightarrow> VMK_ReturnStatus"
  | Probe nat "plugin \<Rightarrow> nat \<Rightarrow> tur_answer"
  | SetState nat path_state "plugin \<Rightarrow> nat \<Rightarrow> tur_answer"
  | Issue nat VMK_ReturnStatus
  | Complete nat scsi_cmd
  | CacheRead nat u64 u64 u64
  | CacheWrite nat u64 u64
  | Timer nat
  | Retry VMK_ReturnStatus

text \<open>A command comes back: its completion function is called.\<close>

definition complete :: "environment \<Rightarrow> plugin \<Rightarrow> nat \<Rightarrow> scsi_cmd \<Rightarrow> plugin option" where
  "complete E s x c = do {
     X \<leftarrow> cmds s x;
     s \<leftarrow> on_cmd (s\<lparr>issued := issued s - {x}, scheduled := scheduled s - {x}\<rparr>) x (\<lambda>X. X\<lparr>x_cmd := c\<rparr>);
     if x_direct X then ExampleCompletePathCommandDirect (e_api E) s x
     else Example_CompletePathCommand (e_api E) (e_heap E) s x
   }"

definition cmd_of :: "plugin \<Rightarrow> nat \<Rightarrow> scsi_cmd option" where
  "cmd_of s x = map_option x_cmd (cmds s x)"

definition upd :: "system \<Rightarrow> plugin option \<Rightarrow> system option" where
  "upd S r = map_option (\<lambda>s. S\<lparr>plg := s\<rparr>) r"

fun run :: "environment \<Rightarrow> event \<Rightarrow> system \<Rightarrow> system option" where
  "run E (Submit d c) S = map_option (\<lambda>s. S\<lparr>plg := s, reserved := reserved S + of_bool (c_op c = RESERVE_UNIT)\<rparr>)
     (on_dev (plg S) d (\<lambda>D. D\<lparr>psa_queue := psa_queue D @ [c]\<rparr>))"
| "run E (Start d) S = upd S (ExampleDeviceStartCommand (e_heap E) (plg S) d)"
| "run E (Open d) S = upd S (map_option fst (ExampleDeviceOpen (plg S) d))"
| "run E (Close d) S = upd S (ExampleDeviceClose (plg S) d)"
| "run E (IssueDirect p c status) S = upd S (map_option fst (ExamplePathIssueCommandDirect (e_heap E) (plg S) p c status))"
| "run E (TaskMgmt d query st reset answer) S =
     upd S (map_option fst (ExampleDeviceTaskManagement (e_api E) (e_heap E) query st reset answer (plg S) d))"
| "run E (Probe d tur) S = upd S (map_option fst (ExampleDeviceProbe 2 (e_api E) tur (plg S) d))"
| "run E (SetState p st tur) S = upd S (map_option fst (ExamplePathSetState 2 (e_api E) tur (plg S) p st))"
| "run E (Issue x status) S = upd S (issue_cmd (e_api E) (e_heap E) (plg S) x status)"
| "run E (Complete x c) S = upd S (complete E (plg S) x c)"
| "run E (CacheRead x len payloadlen sg) S = do {
     c \<leftarrow> cmd_of (plg S) x;
     c \<leftarrow> resp_read_cmd c len payloadlen sg;
     upd S (complete E (plg S) x c)
   }"
| "run E (CacheWrite x len payloadlen) S = do {
     c \<leftarrow> cmd_of (plg S) x;
     c \<leftarrow> resp_write_cmd c len payloadlen;
     upd S (complete E (plg S) x c)
   }"
| "run E (Timer d) S = upd S (ExampleDeviceStartFromTimer (e_heap E) (plg S) d)"
| "run E (Retry status) S = map_option (\<lambda>(pc, s). S\<lparr>plg := s, world := pc\<rparr>) (Example_RetryWorld (e_split E) status (world S) (plg S))"

text \<open>
  What the environment guarantees. The layer above uses open devices only, and closes a device when its
  commands have come back; fewer than \<open>2 ^ 32\<close> reservations are asked for. A request to manage tasks
  is about commands of its device. A command comes back once, and it is the one that was sent; when it
  could not be sent, it comes back as it was scheduled. The cache box answers with the length asked for.
\<close>

definition usable :: "plugin \<Rightarrow> nat \<Rightarrow> bool" where
  "usable s d \<longleftrightarrow> (case devs s d of Some D \<Rightarrow> 0 < openCount D \<and> \<not> has_flag D EXAMPLE_DEVICE_REMOVING | None \<Rightarrow> False)"

definition same_cmd :: "scsi_cmd \<Rightarrow> scsi_cmd \<Rightarrow> bool" where
  "same_cmd c c' \<longleftrightarrow> c_id c' = c_id c \<and> c_op c' = c_op c \<and> c_resv_sensitive c' = c_resv_sensitive c"

definition may_probe :: "plugin \<Rightarrow> bool" where
  "may_probe s \<longleftrightarrow> (\<forall>D \<in> ran (devs s). unat (openCount D) + 2 < 2 ^ 32 \<and> (has_flag D EXAMPLE_DEVICE_REGISTERED \<longrightarrow> d_device D))"

fun enabled :: "event \<Rightarrow> system \<Rightarrow> bool" where
  "enabled (Submit d c) S \<longleftrightarrow> usable (plg S) d \<and> reserved S + 1 < 2 ^ 32"
| "enabled (Start d) S \<longleftrightarrow> d \<in> dom (devs (plg S))"
| "enabled (Open d) S \<longleftrightarrow> (case devs (plg S) d of Some D \<Rightarrow> unat (openCount D) + 1 < 2 ^ 32 | None \<Rightarrow> d = NULL)"
| "enabled (Close d) S \<longleftrightarrow> (case devs (plg S) d of
     Some D \<Rightarrow> 0 < openCount D \<and> (openCount D = 1 \<longrightarrow> psa_queue D = [] \<and> (\<forall>X \<in> ran (cmds (plg S)). x_dev X \<noteq> d))
   | None \<Rightarrow> False)"
| "enabled (IssueDirect p c status) S \<longleftrightarrow> p \<in> dom (pths (plg S)) \<and> c_op c \<noteq> RESERVE_UNIT \<and> c_op c \<noteq> RELEASE_UNIT"
| "enabled (TaskMgmt d query st reset answer) S \<longleftrightarrow> usable (plg S) d \<and>
     (\<forall>X \<in> ran (cmds (plg S)). query (x_cmd X) \<longrightarrow> x_dev X = d)"
| "enabled (Probe d tur) S \<longleftrightarrow> d \<in> dom (devs (plg S)) \<and> may_probe (plg S)"
| "enabled (SetState p st tur) S \<longleftrightarrow> p \<in> dom (pths (plg S)) \<and> (st = PATH_ON \<or> st = PATH_OFF) \<and> may_probe (plg S)"
| "enabled (Issue x status) S \<longleftrightarrow> x \<in> set (works (plg S))"
| "enabled (Complete x c) S \<longleftrightarrow>
     (x \<in> issued (plg S) \<and> (\<exists>c0. cmd_of (plg S) x = Some c0 \<and> same_cmd c0 c)) \<or>
     (x \<in> scheduled (plg S) \<and> cmd_of (plg S) x = Some c)"
| "enabled (CacheRead x len payloadlen sg) S \<longleftrightarrow> x \<in> issued (plg S) \<and> sg = payloadlen \<and> len = payloadlen"
| "enabled (CacheWrite x len payloadlen) S \<longleftrightarrow> x \<in> issued (plg S) \<and> payloadlen = 0"
| "enabled (Timer d) S \<longleftrightarrow> (case devs (plg S) d of Some D \<Rightarrow> startTimer D | None \<Rightarrow> False)"
| "enabled (Retry status) S \<longleftrightarrow> True"

text \<open>At first the devices are there with their paths, and no command is.\<close>

definition idle_device :: "plugin \<Rightarrow> nat \<Rightarrow> ExampleDevice \<Rightarrow> bool" where
  "idle_device s d D \<longleftrightarrow>
     blocked D = 0 \<and> activeCmdCount D = 0 \<and> busyCount D = 0 \<and> \<not> startTimer D \<and> pendingReserves D = 0 \<and>
     resvSensitiveCmdQueue D = [] \<and> resvSensitiveAbtQueue D = [] \<and> psa_queue D = [] \<and>
     path_ok D \<and> d_paths D ! unat (activePathIndex D) \<noteq> NULL \<and>
     (\<forall>q \<in> set (d_paths D). q \<noteq> NULL \<longrightarrow> (\<exists>P. pths s q = Some P \<and> p_dev P = d))"

definition initial :: "system \<Rightarrow> bool" where
  "initial S \<longleftrightarrow> world S = RIdle \<and> reserved S = 0 \<and>
     (let s = plg S in
       cmds s = Map.empty \<and> retryQueue s = [] \<and> works s = [] \<and> issued s = {} \<and> scheduled s = {} \<and>
       accepted s = [] \<and> completed s = [] \<and> devs s NULL = None \<and>
       (\<forall>d D. devs s d = Some D \<longrightarrow> idle_device s d D) \<and>
       (\<forall>P \<in> ran (pths s). p_refCount P = 0 \<and> p_activeCmdCount P = 0 \<and> p_dev P \<in> dom (devs s)))"

inductive reachable :: "environment \<Rightarrow> system \<Rightarrow> bool" for E where
  start: "initial S \<Longrightarrow> reachable E S"
| step: "reachable E S \<Longrightarrow> enabled e S \<Longrightarrow> run E e S = Some S' \<Longrightarrow> reachable E S'"

definition environment_ok :: "environment \<Rightarrow> bool" where
  "environment_ok E \<longleftrightarrow> fresh_heap (e_heap E) \<and> splits (e_split E)"

section \<open>The invariant of the system\<close>

definition pc_held :: "retry_pc \<Rightarrow> nat set" where
  "pc_held pc = (case pc of RGot x d \<Rightarrow> {x} | RCheck x d p \<Rightarrow> {x} | RFail x d \<Rightarrow> {x} | RResv x d p \<Rightarrow> {x} | RAbort x d p \<Rightarrow> {x}
     | RReset x d p \<Rightarrow> {x} | RDrop x d p \<Rightarrow> {x} | RReady x d \<Rightarrow> {x} | RIssue x d \<Rightarrow> {x} | _ \<Rightarrow> {})"

definition pc_dev :: "retry_pc \<Rightarrow> nat set" where
  "pc_dev pc = (case pc of RIdle \<Rightarrow> {} | RGot x d \<Rightarrow> {d} | RCheck x d p \<Rightarrow> {d} | RFail x d \<Rightarrow> {d} | RResv x d p \<Rightarrow> {d}
     | RAbort x d p \<Rightarrow> {d} | RReset x d p \<Rightarrow> {d} | RDrop x d p \<Rightarrow> {d} | RReady x d \<Rightarrow> {d} | RIssue x d \<Rightarrow> {d} | RUnblock d \<Rightarrow> {d} | RDone d \<Rightarrow> {d})"

definition pc_blk :: "retry_pc \<Rightarrow> nat \<Rightarrow> nat" where
  "pc_blk pc d = (case pc of RDone e \<Rightarrow> 0 | _ \<Rightarrow> of_bool (d \<in> pc_dev pc))"

definition pc_busy :: "retry_pc \<Rightarrow> nat \<Rightarrow> nat" where
  "pc_busy pc d = (case pc of RIssue x e \<Rightarrow> of_bool (d = e) | RUnblock e \<Rightarrow> of_bool (d = e) | RDone e \<Rightarrow> of_bool (d = e) | _ \<Rightarrow> 0)"

definition pc_pin :: "retry_pc \<Rightarrow> nat \<Rightarrow> nat" where
  "pc_pin pc p = (case pc of RCheck x d q \<Rightarrow> of_bool (p = q) | RResv x d q \<Rightarrow> of_bool (p = q) | RAbort x d q \<Rightarrow> of_bool (p = q)
     | RReset x d q \<Rightarrow> of_bool (p = q) | RDrop x d q \<Rightarrow> of_bool (p = q) | _ \<Rightarrow> 0)"

definition pc_ghost :: "nat \<Rightarrow> retry_pc \<Rightarrow> ghost" where
  "pc_ghost n pc = \<lparr>g_held = pc_held pc, g_limbo = {}, g_pin = pc_pin pc, g_act = (\<lambda>p. 0), g_blk = pc_blk pc,
     g_busy = pc_busy pc, g_credit = (\<lambda>d. 0), g_resv = n, g_open = (\<lambda>d. False)\<rparr>"

definition sys_inv :: "system \<Rightarrow> bool" where
  "sys_inv S \<longleftrightarrow> Inv (pc_ghost (reserved S) (world S)) (plg S) \<and>
     (\<forall>x \<in> pc_held (world S). \<forall>d \<in> pc_dev (world S). of_dev (sigs (plg S)) d x) \<and>
     pc_dev (world S) \<subseteq> dom (devs (plg S)) \<and> devs (plg S) NULL = None"


lemma pc_ghost_simps [simp]:
  "g_held (pc_ghost n pc) = pc_held pc" "g_limbo (pc_ghost n pc) = {}" "g_pin (pc_ghost n pc) = pc_pin pc"
  "g_act (pc_ghost n pc) = (\<lambda>p. 0)" "g_blk (pc_ghost n pc) = pc_blk pc" "g_busy (pc_ghost n pc) = pc_busy pc"
  "g_credit (pc_ghost n pc) = (\<lambda>d. 0)" "g_resv (pc_ghost n pc) = n" "g_open (pc_ghost n pc) = (\<lambda>d. False)"
  by (simp_all add: pc_ghost_def)

lemma pc_blk_le: "pc_blk pc d \<le> 1" by (cases pc) (auto simp: pc_blk_def pc_dev_def)

lemma pc_busy_le: "pc_busy pc d \<le> 1" by (cases pc) (auto simp: pc_busy_def)

lemma pc_pin_le: "pc_pin pc p \<le> 1" by (cases pc) (auto simp: pc_pin_def)

lemma pc_pin_le_big: "pc_pin pc p \<le> 2 ^ 19" "pc_pin pc p \<le> 2 ^ 20"
  using pc_pin_le [of pc p] by simp_all

text \<open>The busy count goes up and down.\<close>

lemma Busy_dev:
  assumes i: "Inv G s" and D: "devs s d = Some D" and le: "b \<le> 2"
    and D': "unat (busyCount D') = (if startTimer D' then 1 else 0) + b"
    and eq: "D'\<lparr>busyCount := 0, startTimer := False\<rparr> = D\<lparr>busyCount := 0, startTimer := False\<rparr>"
  shows "Inv (G\<lparr>g_busy := (g_busy G)(d := b)\<rparr>) (s\<lparr>devs := (devs s)(d \<mapsto> D')\<rparr>)"
proof -
  have e: "d_flags D' = d_flags D" "blocked D' = blocked D" "activeCmdCount D' = activeCmdCount D"
    "resvSensitiveCmdQueue D' = resvSensitiveCmdQueue D" "resvSensitiveAbtQueue D' = resvSensitiveAbtQueue D"
    "pendingReserves D' = pendingReserves D" "psa_queue D' = psa_queue D" "openCount D' = openCount D"
    "d_paths D' = d_paths D" "activePathIndex D' = activePathIndex D"
    using eq by (cases D, cases D', simp)+
  have le2: "g_blk G d \<le> 2" using i unfolding Inv_def kinds_def by blast
  have ok: "dev_ok (G\<lparr>g_busy := (g_busy G)(d := b)\<rparr>) (sigs s) (path_dev s) (set (works s)) (set (retryQueue s)) (flying s) d D'"
    using InvD_dev [OF i D] D' unfolding dev_ok_def fits_def path_ok_def has_flag_def e by simp
  show ?thesis
    by (rule Inv_dev_ghost [OF i D _ _ _ _ _ _ _ _ _ ok]) (use le le2 in simp_all)
qed

lemma IncBusy_Inv:
  assumes i: "Inv G s" and D: "devs s d = Some D" and le: "g_busy G d \<le> 1"
  shows "\<exists>s'. ExampleDeviceIncBusyCount s d = Some s' \<and> Inv (G\<lparr>g_busy := (g_busy G)(d := g_busy G d + 1)\<rparr>) s'"
proof -
  have b: "unat (busyCount D) = (if startTimer D then 1 else 0) + g_busy G d"
    using InvD_dev [OF i D] by (simp add: dev_ok_def fits_def)
  let ?D = "D\<lparr>busyCount := busyCount D + 1\<rparr>"
  have "unat (busyCount ?D) = (if startTimer ?D then 1 else 0) + (g_busy G d + 1)"
    using b le by (simp add: unat_word_ariths)
  from Busy_dev [OF i D _ this] le show ?thesis
    using D by (simp add: ExampleDeviceIncBusyCount_def on_dev_def)
qed

lemma DecBusy_Inv:
  assumes i: "Inv (G\<lparr>g_busy := (g_busy G)(d := g_busy G d + 1)\<rparr>) s" and D: "devs s d = Some D"
  shows "\<exists>s'. ExampleDeviceDecBusyCount s d = Some s' \<and> Inv G s'"
proof -
  have b: "unat (busyCount D) = (if startTimer D then 1 else 0) + (g_busy G d + 1)"
    using InvD_dev [OF i D] by (simp add: dev_ok_def fits_def)
  then have nz: "busyCount D \<noteq> 0" by auto
  have le: "g_busy G d \<le> 2" using i unfolding Inv_def kinds_def by (force dest: spec [of _ d])
  let ?D = "D\<lparr>busyCount := busyCount D - 1\<rparr>"
  have "unat (busyCount ?D) = (if startTimer ?D then 1 else 0) + g_busy G d"
    using b nz by (simp add: unat_dec)
  from Busy_dev [OF i D le this] have "Inv G (s\<lparr>devs := (devs s)(d \<mapsto> ?D)\<rparr>)" by simp
  with D nz show ?thesis by (simp add: ExampleDeviceDecBusyCount_def on_dev_def word_neq_0_conv)
qed

lemma Timer_Inv:
  assumes i: "Inv G s" and f: "fresh_heap al" and D: "devs s d = Some D" "startTimer D" and le: "g_busy G d \<le> 1"
  shows "\<exists>s'. ExampleDeviceStartFromTimer al s d = Some s' \<and> Inv G s'"
proof -
  let ?G = "G\<lparr>g_busy := (g_busy G)(d := g_busy G d + 1)\<rparr>" and ?D = "D\<lparr>startTimer := False\<rparr>"
  have "unat (busyCount ?D) = (if startTimer ?D then 1 else 0) + (g_busy G d + 1)"
    using InvD_dev [OF i D(1)] D(2) by (simp add: dev_ok_def fits_def)
  from Busy_dev [OF i D(1) _ this] le have i1: "Inv ?G (s\<lparr>devs := (devs s)(d \<mapsto> ?D)\<rparr>)" by simp
  obtain s2 where s2: "ExampleDeviceStartCommand al (s\<lparr>devs := (devs s)(d \<mapsto> ?D)\<rparr>) d = Some s2" "Inv ?G s2"
    using Start_Inv [OF f i1, of d ?D] by auto
  have "leaves {} (s\<lparr>devs := (devs s)(d \<mapsto> ?D)\<rparr>) (Some s2)" using leaves_Start [OF f] s2(1) by metis
  then have "dom (devs s2) = insert d (dom (devs s))" by (simp add: lv_def keeps_def)
  then obtain D2 where "devs s2 d = Some D2" by blast
  from DecBusy_Inv [OF s2(2) this] s2(1) D(1) show ?thesis
    by (simp add: ExampleDeviceStartFromTimer_def on_dev_def)
qed

text \<open>Probing does not matter to the invariant.\<close>

lemma dcore_dkey: "dcore D' = dcore D \<Longrightarrow> dkey D' = dkey D"
proof -
  have "dkey (dcore E) = dkey E" for E by (simp add: dkey_def dcore_def)
  then show "dcore D' = dcore D \<Longrightarrow> dkey D' = dkey D" by metis
qed

lemma score_same:
  assumes "score s' = score s"
  shows "cmds s' = cmds s" "retryQueue s' = retryQueue s" "works s' = works s" "issued s' = issued s" "scheduled s' = scheduled s"
    "accepted s' = accepted s" "completed s' = completed s"
  using assms by (cases s, cases s', simp add: score_def)+


lemma score_keeps:
  assumes "score s' = score s"
  shows "keeps {} s s'"
proof -
  have "devs s' d = None \<longleftrightarrow> devs s d = None" for d
    using arg_cong [OF assms, of "\<lambda>s. devs s d"] by (cases "devs s d"; cases "devs s' d") (simp_all add: devs_score)
  then have "dom (devs s') = dom (devs s)" by (simp add: dom_def)
  with score_same(1) [OF assms] show ?thesis by (simp add: keeps_def)
qed

lemma Inv_score:
  assumes i: "Inv G s" and e: "score s' = score s"
  shows "Inv G s'"
proof -
  note sm = score_same [OF e]
  have v: "sigs s' = sigs s" "path_of s' = path_of s" "flying s' = flying s"
    by (simp_all add: sigs_def [abs_def] path_of_def [abs_def] flying_def sm)
  have pe: "map_option pcore (pths s' p) = map_option pcore (pths s p)" for p
    using arg_cong [OF e, of "\<lambda>s. pths s p"] by (simp add: pths_score)
  have pc: "p_dev P' = p_dev P \<and> p_refCount P' = p_refCount P \<and> p_activeCmdCount P' = p_activeCmdCount P"
    if "pcore P' = pcore P" for P P' using that by (cases P, cases P') (simp add: pcore_def)
  have pd: "path_dev s' = path_dev s"
  proof
    fix p show "path_dev s' p = path_dev s p"
      using pe [of p] pc [of "the (pths s' p)" "the (pths s p)"] by (cases "pths s p"; cases "pths s' p") (simp_all add: path_dev_def)
  qed
  have dp: "dom (pths s') = dom (pths s)"
  proof -
    have "pths s' p = None \<longleftrightarrow> pths s p = None" for p using pe [of p] by (cases "pths s p"; cases "pths s' p") simp_all
    then show ?thesis by (simp add: dom_def)
  qed
  have dd: "dom (devs s') = dom (devs s)" using score_keeps [OF e] by (simp add: keeps_def)
  have "places G s'" using i unfolding Inv_def places_def sm v by blast
  moreover have "heap_ok s'" using i unfolding Inv_def heap_ok_def sm by blast
  moreover have "kinds G s'" using i unfolding Inv_def kinds_def sm v pd dp dd by blast
  moreover have "devs_ok G s'"
    unfolding devs_ok_def sm v pd
  proof (intro allI impI)
    fix d D' assume D': "devs s' d = Some D'"
    obtain D where D: "devs s d = Some D" "dcore D = dcore D'" using score_devD [OF e [symmetric] D'] .
    show "dev_ok G (sigs s) (path_dev s) (set (works s)) (set (retryQueue s)) (flying s) d D'"
      using InvD_dev [OF i D(1)] dev_ok_dkey [OF dcore_dkey [OF D(2)]] by simp
  qed
  moreover have "paths_ok G s'"
    unfolding paths_ok_def v
  proof (intro allI impI)
    fix p P' assume P': "pths s' p = Some P'"
    obtain P where P: "pths s p = Some P" "pcore P = pcore P'" using score_pathD [OF e [symmetric] P'] .
    show "path_counts G (path_of s) (flying s) p P'"
      using InvD_path [OF i P(1)] pc [OF P(2)] by (simp add: path_counts_def)
  qed
  moreover have "conserved s'" using i unfolding Inv_def conserved_def sm v by blast
  moreover have "g_resv G < 2 ^ 32" using i unfolding Inv_def by blast
  ultimately show ?thesis unfolding Inv_def by blast
qed

text \<open>What probing needs.\<close>

lemma may_probe_links:
  assumes i: "Inv G s" and m: "may_probe s" and g: "\<forall>p. g_pin G p \<le> 2 ^ 20"
  shows "links_ok 2 1 s"
proof -
  have "length (d_paths D) = 16 \<and> unat (openCount D) + 2 < 2 ^ 32 \<and>
        (has_flag D EXAMPLE_DEVICE_REGISTERED \<longrightarrow> d_device D) \<and>
        (\<forall>q \<in> set (d_paths D). q \<noteq> NULL \<longrightarrow> (\<exists>P. pths s q = Some P \<and> p_dev P = d \<and> unat (p_refCount P) + 1 < 2 ^ 32))"
    if D: "devs s d = Some D" for d D
  proof -
    have "unat (openCount D) + 2 < 2 ^ 32 \<and> (has_flag D EXAMPLE_DEVICE_REGISTERED \<longrightarrow> d_device D)"
      using m ranI [of "devs s" d D] D unfolding may_probe_def by blast
    moreover have "length (d_paths D) = 16" using InvD_dev [OF i D] by (simp add: dev_ok_def fits_def path_ok_def)
    moreover have "\<exists>P. pths s q = Some P \<and> p_dev P = d \<and> unat (p_refCount P) + 1 < 2 ^ 32" if q: "q \<in> set (d_paths D)" "q \<noteq> NULL" for q
    proof -
      have "path_dev s q = Some d" using InvD_dev [OF i D] q unfolding dev_ok_def fits_def by blast
      then obtain P where P: "pths s q = Some P" "p_dev P = d" by (auto simp: path_dev_def)
      have "num (flying s) (\<lambda>x. path_of s x = q) \<le> 2 ^ 31"
        by (rule Inv_num_le [OF i]) (use i in \<open>auto simp: Inv_def places_def\<close>)
      moreover have "unat (p_refCount P) = num (flying s) (\<lambda>x. path_of s x = q) + g_pin G q"
        using InvD_path [OF i P(1)] by (simp add: path_counts_def)
      ultimately have "unat (p_refCount P) + 1 < 2 ^ 32" using g [rule_format, of q] by simp
      with P show ?thesis by blast
    qed
    ultimately show ?thesis by blast
  qed
  then show ?thesis unfolding links_ok_def by blast
qed

end
