(* ===== verification/Plugin_Reach.thy ===== *)
theory Plugin_Reach
  imports Plugin_System
begin

lemma initial_sys_inv:
  assumes "initial S"
  shows "sys_inv S"
proof -
  let ?s = "plg S"
  have w: "world S = RIdle" "reserved S = 0" and e: "cmds ?s = Map.empty" "retryQueue ?s = []" "works ?s = []" "issued ?s = {}" "scheduled ?s = {}"
    "accepted ?s = []" "completed ?s = []" "devs ?s NULL = None"
    and D: "\<And>d D. devs ?s d = Some D \<Longrightarrow> idle_device ?s d D"
    and P: "\<And>p P. pths ?s p = Some P \<Longrightarrow> p_refCount P = 0 \<and> p_activeCmdCount P = 0 \<and> p_dev P \<in> dom (devs ?s)"
    using assms by (auto simp: initial_def Let_def ran_def)
  have k: "\<not> of_dev (sigs ?s) d x" for d x by (simp add: of_dev_def sigs_def e)
  then have k': "of_dev (sigs ?s) d = (\<lambda>x. False)" for d by blast
  have f: "flying ?s = {}" by (simp add: flying_def e)
  have pc: "pc_held RIdle = {}" "pc_dev RIdle = {}" "pc_blk RIdle = (\<lambda>d. 0)" "pc_busy RIdle = (\<lambda>d. 0)" "pc_pin RIdle = (\<lambda>d. 0)"
    by (simp_all add: pc_held_def pc_dev_def pc_blk_def [abs_def] pc_busy_def [abs_def] pc_pin_def [abs_def])
  have "places (pc_ghost 0 RIdle) ?s" by (simp add: places_def e f pc)
  moreover have "heap_ok ?s" by (simp add: heap_ok_def e)
  moreover have "kinds (pc_ghost 0 RIdle) ?s"
    using P by (auto simp: kinds_def e f pc k path_dev_def)
  moreover have "devs_ok (pc_ghost 0 RIdle) ?s"
    unfolding devs_ok_def
  proof (intro allI impI)
    fix d E assume E: "devs ?s d = Some E"
    have pd: "\<forall>q \<in> set (d_paths E). q \<noteq> NULL \<longrightarrow> path_dev ?s q = Some d"
    proof (intro ballI impI)
      fix q assume "q \<in> set (d_paths E)" "q \<noteq> NULL"
      with D [OF E] obtain P where "pths ?s q = Some P" "p_dev P = d" unfolding idle_device_def by blast
      then show "path_dev ?s q = Some d" by (simp add: path_dev_def)
    qed
    with D [OF E] show "dev_ok (pc_ghost 0 RIdle) (sigs ?s) (path_dev ?s) (set (works ?s)) (set (retryQueue ?s)) (flying ?s) d E"
      unfolding dev_ok_def fits_def idle_device_def by (simp add: e f pc k')
  qed
  moreover have "paths_ok (pc_ghost 0 RIdle) ?s"
    unfolding paths_ok_def path_counts_def f using P by (simp add: pc)
  moreover have "conserved ?s" by (simp add: conserved_def e)
  ultimately have "Inv (pc_ghost 0 RIdle) ?s" by (simp add: Inv_def)
  then show ?thesis by (simp add: sys_inv_def w pc e)
qed

text \<open>An operation that leaves the command of the retry world alone.\<close>

lemma sys_keep:
  assumes S: "sys_inv S" and k: "keeps Y (plg S) s'" and Y: "Y \<inter> pc_held (world S) = {}"
    and i: "Inv (pc_ghost (reserved S) (world S)) s'"
  shows "sys_inv (S\<lparr>plg := s'\<rparr>)"
proof -
  have "of_dev (sigs s') d x" if "x \<in> pc_held (world S)" "d \<in> pc_dev (world S)" for x d
  proof -
    have od: "of_dev (sigs (plg S)) d x" using S that by (simp add: sys_inv_def)
    then have "cmds (plg S) x \<noteq> None" by (auto simp: of_dev_def sigs_def split: option.splits)
    then have "sigs s' x = sigs (plg S) x" using k Y that(1) unfolding keeps_def sigs_def by auto
    with od show ?thesis by (simp add: of_dev_def)
  qed
  moreover have "dom (devs s') = dom (devs (plg S))" using k by (simp add: keeps_def)
  moreover from this have "devs s' NULL = None" using S by (metis domIff sys_inv_def)
  ultimately show ?thesis using S i unfolding sys_inv_def by simp
qed

lemma sys_keep_upd:
  assumes S: "sys_inv S" and r: "leaves Y (plg S) r" and Y: "Y \<inter> pc_held (world S) = {}"
    and i: "\<exists>s'. r = Some s' \<and> Inv (pc_ghost (reserved S) (world S)) s'"
  shows "\<exists>S'. upd S r = Some S' \<and> sys_inv S'"
  using sys_keep [OF S _ Y] r i by (auto simp: upd_def lv_def)

lemma sys_keep_upd2:
  assumes S: "sys_inv S" and r: "leaves2 Y (plg S) r" and Y: "Y \<inter> pc_held (world S) = {}"
    and i: "\<exists>s' a. r = Some (s', a) \<and> Inv (pc_ghost (reserved S) (world S)) s'"
  shows "\<exists>S'. upd S (map_option fst r) = Some S' \<and> sys_inv S'"
  using sys_keep [OF S _ Y] r i by (auto simp: upd_def lv2_def)

lemma sysD:
  assumes "sys_inv S"
  shows "Inv (pc_ghost (reserved S) (world S)) (plg S)"
  using assms by (simp add: sys_inv_def)

text \<open>A command comes back.\<close>

lemma complete_Inv:
  assumes i: "Inv G s" and f: "fresh_heap (e_heap E)" and F: "x \<in> flying s" and c0: "cmd_of s x = Some c0" and sc: "same_cmd c0 c"
    and g: "g_limbo G = {}"
  shows "\<exists>s'. complete E s x c = Some s' \<and> Inv G s'"
proof -
  obtain X where X: "cmds s x = Some X" "x_cmd X = c0" using c0 by (auto simp: cmd_of_def)
  let ?p = "x_path X" and ?s1 = "s\<lparr>issued := issued s - {x}, scheduled := scheduled s - {x}\<rparr>"
  have px: "path_of s x = ?p" using X by (simp add: path_of_def)
  then have "?p \<in> dom (pths s)" using i F by (auto simp: Inv_def kinds_def)
  then obtain P where P: "pths s ?p = Some P" by blast
  have "path_dev s ?p = Some (p_dev P)" using P by (simp add: path_dev_def)
  then have pd: "p_dev P \<in> dom (devs s)" using i unfolding Inv_def kinds_def by blast
  have xd: "\<not> x_direct X \<Longrightarrow> x_dev X \<in> dom (devs s)"
    using i of_dev_iff [OF X(1), of "x_dev X"] unfolding Inv_def kinds_def by blast
  define d where "d = (if x_direct X then p_dev P else x_dev X)"
  obtain D where D: "devs s d = Some D" using pd xd unfolding d_def by (cases "x_direct X") auto
  have od: "\<And>e. of_dev (sigs s) e x \<Longrightarrow> e = d" using of_dev_iff [OF X(1)] by (auto simp: d_def)
  let ?b = "of_bool (reserves (sigs s) d x)"
  let ?G = "G\<lparr>g_limbo := insert x (g_limbo G), g_pin := (g_pin G)(?p := g_pin G ?p + 1), g_act := (g_act G)(?p := g_act G ?p + 1),
      g_credit := (g_credit G)(d := g_credit G d + ?b)\<rparr>"
  have i1: "Inv ?G ?s1" by (rule take_Inv [OF i F px D od])
  let ?X = "X\<lparr>x_cmd := c\<rparr>" and ?s2 = "?s1\<lparr>cmds := (cmds s)(x \<mapsto> X\<lparr>x_cmd := c\<rparr>)\<rparr>"
  have sg: "sig_of ?X = sig_of X" by (rule sig_same) (use sc X(2) in \<open>simp_all add: same_cmd_def\<close>)
  have c2: "on_cmd ?s1 x (\<lambda>X. X\<lparr>x_cmd := c\<rparr>) = Some ?s2" and i2: "Inv ?G ?s2"
    using on_cmd_Inv [OF i1, of x X "\<lambda>X. X\<lparr>x_cmd := c\<rparr>"] X(1) sg by simp_all
  have x2: "cmds ?s2 x = Some ?X" "x \<in> g_limbo ?G" by simp_all
  have pa: "0 < g_pin ?G (x_path ?X)" "0 < g_act ?G (x_path ?X)" by simp_all
  have rb: "reserves (sigs s) d x \<longleftrightarrow> \<not> x_direct X \<and> c_op c = RESERVE_UNIT"
    using reserves_iff [OF X(1), of d] sc X(2) by (simp add: d_def same_cmd_def)
  have nl: "g_limbo ?G - {x} = g_limbo G" using g by simp
  show ?thesis
  proof (cases "x_direct X")
    case True
    obtain s' where s': "ExampleCompletePathCommandDirect (e_api E) ?s2 x = Some s'"
      "Inv (?G\<lparr>g_limbo := g_limbo ?G - {x}, g_pin := (g_pin ?G)(x_path ?X := g_pin ?G (x_path ?X) - 1),
        g_act := (g_act ?G)(x_path ?X := g_act ?G (x_path ?X) - 1)\<rparr>) s'"
      using CompleteDirect_Inv [OF i2 x2 _ pa, of "e_api E"] True by auto
    have "?G\<lparr>g_limbo := g_limbo ?G - {x}, g_pin := (g_pin ?G)(x_path ?X := g_pin ?G (x_path ?X) - 1),
        g_act := (g_act ?G)(x_path ?X := g_act ?G (x_path ?X) - 1)\<rparr> = G"
      using True rb g by (cases G) simp
    with s' have "Inv G s'" by metis
    with s'(1) c2 True X(1) show ?thesis by (simp add: complete_def)
  next
    case False
    then have dd: "d = x_dev ?X" by (simp add: d_def)
    let ?H = "?G\<lparr>g_credit := (g_credit ?G)(x_dev ?X := g_credit ?G (x_dev ?X) - of_bool (c_op (x_cmd ?X) = RESERVE_UNIT)),
        g_limbo := g_limbo ?G - {x}, g_pin := (g_pin ?G)(x_path ?X := g_pin ?G (x_path ?X) - 1),
        g_act := (g_act ?G)(x_path ?X := g_act ?G (x_path ?X) - 1)\<rparr>"
    have cr: "of_bool (c_op (x_cmd ?X) = RESERVE_UNIT) \<le> g_credit ?G (x_dev ?X)" using False rb dd by simp
    obtain s' where s': "Example_CompletePathCommand (e_api E) (e_heap E) ?s2 x = Some s'" "Inv ?H s'"
      using CompletePath_Inv [OF i2 f x2 _ pa cr, of "e_api E"] False by auto
    have "?H = G" using False rb g dd by (cases G) simp
    with s' have "Inv G s'" by metis
    with s'(1) c2 False X(1) show ?thesis by (simp add: complete_def)
  qed
qed

lemma leaves_complete: "fresh_heap (e_heap E) \<Longrightarrow> leaves {x} s (complete E s x c)"
  unfolding complete_def
  by (rule leaves_if leaves_binds leaves_atoms leaves_CompletePath leaves_CompleteDirect | rule leaves_read
    | rule leaves_cong(1) [OF leaves_on_cmd] | simp only: keeps_views keeps_refl singleton_iff)+


section \<open>The steps keep the invariant\<close>

text \<open>What the world's position means for the next position.\<close>

lemma held_facts:
  assumes S: "sys_inv S" and x: "x \<in> pc_held (world S)" "d \<in> pc_dev (world S)"
  obtains X D where "cmds (plg S) x = Some X" "devs (plg S) d = Some D" "of_dev (sigs (plg S)) d x"
proof -
  have od: "of_dev (sigs (plg S)) d x" and "d \<in> dom (devs (plg S))" using S x unfolding sys_inv_def by blast+
  then show thesis using that by (auto simp: of_dev_def sigs_def split: option.splits)
qed

lemma sys_move:
  assumes S: "sys_inv S" and i: "Inv (pc_ghost (reserved S) pc) s'" and k: "keeps {} (plg S) s'"
    and h: "pc_held pc \<subseteq> pc_held (world S)" "pc_dev pc \<subseteq> pc_dev (world S)"
  shows "sys_inv (S\<lparr>plg := s', world := pc\<rparr>)"
proof -
  have "of_dev (sigs s') d x" if "x \<in> pc_held pc" "d \<in> pc_dev pc" for x d
  proof -
    have "x \<in> pc_held (world S)" "d \<in> pc_dev (world S)" using that h by blast+
    from held_facts [OF S this] obtain X where X: "cmds (plg S) x = Some X" "of_dev (sigs (plg S)) d x" .
    then have "cmds s' x = Some X" using k unfolding keeps_def by auto
    with X show ?thesis by (simp add: of_dev_def sigs_def)
  qed
  moreover have "dom (devs s') = dom (devs (plg S))" using k by (simp add: keeps_def)
  moreover from this have "devs s' NULL = None" using S by (metis domIff sys_inv_def)
  ultimately show ?thesis using S i h unfolding sys_inv_def by auto
qed

lemma sys_move_leaves:
  assumes S: "sys_inv S" and r: "leaves {} (plg S) r" "\<exists>s'. r = Some s' \<and> Inv (pc_ghost (reserved S) pc) s'"
    and h: "pc_held pc \<subseteq> pc_held (world S)" "pc_dev pc \<subseteq> pc_dev (world S)"
  shows "\<exists>S'. map_option (\<lambda>(pc, s). S\<lparr>plg := s, world := pc\<rparr>) (r \<bind> (\<lambda>s. Some (pc, s))) = Some S' \<and> sys_inv S'"
  using sys_move [OF S _ _ h] r by (auto simp: lv_def)

lemmas pc_defs = pc_held_def pc_dev_def pc_blk_def [abs_def] pc_busy_def [abs_def] pc_pin_def [abs_def]

text \<open>How the ghost state of two positions differs.\<close>

lemma ghost_pin:
  "pc_ghost n (RCheck x d p) = (pc_ghost n (RGot x d))\<lparr>g_pin := (g_pin (pc_ghost n (RGot x d)))(p := g_pin (pc_ghost n (RGot x d)) p + 1)\<rparr>"
  "pc_ghost n (RDrop x d p) = (pc_ghost n (RReady x d))\<lparr>g_pin := (g_pin (pc_ghost n (RReady x d)))(p := g_pin (pc_ghost n (RReady x d)) p + 1)\<rparr>"
  "pc_ghost n (RResv x d p) = (pc_ghost n (RFail x d))\<lparr>g_pin := (g_pin (pc_ghost n (RFail x d)))(p := g_pin (pc_ghost n (RFail x d)) p + 1)\<rparr>"
  by (simp_all add: pc_ghost_def pc_defs fun_eq_iff)

lemma ghost_same:
  "pc_ghost n (RFail x d) = pc_ghost n (RGot x d)" "pc_ghost n (RReady x d) = pc_ghost n (RGot x d)"
  "pc_ghost n (RResv x d p) = pc_ghost n (RCheck x d p)" "pc_ghost n (RAbort x d p) = pc_ghost n (RCheck x d p)"
  "pc_ghost n (RReset x d p) = pc_ghost n (RCheck x d p)" "pc_ghost n (RDrop x d p) = pc_ghost n (RCheck x d p)"
  by (simp_all add: pc_ghost_def pc_defs)

lemma ghost_busy:
  "pc_ghost n (RIssue x d) = (pc_ghost n (RReady x d))\<lparr>g_busy := (g_busy (pc_ghost n (RReady x d)))(d := g_busy (pc_ghost n (RReady x d)) d + 1)\<rparr>"
  "pc_ghost n (RDone d) = (pc_ghost n RIdle)\<lparr>g_busy := (g_busy (pc_ghost n RIdle))(d := g_busy (pc_ghost n RIdle) d + 1)\<rparr>"
  by (simp_all add: pc_ghost_def pc_defs fun_eq_iff)

lemma ghost_release:
  "pc_ghost n (RUnblock d) = (pc_ghost n (RIssue x d))\<lparr>g_held := g_held (pc_ghost n (RIssue x d)) - {x}\<rparr>"
  "pc_ghost n (RUnblock d) = (pc_ghost n (RDone d))\<lparr>g_blk := (g_blk (pc_ghost n (RDone d)))(d := Suc (g_blk (pc_ghost n (RDone d)) d))\<rparr>"
  "pc_ghost n (RGot x d) = (pc_ghost n RIdle)\<lparr>g_held := insert x (g_held (pc_ghost n RIdle)),
     g_blk := (g_blk (pc_ghost n RIdle))(d := g_blk (pc_ghost n RIdle) d + 1)\<rparr>"
  by (simp_all add: pc_ghost_def pc_defs fun_eq_iff)

lemma pc_sets [simp]:
  "pc_held RIdle = {}" "pc_held (RGot x d) = {x}" "pc_held (RCheck x d p) = {x}" "pc_held (RFail x d) = {x}"
  "pc_held (RResv x d p) = {x}" "pc_held (RAbort x d p) = {x}" "pc_held (RReset x d p) = {x}" "pc_held (RDrop x d p) = {x}"
  "pc_held (RReady x d) = {x}" "pc_held (RIssue x d) = {x}" "pc_held (RUnblock d) = {}" "pc_held (RDone d) = {}"
  "pc_dev RIdle = {}" "pc_dev (RGot x d) = {d}" "pc_dev (RCheck x d p) = {d}" "pc_dev (RFail x d) = {d}"
  "pc_dev (RResv x d p) = {d}" "pc_dev (RAbort x d p) = {d}" "pc_dev (RReset x d p) = {d}" "pc_dev (RDrop x d p) = {d}"
  "pc_dev (RReady x d) = {d}" "pc_dev (RIssue x d) = {d}" "pc_dev (RUnblock d) = {d}" "pc_dev (RDone d) = {d}"
  by (simp_all add: pc_held_def pc_dev_def)

lemma retry_dequeue:
  assumes S: "sys_inv S" and w: "world S = RIdle"
  shows "\<exists>S'. run E (Retry status) S = Some S' \<and> sys_inv S'"
proof (cases "retryQueue (plg S)")
  case Nil
  then have "run E (Retry status) S = Some (S\<lparr>world := RIdle\<rparr>)" using w by (simp add: ExampleDequeueCommand_def)
  moreover have "S\<lparr>world := RIdle\<rparr> = S" using w by (cases S) simp
  ultimately show ?thesis using S by metis
next
  case (Cons x xs)
  note i = sysD [OF S]
  have "x \<in> set (retryQueue (plg S))" using Cons by simp
  then obtain d where od: "of_dev (sigs (plg S)) d x" using i unfolding Inv_def kinds_def by blast
  then obtain X where X: "cmds (plg S) x = Some X" "x_dev X = d" by (auto simp: of_dev_def sigs_def sig_of_def split: option.splits)
  obtain D where D: "devs (plg S) d = Some D" using i od unfolding Inv_def kinds_def by blast
  have "Inv (pc_ghost (reserved S) (RGot x d)) ((plg S)\<lparr>retryQueue := xs\<rparr>)"
    unfolding ghost_release by (rule dequeue_Inv [OF i [unfolded w] Cons D od]) (simp add: pc_defs)
  then have "sys_inv (S\<lparr>plg := (plg S)\<lparr>retryQueue := xs\<rparr>, world := RGot x d\<rparr>)"
    using S D od by (auto simp: sys_inv_def)
  then show ?thesis using Cons X w by (simp add: ExampleDequeueCommand_def)
qed

lemma retry_check:
  assumes S: "sys_inv S" and w: "world S = RCheck x d p"
  shows "\<exists>S'. run E (Retry status) S = Some S' \<and> sys_inv S'"
proof -
  note i = sysD [OF S]
  have "0 < g_pin (pc_ghost (reserved S) (world S)) p" by (simp add: w pc_defs)
  then have "p \<in> dom (pths (plg S))" using i unfolding Inv_def kinds_def by blast
  then obtain P where P: "pths (plg S) p = Some P" by blast
  have g: "(pc_ghost (reserved S) (RCheck x d p))\<lparr>g_pin := (g_pin (pc_ghost (reserved S) (RCheck x d p)))(p := g_pin (pc_ghost (reserved S) (RCheck x d p)) p - 1)\<rparr> =
      pc_ghost (reserved S) (RGot x d)" by (simp add: pc_ghost_def pc_defs fun_eq_iff)
  have r: "\<exists>s'. ExamplePathDecRefCount (plg S) p = Some s' \<and> Inv (pc_ghost (reserved S) (RGot x d)) s'"
    using DecRef_Inv [OF i [unfolded w], of p] unfolding g by (auto simp: pc_defs)
  let ?pc = "if p_state P \<noteq> PATH_ON then RFail x d else RReady x d"
  have "pc_ghost (reserved S) ?pc = pc_ghost (reserved S) (RGot x d)" by (simp add: ghost_same)
  with sys_move_leaves [OF S leaves_counts(2), of p ?pc] r w show ?thesis by (simp add: P)
qed

lemma retry_hold:
  assumes S: "sys_inv S" and w: "world S = RGot x d"
  shows "\<exists>S'. run E (Retry status) S = Some S' \<and> sys_inv S'"
proof -
  note i = sysD [OF S]
  obtain D where D: "devs (plg S) d = Some D" using held_facts [OF S, of x d] w by auto
  from active_path_ok [OF i D] obtain p P where p: "active_path D = Some p" "pths (plg S) p = Some P" .
  have le: "g_pin (pc_ghost (reserved S) (RGot x d)) p \<le> 2 ^ 20" by (simp add: pc_pin_def)
  have r: "\<exists>s'. ExamplePathIncRefCount (plg S) p = Some s' \<and> Inv (pc_ghost (reserved S) (RCheck x d p)) s'"
    using IncRef_Inv [OF i [unfolded w] p(2) le] unfolding ghost_pin(1) by blast
  show ?thesis using sys_move_leaves [OF S leaves_counts(1) r] w by (simp add: D p)
qed

lemma retry_failover:
  assumes S: "sys_inv S" and w: "world S = RFail x d"
  shows "\<exists>S'. run E (Retry status) S = Some S' \<and> sys_inv S'"
proof -
  note i = sysD [OF S]
  obtain D where D: "devs (plg S) d = Some D" "of_dev (sigs (plg S)) d x" using held_facts [OF S, of x d] w by auto
  have b: "0 < g_blk (pc_ghost (reserved S) (RFail x d)) d" by (simp add: pc_defs)
  have le: "g_pin (pc_ghost (reserved S) (RFail x d)) p \<le> 2 ^ 19" for p by (simp add: pc_pin_def)
  obtain s' r where s': "ExampleDevice_AttemptFailover (plg S) d = Some (s', r)"
    "case r of None \<Rightarrow> Inv (pc_ghost (reserved S) (RFail x d)) s'
      | Some p \<Rightarrow> Inv ((pc_ghost (reserved S) (RFail x d))\<lparr>g_pin := (g_pin (pc_ghost (reserved S) (RFail x d)))(p := g_pin (pc_ghost (reserved S) (RFail x d)) p + 1)\<rparr>) s'"
    using AttemptFailover_Inv [OF i [unfolded w] D(1) b D(2) le] by blast
  let ?pc = "case r of None \<Rightarrow> RReady x d | Some p \<Rightarrow> RResv x d p"
  have "Inv (pc_ghost (reserved S) ?pc) s'"
    using s'(2) by (cases r) (simp_all only: option.case ghost_pin(3) ghost_same(1,2))
  moreover have "leaves2 {} (plg S) (ExampleDevice_AttemptFailover (plg S) d)"
    unfolding ExampleDevice_AttemptFailover_def
    by (rule leaves_if leaves_binds leaves_atoms leaves_counts | rule leaves_read)+
  then have "keeps {} (plg S) s'" using s'(1) by (simp add: lv2_def)
  moreover have "pc_held ?pc \<subseteq> pc_held (world S)" "pc_dev ?pc \<subseteq> pc_dev (world S)" by (cases r; simp add: w)+
  ultimately have "sys_inv (S\<lparr>plg := s', world := ?pc\<rparr>)" by (rule sys_move [OF S])
  with s'(1) w show ?thesis by simp
qed

lemma retry_resv:
  assumes S: "sys_inv S" and w: "world S = RResv x d p"
  shows "\<exists>S'. run E (Retry status) S = Some S' \<and> sys_inv S'"
proof -
  note i = sysD [OF S]
  obtain D where D: "devs (plg S) d = Some D" using held_facts [OF S, of x d] w by auto
  let ?pc = "if resv_must_clear D p then RAbort x d p else RDrop x d p"
  have "Inv (pc_ghost (reserved S) ?pc) (plg S)" using i by (simp add: w ghost_same)
  then have "sys_inv (S\<lparr>plg := plg S, world := ?pc\<rparr>)" by (rule sys_move [OF S]) (simp_all add: w)
  with D w show ?thesis by simp
qed

lemma leaves_list: "leaves2 Y s a \<Longrightarrow> (\<And>x xs. leaves2 Y s (b x xs)) \<Longrightarrow> leaves2 Y s (case l of [] \<Rightarrow> a | x # xs \<Rightarrow> b x xs)"
  by (cases l) simp_all

lemma retry_abort:
  assumes S: "sys_inv S" and E: "environment_ok E" and w: "world S = RAbort x d p"
  shows "\<exists>S'. run E (Retry status) S = Some S' \<and> sys_inv S'"
proof -
  note i = sysD [OF S]
  obtain D where D: "devs (plg S) d = Some D" using held_facts [OF S, of x d] w by auto
  have b: "0 < g_blk (pc_ghost (reserved S) (world S)) d" by (simp add: w pc_defs)
  have sp: "splits (e_split E)" using E by (simp add: environment_ok_def)
  obtain s' r m where s': "ExampleAbortAllRSIOs (e_split E) (plg S) d = Some (s', r)" "Inv (pc_ghost (reserved S) (world S)) s'"
    "s' = (plg S)\<lparr>devs := m\<rparr>"
    using AbortAllRSIOs_Inv [OF i D b sp] by blast
  let ?pc = "if r then RReset x d p else RAbort x d p"
  have "leaves2 {} (plg S) (ExampleAbortAllRSIOs (e_split E) (plg S) d)"
    unfolding ExampleAbortAllRSIOs_def split_def Let_def
    by (rule leaves_if leaves_binds leaves_atoms leaves_list | rule leaves_read)+
  then have k: "keeps {} (plg S) s'" using s'(1) by (simp add: lv2_def)
  have i2: "Inv (pc_ghost (reserved S) ?pc) s'" using s'(2) by (simp add: w ghost_same)
  have "sys_inv (S\<lparr>plg := s', world := ?pc\<rparr>)" by (rule sys_move [OF S i2 k]) (simp_all add: w)
  with s'(1) w show ?thesis by simp
qed

lemma retry_reset:
  assumes S: "sys_inv S" and w: "world S = RReset x d p"
  shows "\<exists>S'. run E (Retry status) S = Some S' \<and> sys_inv S'"
proof -
  note i = sysD [OF S]
  obtain D where D: "devs (plg S) d = Some D" using held_facts [OF S, of x d] w by auto
  have r: "\<exists>s'. resv_reset (plg S) d status = Some s' \<and> Inv (pc_ghost (reserved S) (RDrop x d p)) s'"
    using resv_reset_Inv [OF i D, of status] by (simp only: w ghost_same) blast
  have "leaves {} (plg S) (resv_reset (plg S) d status)"
    unfolding resv_reset_def by (rule leaves_if leaves_binds leaves_atoms leaves_ops)+
  from sys_move_leaves [OF S this r] w show ?thesis by simp
qed

lemma retry_drop:
  assumes S: "sys_inv S" and w: "world S = RDrop x d p"
  shows "\<exists>S'. run E (Retry status) S = Some S' \<and> sys_inv S'"
proof -
  note i = sysD [OF S]
  have g: "(pc_ghost (reserved S) (RDrop x d p))\<lparr>g_pin := (g_pin (pc_ghost (reserved S) (RDrop x d p)))(p := g_pin (pc_ghost (reserved S) (RDrop x d p)) p - 1)\<rparr> =
      pc_ghost (reserved S) (RReady x d)" by (simp add: pc_ghost_def pc_defs fun_eq_iff)
  have r: "\<exists>s'. ExamplePathDecRefCount (plg S) p = Some s' \<and> Inv (pc_ghost (reserved S) (RReady x d)) s'"
    using DecRef_Inv [OF i [unfolded w], of p] unfolding g by (auto simp: pc_defs)
  from sys_move_leaves [OF S leaves_counts(2) r] w show ?thesis by simp
qed

lemma retry_busy:
  assumes S: "sys_inv S" and w: "world S = RReady x d"
  shows "\<exists>S'. run E (Retry status) S = Some S' \<and> sys_inv S'"
proof -
  note i = sysD [OF S]
  obtain D where D: "devs (plg S) d = Some D" using held_facts [OF S, of x d] w by auto
  have le: "g_busy (pc_ghost (reserved S) (RReady x d)) d \<le> 1" by (simp add: pc_busy_def)
  have r: "\<exists>s'. ExampleDeviceIncBusyCount (plg S) d = Some s' \<and> Inv (pc_ghost (reserved S) (RIssue x d)) s'"
    using IncBusy_Inv [OF i [unfolded w] D le] unfolding ghost_busy(1) .
  from sys_move_leaves [OF S leaves_counts(3) r] w show ?thesis by simp
qed

lemma retry_issue:
  assumes S: "sys_inv S" and w: "world S = RIssue x d"
  shows "\<exists>S'. run E (Retry status) S = Some S' \<and> sys_inv S'"
proof -
  note i = sysD [OF S]
  obtain D where D: "devs (plg S) d = Some D" "of_dev (sigs (plg S)) d x" using held_facts [OF S, of x d] w by auto
  have h: "x \<in> g_held (pc_ghost (reserved S) (RIssue x d))" "0 < g_blk (pc_ghost (reserved S) (RIssue x d)) d" by (simp_all add: pc_defs)
  have le: "g_pin (pc_ghost (reserved S) (RIssue x d)) p \<le> 2 ^ 20" "g_act (pc_ghost (reserved S) (RIssue x d)) p \<le> 2 ^ 20" for p
    by (simp_all add: pc_pin_def)
  obtain s' where s': "ExampleRetryCmd (plg S) x status = Some s'" "Inv (pc_ghost (reserved S) (RUnblock d)) s'"
    using RetryCmd_Inv [OF i [unfolded w] h(1) D(2) h(2) le, of status] unfolding ghost_release(1) [of _ _ x] by blast
  have "leaves {x} (plg S) (ExampleRetryCmd (plg S) x status)"
    unfolding ExampleRetryCmd_def
    by (rule leaves_if leaves_binds leaves_atoms leaves_ops leaves_hand_over | rule leaves_read | simp only: singleton_iff)+
  then have "keeps {x} (plg S) s'" using s'(1) by (simp add: lv_def)
  then have dm: "dom (devs s') = dom (devs (plg S))" by (simp add: keeps_def)
  moreover from dm have "devs s' NULL = None" using S by (metis domIff sys_inv_def)
  ultimately have "sys_inv (S\<lparr>plg := s', world := RUnblock d\<rparr>)" using s'(2) S D(1) by (auto simp: sys_inv_def)
  with s'(1) w show ?thesis by simp
qed

lemma retry_unblock:
  assumes S: "sys_inv S" and w: "world S = RUnblock d"
  shows "\<exists>S'. run E (Retry status) S = Some S' \<and> sys_inv S'"
proof -
  note i = sysD [OF S]
  obtain D where D: "devs (plg S) d = Some D" using S w by (auto simp: sys_inv_def)
  have r: "\<exists>s'. ExampleDevice_Unblock (plg S) d = Some s' \<and> Inv (pc_ghost (reserved S) (RDone d)) s'"
    using Unblock_Inv [OF i [unfolded w ghost_release(2)] D] .
  from sys_move_leaves [OF S leaves_Unblock r] w show ?thesis by simp
qed

lemma retry_done:
  assumes S: "sys_inv S" and w: "world S = RDone d"
  shows "\<exists>S'. run E (Retry status) S = Some S' \<and> sys_inv S'"
proof -
  note i = sysD [OF S]
  obtain D where D: "devs (plg S) d = Some D" using S w by (auto simp: sys_inv_def)
  have r: "\<exists>s'. ExampleDeviceDecBusyCount (plg S) d = Some s' \<and> Inv (pc_ghost (reserved S) RIdle) s'"
    using DecBusy_Inv [OF i [unfolded w ghost_busy(2)] D] .
  from sys_move_leaves [OF S leaves_counts(4) r] w show ?thesis by simp
qed

lemma retry_step:
  assumes "sys_inv S" "environment_ok E"
  shows "\<exists>S'. run E (Retry status) S = Some S' \<and> sys_inv S'"
  using assms retry_dequeue retry_hold retry_check retry_failover retry_resv retry_abort retry_reset retry_drop retry_busy
    retry_issue retry_unblock retry_done by (cases "world S") blast+


lemma more_resv:
  assumes i: "Inv G s" and n: "g_resv G \<le> n" "n < 2 ^ 32"
  shows "Inv (G\<lparr>g_resv := n\<rparr>) s"
proof -
  have "dev_ok (G\<lparr>g_resv := n\<rparr>) (sigs s) (path_dev s) (set (works s)) (set (retryQueue s)) (flying s) e E"
    if "devs s e = Some E" for e E
    using InvD_dev [OF i that] n by (auto simp: dev_ok_def fits_def)
  then show ?thesis using i n by (auto simp: Inv_def devs_ok_def kinds_def paths_ok_def path_counts_def places_def)
qed

lemma Submit_Inv:
  assumes i: "Inv G s" and D: "devs s d = Some D" "0 < openCount D" "\<not> has_flag D EXAMPLE_DEVICE_REMOVING" and n: "g_resv G + 1 < 2 ^ 32"
  shows "Inv (G\<lparr>g_resv := g_resv G + of_bool (c_op c = RESERVE_UNIT)\<rparr>) (s\<lparr>devs := (devs s)(d \<mapsto> D\<lparr>psa_queue := psa_queue D @ [c]\<rparr>)\<rparr>)"
    (is "Inv ?G _")
proof (rule Inv_dev [OF _ D(1)])
  show "Inv ?G s" by (rule more_resv [OF i]) (use n in auto)
  show "dev_ok ?G (sigs s) (path_dev s) (set (works s)) (set (retryQueue s)) (flying s) d (D\<lparr>psa_queue := psa_queue D @ [c]\<rparr>)"
    using InvD_dev [OF i D(1)] D unfolding dev_ok_def fits_def path_ok_def has_flag_def by simp
qed

lemma Open_Inv:
  assumes i: "Inv G s" and D: "devs s d = Some D" "unat (openCount D) + 1 < 2 ^ 32"
  shows "\<exists>s' r. ExampleDeviceOpen s d = Some (s', r) \<and> Inv G s'"
proof (cases "d = NULL \<or> has_flag D EXAMPLE_DEVICE_REMOVING")
  case True
  then show ?thesis using i D by (auto simp: ExampleDeviceOpen_def)
next
  case False
  have "unat (openCount D + 1) = unat (openCount D) + 1" using D(2) by (simp add: unat_word_ariths)
  then have "0 < openCount D + 1" by (simp add: word_less_nat_alt)
  then have "dev_ok G (sigs s) (path_dev s) (set (works s)) (set (retryQueue s)) (flying s) d (D\<lparr>openCount := openCount D + 1\<rparr>)"
    using InvD_dev [OF i D(1)] False unfolding dev_ok_def fits_def path_ok_def has_flag_def by simp
  from Inv_dev [OF i D(1) this] show ?thesis using False D(1) by (simp add: ExampleDeviceOpen_def on_dev_def)
qed

lemma Close_Inv:
  assumes i: "Inv G s" and D: "devs s d = Some D" "0 < openCount D" and g: "g_open G d = False"
    and last: "openCount D = 1 \<longrightarrow> psa_queue D = [] \<and> (\<forall>x. \<not> of_dev (sigs s) d x)"
  shows "\<exists>s'. ExampleDeviceClose s d = Some s' \<and> Inv G s'"
proof -
  have nz: "openCount D \<noteq> 0" using D(2) by auto
  have le: "0 < openCount D - 1" if "openCount D \<noteq> 1"
    using that by (simp add: word_neq_0_conv [symmetric])
  have "dev_ok G (sigs s) (path_dev s) (set (works s)) (set (retryQueue s)) (flying s) d (D\<lparr>openCount := openCount D - 1\<rparr>)"
    using InvD_dev [OF i D(1)] le last g unfolding dev_ok_def fits_def path_ok_def has_flag_def by (cases "openCount D = 1") simp_all
  from Inv_dev [OF i D(1) this] show ?thesis using D by (simp add: ExampleDeviceClose_def on_dev_def)
qed

lemma event_step:
  assumes S: "sys_inv S" and E: "environment_ok E" and e: "enabled e S"
  shows "\<exists>S'. run E e S = Some S' \<and> sys_inv S'"
proof -
  note i = sysD [OF S]
  have f: "fresh_heap (e_heap E)" using E by (simp add: environment_ok_def)
  have pin: "\<And>p. g_pin (pc_ghost (reserved S) (world S)) p \<le> 2 ^ 20" "\<And>p. g_act (pc_ghost (reserved S) (world S)) p \<le> 2 ^ 20"
    using pc_pin_le_big by simp_all
  have nul: "devs (plg S) NULL = None" using S by (simp add: sys_inv_def)
  have held: "pc_held (world S) \<inter> (set (works (plg S)) \<union> set (retryQueue (plg S)) \<union> flying (plg S)) = {}"
    using i unfolding Inv_def places_def by simp
  have compl: "\<exists>S'. upd S (complete E (plg S) x c) = Some S' \<and> sys_inv S'"
    if "x \<in> flying (plg S)" "cmd_of (plg S) x = Some c0" "same_cmd c0 c" for x c c0
  proof (rule sys_keep_upd [OF S leaves_complete [OF f]])
    show "{x} \<inter> pc_held (world S) = {}" using held that(1) by auto
    show "\<exists>s'. complete E (plg S) x c = Some s' \<and> Inv (pc_ghost (reserved S) (world S)) s'"
      by (rule complete_Inv [OF i f that]) simp
  qed
  have there: "\<exists>c. cmd_of (plg S) x = Some c" if "x \<in> issued (plg S)" for x
  proof -
    have "x \<in> dom (cmds (plg S))" using i that unfolding Inv_def places_def flying_def by auto
    then show ?thesis by (auto simp: cmd_of_def)
  qed
  show ?thesis
  proof (cases e)
    case (Submit d c)
    then obtain D where D: "devs (plg S) d = Some D" "0 < openCount D" "\<not> has_flag D EXAMPLE_DEVICE_REMOVING" "reserved S + 1 < 2 ^ 32"
      using e by (auto simp: usable_def split: option.splits)
    let ?s = "(plg S)\<lparr>devs := (devs (plg S))(d \<mapsto> D\<lparr>psa_queue := psa_queue D @ [c]\<rparr>)\<rparr>"
    let ?S = "S\<lparr>plg := ?s, reserved := reserved S + of_bool (c_op c = RESERVE_UNIT)\<rparr>"
    define n where "n = reserved S + of_bool (c_op c = RESERVE_UNIT)"
    have ge: "pc_ghost n (world S) = (pc_ghost (reserved S) (world S))\<lparr>g_resv := n\<rparr>" by (simp add: pc_ghost_def)
    have "Inv (pc_ghost n (world S)) ?s"
      unfolding ge using Submit_Inv [OF i D(1-3), of c] D(4) by (simp only: pc_ghost_simps n_def)
    moreover have "d \<noteq> NULL" using nul D(1) by (intro notI) simp
    ultimately have "sys_inv ?S" using S nul D(1) by (auto simp: sys_inv_def n_def [symmetric])
    then show ?thesis using Submit D(1) by (simp add: on_dev_def)
  next
    case (Start d)
    then obtain D where "devs (plg S) d = Some D" using e by auto
    from Start_Inv [OF f i this] have "\<exists>s'. ExampleDeviceStartCommand (e_heap E) (plg S) d = Some s' \<and> Inv (pc_ghost (reserved S) (world S)) s'" by blast
    from sys_keep_upd [OF S leaves_Start [OF f] _ this, of "{}"] Start show ?thesis by simp
  next
    case (Open d)
    have "\<exists>s' r. ExampleDeviceOpen (plg S) d = Some (s', r) \<and> Inv (pc_ghost (reserved S) (world S)) s'"
    proof (cases "d = NULL")
      case True
      then show ?thesis using i by (simp add: ExampleDeviceOpen_def)
    next
      case False
      then show ?thesis using Open_Inv [OF i, of d] Open e by (auto split: option.splits)
    qed
    moreover have "leaves2 {} (plg S) (ExampleDeviceOpen (plg S) d)"
      unfolding ExampleDeviceOpen_def by (rule leaves_if leaves_binds leaves_atoms | rule leaves_read)+
    ultimately show ?thesis using sys_keep_upd2 [OF S, of "{}"] Open by simp
  next
    case (Close d)
    then obtain D where D: "devs (plg S) d = Some D" "0 < openCount D"
      "openCount D = 1 \<longrightarrow> psa_queue D = [] \<and> (\<forall>X \<in> ran (cmds (plg S)). x_dev X \<noteq> d)" using e by (auto split: option.splits)
    have "(\<forall>X \<in> ran (cmds (plg S)). x_dev X \<noteq> d) \<longrightarrow> (\<forall>x. \<not> of_dev (sigs (plg S)) d x)"
      by (auto simp: of_dev_def sigs_def sig_of_def ran_def split: option.splits)
    then have "\<exists>s'. ExampleDeviceClose (plg S) d = Some s' \<and> Inv (pc_ghost (reserved S) (world S)) s'"
      using D(3) by (intro Close_Inv [OF i D(1,2)]) auto
    moreover have "leaves {} (plg S) (ExampleDeviceClose (plg S) d)"
      unfolding ExampleDeviceClose_def by (rule leaves_if leaves_binds leaves_atoms | rule leaves_read)+
    ultimately show ?thesis using sys_keep_upd [OF S, of "{}"] Close by simp
  next
    case (IssueDirect p c status)
    then obtain P where P: "pths (plg S) p = Some P" "c_op c \<noteq> RESERVE_UNIT" "c_op c \<noteq> RELEASE_UNIT" using e by auto
    from IssueDirect_Inv [OF i f P pin] sys_keep_upd2 [OF S leaves_IssueDirect [OF f]] IssueDirect show ?thesis by simp
  next
    case (TaskMgmt d query st reset answer)
    then obtain D where D: "devs (plg S) d = Some D" "0 < openCount D" "\<not> has_flag D EXAMPLE_DEVICE_REMOVING"
      and q: "\<forall>X \<in> ran (cmds (plg S)). query (x_cmd X) \<longrightarrow> x_dev X = d"
      using e by (auto simp: usable_def split: option.splits)
    have q': "\<forall>x X. x \<in> set (retryQueue (plg S)) \<longrightarrow> cmds (plg S) x = Some X \<longrightarrow> query (x_cmd X) \<longrightarrow> x_dev X = d"
      using q by (auto simp: ran_def)
    have "\<exists>s' r. ExampleDeviceTaskManagement (e_api E) (e_heap E) query st reset answer (plg S) d = Some (s', r) \<and>
        Inv (pc_ghost (reserved S) (world S)) s'"
      by (rule TaskManagement_Inv [OF i f D _ _ _ _ q']) (use pc_blk_le pin in simp_all)
    with sys_keep_upd2 [OF S leaves_TaskManagement [OF f]] held TaskMgmt show ?thesis by (simp add: Int_Un_distrib Int_commute)
  next
    case (Probe d tur)
    then obtain D where D: "devs (plg S) d = Some D" "may_probe (plg S)" using e by auto
    have l: "links_ok 2 1 (plg S)" by (rule may_probe_links [OF i D(2)]) (use pin in simp)
    have "d \<noteq> NULL" using D nul by (intro notI) simp
    from probe_score [OF l this D(1), of 0 "e_api E" tur] obtain s' r where
      s': "ExampleDeviceProbe 2 (e_api E) tur (plg S) d = Some (s', r)" "score s' = score (plg S)" by (auto simp: numeral_2_eq_2)
    from sys_keep [OF S score_keeps [OF s'(2)] _ Inv_score [OF i s'(2)]] s'(1) Probe show ?thesis by (simp add: upd_def)
  next
    case (SetState p st tur)
    then obtain P where P: "pths (plg S) p = Some P" "st = PATH_ON \<or> st = PATH_OFF" "may_probe (plg S)" using e by auto
    have l: "links_ok 2 1 (plg S)" by (rule may_probe_links [OF i P(3)]) (use pin in simp)
    have "path_dev (plg S) p = Some (p_dev P)" using P by (simp add: path_dev_def)
    then have "p_dev P \<in> dom (devs (plg S))" using i unfolding Inv_def kinds_def by blast
    then obtain D where D: "devs (plg S) (p_dev P) = Some D" by blast
    have pn: "p_dev P \<noteq> NULL" using D nul by (intro notI) simp
    from set_state_score [OF l P(1) pn D P(2), of 0 "e_api E" tur] obtain s' r where
      s': "ExamplePathSetState 2 (e_api E) tur (plg S) p st = Some (s', r)" "score s' = score (plg S)" by (auto simp: numeral_2_eq_2)
    from sys_keep [OF S score_keeps [OF s'(2)] _ Inv_score [OF i s'(2)]] s'(1) SetState show ?thesis by (simp add: upd_def)
  next
    case (Issue x status)
    then have W: "x \<in> set (works (plg S))" using e by simp
    then have "{x} \<inter> pc_held (world S) = {}" using held by auto
    from sys_keep_upd [OF S leaves_Issue [OF f] this] Issue_Inv [OF i f W pin] Issue show ?thesis by simp
  next
    case (Complete x c)
    then have "x \<in> flying (plg S) \<and> (\<exists>c0. cmd_of (plg S) x = Some c0 \<and> same_cmd c0 c)"
      using e by (auto simp: flying_def same_cmd_def)
    then show ?thesis using compl Complete by auto
  next
    case (CacheRead x len payloadlen sg)
    then have x: "x \<in> issued (plg S)" "sg = payloadlen" "len = payloadlen" using e by simp_all
    obtain c where c: "cmd_of (plg S) x = Some c" using there [OF x(1)] by blast
    have "x \<in> flying (plg S)" "same_cmd c (set_cmd_complete c len)" using x by (simp_all add: flying_def same_cmd_def set_cmd_complete_def)
    from compl [OF this(1) c this(2)] show ?thesis using CacheRead c x by (simp add: resp_read_cmd_def)
  next
    case (CacheWrite x len payloadlen)
    then have x: "x \<in> issued (plg S)" "payloadlen = 0" using e by simp_all
    obtain c where c: "cmd_of (plg S) x = Some c" using there [OF x(1)] by blast
    have "x \<in> flying (plg S)" "same_cmd c (set_cmd_complete c len)" using x by (simp_all add: flying_def same_cmd_def set_cmd_complete_def)
    from compl [OF this(1) c this(2)] show ?thesis using CacheWrite c x by (simp add: resp_write_cmd_def)
  next
    case (Timer d)
    then obtain D where D: "devs (plg S) d = Some D" "startTimer D" using e by (auto split: option.splits)
    have "\<exists>s'. ExampleDeviceStartFromTimer (e_heap E) (plg S) d = Some s' \<and> Inv (pc_ghost (reserved S) (world S)) s'"
      by (rule Timer_Inv [OF i f D]) (use pc_busy_le in simp)
    from sys_keep_upd [OF S leaves_Timer [OF f] _ this, of "{}"] Timer show ?thesis by simp
  next
    case (Retry status)
    then show ?thesis using retry_step [OF S E] by simp
  qed
qed

lemma plugin_reachable_inv:
  assumes E: "environment_ok E"
  shows "reachable E S \<Longrightarrow> sys_inv S"
proof (induct rule: reachable.induct)
  case (start S)
  then show ?case by (rule initial_sys_inv)
next
  case (step S e S')
  then show ?case using event_step [OF step(2) E step(3)] by simp
qed

end
