(* ===== verification/Plugin_Props.thy ===== *)
theory Plugin_Props
  imports Plugin_Reach
begin

text \<open>
  What holds in all states that the plugin can reach, and some things that go wrong in it.
\<close>

text \<open>Several events in a row, each of which the environment allows.\<close>

fun runs :: "environment \<Rightarrow> event list \<Rightarrow> system \<Rightarrow> system option" where
  "runs E [] S = Some S"
| "runs E (e # es) S = do { c_assert (enabled e S); S \<leftarrow> run E e S; runs E es S }"

lemma runs_reachable: "reachable E S \<Longrightarrow> runs E es S = Some S' \<Longrightarrow> reachable E S'"
  by (induct es arbitrary: S) (auto simp: bind_eq_Some_conv intro: reachable.step)

lemma unblock_frame:
  assumes "ExampleDevice_Unblock s d = Some s'" "devs s d = Some D"
  shows "\<exists>D'. s' = s\<lparr>devs := (devs s)(d \<mapsto> D')\<rparr> \<and> blocked D' = blocked D - 1 \<and> (blocked D = 1 \<longrightarrow> startTimer D')"
  using assms unfolding ExampleDevice_Unblock_def ExampleDeviceSchedStart_def ExampleDeviceIncBusyCount_def
  by (auto simp: on_dev_def bind_eq_Some_conv split: if_splits)



section \<open>The properties of the plugin\<close>


text \<open>
  C2 (plugin_commands_conserved) No command is lost, and none is completed twice: the commands that have
  been accepted are those that have been given back and those that the plugin has, and each of the
  latter is at exactly one place: it waits for a sending thread, waits for a retry, is on its way
  (handed to the layer below or scheduled to come back), or is held by the retry world.
\<close>

theorem plugin_commands_conserved:
  assumes "environment_ok E" "reachable E S"
  shows "mset (map c_id (accepted (plg S))) = mset (map c_id (completed (plg S))) +
      image_mset (\<lambda>x. c_id (x_cmd (the (cmds (plg S) x)))) (mset_set (dom (cmds (plg S)))) \<and>
    (\<forall>x. count (mset (works (plg S) @ retryQueue (plg S))) x + of_bool (x \<in> issued (plg S)) + of_bool (x \<in> scheduled (plg S)) +
      of_bool (x \<in> pc_held (world S)) = (of_bool (x \<in> dom (cmds (plg S))) :: nat))"
proof
  note i = sysD [OF plugin_reachable_inv [OF assms]]
  have "image_mset (id_of (sigs (plg S))) (mset_set (dom (cmds (plg S)))) =
      image_mset (\<lambda>x. c_id (x_cmd (the (cmds (plg S) x)))) (mset_set (dom (cmds (plg S))))"
    by (rule image_mset_cong) (use i in \<open>auto simp: Inv_def heap_ok_def id_of_def sigs_def sig_of_def\<close>)
  then show "mset (map c_id (accepted (plg S))) = mset (map c_id (completed (plg S))) +
      image_mset (\<lambda>x. c_id (x_cmd (the (cmds (plg S) x)))) (mset_set (dom (cmds (plg S))))"
    using i by (simp add: Inv_def conserved_def)
  have pl: "distinct (works (plg S))" "distinct (retryQueue (plg S))" "set (works (plg S)) \<inter> set (retryQueue (plg S)) = {}"
    "flying (plg S) \<inter> (set (works (plg S)) \<union> set (retryQueue (plg S))) = {}" "issued (plg S) \<inter> scheduled (plg S) = {}"
    "pc_held (world S) \<inter> (set (works (plg S)) \<union> set (retryQueue (plg S)) \<union> flying (plg S)) = {}"
    "dom (cmds (plg S)) = set (works (plg S)) \<union> set (retryQueue (plg S)) \<union> flying (plg S) \<union> pc_held (world S)"
    using i by (simp_all add: Inv_def places_def)
  have c: "count (mset xs) x = of_bool (x \<in> set xs)" if "distinct xs" for xs and x :: nat
    using that by (simp add: distinct_count_atmost_1)
  show "\<forall>x. count (mset (works (plg S) @ retryQueue (plg S))) x + of_bool (x \<in> issued (plg S)) + of_bool (x \<in> scheduled (plg S)) +
      of_bool (x \<in> pc_held (world S)) = (of_bool (x \<in> dom (cmds (plg S))) :: nat)"
    unfolding pl(7) mset_append count_union c [OF pl(1)] c [OF pl(2)] using pl(3-6) by (auto simp: flying_def)
qed


lemma retry_runs:
  assumes "environment_ok E" "sys_inv S"
  shows "\<exists>S'. runs E (map Retry sts) S = Some S' \<and> sys_inv S'"
  using assms(2)
proof (induct sts arbitrary: S)
  case (Cons st sts)
  from retry_step [OF Cons.prems assms(1), of st] Cons.hyps show ?case by fastforce
qed simp

lemma dec_busy_frame:
  "ExampleDeviceDecBusyCount s d = Some s' \<Longrightarrow>
   \<exists>D. devs s d = Some D \<and> s' = s\<lparr>devs := (devs s)(d \<mapsto> D\<lparr>busyCount := busyCount D - 1\<rparr>)\<rparr>"
  unfolding ExampleDeviceDecBusyCount_def by (auto simp: on_dev_def bind_eq_Some_conv)

text \<open>
  C7 (retry_round) A round of the retry world: when the active path works, the first command of the retry
  queue is sent on that path, and the world is idle again after seven sections. The device has one
  block less, and after its last one the timer that starts new commands is set.
\<close>

theorem retry_round:
  assumes "environment_ok E" "reachable E S" and w: "world S = RIdle" and q: "retryQueue (plg S) = x # xs"
    and x: "cmds (plg S) x = Some X" "devs (plg S) (x_dev X) = Some D"
    and p: "active_path D = Some p" "pths (plg S) p = Some P" "p_state P = PATH_ON"
  shows "\<exists>S' X' D'. runs E (replicate 7 (Retry VMK_OK)) S = Some S' \<and> world S' = RIdle \<and> retryQueue (plg S') = xs \<and>
     x \<in> issued (plg S') \<and> cmds (plg S') x = Some X' \<and> x_path X' = p \<and>
     devs (plg S') (x_dev X) = Some D' \<and> blocked D' = blocked D - 1 \<and> (blocked D = 1 \<longrightarrow> startTimer D')"
proof -
  have r: "replicate 7 (Retry VMK_OK) = map Retry (replicate 7 VMK_OK)" by simp
  obtain S' where S': "runs E (replicate 7 (Retry VMK_OK)) S = Some S'"
    using retry_runs [OF assms(1) plugin_reachable_inv [OF assms(1,2)]] unfolding r by blast
  have u: "replicate 7 e = [e, e, e, e, e, e, e]" for e :: event by (simp add: eval_nat_numeral)
  have "world S' = RIdle \<and> retryQueue (plg S') = xs \<and> x \<in> issued (plg S') \<and> (\<exists>X'. cmds (plg S') x = Some X' \<and> x_path X' = p) \<and>
     (\<exists>D'. devs (plg S') (x_dev X) = Some D' \<and> blocked D' = blocked D - 1 \<and> (blocked D = 1 \<longrightarrow> startTimer D'))"
    using S' w q x p unfolding u
    by (auto simp: ExampleDequeueCommand_def ExamplePathIncRefCount_def ExamplePathDecRefCount_def on_path_def on_dev_def on_cmd_def
      ExampleDeviceIncBusyCount_def ExampleRetryCmd_def hold_path_def hand_over_def active_path_def bind_eq_Some_conv
      dest!: unblock_frame dec_busy_frame)
  with S' show ?thesis by blast
qed


section \<open>Reservations that fail\<close>

text \<open>The number of pending reservations of a device, and its flag \<open>RESERVING\<close>.\<close>

definition resv_view :: "plugin \<Rightarrow> nat \<Rightarrow> (u32 \<times> u32) option" where
  "resv_view s d = map_option (\<lambda>D. (pendingReserves D, d_flags D AND EXAMPLE_DEVICE_RESERVING)) (devs s d)"

definition same_resv :: "plugin \<Rightarrow> plugin \<Rightarrow> bool" where
  "same_resv s s' \<longleftrightarrow> resv_view s' = resv_view s"

interpretation resv: frame same_resv
  by unfold_locales (simp_all add: same_resv_def)

lemma same_resv_views [simp]:
  "same_resv s (s'\<lparr>works := w\<rparr>) = same_resv s s'" "same_resv s (s'\<lparr>retryQueue := w\<rparr>) = same_resv s s'"
  "same_resv s (s'\<lparr>issued := i\<rparr>) = same_resv s s'" "same_resv s (s'\<lparr>scheduled := i\<rparr>) = same_resv s s'"
  "same_resv s (s'\<lparr>completed := a\<rparr>) = same_resv s s'" "same_resv s (s'\<lparr>accepted := a\<rparr>) = same_resv s s'"
  "same_resv s (s'\<lparr>fast_probes := b\<rparr>) = same_resv s s'" "same_resv s (s'\<lparr>pths := m\<rparr>) = same_resv s s'"
  "same_resv s (s'\<lparr>cmds := c\<rparr>) = same_resv s s'" "same_resv s s"
  by (simp_all add: same_resv_def resv_view_def [abs_def])

lemma resv_on_dev:
  assumes "\<And>D. pendingReserves (f D) = pendingReserves D" "\<And>D. d_flags (f D) AND EXAMPLE_DEVICE_RESERVING = d_flags D AND EXAMPLE_DEVICE_RESERVING"
  shows "lv same_resv s (on_dev s d f)"
  using assms by (cases "devs s d") (simp_all add: lv_def on_dev_def same_resv_def resv_view_def [abs_def] fun_eq_iff)

lemma resv_others: "lv same_resv s (on_path s d f)" "lv same_resv s (on_cmd s x g)"
  by (auto simp: lv_def on_path_def on_cmd_def bind_eq_Some_conv)

lemma mask_resv: "(w AND NOT EXAMPLE_DEVICE_RESERVED) AND EXAMPLE_DEVICE_RESERVING = w AND EXAMPLE_DEVICE_RESERVING"
  unfolding EXAMPLE_DEVICE_RESERVED_def EXAMPLE_DEVICE_RESERVING_def by (simp add: and.assoc)

lemmas resv_rules = resv.bind resv.branch resv.base resv_others

lemma resv_Rel: "lv same_resv s (ExampleUpdateDevOnRel s d b)"
  unfolding ExampleUpdateDevOnRel_def
  by (rule resv_rules | rule resv_on_dev | rule resv.read | simp add: mask_resv)+

lemma resv_Sched: "lv same_resv s (ExampleDeviceSchedStart s d)"
  unfolding ExampleDeviceSchedStart_def ExampleDeviceIncBusyCount_def
  by (rule resv_rules | rule resv_on_dev | rule resv.read | simp)+

lemma resv_Start: "lv same_resv s (ExampleDeviceStartCommand al s d)"
proof -
  have "same_resv s s'" if "ExampleDeviceStartCommand al s d = Some s'" for s'
    using that
  proof (rule ExampleDeviceStartCommand.raw_induct [where P = "\<lambda>al s d s'. same_resv s s'", rotated])
    fix start al s d s'
    assume IH: "\<And>al s d s'. start al s d = Some s' \<Longrightarrow> same_resv s s'"
      and e: "devs s d \<bind> (\<lambda>D. if ExampleDevice_IsBlocked D then Some s
         else if al s = NULL then ExampleDeviceSchedStart s d
         else case psa_queue D of [] \<Rightarrow> Some s
           | cmd # rest \<Rightarrow> let x = al s in on_dev s d (\<lambda>D. D\<lparr>psa_queue := rest\<rparr>) \<bind>
             (\<lambda>s. c_assert (\<not> has_flag D EXAMPLE_DEVICE_REMOVING) \<bind> (\<lambda>_.
               start al (s\<lparr>cmds := (cmds s)(x \<mapsto> \<lparr>x_dev = d, x_path = NULL, x_direct = False, x_cmd = cmd\<rparr>),
                 works := works s @ [x], accepted := accepted s @ [cmd]\<rparr>) d))) = Some s'"
    have list: "lv same_resv s (case l of [] \<Rightarrow> a | y # ys \<Rightarrow> b y ys)" if "lv same_resv s a" "\<And>y ys. lv same_resv s (b y ys)"
      for l :: "scsi_cmd list" and a b using that by (cases l) simp_all
    have st: "lv same_resv t (start al (t\<lparr>cmds := c, works := w, accepted := a\<rparr>) d)" for t c w a
      by (rule resv.later [of "t\<lparr>cmds := c, works := w, accepted := a\<rparr>"]) (simp_all add: lv_def IH)
    have "lv same_resv s (Some s')"
      unfolding e [symmetric] Let_def
      by (rule resv_rules list st resv_Sched | rule resv_on_dev | rule resv.read | simp)+
    then show "same_resv s s'" by (simp add: lv_def)
  qed
  then show ?thesis by (simp add: lv_def)
qed

lemma resv_CompleteDevice: "lv same_resv s (ExampleCompleteDeviceCommand api al s x)"
  unfolding ExampleCompleteDeviceCommand_def Let_def ExampleFreeExCommand_def
  by (rule resv_rules resv_Rel | rule resv_on_dev | rule resv.later(1) [OF resv_Start] | rule resv.read | rule resv.result | simp)+

lemma resv_Determine: "lv2 same_resv s (Example_PathDetermineFailure api s x)"
  unfolding Example_PathDetermineFailure_def Let_def
  by (rule resv_rules | rule resv.read)+

lemma resv_ToRetry: "lv same_resv s (ExampleQueueCmdToRetry s x)"
  unfolding ExampleQueueCmdToRetry_def ExampleDevice_Block_def
  by (rule resv_rules | rule resv_on_dev | rule resv.read | rule resv.result | simp)+

lemma resv_paths: "lv same_resv s (deref_path s p)" "lv same_resv s (set_path_state s p st)"
  unfolding deref_path_def ExamplePathDecRefCount_def set_path_state_def by (rule resv_rules | rule resv.read)+

lemma resv_failed:
  assumes x: "cmds s x = Some X" "\<not> is_successful api (c_status (x_cmd X))"
  shows "lv same_resv s (Example_CompletePathCommand api al s x)"
  unfolding Example_CompletePathCommand_def Let_def x(1)
  by (simp only: Option.bind.bind_lunit x(2) if_False)
    (rule resv_rules resv_CompleteDevice resv_Determine resv_ToRetry resv_paths
      | rule resv.read | simp only: prod.case | rule resv.later(1) [OF resv_CompleteDevice] | simp)+

text \<open>
  C40 (failed_reserve_stays_pending) A \<^verbatim>\<open>RESERVE\<close> that fails is not taken off the number of pending
  reservations, which was increased when it was issued, and \<open>RESERVING\<close> stays set: however the command
  fails, its completion changes neither. (The flag makes a later failover reset the logical unit.)
\<close>

theorem failed_reserve_stays_pending:
  assumes "cmds s x = Some X" "\<not> is_successful api (c_status (x_cmd X))" "Example_CompletePathCommand api al s x = Some s'"
    and "devs s d = Some D"
  shows "\<exists>D'. devs s' d = Some D' \<and> pendingReserves D' = pendingReserves D \<and>
    has_flag D' EXAMPLE_DEVICE_RESERVING = has_flag D EXAMPLE_DEVICE_RESERVING"
proof -
  have "resv_view s' d = resv_view s d"
    using resv_failed [OF assms(1,2), of al] assms(3) by (simp add: lv_def same_resv_def)
  with assms(4) show ?thesis by (auto simp: resv_view_def has_flag_def)
qed

section \<open>Task management for the wrong device\<close>

text \<open>
  \<^verbatim>\<open>ExampleDeviceTaskManagement\<close> looks at the commands of all devices
  on the retry queue, but unblocks the device of the request for each that it takes off: if it takes
  off a command of another device, then the assertion in \<^verbatim>\<open>ExampleDevice_Unblock\<close> fails, unless the
  device of the request is blocked itself, and then the wrong device is unblocked.
\<close>

theorem task_management_wrong_device:
  assumes "devs s d = Some D" "retryQueue s = x # xs" "cmds s x = Some X" "x_dev X \<noteq> d" "query (x_cmd X)"
  shows "(blocked D = 0 \<longrightarrow> ExampleDeviceTaskManagement api al query st reset answer s d = None) \<and>
    (blocked D > 0 \<longrightarrow> (\<exists>s1 D1. tm_collect query [x] s d [] = Some (s1, [x]) \<and> devs s1 d = Some D1 \<and>
      blocked D1 = blocked D - 1 \<and> devs s1 (x_dev X) = devs s (x_dev X)))"
proof (intro conjI impI)
  assume "blocked D = 0"
  then show "ExampleDeviceTaskManagement api al query st reset answer s d = None"
    using assms by (simp add: ExampleDeviceTaskManagement_def ExampleDevice_Unblock_def ExampleDevice_IsBlocked_def)
next
  assume b: "blocked D > 0"
  let ?s = "s\<lparr>retryQueue := removeAll x xs\<rparr>"
  have "ExampleDevice_Unblock ?s d \<noteq> None"
    using assms(1) b by (simp add: ExampleDevice_Unblock_def ExampleDevice_IsBlocked_def ExampleDeviceSchedStart_def
      ExampleDeviceIncBusyCount_def on_dev_def)
  then obtain s1 where s1: "ExampleDevice_Unblock ?s d = Some s1" by blast
  from unblock_frame [OF s1, of D] assms(1) obtain D1 where "s1 = ?s\<lparr>devs := (devs s)(d \<mapsto> D1)\<rparr>" "blocked D1 = blocked D - 1" by auto
  then show "\<exists>s1 D1. tm_collect query [x] s d [] = Some (s1, [x]) \<and> devs s1 d = Some D1 \<and>
      blocked D1 = blocked D - 1 \<and> devs s1 (x_dev X) = devs s (x_dev X)"
    using assms s1 by simp
qed

section \<open>Requests to the cache box\<close>


section \<open>Examples\<close>

text \<open>The heap has room for a single command.\<close>

definition sample_env :: environment where
  "sample_env = \<lparr>e_api = sample_api, e_heap = (\<lambda>s. if cmds s = Map.empty then 100 else NULL), e_split = (\<lambda>xs. (take 1 xs, drop 1 xs))\<rparr>"

definition sample_system :: system where
  "sample_system = \<lparr>plg = sample_plugin PATH_ON, world = RIdle, reserved = 0\<rparr>"

lemma sample_env_ok: "environment_ok sample_env"
  by (simp add: environment_ok_def sample_env_def fresh_heap_def splits_def flip: mset_append)

lemma sample_initial: "initial sample_system"
  by (auto simp: initial_def sample_system_def sample_plugin_def idle_device_def sample_device_def sample_path_def ran_def path_ok_def)

lemma sample_reachable: "reachable sample_env sample_system"
  by (rule reachable.start [OF sample_initial])

text \<open>A command that has been submitted, started and issued.\<close>

lemmas sample_defs = sample_env_def sample_system_def sample_plugin_def sample_device_def sample_path_def sample_cmd_def

lemma sample_run:
  "\<exists>S. runs sample_env [Submit 1 (sample_cmd 7 READ10), Start 1, Issue 100 VMK_OK] sample_system = Some S \<and>
     issued (plg S) = {100} \<and> completed (plg S) = [] \<and> works (plg S) = [] \<and> retryQueue (plg S) = [] \<and> scheduled (plg S) = {} \<and>
     world S = RIdle \<and> devs (plg S) 1 \<noteq> None \<and> cmd_of (plg S) 100 = Some (sample_cmd 7 READ10)"
  by (simp add: sample_defs upd_def usable_def on_dev_def on_path_def on_cmd_def ExampleDeviceStartCommand.simps issue_cmd_def
     ExampleIssueCommand_def ExampleDevice_IsBlocked_def Let_def has_flag_def EXAMPLE_DEVICE_REMOVING_def unlinked_def active_path_def nth_opt_def
     hold_path_def note_reserve_def hand_over_def ExamplePathIncRefCount_def ExampleDeviceSchedStart_def ExampleDeviceIncBusyCount_def cmd_of_def)


definition no_connect :: "scsi_cmd \<Rightarrow> scsi_cmd" where
  "no_connect c = c\<lparr>c_status := \<lparr>st_device = DEVICE_GOOD, st_host = HOST_NO_CONNECT, st_plugin = PLUGIN_GOOD\<rparr>\<rparr>"

lemma update_loop_nulls: "update_state_loop s cur (replicate n NULL) a b = Some (Inr (a, b))"
  by (induct n) simp_all

lemma sample_run_retry:
  "\<exists>S X D P. runs sample_env [Submit 1 (sample_cmd 7 READ10), Start 1, Issue 100 VMK_OK,
      Complete 100 (no_connect (sample_cmd 7 READ10)), SetState 11 PATH_ON (\<lambda>s p. sample_tur)] sample_system = Some S \<and>
     world S = RIdle \<and> retryQueue (plg S) = [100] \<and> cmds (plg S) 100 = Some X \<and> x_dev X = 1 \<and>
     devs (plg S) 1 = Some D \<and> active_path D = Some 11 \<and> pths (plg S) 11 = Some P \<and> p_state P = PATH_ON"
  by (simp add: sample_defs upd_def usable_def on_dev_def on_path_def on_cmd_def ExampleDeviceStartCommand.simps issue_cmd_def
     ExampleIssueCommand_def ExampleDevice_IsBlocked_def Let_def has_flag_def EXAMPLE_DEVICE_REMOVING_def unlinked_def active_path_def nth_opt_def
     hold_path_def note_reserve_def hand_over_def ExamplePathIncRefCount_def ExampleDeviceSchedStart_def ExampleDeviceIncBusyCount_def cmd_of_def
     same_cmd_def no_connect_def complete_def Example_CompletePathCommand_def sample_api_def Example_PathDetermineFailure_def host_action_def
     set_path_state_def ExampleQueueCmdToRetry_def ExampleDevice_Block_def deref_path_def ExamplePathDecRefCount_def)
    (simp add: may_probe_def has_flag_def EXAMPLE_DEVICE_REGISTERED_def ran_def ExamplePathSetState_def ExampleProbePath_def ExampleUpdatePathState_def probe_verdict_def sample_tur_def sample_cmd_def
     set_path_state_def on_path_def on_dev_def ExampleDeviceUpdateState_def update_loop_nulls, intro exI conjI impI, rule refl, simp_all)

lemma sample_reached:
  obtains S D where "reachable sample_env S" "issued (plg S) = {100}" "completed (plg S) = []" "works (plg S) = []"
    "retryQueue (plg S) = []" "scheduled (plg S) = {}" "world S = RIdle" "devs (plg S) 1 = Some D"
    "cmd_of (plg S) 100 = Some (sample_cmd 7 READ10)"
  using sample_run runs_reachable [OF sample_reachable] by blast


lemma plugin_commands_conserved_witness:
  "\<exists>S :: system. issued (plg S) = {100} \<and> completed (plg S) = [] \<and> mset (map c_id (accepted (plg S))) = {#7#} \<and> retryQueue (plg S) = []"
proof -
  obtain S D where S: "reachable sample_env S" "issued (plg S) = {100}" "completed (plg S) = []" "works (plg S) = []"
    "retryQueue (plg S) = []" "scheduled (plg S) = {}" "world S = RIdle" "devs (plg S) 1 = Some D"
    "cmd_of (plg S) 100 = Some (sample_cmd 7 READ10)" by (rule sample_reached)
  note c = plugin_commands_conserved [OF sample_env_ok S(1)]
  have "x \<in> dom (cmds (plg S)) \<longleftrightarrow> x = 100" for x
    using spec [OF conjunct2 [OF c], of x] S(2-7) by (simp add: of_bool_eq_iff)
  then have "dom (cmds (plg S)) = {100}" by auto
  moreover obtain X where "cmds (plg S) 100 = Some X" "c_id (x_cmd X) = 7" using S(9) by (auto simp: cmd_of_def sample_cmd_def)
  ultimately have "mset (map c_id (accepted (plg S))) = {#7#}" using conjunct1 [OF c] S(3) by simp
  with S(2,3,5) show ?thesis by - (intro exI [of _ S] conjI, assumption+)
qed



lemma retry_round_witness:
  "\<exists>(S :: system) S'. retryQueue (plg S) = [100] \<and> runs sample_env (replicate 7 (Retry VMK_OK)) S = Some S' \<and> retryQueue (plg S') = [] \<and> 100 \<in> issued (plg S')"
proof -
  obtain S X D P where S: "runs sample_env [Submit 1 (sample_cmd 7 READ10), Start 1, Issue 100 VMK_OK,
      Complete 100 (no_connect (sample_cmd 7 READ10)), SetState 11 PATH_ON (\<lambda>s p. sample_tur)] sample_system = Some S"
    "world S = RIdle" "retryQueue (plg S) = [100]" "cmds (plg S) 100 = Some X" "x_dev X = 1"
    "devs (plg S) 1 = Some D" "active_path D = Some 11" "pths (plg S) 11 = Some P" "p_state P = PATH_ON"
    using sample_run_retry by blast
  have "devs (plg S) (x_dev X) = Some D" using S by simp
  from retry_round [OF sample_env_ok runs_reachable [OF sample_reachable S(1)] S(2-4) this S(7-9)] S(3) show ?thesis by blast
qed

text \<open>A reservation that the layer below has aborted.\<close>

definition sample_reserve :: plugin where
  "sample_reserve = (sample_plugin PATH_ON)\<lparr>
     devs := [1 \<mapsto> sample_device\<lparr>d_flags := 0x11, activeCmdCount := 1, pendingReserves := 1, resPath := 11, resvSensitiveCmdQueue := [100]\<rparr>],
     pths := [11 \<mapsto> (sample_path PATH_ON)\<lparr>p_refCount := 1, p_activeCmdCount := 1\<rparr>],
     cmds := [100 \<mapsto> \<lparr>x_dev = 1, x_path = 11, x_direct = False,
       x_cmd = (sample_cmd 7 RESERVE_UNIT)\<lparr>c_status := \<lparr>st_device = DEVICE_GOOD, st_host = HOST_ABORT, st_plugin = PLUGIN_GOOD\<rparr>\<rparr>\<rparr>]\<rparr>"

lemma failed_reserve_stays_pending_witness:
  "\<exists>s' D'. Example_CompletePathCommand sample_api (\<lambda>s. NULL) sample_reserve 100 = Some s' \<and> devs s' 1 = Some D' \<and>
     pendingReserves D' = 1 \<and> has_flag D' EXAMPLE_DEVICE_RESERVING"
proof -
  obtain s' where s': "Example_CompletePathCommand sample_api (\<lambda>s. NULL) sample_reserve 100 = Some s'"
    by (simp add: sample_reserve_def sample_defs Example_CompletePathCommand_def sample_api_def Example_PathDetermineFailure_def host_action_def
      ExampleCompleteDeviceCommand_def ExampleFreeExCommand_def unlinked_def ExampleDeviceStartCommand.simps ExampleDevice_IsBlocked_def
      ExampleDeviceSchedStart_def ExampleDeviceIncBusyCount_def deref_path_def ExamplePathDecRefCount_def on_dev_def on_path_def Let_def)
  obtain X D where X: "cmds sample_reserve 100 = Some X" "\<not> is_successful sample_api (c_status (x_cmd X))"
    "devs sample_reserve 1 = Some D" "pendingReserves D = 1" "has_flag D EXAMPLE_DEVICE_RESERVING"
    by (simp add: sample_reserve_def sample_api_def sample_cmd_def has_flag_def EXAMPLE_DEVICE_RESERVING_def)
  from failed_reserve_stays_pending [OF X(1,2) s' X(3)] s' X show ?thesis by auto
qed

lemma task_management_wrong_device_witness:
  "ExampleDeviceTaskManagement sample_api (\<lambda>s. NULL) (\<lambda>c. c_id c = 7) (c_status (sample_cmd 7 READ10)) False (\<lambda>p. VMK_OK)
     ((sample_plugin PATH_ON)\<lparr>retryQueue := [100], cmds := [100 \<mapsto> \<lparr>x_dev = 2, x_path = 21, x_direct = False, x_cmd = sample_cmd 7 READ10\<rparr>]\<rparr>) 1 = None"
proof -
  let ?X = "\<lparr>x_dev = 2, x_path = 21, x_direct = False, x_cmd = sample_cmd 7 READ10\<rparr>"
  let ?s = "(sample_plugin PATH_ON)\<lparr>retryQueue := [100], cmds := [100 \<mapsto> ?X]\<rparr>"
  have "devs ?s 1 = Some sample_device" "retryQueue ?s = [100]" "cmds ?s 100 = Some ?X" "x_dev ?X \<noteq> 1" "c_id (x_cmd ?X) = 7"
    by (simp_all add: sample_plugin_def sample_cmd_def)
  from task_management_wrong_device [of ?s 1 sample_device 100 "[]" ?X "\<lambda>c. c_id c = 7", OF this] show ?thesis
    by (simp add: sample_device_def)
qed


end
