(* ===== verification/Plugin_Claim.thy ===== *)
theory Plugin_Claim
  imports Plugin_Probe "HOL-Library.Multiset"
begin

text \<open>
  Claiming and unclaiming of paths: how paths and devices come and go. \<open>createdDevices\<close> is the array of
  the source, with 0 for an empty slot; its length is \<^verbatim>\<open>maxDevices\<close>. A path is identified with its
  \<^verbatim>\<open>ExamplePath\<close>, which it has when it is in \<open>pths\<close>. Whether there is memory, whether a lock could be
  created, and what the SCSI layer answers are arguments.
\<close>

section \<open>Paths\<close>

text \<open>\<open>mem\<close> tells whether there is memory, \<open>lock\<close> is the result of creating the lock, \<open>st\<close> the state of the path.\<close>

definition ExampleCreateExPath ::
  "bool \<Rightarrow> VMK_ReturnStatus \<Rightarrow> path_state \<Rightarrow> plugin \<Rightarrow> nat \<Rightarrow> plugin \<times> VMK_ReturnStatus" where
  "ExampleCreateExPath mem lock st s p =
     (if \<not> mem then (s, VMK_NO_MEMORY)
      else if lock \<noteq> VMK_OK then (s, lock)
      else (s\<lparr>pths := (pths s)(p \<mapsto> \<lparr>p_state = st, p_dev = NULL, p_isPDL = False, p_activeCmdCount = 0, p_refCount = 0\<rparr>)\<rparr>,
            VMK_OK))"

definition ExampleDestroyExPath :: "plugin \<Rightarrow> nat \<Rightarrow> plugin option" where
  "ExampleDestroyExPath s p = do {
     P \<leftarrow> pths s p;
     c_assert (p_activeCmdCount P = 0);
     Some (s\<lparr>pths := (pths s)(p := None)\<rparr>)
   }"

section \<open>Devices\<close>

text \<open>The index of the first empty slot of a list that starts at index \<open>i\<close>, or the index after its end.\<close>

primrec empty_slot :: "nat list \<Rightarrow> nat \<Rightarrow> nat" where
  "empty_slot [] i = i"
| "empty_slot (e # es) i = (if e = NULL then i else empty_slot es (Suc i))"

text \<open>The array of devices is searched from index 1 on. \<open>d\<close> is the address of the new device, 0 for no memory.\<close>

definition ExampleCreateDevice ::
  "nat \<Rightarrow> VMK_ReturnStatus \<Rightarrow> plugin \<Rightarrow> nat \<Rightarrow> (plugin \<times> VMK_ReturnStatus) option" where
  "ExampleCreateDevice d lock s uid =
     (if d = NULL then Some (s, VMK_NO_MEMORY)
      else if lock \<noteq> VMK_OK then Some (s, lock)
      else do {
        let i = empty_slot (drop 1 (createdDevices s)) 1;
        if i = length (createdDevices s) then Some (s, VMK_NO_RESOURCES)
        else do {
          c_assert (i < length (createdDevices s));
          Some (s\<lparr>devs := (devs s)(d \<mapsto>
              \<lparr>d_flags = 0, busyCount = 0, blocked = 0, inProbe = False, openCount = 0, numPaths = 0,
               activePathIndex = 0, d_paths = replicate 16 NULL, activeCmdCount = 0, pendingReserves = 0,
               resPath = NULL, startTimer = False, resvSensitiveCmdQueue = [], resvSensitiveAbtQueue = [],
               resvUpdateInProgress = False, resvGen = 0, d_state = DEV_ON, d_uid = uid, d_index = i,
               d_device = False, psa_queue = []\<rparr>),
             createdDevices := (createdDevices s)[i := d]\<rparr>, VMK_OK)
        }
      })"


section \<open>Claiming a path\<close>

text \<open>The first device with the given identity in a list of slots, and whether a slot before it is empty.\<close>

primrec find_uid :: "plugin \<Rightarrow> nat \<Rightarrow> nat list \<Rightarrow> bool \<Rightarrow> (nat option \<times> bool) option" where
  "find_uid s uid [] free = Some (None, free)"
| "find_uid s uid (e # es) free =
     (if e = NULL then find_uid s uid es True
      else do {
        E \<leftarrow> devs s e;
        if d_uid E = uid then Some (Some e, free) else find_uid s uid es free
      })"

definition find_or_create ::
  "nat \<Rightarrow> VMK_ReturnStatus \<Rightarrow> plugin \<Rightarrow> nat \<Rightarrow> (plugin \<times> VMK_ReturnStatus \<times> nat) option" where
  "find_or_create d lock s uid = do {
     (found, free) \<leftarrow> find_uid s uid (createdDevices s) False;
     case found of
       Some e \<Rightarrow> Some (s, VMK_OK, e)
     | None \<Rightarrow>
         if free then do {
           (s, status) \<leftarrow> ExampleCreateDevice d lock s uid;
           Some (s, status, d)
         } else Some (s, VMK_NO_RESOURCES, NULL)
   }"

text \<open>The path is put into the first empty slot of the device; the result tells whether there was one.\<close>

definition add_path :: "plugin \<Rightarrow> nat \<Rightarrow> nat \<Rightarrow> (plugin \<times> bool) option" where
  "add_path s d p = do {
     D \<leftarrow> devs s d;
     let i = empty_slot (d_paths D) 0;
     if i = EXAMPLE_MAX_PATHS_PER_DEVICE then Some (s, False)
     else do {
       c_assert (i < length (d_paths D));
       s \<leftarrow> on_dev s d (\<lambda>D. D\<lparr>d_paths := (d_paths D)[i := p], numPaths := numPaths D + 1\<rparr>);
       s \<leftarrow> on_path s p (\<lambda>P. P\<lparr>p_dev := d\<rparr>);
       Some (s, True)
     }
   }"

text \<open>The rest of claiming, when the device is known.\<close>

definition claim_tail :: "plugin \<Rightarrow> nat \<Rightarrow> nat \<Rightarrow> (plugin \<times> VMK_ReturnStatus \<times> bool option) option" where
  "claim_tail s d p = do {
     (s, added) \<leftarrow> add_path s d p;
     if \<not> added then do { s \<leftarrow> ExampleDestroyExPath s p; Some (s, VMK_NO_RESOURCES, None) }
     else do {
       D \<leftarrow> devs s d;
       s \<leftarrow> (if has_flag D EXAMPLE_DEVICE_REGISTERED then do {
              c_assert (d_device D);
              on_dev s d (\<lambda>D. D\<lparr>d_flags := d_flags D OR EXAMPLE_DEVICE_NEEDS_UPDATE\<rparr>)
            } else Some s);
       Some (s, VMK_OK, Some True)
     }
   }"

text \<open>
  \<^verbatim>\<open>ExampleClaimPath\<close>; \<open>uid\<close> is the identity of the device behind the path, or \<^term>\<open>None\<close> when there is no
  memory for it. The last part of the result is what \<open>claimed\<close> is set to, if it is set.
\<close>

record claim_env =
  lun :: nat
  path_mem :: bool
  path_lock :: VMK_ReturnStatus
  path_uid :: "nat option"
  dev_addr :: nat
  dev_lock :: VMK_ReturnStatus

definition ExampleClaimPath ::
  "bool \<Rightarrow> claim_env \<Rightarrow> path_state \<Rightarrow> plugin \<Rightarrow> nat \<Rightarrow> (plugin \<times> VMK_ReturnStatus \<times> bool option) option" where
  "ExampleClaimPath claiming env st s p = do {
     c_assert claiming;
     if lun env \<noteq> 1 then Some (s, VMK_OK, Some False)
     else do {
       let (s, status) = ExampleCreateExPath (path_mem env) (path_lock env) st s p;
       if status \<noteq> VMK_OK then Some (s, status, None)
       else (case path_uid env of
           None \<Rightarrow> do { s \<leftarrow> ExampleDestroyExPath s p; Some (s, VMK_NO_MEMORY, None) }
         | Some uid \<Rightarrow> do {
             (s, status, d) \<leftarrow> find_or_create (dev_addr env) (dev_lock env) s uid;
             if status \<noteq> VMK_OK then do { s \<leftarrow> ExampleDestroyExPath s p; Some (s, status, None) }
             else claim_tail s d p
           })
     }
   }"

section \<open>Registering the devices\<close>

text \<open>
  The body of the loop of \<^verbatim>\<open>ExamplePathClaimEnd\<close> for the device \<open>d\<close>: \<open>alloc\<close> tells whether the SCSI layer can
  allocate a device, \<open>register\<close> is its answer to the registration. The last part of the result tells
  whether the function returns.
\<close>

definition claim_end_device ::
  "scsi_api \<Rightarrow> (plugin \<Rightarrow> nat \<Rightarrow> tur_answer) \<Rightarrow> bool \<Rightarrow> VMK_ReturnStatus \<Rightarrow> plugin \<Rightarrow> nat \<Rightarrow> VMK_ReturnStatus \<Rightarrow>
   (plugin \<times> VMK_ReturnStatus \<times> bool) option" where
  "claim_end_device api tur alloc register s d status = do {
     D \<leftarrow> devs s d;
     if has_flag D EXAMPLE_DEVICE_REGISTERED then
       if has_flag D EXAMPLE_DEVICE_NEEDS_UPDATE then do {
         s \<leftarrow> on_dev s d (\<lambda>D. D\<lparr>d_flags := d_flags D AND NOT EXAMPLE_DEVICE_NEEDS_UPDATE\<rparr>);
         (s, status) \<leftarrow> ExampleDeviceProbe 2 api tur s d;
         Some (if status \<noteq> VMK_OK then s\<lparr>fast_probes := fast_probes s @ [d]\<rparr> else s, status, False)
       } else Some (s, status, False)
     else if \<not> alloc then Some (s, VMK_NO_MEMORY, False)
     else do {
       s \<leftarrow> on_dev s d (\<lambda>D. D\<lparr>d_device := True\<rparr>);
       (s, status) \<leftarrow> ExampleDeviceProbe 2 api tur s d;
       if status \<noteq> VMK_OK then do {
         s \<leftarrow> on_dev s d (\<lambda>D. D\<lparr>d_device := False\<rparr>);
         Some (s, status, True)
       } else if register = VMK_OK then do {
         s \<leftarrow> on_dev s d (\<lambda>D. D\<lparr>d_flags := d_flags D OR EXAMPLE_DEVICE_REGISTERED\<rparr>);
         Some (s, register, False)
       } else do {
         s \<leftarrow> on_dev s d (\<lambda>D. D\<lparr>d_device := False\<rparr>);
         Some (s, register, False)
       }
     }
   }"

primrec claim_end_loop ::
  "scsi_api \<Rightarrow> (plugin \<Rightarrow> nat \<Rightarrow> tur_answer) \<Rightarrow> (nat \<Rightarrow> bool) \<Rightarrow> (nat \<Rightarrow> VMK_ReturnStatus) \<Rightarrow> nat list \<Rightarrow> plugin \<Rightarrow> VMK_ReturnStatus \<Rightarrow>
   (plugin \<times> VMK_ReturnStatus) option" where
  "claim_end_loop api tur alloc register [] s status = Some (s, status)"
| "claim_end_loop api tur alloc register (i # is) s status = do {
     d \<leftarrow> nth_opt (createdDevices s) i;
     if d = NULL then claim_end_loop api tur alloc register is s status
     else do {
       (s, status, return) \<leftarrow> claim_end_device api tur (alloc d) (register d) s d status;
       if return then Some (s, status) else claim_end_loop api tur alloc register is s status
     }
   }"

definition ExamplePathClaimEnd ::
  "bool \<Rightarrow> scsi_api \<Rightarrow> (plugin \<Rightarrow> nat \<Rightarrow> tur_answer) \<Rightarrow> (nat \<Rightarrow> bool) \<Rightarrow> (nat \<Rightarrow> VMK_ReturnStatus) \<Rightarrow> plugin \<Rightarrow>
   (plugin \<times> VMK_ReturnStatus) option" where
  "ExamplePathClaimEnd claiming api tur alloc register s = do {
     c_assert claiming;
     claim_end_loop api tur alloc register [0..<length (createdDevices s)] s VMK_OK
   }"

section \<open>Unclaiming a path\<close>








section \<open>What claiming keeps\<close>

text \<open>The paths of a device.\<close>

definition slots :: "ExampleDevice \<Rightarrow> nat list" where
  "slots D = filter (\<lambda>q. q \<noteq> NULL) (d_paths D)"

definition slots_ok :: "plugin \<Rightarrow> nat \<Rightarrow> ExampleDevice \<Rightarrow> bool" where
  "slots_ok s d D \<longleftrightarrow> path_ok D \<and> unat (numPaths D) = length (slots D) \<and> distinct (slots D) \<and>
     (\<forall>q \<in> set (slots D). \<exists>P. pths s q = Some P \<and> p_dev P = d) \<and> d_paths D ! unat (activePathIndex D) \<noteq> NULL"

text \<open>The array of devices; its first slot is not used.\<close>

definition array_ok :: "plugin \<Rightarrow> bool" where
  "array_ok s \<longleftrightarrow> createdDevices s \<noteq> [] \<and> createdDevices s ! 0 = NULL \<and>
     (\<forall>i < length (createdDevices s). createdDevices s ! i \<noteq> NULL \<longrightarrow> (\<exists>D. devs s (createdDevices s ! i) = Some D \<and> d_index D = i)) \<and>
     (\<forall>d D. devs s d = Some D \<longrightarrow> d \<noteq> NULL \<and> d_index D < length (createdDevices s) \<and> createdDevices s ! d_index D = d) \<and>
     (\<forall>d D e E. devs s d = Some D \<longrightarrow> devs s e = Some E \<longrightarrow> d_uid D = d_uid E \<longrightarrow> d = e)"

definition dev_rest :: "ExampleDevice \<Rightarrow> bool" where
  "dev_rest D \<longleftrightarrow> \<not> has_flag D EXAMPLE_DEVICE_REMOVING \<and> (has_flag D EXAMPLE_DEVICE_REGISTERED \<longrightarrow> d_device D) \<and>
     (openCount D = 0 \<longrightarrow> resvSensitiveCmdQueue D = [])"

definition owned :: "plugin \<Rightarrow> bool" where
  "owned s \<longleftrightarrow> NULL \<notin> dom (pths s) \<and> (\<forall>p P. pths s p = Some P \<longrightarrow> (\<exists>D. devs s (p_dev P) = Some D \<and> p \<in> set (slots D)))"

definition claims_ok :: "plugin \<Rightarrow> bool" where
  "claims_ok s \<longleftrightarrow> array_ok s \<and> owned s \<and> (\<forall>d D. devs s d = Some D \<longrightarrow> slots_ok s d D \<and> dev_rest D)"

lemma empty_slot_first:
  "empty_slot es k \<le> k + length es \<and>
   (empty_slot es k < k + length es \<longrightarrow> k \<le> empty_slot es k \<and> es ! (empty_slot es k - k) = NULL) \<and>
   (\<forall>j < empty_slot es k - k. es ! j \<noteq> NULL) \<and>
   (empty_slot es k = k + length es \<longrightarrow> NULL \<notin> set es)"
proof (induct es arbitrary: k)
  case (Cons e es)
  show ?case
  proof (cases "e = NULL")
    case False
    have n: "\<forall>j < empty_slot es (Suc k) - k. (e # es) ! j \<noteq> NULL"
    proof (intro allI impI)
      fix j assume "j < empty_slot es (Suc k) - k"
      then show "(e # es) ! j \<noteq> NULL" using Cons [of "Suc k"] False by (cases j) auto
    qed
    from Cons [of "Suc k"] n False show ?thesis by (auto simp: nth_Cons' Suc_diff_le)
  qed simp
qed simp

lemma find_uid_eq:
  assumes "\<forall>e \<in> set es. e \<noteq> NULL \<longrightarrow> devs s e \<noteq> None"
  shows "\<exists>found free'. find_uid s uid es free = Some (found, free') \<and>
    (\<forall>e. found = Some e \<longrightarrow> e \<in> set es \<and> e \<noteq> NULL \<and> d_uid (the (devs s e)) = uid) \<and>
    (found = None \<longrightarrow> free' = (free \<or> NULL \<in> set es) \<and> (\<forall>e \<in> set es. e \<noteq> NULL \<longrightarrow> d_uid (the (devs s e)) \<noteq> uid))"
  using assms
proof (induct es arbitrary: free)
  case (Cons e es)
  have h: "\<forall>e \<in> set es. e \<noteq> NULL \<longrightarrow> devs s e \<noteq> None" using Cons.prems by simp
  show ?case
  proof (cases "e = NULL")
    case True
    with Cons.hyps [OF h, of True] show ?thesis by simp blast
  next
    case False
    then obtain E where "devs s e = Some E" using Cons.prems by auto
    with False Cons.hyps [OF h, of free] show ?thesis by (cases "d_uid E = uid") (simp, simp, blast)
  qed
qed simp

lemma filter_update_null:
  "i < length ps \<Longrightarrow> ps ! i = NULL \<Longrightarrow> p \<noteq> NULL \<Longrightarrow>
   mset (filter (\<lambda>q. q \<noteq> NULL) (ps[i := p])) = add_mset p (mset (filter (\<lambda>q. q \<noteq> NULL) ps))"
  by (simp add: mset_filter mset_update)


lemma slots_add:
  assumes "i < length (d_paths D)" "d_paths D ! i = NULL" "p \<noteq> NULL" "p \<notin> set (slots D)" "distinct (slots D)"
    and D': "d_paths D' = (d_paths D)[i := p]"
  shows "distinct (slots D') \<and> set (slots D') = insert p (set (slots D)) \<and> length (slots D') = Suc (length (slots D))"
proof -
  have m: "mset (slots D') = add_mset p (mset (slots D))"
    unfolding slots_def D' by (rule filter_update_null [OF assms(1-3)])
  then have "mset (slots D') = mset (p # slots D)" by simp
  then show ?thesis using assms(4,5) by (metis distinct.simps(2) list.simps(15) mset_eq_imp_distinct_iff mset_eq_length mset_eq_setD length_Cons)
qed






lemma claimsD:
  assumes "claims_ok s" "devs s d = Some D"
  shows "slots_ok s d D" "dev_rest D"
  using assms by (simp_all add: claims_ok_def)

text \<open>A device is found or created.\<close>

lemma new_device:
  assumes a: "array_ok s" and n: "\<forall>e \<in> set (createdDevices s). e \<noteq> NULL \<longrightarrow> d_uid (the (devs s e)) \<noteq> uid"
    and d: "d \<noteq> NULL" "devs s d = None"
  shows "\<exists>s' status. ExampleCreateDevice d lock s uid = Some (s', status) \<and>
    (status \<noteq> VMK_OK \<longrightarrow> s' = s) \<and>
    (status = VMK_OK \<longrightarrow> array_ok s' \<and> (\<exists>N i. s' = s\<lparr>devs := (devs s)(d \<mapsto> N), createdDevices := (createdDevices s)[i := d]\<rparr> \<and>
        d_paths N = replicate 16 NULL \<and> d_uid N = uid \<and> numPaths N = 0 \<and> activePathIndex N = 0 \<and> d_flags N = 0 \<and> openCount N = 0 \<and>
        resvSensitiveCmdQueue N = []))"
proof -
  let ?c = "createdDevices s" and ?i = "empty_slot (drop 1 (createdDevices s)) 1"
  have c: "?c \<noteq> []" "?c ! 0 = NULL" using a by (auto simp: array_ok_def)
  note e = empty_slot_first [of "drop 1 ?c" 1]
  show ?thesis
  proof (cases "lock = VMK_OK \<and> ?i \<noteq> length ?c")
    case False
    have "VMK_NO_RESOURCES \<noteq> VMK_OK" by simp
    with False d show ?thesis by (auto simp: ExampleCreateDevice_def Let_def)
  next
    case True
    have l: "1 + length (drop 1 ?c) = length ?c" using c(1) by simp
    have i: "?i < length ?c" "1 \<le> ?i" using e True unfolding l by auto
    then have z: "?c ! ?i = NULL" using e unfolding l by simp
    define N where "N = \<lparr>d_flags = 0, busyCount = 0, blocked = 0, inProbe = False, openCount = 0, numPaths = 0,
               activePathIndex = 0, d_paths = replicate 16 NULL, activeCmdCount = 0, pendingReserves = 0,
               resPath = NULL, startTimer = False, resvSensitiveCmdQueue = [], resvSensitiveAbtQueue = [],
               resvUpdateInProgress = False, resvGen = 0, d_state = DEV_ON, d_uid = uid, d_index = ?i,
               d_device = False, psa_queue = []\<rparr>"
    let ?s = "s\<lparr>devs := (devs s)(d \<mapsto> N), createdDevices := ?c[?i := d]\<rparr>"
    have r: "ExampleCreateDevice d lock s uid = Some (?s, VMK_OK)"
      using True d i by (simp add: ExampleCreateDevice_def Let_def N_def)
    have ix: "devs s e = Some E \<Longrightarrow> d_index E < length ?c \<and> ?c ! d_index E = e \<and> e \<noteq> NULL" for e E using a by (simp add: array_ok_def)
    have un: "d_uid E \<noteq> uid" if E: "devs s e = Some E" for e E
    proof -
      have "e \<in> set ?c" "e \<noteq> NULL" using ix [OF E] by (metis nth_mem)+
      with n E show ?thesis by auto
    qed
    have "array_ok ?s"
      unfolding array_ok_def
    proof (intro conjI allI impI)
      show "createdDevices ?s \<noteq> []" "createdDevices ?s ! 0 = NULL" using c i by simp_all
    next
      fix k assume k: "k < length (createdDevices ?s)" "createdDevices ?s ! k \<noteq> NULL"
      show "\<exists>D. devs ?s (createdDevices ?s ! k) = Some D \<and> d_index D = k"
      proof (cases "k = ?i")
        case True
        then show ?thesis using i by (simp add: N_def)
      next
        case False
        then have "?c ! k \<noteq> NULL" "k < length ?c" using k by simp_all
        then obtain D where D: "devs s (?c ! k) = Some D" "d_index D = k" using a unfolding array_ok_def by blast
        then have "?c ! k \<noteq> d" using d(2) by auto
        with D False show ?thesis by simp
      qed
    next
      fix e E assume E: "devs ?s e = Some E"
      show "e \<noteq> NULL" using E ix d(1) by (auto split: if_splits)
      show "d_index E < length (createdDevices ?s)" using E ix i by (auto simp: N_def split: if_splits)
      show "createdDevices ?s ! d_index E = e"
      proof (cases "e = d")
        case True
        then show ?thesis using E i by (auto simp: N_def)
      next
        case False
        then have "devs s e = Some E" using E by simp
        then have "d_index E \<noteq> ?i" "?c ! d_index E = e" using ix z by metis+
        then show ?thesis by simp
      qed
    next
      fix e E g H assume "devs ?s e = Some E" "devs ?s g = Some H" "d_uid E = d_uid H"
      moreover have "d_uid N = uid" by (simp add: N_def)
      moreover have "devs s e = Some E \<Longrightarrow> devs s g = Some H \<Longrightarrow> d_uid E = d_uid H \<Longrightarrow> e = g"
        using a unfolding array_ok_def by blast
      ultimately show "e = g" using un by (auto split: if_splits)
    qed
    moreover have "d_paths N = replicate 16 NULL \<and> d_uid N = uid \<and> numPaths N = 0 \<and> activePathIndex N = 0 \<and> d_flags N = 0 \<and>
        openCount N = 0 \<and> resvSensitiveCmdQueue N = []" by (simp add: N_def)
    ultimately show ?thesis using r by blast
  qed
qed

text \<open>A path is added to a device.\<close>

lemma array_dev:
  assumes "array_ok s" "devs s d = Some D" "d_index D' = d_index D" "d_uid D' = d_uid D"
    and "devs s' = (devs s)(d \<mapsto> D')" "createdDevices s' = createdDevices s"
  shows "array_ok s'"
proof -
  let ?c = "createdDevices s"
  have bwd: "\<exists>E'. devs s e = Some E' \<and> d_index E' = d_index E \<and> d_uid E' = d_uid E" if "devs s' e = Some E" for e E
    using that assms by (cases "e = d") auto
  have fwd: "\<exists>E'. devs s' e = Some E' \<and> d_index E' = d_index E" if "devs s e = Some E" for e E
    using that assms by (cases "e = d") auto
  show ?thesis
    unfolding array_ok_def assms(6)
  proof (intro conjI allI impI)
    show "?c \<noteq> []" "?c ! 0 = NULL" using assms(1) by (simp_all add: array_ok_def)
  next
    fix i assume "i < length ?c" "?c ! i \<noteq> NULL"
    then obtain E where "devs s (?c ! i) = Some E" "d_index E = i" using assms(1) unfolding array_ok_def by blast
    with fwd [OF this(1)] show "\<exists>E. devs s' (?c ! i) = Some E \<and> d_index E = i" by auto
  next
    fix e E assume "devs s' e = Some E"
    then obtain E' where "devs s e = Some E'" "d_index E' = d_index E" using bwd by blast
    moreover from this(1) have "e \<noteq> NULL \<and> d_index E' < length ?c \<and> ?c ! d_index E' = e"
      using assms(1) unfolding array_ok_def by blast
    ultimately show "e \<noteq> NULL" "d_index E < length ?c" "?c ! d_index E = e" by simp_all
  next
    fix e E g H assume "devs s' e = Some E" "devs s' g = Some H" "d_uid E = d_uid H"
    moreover from this bwd obtain E' H' where "devs s e = Some E'" "devs s g = Some H'" "d_uid E' = d_uid E" "d_uid H' = d_uid H" by blast
    moreover have "devs s e = Some E' \<Longrightarrow> devs s g = Some H' \<Longrightarrow> d_uid E' = d_uid H' \<Longrightarrow> e = g"
      using assms(1) unfolding array_ok_def by blast
    ultimately show "e = g" by simp
  qed
qed

lemma add_path_ok:
  assumes D: "devs s d = Some D" and p: "pths s p = Some P" "p \<noteq> NULL" "p \<notin> set (slots D)" "distinct (slots D)"
    and len: "length (d_paths D) = 16"
  shows "\<exists>s' added. add_path s d p = Some (s', added) \<and> (\<not> added \<longrightarrow> s' = s \<and> NULL \<notin> set (d_paths D)) \<and>
    (added \<longrightarrow> (\<exists>i. i < 16 \<and> d_paths D ! i = NULL \<and> (\<forall>j < i. d_paths D ! j \<noteq> NULL) \<and>
      s' = s\<lparr>devs := (devs s)(d \<mapsto> D\<lparr>d_paths := (d_paths D)[i := p], numPaths := numPaths D + 1\<rparr>), pths := (pths s)(p \<mapsto> P\<lparr>p_dev := d\<rparr>)\<rparr>))"
proof -
  let ?i = "empty_slot (d_paths D) 0"
  note e = empty_slot_first [of "d_paths D" 0, unfolded len]
  show ?thesis
  proof (cases "?i = 16")
    case True
    then have "add_path s d p = Some (s, False)" using D by (simp add: add_path_def EXAMPLE_MAX_PATHS_PER_DEVICE_def)
    with True e show ?thesis by (intro exI [of _ s] exI [of _ False]) simp
  next
    case False
    with e have i: "?i < 16" "d_paths D ! ?i = NULL" "\<forall>j < ?i. d_paths D ! j \<noteq> NULL" by auto
    have "add_path s d p = Some (s\<lparr>devs := (devs s)(d \<mapsto> D\<lparr>d_paths := (d_paths D)[?i := p], numPaths := numPaths D + 1\<rparr>),
        pths := (pths s)(p \<mapsto> P\<lparr>p_dev := d\<rparr>)\<rparr>, True)"
      using D p(1) len i by (simp add: add_path_def Let_def EXAMPLE_MAX_PATHS_PER_DEVICE_def on_dev_def on_path_def)
    with i show ?thesis by blast
  qed
qed

text \<open>With one more path, everything fits again.\<close>

lemma added_ok:
  assumes a: "array_ok s" and o: "owned s" and ok: "\<And>e E. devs s e = Some E \<Longrightarrow> e \<noteq> d \<Longrightarrow> slots_ok s e E \<and> dev_rest E"
    and D: "devs s d = Some D" "path_ok D" "unat (numPaths D) = length (slots D)" "distinct (slots D)" "dev_rest D"
      "\<forall>q \<in> set (slots D). \<exists>P. pths s q = Some P \<and> p_dev P = d"
    and i: "i < 16" "d_paths D ! i = NULL" and act: "d_paths D ! unat (activePathIndex D) \<noteq> NULL \<or> unat (activePathIndex D) = i"
    and p: "pths s p = None" "p \<noteq> NULL" and P: "p_dev P = d"
    and D': "d_paths D' = (d_paths D)[i := p]" "numPaths D' = numPaths D + 1" "activePathIndex D' = activePathIndex D" "dev_rest D'"
      "d_index D' = d_index D" "d_uid D' = d_uid D"
    and s': "s' = s\<lparr>devs := (devs s)(d \<mapsto> D'), pths := (pths s)(p \<mapsto> P)\<rparr>"
  shows "claims_ok s'"
proof -
  have len: "length (d_paths D) = 16" using D(2) by (simp add: path_ok_def)
  have np: "p \<notin> set (slots D)" using D(6) p(1) by auto
  have sl: "distinct (slots D')" "set (slots D') = insert p (set (slots D))" "length (slots D') = Suc (length (slots D))"
    using slots_add [OF _ i(2) p(2) np D(4) D'(1)] i(1) len by simp_all
  have "length (slots D) < 16"
  proof -
    have "length (slots D') \<le> length (d_paths D')" unfolding slots_def by (rule length_filter_le)
    then show ?thesis using sl(3) D'(1) len by simp
  qed
  then have n: "unat (numPaths D') = length (slots D')" using D(3) D'(2) sl(3) by (simp add: unat_word_ariths)
  have new: "slots_ok s' d D'"
    unfolding slots_ok_def s'
    using n sl D(2,6) D'(1,3) act i(1) len P p by (auto simp: path_ok_def nth_list_update)
  have old: "slots_ok s' e E \<and> dev_rest E" if E: "devs s e = Some E" "e \<noteq> d" for e E
  proof -
    from ok [OF E] have k: "slots_ok s e E" "dev_rest E" by blast+
    then have "\<forall>q \<in> set (slots E). q \<noteq> p" using p(1) by (auto simp: slots_ok_def)
    with k show ?thesis by (simp add: slots_ok_def s')
  qed
  have "array_ok s'" by (rule array_dev [OF a D(1) D'(5,6)]) (simp_all add: s')
  moreover have "owned s'"
  proof -
    have "\<exists>E. devs s' (p_dev Q) = Some E \<and> q \<in> set (slots E)" if Q: "pths s' q = Some Q" for q Q
    proof (cases "q = p")
      case True
      then show ?thesis using Q P sl(2) by (simp add: s')
    next
      case False
      then have "pths s q = Some Q" using Q by (simp add: s')
      then obtain E where "devs s (p_dev Q) = Some E" "q \<in> set (slots E)" using o unfolding owned_def by blast
      then show ?thesis using D(1) sl(2) by (cases "p_dev Q = d") (auto simp: s')
    qed
    moreover have "NULL \<notin> dom (pths s')" using o p(2) by (auto simp: owned_def s')
    ultimately show ?thesis unfolding owned_def by blast
  qed
  moreover have "slots_ok s' e E \<and> dev_rest E" if "devs s' e = Some E" for e E
    using that new old D'(4) by (cases "e = d") (auto simp: s')
  ultimately show ?thesis unfolding claims_ok_def by blast
qed


lemma update_flag_masks:
  "(x OR EXAMPLE_DEVICE_NEEDS_UPDATE) AND EXAMPLE_DEVICE_REMOVING = x AND EXAMPLE_DEVICE_REMOVING"
  "(x OR EXAMPLE_DEVICE_NEEDS_UPDATE) AND EXAMPLE_DEVICE_REGISTERED = x AND EXAMPLE_DEVICE_REGISTERED"
  by (simp_all add: bit.conj_disj_distrib2 EXAMPLE_DEVICE_NEEDS_UPDATE_def EXAMPLE_DEVICE_REMOVING_def EXAMPLE_DEVICE_REGISTERED_def)

lemma dev_rest_new:
  "d_flags N = 0 \<Longrightarrow> openCount N = 0 \<Longrightarrow> resvSensitiveCmdQueue N = [] \<Longrightarrow> dev_rest N"
  by (simp add: dev_rest_def has_flag_def)

text \<open>The last step of claiming: what has been added is announced.\<close>

definition announced :: "plugin \<Rightarrow> nat \<Rightarrow> nat \<Rightarrow> path_state \<Rightarrow> ExampleDevice \<Rightarrow> nat \<Rightarrow> plugin" where
  "announced s d p st D i = s\<lparr>devs := (devs s)(d \<mapsto> D\<lparr>d_paths := (d_paths D)[i := p], numPaths := numPaths D + 1,
      d_flags := (if has_flag D EXAMPLE_DEVICE_REGISTERED then d_flags D OR EXAMPLE_DEVICE_NEEDS_UPDATE else d_flags D)\<rparr>),
    pths := (pths s)(p \<mapsto> \<lparr>p_state = st, p_dev = d, p_isPDL = False, p_activeCmdCount = 0, p_refCount = 0\<rparr>)\<rparr>"

lemma announced_ok:
  assumes "array_ok s" "owned s" "\<And>e E. devs s e = Some E \<Longrightarrow> e \<noteq> d \<Longrightarrow> slots_ok s e E \<and> dev_rest E"
    "devs s d = Some D" "path_ok D" "unat (numPaths D) = length (slots D)" "distinct (slots D)" "dev_rest D"
      "\<forall>q \<in> set (slots D). \<exists>P. pths s q = Some P \<and> p_dev P = d"
    "i < 16" "d_paths D ! i = NULL" "d_paths D ! unat (activePathIndex D) \<noteq> NULL \<or> unat (activePathIndex D) = i"
    "pths s p = None" "p \<noteq> NULL"
  shows "claims_ok (announced s d p st D i)" "p \<in> set ((d_paths D)[i := p])"
proof -
  show "claims_ok (announced s d p st D i)"
    unfolding announced_def
    by (rule added_ok [OF assms _ _ _ _ _ _ _ refl]) (use assms(8) in \<open>simp_all add: dev_rest_def has_flag_def update_flag_masks\<close>)
  show "p \<in> set ((d_paths D)[i := p])"
    using assms(5,10) by (simp add: path_ok_def set_update_memI)
qed

text \<open>From the device on, claiming either fails and leaves nothing behind or adds the path.\<close>

abbreviation fresh_path :: "path_state \<Rightarrow> ExamplePath" where
  "fresh_path st \<equiv> \<lparr>p_state = st, p_dev = NULL, p_isPDL = False, p_activeCmdCount = 0, p_refCount = 0\<rparr>"

lemma claim_tail_returns:
  assumes D: "devs s d = Some D" "length (d_paths D) = 16" "dev_rest D" "distinct (slots D)" "p \<notin> set (slots D)"
    and p: "pths s p = None" "p \<noteq> NULL" and s1: "s1 = s\<lparr>pths := (pths s)(p \<mapsto> fresh_path st)\<rparr>"
  shows "NULL \<notin> set (d_paths D) \<and> claim_tail s1 d p = Some (s, VMK_NO_RESOURCES, None) \<or>
    (\<exists>i. i < 16 \<and> d_paths D ! i = NULL \<and> (\<forall>j < i. d_paths D ! j \<noteq> NULL) \<and>
      claim_tail s1 d p = Some (announced s d p st D i, VMK_OK, Some True))"
proof -
  have "devs s1 d = Some D" "pths s1 p = Some (fresh_path st)" by (simp_all add: s1 D)
  from add_path_ok [OF this p(2) D(5,4,2)] obtain s' added where r: "add_path s1 d p = Some (s', added)"
    and f: "\<not> added \<longrightarrow> s' = s1 \<and> NULL \<notin> set (d_paths D)"
    and t: "added \<longrightarrow> (\<exists>i. i < 16 \<and> d_paths D ! i = NULL \<and> (\<forall>j < i. d_paths D ! j \<noteq> NULL) \<and>
      s' = s1\<lparr>devs := (devs s1)(d \<mapsto> D\<lparr>d_paths := (d_paths D)[i := p], numPaths := numPaths D + 1\<rparr>), pths := (pths s1)(p \<mapsto> (fresh_path st)\<lparr>p_dev := d\<rparr>)\<rparr>)"
    by blast
  show ?thesis
  proof (cases added)
    case False
    have u: "(pths s)(p := None) = pths s" using p(1) by auto
    have "claim_tail s1 d p = Some (s, VMK_NO_RESOURCES, None)"
      using False r f by (simp add: claim_tail_def ExampleDestroyExPath_def s1 u)
    with False f show ?thesis by blast
  next
    case True
    with t obtain i where i: "i < 16" "d_paths D ! i = NULL" "\<forall>j < i. d_paths D ! j \<noteq> NULL" and
      s': "s' = s1\<lparr>devs := (devs s1)(d \<mapsto> D\<lparr>d_paths := (d_paths D)[i := p], numPaths := numPaths D + 1\<rparr>), pths := (pths s1)(p \<mapsto> (fresh_path st)\<lparr>p_dev := d\<rparr>)\<rparr>"
      by blast
    have "claim_tail s1 d p = Some (announced s d p st D i, VMK_OK, Some True)"
      using True r D(3) unfolding s' by (simp add: claim_tail_def announced_def s1 on_dev_def dev_rest_def has_flag_def)
    with i show ?thesis by blast
  qed
qed


lemma find_or_create_ok:
  assumes a: "array_ok s" and fresh: "d \<noteq> NULL \<Longrightarrow> devs s d = None"
  shows "\<exists>s' status e. find_or_create d lock s uid = Some (s', status, e) \<and> (status \<noteq> VMK_OK \<longrightarrow> s' = s) \<and>
    (status = VMK_OK \<longrightarrow> (s' = s \<and> (\<exists>D. devs s e = Some D \<and> d_uid D = uid)) \<or>
       (d \<noteq> NULL \<and> e = d \<and> array_ok s' \<and> (\<exists>N i. s' = s\<lparr>devs := (devs s)(d \<mapsto> N), createdDevices := (createdDevices s)[i := d]\<rparr> \<and>
         d_paths N = replicate 16 NULL \<and> d_uid N = uid \<and> numPaths N = 0 \<and> activePathIndex N = 0 \<and> d_flags N = 0 \<and> openCount N = 0 \<and>
         resvSensitiveCmdQueue N = [])))"
proof -
  have h: "\<forall>e \<in> set (createdDevices s). e \<noteq> NULL \<longrightarrow> devs s e \<noteq> None"
    using a unfolding array_ok_def by (metis in_set_conv_nth option.distinct(1))
  from find_uid_eq [OF h, of uid False] obtain found free where f: "find_uid s uid (createdDevices s) False = Some (found, free)"
    and y: "\<forall>e. found = Some e \<longrightarrow> e \<in> set (createdDevices s) \<and> e \<noteq> NULL \<and> d_uid (the (devs s e)) = uid"
    and n: "found = None \<longrightarrow> (\<forall>e \<in> set (createdDevices s). e \<noteq> NULL \<longrightarrow> d_uid (the (devs s e)) \<noteq> uid)" by blast
  show ?thesis
  proof (cases found)
    case (Some e)
    then have "devs s e \<noteq> None" "d_uid (the (devs s e)) = uid" using y h by blast+
    then show ?thesis using f Some by (simp add: find_or_create_def) auto
  next
    case None
    show ?thesis
    proof (cases "free \<and> d \<noteq> NULL")
      case False
      have "VMK_NO_RESOURCES \<noteq> VMK_OK" "VMK_NO_MEMORY \<noteq> VMK_OK" by simp_all
      with False f None show ?thesis by (cases free) (auto simp: find_or_create_def ExampleCreateDevice_def)
    next
      case True
      note nd = new_device [OF a n [THEN mp, OF None]]
      from True nd [OF _ fresh, of lock] obtain s' status
        where r: "ExampleCreateDevice d lock s uid = Some (s', status)" and c: "status \<noteq> VMK_OK \<longrightarrow> s' = s"
          "status = VMK_OK \<longrightarrow> array_ok s' \<and> (\<exists>N i. s' = s\<lparr>devs := (devs s)(d \<mapsto> N), createdDevices := (createdDevices s)[i := d]\<rparr> \<and>
        d_paths N = replicate 16 NULL \<and> d_uid N = uid \<and> numPaths N = 0 \<and> activePathIndex N = 0 \<and> d_flags N = 0 \<and> openCount N = 0 \<and>
        resvSensitiveCmdQueue N = [])" by auto
      have "find_or_create d lock s uid = Some (s', status, d)" using True f None r by (simp add: find_or_create_def)
      with c True show ?thesis by blast
    qed
  qed
qed

text \<open>The claim of a path on a device that already exists, or that has just been created.\<close>

definition claim_done :: "plugin \<Rightarrow> nat \<Rightarrow> path_state \<Rightarrow> nat \<Rightarrow> (plugin \<times> VMK_ReturnStatus \<times> bool option) option \<Rightarrow> bool" where
  "claim_done s p st uid r \<longleftrightarrow> (\<exists>s' P D. r = Some (s', VMK_OK, Some True) \<and> claims_ok s' \<and> pths s' p = Some P \<and> p_state P = st \<and>
     devs s' (p_dev P) = Some D \<and> d_uid D = uid \<and> p \<in> set (d_paths D))"

lemma claim_old:
  assumes ok: "claims_ok s" and d: "devs s d = Some D" and p: "pths s p = None" "p \<noteq> NULL"
    and s1: "s1 = s\<lparr>pths := (pths s)(p \<mapsto> fresh_path st)\<rparr>"
  shows "claim_tail s1 d p = Some (s, VMK_NO_RESOURCES, None) \<or> claim_done s p st (d_uid D) (claim_tail s1 d p)"
proof -
  note o = claimsD [OF ok d]
  have D: "length (d_paths D) = 16" "distinct (slots D)" "path_ok D" "unat (numPaths D) = length (slots D)" "p \<notin> set (slots D)"
    "\<forall>q \<in> set (slots D). \<exists>P. pths s q = Some P \<and> p_dev P = d" "d_paths D ! unat (activePathIndex D) \<noteq> NULL"
    using o p(1) by (auto simp: slots_ok_def path_ok_def)
  have ok': "array_ok s" "owned s" "\<And>e E. devs s e = Some E \<Longrightarrow> e \<noteq> d \<Longrightarrow> slots_ok s e E \<and> dev_rest E" using ok by (simp_all add: claims_ok_def)
  from claim_tail_returns [OF d D(1) o(2) D(2,5) p s1] show ?thesis
  proof (elim disjE exE conjE)
    fix i assume i: "i < 16" "d_paths D ! i = NULL" and r: "claim_tail s1 d p = Some (announced s d p st D i, VMK_OK, Some True)"
    note a = announced_ok [OF ok' d D(3,4,2) o(2) D(6) i _ p]
    from a(1) [where st = st] a(2) D(7) r show ?thesis by (simp add: claim_done_def announced_def)
  qed simp
qed

lemma claim_new:
  assumes ok: "claims_ok s" and d: "devs s d = None" and p: "pths s p = None" "p \<noteq> NULL"
    and s2: "s2 = s\<lparr>devs := (devs s)(d \<mapsto> N), createdDevices := c\<rparr>" and a: "array_ok s2"
    and N: "d_paths N = replicate 16 NULL" "numPaths N = 0" "activePathIndex N = 0" "d_flags N = 0" "openCount N = 0"
        "resvSensitiveCmdQueue N = []"
    and s1: "s1 = s2\<lparr>pths := (pths s2)(p \<mapsto> fresh_path st)\<rparr>"
  shows "claim_done s p st (d_uid N) (claim_tail s1 d p)"
proof -
  have sl: "slots N = []" by (simp add: slots_def N)
  have e: "devs s2 d = Some N" "pths s2 = pths s" by (simp_all add: s2)
  have D: "length (d_paths N) = 16" "distinct (slots N)" "path_ok N" "unat (numPaths N) = length (slots N)" "p \<notin> set (slots N)"
    "\<forall>q \<in> set (slots N). \<exists>P. pths s2 q = Some P \<and> p_dev P = d"
    by (simp_all add: sl path_ok_def N)
  have rest: "dev_rest N" by (rule dev_rest_new [OF N(4-6)])
  have own: "\<forall>q Q. pths s q = Some Q \<longrightarrow> (\<exists>D. devs s (p_dev Q) = Some D \<and> q \<in> set (slots D))"
    using ok by (simp add: claims_ok_def owned_def)
  have "owned s2"
    unfolding owned_def
  proof (intro conjI allI impI)
    show "NULL \<notin> dom (pths s2)" using ok by (simp add: claims_ok_def owned_def e)
    fix q Q assume "pths s2 q = Some Q"
    with own e(2) obtain D where D: "devs s (p_dev Q) = Some D" "q \<in> set (slots D)" by auto
    then have "p_dev Q \<noteq> d" using d by auto
    with D show "\<exists>D. devs s2 (p_dev Q) = Some D \<and> q \<in> set (slots D)" by (simp add: s2)
  qed
  moreover have "slots_ok s2 e E \<and> dev_rest E" if "devs s2 e = Some E" "e \<noteq> d" for e E
    using that ok by (simp add: s2 claims_ok_def slots_ok_def)
  moreover note a
  ultimately have ok': "array_ok s2" "owned s2" "\<And>e E. devs s2 e = Some E \<Longrightarrow> e \<noteq> d \<Longrightarrow> slots_ok s2 e E \<and> dev_rest E" by blast+
  have p': "pths s2 p = None" using p(1) e(2) by simp
  from claim_tail_returns [OF e(1) D(1) rest D(2,5) p' p(2) s1] show ?thesis
  proof (elim disjE exE conjE)
    assume "NULL \<notin> set (d_paths N)" then show ?thesis by (simp add: N(1))
  next
    fix i assume i: "i < 16" "d_paths N ! i = NULL" "\<forall>j < i. d_paths N ! j \<noteq> NULL"
      and r: "claim_tail s1 d p = Some (announced s2 d p st N i, VMK_OK, Some True)"
    from i(1,3) have i0: "i = 0" using N(1) by (cases "0 < i") (auto dest!: spec [of _ 0])
    note an = announced_ok [OF ok' e(1) D(3,4,2) rest D(6) i(1,2) _ p' p(2)]
    from an(1) [where st = st] an(2) i0 r show ?thesis by (simp add: claim_done_def announced_def N(3))
  qed
qed


lemma array_cong:
  assumes "array_ok s" and e: "devs s' = devs s" "createdDevices s' = createdDevices s"
  shows "array_ok s'"
  using assms(1) unfolding array_ok_def e .

text \<open>
  C9 (claim_path_correct). Claiming a path either fails, and then leaves the plugin exactly as it was, or
  succeeds, and then the path, in the state the SCSI layer reports, is in a slot of the one device with the
  identity of the path. In both cases the array of devices, the devices and their paths still fit
  together: one device per identity, at most sixteen paths each and none twice, an active path that
  exists, and no path without a device.
\<close>

theorem claim_path_correct:
  assumes ok: "claims_ok s" and p: "pths s p = None" "p \<noteq> NULL"
    and fresh: "dev_addr env \<noteq> NULL \<Longrightarrow> devs s (dev_addr env) = None"
  shows "\<exists>s' status claimed. ExampleClaimPath True env st s p = Some (s', status, claimed) \<and> claims_ok s' \<and>
    (claimed \<noteq> Some True \<and> s' = s \<or>
     claimed = Some True \<and> status = VMK_OK \<and> lun env = 1 \<and>
     (\<exists>P D. pths s' p = Some P \<and> p_state P = st \<and> devs s' (p_dev P) = Some D \<and> path_uid env = Some (d_uid D) \<and>
       p \<in> set (d_paths D)))"
proof -
  let ?s1 = "s\<lparr>pths := (pths s)(p \<mapsto> fresh_path st)\<rparr>"
  have u: "(pths s)(p := None) = pths s" using p(1) by auto
  show ?thesis
  proof (cases "lun env = 1 \<and> path_mem env \<and> path_lock env = VMK_OK \<and> path_uid env \<noteq> None")
    case False
    have "VMK_NO_MEMORY \<noteq> VMK_OK" by simp
    with False ok show ?thesis
      by (cases "path_uid env") (auto simp: ExampleClaimPath_def ExampleCreateExPath_def ExampleDestroyExPath_def u)
  next
    case True
    then obtain uid where uid: "path_uid env = Some uid" by auto
    have "array_ok ?s1" using ok by (simp add: claims_ok_def array_ok_def)
    moreover have "dev_addr env \<noteq> NULL \<Longrightarrow> devs ?s1 (dev_addr env) = None" using fresh by simp
    ultimately obtain s2 status d
      where r: "find_or_create (dev_addr env) (dev_lock env) ?s1 uid = Some (s2, status, d)" and bad: "status \<noteq> VMK_OK \<longrightarrow> s2 = ?s1"
        and good: "status = VMK_OK \<longrightarrow> (s2 = ?s1 \<and> (\<exists>D. devs ?s1 d = Some D \<and> d_uid D = uid)) \<or>
          (dev_addr env \<noteq> NULL \<and> d = dev_addr env \<and> array_ok s2 \<and> (\<exists>N i. s2 = ?s1\<lparr>devs := (devs ?s1)(d \<mapsto> N), createdDevices := (createdDevices ?s1)[i := d]\<rparr> \<and>
             d_paths N = replicate 16 NULL \<and> d_uid N = uid \<and> numPaths N = 0 \<and> activePathIndex N = 0 \<and> d_flags N = 0 \<and> openCount N = 0 \<and>
             resvSensitiveCmdQueue N = []))"
      using find_or_create_ok [of ?s1 "dev_addr env" "dev_lock env" uid] by blast
    have call: "ExampleClaimPath True env st s p =
        (if status \<noteq> VMK_OK then do { s \<leftarrow> ExampleDestroyExPath s2 p; Some (s, status, None) } else claim_tail s2 d p)"
      using True r uid by (simp add: ExampleClaimPath_def ExampleCreateExPath_def)
    show ?thesis
    proof (cases "status = VMK_OK")
      case False
      with bad call ok show ?thesis by (simp add: ExampleDestroyExPath_def u)
    next
      case ok2: True
      then have call: "ExampleClaimPath True env st s p = claim_tail s2 d p" using call by simp
      have "claim_tail s2 d p = Some (s, VMK_NO_RESOURCES, None) \<or> claim_done s p st uid (claim_tail s2 d p)"
        using good [THEN mp, OF ok2]
      proof (elim disjE conjE exE)
        fix D assume "s2 = ?s1" "devs ?s1 d = Some D" "d_uid D = uid"
        with claim_old [OF ok _ p refl, of d D st] show ?thesis by simp
      next
        fix N i assume d: "dev_addr env \<noteq> NULL" "d = dev_addr env" and a: "array_ok s2"
          and s2: "s2 = ?s1\<lparr>devs := (devs ?s1)(d \<mapsto> N), createdDevices := (createdDevices ?s1)[i := d]\<rparr>"
          and N: "d_paths N = replicate 16 NULL" "numPaths N = 0" "activePathIndex N = 0" "d_flags N = 0" "openCount N = 0"
             "resvSensitiveCmdQueue N = []" "d_uid N = uid"
        have "devs s d = None" using d fresh by simp
        let ?s0 = "s\<lparr>devs := (devs s)(d \<mapsto> N), createdDevices := (createdDevices s)[i := d]\<rparr>"
        have e: "s2 = ?s0\<lparr>pths := (pths ?s0)(p \<mapsto> fresh_path st)\<rparr>" unfolding s2 by simp
        have "array_ok ?s0" by (rule array_cong [OF a]) (simp_all add: s2)
        from claim_new [OF ok \<open>devs s d = None\<close> p refl this N(1-6) e] show ?thesis unfolding N(7) by (rule disjI2)
      qed
      then show ?thesis
      proof
        assume "claim_done s p st uid (claim_tail s2 d p)"
        with call True uid show ?thesis by (auto simp: claim_done_def)
      qed (simp add: call ok)
    qed
  qed
qed

text \<open>The plugin when it has just been loaded, and a path that is offered to it.\<close>

definition loaded :: plugin where
  "loaded = \<lparr>devs = Map.empty, pths = Map.empty, cmds = Map.empty, retryQueue = [], works = [], issued = {}, scheduled = {},
     createdDevices = [0, 0, 0], accepted = [], completed = [], fast_probes = []\<rparr>"

definition offered :: claim_env where
  "offered = \<lparr>lun = 1, path_mem = True, path_lock = VMK_OK, path_uid = Some 7, dev_addr = 100, dev_lock = VMK_OK\<rparr>"

lemma loaded_ok: "claims_ok loaded"
  by (simp add: claims_ok_def array_ok_def owned_def loaded_def nth_Cons' split: if_splits)

lemma offered_claim:
  "map_option (\<lambda>(s, status, claimed). (status, claimed)) (ExampleClaimPath True offered PATH_ON loaded 5) = Some (VMK_OK, Some True)"
  by code_simp

lemma claim_path_correct_witness:
  "claims_ok loaded \<and> (\<exists>s' P D. ExampleClaimPath True offered PATH_ON loaded 5 = Some (s', VMK_OK, Some True) \<and> claims_ok s' \<and>
     pths s' 5 = Some P \<and> p_state P = PATH_ON \<and> devs s' (p_dev P) = Some D \<and> d_uid D = 7 \<and> 5 \<in> set (d_paths D))"
proof -
  have n: "pths loaded 5 = None" "(5::nat) \<noteq> NULL" "devs loaded (dev_addr offered) = None" by (simp_all add: loaded_def)
  from claim_path_correct [OF loaded_ok n(1,2), of offered PATH_ON] n(3) offered_claim loaded_ok show ?thesis
    by (auto simp: offered_def)
qed




















end
