(* ===== verification/Rpc.thy ===== *)
theory Rpc
  imports Hash Bufpool Locks
begin

unbundle bit_operations_syntax

text \<open>
  Remote procedure calls of the I/O splitter (\<^verbatim>\<open>iosplitter/rpc/rpc.c\<close>) over the buffer pools, the hash
  table and the locks of the other theories. Every function is split where the calling task can be
  switched: while it waits for a buffer or for the lock, in \<^verbatim>\<open>task_netread\<close> and \<^verbatim>\<open>task_netwrite\<close>
  (whose results are arguments), in \<^verbatim>\<open>rpc_chan_close\<close>, and where it sleeps until the response is there.
  A message is identified with its hash entry, its first member. A buffer that is in the pool is not a
  message: an access to it is an access through a dangling pointer.
\<close>

section \<open>Messages and channels\<close>

record rpc_msghdr =
  seqid :: u32
  msgtype :: u16
  msglen :: u16
  payloadlen :: u16
  status :: u16

record rpc_msg =
  payload :: addr
  resp :: addr
  rendez :: Rendez
  hdr :: rpc_msghdr

record rpc_chan =
  infd :: int
  outfd :: int
  chan_enabled :: bool
  next_seqid :: u32
  hash :: hmem
  msgpool :: pool_st
  datapool :: pool_st
  fdlock :: QLock
  msgs :: "addr \<rightharpoonup> rpc_msg"

text \<open>The sizes of the header, and of what comes before it in a message, on a 64-bit machine.\<close>

definition sizeof_msghdr :: u64 where "sizeof_msghdr = 12"
definition msg_gap :: u64 where "msg_gap = 72"

definition RPC_EDISABLED :: int where "RPC_EDISABLED = 2001"
definition RPC_ENOMEM :: int where "RPC_ENOMEM = 2002"
definition RPC_ENOSYS :: u16 where "RPC_ENOSYS = 2003"

section \<open>The type of a message\<close>

definition RPC_ISREQ :: "rpc_msg \<Rightarrow> bool" where
  "RPC_ISREQ m \<longleftrightarrow> msgtype (hdr m) AND 1 \<noteq> 0"

definition RPC_SETREQ :: "rpc_msg \<Rightarrow> rpc_msg" where
  "RPC_SETREQ m = m\<lparr>hdr := (hdr m)\<lparr>msgtype := msgtype (hdr m) OR 1\<rparr>\<rparr>"

definition RPC_SETRESP :: "rpc_msg \<Rightarrow> rpc_msg" where
  "RPC_SETRESP m = m\<lparr>hdr := (hdr m)\<lparr>msgtype := msgtype (hdr m) AND NOT 1\<rparr>\<rparr>"

definition RPC_IS_CONNCLOSED :: "rpc_msg \<Rightarrow> bool" where
  "RPC_IS_CONNCLOSED m \<longleftrightarrow> msgtype (hdr m) AND 2 \<noteq> 0"

definition RPC_SET_CONNCLOSED :: "rpc_msg \<Rightarrow> rpc_msg" where
  "RPC_SET_CONNCLOSED m = m\<lparr>hdr := (hdr m)\<lparr>msgtype := msgtype (hdr m) OR 2\<rparr>\<rparr>"

definition RPC_SETMSGTYPE :: "rpc_msg \<Rightarrow> u32 \<Rightarrow> rpc_msg" where
  "RPC_SETMSGTYPE m utype = m\<lparr>hdr := (hdr m)\<lparr>msgtype := ucast (push_bit 4 utype)\<rparr>\<rparr>"

definition RPC_GETMSGTYPE :: "rpc_msg \<Rightarrow> u32" where
  "RPC_GETMSGTYPE m = ucast (drop_bit 4 (msgtype (hdr m)))"

section \<open>Buffers and messages\<close>

definition on_msg :: "rpc_chan \<Rightarrow> addr \<Rightarrow> (rpc_msg \<Rightarrow> rpc_msg) \<Rightarrow> rpc_chan option" where
  "on_msg c m f = do { ms \<leftarrow> store (msgs c) m f; Some (c\<lparr>msgs := ms\<rparr>) }"

text \<open>A task waits in \<^verbatim>\<open>bufpool_get\<close>: it goes on with a new pass of the loop.\<close>

definition get_buf :: "bool \<Rightarrow> pool_st \<Rightarrow> nat \<Rightarrow> bool \<Rightarrow> addr \<Rightarrow> (pool_st \<times> get_result) option" where
  "get_buf resumed p t noblock a = (if resumed then bufpool_get_pass p t noblock a else bufpool_get p t noblock a)"

definition no_sleeper :: Rendez where "no_sleeper = \<lparr>rlk = None, rz_waiting = []\<rparr>"

definition zero_msg :: rpc_msg where
  "zero_msg = \<lparr>payload = NULL, resp = NULL, rendez = no_sleeper,
     hdr = \<lparr>seqid = 0, msgtype = 0, msglen = 0, payloadlen = 0, status = 0\<rparr>\<rparr>"

text \<open>\<^verbatim>\<open>bufpool_get_zero\<close> has cleared the buffer, which becomes a message; and back.\<close>

definition alloc_msg :: "rpc_chan \<Rightarrow> addr \<Rightarrow> rpc_chan" where
  "alloc_msg c m = c\<lparr>msgs := (msgs c)(m \<mapsto> zero_msg),
     hash := (hash c)\<lparr>hdlls := (hdlls (hash c))(m \<mapsto> \<lparr>dll_next = NULL, dll_prev = NULL\<rparr>),
       bucket := (bucket (hash c))(m \<mapsto> 0)\<rparr>\<rparr>"

definition free_msg :: "rpc_chan \<Rightarrow> addr \<Rightarrow> rpc_chan" where
  "free_msg c m = c\<lparr>msgs := (msgs c)(m := None),
     hash := (hash c)\<lparr>hdlls := (hdlls (hash c))(m := None), bucket := (bucket (hash c))(m := None)\<rparr>\<rparr>"

definition put_msg :: "rpc_chan \<Rightarrow> addr \<Rightarrow> rpc_chan option" where
  "put_msg c m = do {
     M \<leftarrow> msgs c m;
     (p, woken) \<leftarrow> bufpool_put (msgpool c) m;
     Some (free_msg (c\<lparr>msgpool := p\<rparr>) m)
   }"

definition rpc_databuf_get :: "rpc_chan \<Rightarrow> bool \<Rightarrow> nat \<Rightarrow> addr \<Rightarrow> (rpc_chan \<times> get_result) option" where
  "rpc_databuf_get c resumed t a = do {
     (p, r) \<leftarrow> get_buf resumed (datapool c) t False a;
     Some (c\<lparr>datapool := p\<rparr>, r)
   }"

definition rpc_databuf_put :: "rpc_chan \<Rightarrow> addr \<Rightarrow> rpc_chan option" where
  "rpc_databuf_put c b = do {
     c_assert (b \<noteq> NULL);
     (p, woken) \<leftarrow> bufpool_put (datapool c) b;
     Some (c\<lparr>datapool := p\<rparr>)
   }"

definition rpc_msg_init :: "rpc_chan \<Rightarrow> addr \<Rightarrow> u32 \<Rightarrow> u64 \<Rightarrow> u64 \<Rightarrow> addr \<Rightarrow> rpc_chan option" where
  "rpc_msg_init c m mtype mlen plen pl = do {
     h \<leftarrow> hash_entry_init (hash c) m;
     let c = c\<lparr>hash := h\<rparr>;
     let sid = next_seqid c;
     c \<leftarrow> on_msg c m (\<lambda>M. M\<lparr>resp := NULL, rendez := no_sleeper, hdr := (hdr M)\<lparr>seqid := sid\<rparr>\<rparr>);
     let c = c\<lparr>next_seqid := next_seqid c + 1\<rparr>;
     c \<leftarrow> on_msg c m (\<lambda>M. RPC_SETMSGTYPE M mtype);
     on_msg c m (\<lambda>M. M\<lparr>payload := pl, hdr := (hdr M)\<lparr>msglen := ucast mlen, payloadlen := ucast plen\<rparr>\<rparr>)
   }"

definition rpc_msg_get ::
  "rpc_chan \<Rightarrow> bool \<Rightarrow> nat \<Rightarrow> u32 \<Rightarrow> u64 \<Rightarrow> u64 \<Rightarrow> addr \<Rightarrow> addr \<Rightarrow> (rpc_chan \<times> get_result) option" where
  "rpc_msg_get c resumed t mtype mlen plen pl a = do {
     c_assert (mlen \<ge> sizeof_msghdr);
     c_assert (pl \<noteq> NULL \<or> plen = 0);
     (p, r) \<leftarrow> get_buf resumed (msgpool c) t False a;
     let c = c\<lparr>msgpool := p\<rparr>;
     case r of
       Got m \<Rightarrow> do { c \<leftarrow> rpc_msg_init (alloc_msg c m) m mtype mlen plen pl; Some (c, r) }
     | _ \<Rightarrow> Some (c, r)
   }"

definition rpc_msg_put :: "rpc_chan \<Rightarrow> addr \<Rightarrow> rpc_chan option" where
  "rpc_msg_put c m = do {
     M \<leftarrow> msgs c m;
     c \<leftarrow> (if resp M \<noteq> NULL then do {
             R \<leftarrow> msgs c (resp M);
             c_assert (resp R = NULL);
             c \<leftarrow> (if payload R \<noteq> NULL then rpc_databuf_put c (payload R) else Some c);
             c \<leftarrow> put_msg c (resp M);
             on_msg c m (\<lambda>M. M\<lparr>resp := NULL\<rparr>)
           } else Some c);
     c \<leftarrow> (if payload M \<noteq> NULL then do {
             c \<leftarrow> rpc_databuf_put c (payload M);
             on_msg c m (\<lambda>M. M\<lparr>payload := NULL\<rparr>)
           } else Some c);
     put_msg c m
   }"

section \<open>Requests\<close>

definition get_bucket :: "rpc_chan \<Rightarrow> u32 \<Rightarrow> int" where
  "get_bucket c sid = uint sid mod no_buckets (tab (hash c))"

definition chan_unlock :: "rpc_chan \<Rightarrow> rpc_chan option" where
  "chan_unlock c = do { (l, woken) \<leftarrow> qunlock (fdlock c); Some (c\<lparr>fdlock := l\<rparr>) }"

definition chan_lock :: "rpc_chan \<Rightarrow> nat \<Rightarrow> rpc_chan \<times> lock_result" where
  "chan_lock c t = (let (l, r) = qlock (fdlock c) t in (c\<lparr>fdlock := l\<rparr>, r))"

text \<open>
  \<^verbatim>\<open>rpc_chan_close\<close>, before and after the tasks that wait for the descriptors have been made ready and
  have run.
\<close>

definition rpc_chan_close :: "rpc_chan \<Rightarrow> rpc_chan" where
  "rpc_chan_close c = c\<lparr>chan_enabled := False\<rparr>"

definition rpc_chan_closed :: "rpc_chan \<Rightarrow> rpc_chan" where
  "rpc_chan_closed c = c\<lparr>infd := -1, outfd := -1\<rparr>"

text \<open>\<^verbatim>\<open>rpc_request\<close> up to the lock; \<^term>\<open>None\<close> stands for the return of \<^verbatim>\<open>RPC_EDISABLED\<close>.\<close>

definition request_start :: "rpc_chan \<Rightarrow> nat \<Rightarrow> addr \<Rightarrow> (rpc_chan \<times> lock_result option) option" where
  "request_start c t m = do {
     M \<leftarrow> msgs c m;
     c_assert (ucast (msglen (hdr M)) \<ge> sizeof_msghdr);
     c_assert (payload M \<noteq> NULL \<or> payloadlen (hdr M) = 0);
     c_assert (resp M = NULL);
     if \<not> chan_enabled c then Some (c, None)
     else do {
       let b = get_bucket c (seqid (hdr M));
       c_assert (b \<ge> 0 \<and> b < no_buckets (tab (hash c)));
       c \<leftarrow> on_msg c m RPC_SETREQ;
       (h, _) \<leftarrow> hash_add (hash c) m b;
       let (c, r) = chan_lock (c\<lparr>hash := h\<rparr>) t;
       Some (c, Some r)
     }
   }"

text \<open>The lock is given back and the task sleeps.\<close>

definition request_sleep :: "rpc_chan \<Rightarrow> nat \<Rightarrow> addr \<Rightarrow> rpc_chan option" where
  "request_sleep c t m = do {
     c \<leftarrow> chan_unlock c;
     M \<leftarrow> msgs c m;
     (rz, woken) \<leftarrow> tasksleep (rendez M) t;
     on_msg c m (\<lambda>M. M\<lparr>rendez := rz\<rparr>)
   }"

text \<open>What the task does next: write the payload, sleep, or close the channel.\<close>

datatype write_next = WritePayload | Written | CloseChannel

text \<open>\<open>res\<close> is the result of \<^verbatim>\<open>task_netwrite\<close> for the header, and for the payload.\<close>

definition request_header :: "rpc_chan \<Rightarrow> nat \<Rightarrow> addr \<Rightarrow> int \<Rightarrow> (rpc_chan \<times> write_next) option" where
  "request_header c t m res = do {
     M \<leftarrow> msgs c m;
     if res \<noteq> 0 then Some (rpc_chan_close c, CloseChannel)
     else if payload M \<noteq> NULL then Some (c, WritePayload)
     else do { c \<leftarrow> request_sleep c t m; Some (c, Written) }
   }"

definition request_payload :: "rpc_chan \<Rightarrow> nat \<Rightarrow> addr \<Rightarrow> int \<Rightarrow> (rpc_chan \<times> write_next) option" where
  "request_payload c t m res =
     (if res \<noteq> 0 then Some (rpc_chan_close c, CloseChannel)
      else do { c \<leftarrow> request_sleep c t m; Some (c, Written) })"

definition request_failed :: "rpc_chan \<Rightarrow> rpc_chan option" where
  "request_failed c = chan_unlock (rpc_chan_closed c)"

text \<open>The task runs again: the function returns 0.\<close>

definition request_done :: "rpc_chan \<Rightarrow> addr \<Rightarrow> unit option" where
  "request_done c m = do { M \<leftarrow> msgs c m; c_assert (resp M \<noteq> NULL) }"

section \<open>Responses\<close>

definition response_done :: "rpc_chan \<Rightarrow> addr \<Rightarrow> rpc_chan option" where
  "response_done c m = do { c \<leftarrow> chan_unlock c; rpc_msg_put c m }"

text \<open>\<^verbatim>\<open>rpc_response\<close> up to the lock; \<^term>\<open>None\<close> stands for its return.\<close>

definition response_start :: "rpc_chan \<Rightarrow> nat \<Rightarrow> addr \<Rightarrow> (rpc_chan \<times> lock_result option) option" where
  "response_start c t m = do {
     M \<leftarrow> msgs c m;
     c_assert (ucast (msglen (hdr M)) \<ge> sizeof_msghdr);
     c_assert (payload M \<noteq> NULL \<or> payloadlen (hdr M) = 0);
     c_assert (resp M = NULL);
     if \<not> chan_enabled c then do { c \<leftarrow> response_done c m; Some (c, None) }
     else do {
       c \<leftarrow> on_msg c m RPC_SETRESP;
       let (c, r) = chan_lock c t;
       Some (c, Some r)
     }
   }"

definition response_header :: "rpc_chan \<Rightarrow> addr \<Rightarrow> int \<Rightarrow> (rpc_chan \<times> write_next) option" where
  "response_header c m res = do {
     M \<leftarrow> msgs c m;
     if res \<noteq> 0 then Some (rpc_chan_close c, CloseChannel)
     else if payload M \<noteq> NULL then Some (c, WritePayload)
     else do { c \<leftarrow> response_done c m; Some (c, Written) }
   }"

definition response_payload :: "rpc_chan \<Rightarrow> addr \<Rightarrow> int \<Rightarrow> (rpc_chan \<times> write_next) option" where
  "response_payload c m res =
     (if res \<noteq> 0 then Some (rpc_chan_close c, CloseChannel)
      else do { c \<leftarrow> response_done c m; Some (c, Written) })"

definition response_failed :: "rpc_chan \<Rightarrow> addr \<Rightarrow> rpc_chan option" where
  "response_failed c m = response_done (rpc_chan_closed c) m"

text \<open>The result is \<^term>\<open>None\<close> when the handler has returned, as for \<^const>\<open>response_start\<close>.\<close>

definition rpc_default_handler :: "rpc_chan \<Rightarrow> nat \<Rightarrow> addr \<Rightarrow> (rpc_chan \<times> lock_result option) option" where
  "rpc_default_handler c t m = do {
     M \<leftarrow> msgs c m;
     c \<leftarrow> (if payload M \<noteq> NULL then do {
             c \<leftarrow> rpc_databuf_put c (payload M);
             on_msg c m (\<lambda>M. M\<lparr>payload := NULL\<rparr>)
           } else Some c);
     c \<leftarrow> on_msg c m (\<lambda>M. M\<lparr>hdr := (hdr M)\<lparr>status := RPC_ENOSYS\<rparr>\<rparr>);
     if RPC_IS_CONNCLOSED M then do { c \<leftarrow> rpc_msg_put c m; Some (c, None) }
     else response_start c t m
   }"

section \<open>The receiver\<close>

text \<open>\<^verbatim>\<open>_rpc_response\<close>; the comparison is \<^verbatim>\<open>seqid_cmp\<close>.\<close>

definition seqid_cmp :: "(addr \<rightharpoonup> rpc_msg) \<Rightarrow> u32 \<Rightarrow> addr \<Rightarrow> int" where
  "seqid_cmp ms sid e = (case ms e of None \<Rightarrow> 0 | Some M \<Rightarrow> if seqid (hdr M) - sid = 0 then 1 else 0)"

definition rpc_response_in :: "rpc_chan \<Rightarrow> addr \<Rightarrow> rpc_chan option" where
  "rpc_response_in c r = do {
     R \<leftarrow> msgs c r;
     let b = get_bucket c (seqid (hdr R));
     c_assert (b \<ge> 0 \<and> b < no_buckets (tab (hash c)));
     (rc, e) \<leftarrow> hash_lookup (hash c) b (seqid_cmp (msgs c) (seqid (hdr R)));
     c_assert (rc = 0);
     c_assert (e \<noteq> NULL);
     h \<leftarrow> hash_rem (hash c) e;
     on_msg (c\<lparr>hash := h\<rparr>) e (\<lambda>M. M\<lparr>resp := r, rendez := fst (rendez_wakeup (rendez M) False)\<rparr>)
   }"

text \<open>
  What the receiver waits for: a new message, the header of message \<open>m\<close>, the rest of its header, a
  buffer for the payload, the payload in buffer \<open>b\<close>; or the channel is closed.
\<close>

datatype receiver = RecvNext | RecvHeader addr | RecvRest addr | RecvBuffer addr | RecvPayload addr addr | RecvEnd

text \<open>A handler task \<open>u\<close> is created for the message, or a request is answered.\<close>

datatype delivery = Pending | Handler addr | Answered

definition recv_error :: "rpc_chan \<Rightarrow> addr \<Rightarrow> addr \<Rightarrow> (rpc_chan \<times> receiver \<times> delivery) option" where
  "recv_error c m b = do {
     c \<leftarrow> (if b \<noteq> NULL then do { (p, woken) \<leftarrow> bufpool_put (datapool c) b; Some (c\<lparr>datapool := p\<rparr>) } else Some c);
     c \<leftarrow> on_msg c m RPC_SET_CONNCLOSED;
     Some (c\<lparr>chan_enabled := False\<rparr>, RecvEnd, Handler m)
   }"

text \<open>The message is complete: the rest of the loop of \<^verbatim>\<open>rpc_recv_task\<close>.\<close>

definition recv_message :: "rpc_chan \<Rightarrow> addr \<Rightarrow> (rpc_chan \<times> receiver \<times> delivery) option" where
  "recv_message c m = do {
     M \<leftarrow> msgs c m;
     if RPC_IS_CONNCLOSED M then Some (c\<lparr>chan_enabled := False\<rparr>, RecvEnd, Handler m)
     else if RPC_ISREQ M then Some (c, RecvNext, Handler m)
     else do { c \<leftarrow> rpc_response_in c m; Some (c, RecvNext, Answered) }
   }"

definition recv_next :: "rpc_chan \<Rightarrow> nat \<Rightarrow> addr \<Rightarrow> (rpc_chan \<times> receiver \<times> delivery) option" where
  "recv_next c t a = do {
     (p, r) \<leftarrow> get_buf False (msgpool c) t True a;
     let c = c\<lparr>msgpool := p\<rparr>;
     case r of
       Got m \<Rightarrow>
         if \<not> chan_enabled c then recv_error (alloc_msg c m) m NULL
         else Some (alloc_msg c m, RecvHeader m, Pending)
     | _ \<Rightarrow> None
   }"

text \<open>A buffer for the payload; \<open>t\<close> is the receiver.\<close>

definition recv_buffer :: "rpc_chan \<Rightarrow> bool \<Rightarrow> nat \<Rightarrow> addr \<Rightarrow> addr \<Rightarrow> (rpc_chan \<times> receiver \<times> delivery) option" where
  "recv_buffer c resumed t m a = do {
     (c, r) \<leftarrow> rpc_databuf_get c resumed t a;
     Some (c, case r of Got b \<Rightarrow> RecvPayload m b | _ \<Rightarrow> RecvBuffer m, Pending)
   }"

definition recv_rest :: "rpc_chan \<Rightarrow> nat \<Rightarrow> addr \<Rightarrow> addr \<Rightarrow> int \<Rightarrow> (rpc_chan \<times> receiver \<times> delivery) option" where
  "recv_rest c t m a res = do {
     M \<leftarrow> msgs c m;
     if res \<noteq> 0 then recv_error c m NULL
     else if payloadlen (hdr M) > 0 then
       if ucast (payloadlen (hdr M)) > bufsize (bp (datapool c)) then recv_error c m NULL
       else recv_buffer c False t m a
     else recv_message c m
   }"

text \<open>
  \<open>h\<close> is what has been read as the header. The rest of the message is read into its buffer, behind what
  precedes the header in it: that it fits is an obligation of the program.
\<close>

definition recv_header ::
  "rpc_chan \<Rightarrow> nat \<Rightarrow> addr \<Rightarrow> addr \<Rightarrow> int \<Rightarrow> rpc_msghdr \<Rightarrow> (rpc_chan \<times> receiver \<times> delivery) option" where
  "recv_header c t m a res h = do {
     c \<leftarrow> on_msg c m (\<lambda>M. M\<lparr>hdr := h\<rparr>);
     if res \<noteq> 0 then recv_error c m NULL
     else if ucast (msglen h) > bufsize (bp (msgpool c)) then recv_error c m NULL
     else do {
       let nbytes = (ucast (msglen h) :: u64) - sizeof_msghdr;
       c_assert (sint (ucast nbytes :: u32) \<ge> 0);
       if sint (ucast nbytes :: u32) > 0 then do {
         c_assert (msg_gap + ucast (msglen h) \<le> bufsize (bp (msgpool c)));
         Some (c, RecvRest m, Pending)
       } else recv_rest c t m a 0
     }
   }"

definition recv_payload :: "rpc_chan \<Rightarrow> addr \<Rightarrow> addr \<Rightarrow> int \<Rightarrow> (rpc_chan \<times> receiver \<times> delivery) option" where
  "recv_payload c m b res =
     (if res \<noteq> 0 then recv_error c m b
      else do { c \<leftarrow> on_msg c m (\<lambda>M. M\<lparr>payload := b\<rparr>); recv_message c m })"

section \<open>Setting a channel up\<close>

text \<open>
  \<^verbatim>\<open>rpc_chan_deinit\<close> by task \<open>t\<close>; the flag tells whether it sleeps, in \<^verbatim>\<open>bufpool_deinit\<close> of the pool of
  messages or of the pool of payloads.
\<close>

definition rpc_chan_deinit :: "rpc_chan \<Rightarrow> nat \<Rightarrow> (rpc_chan \<times> bool) option" where
  "rpc_chan_deinit c t = do {
     (p, sleeps) \<leftarrow> bufpool_deinit_start (msgpool c) t;
     if sleeps then Some (c\<lparr>msgpool := p\<rparr>, True)
     else do {
       p \<leftarrow> bufpool_deinit_finish p;
       (d, sleeps) \<leftarrow> bufpool_deinit_start (datapool c) t;
       if sleeps then Some (c\<lparr>msgpool := p, datapool := d\<rparr>, True)
       else do {
         d \<leftarrow> bufpool_deinit_finish d;
         h \<leftarrow> hash_deinit (hash c);
         Some (c\<lparr>infd := 0, outfd := 0, chan_enabled := False, next_seqid := 0, hash := h, msgpool := p, datapool := d,
           fdlock := \<lparr>owner = 0, qwaiting = []\<rparr>\<rparr>, False)
       }
     }
   }"

text \<open>
  \<^verbatim>\<open>rpc_chan_init\<close>: \<open>c\<close> holds the memory before, zeroed by \<^verbatim>\<open>BZERO\<close>; \<open>ma\<close> and \<open>da\<close> are the results of the
  allocations for the two pools, \<open>base\<close> the array of the hash table. The receiver is started last.
\<close>

definition rpc_chan_init ::
  "rpc_chan \<Rightarrow> nat \<Rightarrow> (nat \<Rightarrow> addr) \<Rightarrow> (nat \<Rightarrow> addr) \<Rightarrow> addr \<Rightarrow> int \<Rightarrow> int \<Rightarrow> u64 \<Rightarrow> u64 \<Rightarrow> u64 \<Rightarrow> int \<Rightarrow> (rpc_chan \<times> int) option" where
  "rpc_chan_init c t ma da base infd' outfd' nway msgsz datasz hashsz = do {
     c_assert (msgsz \<ge> sizeof_msghdr \<and> msgsz \<le> 65535);
     let c = c\<lparr>infd := 0, outfd := 0, chan_enabled := False, next_seqid := 0, fdlock := \<lparr>owner = 0, qwaiting = []\<rparr>\<rparr>;
     let msgnbufs = nway + 1;
     let datanbufs = 2 * nway + 2;
     (p, n) \<leftarrow> bufpool_init ma (msgpool c) (msgsz + msg_gap) msgnbufs (msgnbufs * 3);
     let c = c\<lparr>msgpool := p\<rparr>;
     if scast n \<noteq> msgnbufs then do { (c, _) \<leftarrow> rpc_chan_deinit c t; Some (c, RPC_ENOMEM) }
     else do {
       (d, n) \<leftarrow> bufpool_init da (datapool c) datasz datanbufs (datanbufs * 3);
       let c = c\<lparr>datapool := d\<rparr>;
       if scast n \<noteq> datanbufs then do { (c, _) \<leftarrow> rpc_chan_deinit c t; Some (c, RPC_ENOMEM) }
       else do {
         let c = c\<lparr>infd := infd', outfd := outfd', chan_enabled := True, next_seqid := 1\<rparr>;
         (h, res) \<leftarrow> hash_init (hash c) hashsz base;
         let c = c\<lparr>hash := h\<rparr>;
         if res < 0 then do { (c, _) \<leftarrow> rpc_chan_deinit c t; Some (c, res) }
         else Some (c, 0)
       }
     }
   }"

end
