(* ===== verification/Rpc_System.thy ===== *)
theory Rpc_System
  imports Rpc
begin

text \<open>
  One end of a channel as a system of tasks: the tasks that send requests, the receiver, and the
  handlers that it creates. A step is one section of a function between two points where the task can
  be switched. What the peer, the network and the allocator do is in the events.
\<close>

section \<open>Tasks\<close>

text \<open>What a task is about to do; \<open>m\<close> is the message it works on, \<open>b\<close> a buffer for a payload.\<close>

datatype phase =
    Idle
  | DataWait
  | HasBuf addr
  | MsgWait u32 u64 u64 addr
  | Owns addr
  | LockWait addr
  | Sending addr
  | SendingPayload addr
  | Closing addr
  | Failed addr
  | Asleep addr
  | Done addr
  | Handling addr
  | RespWait addr
  | Responding addr
  | RespondingPayload addr
  | RespClosing addr

record rpc_sys =
  chan :: rpc_chan
  ph :: "nat \<Rightarrow> phase"
  rcv :: receiver

definition recv_task :: nat where "recv_task = 1"

text \<open>
  The events: calls of the interface by task \<open>t\<close>, the end of what a task waits for, and the steps of the
  receiver. \<open>a\<close> is what the allocator would return, \<open>res\<close> the result of a read or write, \<open>h\<close> the header read,
  \<open>u\<close> the handler task that may be created.
\<close>

datatype rpc_event =
    GetData nat addr
  | GetDataAgain nat addr
  | PutData nat
  | GetMsg nat u32 u64 u64 addr
  | GetMsgAgain nat addr
  | PutMsg nat
  | Request nat
  | LockGot nat
  | HeaderWritten nat int
  | PayloadWritten nat int
  | ChanClosed nat
  | Wake nat
  | Respond nat
  | DefaultHandler nat
  | RecvMsg nat addr
  | RecvHdr nat int rpc_msghdr addr
  | RecvTail nat int addr
  | RecvBufAgain nat addr
  | RecvData nat int

definition set_phase :: "rpc_sys \<Rightarrow> rpc_chan \<Rightarrow> nat \<Rightarrow> phase \<Rightarrow> rpc_sys" where
  "set_phase s c t p = s\<lparr>chan := c, ph := (ph s)(t := p)\<rparr>"

definition got_data :: "rpc_sys \<Rightarrow> nat \<Rightarrow> (rpc_chan \<times> get_result) option \<Rightarrow> rpc_sys option" where
  "got_data s t r = do {
     (c, r) \<leftarrow> r;
     Some (set_phase s c t (case r of Got b \<Rightarrow> HasBuf b | _ \<Rightarrow> DataWait))
   }"

definition got_msg :: "rpc_sys \<Rightarrow> nat \<Rightarrow> phase \<Rightarrow> (rpc_chan \<times> get_result) option \<Rightarrow> rpc_sys option" where
  "got_msg s t waiting r = do {
     (c, r) \<leftarrow> r;
     Some (set_phase s c t (case r of Got m \<Rightarrow> Owns m | _ \<Rightarrow> waiting))
   }"

definition locked :: "rpc_sys \<Rightarrow> nat \<Rightarrow> phase \<Rightarrow> phase \<Rightarrow> phase \<Rightarrow> (rpc_chan \<times> lock_result option) option \<Rightarrow> rpc_sys option" where
  "locked s t returned got waits r = do {
     (c, r) \<leftarrow> r;
     Some (set_phase s c t (case r of None \<Rightarrow> returned | Some Locked \<Rightarrow> got | Some _ \<Rightarrow> waits))
   }"

definition wrote :: "rpc_sys \<Rightarrow> nat \<Rightarrow> phase \<Rightarrow> phase \<Rightarrow> phase \<Rightarrow> (rpc_chan \<times> write_next) option \<Rightarrow> rpc_sys option" where
  "wrote s t partly written close r = do {
     (c, r) \<leftarrow> r;
     Some (set_phase s c t (case r of WritePayload \<Rightarrow> partly | Written \<Rightarrow> written | CloseChannel \<Rightarrow> close))
   }"

definition received :: "rpc_sys \<Rightarrow> nat \<Rightarrow> (rpc_chan \<times> receiver \<times> delivery) option \<Rightarrow> rpc_sys option" where
  "received s u r = do {
     (c, rc, d) \<leftarrow> r;
     let s = s\<lparr>chan := c, rcv := rc\<rparr>;
     Some (case d of Handler m \<Rightarrow> set_phase s c u (Handling m) | _ \<Rightarrow> s)
   }"

fun rpc_step :: "rpc_event \<Rightarrow> rpc_sys \<Rightarrow> rpc_sys option" where
  "rpc_step (GetData t a) s = got_data s t (rpc_databuf_get (chan s) False t a)"
| "rpc_step (GetDataAgain t a) s = got_data s t (rpc_databuf_get (chan s) True t a)"
| "rpc_step (PutData t) s = (case ph s t of
     HasBuf b \<Rightarrow> do { c \<leftarrow> rpc_databuf_put (chan s) b; Some (set_phase s c t Idle) }
   | _ \<Rightarrow> None)"
| "rpc_step (GetMsg t mtype mlen plen a) s = (let b = (case ph s t of HasBuf b \<Rightarrow> b | _ \<Rightarrow> NULL) in
     got_msg s t (MsgWait mtype mlen plen b) (rpc_msg_get (chan s) False t mtype mlen plen b a))"
| "rpc_step (GetMsgAgain t a) s = (case ph s t of
     MsgWait mtype mlen plen b \<Rightarrow> got_msg s t (MsgWait mtype mlen plen b) (rpc_msg_get (chan s) True t mtype mlen plen b a)
   | _ \<Rightarrow> None)"
| "rpc_step (PutMsg t) s = (case ph s t of
     Owns m \<Rightarrow> do { c \<leftarrow> rpc_msg_put (chan s) m; Some (set_phase s c t Idle) }
   | Done m \<Rightarrow> do { c \<leftarrow> rpc_msg_put (chan s) m; Some (set_phase s c t Idle) }
   | Failed m \<Rightarrow> do { c \<leftarrow> rpc_msg_put (chan s) m; Some (set_phase s c t Idle) }
   | _ \<Rightarrow> None)"
| "rpc_step (Request t) s = (case ph s t of
     Owns m \<Rightarrow> locked s t (Owns m) (Sending m) (LockWait m) (request_start (chan s) t m)
   | _ \<Rightarrow> None)"
| "rpc_step (LockGot t) s = do {
     _ \<leftarrow> qlock_resume (fdlock (chan s)) t;
     case ph s t of
       LockWait m \<Rightarrow> Some (set_phase s (chan s) t (Sending m))
     | RespWait m \<Rightarrow> Some (set_phase s (chan s) t (Responding m))
     | _ \<Rightarrow> None
   }"
| "rpc_step (HeaderWritten t res) s = (case ph s t of
     Sending m \<Rightarrow> wrote s t (SendingPayload m) (Asleep m) (Closing m) (request_header (chan s) t m res)
   | Responding m \<Rightarrow> wrote s t (RespondingPayload m) Idle (RespClosing m) (response_header (chan s) m res)
   | _ \<Rightarrow> None)"
| "rpc_step (PayloadWritten t res) s = (case ph s t of
     SendingPayload m \<Rightarrow> wrote s t (SendingPayload m) (Asleep m) (Closing m) (request_payload (chan s) t m res)
   | RespondingPayload m \<Rightarrow> wrote s t (RespondingPayload m) Idle (RespClosing m) (response_payload (chan s) m res)
   | _ \<Rightarrow> None)"
| "rpc_step (ChanClosed t) s = (case ph s t of
     Closing m \<Rightarrow> do { c \<leftarrow> request_failed (chan s); Some (set_phase s c t (Failed m)) }
   | RespClosing m \<Rightarrow> do { c \<leftarrow> response_failed (chan s) m; Some (set_phase s c t Idle) }
   | _ \<Rightarrow> None)"
| "rpc_step (Wake t) s = (case ph s t of
     Asleep m \<Rightarrow> do { _ \<leftarrow> request_done (chan s) m; Some (set_phase s (chan s) t (Done m)) }
   | _ \<Rightarrow> None)"
| "rpc_step (Respond t) s = (case ph s t of
     Handling m \<Rightarrow> locked s t Idle (Responding m) (RespWait m) (response_start (chan s) t m)
   | _ \<Rightarrow> None)"
| "rpc_step (DefaultHandler t) s = (case ph s t of
     Handling m \<Rightarrow> locked s t Idle (Responding m) (RespWait m) (rpc_default_handler (chan s) t m)
   | _ \<Rightarrow> None)"
| "rpc_step (RecvMsg u a) s = (case rcv s of
     RecvNext \<Rightarrow> received s u (recv_next (chan s) recv_task a)
   | _ \<Rightarrow> None)"
| "rpc_step (RecvHdr u res h a) s = (case rcv s of
     RecvHeader m \<Rightarrow> received s u (recv_header (chan s) recv_task m a res h)
   | _ \<Rightarrow> None)"
| "rpc_step (RecvTail u res a) s = (case rcv s of
     RecvRest m \<Rightarrow> received s u (recv_rest (chan s) recv_task m a res)
   | _ \<Rightarrow> None)"
| "rpc_step (RecvBufAgain u a) s = (case rcv s of
     RecvBuffer m \<Rightarrow> received s u (recv_buffer (chan s) True recv_task m a)
   | _ \<Rightarrow> None)"
| "rpc_step (RecvData u res) s = (case rcv s of
     RecvPayload m b \<Rightarrow> received s u (recv_payload (chan s) m b res)
   | _ \<Rightarrow> None)"

section \<open>What can happen\<close>

definition client :: "nat \<Rightarrow> bool" where
  "client t \<longleftrightarrow> t \<noteq> 0 \<and> t \<noteq> recv_task"

definition idle_client :: "rpc_sys \<Rightarrow> nat \<Rightarrow> bool" where
  "idle_client s u \<longleftrightarrow> client u \<and> ph s u = Idle"

text \<open>The allocator returns null or memory that is not in use.\<close>

definition new_data :: "rpc_chan \<Rightarrow> addr \<Rightarrow> bool" where
  "new_data c a \<longleftrightarrow> (a \<noteq> NULL \<longrightarrow> dlls (qm (datapool c)) a = None)"

definition new_msg :: "rpc_chan \<Rightarrow> addr \<Rightarrow> bool" where
  "new_msg c a \<longleftrightarrow> (a \<noteq> NULL \<longrightarrow> dlls (qm (msgpool c)) a = None \<and> hdlls (hash c) a = None)"

text \<open>The messages of the tasks that send requests.\<close>

fun request_of :: "phase \<Rightarrow> addr option" where
  "request_of (Owns m) = Some m"
| "request_of (LockWait m) = Some m"
| "request_of (Sending m) = Some m"
| "request_of (SendingPayload m) = Some m"
| "request_of (Closing m) = Some m"
| "request_of (Failed m) = Some m"
| "request_of (Asleep m) = Some m"
| "request_of (Done m) = Some m"
| "request_of p = None"

definition seqid_of :: "rpc_chan \<Rightarrow> addr \<Rightarrow> u32 option" where
  "seqid_of c m = map_option (\<lambda>M. seqid (hdr M)) (msgs c m)"

text \<open>The 32-bit sequence number has not come round to that of a request that is still there.\<close>

definition new_seqid :: "rpc_sys \<Rightarrow> bool" where
  "new_seqid s \<longleftrightarrow> (\<forall>t m. request_of (ph s t) = Some m \<longrightarrow> seqid_of (chan s) m \<noteq> Some (next_seqid (chan s)))"

text \<open>The task sleeps in \<^verbatim>\<open>rpc_request\<close> on message \<open>m\<close>.\<close>

definition sleeps_on :: "rpc_sys \<Rightarrow> nat \<Rightarrow> addr \<Rightarrow> bool" where
  "sleeps_on s t m \<longleftrightarrow> ph s t = Asleep m \<and> map_option (\<lambda>M. rz_waiting (rendez M)) (msgs (chan s) m) = Some [t]"

text \<open>The peer answers only requests that it has received as a whole, and each once.\<close>

definition honest :: "rpc_sys \<Rightarrow> rpc_msg \<Rightarrow> bool" where
  "honest s M \<longleftrightarrow> RPC_IS_CONNCLOSED M \<or> RPC_ISREQ M \<or> (\<exists>t m. sleeps_on s t m \<and> seqid_of (chan s) m = Some (seqid (hdr M)))"

definition honest_msg :: "rpc_sys \<Rightarrow> addr \<Rightarrow> bool" where
  "honest_msg s m \<longleftrightarrow> (\<forall>M. msgs (chan s) m = Some M \<longrightarrow> honest s M)"

text \<open>The peer's header is whole, and the message fits into a buffer or is longer than the buffer itself.\<close>

definition good_header :: "rpc_chan \<Rightarrow> rpc_msghdr \<Rightarrow> bool" where
  "good_header c h \<longleftrightarrow> ucast (msglen h) \<ge> sizeof_msghdr \<and>
     (msg_gap + ucast (msglen h) \<le> bufsize (bp (msgpool c)) \<or> ucast (msglen h) > bufsize (bp (msgpool c)))"

fun enabled_event :: "rpc_event \<Rightarrow> rpc_sys \<Rightarrow> bool" where
  "enabled_event (GetData t a) s \<longleftrightarrow> idle_client s t \<and> new_data (chan s) a"
| "enabled_event (GetDataAgain t a) s \<longleftrightarrow> ph s t = DataWait \<and> t \<notin> set (waiters (bp (datapool (chan s)))) \<and> new_data (chan s) a"
| "enabled_event (PutData t) s \<longleftrightarrow> (\<exists>b. ph s t = HasBuf b)"
| "enabled_event (GetMsg t mtype mlen plen a) s \<longleftrightarrow> client t \<and> (ph s t = Idle \<and> plen = 0 \<or> (\<exists>b. ph s t = HasBuf b)) \<and>
     sizeof_msghdr \<le> mlen \<and> mlen \<le> 65535 \<and> new_msg (chan s) a \<and> new_seqid s"
| "enabled_event (GetMsgAgain t a) s \<longleftrightarrow> (\<exists>mtype mlen plen b. ph s t = MsgWait mtype mlen plen b) \<and>
     t \<notin> set (waiters (bp (msgpool (chan s)))) \<and> new_msg (chan s) a \<and> new_seqid s"
| "enabled_event (PutMsg t) s \<longleftrightarrow> (\<exists>m. ph s t = Owns m \<or> ph s t = Done m)"
| "enabled_event (Request t) s \<longleftrightarrow> (\<exists>m. ph s t = Owns m)"
| "enabled_event (LockGot t) s \<longleftrightarrow> (\<exists>m. ph s t = LockWait m \<or> ph s t = RespWait m) \<and> owner (fdlock (chan s)) = t"
| "enabled_event (HeaderWritten t res) s \<longleftrightarrow> (\<exists>m. ph s t = Sending m \<or> ph s t = Responding m)"
| "enabled_event (PayloadWritten t res) s \<longleftrightarrow> (\<exists>m. ph s t = SendingPayload m \<or> ph s t = RespondingPayload m)"
| "enabled_event (ChanClosed t) s \<longleftrightarrow> (\<exists>m. ph s t = Closing m \<or> ph s t = RespClosing m)"
| "enabled_event (Wake t) s \<longleftrightarrow> (\<exists>m. ph s t = Asleep m \<and> \<not> sleeps_on s t m)"
| "enabled_event (Respond t) s \<longleftrightarrow> (\<exists>m. ph s t = Handling m) \<and> chan_enabled (chan s)"
| "enabled_event (DefaultHandler t) s \<longleftrightarrow> (\<exists>m M. ph s t = Handling m \<and> msgs (chan s) m = Some M \<and>
     (RPC_IS_CONNCLOSED M \<or> chan_enabled (chan s) \<and> payloadlen (hdr M) = 0))"
| "enabled_event (RecvMsg u a) s \<longleftrightarrow> rcv s = RecvNext \<and> idle_client s u \<and> new_msg (chan s) a \<and>
     map_option snd (get_buf False (msgpool (chan s)) recv_task True a) \<noteq> Some get_result.Failed"
| "enabled_event (RecvHdr u res h a) s \<longleftrightarrow> (\<exists>m. rcv s = RecvHeader m) \<and> idle_client s u \<and> new_data (chan s) a \<and>
     (res = 0 \<longrightarrow> good_header (chan s) h \<and> honest s (zero_msg\<lparr>hdr := h\<rparr>))"
| "enabled_event (RecvTail u res a) s \<longleftrightarrow> (\<exists>m. rcv s = RecvRest m \<and> honest_msg s m) \<and> idle_client s u \<and> new_data (chan s) a"
| "enabled_event (RecvBufAgain u a) s \<longleftrightarrow> (\<exists>m. rcv s = RecvBuffer m) \<and> recv_task \<notin> set (waiters (bp (datapool (chan s)))) \<and> new_data (chan s) a"
| "enabled_event (RecvData u res) s \<longleftrightarrow> (\<exists>m b. rcv s = RecvPayload m b \<and> honest_msg s m) \<and> idle_client s u"

text \<open>The channel has been set up: \<open>c\<close> is the memory before, the arguments are those of \<^verbatim>\<open>rpc_chan_init\<close>.\<close>

definition rpc_initial :: "rpc_sys \<Rightarrow> bool" where
  "rpc_initial s \<longleftrightarrow> ph s = (\<lambda>_. Idle) \<and> rcv s = RecvNext \<and>
     (\<exists>c t ma da base infd outfd nway msgsz datasz hashsz.
        rpc_chan_init c t ma da base infd outfd nway msgsz datasz hashsz = Some (chan s, 0) \<and>
        msgs c = Map.empty \<and> hdlls (hash c) = Map.empty \<and> bucket (hash c) = Map.empty \<and>
        dlls (qm (msgpool c)) (freelist (bp (msgpool c))) \<noteq> None \<and> q_len (qm (msgpool c)) (freelist (bp (msgpool c))) \<noteq> None \<and>
        dlls (qm (datapool c)) (freelist (bp (datapool c))) \<noteq> None \<and> q_len (qm (datapool c)) (freelist (bp (datapool c))) \<noteq> None \<and>
        good_alloc (msgpool c) ma (unat (nway + 1)) \<and> good_alloc (datapool c) da (unat (2 * nway + 2)) \<and>
        nway < 2 ^ 29 \<and> freelist (bp (msgpool c)) \<noteq> NULL \<and> freelist (bp (datapool c)) \<noteq> NULL \<and> (\<forall>i < unat (nway + 1). \<not> (base \<le> ma i \<and> ma i < base + nat hashsz)))"

inductive rpc_reach :: "rpc_sys \<Rightarrow> bool" where
  start: "rpc_initial s \<Longrightarrow> rpc_reach s"
| event: "rpc_reach s \<Longrightarrow> enabled_event e s \<Longrightarrow> rpc_step e s = Some s' \<Longrightarrow> rpc_reach s'"

end
