(* ===== verification/Rpc_Inv.thy ===== *)
theory Rpc_Inv
  imports Rpc_System
begin

text \<open>
  The invariant of the system of \<^theory_text>\<open>Rpc_System\<close>, in parts: the memory (\<open>mem_ok\<close>), the requests in the hash
  table (\<open>pending_ok\<close>), the lock (\<open>lock_ok\<close>), who holds which buffer (\<open>own_ok\<close>), and what each task and
  the receiver know of their messages (\<open>task_ok\<close>, \<open>recv_ok\<close>). The lemmas say how the operations of the channel
  act on the first two parts.
\<close>

section \<open>The parts of the invariant\<close>

definition mem_ok :: "rpc_chan \<Rightarrow> addr list list \<Rightarrow> addr list \<Rightarrow> addr set \<Rightarrow> addr list \<Rightarrow> addr set \<Rightarrow> bool" where
  "mem_ok c bs xs H ds D \<longleftrightarrow> hash_holds (hash c) bs \<and> pool_ok (msgpool c) xs H \<and> pool_ok (datapool c) ds D \<and>
     state (bp (msgpool c)) = INITIALIZED \<and> state (bp (datapool c)) = INITIALIZED \<and>
     dom (msgs c) = H \<and> dom (bucket (hash c)) = H \<and> set (concat bs) \<subseteq> H \<and>
     (\<forall>a. hdlls (hash c) a \<noteq> None \<longleftrightarrow> a \<in> H \<or> is_head (hash c) a) \<and>
     (\<forall>a \<in> set xs \<union> H. \<not> is_head (hash c) a)"

definition pending_ok :: "rpc_chan \<Rightarrow> addr list list \<Rightarrow> bool" where
  "pending_ok c bs \<longleftrightarrow>
     (\<forall>i < length bs. \<forall>e \<in> set (bs ! i). \<exists>M. msgs c e = Some M \<and> uint (seqid (hdr M)) mod int (length bs) = int i \<and> resp M = NULL)"

fun holds_lock :: "phase \<Rightarrow> bool" where
  "holds_lock (Sending m) = True"
| "holds_lock (SendingPayload m) = True"
| "holds_lock (Closing m) = True"
| "holds_lock (Responding m) = True"
| "holds_lock (RespondingPayload m) = True"
| "holds_lock (RespClosing m) = True"
| "holds_lock p = False"

fun wants_lock :: "phase \<Rightarrow> bool" where
  "wants_lock (LockWait m) = True"
| "wants_lock (RespWait m) = True"
| "wants_lock p = False"

definition lock_sets :: "QLock \<Rightarrow> nat set \<Rightarrow> nat set \<Rightarrow> bool" where
  "lock_sets l A B \<longleftrightarrow> distinct (owner l # qwaiting l) \<and> 0 \<notin> set (qwaiting l) \<and> (owner l = 0 \<longrightarrow> qwaiting l = []) \<and>
     A \<subseteq> {owner l} - {0} \<and> B = insert (owner l) (set (qwaiting l)) - {0} - A"

definition lock_ok :: "QLock \<Rightarrow> (nat \<Rightarrow> phase) \<Rightarrow> bool" where
  "lock_ok l p \<longleftrightarrow> lock_sets l {t. holds_lock (p t)} {t. wants_lock (p t)}"

text \<open>The buffers that a task holds: a message, a buffer for a payload.\<close>

fun handled_of :: "phase \<Rightarrow> addr option" where
  "handled_of (Handling m) = Some m"
| "handled_of (RespWait m) = Some m"
| "handled_of (Responding m) = Some m"
| "handled_of (RespondingPayload m) = Some m"
| "handled_of (RespClosing m) = Some m"
| "handled_of p = None"

definition msg_of :: "phase \<Rightarrow> addr option" where
  "msg_of p = (case request_of p of Some m \<Rightarrow> Some m | None \<Rightarrow> handled_of p)"

fun buf_of :: "phase \<Rightarrow> addr option" where
  "buf_of (HasBuf b) = Some b"
| "buf_of (MsgWait mtype mlen plen b) = (if b = NULL then None else Some b)"
| "buf_of p = None"

fun rmsg_of :: "receiver \<Rightarrow> addr option" where
  "rmsg_of (RecvHeader m) = Some m"
| "rmsg_of (RecvRest m) = Some m"
| "rmsg_of (RecvBuffer m) = Some m"
| "rmsg_of (RecvPayload m b) = Some m"
| "rmsg_of r = None"

fun rbuf_of :: "receiver \<Rightarrow> addr option" where
  "rbuf_of (RecvPayload m b) = Some b"
| "rbuf_of r = None"

definition resp_of :: "(addr \<rightharpoonup> rpc_msg) \<Rightarrow> addr \<Rightarrow> addr option" where
  "resp_of ms m = (case ms m of None \<Rightarrow> None | Some M \<Rightarrow> if resp M = NULL then None else Some (resp M))"

definition payload_of :: "(addr \<rightharpoonup> rpc_msg) \<Rightarrow> addr \<Rightarrow> addr option" where
  "payload_of ms m = (case ms m of None \<Rightarrow> None | Some M \<Rightarrow> if payload M = NULL then None else Some (payload M))"

text \<open>
  Every buffer has one holder: the task, the receiver or the message that knows it. \<open>knows T R I\<close> tells which
  buffer a holder knows.
\<close>

datatype holder = Task nat | Receiver | Message addr

primrec knows :: "(nat \<Rightarrow> addr option) \<Rightarrow> addr option \<Rightarrow> (addr \<Rightarrow> addr option) \<Rightarrow> holder \<Rightarrow> addr option" where
  "knows T R I (Task t) = T t"
| "knows T R I Receiver = R"
| "knows T R I (Message m) = I m"

definition holds :: "(holder \<Rightarrow> addr option) \<Rightarrow> (addr \<Rightarrow> holder) \<Rightarrow> addr set \<Rightarrow> bool" where
  "holds K own H \<longleftrightarrow> (\<forall>h x. K h = Some x \<longrightarrow> x \<in> H \<and> own x = h)"

definition msg_known :: "(addr \<rightharpoonup> rpc_msg) \<Rightarrow> (nat \<Rightarrow> phase) \<Rightarrow> receiver \<Rightarrow> holder \<Rightarrow> addr option" where
  "msg_known ms p r = knows (\<lambda>t. msg_of (p t)) (rmsg_of r) (resp_of ms)"

definition buf_known :: "(addr \<rightharpoonup> rpc_msg) \<Rightarrow> (nat \<Rightarrow> phase) \<Rightarrow> receiver \<Rightarrow> holder \<Rightarrow> addr option" where
  "buf_known ms p r = knows (\<lambda>t. buf_of (p t)) (rbuf_of r) (payload_of ms)"

definition own_ok :: "(addr \<rightharpoonup> rpc_msg) \<Rightarrow> (nat \<Rightarrow> phase) \<Rightarrow> receiver \<Rightarrow> (addr \<Rightarrow> holder) \<Rightarrow> (addr \<Rightarrow> holder) \<Rightarrow> addr set \<Rightarrow> addr set \<Rightarrow> bool" where
  "own_ok ms p r own down H D \<longleftrightarrow> holds (msg_known ms p r) own H \<and> holds (buf_known ms p r) down D \<and>
     (\<forall>m x. resp_of ms m = Some x \<longrightarrow> resp_of ms x = None)"

text \<open>A message whose entry is on no list, a message that can be sent, a request that has its response.\<close>

definition free_entry :: "rpc_chan \<Rightarrow> addr set \<Rightarrow> addr \<Rightarrow> bool" where
  "free_entry c P m \<longleftrightarrow> m \<notin> P \<and> ring (hdlls (hash c)) m []"

definition sendable :: "rpc_msg \<Rightarrow> bool" where
  "sendable M \<longleftrightarrow> ucast (msglen (hdr M)) \<ge> sizeof_msghdr \<and> (payload M \<noteq> NULL \<or> payloadlen (hdr M) = 0) \<and> resp M = NULL"

definition answered :: "rpc_chan \<Rightarrow> addr set \<Rightarrow> addr \<Rightarrow> rpc_msg \<Rightarrow> bool" where
  "answered c P m M \<longleftrightarrow> free_entry c P m \<and> rendez M = no_sleeper \<and> resp M \<noteq> NULL \<and> seqid_of c (resp M) = Some (seqid (hdr M))"

definition queued :: "rpc_chan \<Rightarrow> addr set \<Rightarrow> addr \<Rightarrow> nat list \<Rightarrow> bool" where
  "queued c P m ts \<longleftrightarrow> m \<in> P \<and> (\<exists>M. msgs c m = Some M \<and> rendez M = \<lparr>rlk = None, rz_waiting = ts\<rparr>)"

definition unhashed :: "rpc_chan \<Rightarrow> addr set \<Rightarrow> addr \<Rightarrow> (rpc_msg \<Rightarrow> bool) \<Rightarrow> bool" where
  "unhashed c P m Q \<longleftrightarrow> m \<notin> P \<and> (\<exists>M. msgs c m = Some M \<and> resp M = NULL \<and> Q M)"

fun task_ok :: "rpc_chan \<Rightarrow> addr set \<Rightarrow> nat \<Rightarrow> phase \<Rightarrow> bool" where
  "task_ok c P t (HasBuf b) \<longleftrightarrow> b \<noteq> NULL"
| "task_ok c P t (MsgWait mtype mlen plen b) \<longleftrightarrow> sizeof_msghdr \<le> mlen \<and> mlen \<le> 65535 \<and> (b \<noteq> NULL \<or> plen = 0)"
| "task_ok c P t (Owns m) \<longleftrightarrow> free_entry c P m \<and> (\<exists>M. msgs c m = Some M \<and> sendable M \<and> rendez M = no_sleeper)"
| "task_ok c P t (LockWait m) \<longleftrightarrow> queued c P m []"
| "task_ok c P t (Sending m) \<longleftrightarrow> queued c P m []"
| "task_ok c P t (SendingPayload m) \<longleftrightarrow> queued c P m []"
| "task_ok c P t (Closing m) \<longleftrightarrow> queued c P m []"
| "task_ok c P t (Failed m) \<longleftrightarrow> queued c P m []"
| "task_ok c P t (Asleep m) \<longleftrightarrow> queued c P m [t] \<or> (\<exists>M. msgs c m = Some M \<and> answered c P m M)"
| "task_ok c P t (Done m) \<longleftrightarrow> (\<exists>M. msgs c m = Some M \<and> answered c P m M)"
| "task_ok c P t (Handling m) \<longleftrightarrow> unhashed c P m (\<lambda>M. if RPC_IS_CONNCLOSED M then \<not> chan_enabled c else sendable M)"
| "task_ok c P t (RespWait m) \<longleftrightarrow> unhashed c P m (\<lambda>_. True)"
| "task_ok c P t (Responding m) \<longleftrightarrow> unhashed c P m (\<lambda>_. True)"
| "task_ok c P t (RespondingPayload m) \<longleftrightarrow> unhashed c P m (\<lambda>_. True)"
| "task_ok c P t (RespClosing m) \<longleftrightarrow> unhashed c P m (\<lambda>_. True)"
| "task_ok c P t p \<longleftrightarrow> True"

definition whole_header :: "rpc_msg \<Rightarrow> bool" where
  "whole_header M \<longleftrightarrow> ucast (msglen (hdr M)) \<ge> sizeof_msghdr"

fun recv_ok :: "rpc_chan \<Rightarrow> addr set \<Rightarrow> receiver \<Rightarrow> bool" where
  "recv_ok c P (RecvHeader m) \<longleftrightarrow> unhashed c P m (\<lambda>_. True)"
| "recv_ok c P (RecvRest m) \<longleftrightarrow> unhashed c P m whole_header"
| "recv_ok c P (RecvBuffer m) \<longleftrightarrow> unhashed c P m whole_header"
| "recv_ok c P (RecvPayload m b) \<longleftrightarrow> b \<noteq> NULL \<and> unhashed c P m whole_header"
| "recv_ok c P r \<longleftrightarrow> True"

text \<open>Every entry of the hash table belongs to a task that sends a request, and no two have one number.\<close>

definition seqids_ok :: "rpc_chan \<Rightarrow> addr set \<Rightarrow> (nat \<Rightarrow> phase) \<Rightarrow> bool" where
  "seqids_ok c P p \<longleftrightarrow> (\<forall>m \<in> P. \<exists>t. request_of (p t) = Some m) \<and>
     (\<forall>t u m n. request_of (p t) = Some m \<longrightarrow> request_of (p u) = Some n \<longrightarrow> seqid_of c m = seqid_of c n \<longrightarrow> m = n)"

definition inv_parts ::
  "rpc_sys \<Rightarrow> addr list list \<Rightarrow> addr list \<Rightarrow> addr set \<Rightarrow> addr list \<Rightarrow> addr set \<Rightarrow> (addr \<Rightarrow> holder) \<Rightarrow> (addr \<Rightarrow> holder) \<Rightarrow> bool" where
  "inv_parts s bs xs H ds D own down \<longleftrightarrow>
     mem_ok (chan s) bs xs H ds D \<and> pending_ok (chan s) bs \<and> lock_ok (fdlock (chan s)) (ph s) \<and>
     own_ok (msgs (chan s)) (ph s) (rcv s) own down H D \<and> seqids_ok (chan s) (set (concat bs)) (ph s) \<and>
     (\<forall>t. task_ok (chan s) (set (concat bs)) t (ph s t)) \<and> recv_ok (chan s) (set (concat bs)) (rcv s) \<and>
     (\<forall>t. ph s t \<noteq> Idle \<longrightarrow> client t)"

definition rpc_inv :: "rpc_sys \<Rightarrow> bool" where
  "rpc_inv s \<longleftrightarrow> (\<exists>bs xs H ds D own down. inv_parts s bs xs H ds D own down)"

section \<open>The memory\<close>

lemma memD:
  assumes "mem_ok c bs xs H ds D"
  shows "hash_holds (hash c) bs" "pool_ok (msgpool c) xs H" "pool_ok (datapool c) ds D"
    "state (bp (msgpool c)) = INITIALIZED" "state (bp (datapool c)) = INITIALIZED"
    "dom (msgs c) = H" "dom (bucket (hash c)) = H" "set (concat bs) \<subseteq> H"
    "hdlls (hash c) a \<noteq> None \<longleftrightarrow> a \<in> H \<or> is_head (hash c) a" "a \<in> set xs \<union> H \<Longrightarrow> \<not> is_head (hash c) a"
  using assms by (auto simp: mem_ok_def)

lemma mem_in: "mem_ok c bs xs H ds D \<Longrightarrow> m \<in> H \<longleftrightarrow> (\<exists>M. msgs c m = Some M)"
  using memD(6) [of c bs xs H ds D] by auto

lemma mem_nonnull: "mem_ok c bs xs H ds D \<Longrightarrow> m \<in> H \<Longrightarrow> m \<noteq> NULL"
  using memD(2) [of c bs xs H ds D] by (simp add: pool_ok_def)

lemma data_nonnull: "mem_ok c bs xs H ds D \<Longrightarrow> b \<in> D \<Longrightarrow> b \<noteq> NULL"
  using memD(3) [of c bs xs H ds D] by (simp add: pool_ok_def)

text \<open>The hash table does not notice changes of nodes that are on none of its lists.\<close>

lemma hash_holds_frame:
  assumes h: "hash_holds m bs" and t: "tab m' = tab m"
    and d: "\<And>a. a \<in> set (concat bs) \<or> is_head m a \<Longrightarrow> hdlls m' a = hdlls m a"
    and b: "\<And>a. a \<in> set (concat bs) \<Longrightarrow> bucket m' a = bucket m a"
  shows "hash_holds m' bs"
  unfolding hash_holds_def
proof (intro conjI allI impI, goal_cases)
  case (5 i)
  show ?case
    unfolding t
  proof (rule ring_frame [OF hash_holdsD(1) [OF h 5]])
    show "\<forall>x \<in> set ((buckets (tab m) + i) # bs ! i). hdlls m' x = hdlls m x"
      using d hash_holdsD(5) [OF h 5] 5 by (auto intro!: nth_mem)
  qed
next
  case (6 i)
  have "e \<in> set (concat bs)" if "e \<in> set (bs ! i)" for e using that 6 by auto
  then show ?case using hash_holdsD(2) [OF h 6] b t by (auto simp: is_head_def)
qed (use h t in \<open>simp_all add: hash_holds_def\<close>)

lemma on_msg_mem:
  assumes ok: "mem_ok c bs xs H ds D" and M: "msgs c m = Some M"
  shows "on_msg c m f = Some (c\<lparr>msgs := (msgs c)(m \<mapsto> f M)\<rparr>) \<and> mem_ok (c\<lparr>msgs := (msgs c)(m \<mapsto> f M)\<rparr>) bs xs H ds D"
  using assms memD(6) [OF ok] by (auto simp: on_msg_def mem_ok_def)

lemma mem_fields:
  "mem_ok (c\<lparr>fdlock := l\<rparr>) bs xs H ds D = mem_ok c bs xs H ds D"
  "mem_ok (c\<lparr>chan_enabled := e\<rparr>) bs xs H ds D = mem_ok c bs xs H ds D"
  "mem_ok (c\<lparr>infd := i, outfd := j\<rparr>) bs xs H ds D = mem_ok c bs xs H ds D"
  "mem_ok (c\<lparr>next_seqid := n\<rparr>) bs xs H ds D = mem_ok c bs xs H ds D"
  by (simp_all add: mem_ok_def)

text \<open>A buffer becomes a message, and back.\<close>

lemma alloc_mem:
  assumes ok: "mem_ok c bs xs H ds D" and p: "pool_ok p ys (insert m H)" "state (bp p) = INITIALIZED" "set ys \<subseteq> set xs"
    and m: "m \<notin> H" "\<not> is_head (hash c) m"
  shows "mem_ok (alloc_msg (c\<lparr>msgpool := p\<rparr>) m) bs ys (insert m H) ds D"
proof -
  let ?c = "alloc_msg (c\<lparr>msgpool := p\<rparr>) m"
  have mP: "m \<notin> set (concat bs)" using memD(8) [OF ok] m(1) by blast
  have "hash_holds (hash ?c) bs"
    by (rule hash_holds_frame [OF memD(1) [OF ok]]) (use mP m(2) in \<open>auto simp: alloc_msg_def\<close>)
  then show ?thesis
    using ok p m unfolding mem_ok_def by (auto simp: alloc_msg_def is_head_def)
qed

lemma put_msg_mem:
  assumes ok: "mem_ok c bs xs H ds D" and m: "m \<in> H" "m \<notin> set (concat bs)"
  shows "\<exists>c' ys. put_msg c m = Some c' \<and> mem_ok c' bs ys (H - {m}) ds D \<and> msgs c' = (msgs c)(m := None) \<and>
     (\<forall>a. a \<noteq> m \<longrightarrow> hdlls (hash c') a = hdlls (hash c) a) \<and>
     fdlock c' = fdlock c \<and> chan_enabled c' = chan_enabled c \<and> next_seqid c' = next_seqid c \<and> datapool c' = datapool c"
proof -
  from pool_put [OF memD(2) [OF ok] m(1) memD(4) [OF ok]] obtain p where p: "bufpool_put (msgpool c) m = Some (p, take 1 (waiters (bp (msgpool c))))"
    "pool_ok p (if owned (bp (msgpool c)) \<le> nbufs (bp (msgpool c)) then xs @ [m] else xs) (H - {m})" "state (bp p) = INITIALIZED" by metis
  let ?c = "free_msg (c\<lparr>msgpool := p\<rparr>) m"
  let ?ys = "if owned (bp (msgpool c)) \<le> nbufs (bp (msgpool c)) then xs @ [m] else xs"
  have nh: "\<not> is_head (hash c) m" using memD(10) [OF ok] m(1) by blast
  have "hash_holds (hash ?c) bs"
    by (rule hash_holds_frame [OF memD(1) [OF ok]]) (use m(2) nh in \<open>auto simp: free_msg_def\<close>)
  then have "mem_ok ?c bs ?ys (H - {m}) ds D"
    using ok p(2,3) m nh unfolding mem_ok_def by (auto simp: free_msg_def is_head_def)
  moreover obtain M where "msgs c m = Some M" using mem_in [OF ok] m(1) by blast
  ultimately show ?thesis using p(1)
    by (intro exI [of _ ?c] exI [of _ ?ys]) (simp add: put_msg_def free_msg_def)
qed

lemma data_put_mem:
  assumes ok: "mem_ok c bs xs H ds D" and b: "b \<in> D"
  shows "\<exists>p es w. bufpool_put (datapool c) b = Some (p, w) \<and> mem_ok (c\<lparr>datapool := p\<rparr>) bs xs H es (D - {b})"
proof -
  from pool_put [OF memD(3) [OF ok] b memD(5) [OF ok]] obtain p where "bufpool_put (datapool c) b = Some (p, take 1 (waiters (bp (datapool c))))"
    "pool_ok p (if owned (bp (datapool c)) \<le> nbufs (bp (datapool c)) then ds @ [b] else ds) (D - {b})" "state (bp p) = INITIALIZED" by metis
  then show ?thesis using ok unfolding mem_ok_def
    by (intro exI [of _ p] exI [of _ "if owned (bp (datapool c)) \<le> nbufs (bp (datapool c)) then ds @ [b] else ds"] exI) auto
qed

lemma databuf_put_mem:
  assumes ok: "mem_ok c bs xs H ds D" and b: "b \<in> D"
  shows "\<exists>p es. rpc_databuf_put c b = Some (c\<lparr>datapool := p\<rparr>) \<and> mem_ok (c\<lparr>datapool := p\<rparr>) bs xs H es (D - {b})"
  using data_put_mem [OF ok b] data_nonnull [OF ok b] by (auto simp: rpc_databuf_put_def)

text \<open>A buffer is taken, or the task is queued in the pool.\<close>

lemma databuf_get_mem:
  assumes ok: "mem_ok c bs xs H ds D" and a: "new_data c a"
  shows "\<exists>p es r. rpc_databuf_get c res t a = Some (c\<lparr>datapool := p\<rparr>, r) \<and>
     ((\<exists>b. r = Got b \<and> b \<notin> D \<and> b \<noteq> NULL \<and> mem_ok (c\<lparr>datapool := p\<rparr>) bs xs H es (insert b D)) \<or>
      r = Slept \<and> mem_ok (c\<lparr>datapool := p\<rparr>) bs xs H es D)"
proof -
  have a': "a \<noteq> NULL \<Longrightarrow> dlls (qm (datapool c)) a = None" using a by (simp add: new_data_def)
  have g: "get_buf res (datapool c) t False a = bufpool_get_pass (datapool c) t False a"
    using memD(5) [OF ok] by (simp add: get_buf_def bufpool_get_def)
  show ?thesis
  proof (rule pool_get_pass [OF memD(3) [OF ok] a', of t False])
    fix p b es
    assume p: "bufpool_get_pass (datapool c) t False a = Some (p, Got b)" "pool_ok p es (insert b D)" "b \<notin> D"
      "state (bp p) = state (bp (datapool c))"
    then have "mem_ok (c\<lparr>datapool := p\<rparr>) bs xs H es (insert b D)" using ok by (auto simp: mem_ok_def)
    with p(1,3) g data_nonnull [OF this, of b] show ?thesis
      by (intro exI [of _ p] exI [of _ es] exI [of _ "Got b"]) (auto simp: rpc_databuf_get_def)
  next
    let ?p = "(datapool c)\<lparr>bp := (bp (datapool c))\<lparr>waiters := waiters (bp (datapool c)) @ [t]\<rparr>\<rparr>"
    assume "bufpool_get_pass (datapool c) t False a =
      Some (if False then (datapool c, get_result.Failed) else (?p, Slept))"
    moreover have "mem_ok (c\<lparr>datapool := ?p\<rparr>) bs xs H ds D"
      using ok by (simp add: mem_ok_def pool_ok_waiters)
    ultimately show ?thesis using g
      by (intro exI [of _ ?p] exI [of _ ds] exI [of _ Slept]) (simp add: rpc_databuf_get_def)
  qed auto
qed


section \<open>What a task does not notice\<close>

text \<open>Message \<open>m\<close> looks the same in \<open>c'\<close>; so does the number of its response.\<close>

definition unseen :: "rpc_chan \<Rightarrow> addr set \<Rightarrow> rpc_chan \<Rightarrow> addr set \<Rightarrow> addr \<Rightarrow> bool" where
  "unseen c P c' P' m \<longleftrightarrow> msgs c' m = msgs c m \<and> (m \<in> P' \<longleftrightarrow> m \<in> P) \<and>
     (m \<notin> P \<longrightarrow> hdlls (hash c') m = hdlls (hash c) m) \<and>
     (\<forall>M. msgs c m = Some M \<longrightarrow> resp M \<noteq> NULL \<longrightarrow> seqid_of c' (resp M) = seqid_of c (resp M))"

lemma ring_same: "h' m = h m \<Longrightarrow> ring h' m [] = ring h m []"
  by (auto intro: ring_frame)

lemma unseen_free: "unseen c P c' P' m \<Longrightarrow> free_entry c P m \<Longrightarrow> free_entry c' P' m"
  unfolding unseen_def free_entry_def using ring_same by blast

lemma unseen_answered:
  "unseen c P c' P' m \<Longrightarrow> msgs c m = Some M \<Longrightarrow> answered c P m M \<Longrightarrow> answered c' P' m M"
  using unseen_free [of c P c' P' m] unfolding answered_def unseen_def by simp

lemma unseen_queued: "unseen c P c' P' m \<Longrightarrow> queued c P m ts \<Longrightarrow> queued c' P' m ts"
  unfolding queued_def unseen_def by simp

lemma unseen_unhashed: "unseen c P c' P' m \<Longrightarrow> unhashed c P m Q \<Longrightarrow> unhashed c' P' m Q"
  unfolding unhashed_def unseen_def by simp

lemma task_frame:
  assumes "task_ok c P t p" and u: "\<And>m. msg_of p = Some m \<Longrightarrow> unseen c P c' P' m" and e: "chan_enabled c' \<Longrightarrow> chan_enabled c"
  shows "task_ok c' P' t p"
proof (cases p)
  case (Owns m)
  with u [of m] assms(1) unseen_free [of c P c' P' m] show ?thesis by (auto simp: msg_of_def unseen_def)
next
  case (Asleep m)
  with u [of m] assms(1) unseen_queued [of c P c' P' m] unseen_answered [of c P c' P' m] show ?thesis
    by (auto simp: msg_of_def unseen_def)
next
  case (Done m)
  with u [of m] assms(1) unseen_answered [of c P c' P' m] show ?thesis
    by (auto simp: msg_of_def unseen_def)
next
  case (Handling m)
  with u [of m] have "unseen c P c' P' m" by (simp add: msg_of_def)
  moreover have "unhashed c P m (\<lambda>M. if RPC_IS_CONNCLOSED M then \<not> chan_enabled c' else sendable M)"
    using assms(1) e unfolding Handling task_ok.simps unhashed_def by auto
  ultimately show ?thesis unfolding Handling task_ok.simps by (rule unseen_unhashed)
qed (use assms(1) u unseen_queued unseen_unhashed in \<open>auto simp: msg_of_def\<close>)

lemma recv_frame:
  assumes "recv_ok c P r" and "\<And>m. rmsg_of r = Some m \<Longrightarrow> unseen c P c' P' m"
  shows "recv_ok c' P' r"
  using assms unseen_unhashed by (cases r) auto

lemma pending_frame:
  assumes "pending_ok c bs" and "\<And>m. m \<in> set (concat bs) \<Longrightarrow> msgs c' m = msgs c m"
  shows "pending_ok c' bs"
proof -
  have "e \<in> set (concat bs)" if "i < length bs" "e \<in> set (bs ! i)" for i e using that by auto
  with assms show ?thesis unfolding pending_ok_def by simp
qed

text \<open>The locks.\<close>

lemma lock_upd:
  "{u. holds_lock ((p(t := q)) u)} = (if holds_lock q then insert t {u. holds_lock (p u)} else {u. holds_lock (p u)} - {t})"
  "{u. wants_lock ((p(t := q)) u)} = (if wants_lock q then insert t {u. wants_lock (p u)} else {u. wants_lock (p u)} - {t})"
  by (auto simp: fun_upd_apply)

lemma not_both: "holds_lock q \<Longrightarrow> \<not> wants_lock q"
  by (cases q) auto

lemma lock_frame:
  assumes "lock_ok l p" and q: "holds_lock q = holds_lock (p t)" "wants_lock q = wants_lock (p t)"
  shows "lock_ok l (p(t := q))"
proof -
  have "{u. holds_lock ((p(t := q)) u)} = {u. holds_lock (p u)}" "{u. wants_lock ((p(t := q)) u)} = {u. wants_lock (p u)}"
    using q by (auto simp: fun_upd_apply)
  with assms(1) show ?thesis by (simp only: lock_ok_def)
qed

lemma sets_take:
  assumes "lock_sets l A B" "t \<noteq> 0" "t \<notin> A" "t \<notin> B"
  shows "if owner l = 0 then lock_sets (l\<lparr>owner := t\<rparr>) (insert t A) (B - {t})
    else lock_sets (l\<lparr>qwaiting := qwaiting l @ [t]\<rparr>) (A - {t}) (insert t B)"
  using assms unfolding lock_sets_def by auto

lemma sets_give:
  assumes "lock_sets l A B" "t \<in> A"
  shows "\<exists>l' w. qunlock l = Some (l', w) \<and> lock_sets l' (A - {t}) (B - {t})"
proof (cases "qwaiting l")
  case Nil
  have o: "owner l \<noteq> 0" using assms unfolding lock_sets_def by auto
  have "lock_sets (l\<lparr>owner := 0\<rparr>) (A - {t}) (B - {t})" using assms Nil unfolding lock_sets_def by auto
  with o Nil show ?thesis by (auto simp: qunlock_def)
next
  case (Cons u ws)
  with assms show ?thesis unfolding lock_sets_def by (auto simp: qunlock_def)
qed

lemma lock_take:
  assumes ok: "lock_ok l p" and t: "t \<noteq> 0" "\<not> holds_lock (p t)" "\<not> wants_lock (p t)"
    and q: "holds_lock q" and q': "wants_lock q'"
  shows "qlock l t = (l\<lparr>owner := t\<rparr>, Locked) \<and> lock_ok (l\<lparr>owner := t\<rparr>) (p(t := q)) \<or>
    qlock l t = (l\<lparr>qwaiting := qwaiting l @ [t]\<rparr>, Waits) \<and> lock_ok (l\<lparr>qwaiting := qwaiting l @ [t]\<rparr>) (p(t := q'))"
proof -
  note s = sets_take [OF ok [unfolded lock_ok_def] t(1)]
  have "\<not> holds_lock q'" using not_both [of q'] q' by blast
  with s t(2,3) q q' not_both [OF q] show ?thesis
    unfolding lock_ok_def lock_upd by (auto simp: qlock_def qlock_op_def split: if_splits)
qed

lemma lock_give:
  assumes ok: "lock_ok l p" and t: "holds_lock (p t)" and q: "\<not> holds_lock q" "\<not> wants_lock q"
  shows "\<exists>l' w. qunlock l = Some (l', w) \<and> lock_ok l' (p(t := q))"
  using sets_give [OF ok [unfolded lock_ok_def], of t] t q unfolding lock_ok_def lock_upd by simp

lemma lock_got:
  assumes ok: "lock_ok l p" and t: "owner l = t" "wants_lock (p t)" and q: "holds_lock q"
  shows "lock_ok l (p(t := q))"
  using ok t q not_both [OF q] unfolding lock_ok_def lock_upd by (auto simp: lock_sets_def)

lemma lock_clients: "lock_ok l p \<Longrightarrow> holds_lock (p t) \<or> wants_lock (p t) \<Longrightarrow> t \<noteq> 0"
  by (auto simp: lock_ok_def lock_sets_def)

section \<open>Changes of the holder\<close>

lemma holds_take: "holds K own H \<Longrightarrow> x \<notin> H \<Longrightarrow> holds (K(h := Some x)) (own(x := h)) (insert x H)"
  unfolding holds_def by (auto simp: fun_upd_apply)

lemma holdsD: "holds K own H \<Longrightarrow> K h = Some x \<Longrightarrow> x \<in> H \<and> own x = h"
  unfolding holds_def by blast

lemma holds_unique: "holds K own H \<Longrightarrow> K h = Some x \<Longrightarrow> K g = Some x \<Longrightarrow> g = h"
  using holdsD by metis

lemma holds_drop:
  assumes k: "holds K own H" and x: "K h = Some x"
  shows "holds (K(h := None)) own (H - {x})"
  unfolding holds_def
proof (intro allI impI)
  fix g y assume "(K(h := None)) g = Some y"
  then have g: "g \<noteq> h" "K g = Some y" by (simp_all split: if_splits)
  then have "y \<noteq> x" using holds_unique [OF k x] by blast
  with holdsD [OF k g(2)] show "y \<in> H - {x} \<and> own y = g" by simp
qed

lemma holds_move:
  assumes k: "holds K own H" and x: "K h = Some x"
  shows "holds (K(h := None, g := Some x)) (own(x := g)) H"
  unfolding holds_def
proof (intro allI impI)
  fix f y assume f: "(K(h := None, g := Some x)) f = Some y"
  show "y \<in> H \<and> (own(x := g)) y = f"
  proof (cases "f = g")
    case True
    with f holdsD [OF k x] show ?thesis by simp
  next
    case False
    with f have f': "f \<noteq> h" "K f = Some y" by (simp_all split: if_splits)
    then have "y \<noteq> x" using holds_unique [OF k x] by blast
    with holdsD [OF k f'(2)] show ?thesis by simp
  qed
qed

lemma holds_less: "holds K own H \<Longrightarrow> holds (K(h := None)) own H"
  unfolding holds_def by (auto simp: fun_upd_apply)

text \<open>A step of a task, of the receiver, and a change of a message.\<close>

lemma knows_task: "knows (T(t := v)) R I = (knows T R I)(Task t := v)"
  by (rule ext, rename_tac h, case_tac h) auto

lemma knows_recv: "knows T v I = (knows T R I)(Receiver := v)"
  by (rule ext, rename_tac h, case_tac h) auto

lemma knows_msg: "knows T R (I(m := v)) = (knows T R I)(Message m := v)"
  by (rule ext, rename_tac h, case_tac h) auto

lemma known_task:
  "msg_known ms (p(t := q)) r = (msg_known ms p r)(Task t := msg_of q)"
  "buf_known ms (p(t := q)) r = (buf_known ms p r)(Task t := buf_of q)"
proof -
  have "(\<lambda>u. msg_of ((p(t := q)) u)) = (\<lambda>u. msg_of (p u))(t := msg_of q)"
    "(\<lambda>u. buf_of ((p(t := q)) u)) = (\<lambda>u. buf_of (p u))(t := buf_of q)" by auto
  then show "msg_known ms (p(t := q)) r = (msg_known ms p r)(Task t := msg_of q)"
    "buf_known ms (p(t := q)) r = (buf_known ms p r)(Task t := buf_of q)"
    unfolding msg_known_def buf_known_def by (simp_all only: knows_task)
qed

lemma known_recv:
  "msg_known ms p r' = (msg_known ms p r)(Receiver := rmsg_of r')"
  "buf_known ms p r' = (buf_known ms p r)(Receiver := rbuf_of r')"
  unfolding msg_known_def buf_known_def by (rule knows_recv)+

lemma known_msg:
  "msg_known (ms(m \<mapsto> M)) p r = (msg_known ms p r)(Message m := if resp M = NULL then None else Some (resp M))"
  "buf_known (ms(m \<mapsto> M)) p r = (buf_known ms p r)(Message m := if payload M = NULL then None else Some (payload M))"
  "msg_known (ms(m := None)) p r = (msg_known ms p r)(Message m := None)"
  "buf_known (ms(m := None)) p r = (buf_known ms p r)(Message m := None)"
proof -
  have "resp_of (ms(m \<mapsto> M)) = (resp_of ms)(m := if resp M = NULL then None else Some (resp M))"
    "payload_of (ms(m \<mapsto> M)) = (payload_of ms)(m := if payload M = NULL then None else Some (payload M))"
    "resp_of (ms(m := None)) = (resp_of ms)(m := None)" "payload_of (ms(m := None)) = (payload_of ms)(m := None)"
    by (auto simp: resp_of_def payload_of_def)
  then show "msg_known (ms(m \<mapsto> M)) p r = (msg_known ms p r)(Message m := if resp M = NULL then None else Some (resp M))"
    "buf_known (ms(m \<mapsto> M)) p r = (buf_known ms p r)(Message m := if payload M = NULL then None else Some (payload M))"
    "msg_known (ms(m := None)) p r = (msg_known ms p r)(Message m := None)"
    "buf_known (ms(m := None)) p r = (buf_known ms p r)(Message m := None)"
    unfolding msg_known_def buf_known_def by (simp_all only: knows_msg)
qed

lemma known_simps:
  "msg_known ms p r (Task t) = msg_of (p t)" "buf_known ms p r (Task t) = buf_of (p t)"
  "msg_known ms p r Receiver = rmsg_of r" "buf_known ms p r Receiver = rbuf_of r"
  "msg_known ms p r (Message m) = resp_of ms m" "buf_known ms p r (Message m) = payload_of ms m"
  by (simp_all add: msg_known_def buf_known_def)

text \<open>What does not change any holder.\<close>

lemma same_task: "msg_of q = msg_of (p t) \<Longrightarrow> msg_known ms (p(t := q)) r = msg_known ms p r"
  "buf_of q = buf_of (p t) \<Longrightarrow> buf_known ms (p(t := q)) r = buf_known ms p r"
  by (simp_all add: known_task fun_upd_idem known_simps)

lemma same_msg:
  "ms m = Some M \<Longrightarrow> resp M' = resp M \<Longrightarrow> msg_known (ms(m \<mapsto> M')) p r = msg_known ms p r"
  "ms m = Some M \<Longrightarrow> payload M' = payload M \<Longrightarrow> buf_known (ms(m \<mapsto> M')) p r = buf_known ms p r"
  "ms m = Some M \<Longrightarrow> resp M' = resp M \<Longrightarrow> resp_of (ms(m \<mapsto> M')) = resp_of ms"
proof -
  assume m: "ms m = Some M"
  have i: "resp M' = resp M \<Longrightarrow> resp_of (ms(m \<mapsto> M')) = resp_of ms"
    "payload M' = payload M \<Longrightarrow> payload_of (ms(m \<mapsto> M')) = payload_of ms" using m by (auto simp: resp_of_def payload_of_def)
  show "resp M' = resp M \<Longrightarrow> msg_known (ms(m \<mapsto> M')) p r = msg_known ms p r"
    "payload M' = payload M \<Longrightarrow> buf_known (ms(m \<mapsto> M')) p r = buf_known ms p r"
    "resp M' = resp M \<Longrightarrow> resp_of (ms(m \<mapsto> M')) = resp_of ms"
    using i by (simp_all only: msg_known_def buf_known_def)
qed

end
