(* ===== verification/Rpc_Steps.thy ===== *)
theory Rpc_Steps
  imports Rpc_Inv
begin

text \<open>
  Every event of \<^theory_text>\<open>Rpc_System\<close> returns in a state in which the invariant holds, and leads to such a state.
\<close>

section \<open>How a step is proved\<close>

lemma partsD:
  assumes "inv_parts s bs xs H ds D own down"
  shows "mem_ok (chan s) bs xs H ds D" "pending_ok (chan s) bs" "lock_ok (fdlock (chan s)) (ph s)"
    "own_ok (msgs (chan s)) (ph s) (rcv s) own down H D" "seqids_ok (chan s) (set (concat bs)) (ph s)"
    "task_ok (chan s) (set (concat bs)) t (ph s t)" "recv_ok (chan s) (set (concat bs)) (rcv s)"
    "ph s t \<noteq> Idle \<Longrightarrow> client t"
  using assms by (simp_all add: inv_parts_def)

lemma parts_inv: "inv_parts s bs xs H ds D own down \<Longrightarrow> rpc_inv s"
  unfolding rpc_inv_def by blast

lemma ownD:
  assumes "own_ok ms p r own down H D"
  shows "holds (msg_known ms p r) own H" "holds (buf_known ms p r) down D" "resp_of ms m = Some x \<Longrightarrow> resp_of ms x = None"
    "msg_of (p t) = Some m \<Longrightarrow> m \<in> H \<and> own m = Task t" "rmsg_of r = Some m \<Longrightarrow> m \<in> H \<and> own m = Receiver"
    "resp_of ms n = Some m \<Longrightarrow> m \<in> H \<and> own m = Message n" "payload_of ms n = Some b \<Longrightarrow> b \<in> D \<and> down b = Message n"
    "buf_of (p t) = Some b \<Longrightarrow> b \<in> D \<and> down b = Task t" "rbuf_of r = Some b \<Longrightarrow> b \<in> D \<and> down b = Receiver"
proof -
  have k: "holds (msg_known ms p r) own H" "holds (buf_known ms p r) down D" using assms by (simp_all add: own_ok_def)
  then show "holds (msg_known ms p r) own H" "holds (buf_known ms p r) down D" by blast+
  show "resp_of ms m = Some x \<Longrightarrow> resp_of ms x = None" using assms by (simp add: own_ok_def)
  show "msg_of (p t) = Some m \<Longrightarrow> m \<in> H \<and> own m = Task t" by (rule holdsD [OF k(1)]) (simp add: known_simps)
  show "rmsg_of r = Some m \<Longrightarrow> m \<in> H \<and> own m = Receiver" by (rule holdsD [OF k(1)]) (simp add: known_simps)
  show "resp_of ms n = Some m \<Longrightarrow> m \<in> H \<and> own m = Message n" by (rule holdsD [OF k(1)]) (simp add: known_simps)
  show "payload_of ms n = Some b \<Longrightarrow> b \<in> D \<and> down b = Message n" by (rule holdsD [OF k(2)]) (simp add: known_simps)
  show "buf_of (p t) = Some b \<Longrightarrow> b \<in> D \<and> down b = Task t" by (rule holdsD [OF k(2)]) (simp add: known_simps)
  show "rbuf_of r = Some b \<Longrightarrow> b \<in> D \<and> down b = Receiver" by (rule holdsD [OF k(2)]) (simp add: known_simps)
qed

text \<open>
  A step of task \<open>t\<close> or of the receiver changes the messages that they hold, and what these hold; the
  other tasks do not notice.
\<close>

lemma inv_step:
  assumes inv: "inv_parts s bs xs H ds D own down"
    and mem: "mem_ok c' bs' xs' H' ds' D'" and pend: "pending_ok c' bs'" and lock: "lock_ok (fdlock c') ((ph s)(t := q))"
    and own: "own_ok (msgs c') ((ph s)(t := q)) r' own' down' H' D'"
    and seq: "seqids_ok c' (set (concat bs')) ((ph s)(t := q))"
    and frame: "\<And>m u. m \<in> H \<Longrightarrow> own m = Task u \<Longrightarrow> u \<noteq> t \<Longrightarrow> unseen (chan s) (set (concat bs)) c' (set (concat bs')) m"
    and en: "chan_enabled c' \<Longrightarrow> chan_enabled (chan s)"
    and new: "task_ok c' (set (concat bs')) t q" "recv_ok c' (set (concat bs')) r'" and cl: "q \<noteq> Idle \<Longrightarrow> client t"
  shows "inv_parts \<lparr>chan = c', ph = (ph s)(t := q), rcv = r'\<rparr> bs' xs' H' ds' D' own' down'"
proof -
  note I = partsD [OF inv]
  have "task_ok c' (set (concat bs')) u (((ph s)(t := q)) u)" for u
  proof (cases "u = t")
    case False
    have "task_ok c' (set (concat bs')) u (ph s u)"
      by (rule task_frame [OF I(6)]) (use ownD(4) [OF I(4)] frame False en in blast)+
    with False show ?thesis by simp
  qed (use new in simp)
  moreover have "((ph s)(t := q)) u \<noteq> Idle \<Longrightarrow> client u" for u using I(8) [of u] cl by (cases "u = t") auto
  ultimately show ?thesis using mem pend lock own seq new(2) unfolding inv_parts_def by simp
qed

text \<open>A step of a task that does not concern the receiver.\<close>

lemma inv_task_step:
  assumes inv: "inv_parts s bs xs H ds D own down"
    and mem: "mem_ok c' bs' xs' H' ds' D'" and pend: "pending_ok c' bs'" and lock: "lock_ok (fdlock c') ((ph s)(t := q))"
    and own: "own_ok (msgs c') ((ph s)(t := q)) (rcv s) own' down' H' D'"
    and seq: "seqids_ok c' (set (concat bs')) ((ph s)(t := q))"
    and frame: "\<And>m. m \<in> H \<Longrightarrow> own m \<noteq> Task t \<Longrightarrow> \<forall>n. own m \<noteq> Message n \<Longrightarrow> unseen (chan s) (set (concat bs)) c' (set (concat bs')) m"
    and en: "chan_enabled c' \<Longrightarrow> chan_enabled (chan s)"
    and new: "task_ok c' (set (concat bs')) t q" and cl: "q \<noteq> Idle \<Longrightarrow> client t"
  shows "rpc_inv (set_phase s c' t q)"
proof -
  have r: "recv_ok c' (set (concat bs')) (rcv s)"
    by (rule recv_frame [OF partsD(7) [OF inv]]) (use ownD(5) [OF partsD(4) [OF inv]] frame in force)
  have "inv_parts \<lparr>chan = c', ph = (ph s)(t := q), rcv = rcv s\<rparr> bs' xs' H' ds' D' own' down'"
    by (rule inv_step [OF inv mem pend lock own seq _ en new r cl]) (use frame in auto)
  moreover have "set_phase s c' t q = \<lparr>chan = c', ph = (ph s)(t := q), rcv = rcv s\<rparr>" by (simp add: set_phase_def)
  ultimately show ?thesis unfolding rpc_inv_def by metis
qed

lemma seqids_frame:
  assumes "seqids_ok c P p" and "\<And>m. m \<in> P' \<Longrightarrow> m \<in> P" and "\<And>t m. request_of (p t) = Some m \<Longrightarrow> seqid_of c' m = seqid_of c m"
    and q: "request_of q = request_of (p t)"
  shows "seqids_ok c' P' (p(t := q))"
proof -
  have e: "request_of ((p(t := q)) u) = request_of (p u)" for u using q by simp
  from assms(1-3) show ?thesis unfolding seqids_ok_def e by metis
qed

lemma unseen_refl: "msgs c' = msgs c \<Longrightarrow> hdlls (hash c') = hdlls (hash c) \<Longrightarrow> unseen c P c' P m"
  by (simp add: unseen_def seqid_of_def)

text \<open>The lock does not change, and the task has nothing to do with it.\<close>

definition no_lock :: "phase \<Rightarrow> bool" where
  "no_lock p \<longleftrightarrow> \<not> holds_lock p \<and> \<not> wants_lock p"

lemma lock_outside: "lock_ok l p \<Longrightarrow> no_lock (p t) \<Longrightarrow> no_lock q \<Longrightarrow> lock_ok l (p(t := q))"
  unfolding no_lock_def by (rule lock_frame) auto

section \<open>Buffers for payloads\<close>

lemma got_data_inv:
  assumes inv: "inv_parts s bs xs H ds D own down" and p: "ph s t = Idle \<or> ph s t = DataWait" and cl: "client t"
    and a: "new_data (chan s) a"
  shows "\<exists>s'. got_data s t (rpc_databuf_get (chan s) res t a) = Some s' \<and> rpc_inv s'"
proof -
  note I = partsD [OF inv]
  from databuf_get_mem [OF I(1) a, of res t] obtain p es r where g: "rpc_databuf_get (chan s) res t a = Some ((chan s)\<lparr>datapool := p\<rparr>, r)"
    and m: "(\<exists>b. r = Got b \<and> b \<notin> D \<and> b \<noteq> NULL \<and> mem_ok ((chan s)\<lparr>datapool := p\<rparr>) bs xs H es (insert b D)) \<or>
      r = Slept \<and> mem_ok ((chan s)\<lparr>datapool := p\<rparr>) bs xs H es D" by blast
  let ?c = "(chan s)\<lparr>datapool := p\<rparr>"
  have pend: "pending_ok ?c bs" by (rule pending_frame [OF I(2)]) simp
  have nl: "no_lock (ph s t)" using p by (auto simp: no_lock_def)
  have seq: "request_of q = None \<Longrightarrow> seqids_ok ?c (set (concat bs)) ((ph s)(t := q))" for q
    by (rule seqids_frame [OF I(5)]) (use p in \<open>auto simp: seqid_of_def\<close>)
  from m show ?thesis
  proof (elim disjE exE conjE)
    fix b assume b: "r = Got b" "b \<notin> D" "b \<noteq> NULL" "mem_ok ?c bs xs H es (insert b D)"
    have "own_ok (msgs ?c) ((ph s)(t := HasBuf b)) (rcv s) own (down(b := Task t)) H (insert b D)"
      using I(4) p holds_take [OF ownD(2) [OF I(4)] b(2), of "Task t"]
      by (auto simp: own_ok_def known_task(2) same_task(1) msg_of_def)
    then have "rpc_inv (set_phase s ?c t (HasBuf b))"
      by (intro inv_task_step [OF inv b(4) pend]) (use lock_outside [OF I(3) nl] seq cl b(3) in \<open>auto simp: no_lock_def intro: unseen_refl\<close>)
    with g b(1) show ?thesis by (simp add: got_data_def)
  next
    assume r: "r = Slept" and mem: "mem_ok ?c bs xs H es D"
    have "own_ok (msgs ?c) ((ph s)(t := DataWait)) (rcv s) own down H D"
      using I(4) p by (auto simp: own_ok_def same_task msg_of_def)
    then have "rpc_inv (set_phase s ?c t DataWait)"
      by (intro inv_task_step [OF inv mem pend]) (use lock_outside [OF I(3) nl] seq cl in \<open>auto simp: no_lock_def intro: unseen_refl\<close>)
    with g r show ?thesis by (simp add: got_data_def)
  qed
qed

lemma put_data_inv:
  assumes inv: "inv_parts s bs xs H ds D own down" and p: "ph s t = HasBuf b"
  shows "\<exists>c. rpc_databuf_put (chan s) b = Some c \<and> rpc_inv (set_phase s c t Idle)"
proof -
  note I = partsD [OF inv]
  have b: "b \<in> D" using ownD(8) [OF I(4), of t b] p by simp
  from databuf_put_mem [OF I(1) b] obtain d es where d: "rpc_databuf_put (chan s) b = Some ((chan s)\<lparr>datapool := d\<rparr>)"
    "mem_ok ((chan s)\<lparr>datapool := d\<rparr>) bs xs H es (D - {b})" by blast
  let ?c = "(chan s)\<lparr>datapool := d\<rparr>"
  have "own_ok (msgs ?c) ((ph s)(t := Idle)) (rcv s) own down H (D - {b})"
    using I(4) p holds_drop [OF ownD(2) [OF I(4)], of "Task t" b]
    by (auto simp: own_ok_def known_task(2) same_task(1) msg_of_def known_simps)
  moreover have "seqids_ok ?c (set (concat bs)) ((ph s)(t := Idle))"
    by (rule seqids_frame [OF I(5)]) (use p in \<open>auto simp: seqid_of_def\<close>)
  moreover have "lock_ok (fdlock (chan s)) ((ph s)(t := Idle))"
    by (rule lock_outside [OF I(3)]) (use p in \<open>simp_all add: no_lock_def\<close>)
  ultimately have "rpc_inv (set_phase s ?c t Idle)"
    by (intro inv_task_step [OF inv d(2) pending_frame [OF I(2)]]) (auto intro: unseen_refl)
  with d(1) show ?thesis by blast
qed


section \<open>Messages\<close>

text \<open>A buffer for a message is taken, or the task is queued in the pool, or it is not to wait.\<close>

lemma msgbuf_get_mem:
  assumes ok: "mem_ok c bs xs H ds D" and a: "new_msg c a"
  shows "\<exists>p r. get_buf res (msgpool c) t nb a = Some (p, r) \<and>
     ((\<exists>m ys. r = Got m \<and> m \<notin> H \<and> \<not> is_head (hash c) m \<and> mem_ok (alloc_msg (c\<lparr>msgpool := p\<rparr>) m) bs ys (insert m H) ds D) \<or>
      (r = (if nb then get_result.Failed else Slept) \<and> mem_ok (c\<lparr>msgpool := p\<rparr>) bs xs H ds D))"
proof -
  have a': "a \<noteq> NULL \<Longrightarrow> dlls (qm (msgpool c)) a = None" using a by (simp add: new_msg_def)
  have g: "get_buf res (msgpool c) t nb a = bufpool_get_pass (msgpool c) t nb a"
    using memD(4) [OF ok] by (simp add: get_buf_def bufpool_get_def)
  show ?thesis
  proof (rule pool_get_pass [OF memD(2) [OF ok] a', of t nb])
    fix p m ys
    assume p: "bufpool_get_pass (msgpool c) t nb a = Some (p, Got m)" "pool_ok p ys (insert m H)" "m \<notin> H"
      "state (bp p) = state (bp (msgpool c))"
      and w: "xs \<noteq> [] \<and> m = hd xs \<and> ys = tl xs \<or> xs = [] \<and> m = a \<and> ys = [] \<and> a \<noteq> NULL \<and> owned (bp (msgpool c)) < nmax (bp (msgpool c))"
    have h: "\<not> is_head (hash c) m"
    proof (cases xs)
      case Nil
      then have "hdlls (hash c) m = None" using w a by (simp add: new_msg_def)
      then show ?thesis using memD(9) [OF ok, of m] by blast
    next
      case (Cons x zs)
      then show ?thesis using w memD(10) [OF ok, of m] by simp
    qed
    have "set ys \<subseteq> set xs" using w by (cases xs) auto
    from alloc_mem [OF ok p(2) _ this p(3) h] have "mem_ok (alloc_msg (c\<lparr>msgpool := p\<rparr>) m) bs ys (insert m H) ds D"
      using p(4) memD(4) [OF ok] by simp
    with p(1,3) g h show ?thesis by auto
  next
    assume n: "bufpool_get_pass (msgpool c) t nb a =
      Some (if nb then (msgpool c, get_result.Failed)
            else ((msgpool c)\<lparr>bp := (bp (msgpool c))\<lparr>waiters := waiters (bp (msgpool c)) @ [t]\<rparr>\<rparr>, Slept))"
    show ?thesis using n g ok by (cases nb) (simp_all add: mem_ok_def pool_ok_waiters)
  qed
qed

lemma hash_entry_init_mem:
  assumes ok: "mem_ok c bs xs H ds D" and m: "m \<in> H" "m \<notin> set (concat bs)"
  shows "\<exists>h. hash_entry_init (hash c) m = Some h \<and> mem_ok (c\<lparr>hash := h\<rparr>) bs xs H ds D \<and> ring (hdlls h) m [] \<and>
     (\<forall>x. x \<noteq> m \<longrightarrow> hdlls h x = hdlls (hash c) x)"
proof -
  obtain n where n: "hdlls (hash c) m = Some n" using memD(9) [OF ok, of m] m(1) by auto
  obtain k where k: "bucket (hash c) m = Some k" using memD(7) [OF ok] m(1) by auto
  from DLL_INIT_ring [of "hdlls (hash c)" m n, OF n] obtain d where
    d: "DLL_INIT (hdlls (hash c)) m = Some d" "\<forall>x. x \<noteq> m \<longrightarrow> d x = hdlls (hash c) x" "ring d m []" by blast
  let ?h = "(hash c)\<lparr>hdlls := d, bucket := (bucket (hash c))(m \<mapsto> -1)\<rparr>"
  have nh: "\<not> is_head (hash c) m" using memD(10) [OF ok] m(1) by blast
  have dm: "d m \<noteq> None" using ring_mem [OF d(3), of m] by auto
  have "hash_holds ?h bs"
    by (rule hash_holds_frame [OF memD(1) [OF ok]]) (use d(2) m(2) nh in auto)
  moreover have "d x \<noteq> None \<longleftrightarrow> hdlls (hash c) x \<noteq> None" for x using d(2) dm n by (cases "x = m") auto
  ultimately have "mem_ok (c\<lparr>hash := ?h\<rparr>) bs xs H ds D"
    using ok m(1) unfolding mem_ok_def by (auto simp: is_head_def)
  then show ?thesis using d k by (intro exI [of _ ?h]) (simp add: hash_entry_init_def)
qed

text \<open>\<^verbatim>\<open>rpc_msg_get\<close>.\<close>

lemma msg_type_kept: "seqid (hdr (RPC_SETMSGTYPE M u)) = seqid (hdr M)" "resp (RPC_SETMSGTYPE M u) = resp M"
  "payload (RPC_SETMSGTYPE M u) = payload M" "rendez (RPC_SETMSGTYPE M u) = rendez M"
  by (simp_all add: RPC_SETMSGTYPE_def)

lemma short_msglen: "sizeof_msghdr \<le> mlen \<Longrightarrow> mlen \<le> 65535 \<Longrightarrow> sizeof_msghdr \<le> ucast (ucast mlen :: u16)"
proof -
  assume "sizeof_msghdr \<le> mlen" "mlen \<le> (65535 :: u64)"
  then have "unat mlen < 2 ^ 16" by (simp add: word_le_nat_alt)
  then have "ucast (ucast mlen :: u16) = mlen"
    by (simp add: word_unat_eq_iff unsigned_ucast_eq take_bit_eq_mod unat_mod_distrib)
  with \<open>sizeof_msghdr \<le> mlen\<close> show ?thesis by simp
qed

lemma rpc_msg_get_mem:
  assumes ok: "mem_ok c bs xs H ds D" and a: "new_msg c a"
    and len: "sizeof_msghdr \<le> mlen" "mlen \<le> 65535" and b: "b \<noteq> NULL \<or> plen = 0"
  shows "\<exists>c' r. rpc_msg_get c res t mtype mlen plen b a = Some (c', r) \<and>
     chan_enabled c' = chan_enabled c \<and> fdlock c' = fdlock c \<and>
     ((\<exists>m M ys. r = Got m \<and> m \<notin> H \<and> mem_ok c' bs ys (insert m H) ds D \<and> msgs c' = (msgs c)(m \<mapsto> M) \<and>
         seqid (hdr M) = next_seqid c \<and> sendable M \<and> rendez M = no_sleeper \<and> payload M = b \<and>
         ring (hdlls (hash c')) m [] \<and> (\<forall>x. x \<noteq> m \<longrightarrow> hdlls (hash c') x = hdlls (hash c) x)) \<or>
      r = Slept \<and> mem_ok c' bs xs H ds D \<and> msgs c' = msgs c \<and> hash c' = hash c)"
proof -
  from msgbuf_get_mem [OF ok a, of res t False] obtain p r where g: "get_buf res (msgpool c) t False a = Some (p, r)"
    and m: "(\<exists>m ys. r = Got m \<and> m \<notin> H \<and> \<not> is_head (hash c) m \<and> mem_ok (alloc_msg (c\<lparr>msgpool := p\<rparr>) m) bs ys (insert m H) ds D) \<or>
      r = Slept \<and> mem_ok (c\<lparr>msgpool := p\<rparr>) bs xs H ds D" by auto
  from m show ?thesis
  proof (elim disjE exE conjE)
    fix m ys assume r: "r = Got m" and mH: "m \<notin> H" and mem: "mem_ok (alloc_msg (c\<lparr>msgpool := p\<rparr>) m) bs ys (insert m H) ds D"
    let ?c = "alloc_msg (c\<lparr>msgpool := p\<rparr>) m"
    have mP: "m \<notin> set (concat bs)" using memD(8) [OF ok] mH by blast
    from hash_entry_init_mem [OF mem _ mP] obtain h where h: "hash_entry_init (hash ?c) m = Some h" "mem_ok (?c\<lparr>hash := h\<rparr>) bs ys (insert m H) ds D"
      "ring (hdlls h) m []" "\<forall>x. x \<noteq> m \<longrightarrow> hdlls h x = hdlls (hash ?c) x" by auto
    define M where "M = (RPC_SETMSGTYPE (zero_msg\<lparr>resp := NULL, rendez := no_sleeper, hdr := (hdr zero_msg)\<lparr>seqid := next_seqid c\<rparr>\<rparr>) mtype)
      \<lparr>payload := b, hdr := (hdr (RPC_SETMSGTYPE (zero_msg\<lparr>resp := NULL, rendez := no_sleeper, hdr := (hdr zero_msg)\<lparr>seqid := next_seqid c\<rparr>\<rparr>) mtype))
        \<lparr>msglen := ucast mlen, payloadlen := ucast plen\<rparr>\<rparr>"
    let ?c' = "?c\<lparr>hash := h, msgs := (msgs c)(m \<mapsto> M), next_seqid := next_seqid c + 1\<rparr>"
    have "rpc_msg_get c res t mtype mlen plen b a = Some (?c', Got m)"
      using g r len b h(1) by (simp add: rpc_msg_get_def rpc_msg_init_def on_msg_def alloc_msg_def M_def)
    moreover have "mem_ok ?c' bs ys (insert m H) ds D"
      using h(2) by (auto simp: mem_ok_def alloc_msg_def)
    moreover have "sendable M" "seqid (hdr M) = next_seqid c" "rendez M = no_sleeper" "payload M = b"
      using short_msglen [OF len] b by (auto simp: M_def sendable_def msg_type_kept)
    moreover have "x \<noteq> m \<Longrightarrow> hdlls h x = hdlls (hash c) x" for x using h(4) by (simp add: alloc_msg_def)
    ultimately show ?thesis using h(3) mH by (intro exI [of _ ?c'] exI [of _ "Got m"]) (auto simp: alloc_msg_def)
  next
    assume "r = Slept" "mem_ok (c\<lparr>msgpool := p\<rparr>) bs xs H ds D"
    with g len b show ?thesis by (intro exI [of _ "c\<lparr>msgpool := p\<rparr>"] exI [of _ Slept]) (simp add: rpc_msg_get_def)
  qed
qed


lemma resp_depth:
  assumes "\<forall>n x. resp_of ms n = Some x \<longrightarrow> resp_of ms x = None" and "resp M = NULL"
  shows "\<forall>n x. resp_of (ms(m \<mapsto> M)) n = Some x \<longrightarrow> resp_of (ms(m \<mapsto> M)) x = None"
  using assms by (auto simp: resp_of_def)

lemma got_msg_inv:
  assumes inv: "inv_parts s bs xs H ds D own down" and cl: "client t"
    and p: "ph s t = Idle \<and> b = NULL \<and> plen = 0 \<or> ph s t = HasBuf b \<or> ph s t = MsgWait mtype mlen plen b"
    and len: "sizeof_msghdr \<le> mlen" "mlen \<le> 65535" and a: "new_msg (chan s) a" and i: "new_seqid s"
  shows "\<exists>s'. got_msg s t (MsgWait mtype mlen plen b) (rpc_msg_get (chan s) res t mtype mlen plen b a) = Some s' \<and> rpc_inv s'"
proof -
  note I = partsD [OF inv] and O = ownD [OF partsD(4) [OF inv]]
  have b: "b \<noteq> NULL \<or> plen = 0" using p I(6) [of t] by auto
  have bo: "buf_of (ph s t) = (if b = NULL then None else Some b)" using p I(6) [of t] by auto
  have mo: "msg_of (ph s t) = None" "request_of (ph s t) = None" "no_lock (ph s t)" using p by (auto simp: msg_of_def no_lock_def)
  from rpc_msg_get_mem [OF I(1) a len b, of res t mtype] obtain c r where
    g: "rpc_msg_get (chan s) res t mtype mlen plen b a = Some (c, r)" and e: "chan_enabled c = chan_enabled (chan s)" "fdlock c = fdlock (chan s)"
    and r: "(\<exists>m M ys. r = Got m \<and> m \<notin> H \<and> mem_ok c bs ys (insert m H) ds D \<and> msgs c = (msgs (chan s))(m \<mapsto> M) \<and>
         seqid (hdr M) = next_seqid (chan s) \<and> sendable M \<and> rendez M = no_sleeper \<and> payload M = b \<and>
         ring (hdlls (hash c)) m [] \<and> (\<forall>x. x \<noteq> m \<longrightarrow> hdlls (hash c) x = hdlls (hash (chan s)) x)) \<or>
      r = Slept \<and> mem_ok c bs xs H ds D \<and> msgs c = msgs (chan s) \<and> hash c = hash (chan s)" by blast
  from r show ?thesis
  proof (elim disjE exE conjE)
    fix m M ys
    assume m: "r = Got m" "m \<notin> H" and mem: "mem_ok c bs ys (insert m H) ds D" and ms: "msgs c = (msgs (chan s))(m \<mapsto> M)"
      and M: "seqid (hdr M) = next_seqid (chan s)" "sendable M" "rendez M = no_sleeper" "payload M = b"
      and h: "ring (hdlls (hash c)) m []" "\<forall>x. x \<noteq> m \<longrightarrow> hdlls (hash c) x = hdlls (hash (chan s)) x"
    have rM: "resp M = NULL" using M(2) by (simp add: sendable_def)
    have mP: "m \<notin> set (concat bs)" using memD(8) [OF I(1)] m(2) by blast
    have pend: "pending_ok c bs" by (rule pending_frame [OF I(2)]) (use mP ms in auto)
    have nomsg: "msgs (chan s) m = None" using mem_in [OF I(1), of m] m(2) by auto
    have seqs: "seqid_of c n = seqid_of (chan s) n" if "n \<in> H" for n using that m(2) by (auto simp: seqid_of_def ms)
    have sm: "seqid_of c m = Some (next_seqid (chan s))" using M(1) by (simp add: seqid_of_def ms)
    have own: "own_ok (msgs c) ((ph s)(t := Owns m)) (rcv s) (own(m := Task t)) (if b = NULL then down else down(b := Message m)) (insert m H) D"
      unfolding own_ok_def ms
    proof (intro conjI)
      have "holds ((msg_known (msgs (chan s)) (ph s) (rcv s))(Message m := None, Task t := Some m)) (own(m := Task t)) (insert m H)"
        by (rule holds_take [OF holds_less [OF O(1)] m(2)])
      then show "holds (msg_known ((msgs (chan s))(m \<mapsto> M)) ((ph s)(t := Owns m)) (rcv s)) (own(m := Task t)) (insert m H)"
        by (simp add: known_task known_msg rM msg_of_def)
      have none: "(buf_known (msgs (chan s)) (ph s) (rcv s)) (Message m) = None" using nomsg by (simp add: known_simps payload_of_def)
      show "holds (buf_known ((msgs (chan s))(m \<mapsto> M)) ((ph s)(t := Owns m)) (rcv s)) (if b = NULL then down else down(b := Message m)) D"
      proof (cases "b = NULL")
        case True
        then show ?thesis using O(2) bo M(4) none by (simp add: known_task known_msg fun_upd_idem known_simps)
      next
        case False
        have "holds ((buf_known (msgs (chan s)) (ph s) (rcv s))(Task t := None, Message m := Some b)) (down(b := Message m)) D"
          by (rule holds_move [OF O(2)]) (use bo False in \<open>simp add: known_simps\<close>)
        then show ?thesis using False M(4) by (simp add: known_task known_msg fun_upd_twist)
      qed
      show "\<forall>n x. resp_of ((msgs (chan s))(m \<mapsto> M)) n = Some x \<longrightarrow> resp_of ((msgs (chan s))(m \<mapsto> M)) x = None"
        by (rule resp_depth [OF _ rM]) (use O(3) in blast)
    qed
    have inH: "request_of (ph s u) = Some n \<Longrightarrow> n \<in> H" for u n using O(4) [of u n] by (simp add: msg_of_def)
    have seq: "seqids_ok c (set (concat bs)) ((ph s)(t := Owns m))"
      unfolding seqids_ok_def
    proof (intro conjI ballI allI impI)
      fix n assume "n \<in> set (concat bs)"
      then obtain u where "request_of (ph s u) = Some n" using I(5) unfolding seqids_ok_def by blast
      then show "\<exists>u. request_of (((ph s)(t := Owns m)) u) = Some n" using mo(2) by (intro exI [of _ u]) auto
    next
      fix u v n k
      assume u: "request_of (((ph s)(t := Owns m)) u) = Some n" "request_of (((ph s)(t := Owns m)) v) = Some k" "seqid_of c n = seqid_of c k"
      have old: "request_of (((ph s)(t := Owns m)) w) = Some j \<Longrightarrow> j = m \<or> request_of (ph s w) = Some j \<and> j \<in> H \<and> seqid_of (chan s) j \<noteq> Some (next_seqid (chan s))" for w j
        using inH [of w j] i unfolding new_seqid_def by (auto split: if_splits)
      from old [OF u(1)] old [OF u(2)] u(3) sm seqs I(5) show "n = k" unfolding seqids_ok_def by metis
    qed
    have "rpc_inv (set_phase s c t (Owns m))"
    proof (rule inv_task_step [OF inv mem pend _ own seq])
      show "lock_ok (fdlock c) ((ph s)(t := Owns m))" unfolding e by (rule lock_outside [OF I(3) mo(3)]) (simp add: no_lock_def)
      fix n assume "n \<in> H"
      then have "n \<noteq> m" using m(2) by auto
      moreover have "resp N \<noteq> m" if "msgs (chan s) n = Some N" "resp N \<noteq> NULL" for N
        using O(6) [of n "resp N"] that m(2) by (auto simp: resp_of_def)
      ultimately show "unseen (chan s) (set (concat bs)) c (set (concat bs)) n"
        using h(2) by (auto simp: unseen_def ms seqid_of_def)
    next
      show "task_ok c (set (concat bs)) t (Owns m)" using mP h(1) M(2,3) by (auto simp: free_entry_def ms)
    qed (use e cl in auto)
    with g m(1) show ?thesis by (simp add: got_msg_def)
  next
    assume "r = Slept" and mem: "mem_ok c bs xs H ds D" and ms: "msgs c = msgs (chan s)" and h: "hash c = hash (chan s)"
    have "own_ok (msgs c) ((ph s)(t := MsgWait mtype mlen plen b)) (rcv s) own down H D"
      using partsD(4) [OF inv] bo mo(1) unfolding ms own_ok_def by (simp add: same_task msg_of_def)
    moreover have "seqids_ok c (set (concat bs)) ((ph s)(t := MsgWait mtype mlen plen b))"
      by (rule seqids_frame [OF I(5)]) (use mo in \<open>auto simp: seqid_of_def ms\<close>)
    moreover have "lock_ok (fdlock c) ((ph s)(t := MsgWait mtype mlen plen b))"
      unfolding e by (rule lock_outside [OF I(3) mo(3)]) (simp add: no_lock_def)
    ultimately have "rpc_inv (set_phase s c t (MsgWait mtype mlen plen b))"
      by (intro inv_task_step [OF inv mem pending_frame [OF I(2)]]) (use cl b len e h ms in \<open>auto intro: unseen_refl\<close>)
    with g \<open>r = Slept\<close> show ?thesis by (simp add: got_msg_def)
  qed
qed


text \<open>\<^verbatim>\<open>rpc_msg_put\<close>: the message and its response go back to the pool, and so do their payloads.\<close>

definition resp_set :: "(addr \<rightharpoonup> rpc_msg) \<Rightarrow> addr \<Rightarrow> addr set" where
  "resp_set ms m = insert m (set_option (resp_of ms m))"

definition payload_set :: "(addr \<rightharpoonup> rpc_msg) \<Rightarrow> addr set \<Rightarrow> addr set" where
  "payload_set ms X = {b. \<exists>x \<in> X. payload_of ms x = Some b}"

definition without :: "('a \<rightharpoonup> 'b) \<Rightarrow> 'a set \<Rightarrow> ('a \<rightharpoonup> 'b)" where
  "without f X = (\<lambda>a. if a \<in> X then None else f a)"

lemma without_upd: "without (f(a := None)) X = without f (insert a X)" "(without f X)(a := None) = without f (insert a X)"
  "without (f(a \<mapsto> v)) (insert a X) = without f (insert a X)" "without f {} = f"
  by (auto simp: without_def)

definition put_ok :: "rpc_chan \<Rightarrow> rpc_chan \<Rightarrow> addr list list \<Rightarrow> addr set \<Rightarrow> addr set \<Rightarrow> addr set \<Rightarrow> addr set \<Rightarrow> bool" where
  "put_ok c c' bs H X D Y \<longleftrightarrow> (\<exists>ys es. mem_ok c' bs ys (H - X) es (D - Y)) \<and> msgs c' = without (msgs c) X \<and>
     (\<forall>x. x \<notin> X \<longrightarrow> hdlls (hash c') x = hdlls (hash c) x) \<and> fdlock c' = fdlock c \<and> chan_enabled c' = chan_enabled c"

text \<open>A message with its payload.\<close>

lemma put_payload:
  assumes ok: "mem_ok c bs xs H ds D" and M: "msgs c m = Some M" and b: "payload M \<noteq> NULL \<Longrightarrow> payload M \<in> D"
  shows "\<exists>p es. (if payload M \<noteq> NULL then rpc_databuf_put c (payload M) else Some c) = Some (c\<lparr>datapool := p\<rparr>) \<and>
    mem_ok (c\<lparr>datapool := p\<rparr>) bs xs H es (D - set_option (payload_of (msgs c) m))"
proof (cases "payload M = NULL")
  case True
  then show ?thesis using ok M by (intro exI [of _ "datapool c"] exI [of _ ds]) (simp add: payload_of_def)
next
  case False
  with databuf_put_mem [OF ok b [OF False]] M show ?thesis by (simp add: payload_of_def)
qed

lemma put_one:
  assumes ok: "mem_ok c bs xs H ds D" and M: "msgs c m = Some M" and m: "m \<notin> set (concat bs)" and r: "resp M = NULL"
    and b: "payload M \<noteq> NULL \<Longrightarrow> payload M \<in> D"
  shows "\<exists>c'. rpc_msg_put c m = Some c' \<and> put_ok c c' bs H {m} D (payload_set (msgs c) {m})"
proof -
  have mH: "m \<in> H" using mem_in [OF ok] M by blast
  from put_payload [OF ok M b] obtain p es where p: "(if payload M \<noteq> NULL then rpc_databuf_put c (payload M) else Some c) = Some (c\<lparr>datapool := p\<rparr>)"
    "mem_ok (c\<lparr>datapool := p\<rparr>) bs xs H es (D - set_option (payload_of (msgs c) m))" by blast
  let ?c = "c\<lparr>datapool := p\<rparr>"
  let ?M = "if payload M \<noteq> NULL then M\<lparr>payload := NULL\<rparr> else M"
  let ?c1 = "?c\<lparr>msgs := (msgs c)(m \<mapsto> ?M)\<rparr>"
  have s1: "(if payload M \<noteq> NULL then do { c \<leftarrow> rpc_databuf_put c (payload M); on_msg c m (\<lambda>M. M\<lparr>payload := NULL\<rparr>) } else Some c) = Some ?c1"
    using p(1) M by (cases "payload M = NULL") (auto simp: on_msg_def fun_upd_idem)
  have ok1: "mem_ok ?c1 bs xs H es (D - set_option (payload_of (msgs c) m))"
    using p(2) mH by (auto simp: mem_ok_def)
  from put_msg_mem [OF ok1 mH m] obtain c' ys where c': "put_msg ?c1 m = Some c'"
    "mem_ok c' bs ys (H - {m}) es (D - set_option (payload_of (msgs c) m))" "msgs c' = (msgs ?c1)(m := None)"
    "\<forall>a. a \<noteq> m \<longrightarrow> hdlls (hash c') a = hdlls (hash ?c1) a" "fdlock c' = fdlock ?c1" "chan_enabled c' = chan_enabled ?c1" by blast
  have "rpc_msg_put c m = Some c'" using M r s1 c'(1) by (simp add: rpc_msg_put_def)
  moreover have "payload_set (msgs c) {m} = set_option (payload_of (msgs c) m)" by (auto simp: payload_set_def)
  ultimately show ?thesis using c' by (auto simp: put_ok_def without_def)
qed

lemma put_two:
  assumes ok: "mem_ok c bs xs H ds D" and M: "msgs c m = Some M" and m: "m \<notin> set (concat bs)"
    and r: "resp M = r" "r \<noteq> NULL" "r \<noteq> m" "r \<notin> set (concat bs)" and R: "msgs c r = Some R" "resp R = NULL"
    and b: "payload M \<noteq> NULL \<Longrightarrow> payload M \<in> D" "payload R \<noteq> NULL \<Longrightarrow> payload R \<in> D" "payload M \<noteq> NULL \<Longrightarrow> payload R \<noteq> payload M"
  shows "\<exists>c'. rpc_msg_put c m = Some c' \<and> put_ok c c' bs H {m, r} D (payload_set (msgs c) {m, r})"
proof -
  have rH: "r \<in> H" using mem_in [OF ok] R(1) by blast
  from put_payload [OF ok R(1) b(2)] obtain p es where p: "(if payload R \<noteq> NULL then rpc_databuf_put c (payload R) else Some c) = Some (c\<lparr>datapool := p\<rparr>)"
    "mem_ok (c\<lparr>datapool := p\<rparr>) bs xs H es (D - set_option (payload_of (msgs c) r))" by blast
  let ?c = "c\<lparr>datapool := p\<rparr>"
  from put_msg_mem [OF p(2) rH r(4)] obtain c1 ys where c1: "put_msg ?c r = Some c1"
    "mem_ok c1 bs ys (H - {r}) es (D - set_option (payload_of (msgs c) r))" "msgs c1 = (msgs ?c)(r := None)"
    "\<forall>a. a \<noteq> r \<longrightarrow> hdlls (hash c1) a = hdlls (hash ?c) a" "fdlock c1 = fdlock ?c" "chan_enabled c1 = chan_enabled ?c" by blast
  have M1: "msgs c1 m = Some M" using c1(3) M r(3) by simp
  let ?c2 = "c1\<lparr>msgs := (msgs c1)(m \<mapsto> M\<lparr>resp := NULL\<rparr>)\<rparr>"
  have s2: "on_msg c1 m (\<lambda>M. M\<lparr>resp := NULL\<rparr>) = Some ?c2" "mem_ok ?c2 bs ys (H - {r}) es (D - set_option (payload_of (msgs c) r))"
    using on_msg_mem [OF c1(2) M1, of "\<lambda>M. M\<lparr>resp := NULL\<rparr>"] by simp_all
  have pM: "payload M \<noteq> NULL \<Longrightarrow> payload M \<in> D - set_option (payload_of (msgs c) r)"
    using b R(1) by (auto simp: payload_of_def split: if_splits)
  from put_one [OF s2(2), of m "M\<lparr>resp := NULL\<rparr>"] m pM obtain c' where c': "rpc_msg_put ?c2 m = Some c'"
    "put_ok ?c2 c' bs (H - {r}) {m} (D - set_option (payload_of (msgs c) r)) (payload_set (msgs ?c2) {m})" by auto
  have "rpc_msg_put c m = do {
      c \<leftarrow> (if payload M \<noteq> NULL then do { c \<leftarrow> rpc_databuf_put ?c2 (payload M); on_msg c m (\<lambda>M. M\<lparr>payload := NULL\<rparr>) } else Some ?c2);
      put_msg c m }"
    using M r(1,2) R p(1) c1(1) s2(1) by (simp add: rpc_msg_put_def)
  also have "\<dots> = rpc_msg_put ?c2 m" by (simp add: rpc_msg_put_def)
  finally have "rpc_msg_put c m = Some c'" using c'(1) by simp
  moreover have "payload_set (msgs ?c2) {m} = set_option (payload_of (msgs c) m)" using M by (auto simp: payload_set_def payload_of_def)
  moreover have "payload_set (msgs c) {m, r} = set_option (payload_of (msgs c) m) \<union> set_option (payload_of (msgs c) r)"
    by (auto simp: payload_set_def)
  moreover have "H - {r} - {m} = H - {m, r}" by auto
  moreover have "D - set_option (payload_of (msgs c) r) - set_option (payload_of (msgs c) m) =
      D - (set_option (payload_of (msgs c) m) \<union> set_option (payload_of (msgs c) r))" by auto
  moreover have "without (msgs ?c2) {m} = without (msgs c) {m, r}" using c1(3) by (auto simp: without_def)
  ultimately show ?thesis using c'(2) c1(4-6) by (auto simp: put_ok_def)
qed


lemma holds_shrink:
  "holds K own H \<Longrightarrow> (\<And>h x. K' h = Some x \<Longrightarrow> K h = Some x \<and> x \<notin> X) \<Longrightarrow> holds K' own (H - X)"
  unfolding holds_def by blast

text \<open>The entries of the hash table belong to tasks.\<close>

lemma pending_task:
  assumes inv: "inv_parts s bs xs H ds D own down" and m: "m \<in> set (concat bs)"
  shows "\<exists>u. request_of (ph s u) = Some m \<and> own m = Task u"
proof -
  from partsD(5) [OF inv] m obtain u where "request_of (ph s u) = Some m" unfolding seqids_ok_def by blast
  with ownD(4) [OF partsD(4) [OF inv], of u m] show ?thesis by (auto simp: msg_of_def)
qed

lemma seqids_idle:
  assumes inv: "inv_parts s bs xs H ds D own down" and m: "msg_of (ph s t) = Some m" "m \<notin> set (concat bs)"
    and q: "request_of q = None" and c: "\<And>n. n \<noteq> m \<Longrightarrow> n \<in> H \<Longrightarrow> own n \<noteq> Message m \<Longrightarrow> seqid_of c n = seqid_of (chan s) n"
  shows "seqids_ok c (set (concat bs)) ((ph s)(t := q))"
  unfolding seqids_ok_def
proof (intro conjI ballI allI impI)
  note O = ownD [OF partsD(4) [OF inv]]
  fix n assume n: "n \<in> set (concat bs)"
  then obtain u where "request_of (ph s u) = Some n" "own n = Task u" using pending_task [OF inv] by blast
  moreover from this(2) O(4) [OF m(1)] n m(2) have "u \<noteq> t" by (metis O(4) calculation(1) m(1) msg_of_def option.inject option.simps(5))
  ultimately show "\<exists>u. request_of (((ph s)(t := q)) u) = Some n" by (intro exI [of _ u]) simp
next
  note O = ownD [OF partsD(4) [OF inv]]
  fix u v n k
  assume u: "request_of (((ph s)(t := q)) u) = Some n" "request_of (((ph s)(t := q)) v) = Some k" "seqid_of c n = seqid_of c k"
  have old: "request_of (ph s w) = Some j \<and> seqid_of c j = seqid_of (chan s) j" if "request_of (((ph s)(t := q)) w) = Some j" for w j
  proof -
    have w: "w \<noteq> t" "request_of (ph s w) = Some j" using that q by (auto split: if_splits)
    then have "j \<in> H" "own j = Task w" using O(4) [of w j] by (auto simp: msg_of_def)
    moreover have "j \<noteq> m" using O(4) [OF m(1)] w(1) calculation(2) by auto
    ultimately show ?thesis using w(2) c by simp
  qed
  from old [OF u(1)] old [OF u(2)] u(3) partsD(5) [OF inv] show "n = k" unfolding seqids_ok_def by metis
qed

lemma put_inv:
  assumes inv: "inv_parts s bs xs H ds D own down" and m: "msg_of (ph s t) = Some m" "m \<notin> set (concat bs)"
    and c0: "mem_ok c0 bs xs H ds D" "msgs c0 = msgs (chan s)" "hash c0 = hash (chan s)" "chan_enabled c0 \<Longrightarrow> chan_enabled (chan s)"
    and l: "lock_ok (fdlock c0) ((ph s)(t := Idle))"
  shows "\<exists>c'. rpc_msg_put c0 m = Some c' \<and> rpc_inv (set_phase s c' t Idle)"
proof -
  note I = partsD [OF inv] and O = ownD [OF partsD(4) [OF inv]]
  let ?ms = "msgs (chan s)" and ?P = "set (concat bs)"
  let ?X = "resp_set ?ms m"
  let ?Y = "payload_set ?ms ?X"
  have om: "m \<in> H" "own m = Task t" using O(4) [OF m(1)] by blast+
  obtain M where M: "?ms m = Some M" using mem_in [OF I(1)] om(1) by blast
  have res: "r \<in> H \<and> own r = Message m \<and> r \<noteq> m \<and> r \<notin> ?P \<and> (\<exists>R. ?ms r = Some R \<and> resp R = NULL)" if r: "resp_of ?ms m = Some r" for r
  proof -
    have a: "r \<in> H" "own r = Message m" using O(6) [OF r] by blast+
    moreover have "r \<notin> ?P" using pending_task [OF inv, of r] a(2) by auto
    moreover obtain R where "?ms r = Some R" using mem_in [OF I(1)] a(1) by blast
    moreover from this O(3) [OF r] have "resp R = NULL" by (simp add: resp_of_def split: if_splits)
    ultimately show ?thesis using om(2) by auto
  qed
  have "\<exists>c'. rpc_msg_put c0 m = Some c' \<and> put_ok c0 c' bs H ?X D ?Y"
  proof (cases "resp M = NULL")
    case True
    then have "?X = {m}" using M by (simp add: resp_set_def resp_of_def)
    moreover have "payload M \<noteq> NULL \<Longrightarrow> payload M \<in> D" using O(7) [of m "payload M"] M by (simp add: payload_of_def)
    ultimately show ?thesis using put_one [OF c0(1), of m M] M m(2) True c0(2) by simp
  next
    case False
    then have rm: "resp_of ?ms m = Some (resp M)" using M by (simp add: resp_of_def)
    from res [OF this] obtain R where R: "?ms (resp M) = Some R" "resp R = NULL" and rr: "resp M \<in> H" "own (resp M) = Message m" "resp M \<noteq> m" "resp M \<notin> ?P" by blast
    have pM: "payload M \<noteq> NULL \<Longrightarrow> payload M \<in> D \<and> down (payload M) = Message m" using O(7) [of m "payload M"] M by (simp add: payload_of_def)
    have pR: "payload R \<noteq> NULL \<Longrightarrow> payload R \<in> D \<and> down (payload R) = Message (resp M)" using O(7) [of "resp M" "payload R"] R(1) by (simp add: payload_of_def)
    have "payload M \<noteq> NULL \<Longrightarrow> payload R \<noteq> payload M" using pM pR rr(3) by auto
    moreover have "?X = {m, resp M}" using rm by (simp add: resp_set_def)
    ultimately show ?thesis using put_two [OF c0(1), of m M "resp M" R] M m(2) False rr R pM pR c0(2) by simp
  qed
  then obtain c' where put: "rpc_msg_put c0 m = Some c'" and ok: "put_ok c0 c' bs H ?X D ?Y" by blast
  then obtain ys es where mem: "mem_ok c' bs ys (H - ?X) es (D - ?Y)" and ms: "msgs c' = without ?ms ?X"
    and hd: "\<And>x. x \<notin> ?X \<Longrightarrow> hdlls (hash c') x = hdlls (hash (chan s)) x" and f: "fdlock c' = fdlock c0" "chan_enabled c' = chan_enabled c0"
    using c0(2,3) by (auto simp: put_ok_def)
  have XP: "x \<notin> ?X" if "x \<in> ?P" for x using that m(2) res by (auto simp: resp_set_def)
  have pend: "pending_ok c' bs" by (rule pending_frame [OF I(2)]) (use XP in \<open>simp add: ms without_def\<close>)
  have sub: "resp_of (without ?ms ?X) n = Some x \<Longrightarrow> resp_of ?ms n = Some x \<and> n \<notin> ?X"
    "payload_of (without ?ms ?X) n = Some x \<Longrightarrow> payload_of ?ms n = Some x \<and> n \<notin> ?X" for n x
    by (auto simp: resp_of_def payload_of_def without_def split: if_splits option.splits)
  have own_X: "own x = Task t \<or> own x = Message m" if "x \<in> ?X" for x using that om res by (auto simp: resp_set_def)
  have own': "own_ok (msgs c') ((ph s)(t := Idle)) (rcv s) own down (H - ?X) (D - ?Y)"
    unfolding own_ok_def ms
  proof (intro conjI)
    show "holds (msg_known (without ?ms ?X) ((ph s)(t := Idle)) (rcv s)) own (H - ?X)"
    proof (rule holds_shrink [OF O(1)])
      fix h x assume k: "msg_known (without ?ms ?X) ((ph s)(t := Idle)) (rcv s) h = Some x"
      have old: "msg_known ?ms (ph s) (rcv s) h = Some x \<and> h \<noteq> Task t \<and> h \<noteq> Message m"
        using k sub(1) [of _ x] by (cases h) (auto simp: known_simps msg_of_def resp_set_def split: if_splits)
      then have "own x = h" using holdsD [OF O(1)] by blast
      with old own_X [of x] show "msg_known ?ms (ph s) (rcv s) h = Some x \<and> x \<notin> ?X" by auto
    qed
    show "holds (buf_known (without ?ms ?X) ((ph s)(t := Idle)) (rcv s)) down (D - ?Y)"
    proof (rule holds_shrink [OF O(2)])
      fix h x assume k: "buf_known (without ?ms ?X) ((ph s)(t := Idle)) (rcv s) h = Some x"
      have old: "buf_known ?ms (ph s) (rcv s) h = Some x \<and> (\<forall>n. h = Message n \<longrightarrow> n \<notin> ?X)"
        using k sub(2) [of _ x] by (cases h) (auto simp: known_simps split: if_splits)
      moreover have "down x = h" using old holdsD [OF O(2)] by blast
      ultimately show "buf_known ?ms (ph s) (rcv s) h = Some x \<and> x \<notin> ?Y" using O(7) by (auto simp: payload_set_def)
    qed
    show "\<forall>n x. resp_of (without ?ms ?X) n = Some x \<longrightarrow> resp_of (without ?ms ?X) x = None"
    proof (intro allI impI)
      fix n x assume "resp_of (without ?ms ?X) n = Some x"
      then have "resp_of ?ms x = None" using sub(1) O(3) by blast
      then show "resp_of (without ?ms ?X) x = None" by (auto simp: resp_of_def without_def split: option.splits)
    qed
  qed
  have seqs: "seqid_of c' n = seqid_of (chan s) n" if "n \<notin> ?X" for n using that by (simp add: seqid_of_def ms without_def)
  have "rpc_inv (set_phase s c' t Idle)"
  proof (rule inv_task_step [OF inv mem pend _ own'])
    show "lock_ok (fdlock c') ((ph s)(t := Idle))" using l f by simp
    show "seqids_ok c' (set (concat bs)) ((ph s)(t := Idle))"
    proof (rule seqids_idle [OF inv m])
      fix n assume "n \<noteq> m" "n \<in> H" "own n \<noteq> Message m"
      then have "n \<notin> ?X" using O(6) by (auto simp: resp_set_def)
      then show "seqid_of c' n = seqid_of (chan s) n" by (rule seqs)
    qed simp
    fix n assume n: "n \<in> H" "own n \<noteq> Task t" "\<forall>k. own n \<noteq> Message k"
    then have nX: "n \<notin> ?X" using own_X by blast
    have "seqid_of c' (resp N) = seqid_of (chan s) (resp N)" if N: "?ms n = Some N" "resp N \<noteq> NULL" for N
    proof (rule seqs)
      have "own (resp N) = Message n" using O(6) [of n "resp N"] N by (simp add: resp_of_def)
      then show "resp N \<notin> ?X" using own_X [of "resp N"] nX by (auto simp: resp_set_def)
    qed
    then show "unseen (chan s) ?P c' ?P n" using nX hd [OF nX] by (simp add: unseen_def ms without_def)
  qed (use c0(4) f in auto)
  with put show ?thesis by blast
qed


section \<open>The hash table\<close>

lemma bucket_update: "i < length bs \<Longrightarrow> set (concat (bs[i := ys])) = set ys \<union> (\<Union>j \<in> {..<length bs} - {i}. set (bs ! j))"
  by (auto simp: set_conv_nth [of "bs[i := ys]"] nth_list_update split: if_splits)

lemma concat_split: "i < length bs \<Longrightarrow> set (concat bs) = set (bs ! i) \<union> (\<Union>j \<in> {..<length bs} - {i}. set (bs ! j))"
  using bucket_update [of i bs "bs ! i"] by simp

lemma hash_add_mem:
  assumes ok: "mem_ok c bs xs H ds D" and m: "m \<in> H" "free_entry c (set (concat bs)) m" and b: "0 \<le> b" "b < int (length bs)"
  shows "\<exists>h bs'. hash_add (hash c) m b = Some (h, 0) \<and> mem_ok (c\<lparr>hash := h\<rparr>) bs' xs H ds D \<and> bs' = bs[nat b := m # bs ! nat b] \<and>
     set (concat bs') = insert m (set (concat bs)) \<and> (\<forall>x \<in> H. x \<notin> set (concat bs) \<longrightarrow> x \<noteq> m \<longrightarrow> hdlls h x = hdlls (hash c) x)"
proof -
  note hh = memD(1) [OF ok]
  have i: "nat b < length bs" using b by simp
  note T = hash_holdsD [OF hh i]
  have off: "off_list (hash c) bs m"
    using m memD(7,10) [OF ok] mem_nonnull [OF ok m(1)] unfolding off_list_def free_entry_def by auto
  from hash_add_holds [OF hh off b] obtain h where h: "hash_add (hash c) m b = Some (h, 0)" "hash_holds h (bs[nat b := m # bs ! nat b])"
    "bucket h = (bucket (hash c))(m \<mapsto> b)" "tab h = (tab (hash c))\<lparr>count := count (tab (hash c)) + 1\<rparr>" by blast
  have hd: "head_at (hash c) b = buckets (tab (hash c)) + nat b" using b by (simp add: head_at_def)
  have sub: "set (bs ! nat b) \<subseteq> set (concat bs)" using concat_split [OF i] by blast
  have "m \<notin> set (bs ! nat b)" using m(2) sub unfolding free_entry_def by blast
  then have "m \<notin> set ((buckets (tab (hash c)) + nat b) # bs ! nat b)"
    using off T(5) unfolding off_list_def by auto
  moreover obtain n where "hdlls (hash c) m = Some n" using memD(9) [OF ok, of m] m(1) by auto
  ultimately obtain d where d: "DLL_ADD (hdlls (hash c)) (buckets (tab (hash c)) + nat b) m = Some d"
    "agree (set ((buckets (tab (hash c)) + nat b) # m # bs ! nat b)) (hdlls (hash c)) d" using DLL_ADD_ring [OF T(1)] by blast
  have hdl: "hdlls h = d" using h(1) d(1) unfolding hash_add_def hd
    by (auto simp: bind_eq_Some_conv)
  have P: "set (concat (bs[nat b := m # bs ! nat b])) = insert m (set (concat bs))"
    using bucket_update [OF i] concat_split [OF i] by simp
  have nh: "x \<in> H \<Longrightarrow> \<not> is_head (hash c) x" for x using memD(10) [OF ok] by blast
  have "mem_ok (c\<lparr>hash := h\<rparr>) (bs[nat b := m # bs ! nat b]) xs H ds D"
    using ok m(1) h(2-4) P agree_dom [OF d(2)] unfolding mem_ok_def by (auto simp: hdl is_head_def)
  moreover have "hdlls h x = hdlls (hash c) x" if "x \<in> H" "x \<notin> set (concat bs)" "x \<noteq> m" for x
  proof -
    have "x \<notin> set ((buckets (tab (hash c)) + nat b) # m # bs ! nat b)" using that nh [OF that(1)] T(5) sub by auto
    then show ?thesis using d(2) unfolding hdl agree_def by blast
  qed
  ultimately show ?thesis using h(1) P by blast
qed

lemma hash_rem_mem:
  assumes ok: "mem_ok c bs xs H ds D" and i: "i < length bs" and e: "bs ! i = us @ e # vs"
  shows "\<exists>h bs'. hash_rem (hash c) e = Some h \<and> mem_ok (c\<lparr>hash := h\<rparr>) bs' xs H ds D \<and> bs' = bs[i := us @ vs] \<and>
     set (concat bs') = set (concat bs) - {e} \<and> ring (hdlls h) e [] \<and> (\<forall>x \<in> H. x \<notin> set (concat bs) \<longrightarrow> hdlls h x = hdlls (hash c) x)"
proof -
  note hh = memD(1) [OF ok]
  note T = hash_holdsD [OF hh i]
  have eb: "e \<in> set (bs ! i)" using e by simp
  then have eP: "e \<in> set (concat bs)" using i by auto
  then have eH: "e \<in> H" using memD(8) [OF ok] by blast
  from hash_rem_holds [OF hh i e] obtain h where h: "hash_rem (hash c) e = Some h" "hash_holds h (bs[i := us @ vs])"
    "off_list h (bs[i := us @ vs]) e" "bucket h = bucket (hash c)" "tab h = (tab (hash c))\<lparr>count := count (tab (hash c)) - 1\<rparr>" by blast
  from T(1) e have r: "ring (hdlls (hash c)) (buckets (tab (hash c)) + i) (us @ e # vs)" by simp
  from DLL_REM_ring [OF r] obtain d where d: "DLL_REM (hdlls (hash c)) e = Some d" "ring d e []"
    "agree (set ((buckets (tab (hash c)) + i) # us @ e # vs)) (hdlls (hash c)) d" by blast
  obtain n where n: "DLL_NEXT (hdlls (hash c)) e = Some n" "n \<noteq> e"
    using ring_neighbours(2) [of "hdlls (hash c)" "buckets (tab (hash c)) + i" "us @ [e]" vs] r
    by (cases vs) (auto simp: ring_def)
  have hdl: "hdlls h = d" using h(1) d(1) n unfolding hash_rem_def by (auto simp: bind_eq_Some_conv DLL_ISEMPTY_def)
  have dis: "e \<notin> set (bs ! j)" if "j < length bs" "j \<noteq> i" for j
    using hash_holdsD(2) [OF hh that(1), of e] T(2) [OF eb] that(2) by auto
  have "e \<notin> set us" "e \<notin> set vs" using r by (auto simp: ring_def)
  then have P: "set (concat (bs[i := us @ vs])) = set (concat bs) - {e}"
    using bucket_update [OF i, of "us @ vs"] concat_split [OF i] e dis by auto
  have nh: "x \<in> H \<Longrightarrow> \<not> is_head (hash c) x" for x using memD(10) [OF ok] by blast
  have "mem_ok (c\<lparr>hash := h\<rparr>) (bs[i := us @ vs]) xs H ds D"
    using ok h(2,4,5) P agree_dom [OF d(3)] unfolding mem_ok_def by (auto simp: hdl is_head_def)
  moreover have "hdlls h x = hdlls (hash c) x" if "x \<in> H" "x \<notin> set (concat bs)" for x
  proof -
    have "set (bs ! i) \<subseteq> set (concat bs)" using concat_split [OF i] by blast
    then have "x \<notin> set (bs ! i)" using that(2) by blast
    then have "x \<notin> set ((buckets (tab (hash c)) + i) # us @ e # vs)" using nh [OF that(1)] T(5) e by auto
    then show ?thesis using d(3) unfolding hdl agree_def by blast
  qed
  ultimately show ?thesis using h(1) P d(2)
    by (intro exI [of _ h] exI [of _ "bs[i := us @ vs]"] conjI) (simp_all only: hdl ball_simps simp_thms, blast?)
qed


section \<open>Requests\<close>

lemma seqids_grow:
  assumes "seqids_ok c P p" and "\<And>m. m \<in> P' \<Longrightarrow> m \<in> P \<or> request_of (p t) = Some m"
    and "\<And>t m. request_of (p t) = Some m \<Longrightarrow> seqid_of c' m = seqid_of c m"
    and q: "request_of q = request_of (p t)"
  shows "seqids_ok c' P' (p(t := q))"
proof -
  have e: "request_of ((p(t := q)) u) = request_of (p u)" for u using q by simp
  from assms(1-3) show ?thesis unfolding seqids_ok_def e by metis
qed

text \<open>A step in which the task changes its message, but not its number, its response and its payload.\<close>

lemma own_msg_step:
  assumes inv: "inv_parts s bs xs H ds D own down" and m: "msg_of (ph s t) = Some m" and M: "msgs (chan s) m = Some M"
    and q: "msg_of q = msg_of (ph s t)" "buf_of q = buf_of (ph s t)" "request_of q = request_of (ph s t)"
    and ms: "msgs c' = (msgs (chan s))(m \<mapsto> M')" and M': "seqid (hdr M') = seqid (hdr M)" "resp M' = resp M" "payload M' = payload M"
    and mem: "mem_ok c' bs' xs H ds D" and pend: "pending_ok c' bs'" and lock: "lock_ok (fdlock c') ((ph s)(t := q))"
    and P: "set (concat bs') = set (concat bs) \<or> set (concat bs') = insert m (set (concat bs)) \<and> request_of (ph s t) = Some m"
    and hd: "\<And>n. n \<in> H \<Longrightarrow> n \<noteq> m \<Longrightarrow> n \<notin> set (concat bs) \<Longrightarrow> hdlls (hash c') n = hdlls (hash (chan s)) n"
    and en: "chan_enabled c' \<Longrightarrow> chan_enabled (chan s)" and new: "task_ok c' (set (concat bs')) t q"
  shows "rpc_inv (set_phase s c' t q)"
proof -
  note I = partsD [OF inv] and O = ownD [OF partsD(4) [OF inv]]
  have sq: "seqid_of c' n = seqid_of (chan s) n" for n using M M'(1) by (simp add: seqid_of_def ms)
  have cl: "client t" using m I(8) [of t] by (cases "ph s t") (auto simp: msg_of_def)
  show ?thesis
  proof (rule inv_task_step [OF inv mem pend lock])
    show "own_ok (msgs c') ((ph s)(t := q)) (rcv s) own down H D"
      using I(4) unfolding own_ok_def ms same_task(1) [where p = "ph s" and t = t, OF q(1)] same_task(2) [where p = "ph s" and t = t, OF q(2)]
        same_msg(1) [where ms = "msgs (chan s)" and m = m, OF M M'(2)] same_msg(2) [where ms = "msgs (chan s)" and m = m, OF M M'(3)] same_msg(3) [where ms = "msgs (chan s)" and m = m, OF M M'(2)] .
    show "seqids_ok c' (set (concat bs')) ((ph s)(t := q))"
      by (rule seqids_grow [OF I(5)]) (use P q(3) sq in auto)
    fix n assume n: "n \<in> H" "own n \<noteq> Task t"
    have nm: "n \<noteq> m" using O(4) [OF m] n(2) by auto
    with P hd [OF n(1) nm] show "unseen (chan s) (set (concat bs)) c' (set (concat bs')) n"
      by (auto simp: unseen_def ms sq)
  qed (use en new cl in auto)
qed

lemma pending_upd:
  assumes ok: "pending_ok c bs" and M: "msgs c m = Some M" and ms: "msgs c' = (msgs c)(m \<mapsto> M')"
    and M': "seqid (hdr M') = seqid (hdr M)" "resp M' = resp M"
  shows "pending_ok c' bs"
  unfolding pending_ok_def
proof (intro allI impI ballI)
  fix i e assume "i < length bs" "e \<in> set (bs ! i)"
  then obtain N where "msgs c e = Some N" "uint (seqid (hdr N)) mod int (length bs) = int i" "resp N = NULL"
    using ok unfolding pending_ok_def by blast
  with M M' show "\<exists>M. msgs c' e = Some M \<and> uint (seqid (hdr M)) mod int (length bs) = int i \<and> resp M = NULL"
    by (cases "e = m") (simp_all add: ms)
qed

lemma no_sleeper_eq: "no_sleeper = \<lparr>rlk = None, rz_waiting = []\<rparr>"
  by (simp add: no_sleeper_def)

lemma setreq_kept: "seqid (hdr (RPC_SETREQ M)) = seqid (hdr M)" "resp (RPC_SETREQ M) = resp M" "payload (RPC_SETREQ M) = payload M"
  "rendez (RPC_SETREQ M) = rendez M"
  by (simp_all add: RPC_SETREQ_def)

lemma set_phase_id: "ph s t = q \<Longrightarrow> set_phase s (chan s) t q = s"
  by (simp add: set_phase_def fun_upd_idem)

lemma request_start_inv:
  assumes inv: "inv_parts s bs xs H ds D own down" and p: "ph s t = Owns m"
  shows "\<exists>s'. locked s t (Owns m) (Sending m) (LockWait m) (request_start (chan s) t m) = Some s' \<and> rpc_inv s'"
proof -
  note I = partsD [OF inv] and O = ownD [OF partsD(4) [OF inv]]
  have mo: "msg_of (ph s t) = Some m" using p by (simp add: msg_of_def)
  have mH: "m \<in> H" using O(4) [OF mo] by blast
  obtain M where M: "msgs (chan s) m = Some M" "sendable M" "rendez M = no_sleeper" and fe: "free_entry (chan s) (set (concat bs)) m"
    using I(6) [of t] p by auto
  have t0: "t \<noteq> 0" using I(8) [of t] p by (simp add: client_def)
  show ?thesis
  proof (cases "chan_enabled (chan s)")
    case False
    then have "request_start (chan s) t m = Some (chan s, None)" using M by (simp add: request_start_def sendable_def)
    moreover have "rpc_inv s" using inv unfolding rpc_inv_def by blast
    ultimately show ?thesis using set_phase_id [OF p] by (simp add: locked_def)
  next
    case True
    let ?b = "get_bucket (chan s) (seqid (hdr M))"
    let ?c1 = "(chan s)\<lparr>msgs := (msgs (chan s))(m \<mapsto> RPC_SETREQ M)\<rparr>"
    have nb: "no_buckets (tab (hash (chan s))) = int (length bs)" "bs \<noteq> []" using memD(1) [OF I(1)] by (simp_all add: hash_holds_def)
    then have b: "0 \<le> ?b" "?b < int (length bs)" by (simp_all add: get_bucket_def)
    have c1: "on_msg (chan s) m RPC_SETREQ = Some ?c1" "mem_ok ?c1 bs xs H ds D" using on_msg_mem [OF I(1) M(1)] by blast+
    have "free_entry ?c1 (set (concat bs)) m" using fe by (simp add: free_entry_def)
    from hash_add_mem [OF c1(2) mH this b] obtain h bs' where h: "hash_add (hash ?c1) m ?b = Some (h, 0)" "mem_ok (?c1\<lparr>hash := h\<rparr>) bs' xs H ds D"
      "bs' = bs[nat ?b := m # bs ! nat ?b]" "set (concat bs') = insert m (set (concat bs))"
      "\<forall>x \<in> H. x \<notin> set (concat bs) \<longrightarrow> x \<noteq> m \<longrightarrow> hdlls h x = hdlls (hash ?c1) x" by blast
    have pend: "pending_ok (?c1\<lparr>hash := h, fdlock := l\<rparr>) bs'" for l
      unfolding pending_ok_def
    proof (intro allI impI ballI)
      fix i e assume i: "i < length bs'" "e \<in> set (bs' ! i)"
      show "\<exists>M'. msgs (?c1\<lparr>hash := h, fdlock := l\<rparr>) e = Some M' \<and> uint (seqid (hdr M')) mod int (length bs') = int i \<and> resp M' = NULL"
      proof (cases "e = m")
        case True
        have "i = nat ?b"
        proof (rule ccontr)
          assume "i \<noteq> nat ?b"
          then have "m \<in> set (bs ! i)" using i True h(3) by simp
          then have "m \<in> set (concat bs)" using i(1) h(3) by (auto intro: nth_mem)
          then show False using fe by (simp add: free_entry_def)
        qed
        then show ?thesis using True M(2) b(1) h(3) nb by (simp add: setreq_kept sendable_def get_bucket_def)
      next
        case False
        then have "e \<in> set (bs ! i)" using i h(3) by (cases "i = nat ?b") auto
        then show ?thesis using I(2) i(1) h(3) False unfolding pending_ok_def by simp
      qed
    qed
    have step: "rpc_inv (set_phase s (?c1\<lparr>hash := h, fdlock := l\<rparr>) t q)"
      if q: "q = Sending m \<or> q = LockWait m" and l: "lock_ok l ((ph s)(t := q))" for q l
    proof (rule own_msg_step [OF inv mo M(1), of q _ "RPC_SETREQ M" bs'])
      show "mem_ok (?c1\<lparr>hash := h, fdlock := l\<rparr>) bs' xs H ds D" using h(2) by (simp add: mem_ok_def)
      show "task_ok (?c1\<lparr>hash := h, fdlock := l\<rparr>) (set (concat bs')) t q"
        using q h(4) M(3) by (auto simp: queued_def setreq_kept no_sleeper_eq)
    qed (use q p pend l h(4,5) True in \<open>auto simp: msg_of_def setreq_kept\<close>)
    have nl: "\<not> holds_lock (ph s t)" "\<not> wants_lock (ph s t)" using p by simp_all
    have call: "request_start (chan s) t m = (let (l, r) = qlock (fdlock (chan s)) t in Some (?c1\<lparr>hash := h, fdlock := l\<rparr>, Some r))"
      using M True b nb c1(1) h(1) by (simp add: request_start_def sendable_def chan_lock_def split: prod.splits)
    from lock_take [OF I(3) t0 nl, of "Sending m" "LockWait m"] show ?thesis
      using call step by (auto simp: locked_def)
  qed
qed

lemma queuedD: "queued c P m ts \<Longrightarrow> \<exists>M. m \<in> P \<and> msgs c m = Some M \<and> rendez M = \<lparr>rlk = None, rz_waiting = ts\<rparr>"
  by (auto simp: queued_def)

text \<open>The request has been written: the task gives the lock back and sleeps.\<close>

lemma request_sleep_inv:
  assumes inv: "inv_parts s bs xs H ds D own down" and p: "ph s t = Sending m \<or> ph s t = SendingPayload m"
  shows "\<exists>c. request_sleep (chan s) t m = Some c \<and> rpc_inv (set_phase s c t (Asleep m))"
proof -
  note I = partsD [OF inv] and O = ownD [OF partsD(4) [OF inv]]
  have mo: "msg_of (ph s t) = Some m" and h: "holds_lock (ph s t)" using p by (auto simp: msg_of_def)
  have "queued (chan s) (set (concat bs)) m []" using I(6) [of t] p by auto
  from queuedD [OF this] obtain M where M: "m \<in> set (concat bs)" "msgs (chan s) m = Some M" "rendez M = \<lparr>rlk = None, rz_waiting = []\<rparr>" by blast
  from lock_give [OF I(3) h, of "Asleep m"] obtain l w where l: "qunlock (fdlock (chan s)) = Some (l, w)" "lock_ok l ((ph s)(t := Asleep m))" by auto
  let ?M = "M\<lparr>rendez := \<lparr>rlk = None, rz_waiting = [t]\<rparr>\<rparr>"
  let ?c = "(chan s)\<lparr>fdlock := l, msgs := (msgs (chan s))(m \<mapsto> ?M)\<rparr>"
  have call: "request_sleep (chan s) t m = Some ?c"
    using l(1) M(2,3) by (simp add: request_sleep_def chan_unlock_def tasksleep_def on_msg_def)
  have pend: "pending_ok ?c bs"
    by (rule pending_upd [OF I(2) M(2), where M' = ?M]) simp_all
  have "rpc_inv (set_phase s ?c t (Asleep m))"
  proof (rule own_msg_step [OF inv mo M(2), of "Asleep m" ?c ?M bs])
    show "mem_ok ?c bs xs H ds D" using I(1) memD(6) [OF I(1)] M(2) by (auto simp: mem_ok_def)
    show "task_ok ?c (set (concat bs)) t (Asleep m)" using M(1) by (simp add: queued_def)
  qed (use p l(2) pend in \<open>auto simp: msg_of_def\<close>)
  with call show ?thesis by blast
qed

text \<open>A step that only concerns the lock, or closes the channel.\<close>

lemma chan_step:
  assumes inv: "inv_parts s bs xs H ds D own down"
    and q: "msg_of q = msg_of (ph s t)" "buf_of q = buf_of (ph s t)" "request_of q = request_of (ph s t)" "q \<noteq> Idle \<Longrightarrow> ph s t \<noteq> Idle"
    and c: "msgs c' = msgs (chan s)" "hash c' = hash (chan s)" "msgpool c' = msgpool (chan s)" "datapool c' = datapool (chan s)"
    and lock: "lock_ok (fdlock c') ((ph s)(t := q))"
    and en: "chan_enabled c' \<Longrightarrow> chan_enabled (chan s)" and new: "task_ok c' (set (concat bs)) t q"
  shows "rpc_inv (set_phase s c' t q)"
proof -
  note I = partsD [OF inv]
  have "mem_ok c' bs xs H ds D" using I(1) c by (simp add: mem_ok_def)
  moreover have "own_ok (msgs c') ((ph s)(t := q)) (rcv s) own down H D"
    using I(4) unfolding own_ok_def c(1) same_task(1) [where p = "ph s" and t = t, OF q(1)] same_task(2) [where p = "ph s" and t = t, OF q(2)] .
  moreover have "seqids_ok c' (set (concat bs)) ((ph s)(t := q))"
    by (rule seqids_frame [OF I(5)]) (use c(1) q(3) in \<open>auto simp: seqid_of_def\<close>)
  ultimately show ?thesis
    by (intro inv_task_step [OF inv _ pending_frame [OF I(2)] lock]) (use c en new q(4) I(8) in \<open>auto intro: unseen_refl\<close>)
qed


lemma lock_got_inv:
  assumes inv: "inv_parts s bs xs H ds D own down" and e: "enabled_event (LockGot t) s"
  shows "\<exists>s'. rpc_step (LockGot t) s = Some s' \<and> rpc_inv s'"
proof -
  note I = partsD [OF inv]
  from e obtain m where p: "ph s t = LockWait m \<or> ph s t = RespWait m" and o: "owner (fdlock (chan s)) = t" by auto
  have w: "wants_lock (ph s t)" using p by auto
  have step: "rpc_inv (set_phase s (chan s) t q)"
    if "holds_lock q" "msg_of q = msg_of (ph s t)" "buf_of q = buf_of (ph s t)" "request_of q = request_of (ph s t)"
      "task_ok (chan s) (set (concat bs)) t q" for q
    by (rule chan_step [OF inv that(2-4)]) (use that(5) w lock_got [OF I(3) o w that(1)] in auto)
  from p show ?thesis
  proof
    assume q: "ph s t = LockWait m"
    have "rpc_inv (set_phase s (chan s) t (Sending m))"
      by (rule step) (use q I(6) [of t] in \<open>simp_all add: msg_of_def\<close>)
    with q o show ?thesis by (simp add: qlock_resume_def)
  next
    assume q: "ph s t = RespWait m"
    have "rpc_inv (set_phase s (chan s) t (Responding m))"
      by (rule step) (use q I(6) [of t] in \<open>simp_all add: msg_of_def\<close>)
    with q o show ?thesis by (simp add: qlock_resume_def)
  qed
qed

lemma rpc_wake_inv:
  assumes inv: "inv_parts s bs xs H ds D own down" and e: "enabled_event (Wake t) s"
  shows "\<exists>s'. rpc_step (Wake t) s = Some s' \<and> rpc_inv s'"
proof -
  note I = partsD [OF inv]
  from e obtain m where p: "ph s t = Asleep m" and n: "\<not> sleeps_on s t m" by auto
  have "\<not> queued (chan s) (set (concat bs)) m [t]" using n p by (auto simp: queued_def sleeps_on_def)
  then obtain M where M: "msgs (chan s) m = Some M" "answered (chan s) (set (concat bs)) m M" using I(6) [of t] p by auto
  have "rpc_inv (set_phase s (chan s) t (Done m))"
    by (rule chan_step [OF inv]) (use p M lock_frame [OF I(3), of "Done m" t] in \<open>auto simp: msg_of_def\<close>)
  moreover have "request_done (chan s) m = Some ()" using M by (simp add: request_done_def answered_def)
  ultimately show ?thesis using p by simp
qed

text \<open>A write has failed: the channel is closed.\<close>

lemma close_inv:
  assumes inv: "inv_parts s bs xs H ds D own down"
    and p: "(ph s t = Sending m \<or> ph s t = SendingPayload m) \<and> q = Closing m \<or>
      (ph s t = Responding m \<or> ph s t = RespondingPayload m) \<and> q = RespClosing m"
  shows "rpc_inv (set_phase s (rpc_chan_close (chan s)) t q)"
proof -
  note I = partsD [OF inv]
  have "task_ok (rpc_chan_close (chan s)) (set (concat bs)) t q"
    using p I(6) [of t] by (auto simp: rpc_chan_close_def queued_def unhashed_def)
  moreover have "lock_ok (fdlock (chan s)) ((ph s)(t := q))" by (rule lock_frame [OF I(3)]) (use p in auto)
  ultimately show ?thesis
    by (intro chan_step [OF inv]) (use p in \<open>auto simp: msg_of_def rpc_chan_close_def\<close>)
qed

lemma payload_next_inv:
  assumes inv: "inv_parts s bs xs H ds D own down"
    and p: "ph s t = Sending m \<and> q = SendingPayload m \<or> ph s t = Responding m \<and> q = RespondingPayload m"
  shows "rpc_inv (set_phase s (chan s) t q)"
proof -
  note I = partsD [OF inv]
  have "lock_ok (fdlock (chan s)) ((ph s)(t := q))" by (rule lock_frame [OF I(3)]) (use p in auto)
  then show ?thesis
    by (intro chan_step [OF inv]) (use p I(6) [of t] in \<open>auto simp: msg_of_def\<close>)
qed

text \<open>A response has been written, or could not be: its message is given back.\<close>

lemma response_done_inv:
  assumes inv: "inv_parts s bs xs H ds D own down"
    and p: "ph s t = Responding m \<or> ph s t = RespondingPayload m \<or> ph s t = RespClosing m"
    and c: "c0 = chan s \<or> c0 = rpc_chan_closed (chan s)"
  shows "\<exists>c'. response_done c0 m = Some c' \<and> rpc_inv (set_phase s c' t Idle)"
proof -
  note I = partsD [OF inv]
  have mo: "msg_of (ph s t) = Some m" and h: "holds_lock (ph s t)" using p by (auto simp: msg_of_def)
  have "unhashed (chan s) (set (concat bs)) m (\<lambda>_. True)" using I(6) [of t] p by auto
  then have mP: "m \<notin> set (concat bs)" by (simp add: unhashed_def)
  from lock_give [OF I(3) h, of Idle] obtain l w where l: "qunlock (fdlock (chan s)) = Some (l, w)" "lock_ok l ((ph s)(t := Idle))" by auto
  let ?c = "c0\<lparr>fdlock := l\<rparr>"
  have u: "chan_unlock c0 = Some ?c" using l(1) c by (auto simp: chan_unlock_def rpc_chan_closed_def)
  have mem: "mem_ok ?c bs xs H ds D" using I(1) c by (elim disjE) (simp_all add: mem_ok_def rpc_chan_closed_def)
  from put_inv [OF inv mo mP mem] l(2) c obtain c' where "rpc_msg_put ?c m = Some c'" "rpc_inv (set_phase s c' t Idle)"
    by (auto simp: rpc_chan_closed_def)
  with u show ?thesis by (simp add: response_done_def)
qed

lemma written_inv:
  assumes inv: "inv_parts s bs xs H ds D own down"
    and e: "enabled_event (HeaderWritten t res) s" 
  shows "\<exists>s'. rpc_step (HeaderWritten t res) s = Some s' \<and> rpc_inv s'"
proof -
  note I = partsD [OF inv] and O = ownD [OF partsD(4) [OF inv]]
  from e obtain m where p: "ph s t = Sending m \<or> ph s t = Responding m" by auto
  then have "msg_of (ph s t) = Some m" by (auto simp: msg_of_def)
  with O(4) have "m \<in> H" by blast
  with mem_in [OF I(1)] obtain M where M: "msgs (chan s) m = Some M" by blast
  consider (bad) "res \<noteq> 0" | (pay) "res = 0" "payload M \<noteq> NULL" | (ok) "res = 0" "payload M = NULL" by blast
  then show ?thesis
  proof cases
    case bad
    with close_inv [OF inv] p M show ?thesis by (auto simp: request_header_def response_header_def wrote_def)
  next
    case pay
    with payload_next_inv [OF inv] p M show ?thesis by (auto simp: request_header_def response_header_def wrote_def)
  next
    case ok
    with request_sleep_inv [OF inv, of t m] response_done_inv [OF inv, of t m "chan s"] p M show ?thesis
      by (auto simp: request_header_def response_header_def wrote_def)
  qed
qed

lemma payload_written_inv:
  assumes inv: "inv_parts s bs xs H ds D own down"
    and e: "enabled_event (PayloadWritten t res) s" 
  shows "\<exists>s'. rpc_step (PayloadWritten t res) s = Some s' \<and> rpc_inv s'"
proof -
  from e obtain m where p: "ph s t = SendingPayload m \<or> ph s t = RespondingPayload m" by auto
  show ?thesis
  proof (cases "res = 0")
    case False
    with close_inv [OF inv] p show ?thesis by (auto simp: request_payload_def response_payload_def wrote_def)
  next
    case True
    with request_sleep_inv [OF inv, of t m] response_done_inv [OF inv, of t m "chan s"] p show ?thesis
      by (auto simp: request_payload_def response_payload_def wrote_def)
  qed
qed

lemma closed_inv:
  assumes inv: "inv_parts s bs xs H ds D own down" and e: "enabled_event (ChanClosed t) s"
  shows "\<exists>s'. rpc_step (ChanClosed t) s = Some s' \<and> rpc_inv s'"
proof -
  note I = partsD [OF inv]
  from e obtain m where "ph s t = Closing m \<or> ph s t = RespClosing m" by auto
  then show ?thesis
  proof
    assume p: "ph s t = RespClosing m"
    with response_done_inv [OF inv, of t m "rpc_chan_closed (chan s)"] show ?thesis by (auto simp: response_failed_def)
  next
    assume p: "ph s t = Closing m"
    then have h: "holds_lock (ph s t)" by simp
    from lock_give [OF I(3) h, of "Failed m"] obtain l w where l: "qunlock (fdlock (chan s)) = Some (l, w)" "lock_ok l ((ph s)(t := Failed m))" by auto
    let ?c = "(rpc_chan_closed (chan s))\<lparr>fdlock := l\<rparr>"
    have "rpc_inv (set_phase s ?c t (Failed m))"
      by (rule chan_step [OF inv]) (use p l(2) I(6) [of t] in \<open>auto simp: msg_of_def rpc_chan_closed_def queued_def\<close>)
    with p l(1) show ?thesis by (simp add: request_failed_def chan_unlock_def rpc_chan_closed_def)
  qed
qed

section \<open>Handlers\<close>

lemma setresp_kept: "seqid (hdr (RPC_SETRESP M)) = seqid (hdr M)" "resp (RPC_SETRESP M) = resp M" "payload (RPC_SETRESP M) = payload M"
  by (simp_all add: RPC_SETRESP_def)

lemma response_start_inv:
  assumes inv: "inv_parts s bs xs H ds D own down" and p: "ph s t = Handling m" and en: "chan_enabled (chan s)"
  shows "\<exists>s'. locked s t Idle (Responding m) (RespWait m) (response_start (chan s) t m) = Some s' \<and> rpc_inv s'"
proof -
  note I = partsD [OF inv] and O = ownD [OF partsD(4) [OF inv]]
  have mo: "msg_of (ph s t) = Some m" using p by (simp add: msg_of_def)
  obtain M where M: "msgs (chan s) m = Some M" "resp M = NULL" "sendable M" and mP: "m \<notin> set (concat bs)"
    using I(6) [of t] p en by (auto simp: unhashed_def split: if_splits)
  have t0: "t \<noteq> 0" using I(8) [of t] p by (simp add: client_def)
  have nl: "\<not> holds_lock (ph s t)" "\<not> wants_lock (ph s t)" using p by simp_all
  let ?c = "(chan s)\<lparr>msgs := (msgs (chan s))(m \<mapsto> RPC_SETRESP M)\<rparr>"
  have c: "on_msg (chan s) m RPC_SETRESP = Some ?c" "mem_ok ?c bs xs H ds D" using on_msg_mem [OF I(1) M(1)] by blast+
  have pend: "pending_ok (?c\<lparr>fdlock := l\<rparr>) bs" for l
    by (rule pending_upd [OF I(2) M(1), where M' = "RPC_SETRESP M"]) (simp_all add: setresp_kept)
  have step: "rpc_inv (set_phase s (?c\<lparr>fdlock := l\<rparr>) t q)"
    if q: "q = Responding m \<or> q = RespWait m" and l: "lock_ok l ((ph s)(t := q))" for q l
  proof (rule own_msg_step [OF inv mo M(1), of q _ "RPC_SETRESP M" bs])
    show "mem_ok (?c\<lparr>fdlock := l\<rparr>) bs xs H ds D" using c(2) by (simp add: mem_ok_def)
    show "task_ok (?c\<lparr>fdlock := l\<rparr>) (set (concat bs)) t q"
      using q mP M(2) by (auto simp: unhashed_def setresp_kept)
  qed (use q p pend l en in \<open>auto simp: msg_of_def setresp_kept\<close>)
  have call: "response_start (chan s) t m = (let (l, r) = qlock (fdlock (chan s)) t in Some (?c\<lparr>fdlock := l\<rparr>, Some r))"
    using M en c(1) by (simp add: response_start_def sendable_def chan_lock_def split: prod.splits)
  from lock_take [OF I(3) t0 nl, of "Responding m" "RespWait m"] show ?thesis
    using call step by (auto simp: locked_def)
qed


text \<open>The steps of \<^const>\<open>rpc_default_handler\<close>, one after the other.\<close>

lemma set_phase_twice: "set_phase (set_phase s c t p) c' t q = set_phase s c' t q"
  by (simp add: set_phase_def)

lemma locked_phase: "locked (set_phase s c t p) t x y z r = locked s t x y z r"
  by (simp add: locked_def set_phase_twice cong: bind_option_cong)

lemma drop_payload_inv:
  assumes inv: "inv_parts s bs xs H ds D own down" and p: "ph s t = Handling m" and M: "msgs (chan s) m = Some M"
    and z: "RPC_IS_CONNCLOSED M \<or> payloadlen (hdr M) = 0"
  shows "\<exists>c'. (if payload M \<noteq> NULL then do { c \<leftarrow> rpc_databuf_put (chan s) (payload M); on_msg c m (\<lambda>M. M\<lparr>payload := NULL\<rparr>) } else Some (chan s)) = Some c' \<and>
     rpc_inv (set_phase s c' t (Handling m)) \<and> msgs c' = (msgs (chan s))(m \<mapsto> M\<lparr>payload := NULL\<rparr>) \<and> chan_enabled c' = chan_enabled (chan s)"
proof (cases "payload M = NULL")
  case True
  then have "M\<lparr>payload := NULL\<rparr> = M" by simp
  moreover have "rpc_inv s" using inv unfolding rpc_inv_def by blast
  ultimately show ?thesis using True M set_phase_id [OF p] by (intro exI [of _ "chan s"]) (simp add: fun_upd_idem)
next
  case False
  note I = partsD [OF inv] and O = ownD [OF partsD(4) [OF inv]]
  have mo: "msg_of (ph s t) = Some m" using p by (simp add: msg_of_def)
  have b: "payload M \<in> D" using O(7) [of m "payload M"] False M by (simp add: payload_of_def)
  from databuf_put_mem [OF I(1) b] obtain d es where d: "rpc_databuf_put (chan s) (payload M) = Some ((chan s)\<lparr>datapool := d\<rparr>)"
    "mem_ok ((chan s)\<lparr>datapool := d\<rparr>) bs xs H es (D - {payload M})" by blast
  let ?M = "M\<lparr>payload := NULL\<rparr>"
  let ?c = "(chan s)\<lparr>datapool := d, msgs := (msgs (chan s))(m \<mapsto> ?M)\<rparr>"
  have c: "on_msg ((chan s)\<lparr>datapool := d\<rparr>) m (\<lambda>M. M\<lparr>payload := NULL\<rparr>) = Some ?c" "mem_ok ?c bs xs H es (D - {payload M})"
    using on_msg_mem [OF d(2), of m M "\<lambda>M. M\<lparr>payload := NULL\<rparr>"] M by simp_all
  have pend: "pending_ok ?c bs" by (rule pending_upd [OF I(2) M, where M' = ?M]) simp_all
  have own: "own_ok (msgs ?c) ((ph s)(t := Handling m)) (rcv s) own down H (D - {payload M})"
    unfolding own_ok_def
  proof (intro conjI)
    have "msg_known ((msgs (chan s))(m \<mapsto> ?M)) (ph s) (rcv s) = msg_known (msgs (chan s)) (ph s) (rcv s)"
      by (rule same_msg(1) [where ms = "msgs (chan s)" and m = m, OF M]) simp
    then show "holds (msg_known (msgs ?c) ((ph s)(t := Handling m)) (rcv s)) own H" using O(1) p by (simp add: fun_upd_idem)
    have "holds ((buf_known (msgs (chan s)) (ph s) (rcv s))(Message m := None)) down (D - {payload M})"
      by (rule holds_drop [OF O(2)]) (use M False in \<open>simp add: known_simps payload_of_def\<close>)
    then show "holds (buf_known (msgs ?c) ((ph s)(t := Handling m)) (rcv s)) down (D - {payload M})"
      using p by (simp add: fun_upd_idem known_msg)
    have "resp_of ((msgs (chan s))(m \<mapsto> ?M)) = resp_of (msgs (chan s))" by (rule same_msg(3) [where ms = "msgs (chan s)" and m = m, OF M]) simp
    then show "\<forall>n x. resp_of (msgs ?c) n = Some x \<longrightarrow> resp_of (msgs ?c) x = None" using O(3) by simp
  qed
  have sq: "seqid_of ?c n = seqid_of (chan s) n" for n using M by (simp add: seqid_of_def)
  have "rpc_inv (set_phase s ?c t (Handling m))"
  proof (rule inv_task_step [OF inv c(2) pend _ own])
    show "lock_ok (fdlock ?c) ((ph s)(t := Handling m))" using I(3) p by (simp add: fun_upd_idem)
    show "seqids_ok ?c (set (concat bs)) ((ph s)(t := Handling m))"
      by (rule seqids_frame [OF I(5)]) (use sq p in auto)
    show "task_ok ?c (set (concat bs)) t (Handling m)"
      using I(6) [of t] p M z by (auto simp: unhashed_def sendable_def RPC_IS_CONNCLOSED_def)
    fix n assume "n \<in> H" "own n \<noteq> Task t"
    then have "n \<noteq> m" using O(4) [OF mo] by auto
    then show "unseen (chan s) (set (concat bs)) ?c (set (concat bs)) n" using sq by (simp add: unseen_def)
  qed (use I(8) [of t] p in auto)
  with False d(1) c(1) show ?thesis by (intro exI [of _ ?c]) simp
qed

lemma set_status_inv:
  assumes inv: "rpc_inv s" and p: "ph s t = Handling m" and M: "msgs (chan s) m = Some M"
  shows "\<exists>c. on_msg (chan s) m (\<lambda>M. M\<lparr>hdr := (hdr M)\<lparr>status := x\<rparr>\<rparr>) = Some c \<and> rpc_inv (set_phase s c t (Handling m)) \<and>
    msgs c = (msgs (chan s))(m \<mapsto> M\<lparr>hdr := (hdr M)\<lparr>status := x\<rparr>\<rparr>) \<and> chan_enabled c = chan_enabled (chan s)"
proof -
  from inv obtain bs xs H ds D own down where inv: "inv_parts s bs xs H ds D own down" unfolding rpc_inv_def by blast
  note I = partsD [OF inv]
  let ?M = "M\<lparr>hdr := (hdr M)\<lparr>status := x\<rparr>\<rparr>"
  let ?c = "(chan s)\<lparr>msgs := (msgs (chan s))(m \<mapsto> ?M)\<rparr>"
  have mo: "msg_of (ph s t) = Some m" using p by (simp add: msg_of_def)
  have c: "on_msg (chan s) m (\<lambda>M. M\<lparr>hdr := (hdr M)\<lparr>status := x\<rparr>\<rparr>) = Some ?c" "mem_ok ?c bs xs H ds D"
    using on_msg_mem [OF I(1) M, of "\<lambda>M. M\<lparr>hdr := (hdr M)\<lparr>status := x\<rparr>\<rparr>"] by simp_all
  have "pending_ok ?c bs" by (rule pending_upd [OF I(2) M, where M' = ?M]) simp_all
  then have "rpc_inv (set_phase s ?c t (Handling m))"
    by (intro own_msg_step [OF inv mo M, of _ ?c ?M bs])
      (use c(2) I(3) I(6) [of t] p M in \<open>auto simp: unhashed_def sendable_def RPC_IS_CONNCLOSED_def fun_upd_idem\<close>)
  with c(1) show ?thesis by (intro exI [of _ ?c]) simp
qed

lemma default_handler_inv:
  assumes inv: "inv_parts s bs xs H ds D own down" and e: "enabled_event (DefaultHandler t) s"
  shows "\<exists>s'. rpc_step (DefaultHandler t) s = Some s' \<and> rpc_inv s'"
proof -
  from e obtain m M where p: "ph s t = Handling m" and M: "msgs (chan s) m = Some M"
    and z: "RPC_IS_CONNCLOSED M \<or> chan_enabled (chan s) \<and> payloadlen (hdr M) = 0" by auto
  from drop_payload_inv [OF inv p M] z obtain c1 where c1:
    "(if payload M \<noteq> NULL then do { c \<leftarrow> rpc_databuf_put (chan s) (payload M); on_msg c m (\<lambda>M. M\<lparr>payload := NULL\<rparr>) } else Some (chan s)) = Some c1"
    "rpc_inv (set_phase s c1 t (Handling m))" "msgs c1 = (msgs (chan s))(m \<mapsto> M\<lparr>payload := NULL\<rparr>)" "chan_enabled c1 = chan_enabled (chan s)" by auto
  let ?s1 = "set_phase s c1 t (Handling m)"
  have s1: "ph ?s1 t = Handling m" "chan ?s1 = c1" by (simp_all add: set_phase_def)
  from set_status_inv [OF c1(2) s1(1), of "M\<lparr>payload := NULL\<rparr>" RPC_ENOSYS] s1(2) c1(3) obtain c2 where c2:
    "on_msg c1 m (\<lambda>M. M\<lparr>hdr := (hdr M)\<lparr>status := RPC_ENOSYS\<rparr>\<rparr>) = Some c2" "rpc_inv (set_phase s c2 t (Handling m))" "chan_enabled c2 = chan_enabled c1"
    by (auto simp: set_phase_twice)
  let ?s2 = "set_phase s c2 t (Handling m)"
  have s2: "ph ?s2 t = Handling m" "chan ?s2 = c2" by (simp_all add: set_phase_def)
  from c2(2) obtain bs xs H ds D own down where inv2: "inv_parts ?s2 bs xs H ds D own down" unfolding rpc_inv_def by blast
  have call: "rpc_default_handler (chan s) t m =
      (if RPC_IS_CONNCLOSED M then do { c \<leftarrow> rpc_msg_put c2 m; Some (c, None) } else response_start c2 t m)"
    using M c1(1) c2(1) by (simp add: rpc_default_handler_def)
  show ?thesis
  proof (cases "RPC_IS_CONNCLOSED M")
    case True
    note I = partsD [OF inv2]
    have mP: "m \<notin> set (concat bs)" using I(6) [of t] s2 by (simp add: unhashed_def)
    have "lock_ok (fdlock c2) ((ph ?s2)(t := Idle))"
      using lock_outside [OF I(3), of t Idle] s2 by (simp add: no_lock_def)
    with put_inv [OF inv2 _ mP, of t "chan ?s2"] s2 I(1) obtain c' where "rpc_msg_put c2 m = Some c'" "rpc_inv (set_phase ?s2 c' t Idle)"
      by (auto simp: msg_of_def)
    then show ?thesis using p call True by (simp add: locked_def set_phase_twice)
  next
    case False
    then have "chan_enabled (chan ?s2)" using z c1(4) c2(3) s2(2) by simp
    from response_start_inv [OF inv2 s2(1) this] show ?thesis using p call False s2(2) by (simp add: locked_phase)
  qed
qed

end
