(* ===== verification/Rpc_Recv.thy ===== *)
theory Rpc_Recv
  imports Rpc_Steps
begin

text \<open>The events of the receiver keep the invariant: a response finds the task that waits for it.\<close>

section \<open>The receiver\<close>

lemma recv_idle: "inv_parts s bs xs H ds D own down \<Longrightarrow> ph s recv_task = Idle"
  using partsD(8) [of s bs xs H ds D own down recv_task] by (auto simp: client_def)

text \<open>The receiver's message changes; a handler task \<open>t\<close> may be created.\<close>

lemma recv_step:
  assumes inv: "inv_parts s bs xs H ds D own down" and m: "rmsg_of (rcv s) = Some m"
    and ms: "msgs c' = (msgs (chan s))(m \<mapsto> M')" and c: "hash c' = hash (chan s)" "fdlock c' = fdlock (chan s)"
    and en: "chan_enabled c' \<Longrightarrow> chan_enabled (chan s)" and mem: "mem_ok c' bs xs H es D'"
    and own: "own_ok (msgs c') ((ph s)(t := q)) r' own' down' H D'" and t: "ph s t = Idle" "q \<noteq> Idle \<Longrightarrow> client t" "no_lock q" "request_of q = None"
    and new: "task_ok c' (set (concat bs)) t q" "recv_ok c' (set (concat bs)) r'"
  shows "inv_parts \<lparr>chan = c', ph = (ph s)(t := q), rcv = r'\<rparr> bs xs H es D' own' down'"
proof -
  note I = partsD [OF inv] and O = ownD [OF partsD(4) [OF inv]]
  have mr: "m \<in> H" "own m = Receiver" using O(5) [OF m] by blast+
  have mP: "m \<notin> set (concat bs)" using pending_task [OF inv, of m] mr(2) by auto
  have sq: "seqid_of c' n = seqid_of (chan s) n" if "n \<noteq> m" for n using that by (simp add: seqid_of_def ms)
  show ?thesis
  proof (rule inv_step [OF inv mem _ _ own])
    show "pending_ok c' bs" by (rule pending_frame [OF I(2)]) (use mP ms in auto)
    show "lock_ok (fdlock c') ((ph s)(t := q))" unfolding c by (rule lock_outside [OF I(3)]) (use t in \<open>simp_all add: no_lock_def\<close>)
    show "seqids_ok c' (set (concat bs)) ((ph s)(t := q))"
    proof (rule seqids_frame [OF I(5)])
      fix u n assume "request_of (ph s u) = Some n"
      then have "own n = Task u" using O(4) [of u n] by (simp add: msg_of_def)
      then have "n \<noteq> m" using mr(2) by auto
      then show "seqid_of c' n = seqid_of (chan s) n" by (rule sq)
    qed (use t in simp_all)
    fix n u assume n: "n \<in> H" "own n = Task u"
    then have nm: "n \<noteq> m" using mr(2) by auto
    have "seqid_of c' (resp N) = seqid_of (chan s) (resp N)" if "msgs (chan s) n = Some N" "resp N \<noteq> NULL" for N
    proof (rule sq)
      have "own (resp N) = Message n" using O(6) [of n "resp N"] that by (simp add: resp_of_def)
      then show "resp N \<noteq> m" using mr(2) by auto
    qed
    then show "unseen (chan s) (set (concat bs)) c' (set (concat bs)) n" using nm by (simp add: unseen_def ms c)
  qed (use en new t in auto)
qed

lemma received_same:
  assumes "ph s' = ph s"
  shows "received s' u r = received s u r"
proof -
  have "s'\<lparr>chan := c, rcv := x\<rparr> = s\<lparr>chan := c, rcv := x\<rparr>" for c x using assms by (cases s; cases s') simp
  then show ?thesis by (simp add: received_def)
qed

lemma received_handler: "received s u (Some (c, r, Handler m)) = Some \<lparr>chan = c, ph = (ph s)(u := Handling m), rcv = r\<rparr>"
  by (simp add: received_def set_phase_def)

lemma received_other: "d = Pending \<or> d = Answered \<Longrightarrow> received s u (Some (c, r, d)) = Some \<lparr>chan = c, ph = ph s, rcv = r\<rparr>"
  by (auto simp: received_def)

lemma recv_own:
  assumes O: "own_ok ms p r own down H D" and m: "rmsg_of r = Some m" "ms m = Some M" and M': "resp M' = resp M"
    and r': "rmsg_of r' = Some m" and b: "holds (buf_known (ms(m \<mapsto> M')) p r') down' D'"
  shows "own_ok (ms(m \<mapsto> M')) p r' own down' H D'"
proof -
  have "msg_known (ms(m \<mapsto> M')) p r = msg_known ms p r" by (rule same_msg(1) [where ms = ms and m = m, OF m(2) M'])
  moreover have "msg_known (ms(m \<mapsto> M')) p r' = msg_known (ms(m \<mapsto> M')) p r" using m(1) r' by (simp add: msg_known_def)
  moreover have "resp_of (ms(m \<mapsto> M')) = resp_of ms" by (rule same_msg(3) [where ms = ms and m = m, OF m(2) M'])
  ultimately show ?thesis using O b by (simp add: own_ok_def)
qed

text \<open>The message is handed to a handler task.\<close>

lemma handler_own:
  assumes O: "own_ok ms p r own down H D" and m: "rmsg_of r = Some m" "ms m = Some M" and M': "resp M' = resp M" and t: "p t = Idle"
    and b: "holds (buf_known (ms(m \<mapsto> M')) p r') down' D'" and r': "rmsg_of r' = None"
  shows "own_ok (ms(m \<mapsto> M')) (p(t := Handling m)) r' (own(m := Task t)) down' H D'"
  unfolding own_ok_def
proof (intro conjI)
  note K = ownD [OF O]
  have e: "msg_known (ms(m \<mapsto> M')) p r = msg_known ms p r" by (rule same_msg(1) [where ms = ms and m = m, OF m(2) M'])
  have "holds ((msg_known ms p r)(Receiver := None, Task t := Some m)) (own(m := Task t)) H"
    by (rule holds_move [OF K(1)]) (use m in \<open>simp add: known_simps\<close>)
  moreover have "msg_known (ms(m \<mapsto> M')) (p(t := Handling m)) r' = (msg_known ms p r)(Receiver := None, Task t := Some m)"
    using r' by (simp add: known_task known_recv [of _ _ r' r] msg_of_def e [symmetric] fun_upd_twist)
  ultimately show "holds (msg_known (ms(m \<mapsto> M')) (p(t := Handling m)) r') (own(m := Task t)) H" by simp
  show "holds (buf_known (ms(m \<mapsto> M')) (p(t := Handling m)) r') down' D'"
    using b same_task(2) [of "Handling m" p t] t by simp
  have "resp_of (ms(m \<mapsto> M')) = resp_of ms" by (rule same_msg(3) [where ms = ms and m = m, OF m(2) M'])
  then show "\<forall>n x. resp_of (ms(m \<mapsto> M')) n = Some x \<longrightarrow> resp_of (ms(m \<mapsto> M')) x = None" using K(3) by simp
qed

lemma conn_closed: "RPC_IS_CONNCLOSED (RPC_SET_CONNCLOSED M)"
proof -
  have "((x OR 2) AND 2 :: u16) = 2" for x by (rule bit_eqI) (auto simp: bit_simps)
  then show ?thesis by (simp add: RPC_IS_CONNCLOSED_def RPC_SET_CONNCLOSED_def)
qed

lemma conn_closed_kept: "resp (RPC_SET_CONNCLOSED M) = resp M" "payload (RPC_SET_CONNCLOSED M) = payload M"
  by (simp_all add: RPC_SET_CONNCLOSED_def)

lemma recv_error_inv:
  assumes inv: "inv_parts s bs xs H ds D own down" and m: "rmsg_of (rcv s) = Some m" and u: "idle_client s u"
    and b: "if b = NULL then rbuf_of (rcv s) = None else rbuf_of (rcv s) = Some b"
  shows "\<exists>s'. received s u (recv_error (chan s) m b) = Some s' \<and> rpc_inv s'"
proof -
  note I = partsD [OF inv] and O = ownD [OF partsD(4) [OF inv]]
  have un: "unhashed (chan s) (set (concat bs)) m (\<lambda>_. True)" using I(7) m by (cases "rcv s") (auto simp: unhashed_def)
  then obtain M where M: "msgs (chan s) m = Some M" "resp M = NULL" "m \<notin> set (concat bs)" by (auto simp: unhashed_def)
  have u': "client u" "ph s u = Idle" using u by (simp_all add: idle_client_def)
  obtain d es D' where d: "(if b \<noteq> NULL then do { (p, woken) \<leftarrow> bufpool_put (datapool (chan s)) b; Some ((chan s)\<lparr>datapool := p\<rparr>) } else Some (chan s))
      = Some ((chan s)\<lparr>datapool := d\<rparr>)" "mem_ok ((chan s)\<lparr>datapool := d\<rparr>) bs xs H es D'"
    and k: "holds (buf_known (msgs (chan s)) (ph s) RecvEnd) down D'"
  proof (cases "b = NULL")
    case True
    then have "buf_known (msgs (chan s)) (ph s) RecvEnd = buf_known (msgs (chan s)) (ph s) (rcv s)" using b by (simp add: buf_known_def)
    with True I(1) O(2) that [of "datapool (chan s)" ds D] show ?thesis by simp
  next
    case False
    then have bD: "b \<in> D" "rbuf_of (rcv s) = Some b" using b O(9) by auto
    have "holds ((buf_known (msgs (chan s)) (ph s) (rcv s))(Receiver := None)) down (D - {b})"
      by (rule holds_drop [OF O(2)]) (use bD in \<open>simp add: known_simps\<close>)
    moreover have "buf_known (msgs (chan s)) (ph s) RecvEnd = (buf_known (msgs (chan s)) (ph s) (rcv s))(Receiver := None)"
      by (simp add: known_recv [of _ _ RecvEnd "rcv s"])
    ultimately show ?thesis using False data_put_mem [OF I(1) bD(1)] that by fastforce
  qed
  let ?M = "RPC_SET_CONNCLOSED M"
  let ?c = "(chan s)\<lparr>datapool := d, msgs := (msgs (chan s))(m \<mapsto> ?M), chan_enabled := False\<rparr>"
  have c: "on_msg ((chan s)\<lparr>datapool := d\<rparr>) m RPC_SET_CONNCLOSED = Some ((chan s)\<lparr>datapool := d, msgs := (msgs (chan s))(m \<mapsto> ?M)\<rparr>)"
    "mem_ok ?c bs xs H es D'"
    using on_msg_mem [OF d(2), of m M RPC_SET_CONNCLOSED] M(1) by (simp_all add: mem_ok_def)
  have k': "holds (buf_known ((msgs (chan s))(m \<mapsto> ?M)) (ph s) RecvEnd) down D'"
    using k same_msg(2) [where ms = "msgs (chan s)" and m = m, OF M(1) conn_closed_kept(2)] by simp
  have call: "recv_error (chan s) m b = Some (?c, RecvEnd, Handler m)" using d(1) c(1) by (simp add: recv_error_def)
  have "inv_parts \<lparr>chan = ?c, ph = (ph s)(u := Handling m), rcv = RecvEnd\<rparr> bs xs H es D' (own(m := Task u)) down"
  proof (rule recv_step [OF inv m, of ?c ?M])
    show "own_ok (msgs ?c) ((ph s)(u := Handling m)) RecvEnd (own(m := Task u)) down H D'"
      using handler_own [OF I(4) m M(1) conn_closed_kept(1) u'(2) k'] by simp
    show "task_ok ?c (set (concat bs)) u (Handling m)" using M(2,3) by (simp add: unhashed_def conn_closed conn_closed_kept)
  qed (use c(2) u' in \<open>simp_all add: no_lock_def\<close>)
  from parts_inv [OF this] show ?thesis using call by (simp add: received_handler)
qed

text \<open>The channel is the same but for the receiver's message.\<close>

lemma recv_msg_step:
  assumes inv: "inv_parts s bs xs H ds D own down" and m: "rmsg_of (rcv s) = Some m" and M: "msgs (chan s) m = Some M" "resp M' = resp M"
    and r': "rmsg_of r' = Some m" "recv_ok ((chan s)\<lparr>msgs := (msgs (chan s))(m \<mapsto> M')\<rparr>) (set (concat bs)) r'"
    and b: "holds (buf_known ((msgs (chan s))(m \<mapsto> M')) (ph s) r') down' D"
  shows "inv_parts \<lparr>chan = (chan s)\<lparr>msgs := (msgs (chan s))(m \<mapsto> M')\<rparr>, ph = ph s, rcv = r'\<rparr> bs xs H ds D own down'"
proof -
  note I = partsD [OF inv]
  let ?c = "(chan s)\<lparr>msgs := (msgs (chan s))(m \<mapsto> M')\<rparr>"
  have idle: "(ph s)(recv_task := Idle) = ph s" using recv_idle [OF inv] by (simp add: fun_upd_idem)
  have "inv_parts \<lparr>chan = ?c, ph = (ph s)(recv_task := Idle), rcv = r'\<rparr> bs xs H ds D own down'"
  proof (rule recv_step [OF inv m, of ?c M'])
    show "mem_ok ?c bs xs H ds D" using on_msg_mem [OF I(1) M(1), of "\<lambda>_. M'"] by simp
    show "own_ok (msgs ?c) ((ph s)(recv_task := Idle)) r' own down' H D"
      unfolding idle using recv_own [OF I(4) m M r'(1) b] by simp
  qed (use r'(2) recv_idle [OF inv] in \<open>simp_all add: no_lock_def\<close>)
  then show ?thesis unfolding idle .
qed

text \<open>A buffer for the payload is taken.\<close>

lemma recv_buffer_inv:
  assumes inv: "inv_parts s bs xs H ds D own down" and m: "rcv s = RecvRest m \<or> rcv s = RecvBuffer m" and a: "new_data (chan s) a"
  shows "\<exists>s'. received s u (recv_buffer (chan s) res recv_task m a) = Some s' \<and> rpc_inv s'"
proof -
  note I = partsD [OF inv] and O = ownD [OF partsD(4) [OF inv]]
  have idle: "(ph s)(recv_task := Idle) = ph s" using recv_idle [OF inv] by (simp add: fun_upd_idem)
  have mr: "rmsg_of (rcv s) = Some m" using m by auto
  have un: "unhashed (chan s) (set (concat bs)) m whole_header" using I(7) m by auto
  then obtain M where M: "msgs (chan s) m = Some M" by (auto simp: unhashed_def)
  have step: "rpc_inv \<lparr>chan = (chan s)\<lparr>datapool := p\<rparr>, ph = ph s, rcv = r'\<rparr>"
    if mem: "mem_ok ((chan s)\<lparr>datapool := p\<rparr>) bs xs H es D'" and r': "rmsg_of r' = Some m"
      and k: "holds (buf_known (msgs (chan s)) (ph s) r') down' D'" and ok: "recv_ok ((chan s)\<lparr>datapool := p\<rparr>) (set (concat bs)) r'" for p es D' r' down'
  proof -
    let ?c = "(chan s)\<lparr>datapool := p\<rparr>"
    have same: "(msgs (chan s))(m \<mapsto> M) = msgs (chan s)" using M by (simp add: fun_upd_idem)
    have "inv_parts \<lparr>chan = ?c, ph = (ph s)(recv_task := Idle), rcv = r'\<rparr> bs xs H es D' own down'"
    proof (rule recv_step [OF inv mr, of ?c M])
      show "own_ok (msgs ?c) ((ph s)(recv_task := Idle)) r' own down' H D'"
        unfolding idle using recv_own [OF I(4) mr M, of M r' down' D'] r' k same by simp
    qed (use mem ok same recv_idle [OF inv] in \<open>simp_all add: no_lock_def\<close>)
    then show ?thesis unfolding idle by (rule parts_inv)
  qed
  from databuf_get_mem [OF I(1) a, of res recv_task] obtain p es r where g: "rpc_databuf_get (chan s) res recv_task a = Some ((chan s)\<lparr>datapool := p\<rparr>, r)"
    and r: "(\<exists>b. r = Got b \<and> b \<notin> D \<and> b \<noteq> NULL \<and> mem_ok ((chan s)\<lparr>datapool := p\<rparr>) bs xs H es (insert b D)) \<or>
      r = Slept \<and> mem_ok ((chan s)\<lparr>datapool := p\<rparr>) bs xs H es D" by blast
  from r show ?thesis
  proof (elim disjE exE conjE)
    fix b assume b: "r = Got b" "b \<notin> D" "b \<noteq> NULL" and mem: "mem_ok ((chan s)\<lparr>datapool := p\<rparr>) bs xs H es (insert b D)"
    have "holds (buf_known (msgs (chan s)) (ph s) (RecvPayload m b)) (down(b := Receiver)) (insert b D)"
      using holds_take [OF O(2) b(2), of Receiver] by (simp add: known_recv [of _ _ "RecvPayload m b" "rcv s"])
    with un b(3) have "rpc_inv \<lparr>chan = (chan s)\<lparr>datapool := p\<rparr>, ph = ph s, rcv = RecvPayload m b\<rparr>"
      by (intro step [OF mem]) (simp_all add: unhashed_def)
    then show ?thesis using g b(1) by (simp add: recv_buffer_def received_other)
  next
    assume s: "r = Slept" and mem: "mem_ok ((chan s)\<lparr>datapool := p\<rparr>) bs xs H es D"
    have "buf_known (msgs (chan s)) (ph s) (RecvBuffer m) = buf_known (msgs (chan s)) (ph s) (rcv s)" using m by (auto simp: buf_known_def)
    with un O(2) have "rpc_inv \<lparr>chan = (chan s)\<lparr>datapool := p\<rparr>, ph = ph s, rcv = RecvBuffer m\<rparr>"
      by (intro step [OF mem]) (simp_all add: unhashed_def)
    then show ?thesis using g s by (simp add: recv_buffer_def received_other)
  qed
qed

section \<open>Responses and new requests\<close>

lemma requests_have: "request_of p = Some m \<Longrightarrow> msg_of p = Some m"
  by (simp add: msg_of_def)

text \<open>A response finds its request: the task that sleeps is made ready.\<close>

lemma response_lookup:
  assumes inv: "inv_parts s bs xs H ds D own down" and n: "n \<in> set (concat bs)" "seqid_of (chan s) n = Some sid"
  shows "\<exists>us vs. let b = get_bucket (chan s) sid in
     0 \<le> b \<and> b < int (length bs) \<and> no_buckets (tab (hash (chan s))) = int (length bs) \<and> bs ! nat b = us @ n # vs \<and>
     hash_lookup (hash (chan s)) b (seqid_cmp (msgs (chan s)) sid) = Some (0, n)"
proof -
  note I = partsD [OF inv]
  let ?b = "get_bucket (chan s) sid"
  have nb: "no_buckets (tab (hash (chan s))) = int (length bs)" "bs \<noteq> []" using memD(1) [OF I(1)] by (simp_all add: hash_holds_def)
  then have b: "0 \<le> ?b" "?b < int (length bs)" by (simp_all add: get_bucket_def)
  have ent: "\<exists>M. msgs (chan s) e = Some M \<and> uint (seqid (hdr M)) mod int (length bs) = int i" if "i < length bs" "e \<in> set (bs ! i)" for i e
    using I(2) that unfolding pending_ok_def by blast
  from n(1) obtain l where "l \<in> set bs" "n \<in> set l" by auto
  then obtain i where i: "i < length bs" "n \<in> set (bs ! i)" by (metis in_set_conv_nth)
  then have ni: "nat ?b = i" using ent [of i n] n(2) nb(1) by (auto simp: seqid_of_def get_bucket_def)
  have cmp: "seqid_cmp (msgs (chan s)) sid e = 1 \<longleftrightarrow> e = n" if e: "e \<in> set (bs ! i)" for e
  proof
    obtain M where M: "msgs (chan s) e = Some M" using ent [OF i(1) e] by blast
    assume "seqid_cmp (msgs (chan s)) sid e = 1"
    then have "seqid_of (chan s) e = seqid_of (chan s) n" using M n(2) by (simp add: seqid_cmp_def seqid_of_def split: if_splits)
    moreover have "e \<in> set (concat bs)" using e i(1) by auto
    ultimately show "e = n" using I(5) n(1) unfolding seqids_ok_def by metis
  next
    assume "e = n"
    with n(2) show "seqid_cmp (msgs (chan s)) sid e = 1" by (auto simp: seqid_of_def seqid_cmp_def)
  qed
  have "filter (\<lambda>e. seqid_cmp (msgs (chan s)) sid e = 1) (bs ! i) = filter (\<lambda>e. e = n) (bs ! i)" using cmp by (intro filter_cong) auto
  moreover from i(2) obtain us vs where uv: "bs ! i = us @ n # vs" "n \<notin> set us" by (metis split_list_first)
  moreover have "filter (\<lambda>e. e = n) us = []" using uv(2) by (auto simp: filter_empty_conv)
  ultimately have "filter (\<lambda>e. seqid_cmp (msgs (chan s)) sid e = 1) (bs ! nat ?b) = n # filter (\<lambda>e. e = n) vs"
    by (simp add: ni)
  with hash_lookup_holds [OF memD(1) [OF I(1)] b, of "seqid_cmp (msgs (chan s)) sid"]
  have "hash_lookup (hash (chan s)) ?b (seqid_cmp (msgs (chan s)) sid) = Some (0, n)" by simp
  with b nb(1) uv(1) ni show ?thesis unfolding Let_def by blast
qed

lemma response_in_inv:
  assumes inv: "inv_parts s bs xs H ds D own down" and m: "rmsg_of (rcv s) = Some m" and M: "msgs (chan s) m = Some M" "resp M = NULL"
    and v: "ph s v = Asleep n" "n \<in> set (concat bs)" "seqid_of (chan s) n = Some (seqid (hdr M))" and rb: "rbuf_of (rcv s) = None"
  shows "\<exists>c. rpc_response_in (chan s) m = Some c \<and> rpc_inv \<lparr>chan = c, ph = ph s, rcv = RecvNext\<rparr>"
proof -
  note I = partsD [OF inv] and O = ownD [OF partsD(4) [OF inv]]
  let ?P = "set (concat bs)" and ?ms = "msgs (chan s)"
  have om: "m \<in> H" "own m = Receiver" using O(5) [OF m] by blast+
  have on: "n \<in> H" "own n = Task v" using O(4) [of v n] v(1) by (simp_all add: msg_of_def)
  have nm: "n \<noteq> m" using om on by auto
  have m0: "m \<noteq> NULL" using mem_nonnull [OF I(1)] om(1) by blast
  from v(2) have "n \<in> ?P" .
  with I(6) [of v] v(1) have "queued (chan s) ?P n [v]" by (auto simp: answered_def free_entry_def)
  from queuedD [OF this] obtain N where N: "?ms n = Some N" "rendez N = \<lparr>rlk = None, rz_waiting = [v]\<rparr>" by blast
  from response_lookup [OF inv v(2,3)] obtain us vs where b: "0 \<le> get_bucket (chan s) (seqid (hdr M))" "get_bucket (chan s) (seqid (hdr M)) < int (length bs)"
    "no_buckets (tab (hash (chan s))) = int (length bs)" "bs ! nat (get_bucket (chan s) (seqid (hdr M))) = us @ n # vs"
    "hash_lookup (hash (chan s)) (get_bucket (chan s) (seqid (hdr M))) (seqid_cmp ?ms (seqid (hdr M))) = Some (0, n)"
    unfolding Let_def by blast
  let ?i = "nat (get_bucket (chan s) (seqid (hdr M)))"
  have i: "?i < length bs" using b(1,2) by simp
  from hash_rem_mem [OF I(1) i b(4)] obtain h bs' where h: "hash_rem (hash (chan s)) n = Some h" "mem_ok ((chan s)\<lparr>hash := h\<rparr>) bs' xs H ds D"
    "bs' = bs[?i := us @ vs]" "set (concat bs') = ?P - {n}" "ring (hdlls h) n []" "\<forall>x \<in> H. x \<notin> ?P \<longrightarrow> hdlls h x = hdlls (hash (chan s)) x" by blast
  let ?N = "N\<lparr>resp := m, rendez := no_sleeper\<rparr>"
  let ?c = "(chan s)\<lparr>hash := h, msgs := ?ms(n \<mapsto> ?N)\<rparr>"
  have call: "rpc_response_in (chan s) m = Some ?c"
    using M b(1-3,5) mem_nonnull [OF I(1) on(1)] h(1) N
    by (simp add: rpc_response_in_def on_msg_def rendez_wakeup_def no_sleeper_eq taskwakeup_eq [unfolded taskwakeup_def])
  have sq: "seqid_of ?c k = seqid_of (chan s) k" for k using N(1) by (simp add: seqid_of_def)
  have mem: "mem_ok ?c bs' xs H ds D" using on_msg_mem [OF h(2), of n N "\<lambda>_. ?N"] N(1) by simp
  have pend: "pending_ok ?c bs'"
    unfolding pending_ok_def
  proof (intro allI impI ballI)
    fix j e assume j: "j < length bs'" "e \<in> set (bs' ! j)"
    then have "e \<in> set (concat bs')" by auto
    then have "e \<noteq> n" using h(4) by blast
    moreover have "e \<in> set (bs ! j)" using j h(3) b(4) by (cases "j = ?i") auto
    then have "\<exists>E. ?ms e = Some E \<and> uint (seqid (hdr E)) mod int (length bs) = int j \<and> resp E = NULL"
      using I(2) j(1) h(3) unfolding pending_ok_def by simp
    ultimately show "\<exists>E. msgs ?c e = Some E \<and> uint (seqid (hdr E)) mod int (length bs') = int j \<and> resp E = NULL" using h(3) by simp
  qed
  have rn: "resp_of ?ms m = None" using M by (simp add: resp_of_def)
  have own: "own_ok (msgs ?c) ((ph s)(v := Asleep n)) RecvNext (own(m := Message n)) down H D"
    unfolding own_ok_def
  proof (intro conjI)
    have same: "(ph s)(v := Asleep n) = ph s" using v(1) by (simp add: fun_upd_idem)
    have "holds ((msg_known ?ms (ph s) (rcv s))(Receiver := None, Message n := Some m)) (own(m := Message n)) H"
      by (rule holds_move [OF O(1)]) (use m in \<open>simp add: known_simps\<close>)
    then show "holds (msg_known (msgs ?c) ((ph s)(v := Asleep n)) RecvNext) (own(m := Message n)) H"
      unfolding same using m0 by (simp add: known_msg known_recv [of _ _ RecvNext "rcv s"] fun_upd_twist)
    have "buf_known (?ms(n \<mapsto> ?N)) (ph s) RecvNext = buf_known (?ms(n \<mapsto> ?N)) (ph s) (rcv s)" using rb by (simp add: buf_known_def)
    also have "\<dots> = buf_known ?ms (ph s) (rcv s)" by (rule same_msg(2) [where ms = ?ms and m = n, OF N(1)]) simp
    finally show "holds (buf_known (msgs ?c) ((ph s)(v := Asleep n)) RecvNext) down D" unfolding same using O(2) by simp
    show "\<forall>k x. resp_of (msgs ?c) k = Some x \<longrightarrow> resp_of (msgs ?c) x = None"
    proof (intro allI impI)
      fix k x assume k: "resp_of (msgs ?c) k = Some x"
      show "resp_of (msgs ?c) x = None"
      proof (cases "k = n")
        case True
        then have "x = m" using k m0 by (simp add: resp_of_def)
        then show ?thesis using rn nm by (simp add: resp_of_def)
      next
        case False
        then have kx: "resp_of ?ms k = Some x" using k by (simp add: resp_of_def)
        then have "x \<noteq> n" using O(6) [OF kx] on(2) by auto
        then show ?thesis using O(3) [OF kx] by (simp add: resp_of_def)
      qed
    qed
  qed
  have "inv_parts \<lparr>chan = ?c, ph = (ph s)(v := Asleep n), rcv = RecvNext\<rparr> bs' xs H ds D (own(m := Message n)) down"
  proof (rule inv_step [OF inv mem pend _ own])
    show "lock_ok (fdlock ?c) ((ph s)(v := Asleep n))" using I(3) v(1) by (simp add: fun_upd_idem)
    show "seqids_ok ?c (set (concat bs')) ((ph s)(v := Asleep n))"
      by (rule seqids_frame [OF I(5)]) (use h(4) sq v(1) in auto)
    show "task_ok ?c (set (concat bs')) v (Asleep n)"
      using h(4,5) m0 v(3) sq [of m] M(1) N(1) by (auto simp: answered_def free_entry_def seqid_of_def)
    fix k w assume k: "k \<in> H" "own k = Task w" "w \<noteq> v"
    then have "k \<noteq> n" using on(2) by auto
    then show "unseen (chan s) ?P ?c (set (concat bs')) k" using h(4,6) k(1) sq by (auto simp: unseen_def)
  qed (use I(8) [of v] v(1) in auto)
  then have "rpc_inv \<lparr>chan = ?c, ph = (ph s)(v := Asleep n), rcv = RecvNext\<rparr>" by (rule parts_inv)
  then show ?thesis using call v(1) by (simp add: fun_upd_idem)
qed


text \<open>The message is complete. A response is one that a task waits for.\<close>

definition expected :: "rpc_sys \<Rightarrow> addr set \<Rightarrow> rpc_msg \<Rightarrow> bool" where
  "expected s P M \<longleftrightarrow> RPC_IS_CONNCLOSED M \<or> RPC_ISREQ M \<or>
     (\<exists>v n. ph s v = Asleep n \<and> n \<in> P \<and> seqid_of (chan s) n = Some (seqid (hdr M)))"

lemma honest_expected:
  assumes inv: "inv_parts s bs xs H ds D own down" and h: "honest s M"
  shows "expected s (set (concat bs)) M"
proof -
  have "n \<in> set (concat bs)" if "sleeps_on s v n" for v n
    using partsD(6) [OF inv, of v] that by (auto simp: sleeps_on_def answered_def queued_def no_sleeper_def)
  with h show ?thesis unfolding honest_def expected_def sleeps_on_def by blast
qed

lemma expected_upd:
  assumes inv: "inv_parts s bs xs H ds D own down" and m: "rmsg_of (rcv s) = Some m" and e: "expected s P M"
    and s': "ph s' = ph s" "\<And>n. n \<noteq> m \<Longrightarrow> seqid_of (chan s') n = seqid_of (chan s) n" and M': "hdr M' = hdr M"
  shows "expected s' P M'"
proof -
  note O = ownD [OF partsD(4) [OF inv]]
  have "n \<noteq> m" if "ph s v = Asleep n" for v n using O(4) [of v n] O(5) [OF m] that by (auto simp: msg_of_def)
  with e s' M' show ?thesis unfolding expected_def RPC_IS_CONNCLOSED_def RPC_ISREQ_def by metis
qed

lemma recv_message_inv:
  assumes inv: "inv_parts s bs xs H ds D own down" and m: "rmsg_of (rcv s) = Some m" and u: "idle_client s u"
    and M: "msgs (chan s) m = Some M" "sendable M" and e: "expected s (set (concat bs)) M" and rb: "rbuf_of (rcv s) = None"
  shows "\<exists>s'. received s u (recv_message (chan s) m) = Some s' \<and> rpc_inv s'"
proof -
  note I = partsD [OF inv] and O = ownD [OF partsD(4) [OF inv]]
  have u': "client u" "ph s u = Idle" using u by (simp_all add: idle_client_def)
  have rM: "resp M = NULL" using M(2) by (simp add: sendable_def)
  have mP: "m \<notin> set (concat bs)" using pending_task [OF inv, of m] O(5) [OF m] by auto
  have same: "(msgs (chan s))(m \<mapsto> M) = msgs (chan s)" using M(1) by (simp add: fun_upd_idem)
  have handler: "rpc_inv \<lparr>chan = c', ph = (ph s)(u := Handling m), rcv = r'\<rparr>"
    if c: "c' = chan s \<and> \<not> RPC_IS_CONNCLOSED M \<or> c' = (chan s)\<lparr>chan_enabled := False\<rparr>" and r': "r' = RecvNext \<or> r' = RecvEnd" for c' r'
  proof (rule parts_inv)
    have k: "buf_known (msgs (chan s)) (ph s) r' = buf_known (msgs (chan s)) (ph s) (rcv s)" using rb r' by (auto simp: buf_known_def)
    have ms: "msgs c' = msgs (chan s)" using c by auto
    show "inv_parts \<lparr>chan = c', ph = (ph s)(u := Handling m), rcv = r'\<rparr> bs xs H ds D (own(m := Task u)) down"
    proof (rule recv_step [OF inv m, of c' M])
      show "mem_ok c' bs xs H ds D" using I(1) c by (auto simp: mem_fields)
      show "own_ok (msgs c') ((ph s)(u := Handling m)) r' (own(m := Task u)) down H D"
        using handler_own [OF I(4) m M(1), of M u r' down D] u'(2) k O(2) r' same by (auto simp: ms)
      show "task_ok c' (set (concat bs)) u (Handling m)" using c M rM mP by (auto simp: unhashed_def)
      show "recv_ok c' (set (concat bs)) r'" using r' by auto
    qed (use c u' same in \<open>auto simp: no_lock_def\<close>)
  qed
  consider (closed) "RPC_IS_CONNCLOSED M" | (req) "\<not> RPC_IS_CONNCLOSED M" "RPC_ISREQ M" | (resp) "\<not> RPC_IS_CONNCLOSED M" "\<not> RPC_ISREQ M" by blast
  then show ?thesis
  proof cases
    case closed
    then show ?thesis using handler M(1) by (simp add: recv_message_def received_handler)
  next
    case req
    then show ?thesis using handler [of "chan s" RecvNext] M(1) by (simp add: recv_message_def received_handler)
  next
    case resp
    with e obtain v n where v: "ph s v = Asleep n" "n \<in> set (concat bs)" "seqid_of (chan s) n = Some (seqid (hdr M))"
      unfolding expected_def by blast
    from response_in_inv [OF inv m M(1) rM v rb] resp M(1) show ?thesis
      by (auto simp: recv_message_def received_other)
  qed
qed

lemma recv_rest_inv:
  assumes inv: "inv_parts s bs xs H ds D own down" and m: "rcv s = RecvRest m" and u: "idle_client s u"
    and M: "msgs (chan s) m = Some M" and e: "res = 0 \<Longrightarrow> expected s (set (concat bs)) M" and a: "new_data (chan s) a"
  shows "\<exists>s'. received s u (recv_rest (chan s) recv_task m a res) = Some s' \<and> rpc_inv s'"
proof -
  have un: "whole_header M" "resp M = NULL" using partsD(7) [OF inv] m M by (auto simp: unhashed_def)
  have error: "\<exists>s'. received s u (recv_error (chan s) m NULL) = Some s' \<and> rpc_inv s'"
    by (rule recv_error_inv [OF inv _ u]) (simp_all add: m)
  have buffer: "\<exists>s'. received s u (recv_buffer (chan s) False recv_task m a) = Some s' \<and> rpc_inv s'"
    by (rule recv_buffer_inv [OF inv _ a]) (simp add: m)
  have message: "\<exists>s'. received s u (recv_message (chan s) m) = Some s' \<and> rpc_inv s'" if "res = 0" "payloadlen (hdr M) = 0"
  proof (rule recv_message_inv [OF inv _ u M])
    show "expected s (set (concat bs)) M" by (rule e [OF that(1)])
    show "sendable M" using that(2) un unfolding sendable_def whole_header_def by blast
  qed (simp_all add: m)
  consider (err) "res \<noteq> 0" | (long) "res = 0" "payloadlen (hdr M) > 0" "ucast (payloadlen (hdr M)) > bufsize (bp (datapool (chan s)))"
    | (data) "res = 0" "payloadlen (hdr M) > 0" "\<not> ucast (payloadlen (hdr M)) > bufsize (bp (datapool (chan s)))"
    | (none) "res = 0" "payloadlen (hdr M) = 0" by (metis word_gt_0)
  then show ?thesis
  proof cases
    case err
    then have "recv_rest (chan s) recv_task m a res = recv_error (chan s) m NULL" using M by (simp add: recv_rest_def)
    with error show ?thesis by simp
  next
    case long
    then have "recv_rest (chan s) recv_task m a res = recv_error (chan s) m NULL" using M by (simp add: recv_rest_def)
    with error show ?thesis by simp
  next
    case data
    then have "recv_rest (chan s) recv_task m a res = recv_buffer (chan s) False recv_task m a" using M by (simp add: recv_rest_def)
    with buffer show ?thesis by simp
  next
    case none
    then have "recv_rest (chan s) recv_task m a res = recv_message (chan s) m" using M by (simp add: recv_rest_def)
    with message [OF none] show ?thesis by simp
  qed
qed

lemma recv_payload_inv:
  assumes inv: "inv_parts s bs xs H ds D own down" and m: "rcv s = RecvPayload m b" and u: "idle_client s u"
    and M: "msgs (chan s) m = Some M" and e: "expected s (set (concat bs)) M"
  shows "\<exists>s'. received s u (recv_payload (chan s) m b res) = Some s' \<and> rpc_inv s'"
proof -
  note I = partsD [OF inv] and O = ownD [OF partsD(4) [OF inv]]
  have un: "whole_header M" "resp M = NULL" "m \<notin> set (concat bs)" "b \<noteq> NULL" using I(7) m M by (auto simp: unhashed_def)
  have mr: "rmsg_of (rcv s) = Some m" "rbuf_of (rcv s) = Some b" using m by simp_all
  have bD: "b \<in> D" "down b = Receiver" using O(9) [OF mr(2)] by blast+
  show ?thesis
  proof (cases "res = 0")
    case False
    then show ?thesis using recv_error_inv [OF inv mr(1) u, of b] mr(2) un(4) by (simp add: recv_payload_def)
  next
    case True
    let ?M = "M\<lparr>payload := b\<rparr>"
    let ?c = "(chan s)\<lparr>msgs := (msgs (chan s))(m \<mapsto> ?M)\<rparr>"
    let ?s = "\<lparr>chan = ?c, ph = ph s, rcv = RecvBuffer m\<rparr>"
    have "holds ((buf_known (msgs (chan s)) (ph s) (rcv s))(Receiver := None, Message m := Some b)) (down(b := Message m)) D"
      by (rule holds_move [OF O(2)]) (use mr in \<open>simp add: known_simps\<close>)
    then have k: "holds (buf_known ((msgs (chan s))(m \<mapsto> ?M)) (ph s) (RecvBuffer m)) (down(b := Message m)) D"
      using un(4) by (simp add: known_msg known_recv [of _ _ "RecvBuffer m" "rcv s"] fun_upd_twist)
    have inv': "inv_parts ?s bs xs H ds D own (down(b := Message m))"
      by (rule recv_msg_step [OF inv mr(1) M _ _ _ k]) (use un in \<open>auto simp: unhashed_def whole_header_def\<close>)
    have "expected ?s (set (concat bs)) ?M"
      by (rule expected_upd [OF inv mr(1) e]) (simp_all add: seqid_of_def)
    with recv_message_inv [OF inv', of m u ?M] u un show ?thesis
      using True M received_same [of ?s s u] by (simp add: recv_payload_def on_msg_def idle_client_def sendable_def whole_header_def)
  qed
qed

lemma unat_ucast_16: "unat (ucast (x :: u16) :: u64) = unat x" "unat (ucast (y :: u64) :: u32) = unat y mod 2 ^ 32"
  using unsigned_less [of x, where ?'a = nat] by (simp_all add: unsigned_ucast_eq take_bit_eq_mod)

lemma sint_small:
  assumes "unat (x :: u32) < 2 ^ 31"
  shows "0 \<le> sint x"
proof -
  have "nat (uint x) < 2 ^ 31" using assms by (simp only: unat_eq_nat_uint)
  then have "uint x < 2 ^ 31" using nat_less_iff [of "uint x" "2 ^ 31"] by simp
  then have "uint x div 2 ^ 31 = 0" by (intro div_pos_pos_trivial) simp_all
  then have "\<not> bit (uint x) 31" by (simp add: bit_iff_odd)
  then show ?thesis by (simp add: sint_uint)
qed

lemma recv_header_inv:
  assumes inv: "inv_parts s bs xs H ds D own down" and m: "rcv s = RecvHeader m" and u: "idle_client s u"
    and g: "res = 0 \<Longrightarrow> good_header (chan s) h \<and> honest s (zero_msg\<lparr>hdr := h\<rparr>)" and a: "new_data (chan s) a"
  shows "\<exists>s'. received s u (recv_header (chan s) recv_task m a res h) = Some s' \<and> rpc_inv s'"
proof -
  note I = partsD [OF inv] and O = ownD [OF partsD(4) [OF inv]]
  obtain M where M: "msgs (chan s) m = Some M" "resp M = NULL" "m \<notin> set (concat bs)" using I(7) m by (auto simp: unhashed_def)
  have mr: "rmsg_of (rcv s) = Some m" using m by simp
  let ?M = "M\<lparr>hdr := h\<rparr>"
  let ?c = "(chan s)\<lparr>msgs := (msgs (chan s))(m \<mapsto> ?M)\<rparr>"
  let ?s = "\<lambda>r. \<lparr>chan = ?c, ph = ph s, rcv = r\<rparr>"
  have k: "holds (buf_known ((msgs (chan s))(m \<mapsto> ?M)) (ph s) r) down D" if "rbuf_of r = None" for r
  proof -
    have "buf_known ((msgs (chan s))(m \<mapsto> ?M)) (ph s) r = buf_known ((msgs (chan s))(m \<mapsto> ?M)) (ph s) (rcv s)" using that m by (simp add: buf_known_def)
    also have "\<dots> = buf_known (msgs (chan s)) (ph s) (rcv s)" by (rule same_msg(2) [where ms = "msgs (chan s)" and m = m, OF M(1)]) simp
    finally show ?thesis using O(2) by simp
  qed
  have step: "inv_parts (?s r) bs xs H ds D own down" if "rmsg_of r = Some m" "recv_ok ?c (set (concat bs)) r" "rbuf_of r = None" for r
    by (rule recv_msg_step [OF inv mr M(1) _ that(1,2) k [OF that(3)]]) simp
  have inv1: "inv_parts (?s (RecvHeader m)) bs xs H ds D own down"
    by (rule step) (use M in \<open>simp_all add: unhashed_def\<close>)
  have u1: "idle_client (?s r) u" for r using u by (simp add: idle_client_def)
  have error: "\<exists>s'. received s u (recv_error ?c m NULL) = Some s' \<and> rpc_inv s'"
    using recv_error_inv [OF inv1 _ u1, of m NULL] received_same [of "?s (RecvHeader m)" s u] by simp
  have c: "on_msg (chan s) m (\<lambda>M. M\<lparr>hdr := h\<rparr>) = Some ?c" using M(1) by (simp add: on_msg_def)
  show ?thesis
  proof (cases "res = 0 \<and> \<not> ucast (msglen h) > bufsize (bp (msgpool (chan s)))")
    case False
    then show ?thesis using error c by (auto simp: recv_header_def)
  next
    case True
    with g have len: "sizeof_msghdr \<le> ucast (msglen h)" and fits: "msg_gap + ucast (msglen h) \<le> bufsize (bp (msgpool (chan s)))"
      and hon: "honest s (zero_msg\<lparr>hdr := h\<rparr>)" by (auto simp: good_header_def)
    have inv2: "inv_parts (?s (RecvRest m)) bs xs H ds D own down"
      by (rule step) (use M len in \<open>simp_all add: unhashed_def whole_header_def\<close>)
    let ?n = "(ucast (msglen h) :: u64) - sizeof_msghdr"
    have n: "unat ?n = unat (msglen h) - 12" using len by (simp add: unat_sub sizeof_msghdr_def unat_ucast_16)
    have "unat (msglen h) < 65536" using unsigned_less [of "msglen h", where ?'a = nat] by simp
    then have "unat (ucast ?n :: u32) < 2 ^ 31" using n by (simp add: unat_ucast_16)
    then have pos: "0 \<le> sint (ucast ?n :: u32)"
      by (rule sint_small)
    show ?thesis
    proof (cases "0 < sint (ucast ?n :: u32)")
      case True': True
      have "rpc_inv (?s (RecvRest m))" using inv2 by (rule parts_inv)
      then show ?thesis using True True' c pos fits by (simp add: recv_header_def received_other)
    next
      case False
      have "expected s (set (concat bs)) (zero_msg\<lparr>hdr := h\<rparr>)" by (rule honest_expected [OF inv hon])
      then have "expected (?s (RecvRest m)) (set (concat bs)) ?M"
        by (rule expected_upd [OF inv mr]) (simp_all add: seqid_of_def)
      from recv_rest_inv [OF inv2 _ u1, of m ?M 0 a] this a
      have "\<exists>s'. received (?s (RecvRest m)) u (recv_rest ?c recv_task m a 0) = Some s' \<and> rpc_inv s'" by (simp add: new_data_def)
      then show ?thesis using True False c pos received_same [of "?s (RecvRest m)" s u] by (simp add: recv_header_def)
    qed
  qed
qed

text \<open>A buffer for the next message.\<close>

lemma recv_next_inv:
  assumes inv: "inv_parts s bs xs H ds D own down" and r: "rcv s = RecvNext" and u: "idle_client s u" and a: "new_msg (chan s) a"
    and f: "map_option snd (get_buf False (msgpool (chan s)) recv_task True a) \<noteq> Some get_result.Failed"
  shows "\<exists>s'. received s u (recv_next (chan s) recv_task a) = Some s' \<and> rpc_inv s'"
proof -
  note I = partsD [OF inv] and O = ownD [OF partsD(4) [OF inv]]
  have idle: "(ph s)(recv_task := Idle) = ph s" using recv_idle [OF inv] by (simp add: fun_upd_idem)
  from msgbuf_get_mem [OF I(1) a, of False recv_task True] f obtain p m ys where
    g: "get_buf False (msgpool (chan s)) recv_task True a = Some (p, Got m)" and m: "m \<notin> H" and
    mem: "mem_ok (alloc_msg ((chan s)\<lparr>msgpool := p\<rparr>) m) bs ys (insert m H) ds D" by auto
  let ?c = "alloc_msg ((chan s)\<lparr>msgpool := p\<rparr>) m"
  have mP: "m \<notin> set (concat bs)" using memD(8) [OF I(1)] m by blast
  have ms: "msgs ?c = (msgs (chan s))(m \<mapsto> zero_msg)" by (simp add: alloc_msg_def)
  have nomsg: "msgs (chan s) m = None" using mem_in [OF I(1), of m] m by auto
  have z: "resp zero_msg = NULL" "payload zero_msg = NULL" by (simp_all add: zero_msg_def)
  have sq: "seqid_of ?c n = seqid_of (chan s) n" if "n \<in> H" for n using that m by (auto simp: seqid_of_def ms)
  have inv1: "inv_parts \<lparr>chan = ?c, ph = (ph s)(recv_task := Idle), rcv = RecvHeader m\<rparr> bs ys (insert m H) ds D (own(m := Receiver)) down"
  proof (rule inv_step [OF inv mem])
    show "pending_ok ?c bs" by (rule pending_frame [OF I(2)]) (use mP ms in auto)
    show "lock_ok (fdlock ?c) ((ph s)(recv_task := Idle))" unfolding idle using I(3) by (simp add: alloc_msg_def)
    show "own_ok (msgs ?c) ((ph s)(recv_task := Idle)) (RecvHeader m) (own(m := Receiver)) down (insert m H) D"
      unfolding own_ok_def idle ms
    proof (intro conjI)
      have "holds ((msg_known (msgs (chan s)) (ph s) (rcv s))(Message m := None, Receiver := Some m)) (own(m := Receiver)) (insert m H)"
        by (rule holds_take [OF holds_less [OF O(1)] m])
      then show "holds (msg_known ((msgs (chan s))(m \<mapsto> zero_msg)) (ph s) (RecvHeader m)) (own(m := Receiver)) (insert m H)"
        by (simp add: known_msg z known_recv [of _ _ "RecvHeader m" "rcv s"] fun_upd_twist)
      have "buf_known (msgs (chan s)) (ph s) (RecvHeader m) = buf_known (msgs (chan s)) (ph s) (rcv s)" using r by (simp add: buf_known_def)
      with holds_less [OF O(2), of "Message m"] show "holds (buf_known ((msgs (chan s))(m \<mapsto> zero_msg)) (ph s) (RecvHeader m)) down D"
        by (simp add: known_msg z)
      show "\<forall>n x. resp_of ((msgs (chan s))(m \<mapsto> zero_msg)) n = Some x \<longrightarrow> resp_of ((msgs (chan s))(m \<mapsto> zero_msg)) x = None"
        by (rule resp_depth [OF _ z(1)]) (use O(3) in blast)
    qed
    show "seqids_ok ?c (set (concat bs)) ((ph s)(recv_task := Idle))"
    proof (rule seqids_frame [OF I(5)])
      fix v n assume "request_of (ph s v) = Some n"
      then have "n \<in> H" using O(4) [of v n] by (simp add: msg_of_def)
      then show "seqid_of ?c n = seqid_of (chan s) n" by (rule sq)
    qed (use recv_idle [OF inv] in simp_all)
    fix n v assume n: "n \<in> H"
    then have nm: "n \<noteq> m" using m by auto
    have "seqid_of ?c (resp N) = seqid_of (chan s) (resp N)" if "msgs (chan s) n = Some N" "resp N \<noteq> NULL" for N
      by (rule sq) (use O(6) [of n "resp N"] that in \<open>simp add: resp_of_def\<close>)
    then show "unseen (chan s) (set (concat bs)) ?c (set (concat bs)) n" using nm by (simp add: unseen_def ms) (simp add: alloc_msg_def)
  next
    show "recv_ok ?c (set (concat bs)) (RecvHeader m)" using mP z by (simp add: unhashed_def ms)
  qed (simp_all add: alloc_msg_def)
  have inv2: "inv_parts \<lparr>chan = ?c, ph = ph s, rcv = RecvHeader m\<rparr> bs ys (insert m H) ds D (own(m := Receiver)) down"
    using inv1 unfolding idle .
  show ?thesis
  proof (cases "chan_enabled (chan s)")
    case True
    then show ?thesis using parts_inv [OF inv2] g by (simp add: recv_next_def received_other)
  next
    case False
    have "\<exists>s'. received \<lparr>chan = ?c, ph = ph s, rcv = RecvHeader m\<rparr> u (recv_error ?c m NULL) = Some s' \<and> rpc_inv s'"
      using recv_error_inv [OF inv2, of m u NULL] u by (simp add: idle_client_def)
    then show ?thesis using False g received_same [of "\<lparr>chan = ?c, ph = ph s, rcv = RecvHeader m\<rparr>" s u] by (simp add: recv_next_def)
  qed
qed

section \<open>Every event\<close>

lemma expected_msg:
  assumes inv: "inv_parts s bs xs H ds D own down" and h: "honest_msg s m" and M: "msgs (chan s) m = Some M"
  shows "expected s (set (concat bs)) M"
  by (rule honest_expected [OF inv]) (use h M in \<open>simp add: honest_msg_def\<close>)

lemma receiver_inv:
  assumes inv: "inv_parts s bs xs H ds D own down" and e: "enabled_event e s"
    and r: "(\<exists>u a. e = RecvMsg u a) \<or> (\<exists>u res h a. e = RecvHdr u res h a) \<or> (\<exists>u res a. e = RecvTail u res a) \<or>
      (\<exists>u a. e = RecvBufAgain u a) \<or> (\<exists>u res. e = RecvData u res)"
  shows "\<exists>s'. rpc_step e s = Some s' \<and> rpc_inv s'"
  using r
proof (elim disjE exE)
  fix u a assume "e = RecvMsg u a"
  with e recv_next_inv [OF inv, of u a] show ?thesis by simp
next
  fix u res h a assume "e = RecvHdr u res h a"
  with e recv_header_inv [OF inv, of _ u res h a] show ?thesis by auto
next
  fix u res a assume ev: "e = RecvTail u res a"
  with e obtain m where m: "rcv s = RecvRest m" "honest_msg s m" "idle_client s u" "new_data (chan s) a" by auto
  obtain M where M: "msgs (chan s) m = Some M" using partsD(7) [OF inv] m(1) by (auto simp: unhashed_def)
  from recv_rest_inv [OF inv m(1,3) M _ m(4), of res] expected_msg [OF inv m(2) M] ev m(1) show ?thesis by simp
next
  fix u a assume ev: "e = RecvBufAgain u a"
  with e obtain m where "rcv s = RecvBuffer m" "new_data (chan s) a" by auto
  with recv_buffer_inv [OF inv, of m a u True] ev show ?thesis by simp
next
  fix u res assume ev: "e = RecvData u res"
  with e obtain m b where m: "rcv s = RecvPayload m b" "honest_msg s m" "idle_client s u" by auto
  obtain M where M: "msgs (chan s) m = Some M" using partsD(7) [OF inv] m(1) by (auto simp: unhashed_def)
  from recv_payload_inv [OF inv m(1,3) M expected_msg [OF inv m(2) M], of res] ev m(1) show ?thesis by simp
qed

lemma put_msg_inv:
  assumes inv: "inv_parts s bs xs H ds D own down" and p: "ph s t = Owns m \<or> ph s t = Done m"
  shows "\<exists>s'. rpc_step (PutMsg t) s = Some s' \<and> rpc_inv s'"
proof -
  note I = partsD [OF inv]
  have mP: "m \<notin> set (concat bs)" using I(6) [of t] p by (auto simp: free_entry_def answered_def)
  have mo: "msg_of (ph s t) = Some m" using p by (auto simp: msg_of_def)
  have "lock_ok (fdlock (chan s)) ((ph s)(t := Idle))" by (rule lock_outside [OF I(3)]) (use p in \<open>auto simp: no_lock_def\<close>)
  with put_inv [OF inv mo mP I(1)] obtain c where "rpc_msg_put (chan s) m = Some c" "rpc_inv (set_phase s c t Idle)" by blast
  with p show ?thesis by auto
qed

lemma task_inv:
  assumes inv: "inv_parts s bs xs H ds D own down" and e: "enabled_event e s"
    and r: "(\<exists>t a. e = GetData t a) \<or> (\<exists>t a. e = GetDataAgain t a) \<or> (\<exists>t. e = PutData t) \<or> (\<exists>t ty ml pl a. e = GetMsg t ty ml pl a) \<or>
      (\<exists>t a. e = GetMsgAgain t a) \<or> (\<exists>t. e = PutMsg t) \<or> (\<exists>t. e = Request t) \<or> (\<exists>t. e = Respond t)"
  shows "\<exists>s'. rpc_step e s = Some s' \<and> rpc_inv s'"
  using r
proof (elim disjE exE)
  fix t a assume "e = GetData t a"
  with e got_data_inv [OF inv, of t a False] show ?thesis by (simp add: idle_client_def)
next
  fix t a assume "e = GetDataAgain t a"
  with e got_data_inv [OF inv, of t a True] partsD(8) [OF inv, of t] show ?thesis by simp
next
  fix t assume "e = PutData t"
  with e put_data_inv [OF inv, of t] show ?thesis by auto
next
  fix t ty ml pl a assume ev: "e = GetMsg t ty ml pl a"
  with e have g: "client t" "sizeof_msghdr \<le> ml" "ml \<le> 65535" "new_msg (chan s) a" "new_seqid s"
    and p: "ph s t = Idle \<and> pl = 0 \<or> (\<exists>b. ph s t = HasBuf b)" by auto
  from p show ?thesis
  proof
    assume "ph s t = Idle \<and> pl = 0"
    with got_msg_inv [OF inv g(1) _ g(2-5), of NULL pl ty False] ev show ?thesis by simp
  next
    assume "\<exists>b. ph s t = HasBuf b"
    then obtain b where "ph s t = HasBuf b" by blast
    with got_msg_inv [OF inv g(1) _ g(2-5), of b pl ty False] ev show ?thesis by simp
  qed
next
  fix t a assume ev: "e = GetMsgAgain t a"
  with e obtain ty ml pl b where p: "ph s t = MsgWait ty ml pl b" and g: "new_msg (chan s) a" "new_seqid s" by auto
  have cl: "client t" using partsD(8) [OF inv, of t] p by simp
  have len: "sizeof_msghdr \<le> ml" "ml \<le> 65535" using partsD(6) [OF inv, of t] p by simp_all
  from got_msg_inv [OF inv cl _ len g, of b pl ty True] p ev show ?thesis by simp
next
  fix t assume "e = PutMsg t"
  with e put_msg_inv [OF inv, of t] show ?thesis by auto
next
  fix t assume "e = Request t"
  with e request_start_inv [OF inv, of t] show ?thesis by auto
next
  fix t assume "e = Respond t"
  with e response_start_inv [OF inv, of t] show ?thesis by auto
qed

lemma rpc_event_inv:
  assumes "rpc_inv s" and e: "enabled_event e s"
  shows "\<exists>s'. rpc_step e s = Some s' \<and> rpc_inv s'"
proof -
  from assms(1) obtain bs xs H ds D own down where inv: "inv_parts s bs xs H ds D own down" unfolding rpc_inv_def by blast
  note R = receiver_inv [OF inv e] and T = task_inv [OF inv e]
  show ?thesis
  proof (cases e)
    case (LockGot t)
    with lock_got_inv [OF inv, of t] e show ?thesis by blast
  next
    case (HeaderWritten t res)
    with written_inv [OF inv, of t res] e show ?thesis by blast
  next
    case (PayloadWritten t res)
    with payload_written_inv [OF inv, of t res] e show ?thesis by blast
  next
    case (ChanClosed t)
    with closed_inv [OF inv, of t] e show ?thesis by blast
  next
    case (Wake t)
    with rpc_wake_inv [OF inv, of t] e show ?thesis by blast
  next
    case (DefaultHandler t)
    with default_handler_inv [OF inv, of t] e show ?thesis by blast
  next
    case RecvMsg
    then show ?thesis by (intro R) simp
  next
    case RecvHdr
    then show ?thesis by (intro R) simp
  next
    case RecvTail
    then show ?thesis by (intro R) simp
  next
    case RecvBufAgain
    then show ?thesis by (intro R) simp
  next
    case RecvData
    then show ?thesis by (intro R) simp
  next
    case GetData
    then show ?thesis by (intro T) simp
  next
    case GetDataAgain
    then show ?thesis by (intro T) simp
  next
    case PutData
    then show ?thesis by (intro T) simp
  next
    case GetMsg
    then show ?thesis by (intro T) simp
  next
    case GetMsgAgain
    then show ?thesis by (intro T) simp
  next
    case PutMsg
    then show ?thesis by (intro T) simp
  next
    case Request
    then show ?thesis by (intro T) simp
  next
    case Respond
    then show ?thesis by (intro T) simp
  qed
qed

end
