(* ===== verification/Rpc_Props.thy ===== *)
theory Rpc_Props
  imports Rpc_Recv
begin

text \<open>
  The properties of the remote procedure calls: no event fails, responses find their requests, no task
  sleeps on with a response, nobody writes into another one's message. The last sections show where the
  code relies on its environment.
\<close>

section \<open>The start\<close>

lemma init_none: "\<And>c. Option.bind (rpc_chan_deinit c t) (\<lambda>(c, _). Some (c, RPC_ENOMEM)) \<noteq> Some (c', 0)"
  by (auto simp: RPC_ENOMEM_def bind_eq_Some_conv)

lemma hash_init_res: "hash_init m n base = Some (h, r) \<Longrightarrow> \<not> r < 0 \<Longrightarrow> r = 0"
  by (auto simp: hash_init_def bind_eq_Some_conv Let_def split: if_splits)

lemma rpc_initial_inv:
  assumes "rpc_initial s"
  shows "rpc_inv s"
proof -
  from assms obtain c t ma da base infd outfd nway msgsz datasz hashsz where ph: "ph s = (\<lambda>_. Idle)" "rcv s = RecvNext"
    and call: "rpc_chan_init c t ma da base infd outfd nway msgsz datasz hashsz = Some (chan s, 0)"
    and c: "msgs c = Map.empty" "hdlls (hash c) = Map.empty" "bucket (hash c) = Map.empty"
    and m: "dlls (qm (msgpool c)) (freelist (bp (msgpool c))) \<noteq> None" "q_len (qm (msgpool c)) (freelist (bp (msgpool c))) \<noteq> None"
    and d: "dlls (qm (datapool c)) (freelist (bp (datapool c))) \<noteq> None" "q_len (qm (datapool c)) (freelist (bp (datapool c))) \<noteq> None"
    and al: "good_alloc (msgpool c) ma (unat (nway + 1))" "good_alloc (datapool c) da (unat (2 * nway + 2))"
    and n: "nway < 2 ^ 29" and nn: "freelist (bp (msgpool c)) \<noteq> NULL" "freelist (bp (datapool c)) \<noteq> NULL"
    and dis: "\<forall>i < unat (nway + 1). \<not> (base \<le> ma i \<and> ma i < base + nat hashsz)"
    unfolding rpc_initial_def by blast
  have un: "unat nway < 2 ^ 29" using n by (simp add: word_less_nat_alt)
  have u1: "unat (nway + 1) = unat nway + 1" "unat ((nway + 1) * 3) = (unat nway + 1) * 3"
    "unat (2 * nway + 2) = 2 * unat nway + 2" "unat ((2 * nway + 2) * 3) = (2 * unat nway + 2) * 3"
    using un by (simp_all add: unat_word_ariths)
  then have pos: "0 < nway + 1" "nway + 1 \<le> (nway + 1) * 3" "0 < 2 * nway + 2" "2 * nway + 2 \<le> (2 * nway + 2) * 3"
    by (simp_all add: word_less_nat_alt word_le_nat_alt)
  from bufpool_init_ok [OF pos(1,2) m nn(1) al(1), of "msgsz + msg_gap"] obtain p xs where p:
    "bufpool_init ma (msgpool c) (msgsz + msg_gap) (nway + 1) ((nway + 1) * 3) = Some (p, of_nat (length xs))" "pool_ok p xs {}"
    "xs = takeWhile (\<lambda>a. a \<noteq> NULL) (map ma [0..<unat (nway + 1)])" "state (bp p) = INITIALIZED" by blast
  from bufpool_init_ok [OF pos(3,4) d nn(2) al(2), of datasz] obtain q ys where q:
    "bufpool_init da (datapool c) datasz (2 * nway + 2) ((2 * nway + 2) * 3) = Some (q, of_nat (length ys))" "pool_ok q ys {}"
    "state (bp q) = INITIALIZED" by blast
  let ?c = "c\<lparr>infd := 0, outfd := 0, chan_enabled := False, next_seqid := 0, fdlock := \<lparr>owner = 0, qwaiting = []\<rparr>, msgpool := p, datapool := q,
    infd := infd, outfd := outfd, chan_enabled := True, next_seqid := 1\<rparr>"
  have "\<And>X. Option.bind (c_assert (sizeof_msghdr \<le> msgsz \<and> msgsz \<le> 65535)) X = Some (chan s, 0) \<Longrightarrow> sizeof_msghdr \<le> msgsz \<and> msgsz \<le> 65535"
    by (simp only: bind_eq_Some_conv c_assert_eq_Some) blast
  then have sz: "sizeof_msghdr \<le> msgsz \<and> msgsz \<le> 65535" using call unfolding rpc_chan_init_def by blast
  have c1: "rpc_chan_init c t ma da base infd outfd nway msgsz datasz hashsz =
       (if scast (of_nat (length xs) :: u32) \<noteq> nway + 1 then do { (c, _) \<leftarrow> rpc_chan_deinit (c\<lparr>infd := 0, outfd := 0, chan_enabled := False, next_seqid := 0, fdlock := \<lparr>owner = 0, qwaiting = []\<rparr>, msgpool := p\<rparr>) t; Some (c, RPC_ENOMEM) }
        else if scast (of_nat (length ys) :: u32) \<noteq> 2 * nway + 2 then do { (c, _) \<leftarrow> rpc_chan_deinit (c\<lparr>infd := 0, outfd := 0, chan_enabled := False, next_seqid := 0, fdlock := \<lparr>owner = 0, qwaiting = []\<rparr>, msgpool := p, datapool := q\<rparr>) t; Some (c, RPC_ENOMEM) }
        else do {
          (h, res) \<leftarrow> hash_init (hash c) hashsz base;
          if res < 0 then do { (c, _) \<leftarrow> rpc_chan_deinit (?c\<lparr>hash := h\<rparr>) t; Some (c, res) } else Some (?c\<lparr>hash := h\<rparr>, 0)
        })"
    unfolding rpc_chan_init_def Let_def using p(1) q(1) sz by simp
  have "\<exists>h. hash_init (hash c) hashsz base = Some (h, 0) \<and> chan s = ?c\<lparr>hash := h\<rparr>"
    using call unfolding c1 using init_none hash_init_res by (auto split: if_splits simp: bind_eq_Some_conv)
  then obtain h where h: "hash_init (hash c) hashsz base = Some (h, 0)" and cs: "chan s = ?c\<lparr>hash := h\<rparr>" by blast
  have pos': "0 < hashsz" "base \<noteq> NULL" using h by (auto simp: hash_init_def bind_eq_Some_conv Let_def split: if_splits)
  from hash_init_holds [OF pos', of "hash c"] h have hh: "hash_holds h (replicate (nat hashsz) [])"
    "bucket h = bucket (hash c)" "tab h = \<lparr>buckets = base, count = 0, no_buckets = hashsz\<rparr>"
    "\<forall>a. a < base \<or> base + nat hashsz \<le> a \<longrightarrow> hdlls h a = hdlls (hash c) a" by auto
  have head: "is_head h a \<longleftrightarrow> base \<le> a \<and> a < base + nat hashsz" for a using hh(3) by (simp add: is_head_def)
  have hd: "hdlls h a \<noteq> None \<longleftrightarrow> is_head h a" for a
  proof
    assume "is_head h a"
    then have "base \<le> a" "a < base + nat hashsz" unfolding head by blast+
    then have a: "a - base < length (replicate (nat hashsz) [])" "base + (a - base) = a" by simp_all
    have "ring (hdlls h) a ((replicate (nat hashsz) []) ! (a - base))" using hash_holdsD(1) [OF hh(1) a(1)] a(2) by (simp add: hh(3))
    from ring_mem [OF this, of a] show "hdlls h a \<noteq> None" by auto
  next
    assume "hdlls h a \<noteq> None"
    then show "is_head h a" using hh(4) c(2) head by force
  qed
  have xs: "\<not> is_head h a" if "a \<in> set xs" for a
  proof -
    from that have "a \<in> set (map ma [0..<unat (nway + 1)])" unfolding p(3) by (rule set_takeWhileD [THEN conjunct1])
    then obtain i where "i < unat (nway + 1)" "a = ma i" by auto
    with dis show ?thesis unfolding head by blast
  qed
  have "inv_parts s (replicate (nat hashsz) []) xs {} ys {} (\<lambda>_. Receiver) (\<lambda>_. Receiver)"
    unfolding inv_parts_def
  proof (intro conjI allI)
    show "mem_ok (chan s) (replicate (nat hashsz) []) xs {} ys {}"
      using p q hh(1,2) c hd xs by (simp add: mem_ok_def cs)
    show "pending_ok (chan s) (replicate (nat hashsz) [])" by (simp add: pending_ok_def)
    show "lock_ok (fdlock (chan s)) (ph s)" by (simp add: lock_ok_def lock_sets_def ph cs)
    have "msg_known (msgs (chan s)) (ph s) (rcv s) h = None \<and> buf_known (msgs (chan s)) (ph s) (rcv s) h = None" for h
      by (cases h) (simp_all add: known_simps ph cs c resp_of_def payload_of_def msg_of_def)
    then show "own_ok (msgs (chan s)) (ph s) (rcv s) (\<lambda>_. Receiver) (\<lambda>_. Receiver) {} {}"
      by (simp add: own_ok_def holds_def resp_of_def cs c)
    show "seqids_ok (chan s) (set (concat (replicate (nat hashsz) []))) (ph s)" by (simp add: seqids_ok_def ph)
  qed (simp_all add: ph)
  then show ?thesis by (rule parts_inv)
qed

lemma rpc_reach_inv: "rpc_reach s \<Longrightarrow> rpc_inv s"
proof (induction rule: rpc_reach.induct)
  case (start s)
  then show ?case by (rule rpc_initial_inv)
next
  case (event s e s')
  then show ?case using rpc_event_inv [of s e] by auto
qed


section \<open>A channel with one request\<close>

definition demo_pool :: "addr \<Rightarrow> pool_st" where
  "demo_pool f = \<lparr>qm = \<lparr>dlls = [f \<mapsto> \<lparr>dll_next = 0, dll_prev = 0\<rparr>], q_len = [f \<mapsto> 0]\<rparr>,
     bp = \<lparr>freelist = f, issued = 0, owned = 0, bufsize = 0, nbufs = 0, nmax = 0,
       waiters = [], deinit = [], state = UNINITIALIZED, nmallocs = 0, nfrees = 0\<rparr>\<rparr>"

definition demo_chan :: rpc_chan where
  "demo_chan = \<lparr>infd = 0, outfd = 0, chan_enabled = False, next_seqid = 0,
     hash = \<lparr>hdlls = Map.empty, bucket = Map.empty, tab = \<lparr>buckets = 0, count = 0, no_buckets = 0\<rparr>\<rparr>,
     msgpool = demo_pool 100, datapool = demo_pool 101, fdlock = \<lparr>owner = 0, qwaiting = []\<rparr>, msgs = Map.empty\<rparr>"

definition demo_start :: rpc_sys where
  "demo_start = \<lparr>chan = fst (the (rpc_chan_init demo_chan 9 (\<lambda>i. 200 + i) (\<lambda>i. 300 + i) 50 3 4 1 100 16 4)), ph = (\<lambda>_. Idle), rcv = RecvNext\<rparr>"

text \<open>Task 2 sends a request of type 5 with a header of 20 bytes; the response has no payload.\<close>

definition demo_events :: "rpc_event list" where
  "demo_events = [GetMsg 2 5 20 0 0, Request 2, HeaderWritten 2 0, RecvMsg 3 0,
     RecvHdr 3 0 \<lparr>seqid = 1, msgtype = 0, msglen = 12, payloadlen = 0, status = 0\<rparr> 0, Wake 2]"

primrec rpc_run :: "rpc_event list \<Rightarrow> rpc_sys \<Rightarrow> rpc_sys option" where
  "rpc_run [] s = Some s"
| "rpc_run (e # es) s = do { s \<leftarrow> rpc_step e s; rpc_run es s }"

definition demo :: "nat \<Rightarrow> rpc_sys" where
  "demo n = the (rpc_run (take n demo_events) demo_start)"

lemma demo_init: "rpc_chan_init demo_chan 9 (\<lambda>i. 200 + i) (\<lambda>i. 300 + i) 50 3 4 1 100 16 4 = Some (chan demo_start, 0)"
proof -
  have "map_option snd (rpc_chan_init demo_chan 9 (\<lambda>i. 200 + i) (\<lambda>i. 300 + i) 50 3 4 1 100 16 4) = Some 0" by code_simp
  from run_eq [OF this] show ?thesis by (simp add: demo_start_def)
qed

lemma demo_initial: "rpc_initial demo_start"
  unfolding rpc_initial_def
proof (intro conjI exI)
  show "rpc_chan_init demo_chan 9 (\<lambda>i. 200 + i) (\<lambda>i. 300 + i) 50 3 4 1 100 16 4 = Some (chan demo_start, 0)" by (rule demo_init)
qed (auto simp: demo_start_def demo_chan_def demo_pool_def good_alloc_def)

lemma demo_phases:
  "ph (demo 0) 2 = Idle" "ph (demo 1) 2 = Owns 200" "ph (demo 2) 2 = Sending 200" "ph (demo 3) 2 = Asleep 200"
  "ph (demo 4) 2 = Asleep 200" "ph (demo 5) 2 = Asleep 200" "ph (demo 6) 2 = Done 200"
  by code_simp+

lemma demo_receiver: "rcv (demo 3) = RecvNext" "rcv (demo 4) = RecvHeader 201" "ph (demo 3) 3 = Idle" "ph (demo 4) 3 = Idle"
  by code_simp+

lemma demo_sleep:
  "map_option (\<lambda>M. rz_waiting (rendez M)) (msgs (chan (demo 3)) 200) = Some [2]"
  "map_option (\<lambda>M. rz_waiting (rendez M)) (msgs (chan (demo 4)) 200) = Some [2]"
  "map_option (\<lambda>M. rz_waiting (rendez M)) (msgs (chan (demo 5)) 200) = Some []"
  "seqid_of (chan (demo 4)) 200 = Some 1"
  "map_option snd (get_buf False (msgpool (chan (demo 3))) recv_task True 0) = Some (Got 201)"
  "bufsize (bp (msgpool (chan (demo 4)))) = 172"
  by code_simp+

section \<open>Requests and responses\<close>

lemma reach_parts:
  assumes "rpc_reach s"
  obtains bs xs H ds D own down where "inv_parts s bs xs H ds D own down"
  using rpc_reach_inv [OF assms] unfolding rpc_inv_def by blast




text \<open>
  One task at a time writes to the descriptor of the channel, the owner of the lock:
  no two messages are mixed on the wire.
\<close>

theorem rpc_lock_exclusive:
  assumes "rpc_reach s" and "holds_lock (ph s t)"
  shows "owner (fdlock (chan s)) = t \<and> (\<forall>u. holds_lock (ph s u) \<longrightarrow> u = t) \<and> \<not> wants_lock (ph s t)"
proof -
  from reach_parts [OF assms(1)] obtain bs xs H ds D own down where inv: "inv_parts s bs xs H ds D own down" .
  from partsD(3) [OF inv] assms(2) not_both [OF assms(2)] show ?thesis unfolding lock_ok_def lock_sets_def by blast
qed

text \<open>
  C17 (rpc_messages_exclusive) The message that a task works on is not in the pool, and neither another task nor
  the receiver nor another message, as its response, has it.
\<close>

theorem rpc_messages_exclusive:
  assumes "rpc_reach s" and "msg_of (ph s t) = Some m"
  shows "(\<forall>u. msg_of (ph s u) = Some m \<longrightarrow> u = t) \<and> rmsg_of (rcv s) \<noteq> Some m \<and> (\<forall>n. resp_of (msgs (chan s)) n \<noteq> Some m) \<and>
     (\<exists>xs H. pool_ok (msgpool (chan s)) xs H \<and> m \<in> H \<and> m \<notin> set xs)"
proof -
  from reach_parts [OF assms(1)] obtain bs xs H ds D own down where inv: "inv_parts s bs xs H ds D own down" .
  note I = partsD [OF inv] and O = ownD [OF partsD(4) [OF inv]]
  have m: "m \<in> H" "own m = Task t" using O(4) [OF assms(2)] by blast+
  have p: "pool_ok (msgpool (chan s)) xs H" by (rule memD(2) [OF I(1)])
  then have "m \<notin> set xs" using m(1) unfolding pool_ok_def by blast
  moreover have "\<forall>u. msg_of (ph s u) = Some m \<longrightarrow> u = t" using O(4) m(2) by force
  moreover have "rmsg_of (rcv s) \<noteq> Some m" "\<forall>n. resp_of (msgs (chan s)) n \<noteq> Some m" using O(5,6) m(2) by force+
  ultimately show ?thesis using p m(1) by blast
qed

section \<open>The run of the example\<close>

lemma run_snoc: "rpc_run (es @ [e]) s = do { s \<leftarrow> rpc_run es s; rpc_step e s }"
  by (induction es arbitrary: s) (auto split: Option.bind_split)

lemma demo_step:
  assumes "rpc_run (take n demo_events) demo_start = Some (demo n) \<and> rpc_reach (demo n)" and n: "n < length demo_events"
    and e: "enabled_event (demo_events ! n) (demo n)"
  shows "rpc_run (take (Suc n) demo_events) demo_start = Some (demo (Suc n)) \<and> rpc_reach (demo (Suc n))"
proof -
  from assms(1) have r: "rpc_reach (demo n)" by blast
  from rpc_event_inv [OF rpc_reach_inv [OF r] e] obtain s' where s': "rpc_step (demo_events ! n) (demo n) = Some s'" by blast
  then have "rpc_run (take (Suc n) demo_events) demo_start = Some s'" using assms(1) n by (simp add: take_Suc_conv_app_nth run_snoc)
  then show ?thesis using rpc_reach.event [OF r e s'] by (simp add: demo_def)
qed

lemma demo_first:
  "rpc_run (take 0 demo_events) demo_start = Some (demo 0) \<and> rpc_reach (demo 0)"
  "rpc_run (take 1 demo_events) demo_start = Some (demo 1) \<and> rpc_reach (demo 1)"
  "rpc_run (take 2 demo_events) demo_start = Some (demo 2) \<and> rpc_reach (demo 2)"
  "rpc_run (take 3 demo_events) demo_start = Some (demo 3) \<and> rpc_reach (demo 3)"
  "rpc_run (take 4 demo_events) demo_start = Some (demo 4) \<and> rpc_reach (demo 4)"
  "rpc_run (take 5 demo_events) demo_start = Some (demo 5) \<and> rpc_reach (demo 5)"
  "rpc_run (take 6 demo_events) demo_start = Some (demo 6) \<and> rpc_reach (demo 6)"
proof -
  note E = demo_events_def client_def recv_task_def new_msg_def new_data_def new_seqid_def idle_client_def numeral_2_eq_2 numeral_3_eq_3
  have d0: "demo 0 = demo_start" by (simp add: demo_def)
  show 0: "rpc_run (take 0 demo_events) demo_start = Some (demo 0) \<and> rpc_reach (demo 0)"
    using rpc_reach.start [OF demo_initial] by (simp add: d0)
  have "enabled_event (demo_events ! 0) (demo 0)"
    by (simp add: demo_events_def d0 demo_start_def client_def recv_task_def new_msg_def new_seqid_def sizeof_msghdr_def)
  from demo_step [OF 0 _ this] show 1: "rpc_run (take 1 demo_events) demo_start = Some (demo 1) \<and> rpc_reach (demo 1)" by (simp add: demo_events_def)
  have "enabled_event (demo_events ! 1) (demo 1)" using demo_phases(2) by (simp add: demo_events_def)
  from demo_step [OF 1 _ this] show 2: "rpc_run (take 2 demo_events) demo_start = Some (demo 2) \<and> rpc_reach (demo 2)" by (simp add: demo_events_def numeral_2_eq_2)
  have "enabled_event (demo_events ! 2) (demo 2)" using demo_phases(3) by (simp add: demo_events_def)
  from demo_step [OF 2 _ this] show 3: "rpc_run (take 3 demo_events) demo_start = Some (demo 3) \<and> rpc_reach (demo 3)" by (simp add: demo_events_def)
  have "enabled_event (demo_events ! 3) (demo 3)" using demo_receiver demo_sleep(5)
    by (auto simp: demo_events_def idle_client_def client_def recv_task_def new_msg_def)
  from demo_step [OF 3 _ this] show 4: "rpc_run (take 4 demo_events) demo_start = Some (demo 4) \<and> rpc_reach (demo 4)" by (simp add: demo_events_def)
  have "sleeps_on (demo 4) 2 200" using demo_phases(5) demo_sleep(2) by (simp add: sleeps_on_def)
  then have "honest (demo 4) (zero_msg\<lparr>hdr := \<lparr>seqid = 1, msgtype = 0, msglen = 12, payloadlen = 0, status = 0\<rparr>\<rparr>)"
    using demo_sleep(4) unfolding honest_def by fastforce
  then have "enabled_event (demo_events ! 4) (demo 4)" using demo_receiver demo_sleep(6)
    by (simp add: demo_events_def idle_client_def client_def recv_task_def new_data_def good_header_def sizeof_msghdr_def msg_gap_def)
  from demo_step [OF 4 _ this] show 5: "rpc_run (take 5 demo_events) demo_start = Some (demo 5) \<and> rpc_reach (demo 5)" by (simp add: demo_events_def)
  have "enabled_event (demo_events ! 5) (demo 5)" using demo_phases(6) demo_sleep(3) by (auto simp: demo_events_def sleeps_on_def)
  from demo_step [OF 5 _ this] show "rpc_run (take 6 demo_events) demo_start = Some (demo 6) \<and> rpc_reach (demo 6)" by (simp add: demo_events_def)
qed

lemmas demo_reach = demo_first [THEN conjunct2]




theorem rpc_lock_exclusive_witness: "owner (fdlock (chan (demo 2))) = 2 \<and> (\<forall>u. holds_lock (ph (demo 2) u) \<longrightarrow> u = 2)"
  using rpc_lock_exclusive [OF demo_reach(3), of 2] demo_phases(3) by simp

theorem rpc_messages_exclusive_witness: "rmsg_of (rcv (demo 4)) \<noteq> Some 200 \<and> (\<exists>xs H. pool_ok (msgpool (chan (demo 4))) xs H \<and> 200 \<in> H \<and> 200 \<notin> set xs)"
  using rpc_messages_exclusive [OF demo_reach(5), of 2 200] demo_phases(5) by (simp add: msg_of_def)


section \<open>The type of a message\<close>

lemma flag_bits: "bit (1 :: u16) n \<longleftrightarrow> n = 0" "bit (2 :: u16) n \<longleftrightarrow> n = 1" "bit (- 2 :: u16) n \<longleftrightarrow> 0 < n \<and> n < 16"
proof -
  have "- 2 = NOT (1 :: u16)" by simp
  then show "bit (- 2 :: u16) n \<longleftrightarrow> 0 < n \<and> n < 16" by (simp only: bit_not_iff) (auto simp: bit_simps)
qed (auto simp: bit_simps bit_2_iff)

lemma flag_ops:
  "((x :: u16) OR 1) AND 1 \<noteq> 0" "(x AND - 2) AND 1 = 0" "(x OR 2) AND 2 \<noteq> 0"
  "(x OR 1) AND 2 = x AND 2" "(x AND - 2) AND 2 = x AND 2" "(x OR 2) AND 1 = x AND 1"
proof -
  have "bit ((x OR 1) AND 1) 0" "bit ((x OR 2) AND 2) 1" by (simp_all add: bit_simps)
  then show "(x OR 1) AND 1 \<noteq> 0" "(x OR 2) AND 2 \<noteq> 0" by auto
  show "(x AND - 2) AND 1 = 0" "(x OR 1) AND 2 = x AND 2" "(x AND - 2) AND 2 = x AND 2" "(x OR 2) AND 1 = x AND 1"
    by (rule bit_eqI; auto simp: bit_simps flag_bits)+
qed

lemma flag_type:
  "drop_bit 4 ((x :: u16) OR 1) = drop_bit 4 x" "drop_bit 4 (x AND NOT 1) = drop_bit 4 x" "drop_bit 4 (x OR 2) = drop_bit 4 x"
  by (rule bit_eqI; simp only: bit_drop_bit_eq bit_and_iff bit_or_iff bit_not_iff flag_bits o_apply; auto dest: bit_imp_le_length)+

lemma type_bits:
  assumes "ty < (4096 :: u32)"
  shows "ucast (drop_bit 4 (ucast (push_bit 4 ty) :: u16)) = ty"
proof -
  have "take_bit 12 ty = ty" using assms by (simp add: word_unat_eq_iff unsigned_take_bit_eq take_bit_nat_eq_self word_less_nat_alt)
  then have h: "bit ty n \<Longrightarrow> n < 12" for n by (metis bit_take_bit_iff)
  show ?thesis by (rule bit_eqI) (auto simp: bit_simps dest: h)
qed

lemma type_flags: "(ucast (push_bit 4 (ty :: u32)) :: u16) AND 1 = 0" "(ucast (push_bit 4 ty) :: u16) AND 2 = 0"
proof -
  show "(ucast (push_bit 4 (ty :: u32)) :: u16) AND 1 = 0" "(ucast (push_bit 4 ty) :: u16) AND 2 = 0"
    by (rule bit_eqI; auto simp: bit_simps flag_bits)+
qed

text \<open>
  C38 (rpc_type_roundtrip) A type below 4096 is read back as it was set, whatever flags are set afterwards;
  the flags do not disturb each other.
\<close>

theorem rpc_type_roundtrip:
  assumes "ty < 4096"
  shows "RPC_GETMSGTYPE (RPC_SETMSGTYPE M ty) = ty \<and> \<not> RPC_ISREQ (RPC_SETMSGTYPE M ty) \<and> \<not> RPC_IS_CONNCLOSED (RPC_SETMSGTYPE M ty) \<and>
     RPC_GETMSGTYPE (RPC_SETREQ N) = RPC_GETMSGTYPE N \<and> RPC_ISREQ (RPC_SETREQ N) \<and> RPC_IS_CONNCLOSED (RPC_SETREQ N) = RPC_IS_CONNCLOSED N \<and>
     RPC_GETMSGTYPE (RPC_SETRESP N) = RPC_GETMSGTYPE N \<and> \<not> RPC_ISREQ (RPC_SETRESP N) \<and> RPC_IS_CONNCLOSED (RPC_SETRESP N) = RPC_IS_CONNCLOSED N \<and>
     RPC_GETMSGTYPE (RPC_SET_CONNCLOSED N) = RPC_GETMSGTYPE N \<and> RPC_IS_CONNCLOSED (RPC_SET_CONNCLOSED N) \<and>
     RPC_ISREQ (RPC_SET_CONNCLOSED N) = RPC_ISREQ N"
proof -
  have "RPC_GETMSGTYPE (RPC_SETRESP N) = RPC_GETMSGTYPE N" 
  proof -
    have "msgtype (hdr (RPC_SETRESP N)) = msgtype (hdr N) AND NOT 1" by (simp add: RPC_SETRESP_def)
    then show ?thesis by (simp only: RPC_GETMSGTYPE_def flag_type)
  qed
  then show ?thesis using type_bits [OF assms]
    by (simp add: RPC_GETMSGTYPE_def RPC_SETMSGTYPE_def RPC_ISREQ_def RPC_IS_CONNCLOSED_def RPC_SETREQ_def RPC_SETRESP_def RPC_SET_CONNCLOSED_def
      flag_ops flag_type type_flags)
qed

theorem rpc_type_roundtrip_witness: "RPC_GETMSGTYPE (RPC_SETREQ (RPC_SETMSGTYPE zero_msg 333)) = 333"
  using rpc_type_roundtrip [of 333 zero_msg "RPC_SETMSGTYPE zero_msg 333"] by simp

section \<open>What the code relies on\<close>

text \<open>
  C28 (rpc_bad_header) A header from the peer fails an assertion when it says that the message is shorter than the
  header, and makes the receiver write behind its buffer when the message is longer than the room behind what
  precedes the header in it, although not longer than the buffer: the length is compared with the whole buffer.
\<close>

theorem rpc_bad_header:
  assumes "msg_gap + sizeof_msghdr \<le> bufsize (bp (msgpool c))" and "\<not> good_header c h"
  shows "recv_header c t m a 0 h = None"
proof -
  have len: "ucast (msglen h) > bufsize (bp (msgpool c)) \<longleftrightarrow> unat (bufsize (bp (msgpool c))) < unat (msglen h)"
    "(sizeof_msghdr \<le> ucast (msglen h)) = (12 \<le> unat (msglen h))"
    "(msg_gap + ucast (msglen h) \<le> bufsize (bp (msgpool c))) = (72 + unat (msglen h) \<le> unat (bufsize (bp (msgpool c))))"
    using unsigned_less [of "msglen h", where ?'a = nat]
    by (simp_all add: word_less_nat_alt word_le_nat_alt unat_ucast_16 sizeof_msghdr_def msg_gap_def unat_word_ariths)
  have room: "84 \<le> unat (bufsize (bp (msgpool c)))" using assms(1) by (simp add: word_le_nat_alt msg_gap_def sizeof_msghdr_def)
  have fits: "\<not> ucast (msglen h) > bufsize (bp (msgpool c))" using assms(2) room unfolding good_header_def len by linarith
  let ?n = "(ucast (msglen h) :: u64) - sizeof_msghdr"
  have "sint (ucast ?n :: u32) < 0 \<or> 0 < sint (ucast ?n :: u32) \<and> \<not> msg_gap + ucast (msglen h) \<le> bufsize (bp (msgpool c))"
  proof (cases "12 \<le> unat (msglen h)")
    case False
    obtain k where k: "k < 12" "msglen h = of_nat k" by (rule that [of "unat (msglen h)"]) (use False in simp_all)
    from k(1) have "k = 0 \<or> k = 1 \<or> k = 2 \<or> k = 3 \<or> k = 4 \<or> k = 5 \<or> k = 6 \<or> k = 7 \<or> k = 8 \<or> k = 9 \<or> k = 10 \<or> k = 11" by presburger
    moreover have "ucast (- 1 :: u64) = (- 1 :: u32)" by (rule bit_eqI) (simp add: bit_simps)
    ultimately show ?thesis using k(2) by (elim disjE) (simp_all add: sizeof_msghdr_def)
  next
    case True
    then have n: "unat ?n = unat (msglen h) - 12" using len(2) by (simp add: unat_sub sizeof_msghdr_def unat_ucast_16)
    have over: "\<not> msg_gap + ucast (msglen h) \<le> bufsize (bp (msgpool c))" using assms(2) True unfolding good_header_def len by linarith
    then have "12 < unat (msglen h)" using room unfolding len by linarith
    moreover have "unat (msglen h) < 65536" using unsigned_less [of "msglen h", where ?'a = nat] by simp
    ultimately have u: "unat (ucast ?n :: u32) < 2 ^ 31" "unat (ucast ?n :: u32) \<noteq> 0" using n by (simp_all add: unat_ucast_16)
    then have "sint (ucast ?n :: u32) \<noteq> 0" by (metis signed_eq_0_iff unsigned_0)
    with sint_small [OF u(1)] over show ?thesis by linarith
  qed
  moreover have "msgpool c' = msgpool c" if "on_msg c m (\<lambda>M. M\<lparr>hdr := h\<rparr>) = Some c'" for c'
    using that by (auto simp: on_msg_def bind_eq_Some_conv)
  ultimately show ?thesis using fits by (cases "on_msg c m (\<lambda>M. M\<lparr>hdr := h\<rparr>)") (auto simp: recv_header_def)
qed

theorem rpc_bad_header_witness:
  "recv_header (chan (demo 4)) 1 201 0 0 \<lparr>seqid = 1, msgtype = 0, msglen = 120, payloadlen = 0, status = 0\<rparr> = None"
  by (rule rpc_bad_header) (simp_all add: demo_sleep(6) good_header_def msg_gap_def sizeof_msghdr_def)

text \<open>
  When the channel has been closed while a handler works on its request, and nobody holds
  the lock, the handler's \<^verbatim>\<open>rpc_response\<close> fails: it skips the lock but not the unlock.
\<close>

theorem rpc_response_disabled:
  assumes "\<not> chan_enabled c" and "owner (fdlock c) = 0"
  shows "response_start c t m = None"
proof -
  have "response_done c m = None" using assms(2) by (simp add: response_done_def chan_unlock_def qunlock_def)
  then show ?thesis using assms(1) by (auto simp: response_start_def split: Option.bind_split)
qed

text \<open>
  The default handler fails an assertion of \<^verbatim>\<open>rpc_response\<close> for every request
  that has a payload: it gives the payload back and does not reset its length.
\<close>

theorem rpc_default_handler_payload:
  assumes "msgs c m = Some M" and "payload M \<noteq> NULL" and "payloadlen (hdr M) \<noteq> 0" and "\<not> RPC_IS_CONNCLOSED M"
  shows "rpc_default_handler c t m = None"
proof (rule ccontr)
  assume "rpc_default_handler c t m \<noteq> None"
  then obtain r where "rpc_default_handler c t m = Some r" by blast
  then show False using assms
    by (auto simp: rpc_default_handler_def bind_eq_Some_conv response_start_def rpc_databuf_put_def on_msg_def)
qed

text \<open>
  A response to no request that is still there fails an assertion of the receiver.
\<close>

theorem rpc_orphan_response:
  assumes "rpc_reach s" and "msgs (chan s) r = Some R"
    and "\<forall>t m. request_of (ph s t) = Some m \<longrightarrow> seqid_of (chan s) m \<noteq> Some (seqid (hdr R))"
  shows "rpc_response_in (chan s) r = None"
proof -
  from reach_parts [OF assms(1)] obtain bs xs H ds D own down where inv: "inv_parts s bs xs H ds D own down" .
  note I = partsD [OF inv]
  let ?b = "get_bucket (chan s) (seqid (hdr R))"
  have nb: "no_buckets (tab (hash (chan s))) = int (length bs)" "bs \<noteq> []" using memD(1) [OF I(1)] by (simp_all add: hash_holds_def)
  then have b: "0 \<le> ?b" "?b < int (length bs)" by (simp_all add: get_bucket_def)
  have "seqid_cmp (msgs (chan s)) (seqid (hdr R)) e \<noteq> 1" if e: "e \<in> set (bs ! nat ?b)" for e
  proof -
    have "e \<in> set (concat bs)" using e b by (auto intro!: nth_mem)
    then obtain t where "request_of (ph s t) = Some e" using I(5) unfolding seqids_ok_def by blast
    with assms(3) have "seqid_of (chan s) e \<noteq> Some (seqid (hdr R))" by blast
    then show ?thesis by (auto simp: seqid_cmp_def seqid_of_def split: option.splits)
  qed
  then have "filter (\<lambda>e. seqid_cmp (msgs (chan s)) (seqid (hdr R)) e = 1) (bs ! nat ?b) = []" by (auto simp: filter_empty_conv)
  with hash_lookup_holds [OF memD(1) [OF I(1)] b, of "seqid_cmp (msgs (chan s)) (seqid (hdr R))"]
  have "hash_lookup (hash (chan s)) ?b (seqid_cmp (msgs (chan s)) (seqid (hdr R))) = Some (-1, NULL)" by simp
  then show ?thesis using assms(2) b nb by (simp add: rpc_response_in_def)
qed

text \<open>
  After \<^verbatim>\<open>rpc_request\<close> has failed to write, the message is still linked in the hash
  table: once it has been given back, a node of the table points to a buffer that is no message.
\<close>

theorem rpc_failed_request_linked:
  assumes "rpc_reach s" and "ph s t = Failed m"
  shows "\<exists>c' p n. rpc_msg_put (chan s) m = Some c' \<and> hdlls (hash c') p = Some n \<and> dll_next n = m \<and> msgs c' m = None \<and> hdlls (hash c') m = None"
proof -
  from reach_parts [OF assms(1)] obtain bs xs H ds D own down where inv: "inv_parts s bs xs H ds D own down" .
  note I = partsD [OF inv] and O = ownD [OF partsD(4) [OF inv]]
  from I(6) [of t] assms(2) have q: "queued (chan s) (set (concat bs)) m []" by simp
  then have "m \<in> set (concat bs)" by (simp add: queued_def)
  then obtain l where "l \<in> set bs" "m \<in> set l" by auto
  then obtain i where i: "i < length bs" "m \<in> set (bs ! i)" by (metis in_set_conv_nth)
  then obtain M where M: "msgs (chan s) m = Some M" "resp M = NULL" using I(2) unfolding pending_ok_def by blast
  from i(2) obtain us vs where uv: "bs ! i = us @ m # vs" by (meson split_list)
  let ?p = "last ((buckets (tab (hash (chan s))) + i) # us)"
  have r: "ring (hdlls (hash (chan s))) (buckets (tab (hash (chan s))) + i) (us @ m # vs)"
    using hash_holdsD(1) [OF memD(1) [OF I(1)] i(1)] uv by simp
  from ring_neighbours(2) [OF r] obtain n where n: "hdlls (hash (chan s)) ?p = Some n" "dll_next n = m"
    by (auto simp: DLL_NEXT_def)
  have pm: "?p \<noteq> m"
  proof
    assume "?p = m"
    moreover have "?p \<in> set ((buckets (tab (hash (chan s))) + i) # us)" by (rule last_in_set) simp
    ultimately show False using r by (auto simp: ring_def)
  qed
  have b: "payload M \<noteq> NULL \<Longrightarrow> payload M \<in> D" using O(7) [of m "payload M"] M(1) by (simp add: payload_of_def)
  have mH: "m \<in> H" using mem_in [OF I(1)] M(1) by blast
  from put_payload [OF I(1) M(1) b] obtain d where d: "(if payload M \<noteq> NULL then rpc_databuf_put (chan s) (payload M) else Some (chan s)) = Some ((chan s)\<lparr>datapool := d\<rparr>)" by blast
  from pool_put [OF memD(2) [OF I(1)] mH memD(4) [OF I(1)]] obtain p w where p: "bufpool_put (msgpool (chan s)) m = Some (p, w)" by metis
  have "\<exists>c'. rpc_msg_put (chan s) m = Some c' \<and> hash c' = hash (free_msg (chan s) m) \<and> msgs c' m = None"
    using d p M by (cases "payload M = NULL") (auto simp: rpc_msg_put_def on_msg_def put_msg_def free_msg_def)
  then obtain c' where c': "rpc_msg_put (chan s) m = Some c'" "hash c' = hash (free_msg (chan s) m)" "msgs c' m = None" by blast
  then have "hdlls (hash c') ?p = Some n" "hdlls (hash c') m = None" using n pm by (simp_all add: free_msg_def)
  with n(2) c' show ?thesis by blast
qed


section \<open>What happens to the others' messages\<close>

lemma on_msg_other: "on_msg c k f = Some c' \<Longrightarrow> n \<noteq> k \<Longrightarrow> msgs c' n = msgs c n"
  by (auto simp: on_msg_def store_def bind_eq_Some_conv split: option.splits)

lemma chan_unlock_msgs: "chan_unlock c = Some c' \<Longrightarrow> msgs c' = msgs c"
  by (auto simp: chan_unlock_def bind_eq_Some_conv)

lemma databuf_msgs:
  "rpc_databuf_put c b = Some c' \<Longrightarrow> msgs c' = msgs c" "rpc_databuf_get c res t a = Some (c', r) \<Longrightarrow> msgs c' = msgs c"
  by (auto simp: rpc_databuf_put_def rpc_databuf_get_def bind_eq_Some_conv)

lemma put_msg_other: "put_msg c k = Some c' \<Longrightarrow> n \<noteq> k \<Longrightarrow> msgs c' n = msgs c n"
  by (auto simp: put_msg_def free_msg_def bind_eq_Some_conv)

lemma rpc_msg_put_other:
  assumes "rpc_msg_put c k = Some c'" and "msgs c k = Some K" and n: "n \<noteq> k" "n \<noteq> resp K"
  shows "msgs c' n = msgs c n"
proof -
  from assms(1,2) obtain c1 c2 where
    1: "(if resp K \<noteq> NULL then do { R \<leftarrow> msgs c (resp K); c_assert (resp R = NULL);
       c \<leftarrow> (if payload R \<noteq> NULL then rpc_databuf_put c (payload R) else Some c); c \<leftarrow> put_msg c (resp K); on_msg c k (\<lambda>M. M\<lparr>resp := NULL\<rparr>) } else Some c) = Some c1"
    and 2: "(if payload K \<noteq> NULL then do { c \<leftarrow> rpc_databuf_put c1 (payload K); on_msg c k (\<lambda>M. M\<lparr>payload := NULL\<rparr>) } else Some c1) = Some c2"
    and 3: "put_msg c2 k = Some c'" unfolding rpc_msg_put_def by (auto simp: bind_eq_Some_conv)
  have "msgs c1 n = msgs c n" using 1 n by (auto simp: bind_eq_Some_conv split: if_splits dest!: on_msg_other put_msg_other databuf_msgs)
  moreover have "msgs c2 n = msgs c1 n" using 2 n by (auto simp: bind_eq_Some_conv split: if_splits dest!: on_msg_other databuf_msgs)
  ultimately show ?thesis using put_msg_other [OF 3 n(1)] by simp
qed

lemma chan_lock_msgs: "(case chan_lock c t of (c, r) \<Rightarrow> Some (c, Some r)) = Some (c', r') \<Longrightarrow> msgs c' = msgs c"
  by (auto simp: chan_lock_def split: prod.splits)

lemma request_other:
  assumes n: "n \<noteq> k"
  shows "request_start c t k = Some (c', r) \<Longrightarrow> msgs c' n = msgs c n" "request_sleep c t k = Some c' \<Longrightarrow> msgs c' n = msgs c n"
    "request_header c t k res = Some (c', w) \<Longrightarrow> msgs c' n = msgs c n" "request_payload c t k res = Some (c', w) \<Longrightarrow> msgs c' n = msgs c n"
    "request_failed c = Some c' \<Longrightarrow> msgs c' n = msgs c n"
proof -
  show start: "request_start c t k = Some (c', r) \<Longrightarrow> msgs c' n = msgs c n"
    using n by (auto simp: request_start_def bind_eq_Some_conv Let_def split: if_splits dest!: on_msg_other chan_lock_msgs)
  have sleep: "request_sleep c t k = Some c' \<Longrightarrow> msgs c' n = msgs c n" for c'
    using n by (auto simp: request_sleep_def bind_eq_Some_conv dest!: on_msg_other chan_unlock_msgs)
  then show "request_sleep c t k = Some c' \<Longrightarrow> msgs c' n = msgs c n" .
  show "request_header c t k res = Some (c', w) \<Longrightarrow> msgs c' n = msgs c n"
    using sleep by (auto simp: request_header_def rpc_chan_close_def bind_eq_Some_conv split: if_splits)
  show "request_payload c t k res = Some (c', w) \<Longrightarrow> msgs c' n = msgs c n"
    using sleep by (auto simp: request_payload_def rpc_chan_close_def bind_eq_Some_conv split: if_splits)
  show "request_failed c = Some c' \<Longrightarrow> msgs c' n = msgs c n"
    by (auto simp: request_failed_def rpc_chan_closed_def dest!: chan_unlock_msgs)
qed

lemma response_done_other:
  "response_done c k = Some c' \<Longrightarrow> msgs c k = Some K \<Longrightarrow> n \<noteq> k \<Longrightarrow> n \<noteq> resp K \<Longrightarrow> msgs c' n = msgs c n"
  by (auto simp: response_done_def bind_eq_Some_conv dest!: chan_unlock_msgs dest: rpc_msg_put_other)

lemma response_other:
  assumes K: "msgs c k = Some K" and n: "n \<noteq> k" "n \<noteq> resp K"
  shows "response_start c t k = Some (c', r) \<Longrightarrow> msgs c' n = msgs c n" "response_header c k res = Some (c', w) \<Longrightarrow> msgs c' n = msgs c n"
    "response_payload c k res = Some (c', w) \<Longrightarrow> msgs c' n = msgs c n" "response_failed c k = Some c' \<Longrightarrow> msgs c' n = msgs c n"
proof -
  have dn: "response_done c k = Some c' \<Longrightarrow> msgs c' n = msgs c n" for c' using response_done_other K n by blast
  show "response_start c t k = Some (c', r) \<Longrightarrow> msgs c' n = msgs c n"
    using n dn by (auto simp: response_start_def bind_eq_Some_conv Let_def split: if_splits dest!: on_msg_other chan_lock_msgs)
  show "response_header c k res = Some (c', w) \<Longrightarrow> msgs c' n = msgs c n"
    using dn by (auto simp: response_header_def rpc_chan_close_def bind_eq_Some_conv split: if_splits)
  show "response_payload c k res = Some (c', w) \<Longrightarrow> msgs c' n = msgs c n"
    using dn by (auto simp: response_payload_def rpc_chan_close_def bind_eq_Some_conv split: if_splits)
  show "response_failed c k = Some c' \<Longrightarrow> msgs c' n = msgs c n"
    using response_done_other [of "rpc_chan_closed c" k c' K n] K n by (simp add: response_failed_def rpc_chan_closed_def)
qed

lemma default_handler_other:
  assumes d: "rpc_default_handler c t k = Some (c', r)" and K: "msgs c k = Some K" and n: "n \<noteq> k" "n \<noteq> resp K"
  shows "msgs c' n = msgs c n"
proof -
  from d K obtain c1 c2 where
    1: "(if payload K \<noteq> NULL then do { c \<leftarrow> rpc_databuf_put c (payload K); on_msg c k (\<lambda>M. M\<lparr>payload := NULL\<rparr>) } else Some c) = Some c1"
    and 2: "on_msg c1 k (\<lambda>M. M\<lparr>hdr := (hdr M)\<lparr>status := RPC_ENOSYS\<rparr>\<rparr>) = Some c2"
    and 3: "(if RPC_IS_CONNCLOSED K then do { c \<leftarrow> rpc_msg_put c2 k; Some (c, None) } else response_start c2 t k) = Some (c', r)"
    unfolding rpc_default_handler_def by (auto simp: bind_eq_Some_conv)
  have same: "msgs c1 n = msgs c n" using 1 n by (auto simp: bind_eq_Some_conv split: if_splits dest!: on_msg_other databuf_msgs)
  obtain L where L: "msgs c1 k = Some L" "resp L = resp K"
    using 1 K by (auto simp: bind_eq_Some_conv on_msg_def split: if_splits dest!: databuf_msgs)
  obtain N where N: "msgs c2 k = Some N" "resp N = resp K" using 2 L by (auto simp: on_msg_def)
  have "msgs c' n = msgs c2 n"
    using 3 rpc_msg_put_other [of c2 k _ N n] response_other(1) [of c2 k N n t c' r] N n by (auto simp: bind_eq_Some_conv split: if_splits)
  with same on_msg_other [OF 2 n(1)] show ?thesis by simp
qed

text \<open>A task that sleeps on its message, while others are at work.\<close>

lemma sleeper_facts:
  assumes inv: "inv_parts s bs xs H ds D own down" and z: "sleeps_on s t m"
  shows "m \<in> H" "own m = Task t" "msg_of (ph s u) = Some k \<Longrightarrow> u \<noteq> t \<Longrightarrow> k \<noteq> m \<and> (\<forall>K. msgs (chan s) k = Some K \<longrightarrow> m \<noteq> resp K) \<and> msgs (chan s) k \<noteq> None"
proof -
  note O = ownD [OF partsD(4) [OF inv]]
  show m: "m \<in> H" "own m = Task t" using O(4) [of t m] z by (simp_all add: sleeps_on_def msg_of_def)
  assume k: "msg_of (ph s u) = Some k" "u \<noteq> t"
  have "k \<noteq> m" using O(4) [OF k(1)] m(2) k(2) by auto
  moreover have "m \<noteq> resp K" if "msgs (chan s) k = Some K" for K
    using O(6) [of k "resp K"] that m mem_nonnull [OF partsD(1) [OF inv] m(1)] by (cases "resp K = NULL") (auto simp: resp_of_def)
  moreover have "msgs (chan s) k \<noteq> None" using O(4) [OF k(1)] mem_in [OF partsD(1) [OF inv]] by auto
  ultimately show "k \<noteq> m \<and> (\<forall>K. msgs (chan s) k = Some K \<longrightarrow> m \<noteq> resp K) \<and> msgs (chan s) k \<noteq> None" by blast
qed

definition asleep_still :: "rpc_sys \<Rightarrow> nat \<Rightarrow> addr \<Rightarrow> rpc_sys \<Rightarrow> bool" where
  "asleep_still s t m s' \<longleftrightarrow> msgs (chan s') m = msgs (chan s) m \<and> ph s' t = ph s t \<and> rcv s' = rcv s"

lemma asleep_set: "u \<noteq> t \<Longrightarrow> msgs c m = msgs (chan s) m \<Longrightarrow> asleep_still s t m (set_phase s c u q)"
  by (simp add: asleep_still_def set_phase_def)

lemma asleep_got_msg:
  assumes inv: "inv_parts s bs xs H ds D own down" and z: "sleeps_on s t m" and u: "u \<noteq> t"
    and a: "new_msg (chan s) a" and len: "sizeof_msghdr \<le> ml" "ml \<le> 65535" and b: "b \<noteq> NULL \<or> pl = 0"
    and g: "got_msg s u w (rpc_msg_get (chan s) res u ty ml pl b a) = Some s'"
  shows "asleep_still s t m s'"
proof -
  from rpc_msg_get_mem [OF partsD(1) [OF inv] a len b, of res u ty] obtain c r where
    c: "rpc_msg_get (chan s) res u ty ml pl b a = Some (c, r)" "(\<exists>k M. k \<notin> H \<and> msgs c = (msgs (chan s))(k \<mapsto> M)) \<or> msgs c = msgs (chan s)" by metis
  have "msgs c m = msgs (chan s) m" using c(2) sleeper_facts(1) [OF inv z] by auto
  with g c(1) u show ?thesis by (auto simp: got_msg_def intro!: asleep_set)
qed

lemma asleep_step:
  assumes inv: "inv_parts s bs xs H ds D own down" and z: "sleeps_on s t m" and r: "rcv s = RecvEnd"
    and e: "enabled_event e s" and s': "rpc_step e s = Some s'"
  shows "asleep_still s t m s'"
proof -
  note F = sleeper_facts [OF inv z]
  have pt: "ph s t = Asleep m" using z by (simp add: sleeps_on_def)
  have other: "k \<noteq> m" "m \<noteq> k" "m \<noteq> resp K" if "msg_of (ph s u) = Some k" "u \<noteq> t" "msgs (chan s) k = Some K" for u k K
    using F(3) [OF that(1,2)] that(3) by auto
  show ?thesis
  proof (cases e)
    case (GetData u a)
    then have "u \<noteq> t" using e pt by (auto simp: idle_client_def)
    then show ?thesis using s' GetData by (auto simp: got_data_def bind_eq_Some_conv databuf_msgs intro!: asleep_set)
  next
    case (GetDataAgain u a)
    then have "u \<noteq> t" using e pt by auto
    then show ?thesis using s' GetDataAgain by (auto simp: got_data_def bind_eq_Some_conv databuf_msgs intro!: asleep_set)
  next
    case (PutData u)
    then have "u \<noteq> t" using e pt by auto
    then show ?thesis using s' PutData e by (auto simp: bind_eq_Some_conv databuf_msgs intro!: asleep_set)
  next
    case (PutMsg u)
    with e obtain k where k1: "ph s u = Owns k \<or> ph s u = Done k" by auto
    from k1 pt have k2: "u \<noteq> t" by auto
    note k = k1 k2
    then have mk: "msg_of (ph s u) = Some k" by (auto simp: msg_of_def)
    from F(3) [OF mk k(2)] obtain K where "msgs (chan s) k = Some K" "m \<noteq> k" "m \<noteq> resp K" by auto
    then show ?thesis using s' PutMsg k by (auto simp: bind_eq_Some_conv rpc_msg_put_other intro!: asleep_set)
  next
    case (Request u)
    with e obtain k where k1: "ph s u = Owns k" by auto
    from k1 pt have k2: "u \<noteq> t" by auto
    note k = k1 k2
    then have "m \<noteq> k" using F(3) [of u k] by (auto simp: msg_of_def)
    then show ?thesis using s' Request k by (auto simp: locked_def bind_eq_Some_conv request_other(1) intro!: asleep_set)
  next
    case (LockGot u)
    then have "u \<noteq> t" using e pt by auto
    then show ?thesis using s' LockGot e by (auto simp: bind_eq_Some_conv intro!: asleep_set)
  next
    case (HeaderWritten u res)
    with e obtain k where k1: "ph s u = Sending k \<or> ph s u = Responding k" by auto
    from k1 pt have k2: "u \<noteq> t" by auto
    note k = k1 k2
    then have mk: "msg_of (ph s u) = Some k" by (auto simp: msg_of_def)
    from F(3) [OF mk k(2)] obtain K where "msgs (chan s) k = Some K" "m \<noteq> k" "m \<noteq> resp K" by auto
    then show ?thesis using s' HeaderWritten k
      by (auto simp: wrote_def bind_eq_Some_conv request_other(3) response_other(2) intro!: asleep_set)
  next
    case (PayloadWritten u res)
    with e obtain k where k1: "ph s u = SendingPayload k \<or> ph s u = RespondingPayload k" by auto
    from k1 pt have k2: "u \<noteq> t" by auto
    note k = k1 k2
    then have mk: "msg_of (ph s u) = Some k" by (auto simp: msg_of_def)
    from F(3) [OF mk k(2)] obtain K where "msgs (chan s) k = Some K" "m \<noteq> k" "m \<noteq> resp K" by auto
    then show ?thesis using s' PayloadWritten k
      by (auto simp: wrote_def bind_eq_Some_conv request_other(4) response_other(3) intro!: asleep_set)
  next
    case (ChanClosed u)
    with e obtain k where k1: "ph s u = Closing k \<or> ph s u = RespClosing k" by auto
    from k1 pt have k2: "u \<noteq> t" by auto
    note k = k1 k2
    then have mk: "msg_of (ph s u) = Some k" by (auto simp: msg_of_def)
    from F(3) [OF mk k(2)] obtain K where "msgs (chan s) k = Some K" "m \<noteq> k" "m \<noteq> resp K" by auto
    then show ?thesis using s' ChanClosed k
      by (auto simp: bind_eq_Some_conv request_other(5) [of m k] response_other(4) intro!: asleep_set)
  next
    case (Wake u)
    then have "u \<noteq> t" using e z pt by auto
    then show ?thesis using s' Wake e by (auto simp: bind_eq_Some_conv intro!: asleep_set)
  next
    case (Respond u)
    with e obtain k where k1: "ph s u = Handling k" by auto
    from k1 pt have k2: "u \<noteq> t" by auto
    note k = k1 k2
    then have mk: "msg_of (ph s u) = Some k" by (auto simp: msg_of_def)
    from F(3) [OF mk k(2)] obtain K where "msgs (chan s) k = Some K" "m \<noteq> k" "m \<noteq> resp K" by auto
    then show ?thesis using s' Respond k by (auto simp: locked_def bind_eq_Some_conv response_other(1) intro!: asleep_set)
  next
    case (DefaultHandler u)
    with e obtain k where k1: "ph s u = Handling k" by auto
    from k1 pt have k2: "u \<noteq> t" by auto
    note k = k1 k2
    then have mk: "msg_of (ph s u) = Some k" by (auto simp: msg_of_def)
    from F(3) [OF mk k(2)] obtain K where "msgs (chan s) k = Some K" "m \<noteq> k" "m \<noteq> resp K" by auto
    then show ?thesis using s' DefaultHandler k by (auto simp: locked_def bind_eq_Some_conv default_handler_other intro!: asleep_set)
  next
    case (GetMsg u ty ml pl a)
    then have u: "u \<noteq> t" and g: "new_msg (chan s) a" "sizeof_msghdr \<le> ml" "ml \<le> 65535" using e pt by auto
    have "(case ph s u of HasBuf b \<Rightarrow> b | _ \<Rightarrow> NULL) \<noteq> NULL \<or> pl = 0"
      using e GetMsg partsD(6) [OF inv, of u] by auto
    from asleep_got_msg [OF inv z u g this] s' GetMsg show ?thesis by (simp add: Let_def)
  next
    case (GetMsgAgain u a)
    with e obtain ty ml pl b where w: "ph s u = MsgWait ty ml pl b" and g: "new_msg (chan s) a" by auto
    then have u: "u \<noteq> t" using pt by auto
    have "sizeof_msghdr \<le> ml" "ml \<le> 65535" "b \<noteq> NULL \<or> pl = 0" using partsD(6) [OF inv, of u] w by simp_all
    from asleep_got_msg [OF inv z u g this] s' GetMsgAgain w show ?thesis by simp
  qed (use e r in auto)
qed

text \<open>The events of a run, each of which can happen when its turn comes.\<close>

primrec enabled_run :: "rpc_event list \<Rightarrow> rpc_sys \<Rightarrow> bool" where
  "enabled_run [] s \<longleftrightarrow> True"
| "enabled_run (e # es) s \<longleftrightarrow> enabled_event e s \<and> (\<forall>s'. rpc_step e s = Some s' \<longrightarrow> enabled_run es s')"

lemma enabled_run_returns: "rpc_inv s \<Longrightarrow> enabled_run es s \<Longrightarrow> \<exists>s'. rpc_run es s = Some s' \<and> rpc_inv s'"
proof (induction es arbitrary: s)
  case (Cons e es)
  then have e: "enabled_event e s" by simp
  from rpc_event_inv [OF Cons.prems(1) e] obtain s1 where s1: "rpc_step e s = Some s1" "rpc_inv s1" by blast
  with Cons.prems(2) have "enabled_run es s1" by simp
  from Cons.IH [OF s1(2) this] s1(1) show ?case by simp
qed simp

lemma asleep_run:
  "rpc_inv s \<Longrightarrow> sleeps_on s t m \<Longrightarrow> rcv s = RecvEnd \<Longrightarrow> enabled_run es s \<Longrightarrow> rpc_run es s = Some s' \<Longrightarrow> sleeps_on s' t m \<and> rcv s' = RecvEnd"
proof (induction es arbitrary: s)
  case (Cons e es)
  from Cons.prems(1) obtain bs xs H ds D own down where inv: "inv_parts s bs xs H ds D own down" unfolding rpc_inv_def by blast
  have e: "enabled_event e s" using Cons.prems(4) by simp
  from rpc_event_inv [OF Cons.prems(1) e] obtain s1 where s1: "rpc_step e s = Some s1" "rpc_inv s1" by blast
  from asleep_step [OF inv Cons.prems(2,3) e s1(1)] Cons.prems(2,3) have "sleeps_on s1 t m" "rcv s1 = RecvEnd"
    by (simp_all add: asleep_still_def sleeps_on_def)
  from Cons.IH [OF s1(2) this] Cons.prems(4,5) s1(1) show ?case by simp
qed simp

text \<open>
  C16 (rpc_sleepers_stay) Once the receiver has ended, a task that sleeps in \<^verbatim>\<open>rpc_request\<close> sleeps forever, whatever
  happens on the channel: nobody wakes the tasks that wait for responses when the connection is lost.
\<close>

theorem rpc_sleepers_stay:
  assumes "rpc_reach s" and "rcv s = RecvEnd" and "sleeps_on s t m" and "enabled_run es s"
  shows "\<exists>s'. rpc_run es s = Some s' \<and> sleeps_on s' t m"
  using enabled_run_returns [OF rpc_reach_inv [OF assms(1)] assms(4)] asleep_run [OF rpc_reach_inv [OF assms(1)] assms(3,2,4)] by blast


text \<open>
  The receiver takes a buffer before it reads a message, and does not wait for one:
  when all buffers for messages are in use, or no memory is left, its assertion fails, although no message may be
  there to be read.
\<close>

theorem rpc_receiver_no_buffer:
  assumes "rpc_reach s" and "rcv s = RecvNext" and "q_len (qm (msgpool (chan s))) (freelist (bp (msgpool (chan s)))) = Some 0"
    and "owned (bp (msgpool (chan s))) = nmax (bp (msgpool (chan s))) \<or> a = NULL"
  shows "rpc_step (RecvMsg u a) s = None"
proof -
  from reach_parts [OF assms(1)] obtain bs xs H ds D own down where inv: "inv_parts s bs xs H ds D own down" .
  note I = partsD [OF inv]
  have "queue_holds (freelist (bp (msgpool (chan s)))) (qm (msgpool (chan s))) xs" using memD(2) [OF I(1)] by (simp add: pool_ok_def)
  moreover from this assms(3) have "xs = []" by (simp add: queue_holds_def)
  ultimately have "queue_rem (qm (msgpool (chan s))) (freelist (bp (msgpool (chan s)))) = Some (qm (msgpool (chan s)), -1, NULL)"
    by (simp add: queue_rem_empty)
  then have "bufpool_get_pass (msgpool (chan s)) recv_task True a = Some (msgpool (chan s), get_result.Failed)"
    using assms(4) by (auto simp: bufpool_get_pass_def)
  then show ?thesis using assms(2) memD(4) [OF I(1)] by (simp add: recv_next_def get_buf_def bufpool_get_def received_def)
qed

text \<open>
  \<^verbatim>\<open>rpc_msg_put\<close> of an answered request gives the message, its response and the payloads of
  both back to their pools, once each, and touches no other message.
\<close>

definition payload_count :: "rpc_msg \<Rightarrow> nat" where
  "payload_count M = (if payload M = NULL then 0 else 1)"

theorem rpc_msg_put_frees:
  assumes "rpc_reach s" and "ph s t = Done m" and "msgs (chan s) m = Some M" and "msgs (chan s) (resp M) = Some R"
  shows "\<exists>c'. rpc_msg_put (chan s) m = Some c' \<and> msgs c' = (msgs (chan s))(m := None, resp M := None) \<and>
     unat (issued (bp (msgpool c'))) + 2 = unat (issued (bp (msgpool (chan s)))) \<and>
     unat (issued (bp (datapool c'))) + payload_count M + payload_count R = unat (issued (bp (datapool (chan s))))"
proof -
  from reach_parts [OF assms(1)] obtain bs xs H ds D own down where inv: "inv_parts s bs xs H ds D own down" .
  note I = partsD [OF inv] and O = ownD [OF partsD(4) [OF inv]]
  let ?ms = "msgs (chan s)"
  have a: "free_entry (chan s) (set (concat bs)) m" "resp M \<noteq> NULL" using I(6) [of t] assms(2,3) by (auto simp: answered_def)
  then have mP: "m \<notin> set (concat bs)" by (simp add: free_entry_def)
  have om: "m \<in> H" "own m = Task t" using O(4) [of t m] assms(2) by (simp_all add: msg_of_def)
  have rm: "resp_of ?ms m = Some (resp M)" using assms(3) a(2) by (simp add: resp_of_def)
  have or: "resp M \<in> H" "own (resp M) = Message m" using O(6) [OF rm] by blast+
  have rM: "resp M \<noteq> m" using om or by auto
  have rP: "resp M \<notin> set (concat bs)" using pending_task [OF inv, of "resp M"] or(2) by auto
  have rR: "resp R = NULL" using O(3) [OF rm] assms(4) by (simp add: resp_of_def split: if_splits)
  have pM: "payload M \<noteq> NULL \<Longrightarrow> payload M \<in> D \<and> down (payload M) = Message m" using O(7) [of m "payload M"] assms(3) by (simp add: payload_of_def)
  have pR: "payload R \<noteq> NULL \<Longrightarrow> payload R \<in> D \<and> down (payload R) = Message (resp M)" using O(7) [of "resp M" "payload R"] assms(4) by (simp add: payload_of_def)
  have dif: "payload M \<noteq> NULL \<Longrightarrow> payload R \<noteq> payload M" using pM pR rM by auto
  from put_two [OF I(1) assms(3) mP _ a(2) rM rP assms(4) rR _ _ dif] pM pR obtain c' where
    put: "rpc_msg_put (chan s) m = Some c'" and ok: "put_ok (chan s) c' bs H {m, resp M} D (payload_set ?ms {m, resp M})" by auto
  then obtain ys es where mem: "mem_ok c' bs ys (H - {m, resp M}) es (D - payload_set ?ms {m, resp M})" and ms: "msgs c' = without ?ms {m, resp M}"
    by (auto simp: put_ok_def)
  have fin: "finite H" "finite D" using memD(2,3) [OF I(1)] by (simp_all add: pool_ok_def)
  have "card (H - {m, resp M}) + 2 = card H" using om(1) or(1) rM fin card_mono [OF fin(1), of "{m, resp M}"] by (simp add: card_Diff_subset)
  moreover have "payload_set ?ms {m, resp M} = {b. b \<noteq> NULL \<and> (b = payload M \<or> b = payload R)}"
    using assms(3,4) by (auto simp: payload_set_def payload_of_def split: if_splits)
  then have "card (D - payload_set ?ms {m, resp M}) + payload_count M + payload_count R = card D"
  proof -
    let ?Y = "payload_set ?ms {m, resp M}"
    have Y: "?Y = (if payload M = NULL then {} else {payload M}) \<union> (if payload R = NULL then {} else {payload R})"
      using \<open>?Y = _\<close> by auto
    then have "card ?Y = payload_count M + payload_count R" using dif by (auto simp: payload_count_def)
    moreover have "?Y \<subseteq> D" using Y pM pR by auto
    ultimately show ?thesis using fin(2) card_mono [OF fin(2), of ?Y] by (simp add: card_Diff_subset finite_subset)
  qed
  moreover have "without ?ms {m, resp M} = ?ms(m := None, resp M := None)" by (auto simp: without_def)
  ultimately show ?thesis using put ms memD(2,3) [OF I(1)] memD(2,3) [OF mem] by (auto simp: pool_ok_def)
qed

lemma short_prefix: "x \<in> set ys \<Longrightarrow> \<not> P x \<Longrightarrow> length ys = n \<Longrightarrow> length (takeWhile P ys) < n"
  by (induction ys arbitrary: n) auto

text \<open>
  When the memory runs out while \<^verbatim>\<open>rpc_chan_init\<close> allocates the buffers for messages, it
  does not return an error: \<^verbatim>\<open>rpc_chan_deinit\<close> fails an assertion, as the pool of payloads has not been initialised.
\<close>

theorem rpc_chan_init_nomem:
  assumes "nway < 2 ^ 29" and "i < unat (nway + 1)" and "ma i = NULL"
    and "dlls (qm (msgpool c)) (freelist (bp (msgpool c))) \<noteq> None" and "q_len (qm (msgpool c)) (freelist (bp (msgpool c))) \<noteq> None"
    and "freelist (bp (msgpool c)) \<noteq> NULL" and "good_alloc (msgpool c) ma (unat (nway + 1))" and "state (bp (datapool c)) = UNINITIALIZED"
  shows "rpc_chan_init c t ma da base infd' outfd' nway msgsz datasz hashsz = None"
proof -
  have un: "unat nway < 2 ^ 29" using assms(1) by (simp add: word_less_nat_alt)
  then have u1: "unat (nway + 1) = unat nway + 1" "unat ((nway + 1) * 3) = (unat nway + 1) * 3" by (simp_all add: unat_word_ariths)
  then have pos: "0 < nway + 1" "nway + 1 \<le> (nway + 1) * 3" by (simp_all add: word_less_nat_alt word_le_nat_alt)
  from bufpool_init_ok [OF pos assms(4-7), of "msgsz + msg_gap"] obtain p xs where p:
    "bufpool_init ma (msgpool c) (msgsz + msg_gap) (nway + 1) ((nway + 1) * 3) = Some (p, of_nat (length xs))" "pool_ok p xs {}"
    "xs = takeWhile (\<lambda>a. a \<noteq> NULL) (map ma [0..<unat (nway + 1)])" "state (bp p) = INITIALIZED" by blast
  have "length xs < unat (nway + 1)" unfolding p(3)
  proof (rule short_prefix)
    show "NULL \<in> set (map ma [0..<unat (nway + 1)])" using assms(2,3) by force
  qed simp_all
  have short: "scast (of_nat (length xs) :: u32) \<noteq> nway + 1"
  proof
    assume e: "scast (of_nat (length xs) :: u32) = nway + 1"
    have "ucast (scast x :: u64) = x" for x :: u32 by (rule bit_eqI) (simp add: bit_simps)
    then have "of_nat (length xs) = (ucast (nway + 1) :: u32)" using e by metis
    from arg_cong [OF this, of unat] have "length xs mod 2 ^ 32 = (unat nway + 1) mod 2 ^ 32"
      unfolding unat_ucast_16 u1(1) by (simp add: unsigned_of_nat take_bit_eq_mod)
    then show False using \<open>length xs < unat (nway + 1)\<close> un u1(1) by simp
  qed
  have i0: "issued (bp p) = 0" using p(2) by (simp add: pool_ok_def word_unat_eq_iff)
  have "rpc_chan_deinit (c\<lparr>infd := 0, outfd := 0, chan_enabled := False, next_seqid := 0, fdlock := \<lparr>owner = 0, qwaiting = []\<rparr>, msgpool := p\<rparr>) t = None"
    using p(4) i0 assms(8) by (auto simp: rpc_chan_deinit_def bufpool_deinit_start_def split: Option.bind_split)
  then show ?thesis using p(1) short
    by (cases "sizeof_msghdr \<le> msgsz \<and> msgsz \<le> 65535") (simp_all add: rpc_chan_init_def Let_def c_assert_fails)
qed

section \<open>Examples\<close>

definition run_to :: "rpc_event list \<Rightarrow> rpc_sys" where
  "run_to es = the (rpc_run es demo_start)"

lemma run_to_start: "rpc_run [] demo_start = Some (run_to []) \<and> rpc_reach (run_to [])"
  using rpc_reach.start [OF demo_initial] by (simp add: run_to_def)

lemma run_to_step:
  assumes "rpc_run es demo_start = Some (run_to es) \<and> rpc_reach (run_to es)" and e: "enabled_event e (run_to es)" and es': "es' = es @ [e]"
  shows "rpc_run es' demo_start = Some (run_to es') \<and> rpc_reach (run_to es')"
proof -
  from assms(1) have r: "rpc_reach (run_to es)" by blast
  from rpc_event_inv [OF rpc_reach_inv [OF r] e] obtain s' where s': "rpc_step e (run_to es) = Some s'" by blast
  then have "rpc_run es' demo_start = Some s'" using assms(1) es' by (simp add: run_snoc)
  then show ?thesis using rpc_reach.event [OF r e s'] by (simp add: run_to_def)
qed

definition req_hdr :: rpc_msghdr where
  "req_hdr = \<lparr>seqid = 7, msgtype = 81, msglen = 12, payloadlen = 0, status = 0\<rparr>"

text \<open>Two requests of the peer, and no more buffers; a request that cannot be written; a connection that is lost.\<close>

definition two_requests :: "rpc_event list" where
  "two_requests = [RecvMsg 3 0, RecvHdr 3 0 req_hdr 0, RecvMsg 4 0, RecvHdr 4 0 req_hdr 0]"

definition failed_write :: "rpc_event list" where
  "failed_write = [GetMsg 2 5 20 0 0, Request 2, HeaderWritten 2 5, ChanClosed 2]"

definition lost_connection :: "rpc_event list" where
  "lost_connection = [GetMsg 2 5 20 0 0, Request 2, HeaderWritten 2 0, RecvMsg 3 0, RecvHdr 3 5 req_hdr 0]"

lemma two_requests_facts:
  "rcv (run_to []) = RecvNext" "map_option snd (get_buf False (msgpool (chan (run_to []))) recv_task True 0) = Some (Got 200)" "ph (run_to []) 3 = Idle"
  "rcv (run_to (take 1 two_requests)) = RecvHeader 200" "ph (run_to (take 1 two_requests)) 3 = Idle" "bufsize (bp (msgpool (chan (run_to (take 1 two_requests))))) = 172"
  "rcv (run_to (take 2 two_requests)) = RecvNext" "map_option snd (get_buf False (msgpool (chan (run_to (take 2 two_requests)))) recv_task True 0) = Some (Got 201)" "ph (run_to (take 2 two_requests)) 4 = Idle"
  "rcv (run_to (take 3 two_requests)) = RecvHeader 201" "ph (run_to (take 3 two_requests)) 4 = Idle" "bufsize (bp (msgpool (chan (run_to (take 3 two_requests))))) = 172"
  "rcv (run_to (take 4 two_requests)) = RecvNext" "q_len (qm (msgpool (chan (run_to (take 4 two_requests))))) (freelist (bp (msgpool (chan (run_to (take 4 two_requests)))))) = Some 0"
  by code_simp+

lemma two_requests_reach: "rpc_reach (run_to (take 1 two_requests))" "rpc_reach (run_to two_requests)"
proof -
  note F = two_requests_facts and E = idle_client_def client_def recv_task_def new_msg_def new_data_def
  have h: "honest s (zero_msg\<lparr>hdr := req_hdr\<rparr>)" for s by (simp add: honest_def RPC_ISREQ_def req_hdr_def)
  have g: "good_header c req_hdr" if "bufsize (bp (msgpool c)) = 172" for c using that by (simp add: good_header_def req_hdr_def sizeof_msghdr_def msg_gap_def)
  have 1: "rpc_run (take 1 two_requests) demo_start = Some (run_to (take 1 two_requests)) \<and> rpc_reach (run_to (take 1 two_requests))"
    by (rule run_to_step [OF run_to_start, of "RecvMsg 3 0"]) (use F(1-3) in \<open>auto simp: E two_requests_def\<close>)
  have 2: "rpc_run (take 2 two_requests) demo_start = Some (run_to (take 2 two_requests)) \<and> rpc_reach (run_to (take 2 two_requests))"
    by (rule run_to_step [OF 1, of "RecvHdr 3 0 req_hdr 0"]) (use F(4,5) g [OF F(6)] h in \<open>auto simp: E two_requests_def\<close>)
  have 3: "rpc_run (take 3 two_requests) demo_start = Some (run_to (take 3 two_requests)) \<and> rpc_reach (run_to (take 3 two_requests))"
    by (rule run_to_step [OF 2, of "RecvMsg 4 0"]) (use F(7-9) in \<open>auto simp: E two_requests_def\<close>)
  have "rpc_run (take 4 two_requests) demo_start = Some (run_to (take 4 two_requests)) \<and> rpc_reach (run_to (take 4 two_requests))"
    by (rule run_to_step [OF 3, of "RecvHdr 4 0 req_hdr 0"]) (use F(10,11) g [OF F(12)] h in \<open>auto simp: E two_requests_def\<close>)
  then show "rpc_reach (run_to two_requests)" by (simp add: two_requests_def)
  show "rpc_reach (run_to (take 1 two_requests))" using 1 by blast
qed

theorem rpc_receiver_no_buffer_witness: "rpc_step (RecvMsg 5 0) (run_to two_requests) = None"
  using rpc_receiver_no_buffer [OF two_requests_reach(2), of 0 5] two_requests_facts(13,14) by (simp add: two_requests_def)


lemma one_request_facts:
  "ph (run_to []) 2 = Idle" "ph (run_to (take 1 failed_write)) 2 = Owns 200" "ph (run_to (take 2 failed_write)) 2 = Sending 200"
  "ph (run_to (take 3 failed_write)) 2 = Closing 200" "ph (run_to failed_write) 2 = Failed 200"
  "rcv (run_to (take 3 lost_connection)) = RecvNext" "map_option snd (get_buf False (msgpool (chan (run_to (take 3 lost_connection)))) recv_task True 0) = Some (Got 201)"
  "ph (run_to (take 3 lost_connection)) 3 = Idle" "rcv (run_to (take 4 lost_connection)) = RecvHeader 201" "ph (run_to (take 4 lost_connection)) 3 = Idle"
  "rcv (run_to lost_connection) = RecvEnd" "ph (run_to lost_connection) 2 = Asleep 200"
  "map_option (\<lambda>M. rz_waiting (rendez M)) (msgs (chan (run_to lost_connection)) 200) = Some [2]"
  by code_simp+

lemma one_request_reach: "rpc_reach (run_to failed_write)" "rpc_reach (run_to lost_connection)"
proof -
  note F = one_request_facts and E = idle_client_def client_def recv_task_def new_msg_def new_data_def
  have "run_to [] = demo_start" by (simp add: run_to_def)
  then have "new_seqid (run_to [])" by (simp add: new_seqid_def demo_start_def)
  then have 1: "rpc_run (take 1 failed_write) demo_start = Some (run_to (take 1 failed_write)) \<and> rpc_reach (run_to (take 1 failed_write))"
    by (intro run_to_step [OF run_to_start, of "GetMsg 2 5 20 0 0"]) (use F(1) in \<open>auto simp: E sizeof_msghdr_def failed_write_def\<close>)
  have 2: "rpc_run (take 2 failed_write) demo_start = Some (run_to (take 2 failed_write)) \<and> rpc_reach (run_to (take 2 failed_write))"
    by (rule run_to_step [OF 1, of "Request 2"]) (use F(2) in \<open>auto simp: failed_write_def\<close>)
  have 3: "rpc_run (take 3 failed_write) demo_start = Some (run_to (take 3 failed_write)) \<and> rpc_reach (run_to (take 3 failed_write))"
    by (rule run_to_step [OF 2, of "HeaderWritten 2 5"]) (use F(3) in \<open>auto simp: failed_write_def\<close>)
  have "rpc_run failed_write demo_start = Some (run_to failed_write) \<and> rpc_reach (run_to failed_write)"
    by (rule run_to_step [OF 3, of "ChanClosed 2"]) (use F(4) in \<open>auto simp: failed_write_def\<close>)
  then show "rpc_reach (run_to failed_write)" by blast
  have 3: "rpc_run (take 3 lost_connection) demo_start = Some (run_to (take 3 lost_connection)) \<and> rpc_reach (run_to (take 3 lost_connection))"
    by (rule run_to_step [OF 2, of "HeaderWritten 2 0"]) (use F(3) in \<open>auto simp: failed_write_def lost_connection_def\<close>)
  have 4: "rpc_run (take 4 lost_connection) demo_start = Some (run_to (take 4 lost_connection)) \<and> rpc_reach (run_to (take 4 lost_connection))"
    by (rule run_to_step [OF 3, of "RecvMsg 3 0"]) (use F(6-8) in \<open>auto simp: E lost_connection_def\<close>)
  have "rpc_run lost_connection demo_start = Some (run_to lost_connection) \<and> rpc_reach (run_to lost_connection)"
    by (rule run_to_step [OF 4, of "RecvHdr 3 5 req_hdr 0"]) (use F(9,10) in \<open>auto simp: E lost_connection_def\<close>)
  then show "rpc_reach (run_to lost_connection)" by blast
qed

theorem rpc_failed_request_linked_witness:
  "\<exists>c' p n. rpc_msg_put (chan (run_to failed_write)) 200 = Some c' \<and> hdlls (hash c') p = Some n \<and> dll_next n = 200 \<and> msgs c' 200 = None"
  using rpc_failed_request_linked [OF one_request_reach(1) one_request_facts(5)] by blast

theorem rpc_sleepers_stay_witness: "\<exists>s'. rpc_run [DefaultHandler 3] (run_to lost_connection) = Some s' \<and> sleeps_on s' 2 200"
proof (rule rpc_sleepers_stay [OF one_request_reach(2) one_request_facts(11)])
  show "sleeps_on (run_to lost_connection) 2 200" using one_request_facts(12,13) by (simp add: sleeps_on_def)
  have "ph (run_to lost_connection) 3 = Handling 201 \<and> map_option RPC_IS_CONNCLOSED (msgs (chan (run_to lost_connection)) 201) = Some True" by code_simp
  then show "enabled_run [DefaultHandler 3] (run_to lost_connection)" by auto
qed

lemma recv_next_pending:
  assumes "recv_next c t a = Some (c', r, d)" and "r \<noteq> RecvEnd"
  shows "d = Pending"
proof -
  from assms(1) obtain p b where g: "get_buf False (msgpool c) t True a = Some (p, b)" by (auto simp: recv_next_def bind_eq_Some_conv)
  then show ?thesis using assms by (cases b) (auto simp: recv_next_def recv_error_def bind_eq_Some_conv Let_def split: if_splits)
qed

lemma recv_msg_tasks:
  assumes "rpc_step (RecvMsg u a) s = Some s'" and "rcv s = RecvNext" and "rcv s' \<noteq> RecvEnd"
  shows "ph s' = ph s"
proof -
  from assms(1,2) obtain c r d where n: "recv_next (chan s) recv_task a = Some (c, r, d)" "received s u (Some (c, r, d)) = Some s'"
    by (cases "recv_next (chan s) recv_task a") (auto simp: received_def)
  have "rcv s' = r" using n(2) by (auto simp: received_def set_phase_def Let_def split: delivery.splits)
  with recv_next_pending [OF n(1)] assms(3) have "d = Pending" by simp
  with n(2) show ?thesis by (auto simp: received_other)
qed

theorem rpc_orphan_response_witness: "rpc_response_in (chan (run_to (take 1 two_requests))) 200 = None"
proof -
  let ?s = "run_to (take 1 two_requests)"
  have "map_option rcv (rpc_step (RecvMsg 3 0) (run_to [])) = Some (RecvHeader 200)" by code_simp
  then obtain s' where s': "rpc_step (RecvMsg 3 0) (run_to []) = Some s'" "rcv s' = RecvHeader 200" by auto
  moreover from this have "?s = s'" by (simp add: run_to_def two_requests_def)
  ultimately have "ph ?s = ph (run_to [])" using recv_msg_tasks [of 3 0 "run_to []" s'] two_requests_facts(1) by simp
  then have idle: "ph ?s = (\<lambda>_. Idle)" by (simp add: run_to_def demo_start_def)
  have "msgs (chan ?s) 200 \<noteq> None" by code_simp
  then obtain R where "msgs (chan ?s) 200 = Some R" by blast
  with rpc_orphan_response [OF two_requests_reach(1) this] idle show ?thesis by simp
qed

theorem rpc_response_disabled_witness: "response_start demo_chan 3 200 = None"
  using rpc_response_disabled [of demo_chan 3 200] by (simp add: demo_chan_def)

theorem rpc_default_handler_payload_witness:
  "rpc_default_handler (demo_chan\<lparr>msgs := [200 \<mapsto> zero_msg\<lparr>payload := 300, hdr := \<lparr>seqid = 7, msgtype = 81, msglen = 12, payloadlen = 16, status = 0\<rparr>\<rparr>]\<rparr>) 3 200 = None"
  by (rule rpc_default_handler_payload [where M = "zero_msg\<lparr>payload := 300, hdr := \<lparr>seqid = 7, msgtype = 81, msglen = 12, payloadlen = 16, status = 0\<rparr>\<rparr>"])
    (simp_all add: RPC_IS_CONNCLOSED_def)

theorem rpc_msg_put_frees_witness:
  "\<exists>c'. rpc_msg_put (chan (demo 6)) 200 = Some c' \<and> unat (issued (bp (msgpool c'))) = 0"
proof -
  have "map_option resp (msgs (chan (demo 6)) 200) = Some 201 \<and> msgs (chan (demo 6)) 201 \<noteq> None \<and> issued (bp (msgpool (chan (demo 6)))) = 2" by code_simp
  then obtain M R where "msgs (chan (demo 6)) 200 = Some M" "resp M = 201" "msgs (chan (demo 6)) 201 = Some R" "issued (bp (msgpool (chan (demo 6)))) = 2" by auto
  with rpc_msg_put_frees [OF demo_reach(7) demo_phases(7), of M R] show ?thesis by auto
qed

theorem rpc_chan_init_nomem_witness:
  "rpc_chan_init demo_chan 9 (\<lambda>i. if i = 1 then 0 else 200 + i) (\<lambda>i. 300 + i) 50 3 4 1 100 16 4 = None"
  by (rule rpc_chan_init_nomem [where i = 1]) (auto simp: demo_chan_def demo_pool_def good_alloc_def)

end
