(* ===== verification/Channel.thy ===== *)
theory Channel
  imports Prelude
begin

text \<open>
  The channels of \<^verbatim>\<open>libtask\<close> (\<^verbatim>\<open>iosplitter/libtask/channel.c\<close>): tasks send and receive elements over buffered and
  unbuffered channels, and \<^verbatim>\<open>chanalt\<close> waits for the first of several such operations that can be done.
  An alternative is a struct in an array of the task; while the task waits, the channels point to it.
  \<^verbatim>\<open>rand\<close> returns a number, which is an argument.
\<close>

section \<open>Data\<close>

datatype altop = CHANEND | CHANSND | CHANRCV | CHANNOP | CHANNOBLK

record Alt =
  a_chan :: addr
  a_v :: addr
  a_op :: altop
  a_task :: nat
  a_xalt :: addr

text \<open>The elements \<^verbatim>\<open>a[0]\<close> to \<^verbatim>\<open>a[n - 1]\<close> of the array, and \<^verbatim>\<open>m\<close>.\<close>

record Altarray =
  entries :: "addr list"
  acap :: nat

record Channel =
  c_bufsize :: u32
  c_elemsize :: u32
  c_buf :: "8 word list list"
  c_nbuf :: u32
  c_off :: u32
  asend :: Altarray
  arecv :: Altarray

text \<open>The memory: channels, alternatives, and the elements that alternatives point to.\<close>

record chan_mem =
  chans :: "addr \<rightharpoonup> Channel"
  alts :: "addr \<rightharpoonup> Alt"
  cells :: "addr \<rightharpoonup> 8 word list"

definition on_chan :: "chan_mem \<Rightarrow> addr \<Rightarrow> (Channel \<Rightarrow> Channel) \<Rightarrow> chan_mem option" where
  "on_chan s c f = do { h \<leftarrow> store (chans s) c f; Some (s\<lparr>chans := h\<rparr>) }"

definition on_alt :: "chan_mem \<Rightarrow> addr \<Rightarrow> (Alt \<Rightarrow> Alt) \<Rightarrow> chan_mem option" where
  "on_alt s a f = do { h \<leftarrow> store (alts s) a f; Some (s\<lparr>alts := h\<rparr>) }"

section \<open>Channels and arrays\<close>

text \<open>\<open>mem\<close> is the result of \<^verbatim>\<open>malloc\<close>, and \<open>junk\<close> what the buffer holds then; without memory the program ends.\<close>

definition chancreate :: "chan_mem \<Rightarrow> addr \<Rightarrow> 8 word list list \<Rightarrow> 32 word \<Rightarrow> 32 word \<Rightarrow> (chan_mem \<times> addr) option" where
  "chancreate s mem junk elemsize bufsize = do {
     c_assert (mem \<noteq> NULL);
     Some (s\<lparr>chans := (chans s)(mem \<mapsto> \<lparr>c_bufsize = bufsize, c_elemsize = elemsize, c_buf = junk, c_nbuf = 0, c_off = 0,
       asend = \<lparr>entries = [], acap = 0\<rparr>, arecv = \<lparr>entries = [], acap = 0\<rparr>\<rparr>)\<rparr>, mem)
   }"

definition chanfree :: "chan_mem \<Rightarrow> addr \<Rightarrow> chan_mem option" where
  "chanfree s c = (if c = NULL then Some s else do {
     C \<leftarrow> chans s c;
     Some (s\<lparr>chans := (chans s)(c := None)\<rparr>)
   })"

definition addarray :: "Altarray \<Rightarrow> addr \<Rightarrow> Altarray" where
  "addarray a x = \<lparr>entries = entries a @ [x], acap = (if length (entries a) = acap a then acap a + 16 else acap a)\<rparr>"

definition delarray :: "Altarray \<Rightarrow> nat \<Rightarrow> Altarray" where
  "delarray a i = a\<lparr>entries := butlast ((entries a)[i := last (entries a)])\<rparr>"

fun otherop :: "altop \<Rightarrow> altop option" where
  "otherop CHANSND = Some CHANRCV"
| "otherop CHANRCV = Some CHANSND"
| "otherop CHANEND = Some CHANNOP"
| "otherop CHANNOP = Some CHANEND"
| "otherop CHANNOBLK = None"

text \<open>The array for an operation, as a pair of what is read and how it is written.\<close>

fun chanarray :: "Channel \<Rightarrow> altop option \<Rightarrow> Altarray option" where
  "chanarray C (Some CHANSND) = Some (asend C)"
| "chanarray C (Some CHANRCV) = Some (arecv C)"
| "chanarray C op = None"

fun set_array :: "altop \<Rightarrow> Altarray \<Rightarrow> Channel \<Rightarrow> Channel" where
  "set_array CHANSND a C = C\<lparr>asend := a\<rparr>"
| "set_array CHANRCV a C = C\<lparr>arecv := a\<rparr>"
| "set_array op a C = C"

definition altcanexec :: "chan_mem \<Rightarrow> addr \<Rightarrow> bool option" where
  "altcanexec s a = do {
     A \<leftarrow> alts s a;
     if a_op A = CHANNOP then Some False
     else do {
       C \<leftarrow> chans s (a_chan A);
       Some (if c_bufsize C = 0 then
               (case chanarray C (otherop (a_op A)) of None \<Rightarrow> False | Some ar \<Rightarrow> entries ar \<noteq> [])
             else (case a_op A of
               CHANSND \<Rightarrow> c_nbuf C < c_bufsize C
             | CHANRCV \<Rightarrow> 0 < c_nbuf C
             | _ \<Rightarrow> False))
     }
   }"

definition altqueue :: "chan_mem \<Rightarrow> addr \<Rightarrow> chan_mem option" where
  "altqueue s a = do {
     A \<leftarrow> alts s a;
     C \<leftarrow> chans s (a_chan A);
     ar \<leftarrow> chanarray C (Some (a_op A));
     on_chan s (a_chan A) (set_array (a_op A) (addarray ar a))
   }"

text \<open>The loop of \<^verbatim>\<open>altdequeue\<close>; it aborts when the alternative is not found.\<close>

function find_alt :: "addr list \<Rightarrow> addr \<Rightarrow> nat \<Rightarrow> nat option" where
  "find_alt xs a i = (if i < length xs then if xs ! i = a then Some i else find_alt xs a (i + 1) else None)"
  by pat_completeness auto

termination find_alt by (relation "measure (\<lambda>(xs, a, i). length xs - i)") auto

declare find_alt.simps [simp del]

definition altdequeue :: "chan_mem \<Rightarrow> addr \<Rightarrow> chan_mem option" where
  "altdequeue s a = do {
     A \<leftarrow> alts s a;
     C \<leftarrow> chans s (a_chan A);
     ar \<leftarrow> chanarray C (Some (a_op A));
     i \<leftarrow> find_alt (entries ar) a 0;
     on_chan s (a_chan A) (set_array (a_op A) (delarray ar i))
   }"

partial_function (option) altalldequeue :: "chan_mem \<Rightarrow> addr \<Rightarrow> chan_mem option" where
  "altalldequeue s a = do {
     A \<leftarrow> alts s a;
     if a_op A = CHANEND \<or> a_op A = CHANNOBLK then Some s
     else do {
       s \<leftarrow> (if a_op A \<noteq> CHANNOP then altdequeue s a else Some s);
       altalldequeue s (a + 1)
     }
   }"

declare altalldequeue.simps [code]

section \<open>Moving data\<close>

text \<open>\<^verbatim>\<open>amove\<close> of \<open>n\<close> bytes; both pieces of memory must be as long.\<close>

definition amove :: "8 word list \<Rightarrow> 8 word list option \<Rightarrow> nat \<Rightarrow> 8 word list option" where
  "amove dst src n = do {
     c_assert (n \<le> length dst);
     case src of
       None \<Rightarrow> Some (replicate n 0 @ drop n dst)
     | Some bs \<Rightarrow> do { c_assert (n \<le> length bs); Some (take n bs @ drop n dst) }
   }"

text \<open>The element that a pointer of an alternative points to; null stands for no element.\<close>

definition source :: "chan_mem \<Rightarrow> addr \<Rightarrow> 8 word list option option" where
  "source s v = (if v = NULL then Some None else do { bs \<leftarrow> cells s v; Some (Some bs) })"

definition put_cell :: "chan_mem \<Rightarrow> addr \<Rightarrow> 8 word list option \<Rightarrow> nat \<Rightarrow> chan_mem option" where
  "put_cell s v src n = (if v = NULL then Some s else do {
     bs \<leftarrow> cells s v;
     bs \<leftarrow> amove bs src n;
     Some (s\<lparr>cells := (cells s)(v \<mapsto> bs)\<rparr>)
   })"

text \<open>An element leaves the buffer for \<open>v\<close>, and one is put into it.\<close>

definition buf_recv :: "chan_mem \<Rightarrow> addr \<Rightarrow> addr \<Rightarrow> chan_mem option" where
  "buf_recv s c v = do {
     C \<leftarrow> chans s c;
     c_assert (unat (c_off C) < length (c_buf C));
     s \<leftarrow> put_cell s v (Some (c_buf C ! unat (c_off C))) (unat (c_elemsize C));
     let off = c_off C + 1;
     on_chan s c (\<lambda>C. C\<lparr>c_nbuf := c_nbuf C - 1, c_off := if off = c_bufsize C then 0 else off\<rparr>)
   }"

definition buf_send :: "chan_mem \<Rightarrow> addr \<Rightarrow> addr \<Rightarrow> chan_mem option" where
  "buf_send s c v = do {
     C \<leftarrow> chans s c;
     c_assert (c_bufsize C \<noteq> 0);
     let i = unat ((c_off C + c_nbuf C) mod c_bufsize C);
     c_assert (i < length (c_buf C));
     src \<leftarrow> source s v;
     bs \<leftarrow> amove (c_buf C ! i) src (unat (c_elemsize C));
     on_chan s c (\<lambda>C. C\<lparr>c_buf := (c_buf C)[i := bs], c_nbuf := c_nbuf C + 1\<rparr>)
   }"

definition has_op :: "chan_mem \<Rightarrow> addr \<Rightarrow> altop \<Rightarrow> unit option" where
  "has_op s a op = (if a = NULL then Some () else do { A \<leftarrow> alts s a; c_assert (a_op A = op) })"

text \<open>\<^verbatim>\<open>altcopy\<close> once it is known who sends and who receives; and from the start.\<close>

definition altmove :: "chan_mem \<Rightarrow> addr \<Rightarrow> addr \<Rightarrow> addr \<Rightarrow> chan_mem option" where
  "altmove s c sx rx = do {
     C \<leftarrow> chans s c;
     if sx \<noteq> NULL \<and> rx \<noteq> NULL \<and> c_nbuf C = 0 then do {
       S \<leftarrow> alts s sx;
       R \<leftarrow> alts s rx;
       src \<leftarrow> source s (a_v S);
       put_cell s (a_v R) src (unat (c_elemsize C))
     } else do {
       s \<leftarrow> (if rx \<noteq> NULL then do { R \<leftarrow> alts s rx; buf_recv s c (a_v R) } else Some s);
       if sx \<noteq> NULL then do { S \<leftarrow> alts s sx; buf_send s c (a_v S) } else Some s
     }
   }"

definition altcopy :: "chan_mem \<Rightarrow> addr \<Rightarrow> addr \<Rightarrow> chan_mem option" where
  "altcopy s x y =
     (if x = NULL \<and> y = NULL then Some s
      else do {
        c_assert (x \<noteq> NULL);
        A \<leftarrow> alts s x;
        let (sx, rx) = (if a_op A = CHANRCV then (y, x) else (x, y));
        has_op s sx CHANSND;
        has_op s rx CHANRCV;
        altmove s (a_chan A) sx rx
      })"

text \<open>The result of \<^verbatim>\<open>altexec\<close> is the task that is made ready.\<close>

definition altexec :: "chan_mem \<Rightarrow> addr \<Rightarrow> nat \<Rightarrow> (chan_mem \<times> nat option) option" where
  "altexec s a r = do {
     A \<leftarrow> alts s a;
     C \<leftarrow> chans s (a_chan A);
     let ar = (case chanarray C (otherop (a_op A)) of None \<Rightarrow> [] | Some ar \<Rightarrow> entries ar);
     if ar \<noteq> [] then do {
       let other = ar ! (r mod length ar);
       s \<leftarrow> altcopy s a other;
       B \<leftarrow> alts s other;
       s \<leftarrow> altalldequeue s (a_xalt B);
       s \<leftarrow> on_alt s (a_xalt B) (\<lambda>X. X\<lparr>a_xalt := other\<rparr>);
       Some (s, Some (a_task B))
     } else do {
       s \<leftarrow> altcopy s a NULL;
       Some (s, None)
     }
   }"

section \<open>Alternatives\<close>

text \<open>The loops of \<^verbatim>\<open>chanalt\<close>: counting, marking, looking, choosing and queueing.\<close>

partial_function (option) alt_len :: "chan_mem \<Rightarrow> addr \<Rightarrow> nat \<Rightarrow> nat option" where
  "alt_len s a i = do {
     A \<leftarrow> alts s (a + i);
     if a_op A \<noteq> CHANEND \<and> a_op A \<noteq> CHANNOBLK then alt_len s a (i + 1) else Some i
   }"

declare alt_len.simps [code]

primrec alt_mark :: "chan_mem \<Rightarrow> nat \<Rightarrow> addr \<Rightarrow> addr list \<Rightarrow> chan_mem option" where
  "alt_mark s t a [] = Some s"
| "alt_mark s t a (x # xs) = do {
     s \<leftarrow> on_alt s x (\<lambda>X. X\<lparr>a_task := t, a_xalt := a\<rparr>);
     alt_mark s t a xs
   }"

primrec alt_count :: "chan_mem \<Rightarrow> addr list \<Rightarrow> nat option" where
  "alt_count s [] = Some 0"
| "alt_count s (x # xs) = do {
     can \<leftarrow> altcanexec s x;
     n \<leftarrow> alt_count s xs;
     Some (if can then n + 1 else n)
   }"

primrec alt_pick :: "chan_mem \<Rightarrow> addr list \<Rightarrow> nat \<Rightarrow> addr option option" where
  "alt_pick s [] j = Some None"
| "alt_pick s (x # xs) j = do {
     can \<leftarrow> altcanexec s x;
     if can then if j = 0 then Some (Some x) else alt_pick s xs (j - 1)
     else alt_pick s xs j
   }"

primrec alt_queue_all :: "chan_mem \<Rightarrow> addr list \<Rightarrow> chan_mem option" where
  "alt_queue_all s [] = Some s"
| "alt_queue_all s (x # xs) = do {
     A \<leftarrow> alts s x;
     s \<leftarrow> (if a_op A \<noteq> CHANNOP then altqueue s x else Some s);
     alt_queue_all s xs
   }"

text \<open>
  \<^verbatim>\<open>chanalt\<close> up to \<^verbatim>\<open>taskswitch\<close>: it returns the number of the alternative that has been done (and which task
  has been made ready), returns -1, or the task is switched.
\<close>

datatype alt_result = Ran nat "nat option" | NotReady | Switched

definition chanalt :: "chan_mem \<Rightarrow> nat \<Rightarrow> addr \<Rightarrow> nat \<Rightarrow> nat \<Rightarrow> (chan_mem \<times> alt_result) option" where
  "chanalt s t a r1 r2 = do {
     n \<leftarrow> alt_len s a 0;
     E \<leftarrow> alts s (a + n);
     let canblock = (a_op E = CHANEND);
     let xs = map (\<lambda>i. a + i) [0..<n];
     s \<leftarrow> alt_mark s t a xs;
     ncan \<leftarrow> alt_count s xs;
     picked \<leftarrow> (if ncan \<noteq> 0 then alt_pick s xs (r1 mod ncan) else Some None);
     case picked of
       Some x \<Rightarrow> do {
         (s, woken) \<leftarrow> altexec s x r2;
         Some (s, Ran (x - a) woken)
       }
     | None \<Rightarrow>
         if \<not> canblock then Some (s, NotReady)
         else do {
           s \<leftarrow> alt_queue_all s xs;
           Some (s, Switched)
         }
   }"

text \<open>The task runs again.\<close>

definition chanalt_resume :: "chan_mem \<Rightarrow> addr \<Rightarrow> nat option" where
  "chanalt_resume s a = do { A \<leftarrow> alts s a; Some (a_xalt A - a) }"

text \<open>
  \<^verbatim>\<open>_chanop\<close> with its array on the stack at \<open>a\<close>; the functions for single operations only differ in the
  operation, in whether they block, and in where the element is.
\<close>

definition chanop_array :: "chan_mem \<Rightarrow> addr \<Rightarrow> addr \<Rightarrow> altop \<Rightarrow> addr \<Rightarrow> bool \<Rightarrow> chan_mem" where
  "chanop_array s a c op v canblock = s\<lparr>alts := (alts s)
     (a \<mapsto> \<lparr>a_chan = c, a_v = v, a_op = op, a_task = 0, a_xalt = 0\<rparr>,
      a + 1 \<mapsto> \<lparr>a_chan = 0, a_v = 0, a_op = if canblock then CHANEND else CHANNOBLK, a_task = 0, a_xalt = 0\<rparr>)\<rparr>"

definition chanop :: "chan_mem \<Rightarrow> nat \<Rightarrow> addr \<Rightarrow> addr \<Rightarrow> altop \<Rightarrow> addr \<Rightarrow> bool \<Rightarrow> nat \<Rightarrow> nat \<Rightarrow> (chan_mem \<times> alt_result) option" where
  "chanop s t a c op v canblock r1 r2 = chanalt (chanop_array s a c op v canblock) t a r1 r2"

definition chanop_result :: "alt_result \<Rightarrow> int option" where
  "chanop_result r = (case r of Ran i w \<Rightarrow> Some 1 | NotReady \<Rightarrow> Some (-1) | Switched \<Rightarrow> None)"

definition chansend :: "chan_mem \<Rightarrow> nat \<Rightarrow> addr \<Rightarrow> addr \<Rightarrow> addr \<Rightarrow> nat \<Rightarrow> nat \<Rightarrow> (chan_mem \<times> alt_result) option" where
  "chansend s t a c v r1 r2 = chanop s t a c CHANSND v True r1 r2"

definition channbsend :: "chan_mem \<Rightarrow> nat \<Rightarrow> addr \<Rightarrow> addr \<Rightarrow> addr \<Rightarrow> nat \<Rightarrow> nat \<Rightarrow> (chan_mem \<times> alt_result) option" where
  "channbsend s t a c v r1 r2 = chanop s t a c CHANSND v False r1 r2"

definition chanrecv :: "chan_mem \<Rightarrow> nat \<Rightarrow> addr \<Rightarrow> addr \<Rightarrow> addr \<Rightarrow> nat \<Rightarrow> nat \<Rightarrow> (chan_mem \<times> alt_result) option" where
  "chanrecv s t a c v r1 r2 = chanop s t a c CHANRCV v True r1 r2"

definition channbrecv :: "chan_mem \<Rightarrow> nat \<Rightarrow> addr \<Rightarrow> addr \<Rightarrow> addr \<Rightarrow> nat \<Rightarrow> nat \<Rightarrow> (chan_mem \<times> alt_result) option" where
  "channbrecv s t a c v r1 r2 = chanop s t a c CHANRCV v False r1 r2"


text \<open>
  The functions for pointers and numbers send the argument, which is at \<open>p\<close>, and receive into a variable at
  \<open>p\<close>, which holds \<open>junk\<close> before; they return what it holds then.
\<close>

definition with_local :: "chan_mem \<Rightarrow> addr \<Rightarrow> 8 word list \<Rightarrow> chan_mem" where
  "with_local s p bs = s\<lparr>cells := (cells s)(p \<mapsto> bs)\<rparr>"

definition chansendp :: "chan_mem \<Rightarrow> nat \<Rightarrow> addr \<Rightarrow> addr \<Rightarrow> addr \<Rightarrow> 8 word list \<Rightarrow> nat \<Rightarrow> nat \<Rightarrow> (chan_mem \<times> alt_result) option" where
  "chansendp s t a c p v r1 r2 = chanop (with_local s p v) t a c CHANSND p True r1 r2"

definition channbsendp :: "chan_mem \<Rightarrow> nat \<Rightarrow> addr \<Rightarrow> addr \<Rightarrow> addr \<Rightarrow> 8 word list \<Rightarrow> nat \<Rightarrow> nat \<Rightarrow> (chan_mem \<times> alt_result) option" where
  "channbsendp s t a c p v r1 r2 = chanop (with_local s p v) t a c CHANSND p False r1 r2"

definition chanrecvp :: "chan_mem \<Rightarrow> nat \<Rightarrow> addr \<Rightarrow> addr \<Rightarrow> addr \<Rightarrow> 8 word list \<Rightarrow> nat \<Rightarrow> nat \<Rightarrow> (chan_mem \<times> alt_result \<times> 8 word list) option" where
  "chanrecvp s t a c p junk r1 r2 = do {
     (s, r) \<leftarrow> chanop (with_local s p junk) t a c CHANRCV p True r1 r2;
     v \<leftarrow> cells s p;
     Some (s, r, v)
   }"

definition channbrecvp :: "chan_mem \<Rightarrow> nat \<Rightarrow> addr \<Rightarrow> addr \<Rightarrow> addr \<Rightarrow> 8 word list \<Rightarrow> nat \<Rightarrow> nat \<Rightarrow> (chan_mem \<times> alt_result \<times> 8 word list) option" where
  "channbrecvp s t a c p junk r1 r2 = do {
     (s, r) \<leftarrow> chanop (with_local s p junk) t a c CHANRCV p False r1 r2;
     v \<leftarrow> cells s p;
     Some (s, r, v)
   }"

definition chansendul :: "chan_mem \<Rightarrow> nat \<Rightarrow> addr \<Rightarrow> addr \<Rightarrow> addr \<Rightarrow> 8 word list \<Rightarrow> nat \<Rightarrow> nat \<Rightarrow> (chan_mem \<times> alt_result) option" where
  "chansendul s t a c p val r1 r2 = chanop (with_local s p val) t a c CHANSND p True r1 r2"

definition chanrecvul :: "chan_mem \<Rightarrow> nat \<Rightarrow> addr \<Rightarrow> addr \<Rightarrow> addr \<Rightarrow> 8 word list \<Rightarrow> nat \<Rightarrow> nat \<Rightarrow> (chan_mem \<times> alt_result \<times> 8 word list) option" where
  "chanrecvul s t a c p junk r1 r2 = do {
     (s, r) \<leftarrow> chanop (with_local s p junk) t a c CHANRCV p True r1 r2;
     val \<leftarrow> cells s p;
     Some (s, r, val)
   }"

definition channbsendul :: "chan_mem \<Rightarrow> nat \<Rightarrow> addr \<Rightarrow> addr \<Rightarrow> addr \<Rightarrow> 8 word list \<Rightarrow> nat \<Rightarrow> nat \<Rightarrow> (chan_mem \<times> alt_result) option" where
  "channbsendul s t a c p val r1 r2 = chanop (with_local s p val) t a c CHANSND p False r1 r2"

definition channbrecvul :: "chan_mem \<Rightarrow> nat \<Rightarrow> addr \<Rightarrow> addr \<Rightarrow> addr \<Rightarrow> 8 word list \<Rightarrow> nat \<Rightarrow> nat \<Rightarrow> (chan_mem \<times> alt_result \<times> 8 word list) option" where
  "channbrecvul s t a c p junk r1 r2 = do {
     (s, r) \<leftarrow> chanop (with_local s p junk) t a c CHANRCV p False r1 r2;
     val \<leftarrow> cells s p;
     Some (s, r, val)
   }"

section \<open>The buffer is a queue\<close>

text \<open>The buffer of a channel is sound: the counters are within the buffer, and every element has its size.\<close>

definition ring_ok :: "Channel \<Rightarrow> bool" where
  "ring_ok C \<longleftrightarrow> length (c_buf C) = unat (c_bufsize C) \<and> unat (c_bufsize C) < 2 ^ 31 \<and> c_nbuf C \<le> c_bufsize C \<and>
     (c_bufsize C \<noteq> 0 \<longrightarrow> c_off C < c_bufsize C) \<and> (\<forall>bs \<in> set (c_buf C). length bs = unat (c_elemsize C))"

text \<open>What is in the buffer, oldest element first.\<close>

definition contents :: "Channel \<Rightarrow> 8 word list list" where
  "contents C = map (\<lambda>i. c_buf C ! ((unat (c_off C) + i) mod unat (c_bufsize C))) [0..<unat (c_nbuf C)]"

lemma ring_okD:
  assumes "ring_ok C"
  shows "length (c_buf C) = unat (c_bufsize C)" "unat (c_bufsize C) < 2 ^ 31" "unat (c_nbuf C) \<le> unat (c_bufsize C)"
    "c_bufsize C \<noteq> 0 \<Longrightarrow> unat (c_off C) < unat (c_bufsize C)" "i < unat (c_bufsize C) \<Longrightarrow> length (c_buf C ! i) = unat (c_elemsize C)"
  using assms by (auto simp: ring_ok_def word_le_nat_alt word_less_nat_alt)

lemma length_contents [simp]: "length (contents C) = unat (c_nbuf C)"
  by (simp add: contents_def)

text \<open>The element that alternative pointer \<open>v\<close> provides: zeros when there is none.\<close>

definition elem_at :: "chan_mem \<Rightarrow> addr \<Rightarrow> nat \<Rightarrow> 8 word list" where
  "elem_at s v n = (if v = NULL then replicate n 0 else the (cells s v))"

definition cell_ok :: "chan_mem \<Rightarrow> addr \<Rightarrow> nat \<Rightarrow> bool" where
  "cell_ok s v n \<longleftrightarrow> v = NULL \<or> (\<exists>bs. cells s v = Some bs \<and> length bs = n)"

text \<open>The element is stored where a receiver wants it.\<close>

definition deliver :: "chan_mem \<Rightarrow> addr \<Rightarrow> 8 word list \<Rightarrow> chan_mem" where
  "deliver s v bs = (if v = NULL then s else s\<lparr>cells := (cells s)(v \<mapsto> bs)\<rparr>)"

lemma deliver_fields [simp]: "chans (deliver s v bs) = chans s" "alts (deliver s v bs) = alts s"
  by (simp_all add: deliver_def)

lemma cell_ok_deliver: "length bs = n \<Longrightarrow> cell_ok s v n \<Longrightarrow> cell_ok s w k \<Longrightarrow> cell_ok (deliver s v bs) w k"
  by (auto simp: cell_ok_def deliver_def)

lemma put_cell_some: "cell_ok s v n \<Longrightarrow> length bs = n \<Longrightarrow> put_cell s v (Some bs) n = Some (deliver s v bs)"
  by (auto simp: put_cell_def amove_def deliver_def cell_ok_def)

lemma put_cell_source:
  "cell_ok s w n \<Longrightarrow> source s w = Some src \<Longrightarrow> cell_ok s v n \<Longrightarrow> put_cell s v src n = Some (deliver s v (elem_at s w n))"
  by (auto simp: put_cell_def amove_def deliver_def cell_ok_def source_def elem_at_def split: if_splits)

lemma source_ok: "cell_ok s w n \<Longrightarrow> \<exists>src. source s w = Some src"
  by (auto simp: source_def cell_ok_def)

lemma elem_length: "cell_ok s v n \<Longrightarrow> length (elem_at s v n) = n"
  by (auto simp: cell_ok_def elem_at_def)

text \<open>Receiving takes the first element.\<close>

definition received :: "Channel \<Rightarrow> Channel" where
  "received C = C\<lparr>c_nbuf := c_nbuf C - 1, c_off := if c_off C + 1 = c_bufsize C then 0 else c_off C + 1\<rparr>"

lemma recv_contents:
  assumes ok: "ring_ok C" and n: "c_nbuf C \<noteq> 0"
  shows "ring_ok (received C)" "contents C = (c_buf C ! unat (c_off C)) # contents (received C)" "unat (c_off C) < length (c_buf C)"
    "length (c_buf C ! unat (c_off C)) = unat (c_elemsize C)"
proof -
  note R = ring_okD [OF ok]
  have n0: "0 < unat (c_nbuf C)" using n by (simp add: unat_gt_0)
  then have b0: "c_bufsize C \<noteq> 0" using R(3) by auto
  note o = R(4) [OF b0]
  show o': "unat (c_off C) < length (c_buf C)" using o R(1) by simp
  show "length (c_buf C ! unat (c_off C)) = unat (c_elemsize C)" using R(5) [OF o] .
  have u1: "unat (c_nbuf C - 1) = unat (c_nbuf C) - 1" using n by (rule unat_minus_one)
  have u2: "unat (c_off C + 1) = unat (c_off C) + 1" using o R(2) by (simp add: unat_word_ariths)
  let ?o = "if c_off C + 1 = c_bufsize C then 0 else c_off C + 1"
  have u3: "unat ?o = (unat (c_off C) + 1) mod unat (c_bufsize C)"
  proof (cases "c_off C + 1 = c_bufsize C")
    case True
    then show ?thesis using u2 by simp
  next
    case False
    then have "unat (c_off C) + 1 \<noteq> unat (c_bufsize C)" using u2 by (simp add: word_unat_eq_iff)
    then show ?thesis using False o u2 by simp
  qed
  have less: "?o < c_bufsize C"
    unfolding word_less_nat_alt u3 using b0 by (simp add: unat_gt_0)
  show "ring_ok (received C)" using ok less u1 R(3) by (auto simp: ring_ok_def received_def word_le_nat_alt)
  have "[0..<unat (c_nbuf C)] = 0 # map Suc [0..<unat (c_nbuf C) - 1]" using n0 by (simp add: upt_conv_Cons map_Suc_upt)
  then have "contents C = (c_buf C ! (unat (c_off C) mod unat (c_bufsize C))) #
      map (\<lambda>i. c_buf C ! ((unat (c_off C) + Suc i) mod unat (c_bufsize C))) [0..<unat (c_nbuf C) - 1]"
    by (simp add: contents_def o_def)
  moreover have "((unat (c_off C) + 1) mod unat (c_bufsize C) + i) mod unat (c_bufsize C) = (unat (c_off C) + Suc i) mod unat (c_bufsize C)" for i
    by (simp add: mod_add_left_eq)
  then have "contents (received C) = map (\<lambda>i. c_buf C ! ((unat (c_off C) + Suc i) mod unat (c_bufsize C))) [0..<unat (c_nbuf C) - 1]"
    using u1 u3 by (simp add: contents_def received_def)
  ultimately show "contents C = (c_buf C ! unat (c_off C)) # contents (received C)" using o by simp
qed

text \<open>Sending puts an element behind the last.\<close>

definition sent :: "8 word list \<Rightarrow> Channel \<Rightarrow> Channel" where
  "sent bs C = C\<lparr>c_buf := (c_buf C)[unat ((c_off C + c_nbuf C) mod c_bufsize C) := bs], c_nbuf := c_nbuf C + 1\<rparr>"

lemma send_contents:
  assumes ok: "ring_ok C" and n: "c_nbuf C < c_bufsize C" and bs: "length bs = unat (c_elemsize C)"
  shows "ring_ok (sent bs C)" "contents (sent bs C) = contents C @ [bs]" "c_bufsize C \<noteq> 0"
    "unat ((c_off C + c_nbuf C) mod c_bufsize C) < length (c_buf C)"
    "length (c_buf C ! unat ((c_off C + c_nbuf C) mod c_bufsize C)) = unat (c_elemsize C)"
proof -
  note R = ring_okD [OF ok]
  show b0: "c_bufsize C \<noteq> 0" using n by auto
  note o = R(4) [OF b0]
  have n': "unat (c_nbuf C) < unat (c_bufsize C)" using n by (simp add: word_less_nat_alt)
  have u: "unat ((c_off C + c_nbuf C) mod c_bufsize C) = (unat (c_off C) + unat (c_nbuf C)) mod unat (c_bufsize C)"
    using o n' R(2) by (simp add: unat_mod_distrib unat_word_ariths)
  let ?i = "(unat (c_off C) + unat (c_nbuf C)) mod unat (c_bufsize C)"
  have i: "?i < unat (c_bufsize C)" using n' by simp
  then show "unat ((c_off C + c_nbuf C) mod c_bufsize C) < length (c_buf C)"
    "length (c_buf C ! unat ((c_off C + c_nbuf C) mod c_bufsize C)) = unat (c_elemsize C)" unfolding u using R(1,5) by simp_all
  have u1: "unat (c_nbuf C + 1) = unat (c_nbuf C) + 1" using n' R(2) by (simp add: unat_word_ariths)
  have "set ((c_buf C)[?i := bs]) \<subseteq> insert bs (set (c_buf C))" by (rule set_update_subset_insert)
  then show "ring_ok (sent bs C)" using ok n' u1 bs by (auto simp: ring_ok_def sent_def u word_le_nat_alt)
  have other: "(unat (c_off C) + k) mod unat (c_bufsize C) \<noteq> ?i" if "k < unat (c_nbuf C)" for k
  proof
    assume "(unat (c_off C) + k) mod unat (c_bufsize C) = ?i"
    then have "(unat (c_nbuf C) - k) mod unat (c_bufsize C) = 0"
      using that by (metis add_diff_cancel_left' add_le_cancel_left diff_diff_left less_imp_le_nat mod_eq_dvd_iff_nat mod_eq_0_iff_dvd)
    then show False using that n' by simp
  qed
  have "contents (sent bs C) = map (\<lambda>k. (c_buf C)[?i := bs] ! ((unat (c_off C) + k) mod unat (c_bufsize C))) [0..<unat (c_nbuf C) + 1]"
    using u u1 by (simp add: contents_def sent_def)
  also have "\<dots> = map (\<lambda>k. (c_buf C)[?i := bs] ! ((unat (c_off C) + k) mod unat (c_bufsize C))) [0..<unat (c_nbuf C)] @ [bs]"
    using i R(1) by simp
  also have "map (\<lambda>k. (c_buf C)[?i := bs] ! ((unat (c_off C) + k) mod unat (c_bufsize C))) [0..<unat (c_nbuf C)] = contents C"
    unfolding contents_def by (intro map_cong) (simp_all add: nth_list_update_neq not_sym [OF other])
  finally show "contents (sent bs C) = contents C @ [bs]" .
qed

section \<open>Copying\<close>

text \<open>What an alternative needs: its operation, its channel, its element.\<close>

definition alt_ok :: "chan_mem \<Rightarrow> addr \<Rightarrow> addr \<Rightarrow> altop \<Rightarrow> bool" where
  "alt_ok s x c op \<longleftrightarrow> (\<exists>A C. alts s x = Some A \<and> a_op A = op \<and> a_chan A = c \<and> chans s c = Some C \<and> cell_ok s (a_v A) (unat (c_elemsize C)))"

definition same_shape :: "Channel \<Rightarrow> Channel \<Rightarrow> bool" where
  "same_shape C C' \<longleftrightarrow> c_bufsize C' = c_bufsize C \<and> c_elemsize C' = c_elemsize C \<and> asend C' = asend C \<and> arecv C' = arecv C"

text \<open>
  The law of a transfer: what the receiver takes, followed by what is left in the buffer, is what was in the buffer,
  followed by what the sender gives. A missing sender or receiver gives or takes nothing.
\<close>

definition transfer :: "chan_mem \<Rightarrow> addr \<Rightarrow> addr \<Rightarrow> addr \<Rightarrow> chan_mem \<Rightarrow> bool" where
  "transfer s c sx rx s' \<longleftrightarrow> (\<exists>C C' taken given. chans s c = Some C \<and> chans s' = (chans s)(c \<mapsto> C') \<and> alts s' = alts s \<and>
     same_shape C C' \<and> ring_ok C' \<and> taken @ contents C' = contents C @ given \<and>
     (if rx = NULL then taken = [] \<and> cells s' = cells s
      else \<exists>R e. alts s rx = Some R \<and> taken = [e] \<and> length e = unat (c_elemsize C) \<and> cells s' = cells (deliver s (a_v R) e)) \<and>
     (if sx = NULL then given = []
      else \<exists>S e. alts s sx = Some S \<and> given = [e] \<and> length e = unat (c_elemsize C) \<and>
        (rx = NULL \<or> c_nbuf C = 0 \<or> map_option a_v (alts s rx) \<noteq> Some (a_v S) \<longrightarrow> e = elem_at s (a_v S) (unat (c_elemsize C)))))"

lemma same_shape_ops: "same_shape C (received C)" "same_shape C (sent bs C)" "same_shape C C"
  by (simp_all add: same_shape_def received_def sent_def)

lemma same_shape_trans: "same_shape C D \<Longrightarrow> same_shape D E \<Longrightarrow> same_shape C E"
  by (simp add: same_shape_def)

lemma buf_recv_eq:
  assumes C: "chans s c = Some C" "ring_ok C" "c_nbuf C \<noteq> 0" and v: "cell_ok s v (unat (c_elemsize C))"
  shows "buf_recv s c v = Some ((deliver s v (hd (contents C)))\<lparr>chans := (chans s)(c \<mapsto> received C)\<rparr>)"
  using recv_contents [OF C(2,3)] put_cell_some [OF v] C(1)
  by (simp add: buf_recv_def on_chan_def received_def)

lemma buf_send_eq:
  assumes C: "chans s c = Some C" "ring_ok C" "c_nbuf C < c_bufsize C" and v: "cell_ok s v (unat (c_elemsize C))"
  shows "buf_send s c v = Some (s\<lparr>chans := (chans s)(c \<mapsto> sent (elem_at s v (unat (c_elemsize C))) C)\<rparr>)"
proof -
  note S = send_contents [OF C(2,3) elem_length [OF v]]
  have "\<exists>src. source s v = Some src \<and> amove (c_buf C ! unat ((c_off C + c_nbuf C) mod c_bufsize C)) src (unat (c_elemsize C)) =
      Some (elem_at s v (unat (c_elemsize C)))"
    using v S(5) by (auto simp: source_def amove_def elem_at_def cell_ok_def)
  with C(1) S(3,4) show ?thesis by (auto simp: buf_send_def on_chan_def sent_def)
qed

lemma altmove_transfer:
  assumes C: "chans s c = Some C" "ring_ok C"
    and sx: "sx \<noteq> NULL \<Longrightarrow> alt_ok s sx c CHANSND" and rx: "rx \<noteq> NULL \<Longrightarrow> alt_ok s rx c CHANRCV"
    and can: "sx \<noteq> NULL \<and> rx \<noteq> NULL \<or> sx \<noteq> NULL \<and> c_nbuf C < c_bufsize C \<or> rx \<noteq> NULL \<and> c_nbuf C \<noteq> 0"
  shows "\<exists>s'. altmove s c sx rx = Some s' \<and> transfer s c sx rx s'"
proof -
  let ?n = "unat (c_elemsize C)"
  note len = elem_length
  from sx C(1) have S: "sx \<noteq> NULL \<Longrightarrow> \<exists>S. alts s sx = Some S \<and> cell_ok s (a_v S) ?n" by (auto simp: alt_ok_def)
  from rx C(1) have R: "rx \<noteq> NULL \<Longrightarrow> \<exists>R. alts s rx = Some R \<and> cell_ok s (a_v R) ?n" by (auto simp: alt_ok_def)
  consider (direct) "sx \<noteq> NULL" "rx \<noteq> NULL" "c_nbuf C = 0" | (both) "sx \<noteq> NULL" "rx \<noteq> NULL" "c_nbuf C \<noteq> 0"
    | (sx) "sx \<noteq> NULL" "rx = NULL" | (rx) "sx = NULL" "rx \<noteq> NULL" using can by blast
  then show ?thesis
  proof cases
    case direct
    from S [OF direct(1)] R [OF direct(2)] obtain A B where A: "alts s sx = Some A" "cell_ok s (a_v A) ?n"
      and B: "alts s rx = Some B" "cell_ok s (a_v B) ?n" by blast
    from source_ok [OF A(2)] obtain src where src: "source s (a_v A) = Some src" by blast
    let ?e = "elem_at s (a_v A) ?n"
    have "altmove s c sx rx = Some (deliver s (a_v B) ?e)"
      using direct C(1) A(1) B(1) src put_cell_source [OF A(2) src B(2)] by (simp add: altmove_def)
    moreover have "transfer s c sx rx (deliver s (a_v B) ?e)"
      unfolding transfer_def using direct C A(1) B(1) len [OF A(2)]
      by (intro exI [of _ C] exI [of _ "[?e]"]) (simp add: same_shape_ops contents_def fun_upd_idem)
    ultimately show ?thesis by blast
  next
    case sx
    from S [OF sx(1)] obtain A where A: "alts s sx = Some A" "cell_ok s (a_v A) ?n" by blast
    have n: "c_nbuf C < c_bufsize C" using can sx by simp
    let ?e = "elem_at s (a_v A) ?n"
    have "altmove s c sx rx = Some (s\<lparr>chans := (chans s)(c \<mapsto> sent ?e C)\<rparr>)"
      using sx C(1) A(1) buf_send_eq [OF C n A(2)] by (simp add: altmove_def)
    moreover have "transfer s c sx rx (s\<lparr>chans := (chans s)(c \<mapsto> sent ?e C)\<rparr>)"
      unfolding transfer_def using sx C A(1) len [OF A(2)] send_contents(1,2) [OF C(2) n len [OF A(2)]]
      by (intro exI [of _ C] exI [of _ "sent ?e C"] exI [of _ "[]"] exI [of _ "[?e]"]) (simp add: same_shape_ops)
    ultimately show ?thesis by blast
  next
    case rx
    from R [OF rx(2)] obtain B where B: "alts s rx = Some B" "cell_ok s (a_v B) ?n" by blast
    have n: "c_nbuf C \<noteq> 0" using can rx by simp
    note X = recv_contents [OF C(2) n]
    let ?e = "hd (contents C)"
    have e: "length ?e = ?n" "contents C = ?e # contents (received C)" using X(2,4) by simp_all
    have "altmove s c sx rx = Some ((deliver s (a_v B) ?e)\<lparr>chans := (chans s)(c \<mapsto> received C)\<rparr>)"
      using rx C(1) B(1) buf_recv_eq [OF C n B(2)] by (simp add: altmove_def)
    moreover have "transfer s c sx rx ((deliver s (a_v B) ?e)\<lparr>chans := (chans s)(c \<mapsto> received C)\<rparr>)"
      unfolding transfer_def using rx C B(1) e X(1)
      by (intro exI [of _ C] exI [of _ "received C"] exI [of _ "[?e]"] exI [of _ "[]"]) (simp add: same_shape_ops)
    ultimately show ?thesis by blast
  next
    case both
    from S [OF both(1)] R [OF both(2)] obtain A B where A: "alts s sx = Some A" "cell_ok s (a_v A) ?n"
      and B: "alts s rx = Some B" "cell_ok s (a_v B) ?n" by blast
    note X = recv_contents [OF C(2) both(3)]
    let ?e = "hd (contents C)"
    have e: "length ?e = ?n" "contents C = ?e # contents (received C)" using X(2,4) by simp_all
    let ?s = "(deliver s (a_v B) ?e)\<lparr>chans := (chans s)(c \<mapsto> received C)\<rparr>"
    have r: "buf_recv s c (a_v B) = Some ?s" by (rule buf_recv_eq [OF C both(3) B(2)])
    have C': "chans ?s c = Some (received C)" by simp
    have sz: "c_elemsize (received C) = c_elemsize C" by (simp add: received_def)
    have A': "cell_ok ?s (a_v A) ?n" using cell_ok_deliver [OF e(1) B(2) A(2)] by (simp add: cell_ok_def)
    have "0 < unat (c_nbuf C)" using both(3) by (simp add: unat_gt_0)
    then have "unat (c_nbuf C - 1) < unat (c_bufsize C)" using unat_minus_one [OF both(3)] ring_okD(3) [OF C(2)] by linarith
    then have n: "c_nbuf (received C) < c_bufsize (received C)" by (simp add: received_def word_less_nat_alt)
    let ?g = "elem_at ?s (a_v A) ?n"
    have g: "length ?g = ?n" by (rule len [OF A'])
    let ?s' = "?s\<lparr>chans := (chans ?s)(c \<mapsto> sent ?g (received C))\<rparr>"
    have "buf_send ?s c (a_v A) = Some ?s'" using buf_send_eq [OF C' X(1) n] A' sz by simp
    then have "altmove s c sx rx = Some ?s'" using both C(1) A(1) B(1) r by (simp add: altmove_def)
    moreover have "map_option a_v (alts s rx) \<noteq> Some (a_v A) \<Longrightarrow> ?g = elem_at s (a_v A) ?n"
      using B(1) by (auto simp: elem_at_def deliver_def)
    then have "transfer s c sx rx ?s'"
      unfolding transfer_def using both C A(1) B(1) e g send_contents(1,2) [OF X(1) n] sz same_shape_trans [OF same_shape_ops(1) same_shape_ops(2)]
      by (intro exI [of _ C] exI [of _ "sent ?g (received C)"] exI [of _ "[?e]"] exI [of _ "[?g]"]) simp
    ultimately show ?thesis by blast
  qed
qed

lemma altcopy_transfer:
  assumes C: "chans s c = Some C" "ring_ok C" and x: "x \<noteq> NULL" "alt_ok s x c op"
    and op: "op = CHANSND \<and> op' = CHANRCV \<or> op = CHANRCV \<and> op' = CHANSND"
    and y: "if y = NULL then if op = CHANSND then c_nbuf C < c_bufsize C else c_nbuf C \<noteq> 0 else alt_ok s y c op'"
  shows "\<exists>s'. altcopy s x y = Some s' \<and> (if op = CHANSND then transfer s c x y s' else transfer s c y x s')"
proof -
  obtain X where X: "alts s x = Some X" "a_op X = op" "a_chan X = c" using x(2) by (auto simp: alt_ok_def)
  have h: "has_op s x op = Some ()" using x(1) X by (simp add: has_op_def)
  have h': "has_op s y op' = Some ()" using y by (auto simp: has_op_def alt_ok_def split: if_splits)
  from op show ?thesis
  proof (elim disjE conjE)
    assume o: "op = CHANSND" "op' = CHANRCV"
    have "\<exists>s'. altmove s c x y = Some s' \<and> transfer s c x y s'"
      by (rule altmove_transfer [OF C]) (use x y o in \<open>auto split: if_splits\<close>)
    then show ?thesis using x(1) X h h' o by (simp add: altcopy_def)
  next
    assume o: "op = CHANRCV" "op' = CHANSND"
    have "\<exists>s'. altmove s c y x = Some s' \<and> transfer s c y x s'"
      by (rule altmove_transfer [OF C]) (use x y o in \<open>auto split: if_splits\<close>)
    then show ?thesis using x(1) X h h' o by (simp add: altcopy_def)
  qed
qed

section \<open>The arrays of a channel\<close>

lemma find_alt_found: "i \<le> j \<Longrightarrow> j < length xs \<Longrightarrow> xs ! j = x \<Longrightarrow> (\<And>k. i \<le> k \<Longrightarrow> k < j \<Longrightarrow> xs ! k \<noteq> x) \<Longrightarrow> find_alt xs x i = Some j"
proof (induction "j - i" arbitrary: i)
  case 0
  then show ?case by (simp add: find_alt.simps [of xs x i])
next
  case (Suc d)
  have "xs ! i \<noteq> x" using Suc.prems(4) [of i] Suc.hyps(2) by simp
  moreover have "find_alt xs x (i + 1) = Some j" using Suc.hyps(2) Suc.prems by (intro Suc.hyps(1)) auto
  ultimately show ?case using Suc.prems(2) Suc.hyps(2) by (simp add: find_alt.simps [of xs x i])
qed

lemma delarray_set:
  assumes "distinct (entries a)" and "i < length (entries a)"
  shows "distinct (entries (delarray a i))" "set (entries (delarray a i)) = set (entries a) - {entries a ! i}"
proof -
  let ?xs = "entries a"
  from assms(2) have ne: "?xs \<noteq> []" by auto
  let ?bl = "butlast ?xs" and ?l = "last ?xs"
  have xs: "?xs = ?bl @ [?l]" using ne by simp
  have d: "distinct ?bl" "?l \<notin> set ?bl" using assms(1) by (metis distinct_append distinct.simps(2) xs disjoint_insert(1) list.simps(15))+
  have len: "length ?bl = length ?xs - 1" by simp
  show "distinct (entries (delarray a i))" "set (entries (delarray a i)) = set (entries a) - {entries a ! i}"
  proof (goal_cases)
    case 1
    show ?case
    proof (cases "i = length ?bl")
      case True
      then have "butlast (?xs[i := ?l]) = ?bl" by (metis xs butlast_snoc list_update_length)
      then show ?thesis using d(1) by (simp add: delarray_def)
    next
      case False
      then have i: "i < length ?bl" using assms(2) len by linarith
      then have "?xs[i := ?l] = ?bl[i := ?l] @ [?l]" by (metis xs list_update_append1)
      then have "butlast (?xs[i := ?l]) = ?bl[i := ?l]" by simp
      then show ?thesis using d i by (simp add: delarray_def distinct_list_update)
    qed
  next
    case 2
    show ?case
    proof (cases "i = length ?bl")
      case True
      then have "butlast (?xs[i := ?l]) = ?bl" "?xs ! i = ?l" by (metis xs butlast_snoc list_update_length, metis xs nth_append_length True)
      then show ?thesis using d xs by (simp add: delarray_def) (metis Diff_insert_absorb Un_insert_right list.simps(15) set_append sup_bot.right_neutral list.set(1))
    next
      case False
      then have i: "i < length ?bl" using assms(2) len by linarith
      then have "?xs[i := ?l] = ?bl[i := ?l] @ [?l]" by (metis xs list_update_append1)
      then have b: "butlast (?xs[i := ?l]) = ?bl[i := ?l]" by simp
      have n: "?xs ! i = ?bl ! i" using i by (metis xs nth_append)
      have s: "set ?xs = insert ?l (set ?bl)" by (metis xs Un_insert_right list.simps(15) set_append sup_bot.right_neutral list.set(1))
      have "set (?bl[i := ?l]) = insert ?l (set ?bl - {?bl ! i})" by (rule set_update_distinct [OF d(1) i])
      moreover have "?l \<noteq> ?bl ! i" using d(2) i by (metis nth_mem)
      ultimately show ?thesis unfolding delarray_def using b n s by auto
    qed
  qed
qed

end
