(* ===== verification/Chan_System.thy ===== *)
theory Chan_System
  imports Channel
begin

text \<open>
  The tasks that use channels, as a system: what is between two points where a task can be switched is one step.
  The invariant says which alternatives the channels point to, and that no two tasks wait for each other.
\<close>

section \<open>Tasks and events\<close>

text \<open>
  A task waits with the \<open>n\<close> alternatives from \<open>a\<close> on, or has been made ready after its alternative \<open>j\<close> has been done.
\<close>

datatype chan_phase = Outside | Waiting addr nat | Executed addr nat nat

record chan_sys =
  cm :: chan_mem
  cph :: "nat \<Rightarrow> chan_phase"

text \<open>
  A new channel; a store to an element; a call of \<^verbatim>\<open>chanalt\<close> with the array written out, as channel, operation and
  element, and whether it can block; the return of a task that has waited.
\<close>

datatype chan_event =
    NewChan addr "8 word list list" u32 u32
  | SetCell addr "8 word list"
  | AltCall nat addr "(addr \<times> altop \<times> addr) list" bool nat nat
  | AltReturn nat

definition write_alts :: "chan_mem \<Rightarrow> addr \<Rightarrow> (addr \<times> altop \<times> addr) list \<Rightarrow> bool \<Rightarrow> chan_mem" where
  "write_alts s a xs canblock = s\<lparr>alts := (\<lambda>p.
     if a \<le> p \<and> p < a + length xs then
       (case xs ! (p - a) of (c, op, v) \<Rightarrow> Some \<lparr>a_chan = c, a_v = v, a_op = op, a_task = 0, a_xalt = NULL\<rparr>)
     else if p = a + length xs then
       Some \<lparr>a_chan = NULL, a_v = NULL, a_op = if canblock then CHANEND else CHANNOBLK, a_task = 0, a_xalt = NULL\<rparr>
     else alts s p)\<rparr>"

definition wake_task :: "(nat \<Rightarrow> chan_phase) \<Rightarrow> chan_mem \<Rightarrow> nat option \<Rightarrow> nat \<Rightarrow> chan_phase" where
  "wake_task p s w = (case w of None \<Rightarrow> p | Some u \<Rightarrow>
     (case p u of Waiting a n \<Rightarrow> p(u := Executed a n (case chanalt_resume s a of Some j \<Rightarrow> j | None \<Rightarrow> 0)) | _ \<Rightarrow> p))"

fun chan_step :: "chan_event \<Rightarrow> chan_sys \<Rightarrow> (chan_sys \<times> int option) option" where
  "chan_step (NewChan c junk es bs) s = do { (m, _) \<leftarrow> chancreate (cm s) c junk es bs; Some (s\<lparr>cm := m\<rparr>, None) }"
| "chan_step (SetCell v bs) s = Some (s\<lparr>cm := (cm s)\<lparr>cells := (cells (cm s))(v \<mapsto> bs)\<rparr>\<rparr>, None)"
| "chan_step (AltCall t a xs canblock r1 r2) s = do {
     (m, r) \<leftarrow> chanalt (write_alts (cm s) a xs canblock) t a r1 r2;
     case r of
       Ran i w \<Rightarrow> Some (s\<lparr>cm := m, cph := wake_task (cph s) m w\<rparr>, Some (int i))
     | NotReady \<Rightarrow> Some (s\<lparr>cm := m\<rparr>, Some (-1))
     | Switched \<Rightarrow> Some (s\<lparr>cm := m, cph := (cph s)(t := Waiting a (length xs))\<rparr>, None)
   }"
| "chan_step (AltReturn t) s = (case cph s t of
     Executed a n j \<Rightarrow> do { i \<leftarrow> chanalt_resume (cm s) a; Some (s\<lparr>cph := (cph s)(t := Outside)\<rparr>, Some (int i)) }
   | _ \<Rightarrow> None)"

section \<open>What can happen\<close>

text \<open>The array of a task that waits, or has not returned yet.\<close>

fun area :: "chan_phase \<Rightarrow> addr set" where
  "area Outside = {}"
| "area (Waiting a n) = {a..a + n}"
| "area (Executed a n j) = {a..a + n}"

definition in_use :: "chan_sys \<Rightarrow> addr \<Rightarrow> bool" where
  "in_use s v \<longleftrightarrow> (\<exists>t a n i A. cph s t = Waiting a n \<and> i < n \<and> alts (cm s) (a + i) = Some A \<and> a_op A \<noteq> CHANNOP \<and> a_v A = v)"

definition good_alt :: "chan_mem \<Rightarrow> addr \<times> altop \<times> addr \<Rightarrow> bool" where
  "good_alt s x \<longleftrightarrow> (case x of (c, op, v) \<Rightarrow> op = CHANNOP \<or>
     (op = CHANSND \<or> op = CHANRCV) \<and> (\<exists>C. chans s c = Some C \<and> cell_ok s v (unat (c_elemsize C))))"

text \<open>
  \<^verbatim>\<open>malloc\<close> returns new memory, large enough for the buffer. An array of alternatives is the task's own, and
  every alternative has a channel and an element of its size. Nobody writes to an element that a waiting task uses.
\<close>

fun chan_enabled :: "chan_event \<Rightarrow> chan_sys \<Rightarrow> bool" where
  "chan_enabled (NewChan c junk es bs) s \<longleftrightarrow> c \<noteq> NULL \<and> chans (cm s) c = None \<and> unat bs < 2 ^ 31 \<and> length junk = unat bs \<and>
     (\<forall>b \<in> set junk. length b = unat es)"
| "chan_enabled (SetCell v bs) s \<longleftrightarrow> \<not> in_use s v"
| "chan_enabled (AltCall t a xs canblock r1 r2) s \<longleftrightarrow> cph s t = Outside \<and> a \<noteq> NULL \<and> (\<forall>u. area (cph s u) \<inter> {a..a + length xs} = {}) \<and>
     (\<forall>x \<in> set xs. good_alt (cm s) x)"
| "chan_enabled (AltReturn t) s \<longleftrightarrow> (\<exists>a n j. cph s t = Executed a n j)"

inductive chan_reach :: "chan_sys \<Rightarrow> bool" where
  start: "chans (cm s) = Map.empty \<Longrightarrow> cph s = (\<lambda>_. Outside) \<Longrightarrow> chan_reach s"
| event: "chan_reach s \<Longrightarrow> chan_enabled e s \<Longrightarrow> chan_step e s = Some (s', r) \<Longrightarrow> chan_reach s'"

section \<open>The invariant\<close>

text \<open>The alternatives of waiting tasks for operation \<open>op\<close> on channel \<open>c\<close>.\<close>

definition waits :: "chan_mem \<Rightarrow> (nat \<Rightarrow> chan_phase) \<Rightarrow> addr \<Rightarrow> altop \<Rightarrow> addr set" where
  "waits m p c op = {x. \<exists>t a n A. p t = Waiting a n \<and> a \<le> x \<and> x < a + n \<and> alts m x = Some A \<and> a_chan A = c \<and> a_op A = op}"

fun phase_ok :: "chan_mem \<Rightarrow> nat \<Rightarrow> chan_phase \<Rightarrow> bool" where
  "phase_ok m t Outside \<longleftrightarrow> True"
| "phase_ok m t (Waiting a n) \<longleftrightarrow> a \<noteq> NULL \<and> (\<exists>E. alts m (a + n) = Some E \<and> a_op E = CHANEND) \<and>
     (\<forall>x. a \<le> x \<and> x < a + n \<longrightarrow> (\<exists>A. alts m x = Some A \<and> a_task A = t \<and> a_xalt A = a \<and>
        (a_op A = CHANNOP \<or> (a_op A = CHANSND \<or> a_op A = CHANRCV) \<and> alt_ok m x (a_chan A) (a_op A))))"
| "phase_ok m t (Executed a n j) \<longleftrightarrow> j < n \<and> (\<exists>A. alts m a = Some A \<and> a_xalt A = a + j) \<and>
     (\<exists>X. alts m (a + j) = Some X \<and> (a_op X = CHANSND \<or> a_op X = CHANRCV))"

text \<open>
  No alternative that waits could be done: on a channel without buffer, only alternatives of one task wait for
  each other; senders wait only when the buffer is full, receivers only when it is empty.
\<close>

definition quiet :: "chan_mem \<Rightarrow> Channel \<Rightarrow> bool" where
  "quiet m C \<longleftrightarrow> (if c_bufsize C = 0
     then \<forall>x \<in> set (entries (asend C)). \<forall>y \<in> set (entries (arecv C)). map_option a_task (alts m x) = map_option a_task (alts m y)
     else (entries (asend C) \<noteq> [] \<longrightarrow> c_nbuf C = c_bufsize C) \<and> (entries (arecv C) \<noteq> [] \<longrightarrow> c_nbuf C = 0))"

definition queues_ok :: "chan_mem \<Rightarrow> (addr \<Rightarrow> altop \<Rightarrow> addr set) \<Rightarrow> bool" where
  "queues_ok m W \<longleftrightarrow> (\<forall>c C. chans m c = Some C \<longrightarrow> ring_ok C \<and> distinct (entries (asend C)) \<and> distinct (entries (arecv C)) \<and>
     set (entries (asend C)) = W c CHANSND \<and> set (entries (arecv C)) = W c CHANRCV)"

definition chan_inv :: "chan_sys \<Rightarrow> bool" where
  "chan_inv s \<longleftrightarrow> (\<forall>t. phase_ok (cm s) t (cph s t)) \<and> (\<forall>t u. t \<noteq> u \<longrightarrow> area (cph s t) \<inter> area (cph s u) = {}) \<and>
     queues_ok (cm s) (waits (cm s) (cph s)) \<and> (\<forall>c C. chans (cm s) c = Some C \<longrightarrow> quiet (cm s) C)"

end
