(* ===== verification/Chan_Inv.thy ===== *)
theory Chan_Inv
  imports Chan_System
begin

text \<open>
  What the invariant of the channels rests on: which parts of it an operation keeps, that the alternatives of a
  task leave the arrays of their channels, and what the loops of \<^verbatim>\<open>chanalt\<close> compute.
\<close>

section \<open>What does not change\<close>

lemma waits_in: "x \<in> waits m p c op \<Longrightarrow> \<exists>t a n A. p t = Waiting a n \<and> a \<le> x \<and> x < a + n \<and> alts m x = Some A \<and> a_chan A = c \<and> a_op A = op"
  by (simp add: waits_def)

lemma waits_area: "x \<in> waits m p c op \<Longrightarrow> \<exists>t. x \<in> area (p t)"
proof -
  assume "x \<in> waits m p c op"
  from waits_in [OF this] obtain t a n where "p t = Waiting a n" "a \<le> x" "x < a + n" by blast
  then have "x \<in> area (p t)" by simp
  then show ?thesis by blast
qed

lemma waits_frame: "(\<And>t x. x \<in> area (p t) \<Longrightarrow> alts m' x = alts m x) \<Longrightarrow> waits m' p c op = waits m p c op"
proof -
  assume f: "\<And>t x. x \<in> area (p t) \<Longrightarrow> alts m' x = alts m x"
  have "alts m' x = alts m x" if "p t = Waiting a n" "a \<le> x" "x < a + n" for t a n x using f [of x t] that by simp
  then show ?thesis unfolding waits_def by (intro Collect_cong) (metis (no_types, lifting))
qed

text \<open>A channel may have moved data, or lost waiting alternatives.\<close>

definition keeps :: "chan_mem \<Rightarrow> chan_mem \<Rightarrow> bool" where
  "keeps m m' \<longleftrightarrow> (\<forall>c C. chans m c = Some C \<longrightarrow> (\<exists>C'. chans m' c = Some C' \<and> c_elemsize C' = c_elemsize C)) \<and>
     (\<forall>v n. cell_ok m v n \<longrightarrow> cell_ok m' v n)"

lemma keeps_same: "chans m' = chans m \<Longrightarrow> cells m' = cells m \<Longrightarrow> keeps m m'"
  by (simp add: keeps_def cell_ok_def)

lemma alt_ok_keeps:
  assumes "keeps m m'" and "alts m' x = alts m x" and "alt_ok m x c op"
  shows "alt_ok m' x c op"
proof -
  from assms(3) obtain A C where A: "alts m x = Some A" "a_op A = op" "a_chan A = c" "chans m c = Some C" "cell_ok m (a_v A) (unat (c_elemsize C))"
    by (auto simp: alt_ok_def)
  with assms(1) obtain C' where "chans m' c = Some C'" "c_elemsize C' = c_elemsize C" unfolding keeps_def by blast
  with A assms(1,2) show ?thesis unfolding alt_ok_def keeps_def by metis
qed

lemma phase_keeps:
  assumes k: "keeps m m'" and a: "\<And>x. x \<in> area p \<Longrightarrow> alts m' x = alts m x" and ok: "phase_ok m t p"
  shows "phase_ok m' t p"
proof (cases p)
  case (Waiting b n)
  have e: "alts m' x = alts m x" if "b \<le> x" "x \<le> b + n" for x using a [of x] that Waiting by simp
  have "\<exists>A. alts m' x = Some A \<and> a_task A = t \<and> a_xalt A = b \<and>
      (a_op A = CHANNOP \<or> (a_op A = CHANSND \<or> a_op A = CHANRCV) \<and> alt_ok m' x (a_chan A) (a_op A))" if x: "b \<le> x" "x < b + n" for x
  proof -
    from ok Waiting x obtain A where "alts m x = Some A" "a_task A = t" "a_xalt A = b"
      "a_op A = CHANNOP \<or> (a_op A = CHANSND \<or> a_op A = CHANRCV) \<and> alt_ok m x (a_chan A) (a_op A)" by auto
    moreover from this(4) have "a_op A = CHANNOP \<or> (a_op A = CHANSND \<or> a_op A = CHANRCV) \<and> alt_ok m' x (a_chan A) (a_op A)"
      using alt_ok_keeps [OF k e] x by force
    ultimately show ?thesis using e [of x] x by simp
  qed
  moreover have "b \<noteq> NULL" "\<exists>E. alts m' (b + n) = Some E \<and> a_op E = CHANEND" using ok Waiting e [of "b + n"] by simp_all
  ultimately show ?thesis using Waiting by simp
next
  case (Executed b n j)
  then have "alts m' b = alts m b" "alts m' (b + j) = alts m (b + j)" using a ok by auto
  then show ?thesis using ok Executed by simp
qed simp

lemma queues_okD:
  assumes "queues_ok m W" and "chans m c = Some C"
  shows "ring_ok C" "distinct (entries (asend C))" "distinct (entries (arecv C))" "set (entries (asend C)) = W c CHANSND" "set (entries (arecv C)) = W c CHANRCV"
  using assms unfolding queues_ok_def by blast+

section \<open>Leaving the arrays\<close>

text \<open>The arrays may have lost entries; nothing else has happened.\<close>

definition fewer :: "chan_mem \<Rightarrow> chan_mem \<Rightarrow> bool" where
  "fewer m m' \<longleftrightarrow> alts m' = alts m \<and> cells m' = cells m \<and> (\<forall>c. chans m c = None \<longrightarrow> chans m' c = None) \<and>
     (\<forall>c C. chans m c = Some C \<longrightarrow> (\<exists>C'. chans m' c = Some C' \<and> c_bufsize C' = c_bufsize C \<and> c_elemsize C' = c_elemsize C \<and>
        c_nbuf C' = c_nbuf C \<and> contents C' = contents C \<and> set (entries (asend C')) \<subseteq> set (entries (asend C)) \<and> set (entries (arecv C')) \<subseteq> set (entries (arecv C))))"

lemma fewer_refl: "fewer m m"
  unfolding fewer_def by blast

lemma fewerD:
  assumes "fewer m m'" and "chans m c = Some C"
  obtains C' where "chans m' c = Some C'" "c_bufsize C' = c_bufsize C" "c_elemsize C' = c_elemsize C" "c_nbuf C' = c_nbuf C"
    "contents C' = contents C" "set (entries (asend C')) \<subseteq> set (entries (asend C))" "set (entries (arecv C')) \<subseteq> set (entries (arecv C))"
  using assms unfolding fewer_def by blast

lemma fewer_alts: "fewer m m' \<Longrightarrow> alts m' = alts m" "fewer m m' \<Longrightarrow> cells m' = cells m" "fewer m m' \<Longrightarrow> chans m c = None \<Longrightarrow> chans m' c = None"
  by (simp_all add: fewer_def)

lemma fewer_trans:
  assumes a: "fewer m1 m2" and b: "fewer m2 m3"
  shows "fewer m1 m3"
proof -
  have "\<exists>C'. chans m3 c = Some C' \<and> c_bufsize C' = c_bufsize C \<and> c_elemsize C' = c_elemsize C \<and> c_nbuf C' = c_nbuf C \<and>
      contents C' = contents C \<and> set (entries (asend C')) \<subseteq> set (entries (asend C)) \<and> set (entries (arecv C')) \<subseteq> set (entries (arecv C))"
    if C: "chans m1 c = Some C" for c C
  proof -
    obtain D where D: "chans m2 c = Some D" "c_bufsize D = c_bufsize C" "c_elemsize D = c_elemsize C" "c_nbuf D = c_nbuf C"
      "contents D = contents C" "set (entries (asend D)) \<subseteq> set (entries (asend C))" "set (entries (arecv D)) \<subseteq> set (entries (arecv C))"
      by (rule fewerD [OF a C])
    obtain C' where "chans m3 c = Some C'" "c_bufsize C' = c_bufsize D" "c_elemsize C' = c_elemsize D" "c_nbuf C' = c_nbuf D"
      "contents C' = contents D" "set (entries (asend C')) \<subseteq> set (entries (asend D))" "set (entries (arecv C')) \<subseteq> set (entries (arecv D))"
      by (rule fewerD [OF b D(1)])
    with D show ?thesis by (intro exI [of _ C']) (simp, meson order_trans)
  qed
  with fewer_alts [OF a] fewer_alts [OF b] show ?thesis unfolding fewer_def by simp
qed

lemma fewer_keeps: "fewer m m' \<Longrightarrow> keeps m m'"
  unfolding keeps_def cell_ok_def using fewer_alts(2) [of m m'] by (metis fewerD)

lemma fewer_quiet:
  assumes f: "fewer m m'" and q: "\<And>c C. chans m c = Some C \<Longrightarrow> quiet m C" and C': "chans m' c = Some C'"
  shows "quiet m' C'"
proof -
  have al: "alts m' = alts m" using f by (simp add: fewer_def)
  obtain C where C: "chans m c = Some C" using fewer_alts(3) [OF f, of c] C' by (cases "chans m c") auto
  have s: "c_bufsize C' = c_bufsize C" "c_nbuf C' = c_nbuf C" "set (entries (asend C')) \<subseteq> set (entries (asend C))"
    "set (entries (arecv C')) \<subseteq> set (entries (arecv C))" by (rule fewerD [OF f C], use C' in simp)+
  have "entries (asend C') \<noteq> [] \<Longrightarrow> entries (asend C) \<noteq> []" "entries (arecv C') \<noteq> [] \<Longrightarrow> entries (arecv C) \<noteq> []" using s(3,4) by auto
  with q [OF C] s show ?thesis unfolding quiet_def al by (cases "c_bufsize C = 0") (simp_all, blast)
qed

lemma dequeue_ok:
  assumes q: "queues_ok m (\<lambda>c op. W c op - X)" and A: "alts m x = Some A" "a_op A = CHANSND \<or> a_op A = CHANRCV" "x \<notin> X"
    and x: "\<And>c op. x \<in> W c op \<longleftrightarrow> c = a_chan A \<and> op = a_op A" and C: "chans m (a_chan A) = Some C"
  shows "\<exists>m'. altdequeue m x = Some m' \<and> queues_ok m' (\<lambda>c op. W c op - insert x X) \<and> fewer m m'"
proof -
  let ?c = "a_chan A"
  note Q = queues_okD [OF q C]
  obtain ar where ar: "chanarray C (Some (a_op A)) = Some ar" "distinct (entries ar)" "x \<in> set (entries ar)"
    using A(2,3) Q x by (elim disjE) auto
  define i where "i = (LEAST i. entries ar ! i = x \<and> i < length (entries ar))"
  from ar(3) have i: "entries ar ! i = x" "i < length (entries ar)"
    unfolding i_def by (metis (mono_tags, lifting) LeastI_ex in_set_conv_nth)+
  have "find_alt (entries ar) x 0 = Some i"
    by (rule find_alt_found) (use i ar(2) nth_eq_iff_index_eq in \<open>fastforce+\<close>)
  then have call: "altdequeue m x = Some (m\<lparr>chans := (chans m)(?c \<mapsto> set_array (a_op A) (delarray ar i) C)\<rparr>)"
    using A(1) C ar(1) by (simp add: altdequeue_def on_chan_def)
  let ?m = "m\<lparr>chans := (chans m)(?c \<mapsto> set_array (a_op A) (delarray ar i) C)\<rparr>"
  note D = delarray_set [OF ar(2) i(2)]
  have "queues_ok ?m (\<lambda>c op. W c op - insert x X)"
    unfolding queues_ok_def
  proof (intro allI impI)
    fix c C' assume C': "chans ?m c = Some C'"
    show "ring_ok C' \<and> distinct (entries (asend C')) \<and> distinct (entries (arecv C')) \<and>
      set (entries (asend C')) = W c CHANSND - insert x X \<and> set (entries (arecv C')) = W c CHANRCV - insert x X"
    proof (cases "c = ?c")
      case True
      then have c': "C' = set_array (a_op A) (delarray ar i) C" using C' by simp
      from A(2) show ?thesis
      proof
        assume o: "a_op A = CHANSND"
        then have "x \<notin> W ?c CHANRCV" "ar = asend C" using x ar(1) by auto
        then show ?thesis using o c' D i(1) Q True by (auto simp: ring_ok_def)
      next
        assume o: "a_op A = CHANRCV"
        then have "x \<notin> W ?c CHANSND" "ar = arecv C" using x ar(1) by auto
        then show ?thesis using o c' D i(1) Q True by (auto simp: ring_ok_def)
      qed
    next
      case False
      then have "chans m c = Some C'" using C' by simp
      moreover have "x \<notin> W c CHANSND" "x \<notin> W c CHANRCV" using x False by auto
      ultimately show ?thesis using queues_okD [OF q, of c C'] by auto
    qed
  qed
  moreover have "fewer m ?m"
    using A(2) D i(1) ar(1) C unfolding fewer_def by (elim disjE) (auto simp: contents_def)
  ultimately show ?thesis using call by blast
qed

lemma all_dequeue_ok:
  assumes q: "queues_ok m (\<lambda>c op. W c op - {a..<x})" and xn: "a \<le> x" "x \<le> a + n"
    and A: "\<And>y. a \<le> y \<Longrightarrow> y < a + n \<Longrightarrow> \<exists>A. alts m y = Some A \<and> (a_op A = CHANNOP \<or> (a_op A = CHANSND \<or> a_op A = CHANRCV) \<and> chans m (a_chan A) \<noteq> None)"
    and E: "\<exists>E. alts m (a + n) = Some E \<and> a_op E = CHANEND"
    and W: "\<And>y A c op. a \<le> y \<Longrightarrow> y < a + n \<Longrightarrow> alts m y = Some A \<Longrightarrow> a_op A \<noteq> CHANNOP \<Longrightarrow> y \<in> W c op \<longleftrightarrow> c = a_chan A \<and> op = a_op A"
    and N: "\<And>y A c op. a \<le> y \<Longrightarrow> y < a + n \<Longrightarrow> alts m y = Some A \<Longrightarrow> a_op A = CHANNOP \<Longrightarrow> (op = CHANSND \<or> op = CHANRCV) \<Longrightarrow> y \<notin> W c op"
  shows "\<exists>m'. altalldequeue m x = Some m' \<and> queues_ok m' (\<lambda>c op. W c op - {a..<a + n}) \<and> fewer m m'"
  using assms
proof (induction "a + n - x" arbitrary: m x)
  case 0
  then have "x = a + n" by simp
  with 0 show ?case by (auto simp: altalldequeue.simps intro: fewer_refl)
next
  case (Suc d)
  then have x: "a \<le> x" "x < a + n" by simp_all
  from Suc.prems(4) [OF x] obtain A where A: "alts m x = Some A"
    "a_op A = CHANNOP \<or> (a_op A = CHANSND \<or> a_op A = CHANRCV) \<and> chans m (a_chan A) \<noteq> None" by blast
  have ins: "insert x {a..<x} = {a..<x + 1}" using x by auto
  have "\<exists>m1. (if a_op A \<noteq> CHANNOP then altdequeue m x else Some m) = Some m1 \<and> queues_ok m1 (\<lambda>c op. W c op - {a..<x + 1}) \<and> fewer m m1"
  proof (cases "a_op A = CHANNOP")
    case True
    have "W c op - {a..<x} = W c op - {a..<x + 1}" if "op = CHANSND \<or> op = CHANRCV" for c op
    proof -
      have "x \<notin> W c op" by (rule Suc.prems(7) [OF x A(1) True that])
      then show ?thesis unfolding ins [symmetric] by blast
    qed
    then have "queues_ok m (\<lambda>c op. W c op - {a..<x + 1})" using Suc.prems(1) unfolding queues_ok_def by simp
    with True show ?thesis by (auto intro: fewer_refl)
  next
    case False
    then obtain C where C: "chans m (a_chan A) = Some C" using A(2) by auto
    have "\<exists>m'. altdequeue m x = Some m' \<and> queues_ok m' (\<lambda>c op. W c op - insert x {a..<x}) \<and> fewer m m'"
      by (rule dequeue_ok [OF Suc.prems(1) A(1) _ _ _ C]) (use A(2) False Suc.prems(6) [OF x A(1) False] in auto)
    then show ?thesis unfolding ins using False by simp
  qed
  then obtain m1 where m1: "(if a_op A \<noteq> CHANNOP then altdequeue m x else Some m) = Some m1"
    "queues_ok m1 (\<lambda>c op. W c op - {a..<x + 1})" "fewer m m1" by blast
  have al: "alts m1 = alts m" by (rule fewer_alts(1) [OF m1(3)])
  have ch: "chans m c \<noteq> None \<Longrightarrow> chans m1 c \<noteq> None" for c by (cases "chans m c") (auto elim: fewerD [OF m1(3)])
  have "\<exists>m'. altalldequeue m1 (x + 1) = Some m' \<and> queues_ok m' (\<lambda>c op. W c op - {a..<a + n}) \<and> fewer m1 m'"
  proof (rule Suc.hyps(1))
    show "\<exists>A. alts m1 y = Some A \<and> (a_op A = CHANNOP \<or> (a_op A = CHANSND \<or> a_op A = CHANRCV) \<and> chans m1 (a_chan A) \<noteq> None)"
      if "a \<le> y" "y < a + n" for y
      using Suc.prems(4) [OF that] ch unfolding al by blast
  qed (use m1(2) x Suc.hyps(2) Suc.prems(5-7) in \<open>simp_all only: al\<close>, auto)
  then obtain m' where "altalldequeue m1 (x + 1) = Some m'" "queues_ok m' (\<lambda>c op. W c op - {a..<a + n})" "fewer m1 m'" by blast
  moreover have "altalldequeue m x = altalldequeue m1 (x + 1)"
    using A m1(1) by (subst altalldequeue.simps) auto
  ultimately show ?case using fewer_trans [OF m1(3)] by auto
qed


section \<open>The loops of an alternative\<close>

lemma alt_len_found:
  assumes "\<And>y. a \<le> y \<Longrightarrow> y < a + n \<Longrightarrow> \<exists>A. alts m y = Some A \<and> a_op A \<noteq> CHANEND \<and> a_op A \<noteq> CHANNOBLK"
    and "alts m (a + n) = Some E" "a_op E = CHANEND \<or> a_op E = CHANNOBLK" "i \<le> n"
  shows "alt_len m a i = Some n"
  using assms(4)
proof (induction "n - i" arbitrary: i)
  case 0
  then show ?case using assms(2,3) by (subst alt_len.simps) auto
next
  case (Suc d)
  then have "i < n" by simp
  with assms(1) [of "a + i"] obtain A where "alts m (a + i) = Some A" "a_op A \<noteq> CHANEND" "a_op A \<noteq> CHANNOBLK" by auto
  moreover have "alt_len m a (i + 1) = Some n" using Suc by (intro Suc.hyps(1)) simp_all
  ultimately show ?case by (subst alt_len.simps) simp
qed

text \<open>The alternatives \<open>xs\<close> belong to task \<open>t\<close>, in the array at \<open>a\<close>.\<close>

definition marked :: "chan_mem \<Rightarrow> nat \<Rightarrow> addr \<Rightarrow> addr list \<Rightarrow> chan_mem" where
  "marked m t a xs = m\<lparr>alts := (\<lambda>p. if p \<in> set xs then map_option (\<lambda>X. X\<lparr>a_task := t, a_xalt := a\<rparr>) (alts m p) else alts m p)\<rparr>"

lemma alt_mark_marked: "(\<And>x. x \<in> set xs \<Longrightarrow> alts m x \<noteq> None) \<Longrightarrow> alt_mark m t a xs = Some (marked m t a xs)"
proof (induction xs arbitrary: m)
  case Nil
  then show ?case by (simp add: marked_def)
next
  case (Cons x xs)
  then obtain X where X: "alts m x = Some X" by fastforce
  let ?m = "m\<lparr>alts := (alts m)(x \<mapsto> X\<lparr>a_task := t, a_xalt := a\<rparr>)\<rparr>"
  have "alt_mark ?m t a xs = Some (marked ?m t a xs)" using Cons.prems by (intro Cons.IH) auto
  moreover have "marked ?m t a xs = marked m t a (x # xs)" using X by (auto simp: marked_def fun_eq_iff)
  ultimately show ?case using X by (simp add: on_alt_def)
qed

lemma alt_count_filter:
  "(\<And>x. x \<in> set xs \<Longrightarrow> altcanexec m x \<noteq> None) \<Longrightarrow> alt_count m xs = Some (length (filter (\<lambda>x. altcanexec m x = Some True) xs))"
proof (induction xs)
  case (Cons x xs)
  then obtain b where "altcanexec m x = Some b" by fastforce
  with Cons show ?case by (cases b) auto
qed simp

lemma alt_pick_nth:
  "(\<And>x. x \<in> set xs \<Longrightarrow> altcanexec m x \<noteq> None) \<Longrightarrow> j < length (filter (\<lambda>x. altcanexec m x = Some True) xs) \<Longrightarrow>
     alt_pick m xs j = Some (Some (filter (\<lambda>x. altcanexec m x = Some True) xs ! j))"
proof (induction xs arbitrary: j)
  case (Cons x xs)
  then obtain b where "altcanexec m x = Some b" by fastforce
  with Cons show ?case by (cases b; cases j) auto
qed simp

text \<open>What is taken is an alternative that can be done, if there is one.\<close>

lemma alt_choice:
  assumes "\<And>x. x \<in> set xs \<Longrightarrow> altcanexec m x \<noteq> None"
  shows "\<exists>n. alt_count m xs = Some n \<and>
    ((\<exists>x \<in> set xs. altcanexec m x = Some True) \<and> n \<noteq> 0 \<and> (\<exists>x \<in> set xs. altcanexec m x = Some True \<and> alt_pick m xs (r mod n) = Some (Some x)) \<or>
     (\<forall>x \<in> set xs. altcanexec m x = Some False) \<and> n = 0)"
proof -
  let ?ys = "filter (\<lambda>x. altcanexec m x = Some True) xs"
  have c: "alt_count m xs = Some (length ?ys)" by (rule alt_count_filter [OF assms])
  show ?thesis
  proof (cases "?ys = []")
    case True
    have "altcanexec m x = Some False" if "x \<in> set xs" for x
    proof -
      from that have "altcanexec m x \<noteq> None" by (rule assms)
      then obtain b where "altcanexec m x = Some b" by blast
      then show ?thesis using True that by (cases b) (auto simp: filter_empty_conv)
    qed
    with c True show ?thesis by simp
  next
    case False
    then have j: "r mod length ?ys < length ?ys" by simp
    then have "?ys ! (r mod length ?ys) \<in> set ?ys" by (rule nth_mem)
    then have "\<exists>x \<in> set xs. altcanexec m x = Some True \<and> alt_pick m xs (r mod length ?ys) = Some (Some x)"
      using alt_pick_nth [OF assms j] by auto
    with c False show ?thesis by (intro exI [of _ "length ?ys"]) (auto simp: filter_empty_conv)
  qed
qed

section \<open>Queueing\<close>

text \<open>Only the arrays have changed.\<close>

definition same_data :: "chan_mem \<Rightarrow> chan_mem \<Rightarrow> bool" where
  "same_data m m' \<longleftrightarrow> alts m' = alts m \<and> cells m' = cells m \<and>
     (\<forall>c. rel_option (\<lambda>C C'. c_bufsize C' = c_bufsize C \<and> c_elemsize C' = c_elemsize C \<and> c_nbuf C' = c_nbuf C) (chans m c) (chans m' c))"

lemma same_data_refl: "same_data m m"
  by (simp add: same_data_def option.rel_refl)

lemma same_data_chan:
  assumes "same_data m m'" and "chans m' c = Some C'"
  obtains C where "chans m c = Some C" "c_bufsize C' = c_bufsize C" "c_elemsize C' = c_elemsize C" "c_nbuf C' = c_nbuf C"
proof -
  from assms(1) have "rel_option (\<lambda>C C'. c_bufsize C' = c_bufsize C \<and> c_elemsize C' = c_elemsize C \<and> c_nbuf C' = c_nbuf C) (chans m c) (chans m' c)"
    by (simp add: same_data_def)
  with assms(2) that show ?thesis by (cases "chans m c") auto
qed

lemma same_data_chan':
  assumes "same_data m m'" and "chans m c = Some C"
  obtains C' where "chans m' c = Some C'" "c_bufsize C' = c_bufsize C" "c_elemsize C' = c_elemsize C" "c_nbuf C' = c_nbuf C"
proof -
  from assms(1) have "rel_option (\<lambda>C C'. c_bufsize C' = c_bufsize C \<and> c_elemsize C' = c_elemsize C \<and> c_nbuf C' = c_nbuf C) (chans m c) (chans m' c)"
    by (simp add: same_data_def)
  with assms(2) that show ?thesis by (cases "chans m' c") auto
qed

lemma same_data_trans:
  assumes "same_data m1 m2" "same_data m2 m3"
  shows "same_data m1 m3"
proof -
  have "rel_option (\<lambda>C C'. c_bufsize C' = c_bufsize C \<and> c_elemsize C' = c_elemsize C \<and> c_nbuf C' = c_nbuf C) (chans m1 c) (chans m3 c)" for c
    using assms unfolding same_data_def by (cases "chans m1 c"; cases "chans m2 c"; cases "chans m3 c") (auto dest!: spec [of _ c])
  with assms show ?thesis by (simp add: same_data_def)
qed

lemma same_data_keeps: "same_data m m' \<Longrightarrow> keeps m m'"
  unfolding keeps_def cell_ok_def by (intro conjI allI impI, erule (1) same_data_chan', blast, simp add: same_data_def)

lemma queue_ok:
  assumes q: "queues_ok m W" and A: "alts m x = Some A" "a_op A = CHANSND \<or> a_op A = CHANRCV" and C: "chans m (a_chan A) = Some C"
    and x: "\<And>c op. x \<notin> W c op"
  shows "\<exists>m'. altqueue m x = Some m' \<and> queues_ok m' (\<lambda>c op. W c op \<union> {y. y = x \<and> c = a_chan A \<and> op = a_op A}) \<and> same_data m m'"
proof -
  let ?c = "a_chan A"
  note Q = queues_okD [OF q C]
  obtain ar where ar: "chanarray C (Some (a_op A)) = Some ar" using A(2) by auto
  let ?m = "m\<lparr>chans := (chans m)(?c \<mapsto> set_array (a_op A) (addarray ar x) C)\<rparr>"
  have call: "altqueue m x = Some ?m" using A(1) C ar by (simp add: altqueue_def on_chan_def)
  have "queues_ok ?m (\<lambda>c op. W c op \<union> {y. y = x \<and> c = ?c \<and> op = a_op A})"
    unfolding queues_ok_def
  proof (intro allI impI)
    fix c C' assume C': "chans ?m c = Some C'"
    show "ring_ok C' \<and> distinct (entries (asend C')) \<and> distinct (entries (arecv C')) \<and>
      set (entries (asend C')) = W c CHANSND \<union> {y. y = x \<and> c = ?c \<and> CHANSND = a_op A} \<and>
      set (entries (arecv C')) = W c CHANRCV \<union> {y. y = x \<and> c = ?c \<and> CHANRCV = a_op A}"
    proof (cases "c = ?c")
      case True
      then have c': "C' = set_array (a_op A) (addarray ar x) C" using C' by simp
      from A(2) show ?thesis
        using c' Q True x ar by (elim disjE) (auto simp: ring_ok_def addarray_def)
    next
      case False
      then have "chans m c = Some C'" using C' by simp
      then show ?thesis using queues_okD [OF q, of c C'] False by simp
    qed
  qed
  moreover have "same_data m ?m"
    using A(2) C by (elim disjE) (auto simp: same_data_def intro!: option.rel_refl)
  ultimately show ?thesis using call by blast
qed

text \<open>The alternatives of \<open>xs\<close> for operation \<open>op\<close> on channel \<open>c\<close>.\<close>

definition own :: "chan_mem \<Rightarrow> addr list \<Rightarrow> addr \<Rightarrow> altop \<Rightarrow> addr set" where
  "own m xs c op = {x \<in> set xs. \<exists>A. alts m x = Some A \<and> a_chan A = c \<and> a_op A = op}"

lemma queue_all_ok:
  assumes "queues_ok m W" and "distinct xs"
    and "\<And>x. x \<in> set xs \<Longrightarrow> \<exists>A. alts m x = Some A \<and> (a_op A = CHANNOP \<or> (a_op A = CHANSND \<or> a_op A = CHANRCV) \<and> chans m (a_chan A) \<noteq> None)"
    and "\<And>x c op. x \<in> set xs \<Longrightarrow> x \<notin> W c op"
  shows "\<exists>m'. alt_queue_all m xs = Some m' \<and> queues_ok m' (\<lambda>c op. W c op \<union> own m xs c op) \<and> same_data m m'"
  using assms
proof (induction xs arbitrary: m W)
  case Nil
  then show ?case by (simp add: own_def same_data_refl)
next
  case (Cons x xs)
  obtain A where A: "alts m x = Some A" "a_op A = CHANNOP \<or> (a_op A = CHANSND \<or> a_op A = CHANRCV) \<and> chans m (a_chan A) \<noteq> None"
    using Cons.prems(3) [of x] by auto
  let ?W = "\<lambda>c op. W c op \<union> {y. y = x \<and> c = a_chan A \<and> op = a_op A}"
  have "\<exists>m1. (if a_op A \<noteq> CHANNOP then altqueue m x else Some m) = Some m1 \<and> queues_ok m1 ?W \<and> same_data m m1"
  proof (cases "a_op A = CHANNOP")
    case True
    then have "queues_ok m ?W" using Cons.prems(1) by (simp add: queues_ok_def)
    with True show ?thesis by (simp add: same_data_refl)
  next
    case False
    then obtain C where C: "chans m (a_chan A) = Some C" using A(2) by auto
    have "\<exists>m'. altqueue m x = Some m' \<and> queues_ok m' ?W \<and> same_data m m'"
      by (rule queue_ok [OF Cons.prems(1) A(1) _ C]) (use A(2) False Cons.prems(4) in auto)
    with False show ?thesis by simp
  qed
  then obtain m1 where m1: "(if a_op A \<noteq> CHANNOP then altqueue m x else Some m) = Some m1" "queues_ok m1 ?W" "same_data m m1" by blast
  have al: "alts m1 = alts m" using m1(3) by (simp add: same_data_def)
  have ch: "chans m c \<noteq> None \<Longrightarrow> chans m1 c \<noteq> None" for c by (cases "chans m c") (auto elim: same_data_chan' [OF m1(3)])
  have "\<exists>m'. alt_queue_all m1 xs = Some m' \<and> queues_ok m' (\<lambda>c op. ?W c op \<union> own m1 xs c op) \<and> same_data m1 m'"
  proof (rule Cons.IH [OF m1(2)])
    show "distinct xs" using Cons.prems(2) by simp
    show "\<exists>A. alts m1 y = Some A \<and> (a_op A = CHANNOP \<or> (a_op A = CHANSND \<or> a_op A = CHANRCV) \<and> chans m1 (a_chan A) \<noteq> None)"
      if "y \<in> set xs" for y using Cons.prems(3) [of y] that ch unfolding al by auto
    show "y \<notin> ?W c op" if "y \<in> set xs" for y c op using Cons.prems(2) Cons.prems(4) [of y c op] that by auto
  qed
  then obtain m' where m': "alt_queue_all m1 xs = Some m'" "queues_ok m' (\<lambda>c op. ?W c op \<union> own m1 xs c op)" "same_data m1 m'" by blast
  have "?W c op \<union> own m1 xs c op = W c op \<union> own m (x # xs) c op" for c op
    using A(1) by (auto simp: own_def al)
  then show ?case using m' A(1) m1(1) same_data_trans [OF m1(3) m'(3)] by (intro exI [of _ m']) (simp del: own_def)
qed

end
