(* ===== verification/Chan_Steps.thy ===== *)
theory Chan_Steps
  imports Chan_Inv
begin

text \<open>
  The steps of the channel system keep its invariant: an alternative that is done moves its element and takes the
  other task out of the arrays, and one that cannot be done is queued.
\<close>

section \<open>What a transfer keeps\<close>

abbreviation opposite :: "altop \<Rightarrow> altop \<Rightarrow> bool" where
  "opposite op op' \<equiv> op = CHANSND \<and> op' = CHANRCV \<or> op = CHANRCV \<and> op' = CHANSND"

lemma transfer_chan:
  assumes "transfer m c sx rx m'" and "chans m c = Some C"
  obtains C' where "chans m' = (chans m)(c \<mapsto> C')" "same_shape C C'" "ring_ok C'"
    "unat (c_nbuf C') + (if rx = NULL then 0 else 1) = unat (c_nbuf C) + (if sx = NULL then 0 else 1)"
proof -
  from assms(1) obtain D C' taken given where T: "chans m c = Some D" "chans m' = (chans m)(c \<mapsto> C')" "same_shape D C'" "ring_ok C'"
    "taken @ contents C' = contents D @ given"
    "if rx = NULL then taken = [] \<and> cells m' = cells m
      else \<exists>R e. alts m rx = Some R \<and> taken = [e] \<and> length e = unat (c_elemsize D) \<and> cells m' = cells (deliver m (a_v R) e)"
    "if sx = NULL then given = []
      else \<exists>S e. alts m sx = Some S \<and> given = [e] \<and> length e = unat (c_elemsize D) \<and>
        (rx = NULL \<or> c_nbuf D = 0 \<or> map_option a_v (alts m rx) \<noteq> Some (a_v S) \<longrightarrow> e = elem_at m (a_v S) (unat (c_elemsize D)))"
    unfolding transfer_def by blast
  have D: "D = C" using T(1) assms(2) by simp
  have l: "length taken = (if rx = NULL then 0 else 1)" "length given = (if sx = NULL then 0 else 1)"
    using T(6) by (cases "rx = NULL"; force) (use T(7) in \<open>cases "sx = NULL"; force\<close>)
  from arg_cong [OF T(5), of length] l have "unat (c_nbuf C') + (if rx = NULL then 0 else 1) = unat (c_nbuf C) + (if sx = NULL then 0 else 1)"
    unfolding D by (simp only: length_append length_contents add.commute)
  with T(2-4) D that show ?thesis by blast
qed

lemma transfer_alts: "transfer m c sx rx m' \<Longrightarrow> alts m' = alts m"
  unfolding transfer_def by blast

lemma transfer_cells:
  assumes t: "transfer m c sx rx m'" and rx: "rx \<noteq> NULL \<Longrightarrow> alt_ok m rx c op" and v: "cell_ok m v n"
  shows "cell_ok m' v n"
proof (cases "rx = NULL")
  case True
  with t have "cells m' = cells m" by (auto simp: transfer_def)
  with v show ?thesis by (simp add: cell_ok_def)
next
  case False
  with t obtain C R e where T: "chans m c = Some C" "alts m rx = Some R" "length e = unat (c_elemsize C)" "cells m' = cells (deliver m (a_v R) e)"
    by (auto simp: transfer_def)
  from rx [OF False] T(1,2) have "cell_ok m (a_v R) (unat (c_elemsize C))" by (auto simp: alt_ok_def)
  from cell_ok_deliver [OF T(3) this v] T(4) show ?thesis by (simp add: cell_ok_def)
qed

lemma transfer_keeps:
  assumes t: "transfer m c sx rx m'" and C: "chans m c = Some C" and rx: "rx \<noteq> NULL \<Longrightarrow> alt_ok m rx c op"
  shows "keeps m m'"
proof -
  obtain C' where "chans m' = (chans m)(c \<mapsto> C')" "same_shape C C'" by (rule transfer_chan [OF t C])
  then show ?thesis using C transfer_cells [OF t rx] unfolding keeps_def by (auto simp: same_shape_def)
qed

lemma queues_shape:
  assumes q: "queues_ok m W" and m': "chans m' = (chans m)(c \<mapsto> C')" and C: "chans m c = Some C" "same_shape C C'" "ring_ok C'"
  shows "queues_ok m' W"
  unfolding queues_ok_def
proof (intro allI impI)
  fix d D assume D: "chans m' d = Some D"
  show "ring_ok D \<and> distinct (entries (asend D)) \<and> distinct (entries (arecv D)) \<and> set (entries (asend D)) = W d CHANSND \<and> set (entries (arecv D)) = W d CHANRCV"
    using D m' C queues_okD [OF q, of d] by (cases "d = c") (auto simp: same_shape_def)
qed

lemma quiet_shape:
  assumes "same_shape C C'" and "c_nbuf C' = c_nbuf C \<or> entries (asend C) = [] \<and> entries (arecv C) = []" and "alts m' = alts m" and "quiet m C"
  shows "quiet m' C'"
  using assms by (auto simp: quiet_def same_shape_def)

section \<open>The invariant, by parts\<close>

lemma chan_invD:
  assumes "chan_inv \<lparr>cm = m, cph = p\<rparr>"
  shows "phase_ok m t (p t)" "t \<noteq> u \<Longrightarrow> area (p t) \<inter> area (p u) = {}" "queues_ok m (waits m p)" "chans m c = Some C \<Longrightarrow> quiet m C"
  using assms by (simp_all add: chan_inv_def)

lemma chan_invI:
  assumes "\<And>t. phase_ok m t (p t)" "\<And>t u. t \<noteq> u \<Longrightarrow> area (p t) \<inter> area (p u) = {}" "queues_ok m (waits m p)" "\<And>c C. chans m c = Some C \<Longrightarrow> quiet m C"
  shows "chan_inv \<lparr>cm = m, cph = p\<rparr>"
  using assms by (simp add: chan_inv_def)

text \<open>A waiting alternative, seen from its channel.\<close>

lemma waits_task:
  assumes I: "chan_inv \<lparr>cm = m, cph = p\<rparr>" and x: "x \<in> waits m p c op" and op: "op = CHANSND \<or> op = CHANRCV"
  obtains u b n B where "p u = Waiting b n" "b \<le> x" "x < b + n" "alts m x = Some B" "a_chan B = c" "a_op B = op" "a_task B = u" "a_xalt B = b"
    "alt_ok m x c op" "b \<noteq> NULL" "x \<noteq> NULL"
proof -
  from waits_in [OF x] obtain u b n B where B: "p u = Waiting b n" "b \<le> x" "x < b + n" "alts m x = Some B" "a_chan B = c" "a_op B = op" by blast
  from chan_invD(1) [OF I, of u] B(1) have w: "phase_ok m u (Waiting b n)" by simp
  then have "\<exists>A. alts m x = Some A \<and> a_task A = u \<and> a_xalt A = b \<and> (a_op A = CHANNOP \<or> (a_op A = CHANSND \<or> a_op A = CHANRCV) \<and> alt_ok m x (a_chan A) (a_op A))"
    using B(2,3) by simp
  with B(4-6) op have "a_task B = u" "a_xalt B = b" "alt_ok m x c op" by auto
  moreover have "b \<noteq> NULL" using w by simp
  ultimately show ?thesis using that [OF B] B(2) by simp
qed

lemma waits_iff:
  assumes I: "chan_inv \<lparr>cm = m, cph = p\<rparr>" and u: "p u = Waiting b n" and x: "b \<le> x" "x < b + n" and A: "alts m x = Some A"
  shows "x \<in> waits m p c op \<longleftrightarrow> c = a_chan A \<and> op = a_op A"
  using u x A by (auto simp: waits_def)

text \<open>A task leaves the arrays of its channels, because its alternative at \<open>x\<close> has been done.\<close>

lemma waits_leave:
  assumes I: "chan_inv \<lparr>cm = m, cph = p\<rparr>" and u: "p u = Waiting b n" and al: "\<And>x. x \<noteq> b \<Longrightarrow> alts m' x = alts m x"
  shows "waits m' (p(u := Executed b n j)) c op = waits m p c op - {b..<b + n}"
proof -
  have d: "x \<notin> {b..b + n}" if "v \<noteq> u" "p v = Waiting a k" "a \<le> x" "x < a + k" for v a k x
  proof -
    have "x \<in> area (p v)" using that by simp
    moreover have "area (p v) \<inter> area (p u) = {}" by (rule chan_invD(2) [OF I that(1)])
    ultimately show ?thesis using u by auto
  qed
  show ?thesis
  proof (intro set_eqI iffI)
    fix x assume "x \<in> waits m' (p(u := Executed b n j)) c op"
    then obtain v a k A where v: "v \<noteq> u" "p v = Waiting a k" "a \<le> x" "x < a + k" "alts m' x = Some A" "a_chan A = c" "a_op A = op"
      by (auto simp: waits_def split: if_splits)
    from d [OF v(1-4)] have "x \<noteq> b" "x \<notin> {b..<b + n}" by auto
    with v al [of x] show "x \<in> waits m p c op - {b..<b + n}" by (auto simp: waits_def)
  next
    fix x assume x: "x \<in> waits m p c op - {b..<b + n}"
    then obtain v a k A where v: "p v = Waiting a k" "a \<le> x" "x < a + k" "alts m x = Some A" "a_chan A = c" "a_op A = op" by (auto simp: waits_def)
    have "v \<noteq> u" using v(1-3) u x by auto
    from d [OF this v(1-3)] have "alts m' x = Some A" using al [of x] v(4) by auto
    with v \<open>v \<noteq> u\<close> show "x \<in> waits m' (p(u := Executed b n j)) c op" unfolding waits_def by auto
  qed
qed

lemma leave_ok:
  assumes I: "chan_inv \<lparr>cm = m, cph = p\<rparr>" and u: "p u = Waiting b n" and x: "b \<le> x" "x < b + n" "alts m x = Some X" "a_op X = CHANSND \<or> a_op X = CHANRCV"
  shows "\<exists>m1 m2. altalldequeue m b = Some m1 \<and> on_alt m1 b (\<lambda>X. X\<lparr>a_xalt := x\<rparr>) = Some m2 \<and> fewer m m1 \<and> cells m2 = cells m \<and>
    chans m2 = chans m1 \<and> chanalt_resume m2 b = Some (x - b) \<and> chan_inv \<lparr>cm = m2, cph = p(u := Executed b n (x - b))\<rparr>"
proof -
  from chan_invD(1) [OF I, of u] u have P: "phase_ok m u (Waiting b n)" by simp
  have A: "\<exists>A. alts m y = Some A \<and> (a_op A = CHANNOP \<or> (a_op A = CHANSND \<or> a_op A = CHANRCV) \<and> chans m (a_chan A) \<noteq> None)"
    if "b \<le> y" "y < b + n" for y
  proof -
    from P that obtain A where "alts m y = Some A" "a_op A = CHANNOP \<or> (a_op A = CHANSND \<or> a_op A = CHANRCV) \<and> alt_ok m y (a_chan A) (a_op A)" by auto
    then show ?thesis by (auto simp: alt_ok_def)
  qed
  have "\<exists>m'. altalldequeue m b = Some m' \<and> queues_ok m' (\<lambda>c op. waits m p c op - {b..<b + n}) \<and> fewer m m'"
    by (rule all_dequeue_ok [OF _ _ _ A]) (use chan_invD(3) [OF I] P waits_iff [OF I u] in auto)
  then obtain m1 where m1: "altalldequeue m b = Some m1" "queues_ok m1 (\<lambda>c op. waits m p c op - {b..<b + n})" "fewer m m1" by blast
  have al: "alts m1 = alts m" by (rule fewer_alts(1) [OF m1(3)])
  obtain A0 where A0: "alts m b = Some A0" using A [of b] x by auto
  let ?m2 = "m1\<lparr>alts := (alts m)(b \<mapsto> A0\<lparr>a_xalt := x\<rparr>)\<rparr>"
  have m2: "on_alt m1 b (\<lambda>X. X\<lparr>a_xalt := x\<rparr>) = Some ?m2" using A0 al by (simp add: on_alt_def)
  have al2: "y \<noteq> b \<Longrightarrow> alts ?m2 y = alts m y" for y by simp
  have k: "keeps m ?m2" using fewer_keeps [OF m1(3)] by (simp add: keeps_def cell_ok_def)
  have inv: "chan_inv \<lparr>cm = ?m2, cph = p(u := Executed b n (x - b))\<rparr>"
  proof (rule chan_invI)
    fix v
    show "phase_ok ?m2 v ((p(u := Executed b n (x - b))) v)"
    proof (cases "v = u")
      case True
      have "\<exists>Y. alts ?m2 x = Some Y \<and> (a_op Y = CHANSND \<or> a_op Y = CHANRCV)" using x A0 by auto
      then show ?thesis using True x by auto
    next
      case False
      have "phase_ok ?m2 v (p v)"
      proof (rule phase_keeps [OF k _ chan_invD(1) [OF I]])
        fix y assume "y \<in> area (p v)"
        with chan_invD(2) [OF I False] u have "y \<noteq> b" by auto
        then show "alts ?m2 y = alts m y" by simp
      qed
      with False show ?thesis by simp
    qed
  next
    fix t v :: nat assume "t \<noteq> v"
    with chan_invD(2) [OF I this] u show "area ((p(u := Executed b n (x - b))) t) \<inter> area ((p(u := Executed b n (x - b))) v) = {}"
      by (auto split: if_splits)
  next
    show "queues_ok ?m2 (waits ?m2 (p(u := Executed b n (x - b))))"
      using m1(2) waits_leave [OF I u al2] by (simp add: queues_ok_def)
  next
    fix c C assume "chans ?m2 c = Some C"
    then have "quiet m1 C" using fewer_quiet [OF m1(3) chan_invD(4) [OF I]] by simp
    moreover have "map_option a_task (alts ?m2 y) = map_option a_task (alts m1 y)" for y using A0 al by simp
    ultimately show "quiet ?m2 C" by (simp add: quiet_def)
  qed
  have "chanalt_resume ?m2 b = Some (x - b)" by (simp add: chanalt_resume_def)
  moreover have "cells ?m2 = cells m" "chans ?m2 = chans m1" using fewer_alts(2) [OF m1(3)] by simp_all
  ultimately show ?thesis using m1 m2 inv by blast
qed


section \<open>An alternative is done\<close>

text \<open>An element has moved between the alternative \<open>x\<close> and \<open>y\<close>, or the buffer when \<open>y\<close> is null.\<close>

definition moved :: "chan_mem \<Rightarrow> addr \<Rightarrow> addr \<Rightarrow> chan_mem \<Rightarrow> bool" where
  "moved m x y m' \<longleftrightarrow> (\<exists>A. alts m x = Some A \<and> (if a_op A = CHANSND then transfer m (a_chan A) x y m' else transfer m (a_chan A) y x m'))"

lemma can_execD:
  assumes c: "altcanexec m x = Some True" and A: "alts m x = Some A" "a_op A = op" "opposite op op'" and C: "chans m (a_chan A) = Some C"
    and ar: "chanarray C (otherop op) = Some ar" "entries ar = []"
  shows "c_bufsize C \<noteq> 0" "if op = CHANSND then c_nbuf C < c_bufsize C else c_nbuf C \<noteq> 0"
  using assms by (auto simp: altcanexec_def split: if_splits)

lemma moved_inv:
  assumes I: "chan_inv \<lparr>cm = m, cph = p\<rparr>" and C: "chans m c = Some C" and t: "transfer m c sx rx m1"
    and rx: "rx \<noteq> NULL \<Longrightarrow> alt_ok m rx c op"
    and n: "sx \<noteq> NULL \<and> rx \<noteq> NULL \<or> entries (asend C) = [] \<and> entries (arecv C) = []"
  shows "chan_inv \<lparr>cm = m1, cph = p\<rparr>"
proof -
  note al = transfer_alts [OF t]
  obtain C' where C': "chans m1 = (chans m)(c \<mapsto> C')" "same_shape C C'" "ring_ok C'"
    "unat (c_nbuf C') + (if rx = NULL then 0 else 1) = unat (c_nbuf C) + (if sx = NULL then 0 else 1)"
    by (rule transfer_chan [OF t C])
  have W: "waits m1 p = waits m p" unfolding waits_def al by simp
  show ?thesis
  proof (rule chan_invI)
    show "phase_ok m1 v (p v)" for v by (rule phase_keeps [OF transfer_keeps [OF t C rx] _ chan_invD(1) [OF I]]) (simp_all add: al)
    show "t \<noteq> u \<Longrightarrow> area (p t) \<inter> area (p u) = {}" for t u by (rule chan_invD(2) [OF I])
    show "queues_ok m1 (waits m1 p)" unfolding W by (rule queues_shape [OF chan_invD(3) [OF I] C'(1) C C'(2,3)])
    fix d D assume D: "chans m1 d = Some D"
    show "quiet m1 D"
    proof (cases "d = c")
      case True
      have "c_nbuf C' = c_nbuf C \<or> entries (asend C) = [] \<and> entries (arecv C) = []"
        using n C'(4) by (auto simp: word_unat_eq_iff split: if_splits)
      with True D C'(1) quiet_shape [OF C'(2) _ al chan_invD(4) [OF I C]] show ?thesis by simp
    next
      case False
      with D C'(1) chan_invD(4) [OF I, of d D] show ?thesis by (simp add: quiet_def al)
    qed
  qed
qed

lemma altexec_ok:
  assumes I: "chan_inv \<lparr>cm = m, cph = p\<rparr>" and x: "x \<noteq> NULL" "alt_ok m x c op" "opposite op op'" and can: "altcanexec m x = Some True"
  shows "\<exists>m' w. altexec m x r = Some (m', w) \<and> chan_inv \<lparr>cm = m', cph = wake_task p m' w\<rparr> \<and>
    (case w of None \<Rightarrow> moved m x NULL m' \<and> waits m p c op' = {}
     | Some u \<Rightarrow> \<exists>y m1 m2 b n. p u = Waiting b n \<and> y \<in> {b..<b + n} \<inter> waits m p c op' \<and> moved m x y m1 \<and> fewer m1 m2 \<and>
         cells m' = cells m2 \<and> chans m' = chans m2 \<and> wake_task p m' w = p(u := Executed b n (y - b)))"
proof -
  obtain A C where A: "alts m x = Some A" "a_op A = op" "a_chan A = c" and C: "chans m c = Some C" using x(2) by (auto simp: alt_ok_def)
  note Q = queues_okD [OF chan_invD(3) [OF I] C]
  obtain ar where ar: "chanarray C (otherop op) = Some ar" "set (entries ar) = waits m p c op'"
    "ar = (if op = CHANSND then arecv C else asend C)" using x(3) Q(4,5) by auto
  show ?thesis
  proof (cases "entries ar = []")
    case True
    have e: "c_bufsize C \<noteq> 0" "if op = CHANSND then c_nbuf C < c_bufsize C else c_nbuf C \<noteq> 0"
      using can_execD [OF can A(1,2) x(3) _ ar(1) True] C A(3) by simp_all
    have "\<exists>s'. altcopy m x NULL = Some s' \<and> (if op = CHANSND then transfer m c x NULL s' else transfer m c NULL x s')"
      by (rule altcopy_transfer [OF C Q(1) x(1,2,3)]) (use e(2) in simp)
    then obtain m' where m': "altcopy m x NULL = Some m'" "if op = CHANSND then transfer m c x NULL m' else transfer m c NULL x m'" by blast
    have "altexec m x r = Some (m', None)" using A C ar(1) True m'(1) by (simp add: altexec_def)
    moreover have "moved m x NULL m'" using m'(2) A by (simp add: moved_def)
    moreover have "waits m p c op' = {}" using ar(2) True by simp
    moreover have "entries (asend C) = [] \<and> entries (arecv C) = []"
      using chan_invD(4) [OF I C] e ar(3) True x(3) by (auto simp: quiet_def)
    then have "chan_inv \<lparr>cm = m', cph = p\<rparr>"
      using m'(2) moved_inv [OF I C _ _, of x NULL] moved_inv [OF I C _ _, of NULL x m' op] x(2) by (auto split: if_splits)
    ultimately show ?thesis by (intro exI [of _ m'] exI [of _ None]) (simp add: wake_task_def)
  next
    case False
    define y where "y = entries ar ! (r mod length (entries ar))"
    have "y \<in> set (entries ar)" unfolding y_def using False by (intro nth_mem) simp
    then have yw: "y \<in> waits m p c op'" using ar(2) by simp
    have op': "op' = CHANSND \<or> op' = CHANRCV" using x(3) by auto
    obtain u b n B where B: "p u = Waiting b n" "b \<le> y" "y < b + n" "alts m y = Some B" "a_chan B = c" "a_op B = op'" "a_task B = u" "a_xalt B = b"
      "alt_ok m y c op'" "b \<noteq> NULL" "y \<noteq> NULL" by (rule waits_task [OF I yw op'])
    have "\<exists>s'. altcopy m x y = Some s' \<and> (if op = CHANSND then transfer m c x y s' else transfer m c y x s')"
      by (rule altcopy_transfer [OF C Q(1) x(1,2,3)]) (use B in simp)
    then obtain m1 where m1: "altcopy m x y = Some m1" "if op = CHANSND then transfer m c x y m1 else transfer m c y x m1" by blast
    have I1: "chan_inv \<lparr>cm = m1, cph = p\<rparr>"
      using m1(2) moved_inv [OF I C _ _, of x y m1 op'] moved_inv [OF I C _ _, of y x m1 op] x(1,2) B(9,11) by (auto split: if_splits)
    have al: "alts m1 = alts m" using m1(2) transfer_alts by (metis (full_types))
    have "alts m1 y = Some B" "a_op B = CHANSND \<or> a_op B = CHANRCV" using B op' al by simp_all
    from leave_ok [OF I1 B(1-3) this] obtain m2 m' where L: "altalldequeue m1 b = Some m2" "on_alt m2 b (\<lambda>X. X\<lparr>a_xalt := y\<rparr>) = Some m'"
      "fewer m1 m2" "cells m' = cells m1" "chans m' = chans m2" "chanalt_resume m' b = Some (y - b)"
      "chan_inv \<lparr>cm = m', cph = p(u := Executed b n (y - b))\<rparr>" by blast
    have "altexec m x r = Some (m', Some u)"
      using A C ar(1) False m1(1) y_def B(4,7,8) al L(1,2) by (simp add: altexec_def)
    moreover have w: "wake_task p m' (Some u) = p(u := Executed b n (y - b))" using B(1) L(6) by (simp add: wake_task_def)
    moreover have "moved m x y m1" using m1(2) A by (simp add: moved_def)
    moreover have "cells m' = cells m2" using L(4) fewer_alts(2) [OF L(3)] by simp
    ultimately show ?thesis using L(3,5,7) B(1-3) yw by (intro exI [of _ m'] exI [of _ "Some u"]) (simp, blast)
  qed
qed

section \<open>An alternative that waits\<close>

lemma can_exec_total:
  assumes "alts m x = Some A" and "a_op A = CHANNOP \<or> (a_op A = CHANSND \<or> a_op A = CHANRCV) \<and> alt_ok m x (a_chan A) (a_op A)"
  shows "altcanexec m x \<noteq> None"
  using assms by (auto simp: altcanexec_def alt_ok_def)

text \<open>Why an alternative cannot be done.\<close>

lemma cannot_exec:
  assumes "altcanexec m x = Some False" and "alts m x = Some A" "a_op A = op" and "chans m (a_chan A) = Some C" "ring_ok C"
  shows "op = CHANSND \<Longrightarrow> if c_bufsize C = 0 then entries (arecv C) = [] else c_nbuf C = c_bufsize C"
    "op = CHANRCV \<Longrightarrow> if c_bufsize C = 0 then entries (asend C) = [] else c_nbuf C = 0"
  using assms by (auto simp: altcanexec_def ring_ok_def word_neq_0_conv [symmetric] split: if_splits)


section \<open>A call of chanalt\<close>

definition slots :: "addr \<Rightarrow> nat \<Rightarrow> addr list" where
  "slots a n = map (\<lambda>i. a + i) [0..<n]"

lemma set_slots: "set (slots a n) = {a..<a + n}"
  by (auto simp: slots_def image_iff)

lemma distinct_slots: "distinct (slots a n)"
  by (simp add: slots_def distinct_map)

text \<open>The memory once the task has marked its alternatives.\<close>

definition prepared :: "chan_mem \<Rightarrow> nat \<Rightarrow> addr \<Rightarrow> (addr \<times> altop \<times> addr) list \<Rightarrow> bool \<Rightarrow> chan_mem" where
  "prepared m t a xs canblock = marked (write_alts m a xs canblock) t a (slots a (length xs))"

lemma prepared_fields: "chans (prepared m t a xs cb) = chans m" "cells (prepared m t a xs cb) = cells m"
  by (simp_all add: prepared_def marked_def write_alts_def)

lemma prepared_other: "p \<notin> {a..a + length xs} \<Longrightarrow> alts (prepared m t a xs cb) p = alts m p"
  by (auto simp: prepared_def marked_def write_alts_def set_slots)

lemma prepared_alt: "i < length xs \<Longrightarrow> xs ! i = (c, op, v) \<Longrightarrow>
    alts (prepared m t a xs cb) (a + i) = Some \<lparr>a_chan = c, a_v = v, a_op = op, a_task = t, a_xalt = a\<rparr>"
  by (simp add: prepared_def marked_def write_alts_def set_slots)

lemma prepared_end: "alts (prepared m t a xs cb) (a + length xs) =
    Some \<lparr>a_chan = NULL, a_v = NULL, a_op = if cb then CHANEND else CHANNOBLK, a_task = 0, a_xalt = NULL\<rparr>"
  by (simp add: prepared_def marked_def write_alts_def set_slots)

lemma prepared_good:
  assumes "\<forall>x \<in> set xs. good_alt m x" and "a \<le> y" "y < a + length xs"
  obtains c op v where "alts (prepared m t a xs cb) y = Some \<lparr>a_chan = c, a_v = v, a_op = op, a_task = t, a_xalt = a\<rparr>"
    "xs ! (y - a) = (c, op, v)" "op = CHANNOP \<or> (op = CHANSND \<or> op = CHANRCV) \<and> alt_ok (prepared m t a xs cb) y c op"
proof -
  obtain c op v where x: "xs ! (y - a) = (c, op, v)" by (cases "xs ! (y - a)")
  have i: "y - a < length xs" using assms(2,3) by linarith
  have A: "alts (prepared m t a xs cb) y = Some \<lparr>a_chan = c, a_v = v, a_op = op, a_task = t, a_xalt = a\<rparr>"
    using prepared_alt [OF i x, of m t a cb] assms(2) by simp
  have "good_alt m (c, op, v)" using assms(1) nth_mem [OF i] x by auto
  then have "op = CHANNOP \<or> (op = CHANSND \<or> op = CHANRCV) \<and> alt_ok (prepared m t a xs cb) y c op"
    using A by (auto simp: good_alt_def alt_ok_def prepared_fields cell_ok_def)
  with A x that show ?thesis by blast
qed

lemma prepared_inv:
  assumes I: "chan_inv s" and d: "\<And>u. area (cph s u) \<inter> {a..a + length xs} = {}"
  shows "chan_inv \<lparr>cm = prepared (cm s) t a xs cb, cph = cph s\<rparr>"
proof -
  let ?m = "prepared (cm s) t a xs cb"
  have I': "chan_inv \<lparr>cm = cm s, cph = cph s\<rparr>" using I by (simp add: chan_inv_def)
  have al: "alts ?m x = alts (cm s) x" if "x \<in> area (cph s u)" for x u using prepared_other [of x a xs] d [of u] that by blast
  have W: "waits ?m (cph s) c op = waits (cm s) (cph s) c op" for c op by (rule waits_frame) (rule al)
  note Q = chan_invD(3) [OF I']
  show ?thesis
  proof (rule chan_invI)
    show "phase_ok ?m u (cph s u)" for u
      by (rule phase_keeps [OF keeps_same al chan_invD(1) [OF I']]) (simp_all add: prepared_fields)
    show "t \<noteq> u \<Longrightarrow> area (cph s t) \<inter> area (cph s u) = {}" for t u by (rule chan_invD(2) [OF I'])
    show "queues_ok ?m (waits ?m (cph s))" using Q by (simp add: queues_ok_def W prepared_fields)
    fix c C assume "chans ?m c = Some C"
    then have C: "chans (cm s) c = Some C" by (simp add: prepared_fields)
    have "alts ?m x = alts (cm s) x" if "x \<in> set (entries (asend C)) \<union> set (entries (arecv C))" for x
    proof -
      from that have "x \<in> waits (cm s) (cph s) c CHANSND \<or> x \<in> waits (cm s) (cph s) c CHANRCV" using queues_okD(4,5) [OF Q C] by blast
      then show ?thesis using waits_area [of x "cm s" "cph s"] al by blast
    qed
    then show "quiet ?m C" using chan_invD(4) [OF I' C] by (simp add: quiet_def)
  qed
qed

text \<open>The queues and the phase of a task that starts to wait.\<close>

lemma wait_inv:
  assumes I: "chan_inv \<lparr>cm = m, cph = p\<rparr>" and t: "p t = Outside" and a: "a \<noteq> NULL" and d: "\<And>u. area (p u) \<inter> {a..a + n} = {}"
    and E: "\<exists>E. alts m (a + n) = Some E \<and> a_op E = CHANEND"
    and A: "\<And>x. a \<le> x \<Longrightarrow> x < a + n \<Longrightarrow> \<exists>A. alts m x = Some A \<and> a_task A = t \<and> a_xalt A = a \<and>
        (a_op A = CHANNOP \<or> (a_op A = CHANSND \<or> a_op A = CHANRCV) \<and> alt_ok m x (a_chan A) (a_op A))"
    and can: "\<And>x. x \<in> set (slots a n) \<Longrightarrow> altcanexec m x = Some False"
  shows "\<exists>m'. alt_queue_all m (slots a n) = Some m' \<and> chan_inv \<lparr>cm = m', cph = p(t := Waiting a n)\<rparr> \<and> same_data m m'"
proof -
  note Q = chan_invD(3) [OF I]
  let ?p = "p(t := Waiting a n)"
  have "\<exists>m'. alt_queue_all m (slots a n) = Some m' \<and> queues_ok m' (\<lambda>c op. waits m p c op \<union> own m (slots a n) c op) \<and> same_data m m'"
  proof (rule queue_all_ok [OF Q distinct_slots])
    fix x assume "x \<in> set (slots a n)"
    then have x: "a \<le> x" "x < a + n" by (simp_all add: set_slots)
    from A [OF x] show "\<exists>A. alts m x = Some A \<and> (a_op A = CHANNOP \<or> (a_op A = CHANSND \<or> a_op A = CHANRCV) \<and> chans m (a_chan A) \<noteq> None)"
      by (auto simp: alt_ok_def)
    show "x \<notin> waits m p c op" for c op using waits_area [of x m p c op] d x by fastforce
  qed
  then obtain m' where m': "alt_queue_all m (slots a n) = Some m'" "queues_ok m' (\<lambda>c op. waits m p c op \<union> own m (slots a n) c op)" "same_data m m'"
    by blast
  have al: "alts m' = alts m" using m'(3) by (simp add: same_data_def)
  have k: "keeps m m'" by (rule same_data_keeps [OF m'(3)])
  have W: "waits m' ?p c op = waits m p c op \<union> own m (slots a n) c op" for c op
  proof (intro set_eqI iffI)
    fix x assume "x \<in> waits m' ?p c op"
    then show "x \<in> waits m p c op \<union> own m (slots a n) c op" by (auto simp: waits_def own_def set_slots al split: if_splits)
  next
    fix x assume "x \<in> waits m p c op \<union> own m (slots a n) c op"
    then show "x \<in> waits m' ?p c op"
    proof
      assume "x \<in> waits m p c op"
      then obtain u b k B where u: "p u = Waiting b k" "b \<le> x" "x < b + k" "alts m x = Some B" "a_chan B = c" "a_op B = op"
        by (auto simp: waits_def)
      then have "?p u = Waiting b k" using t by auto
      with u show ?thesis unfolding waits_def al by blast
    next
      assume "x \<in> own m (slots a n) c op"
      then show ?thesis unfolding waits_def al own_def set_slots by fastforce
    qed
  qed
  have "chan_inv \<lparr>cm = m', cph = ?p\<rparr>"
  proof (rule chan_invI)
    fix u
    have "phase_ok m t (Waiting a n)" using a E A by simp
    from phase_keeps [OF k _ this] phase_keeps [OF k _ chan_invD(1) [OF I, of u]] show "phase_ok m' u (?p u)" by (simp add: al)
  next
    fix u v :: nat assume uv: "u \<noteq> v"
    from uv chan_invD(2) [OF I uv] d [of u] d [of v] show "area (?p u) \<inter> area (?p v) = {}" by auto
  next
    show "queues_ok m' (waits m' ?p)" using m'(2) by (simp add: queues_ok_def W)
  next
    fix c C' assume C': "chans m' c = Some C'"
    obtain C where C: "chans m c = Some C" "c_bufsize C' = c_bufsize C" "c_nbuf C' = c_nbuf C"
      by (rule same_data_chan [OF m'(3) C'])
    note R = queues_okD [OF Q C(1)] and R' = queues_okD [OF m'(2) C'] and q = chan_invD(4) [OF I C(1)]
    have cannot: "\<exists>A. alts m x = Some A \<and> a_task A = t" "op = CHANSND \<Longrightarrow> if c_bufsize C = 0 then entries (arecv C) = [] else c_nbuf C = c_bufsize C"
      "op = CHANRCV \<Longrightarrow> if c_bufsize C = 0 then entries (asend C) = [] else c_nbuf C = 0" if "x \<in> own m (slots a n) c op" for x op
    proof -
      from that obtain B where B: "x \<in> set (slots a n)" "alts m x = Some B" "a_chan B = c" "a_op B = op" by (auto simp: own_def)
      with A [of x] show "\<exists>A. alts m x = Some A \<and> a_task A = t" by (auto simp: set_slots)
      show "op = CHANSND \<Longrightarrow> if c_bufsize C = 0 then entries (arecv C) = [] else c_nbuf C = c_bufsize C"
        "op = CHANRCV \<Longrightarrow> if c_bufsize C = 0 then entries (asend C) = [] else c_nbuf C = 0"
        using cannot_exec [OF can [OF B(1)] B(2,4), of C] C(1) B(3) R(1) by simp_all
    qed
    show "quiet m' C'"
    proof (cases "c_bufsize C = 0")
      case True
      have "map_option a_task (alts m x) = map_option a_task (alts m y)"
        if x: "x \<in> set (entries (asend C'))" and y: "y \<in> set (entries (arecv C'))" for x y
      proof -
        from x y have "x \<in> set (entries (asend C)) \<or> x \<in> own m (slots a n) c CHANSND" "y \<in> set (entries (arecv C)) \<or> y \<in> own m (slots a n) c CHANRCV"
          using R R' by auto
        moreover have "\<not> (x \<in> own m (slots a n) c CHANSND \<and> y \<in> set (entries (arecv C)))"
          using cannot(2) [of x CHANSND] True by auto
        moreover have "\<not> (y \<in> own m (slots a n) c CHANRCV \<and> x \<in> set (entries (asend C)))"
          using cannot(3) [of y CHANRCV] True by auto
        ultimately consider "x \<in> set (entries (asend C))" "y \<in> set (entries (arecv C))"
          | "x \<in> own m (slots a n) c CHANSND" "y \<in> own m (slots a n) c CHANRCV" by blast
        then show ?thesis
        proof cases
          case 1
          then show ?thesis using q True by (simp add: quiet_def)
        next
          case 2
          from cannot(1) [OF 2(1)] cannot(1) [OF 2(2)] show ?thesis by auto
        qed
      qed
      with True C show ?thesis by (simp add: quiet_def al)
    next
      case False
      have "entries (asend C') \<noteq> [] \<Longrightarrow> c_nbuf C = c_bufsize C"
      proof -
        assume "entries (asend C') \<noteq> []"
        then have "entries (asend C) \<noteq> [] \<or> own m (slots a n) c CHANSND \<noteq> {}" using R R' by auto
        then show ?thesis using q False cannot(2) [of _ CHANSND] by (auto simp: quiet_def)
      qed
      moreover have "entries (arecv C') \<noteq> [] \<Longrightarrow> c_nbuf C = 0"
      proof -
        assume "entries (arecv C') \<noteq> []"
        then have "entries (arecv C) \<noteq> [] \<or> own m (slots a n) c CHANRCV \<noteq> {}" using R R' by auto
        then show ?thesis using q False cannot(3) [of _ CHANRCV] by (auto simp: quiet_def)
      qed
      ultimately show ?thesis using False C by (simp add: quiet_def)
    qed
  qed
  with m' show ?thesis by blast
qed


section \<open>Every event\<close>

text \<open>
  A call of \<^verbatim>\<open>chanalt\<close>: one of the alternatives that can be done is done, or none can be done, and the task
  does not block, or is switched.
\<close>

lemma alt_call_cases:
  assumes I: "chan_inv s" and en: "chan_enabled (AltCall t a xs cb r1 r2) s" and m: "m = prepared (cm s) t a xs cb"
  shows "chan_inv \<lparr>cm = m, cph = cph s\<rparr> \<and>
    ((\<exists>i c op v m' w. i < length xs \<and> xs ! i = (c, op, v) \<and> (op = CHANSND \<or> op = CHANRCV) \<and> alt_ok m (a + i) c op \<and> altcanexec m (a + i) = Some True \<and>
        altexec m (a + i) r2 = Some (m', w) \<and> chan_step (AltCall t a xs cb r1 r2) s = Some (s\<lparr>cm := m', cph := wake_task (cph s) m' w\<rparr>, Some (int i))) \<or>
     (\<forall>i < length xs. altcanexec m (a + i) = Some False) \<and> \<not> cb \<and> chan_step (AltCall t a xs cb r1 r2) s = Some (s\<lparr>cm := m\<rparr>, Some (-1)) \<or>
     (\<forall>i < length xs. altcanexec m (a + i) = Some False) \<and> cb \<and> (\<exists>m'. same_data m m' \<and>
        chan_step (AltCall t a xs cb r1 r2) s = Some (s\<lparr>cm := m', cph := (cph s)(t := Waiting a (length xs))\<rparr>, None) \<and>
        chan_inv \<lparr>cm = m', cph = (cph s)(t := Waiting a (length xs))\<rparr>))"
proof -
  let ?n = "length xs"
  have en': "cph s t = Outside" "a \<noteq> NULL" "\<And>u. area (cph s u) \<inter> {a..a + ?n} = {}" "\<forall>x \<in> set xs. good_alt (cm s) x"
    using en by simp_all
  have Im: "chan_inv \<lparr>cm = m, cph = cph s\<rparr>" unfolding m by (rule prepared_inv [OF I en'(3)])
  have E: "alts m (a + ?n) = Some \<lparr>a_chan = NULL, a_v = NULL, a_op = if cb then CHANEND else CHANNOBLK, a_task = 0, a_xalt = NULL\<rparr>"
    unfolding m by (rule prepared_end)
  have A: "\<exists>A. alts m y = Some A \<and> a_task A = t \<and> a_xalt A = a \<and> xs ! (y - a) = (a_chan A, a_op A, a_v A) \<and>
      (a_op A = CHANNOP \<or> (a_op A = CHANSND \<or> a_op A = CHANRCV) \<and> alt_ok m y (a_chan A) (a_op A))" if y: "a \<le> y" "y < a + ?n" for y
    by (rule prepared_good [OF en'(4) y, of t cb]) (auto simp: m)
  let ?m0 = "write_alts (cm s) a xs cb"
  have E0: "alts ?m0 (a + ?n) = Some \<lparr>a_chan = NULL, a_v = NULL, a_op = if cb then CHANEND else CHANNOBLK, a_task = 0, a_xalt = NULL\<rparr>"
    by (simp add: write_alts_def)
  have len: "alt_len ?m0 a 0 = Some ?n"
  proof (rule alt_len_found)
    show "alts ?m0 (a + ?n) = Some \<lparr>a_chan = NULL, a_v = NULL, a_op = if cb then CHANEND else CHANNOBLK, a_task = 0, a_xalt = NULL\<rparr>" by (rule E0)
    fix y assume y: "a \<le> y" "y < a + ?n"
    obtain c op v where x: "xs ! (y - a) = (c, op, v)" by (cases "xs ! (y - a)")
    have "good_alt (cm s) (c, op, v)" using en'(4) nth_mem [of "y - a" xs] x y by auto
    then show "\<exists>A. alts ?m0 y = Some A \<and> a_op A \<noteq> CHANEND \<and> a_op A \<noteq> CHANNOBLK"
      using y x by (auto simp: write_alts_def good_alt_def)
  qed simp_all
  have mark: "alt_mark ?m0 t a (slots a ?n) = Some m"
    unfolding m prepared_def by (rule alt_mark_marked) (auto simp: set_slots write_alts_def split: prod.splits)
  have can: "altcanexec m x \<noteq> None" if "x \<in> set (slots a ?n)" for x
  proof -
    from that have "a \<le> x" "x < a + ?n" by (simp_all add: set_slots)
    from A [OF this] show ?thesis using can_exec_total by blast
  qed
  obtain k where k: "alt_count m (slots a ?n) = Some k"
    "(\<exists>x \<in> set (slots a ?n). altcanexec m x = Some True) \<and> k \<noteq> 0 \<and> (\<exists>x \<in> set (slots a ?n). altcanexec m x = Some True \<and> alt_pick m (slots a ?n) (r1 mod k) = Some (Some x)) \<or>
     (\<forall>x \<in> set (slots a ?n). altcanexec m x = Some False) \<and> k = 0"
    using alt_choice [where xs = "slots a ?n" and r = r1, OF can] by blast
  have call: "chanalt ?m0 t a r1 r2 = (do {
      picked \<leftarrow> (if k \<noteq> 0 then alt_pick m (slots a ?n) (r1 mod k) else Some None);
      case picked of
        Some x \<Rightarrow> do { (s, woken) \<leftarrow> altexec m x r2; Some (s, Ran (x - a) woken) }
      | None \<Rightarrow> if \<not> cb then Some (m, NotReady) else do { s \<leftarrow> alt_queue_all m (slots a ?n); Some (s, Switched) } })"
    using len mark k(1) E0 by (simp add: chanalt_def slots_def [symmetric] Let_def)
  from k(2) show ?thesis
  proof (elim disjE conjE)
    assume k0: "k \<noteq> 0" and "\<exists>x \<in> set (slots a ?n). altcanexec m x = Some True \<and> alt_pick m (slots a ?n) (r1 mod k) = Some (Some x)"
    then obtain x where x: "a \<le> x" "x < a + ?n" "altcanexec m x = Some True" "alt_pick m (slots a ?n) (r1 mod k) = Some (Some x)"
      by (auto simp: set_slots)
    from A [OF x(1,2)] obtain B where B: "alts m x = Some B" "xs ! (x - a) = (a_chan B, a_op B, a_v B)"
      "a_op B = CHANNOP \<or> (a_op B = CHANSND \<or> a_op B = CHANRCV) \<and> alt_ok m x (a_chan B) (a_op B)" by blast
    have op: "a_op B = CHANSND \<or> a_op B = CHANRCV" "alt_ok m x (a_chan B) (a_op B)"
      using B(1,3) x(3) by (auto simp: altcanexec_def)
    then obtain op' where op': "opposite (a_op B) op'" by auto
    from altexec_ok [OF Im _ op(2) op' x(3), of r2] x(1) en'(2) obtain m' w where e: "altexec m x r2 = Some (m', w)" by auto
    have "chan_step (AltCall t a xs cb r1 r2) s = Some (s\<lparr>cm := m', cph := wake_task (cph s) m' w\<rparr>, Some (int (x - a)))"
      using call k0 x(4) e by simp
    then have "\<exists>i c op v m' w. i < ?n \<and> xs ! i = (c, op, v) \<and> (op = CHANSND \<or> op = CHANRCV) \<and> alt_ok m (a + i) c op \<and> altcanexec m (a + i) = Some True \<and>
        altexec m (a + i) r2 = Some (m', w) \<and> chan_step (AltCall t a xs cb r1 r2) s = Some (s\<lparr>cm := m', cph := wake_task (cph s) m' w\<rparr>, Some (int i))"
      using x(1-3) B(2) op e by (intro exI [of _ "x - a"] exI [of _ "a_chan B"] exI [of _ "a_op B"] exI [of _ "a_v B"] exI [of _ m'] exI [of _ w]) simp
    with Im show ?thesis by blast
  next
    assume none: "\<forall>x \<in> set (slots a ?n). altcanexec m x = Some False" and k0: "k = 0"
    have none': "\<forall>i < ?n. altcanexec m (a + i) = Some False" using none by (simp add: set_slots)
    show ?thesis
    proof (cases cb)
      case False
      then have "chan_step (AltCall t a xs cb r1 r2) s = Some (s\<lparr>cm := m\<rparr>, Some (-1))" using call k0 by simp
      with Im none' False show ?thesis by blast
    next
      case True
      have "\<exists>m'. alt_queue_all m (slots a ?n) = Some m' \<and> chan_inv \<lparr>cm = m', cph = (cph s)(t := Waiting a ?n)\<rparr> \<and> same_data m m'"
        by (rule wait_inv [where p = "cph s", OF Im en'(1-3)]) (use E True A none in \<open>auto simp: set_slots\<close>)
      then obtain m' where m': "alt_queue_all m (slots a ?n) = Some m'" "chan_inv \<lparr>cm = m', cph = (cph s)(t := Waiting a ?n)\<rparr>" "same_data m m'" by blast
      have "chan_step (AltCall t a xs cb r1 r2) s = Some (s\<lparr>cm := m', cph := (cph s)(t := Waiting a ?n)\<rparr>, None)"
        using call k0 True m'(1) by simp
      with Im none' True m'(2,3) show ?thesis by blast
    qed
  qed
qed

lemma new_chan_inv:
  assumes I: "chan_inv s" and en: "chan_enabled (NewChan c junk es bs) s"
  shows "\<exists>s' r. chan_step (NewChan c junk es bs) s = Some (s', r) \<and> chan_inv s'"
proof -
  let ?C = "\<lparr>c_bufsize = bs, c_elemsize = es, c_buf = junk, c_nbuf = 0, c_off = 0, asend = \<lparr>entries = [], acap = 0\<rparr>, arecv = \<lparr>entries = [], acap = 0\<rparr>\<rparr>"
  let ?m = "(cm s)\<lparr>chans := (chans (cm s))(c \<mapsto> ?C)\<rparr>"
  have I': "chan_inv \<lparr>cm = cm s, cph = cph s\<rparr>" using I by (simp add: chan_inv_def)
  have c: "c \<noteq> NULL" "chans (cm s) c = None" using en by simp_all
  have k: "keeps (cm s) ?m" using c by (auto simp: keeps_def cell_ok_def)
  have W: "waits ?m (cph s) = waits (cm s) (cph s)" by (simp add: waits_def fun_eq_iff)
  have none: "waits (cm s) (cph s) c op = {}" if op: "op = CHANSND \<or> op = CHANRCV" for op
  proof -
    have False if "x \<in> waits (cm s) (cph s) c op" for x
      by (rule waits_task [OF I' that op]) (use c in \<open>auto simp: alt_ok_def\<close>)
    then show ?thesis by blast
  qed
  have "chan_inv \<lparr>cm = ?m, cph = cph s\<rparr>"
  proof (rule chan_invI)
    show "phase_ok ?m u (cph s u)" for u by (rule phase_keeps [OF k _ chan_invD(1) [OF I']]) simp
    show "t \<noteq> u \<Longrightarrow> area (cph s t) \<inter> area (cph s u) = {}" for t u by (rule chan_invD(2) [OF I'])
    show "queues_ok ?m (waits ?m (cph s))"
      unfolding queues_ok_def W
    proof (intro allI impI)
      fix d D assume D: "chans ?m d = Some D"
      have new: "ring_ok ?C" using en by (auto simp: ring_ok_def word_neq_0_conv)
      show "ring_ok D \<and> distinct (entries (asend D)) \<and> distinct (entries (arecv D)) \<and>
        set (entries (asend D)) = waits (cm s) (cph s) d CHANSND \<and> set (entries (arecv D)) = waits (cm s) (cph s) d CHANRCV"
        using D new none queues_okD [OF chan_invD(3) [OF I'], of d D] by (cases "d = c") auto
    qed
    fix d D assume D: "chans ?m d = Some D"
    show "quiet ?m D"
    proof (cases "d = c")
      case True
      with D show ?thesis by (auto simp: quiet_def)
    next
      case False
      with D chan_invD(4) [OF I', of d D] show ?thesis by (simp add: quiet_def)
    qed
  qed
  then show ?thesis using c(1) by (simp add: chancreate_def chan_inv_def)
qed

lemma set_cell_inv:
  assumes I: "chan_inv s" and v: "\<not> in_use s v"
  shows "chan_inv (s\<lparr>cm := (cm s)\<lparr>cells := (cells (cm s))(v \<mapsto> bs)\<rparr>\<rparr>)"
proof -
  let ?m = "(cm s)\<lparr>cells := (cells (cm s))(v \<mapsto> bs)\<rparr>"
  have I': "chan_inv \<lparr>cm = cm s, cph = cph s\<rparr>" using I by (simp add: chan_inv_def)
  have W: "waits ?m (cph s) = waits (cm s) (cph s)" by (simp add: waits_def fun_eq_iff)
  have "chan_inv \<lparr>cm = ?m, cph = cph s\<rparr>"
  proof (rule chan_invI)
    fix u
    show "phase_ok ?m u (cph s u)"
    proof (cases "cph s u")
      case (Waiting b n)
      have P: "phase_ok (cm s) u (Waiting b n)" using chan_invD(1) [OF I', of u] Waiting by simp
      have "\<exists>A. alts ?m x = Some A \<and> a_task A = u \<and> a_xalt A = b \<and> (a_op A = CHANNOP \<or> (a_op A = CHANSND \<or> a_op A = CHANRCV) \<and> alt_ok ?m x (a_chan A) (a_op A))"
        if x: "b \<le> x" "x < b + n" for x
      proof -
        from P x obtain A where A: "alts (cm s) x = Some A" "a_task A = u" "a_xalt A = b"
          "a_op A = CHANNOP \<or> (a_op A = CHANSND \<or> a_op A = CHANRCV) \<and> alt_ok (cm s) x (a_chan A) (a_op A)" by auto
        have "a_op A \<noteq> CHANNOP \<Longrightarrow> a_v A \<noteq> v"
        proof
          assume "a_op A \<noteq> CHANNOP" "a_v A = v"
          moreover have "alts (cm s) (b + (x - b)) = Some A" "x - b < n" using A(1) x by simp_all
          ultimately have "in_use s v" using Waiting unfolding in_use_def by blast
          with v show False by simp
        qed
        with A show ?thesis by (auto simp: alt_ok_def cell_ok_def)
      qed
      with P Waiting show ?thesis by simp
    qed (use chan_invD(1) [OF I', of u] in simp_all)
  next
    show "t \<noteq> u \<Longrightarrow> area (cph s t) \<inter> area (cph s u) = {}" for t u by (rule chan_invD(2) [OF I'])
    show "queues_ok ?m (waits ?m (cph s))" using chan_invD(3) [OF I'] unfolding W by (simp add: queues_ok_def)
    show "chans ?m c = Some C \<Longrightarrow> quiet ?m C" for c C using chan_invD(4) [OF I', of c C] by (simp add: quiet_def)
  qed
  then show ?thesis by (simp add: chan_inv_def)
qed

lemma return_inv:
  assumes I: "chan_inv s" and t: "cph s t = Executed a n j"
  shows "chan_inv (s\<lparr>cph := (cph s)(t := Outside)\<rparr>)" "chanalt_resume (cm s) a = Some j"
proof -
  have I': "chan_inv \<lparr>cm = cm s, cph = cph s\<rparr>" using I by (simp add: chan_inv_def)
  have W: "waits (cm s) ((cph s)(t := Outside)) = waits (cm s) (cph s)"
    using t unfolding waits_def fun_eq_iff by (intro allI Collect_cong) (metis chan_phase.distinct(1) chan_phase.distinct(5) fun_upd_apply)
  have "chan_inv \<lparr>cm = cm s, cph = (cph s)(t := Outside)\<rparr>"
  proof (rule chan_invI)
    show "phase_ok (cm s) u (((cph s)(t := Outside)) u)" for u using chan_invD(1) [OF I', of u] by simp
    show "area (((cph s)(t := Outside)) v) \<inter> area (((cph s)(t := Outside)) u) = {}" if "v \<noteq> u" for v u
      using chan_invD(2) [OF I' that] by simp
    show "queues_ok (cm s) (waits (cm s) ((cph s)(t := Outside)))" unfolding W by (rule chan_invD(3) [OF I'])
    show "chans (cm s) c = Some C \<Longrightarrow> quiet (cm s) C" for c C by (rule chan_invD(4) [OF I'])
  qed
  then show "chan_inv (s\<lparr>cph := (cph s)(t := Outside)\<rparr>)" by (simp add: chan_inv_def)
  show "chanalt_resume (cm s) a = Some j" using chan_invD(1) [OF I', of t] t by (auto simp: chanalt_resume_def)
qed

lemma chan_event_inv:
  assumes I: "chan_inv s" and en: "chan_enabled e s"
  shows "\<exists>s' r. chan_step e s = Some (s', r) \<and> chan_inv s'"
proof (cases e)
  case (AltCall t a xs cb r1 r2)
  note C = alt_call_cases [OF I en [unfolded AltCall] refl]
  let ?m = "prepared (cm s) t a xs cb"
  from C consider (exec) i c op m' w where "(op = CHANSND \<or> op = CHANRCV)" "alt_ok ?m (a + i) c op" "altcanexec ?m (a + i) = Some True"
      "altexec ?m (a + i) r2 = Some (m', w)" "chan_step (AltCall t a xs cb r1 r2) s = Some (s\<lparr>cm := m', cph := wake_task (cph s) m' w\<rparr>, Some (int i))"
    | (no) "chan_step (AltCall t a xs cb r1 r2) s = Some (s\<lparr>cm := ?m\<rparr>, Some (-1))"
    | (wait) m' where "chan_step (AltCall t a xs cb r1 r2) s = Some (s\<lparr>cm := m', cph := (cph s)(t := Waiting a (length xs))\<rparr>, None)"
      "chan_inv \<lparr>cm = m', cph = (cph s)(t := Waiting a (length xs))\<rparr>" by blast
  then show ?thesis
  proof cases
    case exec
    obtain op' where op': "opposite op op'" using exec(1) by auto
    have "a + i \<noteq> NULL" using en AltCall by simp
    from altexec_ok [OF _ this exec(2) op' exec(3), of "cph s" r2] C exec(4) have "chan_inv \<lparr>cm = m', cph = wake_task (cph s) m' w\<rparr>" by auto
    then have "chan_inv (s\<lparr>cm := m', cph := wake_task (cph s) m' w\<rparr>)" by (simp add: chan_inv_def)
    with exec(5) AltCall show ?thesis by blast
  next
    case no
    have "chan_inv (s\<lparr>cm := ?m\<rparr>)" using conjunct1 [OF C] by (simp add: chan_inv_def)
    with no AltCall show ?thesis by blast
  next
    case wait
    have "chan_inv (s\<lparr>cm := m', cph := (cph s)(t := Waiting a (length xs))\<rparr>)" using wait(2) by (simp add: chan_inv_def)
    with wait(1) AltCall show ?thesis by blast
  qed
next
  case (NewChan c junk es bs)
  with new_chan_inv [OF I] en show ?thesis by simp
next
  case (SetCell v bs)
  with set_cell_inv [OF I, of v bs] en show ?thesis by simp
next
  case (AltReturn t)
  with en obtain a n j where "cph s t = Executed a n j" by auto
  with return_inv [OF I this] AltReturn show ?thesis by simp
qed

lemma chan_reach_inv: "chan_reach s \<Longrightarrow> chan_inv s"
proof (induction rule: chan_reach.induct)
  case (start s)
  then show ?case by (simp add: chan_inv_def queues_ok_def)
next
  case (event s e s' r)
  from chan_event_inv [OF event.IH event.hyps(2)] event.hyps(3) show ?case by auto
qed

end
