(* ===== verification/Chan_Props.thy ===== *)
theory Chan_Props
  imports Chan_Steps
begin

text \<open>
  The properties of the channels: no event fails, nobody waits for what could be done, elements are received in
  the order in which they were sent, and what the result of \<^verbatim>\<open>chanalt\<close> means.
\<close>

section \<open>What a call has done\<close>

lemma alt_ok_unique: "alt_ok m x c op \<Longrightarrow> alts m x = Some A \<Longrightarrow> a_chan A = c \<and> a_op A = op"
  by (auto simp: alt_ok_def)






lemma waiting_quiet:
  assumes I: "chan_inv s" and C: "chans (cm s) c = Some C" and y: "y \<in> waits (cm s) (cph s) c op"
  shows "op = CHANRCV \<Longrightarrow> c_nbuf C = 0" "op = CHANSND \<Longrightarrow> c_nbuf C = c_bufsize C"
proof -
  have I': "chan_inv \<lparr>cm = cm s, cph = cph s\<rparr>" using I by (simp add: chan_inv_def)
  note Q = queues_okD [OF chan_invD(3) [OF I'] C] and q = chan_invD(4) [OF I' C]
  have n: "c_nbuf C \<le> c_bufsize C" using Q(1) by (simp add: ring_ok_def)
  show "op = CHANRCV \<Longrightarrow> c_nbuf C = 0" "op = CHANSND \<Longrightarrow> c_nbuf C = c_bufsize C"
    using y Q(4,5) q n by (auto simp: quiet_def split: if_splits)
qed





section \<open>No event fails\<close>


section \<open>Nobody waits for what could be done\<close>

text \<open>C19 (chan_no_lost_rendezvous)\<close>

theorem chan_no_lost_rendezvous:
  assumes "chan_reach s" and x: "cph s t = Waiting a n" "i < n" "alts (cm s) (a + i) = Some A" and C: "chans (cm s) (a_chan A) = Some C"
    and op: "a_op A = CHANSND \<or> a_op A = CHANRCV"
  shows "c_nbuf C = (if a_op A = CHANSND then c_bufsize C else 0) \<and>
      (\<forall>u b k j B. cph s u = Waiting b k \<and> j < k \<and> alts (cm s) (b + j) = Some B \<and> a_chan B = a_chan A \<and> opposite (a_op A) (a_op B) \<longrightarrow>
         u = t \<and> c_bufsize C = 0)"
proof (intro conjI allI impI)
  note I = chan_reach_inv [OF assms(1)]
  have I': "chan_inv \<lparr>cm = cm s, cph = cph s\<rparr>" using I by (simp add: chan_inv_def)
  note Q = queues_okD [OF chan_invD(3) [OF I'] C] and q = chan_invD(4) [OF I' C]
  have wait: "b + j \<in> waits (cm s) (cph s) (a_chan B) (a_op B)" "a_task B = u"
    if "cph s u = Waiting b k" "j < k" "alts (cm s) (b + j) = Some B" for u b k j B
  proof -
    show "b + j \<in> waits (cm s) (cph s) (a_chan B) (a_op B)" using that unfolding waits_def by fastforce
    have "phase_ok (cm s) u (Waiting b k)" using chan_invD(1) [OF I', of u] that(1) by simp
    then have "\<forall>x. b \<le> x \<and> x < b + k \<longrightarrow> (\<exists>A. alts (cm s) x = Some A \<and> a_task A = u)" by auto
    with that(2) have "\<exists>A. alts (cm s) (b + j) = Some A \<and> a_task A = u" by simp
    with that(3) show "a_task B = u" by simp
  qed
  show n: "c_nbuf C = (if a_op A = CHANSND then c_bufsize C else 0)" using waiting_quiet [OF I C wait(1) [OF x]] op by auto
  fix u b k j B
  assume B: "cph s u = Waiting b k \<and> j < k \<and> alts (cm s) (b + j) = Some B \<and> a_chan B = a_chan A \<and> opposite (a_op A) (a_op B)"
  then have w: "b + j \<in> waits (cm s) (cph s) (a_chan A) (a_op B)" "a_task B = u" using wait [of u b k j B] by simp_all
  show z: "c_bufsize C = 0" using n waiting_quiet [OF I C w(1)] B by auto
  from B have "a_op A = CHANSND \<and> a_op B = CHANRCV \<or> a_op A = CHANRCV \<and> a_op B = CHANSND" by blast
  then have "a_task A = a_task B"
  proof (elim disjE conjE)
    assume o: "a_op A = CHANSND" "a_op B = CHANRCV"
    then have "a + i \<in> set (entries (asend C))" "b + j \<in> set (entries (arecv C))" using wait(1) [OF x] w(1) Q(4,5) by simp_all
    then show ?thesis using q z x(3) B by (fastforce simp: quiet_def)
  next
    assume o: "a_op A = CHANRCV" "a_op B = CHANSND"
    then have "a + i \<in> set (entries (arecv C))" "b + j \<in> set (entries (asend C))" using wait(1) [OF x] w(1) Q(4,5) by simp_all
    then show ?thesis using q z x(3) B by (fastforce simp: quiet_def)
  qed
  then show "u = t" using wait(2) [OF x] w(2) by simp
qed

section \<open>Elements are received in the order in which they were sent\<close>




section \<open>The result of chanalt\<close>

text \<open>Somebody waits at the other end of the channel, or the buffer has room or an element.\<close>

fun ready :: "chan_sys \<Rightarrow> addr \<times> altop \<times> addr \<Rightarrow> bool" where
  "ready s (c, op, v) \<longleftrightarrow> (\<exists>C. chans (cm s) c = Some C \<and> (case op of
     CHANSND \<Rightarrow> if c_bufsize C = 0 then waits (cm s) (cph s) c CHANRCV \<noteq> {} else c_nbuf C < c_bufsize C
   | CHANRCV \<Rightarrow> if c_bufsize C = 0 then waits (cm s) (cph s) c CHANSND \<noteq> {} else c_nbuf C \<noteq> 0
   | _ \<Rightarrow> False))"

lemma can_exec_ready:
  assumes I: "chan_inv s" and en: "chan_enabled (AltCall t a xs cb r1 r2) s" and i: "i < length xs"
  shows "altcanexec (prepared (cm s) t a xs cb) (a + i) = Some (ready s (xs ! i))"
proof -
  let ?m = "prepared (cm s) t a xs cb"
  have I': "chan_inv \<lparr>cm = cm s, cph = cph s\<rparr>" using I by (simp add: chan_inv_def)
  obtain c op v where x: "xs ! i = (c, op, v)" by (cases "xs ! i")
  have A: "alts ?m (a + i) = Some \<lparr>a_chan = c, a_v = v, a_op = op, a_task = t, a_xalt = a\<rparr>" by (rule prepared_alt [OF i x])
  have "good_alt (cm s) (c, op, v)" using en nth_mem [OF i] x by auto
  then consider "op = CHANNOP" | C where "op = CHANSND \<or> op = CHANRCV" "chans (cm s) c = Some C" by (auto simp: good_alt_def)
  then show ?thesis
  proof cases
    case 1
    then show ?thesis using A x by (simp add: altcanexec_def)
  next
    case 2
    note Q = queues_okD [OF chan_invD(3) [OF I'] 2(2)]
    have e: "entries (asend C) = [] \<longleftrightarrow> waits (cm s) (cph s) c CHANSND = {}" "entries (arecv C) = [] \<longleftrightarrow> waits (cm s) (cph s) c CHANRCV = {}"
      using Q(4,5) by auto
    from 2(1) show ?thesis
      using A x 2(2) by (elim disjE) (simp_all add: altcanexec_def prepared_fields e word_neq_0_conv)
  qed
qed

lemma in_set_all: "(\<forall>i < length xs. \<not> P (xs ! i)) \<longleftrightarrow> (\<forall>x \<in> set xs. \<not> P x)"
  by (simp add: all_set_conv_all_nth)

text \<open>What \<^verbatim>\<open>chanalt\<close> returns, in terms of the state before.\<close>

lemma chanalt_result:
  assumes I: "chan_inv s" and en: "chan_enabled (AltCall t a xs cb r1 r2) s"
  shows "\<exists>m' r. chanalt (write_alts (cm s) a xs cb) t a r1 r2 = Some (m', r) \<and>
    (case r of
      Ran i w \<Rightarrow> i < length xs \<and> ready s (xs ! i)
    | NotReady \<Rightarrow> \<not> cb \<and> (\<forall>x \<in> set xs. \<not> ready s x) \<and> chans m' = chans (cm s) \<and> cells m' = cells (cm s)
    | Switched \<Rightarrow> cb \<and> (\<forall>x \<in> set xs. \<not> ready s x) \<and> cells m' = cells (cm s))"
proof -
  note C = alt_call_cases [OF I en refl]
  note R = can_exec_ready [OF I en]
  have none: "\<forall>x \<in> set xs. \<not> ready s x" if "\<forall>i < length xs. altcanexec (prepared (cm s) t a xs cb) (a + i) = Some False"
    unfolding in_set_all [symmetric] using that R by auto
  obtain s' r where step: "chan_step (AltCall t a xs cb r1 r2) s = Some (s', r)" using C by blast
  then obtain m' q where q: "chanalt (write_alts (cm s) a xs cb) t a r1 r2 = Some (m', q)"
    by (cases "chanalt (write_alts (cm s) a xs cb) t a r1 r2") auto
  show ?thesis
  proof (cases q)
    case (Ran i w)
    with q have "chan_step (AltCall t a xs cb r1 r2) s = Some (s\<lparr>cm := m', cph := wake_task (cph s) m' w\<rparr>, Some (int i))" by simp
    with C R have "i < length xs \<and> ready s (xs ! i)" by (elim conjE disjE exE) (auto simp del: chan_step.simps ready.simps)
    with q Ran show ?thesis by simp
  next
    case NotReady
    with q have st: "chan_step (AltCall t a xs cb r1 r2) s = Some (s\<lparr>cm := m'\<rparr>, Some (-1))" by simp
    with C have "m' = prepared (cm s) t a xs cb \<and> \<not> cb \<and> (\<forall>i < length xs. altcanexec (prepared (cm s) t a xs cb) (a + i) = Some False)"
      by (elim conjE disjE exE) (simp_all del: chan_step.simps, metis chan_sys.surjective chan_sys.update_convs(1) chan_sys.select_convs(1))
    then have "m' = prepared (cm s) t a xs cb" "\<not> cb" "\<forall>x \<in> set xs. \<not> ready s x" using none by blast+
    with q NotReady show ?thesis by (simp add: prepared_fields del: ready.simps)
  next
    case Switched
    with q have st: "chan_step (AltCall t a xs cb r1 r2) s = Some (s\<lparr>cm := m', cph := (cph s)(t := Waiting a (length xs))\<rparr>, None)" by simp
    with C have "same_data (prepared (cm s) t a xs cb) m' \<and> cb \<and> (\<forall>i < length xs. altcanexec (prepared (cm s) t a xs cb) (a + i) = Some False)"
      by (elim conjE disjE exE) (simp_all del: chan_step.simps, metis chan_sys.surjective chan_sys.update_convs(1,2) chan_sys.select_convs(1))
    then have "same_data (prepared (cm s) t a xs cb) m'" "cb" "\<forall>x \<in> set xs. \<not> ready s x" using none by blast+
    with q Switched show ?thesis by (simp add: prepared_fields same_data_def del: ready.simps)
  qed
qed

text \<open>C22 (chan_alt_outcome)\<close>

theorem chan_alt_outcome:
  assumes "chan_reach s" and "chan_enabled (AltCall t a xs cb r1 r2) s"
  shows "\<exists>s' r. chan_step (AltCall t a xs cb r1 r2) s = Some (s', r) \<and>
    (case r of
      None \<Rightarrow> cb \<and> (\<forall>x \<in> set xs. \<not> ready s x) \<and> cells (cm s') = cells (cm s) \<and> cph s' = (cph s)(t := Waiting a (length xs))
    | Some i \<Rightarrow> if i = -1 then \<not> cb \<and> (\<forall>x \<in> set xs. \<not> ready s x) \<and> cells (cm s') = cells (cm s) \<and> chans (cm s') = chans (cm s) \<and> cph s' = cph s
        else 0 \<le> i \<and> nat i < length xs \<and> ready s (xs ! nat i))"
proof -
  from chanalt_result [OF chan_reach_inv [OF assms(1)] assms(2)] obtain m' q where q: "chanalt (write_alts (cm s) a xs cb) t a r1 r2 = Some (m', q)"
    "case q of
      Ran i w \<Rightarrow> i < length xs \<and> ready s (xs ! i)
    | NotReady \<Rightarrow> \<not> cb \<and> (\<forall>x \<in> set xs. \<not> ready s x) \<and> chans m' = chans (cm s) \<and> cells m' = cells (cm s)
    | Switched \<Rightarrow> cb \<and> (\<forall>x \<in> set xs. \<not> ready s x) \<and> cells m' = cells (cm s)" by blast
  then show ?thesis by (cases q) (simp_all del: ready.simps)
qed

text \<open>C0 (chan_return)\<close>

theorem chan_return:
  assumes "chan_reach s" and t: "cph s t = Executed a n j"
  shows "chan_step (AltReturn t) s = Some (s\<lparr>cph := (cph s)(t := Outside)\<rparr>, Some (int j)) \<and> j < n \<and>
    (\<exists>X. alts (cm s) (a + j) = Some X \<and> (a_op X = CHANSND \<or> a_op X = CHANRCV))"
proof -
  note I = chan_reach_inv [OF assms(1)]
  then have "phase_ok (cm s) t (cph s t)" by (simp add: chan_inv_def)
  with return_inv(2) [OF I t] t show ?thesis by simp
qed

section \<open>Single operations\<close>

text \<open>The array on the stack is an array with one alternative.\<close>

lemma chanop_alt: "chanop s t a c op v cb r1 r2 = chanalt (write_alts s a [(c, op, v)] cb) t a r1 r2"
proof -
  have "alts (chanop_array s a c op v cb) = alts (write_alts s a [(c, op, v)] cb)"
    by (rule ext) (auto simp: chanop_array_def write_alts_def)
  then have "chanop_array s a c op v cb = write_alts s a [(c, op, v)] cb" by (simp add: chanop_array_def write_alts_def)
  then show ?thesis by (simp add: chanop_def)
qed

text \<open>C0 (chan_nonblocking)\<close>

theorem chan_nonblocking:
  assumes "chan_reach s" and t: "cph s t = Outside" "a \<noteq> NULL" "\<forall>u. area (cph s u) \<inter> {a..a + 1} = {}"
    and C: "chans (cm s) c = Some C" "cell_ok (cm s) v (unat (c_elemsize C))"
  shows "(\<exists>m r. channbsend (cm s) t a c v r1 r2 = Some (m, r) \<and> chanop_result r = Some (if ready s (c, CHANSND, v) then 1 else -1)) \<and>
    (\<exists>m r. channbrecv (cm s) t a c v r1 r2 = Some (m, r) \<and> chanop_result r = Some (if ready s (c, CHANRCV, v) then 1 else -1))"
proof -
  have "\<exists>m r. chanop (cm s) t a c op v False r1 r2 = Some (m, r) \<and> chanop_result r = Some (if ready s (c, op, v) then 1 else -1)"
    if op: "op = CHANSND \<or> op = CHANRCV" for op
  proof -
    have en: "chan_enabled (AltCall t a [(c, op, v)] False r1 r2) s" using t C op by (auto simp: good_alt_def)
    from chanalt_result [OF chan_reach_inv [OF assms(1)] en, folded chanop_alt] obtain m r where
      r: "chanop (cm s) t a c op v False r1 r2 = Some (m, r)"
        "case r of Ran i w \<Rightarrow> i < length [(c, op, v)] \<and> ready s ([(c, op, v)] ! i)
          | NotReady \<Rightarrow> \<not> False \<and> (\<forall>x \<in> set [(c, op, v)]. \<not> ready s x) \<and> chans m = chans (cm s) \<and> cells m = cells (cm s)
          | Switched \<Rightarrow> False \<and> (\<forall>x \<in> set [(c, op, v)]. \<not> ready s x) \<and> cells m = cells (cm s)" by blast
    then show ?thesis by (cases r) (simp_all add: chanop_result_def del: ready.simps)
  qed
  then show ?thesis unfolding channbsend_def channbrecv_def by blast
qed


section \<open>Two channels and two tasks\<close>

definition chan_start :: chan_sys where
  "chan_start = \<lparr>cm = \<lparr>chans = Map.empty, alts = Map.empty, cells = [500 \<mapsto> [7], 501 \<mapsto> [0]]\<rparr>, cph = (\<lambda>_. Outside)\<rparr>"

text \<open>Task 3 sends to and receives from a buffered channel; then task 2 waits at the other channel, and task 3 sends to it.\<close>

definition chan_events :: "chan_event list" where
  "chan_events = [NewChan 100 [] 1 0, NewChan 101 [[0], [0]] 1 2, AltCall 3 20 [(101, CHANSND, 500)] False 0 0,
     AltCall 3 20 [(101, CHANRCV, 501)] False 0 0, AltCall 2 10 [(100, CHANRCV, 501)] True 0 0,
     AltCall 3 20 [(100, CHANSND, 500)] False 0 0, AltReturn 2]"

primrec chan_run :: "chan_event list \<Rightarrow> chan_sys \<Rightarrow> chan_sys option" where
  "chan_run [] s = Some s"
| "chan_run (e # es) s = do { (s, _) \<leftarrow> chan_step e s; chan_run es s }"

definition chan_demo :: "nat \<Rightarrow> chan_sys" where
  "chan_demo n = the (chan_run (take n chan_events) chan_start)"

lemma wake_outside: "p u = Outside \<Longrightarrow> wake_task p m w u = Outside"
  by (auto simp: wake_task_def split: option.splits chan_phase.splits)

lemma outside_stays:
  assumes step: "chan_step e s = Some (s', r)" and u: "cph s u = Outside" "\<And>a xs cb r1 r2. e \<noteq> AltCall u a xs cb r1 r2"
  shows "cph s' u = Outside"
proof (cases e)
  case (AltCall t a xs cb r1 r2)
  with u(2) have "t \<noteq> u" by blast
  from step AltCall obtain m q where q: "chanalt (write_alts (cm s) a xs cb) t a r1 r2 = Some (m, q)"
    by (cases "chanalt (write_alts (cm s) a xs cb) t a r1 r2") auto
  with step AltCall u(1) \<open>t \<noteq> u\<close> show ?thesis by (cases q) (auto simp: wake_outside)
qed (use step u(1) in \<open>auto simp: bind_eq_Some_conv split: chan_phase.splits\<close>)

lemma chan_run_snoc: "chan_run (es @ [e]) s = do { s \<leftarrow> chan_run es s; (s, _) \<leftarrow> chan_step e s; Some s }"
  by (induction es arbitrary: s) (simp_all add: bind_assoc split_def)

lemma chan_demo_step:
  assumes "n < length chan_events" and "map_option snd (Option.bind (chan_run (take n chan_events) chan_start) (chan_step (chan_events ! n))) = Some r"
  shows "chan_step (chan_events ! n) (chan_demo n) = Some (chan_demo (Suc n), r)"
  using assms by (auto simp: chan_demo_def take_Suc_conv_app_nth chan_run_snoc bind_eq_Some_conv)

lemma chan_demo_results:
  "map_option snd (Option.bind (chan_run (take 0 chan_events) chan_start) (chan_step (chan_events ! 0))) = Some None"
  "map_option snd (Option.bind (chan_run (take 1 chan_events) chan_start) (chan_step (chan_events ! 1))) = Some None"
  "map_option snd (Option.bind (chan_run (take 2 chan_events) chan_start) (chan_step (chan_events ! 2))) = Some (Some 0)"
  "map_option snd (Option.bind (chan_run (take 3 chan_events) chan_start) (chan_step (chan_events ! 3))) = Some (Some 0)"
  "map_option snd (Option.bind (chan_run (take 4 chan_events) chan_start) (chan_step (chan_events ! 4))) = Some None"
  "map_option snd (Option.bind (chan_run (take 5 chan_events) chan_start) (chan_step (chan_events ! 5))) = Some (Some 0)"
  by code_simp+

lemmas chan_demo_steps = chan_demo_results [THEN chan_demo_step [rotated]]

lemma demo_steps:
  "chan_step (NewChan 100 [] 1 0) (chan_demo 0) = Some (chan_demo 1, None)"
  "chan_step (NewChan 101 [[0], [0]] 1 2) (chan_demo 1) = Some (chan_demo 2, None)"
  "chan_step (AltCall 3 20 [(101, CHANSND, 500)] False 0 0) (chan_demo 2) = Some (chan_demo 3, Some 0)"
  "chan_step (AltCall 3 20 [(101, CHANRCV, 501)] False 0 0) (chan_demo 3) = Some (chan_demo 4, Some 0)"
  "chan_step (AltCall 2 10 [(100, CHANRCV, 501)] True 0 0) (chan_demo 4) = Some (chan_demo 5, None)"
  "chan_step (AltCall 3 20 [(100, CHANSND, 500)] False 0 0) (chan_demo 5) = Some (chan_demo 6, Some 0)"
  using chan_demo_steps by (simp_all add: chan_events_def numeral_2_eq_2 [symmetric] del: chan_step.simps)

lemma demo_others: "u \<noteq> 2 \<Longrightarrow> u \<noteq> 3 \<Longrightarrow> cph (chan_demo 0) u = Outside \<and> cph (chan_demo 1) u = Outside \<and> cph (chan_demo 2) u = Outside \<and>
    cph (chan_demo 3) u = Outside \<and> cph (chan_demo 4) u = Outside \<and> cph (chan_demo 5) u = Outside"
proof -
  assume u: "u \<noteq> 2" "u \<noteq> 3"
  have "cph (chan_demo 0) u = Outside" by (simp add: chan_demo_def chan_start_def)
  moreover from outside_stays [OF demo_steps(1) this] have "cph (chan_demo 1) u = Outside" by simp
  moreover from outside_stays [OF demo_steps(2)] this have "cph (chan_demo 2) u = Outside" by simp
  moreover from outside_stays [OF demo_steps(3)] this u have "cph (chan_demo 3) u = Outside" by simp
  moreover from outside_stays [OF demo_steps(4)] this u have "cph (chan_demo 4) u = Outside" by simp
  moreover from outside_stays [OF demo_steps(5)] this u have "cph (chan_demo 5) u = Outside" by simp
  ultimately show ?thesis by simp
qed

lemma chan_demo_phases:
  "cph (chan_demo 2) 2 = Outside" "cph (chan_demo 2) 3 = Outside" "cph (chan_demo 3) 2 = Outside" "cph (chan_demo 3) 3 = Outside"
  "cph (chan_demo 4) 2 = Outside" "cph (chan_demo 4) 3 = Outside" "cph (chan_demo 5) 2 = Waiting 10 1" "cph (chan_demo 5) 3 = Outside"
  "cph (chan_demo 6) 2 = Executed 10 1 0"
  by code_simp+

lemma demo_area: "area (cph (chan_demo 2) u) = {}" "area (cph (chan_demo 3) u) = {}" "area (cph (chan_demo 4) u) = {}"
    "area (cph (chan_demo 5) u) = (if u = 2 then {10..11} else {})"
  using demo_others [of u] chan_demo_phases by (cases "u = 2"; cases "u = 3"; auto)+

lemma demo_chans:
  "map_option c_elemsize (chans (cm (chan_demo 2)) 101) = Some 1" "map_option c_elemsize (chans (cm (chan_demo 3)) 101) = Some 1"
  "map_option c_elemsize (chans (cm (chan_demo 4)) 100) = Some 1" "map_option c_elemsize (chans (cm (chan_demo 5)) 100) = Some 1"
  "map_option length (cells (cm (chan_demo 2)) 500) = Some 1" "map_option length (cells (cm (chan_demo 3)) 501) = Some 1"
  "map_option length (cells (cm (chan_demo 4)) 501) = Some 1" "map_option length (cells (cm (chan_demo 5)) 500) = Some 1"
  by code_simp+

lemma demo_good:
  assumes "map_option c_elemsize (chans m c) = Some 1" "map_option length (cells m v) = Some 1" "op = CHANSND \<or> op = CHANRCV"
  shows "good_alt m (c, op, v)" "\<exists>C. chans m c = Some C \<and> cell_ok m v (unat (c_elemsize C))"
  using assms by (auto simp: good_alt_def cell_ok_def)

lemma demo_none: "chans (cm (chan_demo 0)) 100 = None" "chans (cm (chan_demo 1)) 101 = None"
  by (simp add: chan_demo_def chan_start_def, code_simp)

lemma demo_enabled:
  "chan_enabled (NewChan 100 [] 1 0) (chan_demo 0)" "chan_enabled (NewChan 101 [[0], [0]] 1 2) (chan_demo 1)"
  "chan_enabled (AltCall 3 20 [(101, CHANSND, 500)] False 0 0) (chan_demo 2)" "chan_enabled (AltCall 3 20 [(101, CHANRCV, 501)] False 0 0) (chan_demo 3)"
  "chan_enabled (AltCall 2 10 [(100, CHANRCV, 501)] True 0 0) (chan_demo 4)" "chan_enabled (AltCall 3 20 [(100, CHANSND, 500)] False 0 0) (chan_demo 5)"
  using demo_none demo_chans by (simp_all add: demo_area chan_demo_phases demo_good)

lemma chan_demo_reach: "chan_reach (chan_demo 2)" "chan_reach (chan_demo 3)" "chan_reach (chan_demo 4)" "chan_reach (chan_demo 5)" "chan_reach (chan_demo 6)"
proof -
  have "chan_reach (chan_demo 0)" by (rule chan_reach.start) (simp_all add: chan_demo_def chan_start_def)
  from chan_reach.event [OF this demo_enabled(1) demo_steps(1)] have "chan_reach (chan_demo 1)" by simp
  from chan_reach.event [OF this demo_enabled(2) demo_steps(2)] show 2: "chan_reach (chan_demo 2)" by simp
  from chan_reach.event [OF 2 demo_enabled(3) demo_steps(3)] show 3: "chan_reach (chan_demo 3)" by simp
  from chan_reach.event [OF 3 demo_enabled(4) demo_steps(4)] show 4: "chan_reach (chan_demo 4)" by simp
  from chan_reach.event [OF 4 demo_enabled(5) demo_steps(5)] show 5: "chan_reach (chan_demo 5)" by simp
  from chan_reach.event [OF 5 demo_enabled(6) demo_steps(6)] show "chan_reach (chan_demo 6)" by simp
qed

section \<open>Witnesses\<close>


theorem chan_no_lost_rendezvous_witness:
  "\<exists>C. chans (cm (chan_demo 5)) 100 = Some C \<and> c_nbuf C = 0 \<and>
    (\<forall>u b k j B. cph (chan_demo 5) u = Waiting b k \<and> j < k \<and> alts (cm (chan_demo 5)) (b + j) = Some B \<and> a_chan B = 100 \<and> opposite CHANRCV (a_op B) \<longrightarrow>
       u = 2 \<and> c_bufsize C = 0)"
proof -
  obtain C where C: "chans (cm (chan_demo 5)) 100 = Some C" using demo_chans(4) by auto
  have "map_option (\<lambda>A. (a_chan A, a_op A)) (alts (cm (chan_demo 5)) 10) = Some (100, CHANRCV)" by code_simp
  then obtain A where A: "alts (cm (chan_demo 5)) (10 + 0) = Some A" "a_chan A = 100" "a_op A = CHANRCV" by auto
  from chan_no_lost_rendezvous [OF chan_demo_reach(4) chan_demo_phases(7) _ A(1), of C] A C show ?thesis by (intro exI [of _ C]) simp
qed



theorem chan_alt_outcome_witness:
  "\<exists>s' i. chan_step (AltCall 3 20 [(100, CHANSND, 500)] False 0 0) (chan_demo 5) = Some (s', Some i) \<and> 0 \<le> i \<and> ready (chan_demo 5) (100, CHANSND, 500)"
  using chan_alt_outcome [OF chan_demo_reach(4) demo_enabled(6)] demo_steps(6) by (auto simp del: chan_step.simps ready.simps)

theorem chan_return_witness:
  "chan_step (AltReturn 2) (chan_demo 6) = Some ((chan_demo 6)\<lparr>cph := (cph (chan_demo 6))(2 := Outside)\<rparr>, Some 0)"
  using chan_return [OF chan_demo_reach(5) chan_demo_phases(9)] by simp

theorem chan_nonblocking_witness: "\<exists>m r. channbrecv (cm (chan_demo 5)) 3 20 100 501 0 0 = Some (m, r) \<and> chanop_result r = Some (-1)"
proof -
  have "map_option c_bufsize (chans (cm (chan_demo 5)) 100) = Some 0" "map_option (\<lambda>A. a_op A) (alts (cm (chan_demo 5)) 10) = Some CHANRCV" by code_simp+
  then obtain C A where C: "chans (cm (chan_demo 5)) 100 = Some C" "c_bufsize C = 0" and A: "alts (cm (chan_demo 5)) 10 = Some A" "a_op A = CHANRCV" by auto
  have v: "cell_ok (cm (chan_demo 5)) 501 (unat (c_elemsize C))"
  proof -
    have "map_option length (cells (cm (chan_demo 5)) 501) = Some 1" by code_simp
    then show ?thesis using demo_chans(4) C(1) by (auto simp: cell_ok_def)
  qed
  have w: "cph (chan_demo 5) u = Waiting b n \<Longrightarrow> u = 2 \<and> b = 10 \<and> n = 1" for u b n
    using demo_area(4) [of u] chan_demo_phases(7) by (cases "u = 2") auto
  have "waits (cm (chan_demo 5)) (cph (chan_demo 5)) 100 CHANSND = {}"
  proof -
    have False if "x \<in> waits (cm (chan_demo 5)) (cph (chan_demo 5)) 100 CHANSND" for x
    proof -
      from waits_in [OF that] obtain u b n B where "cph (chan_demo 5) u = Waiting b n" "b \<le> x" "x < b + n" "alts (cm (chan_demo 5)) x = Some B"
        "a_op B = CHANSND" by blast
      with w [OF this(1)] A show False by (cases "x = 10") auto
    qed
    then show ?thesis by blast
  qed
  then have "\<not> ready (chan_demo 5) (100, CHANRCV, 501)" using C by simp
  with chan_nonblocking [OF chan_demo_reach(4) chan_demo_phases(8) _ _ C(1) v, of 20 0 0] demo_area(4) show ?thesis by (simp del: ready.simps)
qed


section \<open>Receiving nothing\<close>

text \<open>C23 (chan_recv_junk)\<close>

theorem chan_recv_junk:
  assumes "chan_reach s" and t: "cph s t = Outside" "a \<noteq> NULL" "\<forall>u. area (cph s u) \<inter> {a..a + 1} = {}"
    and C: "chans (cm s) c = Some C" "length junk = unat (c_elemsize C)" and p: "\<not> in_use s p" and none: "\<not> ready s (c, CHANRCV, p)"
  shows "\<exists>m. channbrecvp (cm s) t a c p junk r1 r2 = Some (m, NotReady, junk) \<and> chans m = chans (cm s)"
proof -
  let ?s = "s\<lparr>cm := with_local (cm s) p junk\<rparr>"
  have I: "chan_inv ?s" unfolding with_local_def by (rule set_cell_inv [OF chan_reach_inv [OF assms(1)] p])
  have en: "chan_enabled (AltCall t a [(c, CHANRCV, p)] False r1 r2) ?s" using t C by (auto simp: good_alt_def with_local_def cell_ok_def)
  have w: "waits (with_local (cm s) p junk) = waits (cm s)" by (simp add: waits_def with_local_def fun_eq_iff)
  have ch: "chans (with_local (cm s) p junk) = chans (cm s)" by (simp add: with_local_def)
  have "\<not> ready ?s (c, CHANRCV, p)" using none C(1) by (simp add: w ch split: if_splits)
  then have nr: "\<not> ready ?s ([(c, CHANRCV, p)] ! i)" if "i < length [(c, CHANRCV, p)]" for i using that by (simp del: ready.simps)
  from chanalt_result [OF I en, folded chanop_alt] obtain m r where r: "chanop (cm ?s) t a c CHANRCV p False r1 r2 = Some (m, r)"
    "case r of Ran i w \<Rightarrow> i < length [(c, CHANRCV, p)] \<and> ready ?s ([(c, CHANRCV, p)] ! i)
      | NotReady \<Rightarrow> \<not> False \<and> (\<forall>x \<in> set [(c, CHANRCV, p)]. \<not> ready ?s x) \<and> chans m = chans (cm ?s) \<and> cells m = cells (cm ?s)
      | Switched \<Rightarrow> False \<and> (\<forall>x \<in> set [(c, CHANRCV, p)]. \<not> ready ?s x) \<and> cells m = cells (cm ?s)" by blast
  have "chanop (with_local (cm s) p junk) t a c CHANRCV p False r1 r2 = Some (m, NotReady) \<and> chans m = chans (cm s) \<and> cells m = (cells (cm s))(p \<mapsto> junk)"
  proof (cases r)
    case (Ran i w)
    with r(2) nr show ?thesis by (auto simp del: ready.simps)
  next
    case NotReady
    with r show ?thesis by (simp add: ch with_local_def del: ready.simps)
  next
    case Switched
    with r(2) show ?thesis by simp
  qed
  then show ?thesis by (simp add: channbrecvp_def)
qed

theorem chan_recv_junk_witness: "\<exists>m. channbrecvp (cm (chan_demo 4)) 3 20 100 600 [77] 0 0 = Some (m, NotReady, [77])"
proof -
  have "map_option c_bufsize (chans (cm (chan_demo 4)) 100) = Some 0" by code_simp
  then obtain C where C: "chans (cm (chan_demo 4)) 100 = Some C" "c_bufsize C = 0" by auto
  have l: "length [77] = unat (c_elemsize C)" using demo_chans(3) C(1) by simp
  have w: "cph (chan_demo 4) u \<noteq> Waiting b n" for u b n using demo_area(3) [of u] by auto
  have "\<not> in_use (chan_demo 4) 600" "\<not> ready (chan_demo 4) (100, CHANRCV, 600)" using w C by (auto simp: in_use_def waits_def)
  from chan_recv_junk [OF chan_demo_reach(3) chan_demo_phases(6) _ _ C(1) l this, of 20 0 0] demo_area(3) show ?thesis by auto
qed

end
