(* ===== verification/Threadpool.thy ===== *)
theory Threadpool
  imports Mpp_Bufpool
begin

text \<open>
  \<^verbatim>\<open>vmware_kernel/mpp/threadpool.c\<close>: worlds that take works from a list. Every definition is what a world does
  while it holds the lock of the list, or outside of it up to the next lock or wait. The buffers of the
  works come from a pool (\<^verbatim>\<open>bufpool.c\<close>); the member \<open>list\<close> of a work in use is in \<open>wdlls\<close>.
\<close>

section \<open>Data\<close>

datatype tp_state = TP_UNINITIALIZED | TP_INITIALIZED | TP_SHUTTING

record work =
  w_data :: addr
  w_fn :: nat

record thread_pool =
  threads :: bool
  active :: u32
  wdlls :: dlls
  works :: "addr \<rightharpoonup> work"
  work_list :: addr
  work_pend :: u32
  tstate :: tp_state
  tpool :: mpp_pool
  nthreads :: u32

section \<open>The worlds of the pool\<close>

datatype worker_result = Ends | Blocks | Takes addr

definition worker_pass :: "thread_pool \<Rightarrow> (thread_pool \<times> worker_result) option" where
  "worker_pass tp = do {
     empty \<leftarrow> DLL_ISEMPTY (wdlls tp) (work_list tp);
     if empty then
       if tstate tp = TP_SHUTTING then Some (tp\<lparr>active := active tp - 1\<rparr>, Ends)
       else Some (tp, Blocks)
     else do {
       c_assert (\<not> empty);
       f \<leftarrow> DLL_NEXT (wdlls tp) (work_list tp);
       h \<leftarrow> DLL_REM (wdlls tp) f;
       Some (tp\<lparr>wdlls := h, work_pend := work_pend tp - 1\<rparr>, Takes f)
     }
   }"

text \<open>The call of the work's function: what is called with which argument.\<close>

definition worker_call :: "thread_pool \<Rightarrow> addr \<Rightarrow> (nat \<times> addr) option" where
  "worker_call tp w = do { W \<leftarrow> works tp w; Some (w_fn W, w_data W) }"

definition worker_put :: "thread_pool \<Rightarrow> addr \<Rightarrow> thread_pool option" where
  "worker_put tp w = do {
     p \<leftarrow> mpp_bufpool_put (tpool tp) w;
     Some (tp\<lparr>tpool := p, wdlls := (wdlls tp)(w := None), works := (works tp)(w := None)\<rparr>)
   }"

section \<open>Works\<close>

text \<open>
  \<^verbatim>\<open>new_work\<close>; the caller then stores \<open>fn\<close> and \<open>data\<close>. The result is null when the pool of threads is not in use,
  and the world may wait for a buffer.
\<close>

datatype new_result = NewWork addr | NoWork | WaitsForWork

definition new_work_got :: "thread_pool \<Rightarrow> get_result \<Rightarrow> work \<Rightarrow> (thread_pool \<times> new_result) option" where
  "new_work_got tp r W = (case r of
     Got w \<Rightarrow> do {
       c_assert (w \<noteq> NULL);
       Some (tp\<lparr>wdlls := (wdlls tp)(w \<mapsto> \<lparr>dll_next = w, dll_prev = w\<rparr>), works := (works tp)(w \<mapsto> W)\<rparr>, NewWork w)
     }
   | Slept \<Rightarrow> Some (tp, WaitsForWork)
   | Failed \<Rightarrow> None)"

definition new_work :: "thread_pool \<Rightarrow> addr \<Rightarrow> work \<Rightarrow> (thread_pool \<times> new_result) option" where
  "new_work tp a W =
     (if tstate tp \<noteq> TP_INITIALIZED then Some (tp, NoWork)
      else do {
        (p, r) \<leftarrow> mpp_bufpool_get (tpool tp) False False a;
        new_work_got (tp\<lparr>tpool := p\<rparr>) r W
      })"

definition new_work_wake :: "thread_pool \<Rightarrow> addr \<Rightarrow> work \<Rightarrow> (thread_pool \<times> new_result) option" where
  "new_work_wake tp a W = do {
     (p, r) \<leftarrow> mpp_get_wake (tpool tp) False a;
     new_work_got (tp\<lparr>tpool := p\<rparr>) r W
   }"

text \<open>\<^verbatim>\<open>schedule_work\<close>: the assertion before the lock is taken, and what is done under the lock.\<close>

definition schedule_check :: "thread_pool \<Rightarrow> unit option" where
  "schedule_check tp = c_assert (tstate tp = TP_INITIALIZED)"

definition schedule_add :: "thread_pool \<Rightarrow> addr \<Rightarrow> thread_pool option" where
  "schedule_add tp w = do {
     h \<leftarrow> DLL_REVADD (wdlls tp) (work_list tp) w;
     Some (tp\<lparr>wdlls := h, work_pend := work_pend tp + 1\<rparr>)
   }"

section \<open>Setting up and shutting down\<close>

text \<open>The \<^verbatim>\<open>memset\<close> of the whole struct.\<close>

definition zero_tp :: "thread_pool \<Rightarrow> thread_pool option" where
  "zero_tp tp = do {
     h \<leftarrow> store (wdlls tp) (work_list tp) (\<lambda>n. \<lparr>dll_next = NULL, dll_prev = NULL\<rparr>);
     p \<leftarrow> zero_pool (tpool tp);
     Some (tp\<lparr>threads := False, active := 0, wdlls := h, work_pend := 0, tstate := TP_UNINITIALIZED, tpool := p, nthreads := 0\<rparr>)
   }"

text \<open>
  \<^verbatim>\<open>_thread_pool_deinit\<close>: the part before the wake-up, and the part after the threads have been joined. The flag
  says that \<^verbatim>\<open>bufpool_deinit\<close> waits for buffers in use.
\<close>

definition deinit_shut :: "thread_pool \<Rightarrow> thread_pool" where
  "deinit_shut tp = (if threads tp then tp\<lparr>tstate := TP_SHUTTING\<rparr> else tp)"

definition deinit_pool :: "thread_pool \<Rightarrow> (mpp_pool \<times> bool) option \<Rightarrow> (thread_pool \<times> bool) option" where
  "deinit_pool tp r = do {
     (p, waits) \<leftarrow> r;
     if waits then Some (tp\<lparr>tpool := p\<rparr>, True)
     else do { tp \<leftarrow> zero_tp (tp\<lparr>tpool := p\<rparr>); Some (tp, False) }
   }"

definition deinit_rest :: "thread_pool \<Rightarrow> (thread_pool \<times> bool) option" where
  "deinit_rest tp = do {
     let tp = tp\<lparr>threads := False\<rparr>;
     c_assert (active tp = 0);
     empty \<leftarrow> DLL_ISEMPTY (wdlls tp) (work_list tp);
     c_assert empty;
     deinit_pool tp (mpp_bufpool_deinit (tpool tp))
   }"

definition deinit_wake :: "thread_pool \<Rightarrow> (thread_pool \<times> bool) option" where
  "deinit_wake tp = deinit_pool tp (mpp_deinit_wake (tpool tp))"

text \<open>\<^verbatim>\<open>thread_pool_deinit\<close> goes on only with a pool that has been set up.\<close>

definition thread_pool_deinit :: "thread_pool \<Rightarrow> thread_pool \<times> bool" where
  "thread_pool_deinit tp = (if tstate tp \<noteq> TP_INITIALIZED then (tp, False) else (deinit_shut tp, True))"

text \<open>
  \<^verbatim>\<open>thread_pool_init\<close>. \<open>heap_ok\<close>, \<open>pool_heap\<close>, \<open>lock_ok\<close> and \<open>calloc_ok\<close> are the outcomes of the calls that
  reserve memory, \<open>created\<close> is the number of threads that can be created, and \<open>ended\<close> the number of those that
  have seen \<^verbatim>\<open>TP_SHUTTING\<close> and ended when the error path looks at \<^verbatim>\<open>active\<close>.
\<close>

definition sizeof_work :: u64 where "sizeof_work = 32"

definition init_error :: "thread_pool \<Rightarrow> nat \<Rightarrow> (thread_pool \<times> u32) option" where
  "init_error tp ended = do {
     let tp = deinit_shut tp;
     (tp, waits) \<leftarrow> deinit_rest (tp\<lparr>active := active tp - of_nat ended\<rparr>);
     Some (tp, -1)
   }"

definition thread_pool_init ::
  "thread_pool \<Rightarrow> bool \<Rightarrow> (nat \<Rightarrow> addr) \<Rightarrow> bool \<Rightarrow> bool \<Rightarrow> bool \<Rightarrow> nat \<Rightarrow> nat \<Rightarrow> 32 word \<Rightarrow> 32 word \<Rightarrow> (thread_pool \<times> u32) option" where
  "thread_pool_init tp heap_ok alloc pool_heap lock_ok calloc_ok created ended n nwork = do {
     tp \<leftarrow> zero_tp tp;
     if \<not> heap_ok then Some (tp, -1)
     else do {
       let nwork_max = nwork * 4;
       (p, rc) \<leftarrow> mpp_bufpool_init alloc True pool_heap True (tpool tp) sizeof_work (scast nwork) (scast nwork_max);
       let tp = tp\<lparr>tpool := p\<rparr>;
       if rc <s 0 then init_error tp ended
       else if \<not> lock_ok then init_error tp ended
       else if \<not> calloc_ok then init_error tp ended
       else do {
         h \<leftarrow> DLL_INIT (wdlls tp) (work_list tp);
         let tp = tp\<lparr>threads := True, wdlls := h\<rparr>;
         if created < unat n then init_error tp ended
         else Some (tp\<lparr>tstate := TP_INITIALIZED, active := n, nthreads := n\<rparr>, 0)
       }
     }
   }"

section \<open>The worlds as a system\<close>

text \<open>
  A thread runs through its loop, waits, works, or has ended. A world that uses the threads has no work, waits for
  a buffer, has a work, is inside \<^verbatim>\<open>schedule_work\<close> before the lock, or after it and before the wake-up.
\<close>

datatype worker_phase = Looping | Blocked | Working addr | Ended

datatype user_phase = UIdle | UWaits work | UHas addr | UChecked addr | UAdded

datatype deinit_phase = DNone | DShut | DJoin | DPool | DDone

text \<open>\<open>nw\<close> is the number of threads; \<open>scheduled\<close> and \<open>taken\<close> record the calls that were asked for and made.\<close>

record tp_sys =
  tps :: thread_pool
  nw :: nat
  wph :: "nat \<Rightarrow> worker_phase"
  uph :: "nat \<Rightarrow> user_phase"
  dph :: deinit_phase
  scheduled :: "(nat \<times> addr) list"
  taken :: "(nat \<times> addr) list"

datatype tp_event =
    WorkerPass nat
  | WorkerDone nat
  | GetWork nat addr work
  | GetWake nat addr
  | Check nat
  | Add nat
  | WakeUp nat
  | Deinit
  | DeinitWorkers
  | DeinitRest
  | DeinitPool

definition wake_workers :: "(nat \<Rightarrow> worker_phase) \<Rightarrow> nat \<Rightarrow> worker_phase" where
  "wake_workers p = (\<lambda>i. if p i = Blocked then Looping else p i)"

definition user_got :: "tp_sys \<Rightarrow> nat \<Rightarrow> work \<Rightarrow> thread_pool \<times> new_result \<Rightarrow> tp_sys" where
  "user_got s u W r = s\<lparr>tps := fst r, uph := (uph s)(u := (case snd r of NewWork w \<Rightarrow> UHas w | NoWork \<Rightarrow> UIdle | WaitsForWork \<Rightarrow> UWaits W))\<rparr>"

definition deinit_result :: "tp_sys \<Rightarrow> thread_pool \<times> bool \<Rightarrow> tp_sys" where
  "deinit_result s r = s\<lparr>tps := fst r, dph := if snd r then DPool else DDone\<rparr>"

fun tp_step :: "tp_event \<Rightarrow> tp_sys \<Rightarrow> tp_sys option" where
  "tp_step (WorkerPass i) s = do {
     (tp, r) \<leftarrow> worker_pass (tps s);
     case r of
       Ends \<Rightarrow> Some (s\<lparr>tps := tp, wph := (wph s)(i := Ended)\<rparr>)
     | Blocks \<Rightarrow> Some (s\<lparr>tps := tp, wph := (wph s)(i := Blocked)\<rparr>)
     | Takes w \<Rightarrow> do {
         c \<leftarrow> worker_call tp w;
         Some (s\<lparr>tps := tp, wph := (wph s)(i := Working w), taken := taken s @ [c]\<rparr>)
       }
   }"
| "tp_step (WorkerDone i) s = (case wph s i of
     Working w \<Rightarrow> do { tp \<leftarrow> worker_put (tps s) w; Some (s\<lparr>tps := tp, wph := (wph s)(i := Looping)\<rparr>) }
   | _ \<Rightarrow> None)"
| "tp_step (GetWork u a W) s = map_option (user_got s u W) (new_work (tps s) a W)"
| "tp_step (GetWake u a) s = (case uph s u of
     UWaits W \<Rightarrow> map_option (user_got s u W) (new_work_wake (tps s) a W)
   | _ \<Rightarrow> None)"
| "tp_step (Check u) s = (case uph s u of
     UHas w \<Rightarrow> do { _ \<leftarrow> schedule_check (tps s); Some (s\<lparr>uph := (uph s)(u := UChecked w)\<rparr>) }
   | _ \<Rightarrow> None)"
| "tp_step (Add u) s = (case uph s u of
     UChecked w \<Rightarrow> do {
       c \<leftarrow> worker_call (tps s) w;
       tp \<leftarrow> schedule_add (tps s) w;
       Some (s\<lparr>tps := tp, uph := (uph s)(u := UAdded), scheduled := scheduled s @ [c]\<rparr>)
     }
   | _ \<Rightarrow> None)"
| "tp_step (WakeUp u) s = Some (s\<lparr>wph := wake_workers (wph s), uph := (uph s)(u := UIdle)\<rparr>)"
| "tp_step Deinit s = (case thread_pool_deinit (tps s) of (tp, on) \<Rightarrow> Some (s\<lparr>tps := tp, dph := if on then DShut else DDone\<rparr>))"
| "tp_step DeinitWorkers s = Some (s\<lparr>wph := wake_workers (wph s), dph := DJoin\<rparr>)"
| "tp_step DeinitRest s = map_option (deinit_result s) (deinit_rest (tps s))"
| "tp_step DeinitPool s = map_option (deinit_result s) (deinit_wake (tps s))"

text \<open>
  When an event can happen. \<^verbatim>\<open>malloc\<close> returns memory that is not in use. The pool is not shut down while somebody
  uses it or has a work that has not been scheduled.
\<close>

definition new_buf :: "tp_sys \<Rightarrow> addr \<Rightarrow> bool" where
  "new_buf s a \<longleftrightarrow> (a \<noteq> NULL \<longrightarrow> dlls (qm (tpool (tps s))) a = None \<and> a \<noteq> work_list (tps s))"

fun tp_enabled :: "tp_event \<Rightarrow> tp_sys \<Rightarrow> bool" where
  "tp_enabled (WorkerPass i) s \<longleftrightarrow> i < nw s \<and> wph s i = Looping"
| "tp_enabled (WorkerDone i) s \<longleftrightarrow> i < nw s \<and> (\<exists>w. wph s i = Working w)"
| "tp_enabled (GetWork u a W) s \<longleftrightarrow> uph s u = UIdle \<and> dph s = DNone \<and> new_buf s a"
| "tp_enabled (GetWake u a) s \<longleftrightarrow> (\<exists>W. uph s u = UWaits W) \<and> new_buf s a"
| "tp_enabled (Check u) s \<longleftrightarrow> (\<exists>w. uph s u = UHas w)"
| "tp_enabled (Add u) s \<longleftrightarrow> (\<exists>w. uph s u = UChecked w)"
| "tp_enabled (WakeUp u) s \<longleftrightarrow> uph s u = UAdded"
| "tp_enabled Deinit s \<longleftrightarrow> dph s = DNone \<and> (\<forall>u. uph s u = UIdle)"
| "tp_enabled DeinitWorkers s \<longleftrightarrow> dph s = DShut"
| "tp_enabled DeinitRest s \<longleftrightarrow> dph s = DJoin \<and> (\<forall>i < nw s. wph s i = Ended)"
| "tp_enabled DeinitPool s \<longleftrightarrow> dph s = DPool"

text \<open>
  After \<^verbatim>\<open>thread_pool_init\<close>: the threads may have looked at the list already. The memory that it got was not in use.
\<close>

definition tp_initial :: "tp_sys \<Rightarrow> bool" where
  "tp_initial s \<longleftrightarrow> (\<exists>tp alloc created ended n nwork.
     thread_pool_init tp True alloc True True True created ended n nwork = Some (tps s, 0) \<and>
     nw s = unat n \<and> 0 < unat n \<and> unat n < 2 ^ 31 \<and> 0 < unat nwork \<and> 4 * unat nwork < 2 ^ 31 \<and>
     dom (wdlls tp) = {work_list tp} \<and> work_list tp \<noteq> NULL \<and> works tp = Map.empty \<and>
     good_alloc (pool_st.truncate (tpool tp)) alloc (unat nwork) \<and> freelist (bp (tpool tp)) \<noteq> NULL \<and>
     dlls (qm (tpool tp)) (work_list tp) = None \<and> (\<forall>i. alloc i \<noteq> work_list tp)) \<and>
   (\<forall>i. wph s i = Looping \<or> wph s i = Blocked) \<and> uph s = (\<lambda>_. UIdle) \<and> dph s = DNone \<and> scheduled s = [] \<and> taken s = []"

inductive tp_reach :: "tp_sys \<Rightarrow> bool" where
  start: "tp_initial s \<Longrightarrow> tp_reach s"
| event: "tp_reach s \<Longrightarrow> tp_enabled e s \<Longrightarrow> tp_step e s = Some s' \<Longrightarrow> tp_reach s'"

section \<open>The invariant\<close>

text \<open>Who has a work, and what is known of the memory.\<close>

datatype work_holder = InList | User nat | Worker nat

fun has_work :: "tp_sys \<Rightarrow> addr list \<Rightarrow> work_holder \<Rightarrow> addr \<Rightarrow> bool" where
  "has_work s Q InList w \<longleftrightarrow> w \<in> set Q"
| "has_work s Q (User u) w \<longleftrightarrow> uph s u = UHas w \<or> uph s u = UChecked w"
| "has_work s Q (Worker i) w \<longleftrightarrow> i < nw s \<and> wph s i = Working w"

definition works_owned :: "tp_sys \<Rightarrow> addr list \<Rightarrow> addr set \<Rightarrow> (addr \<Rightarrow> work_holder) \<Rightarrow> bool" where
  "works_owned s Q H ow \<longleftrightarrow> (\<forall>w h. has_work s Q h w \<longrightarrow> w \<in> H \<and> ow w = h) \<and> (\<forall>w \<in> H. has_work s Q (ow w) w)"

definition tp_mem :: "thread_pool \<Rightarrow> addr list \<Rightarrow> addr list \<Rightarrow> addr set \<Rightarrow> bool" where
  "tp_mem tp Q xs H \<longleftrightarrow> pool_ok (tpool tp) xs H \<and> state (bp (tpool tp)) = INITIALIZED \<and> mpp_room (tpool tp) \<and>
     ring (wdlls tp) (work_list tp) Q \<and> dom (wdlls tp) = insert (work_list tp) H \<and> work_list tp \<noteq> NULL \<and>
     dlls (qm (tpool tp)) (work_list tp) = None \<and> dom (works tp) = H \<and> work_pend tp = of_nat (length Q) \<and> threads tp"

definition call_of :: "thread_pool \<Rightarrow> addr \<Rightarrow> nat \<times> addr" where
  "call_of tp w = (w_fn (the (works tp w)), w_data (the (works tp w)))"

definition phases_ok :: "tp_sys \<Rightarrow> addr list \<Rightarrow> bool" where
  "phases_ok s Q \<longleftrightarrow>
     (\<forall>i < nw s. wph s i = Blocked \<longrightarrow> (dph s = DNone \<or> dph s = DShut) \<and> (Q \<noteq> [] \<longrightarrow> (\<exists>u. uph s u = UAdded))) \<and>
     (\<forall>i < nw s. wph s i = Ended \<longrightarrow> Q = [] \<and> dph s \<noteq> DNone) \<and>
     (dph s \<noteq> DNone \<longrightarrow> (\<forall>u. uph s u = UIdle)) \<and>
     tstate (tps s) = (if dph s = DNone then TP_INITIALIZED else TP_SHUTTING)"

definition alive :: "nat \<Rightarrow> (nat \<Rightarrow> worker_phase) \<Rightarrow> nat" where
  "alive n p = card {i. i < n \<and> p i \<noteq> Ended}"

definition live_ok :: "tp_sys \<Rightarrow> bool" where
  "live_ok s \<longleftrightarrow> (\<exists>Q xs H ow. tp_mem (tps s) Q xs H \<and> works_owned s Q H ow \<and> phases_ok s Q \<and>
     scheduled s = taken s @ map (call_of (tps s)) Q \<and> active (tps s) = of_nat (alive (nw s) (wph s)))"

definition tp_inv :: "tp_sys \<Rightarrow> bool" where
  "tp_inv s \<longleftrightarrow> 0 < nw s \<and> nw s < 2 ^ 31 \<and> dph s \<noteq> DPool \<and>
     (if dph s = DDone then (\<forall>i < nw s. wph s i = Ended) \<and> taken s = scheduled s \<and> tstate (tps s) = TP_UNINITIALIZED \<and> (\<forall>u. uph s u = UIdle)
      else live_ok s)"

end
