(* ===== verification/Tp_Steps.thy ===== *)
theory Tp_Steps
  imports Threadpool
begin

text \<open>Every event of the pool of threads keeps its invariant.\<close>

section \<open>The memory of the pool\<close>

text \<open>No operation on the pool of buffers makes memory of other addresses its own.\<close>

lemma store_none_iff: "store h p f = Some h' \<Longrightarrow> h' x = None \<longleftrightarrow> h x = None"
  by (auto simp: store_def split: option.splits if_splits)

lemma dll_none_iff:
  "set_next h p v = Some h' \<Longrightarrow> h' x = None \<longleftrightarrow> h x = None" "set_prev h p v = Some h' \<Longrightarrow> h' x = None \<longleftrightarrow> h x = None"
  by (simp_all add: set_next_def set_prev_def store_none_iff)

lemma DLL_ops_none_iff:
  "DLL_INIT h p = Some h' \<Longrightarrow> h' x = None \<longleftrightarrow> h x = None"
  "DLL_REM h p = Some h' \<Longrightarrow> h' x = None \<longleftrightarrow> h x = None"
  "DLL_ADD h p n = Some h' \<Longrightarrow> h' x = None \<longleftrightarrow> h x = None"
  by (clarsimp simp: DLL_INIT_def DLL_REM_def DLL_ADD_def bind_eq_Some_conv, simp add: dll_none_iff [where x = x])+

lemma queue_rem_none_iff: "queue_rem m q = Some (m', rc, e) \<Longrightarrow> dlls m' x = None \<longleftrightarrow> dlls m x = None"
  by (auto simp: queue_rem_def on_dlls_def add_len_def bind_eq_Some_conv DLL_ops_none_iff(2) [where x = x] simp del: not_None_eq split: if_splits)

lemma queue_add_none_iff: "queue_add m q e = Some m' \<Longrightarrow> dlls m' x = None \<longleftrightarrow> dlls m x = None"
  by (auto simp: queue_add_def on_dlls_def add_len_def bind_eq_Some_conv DLL_ops_none_iff(3) [where x = x] simp del: not_None_eq split: if_splits)

lemma get_pass_none: "mpp_get_pass st nb rsv a = Some (st', r) \<Longrightarrow> dlls (qm st) x = None \<Longrightarrow> x \<noteq> a \<Longrightarrow> dlls (qm st') x = None"
  by (auto simp: mpp_get_pass_def bind_eq_Some_conv issue_def issue_new_def alloc_buf_def Let_def queue_rem_none_iff [where x = x] simp del: not_None_eq split: if_splits prod.splits)

lemma put_none: "mpp_bufpool_put st b = Some st' \<Longrightarrow> dlls (qm st) x = None \<Longrightarrow> dlls (qm st') x = None"
  by (auto simp: mpp_bufpool_put_def put_buffer_def bind_eq_Some_conv Let_def dll_init_buf_def on_queue_def on_dlls_def free_buf_def
      queue_add_none_iff [where x = x] DLL_ops_none_iff(1) [where x = x] simp del: not_None_eq split: if_splits option.splits)

section \<open>Works and their memory\<close>

lemma tp_memD:
  assumes "tp_mem tp Q xs H"
  shows "pool_ok (tpool tp) xs H" "state (bp (tpool tp)) = INITIALIZED" "mpp_room (tpool tp)" "ring (wdlls tp) (work_list tp) Q"
    "dom (wdlls tp) = insert (work_list tp) H" "work_list tp \<noteq> NULL" "dlls (qm (tpool tp)) (work_list tp) = None" "dom (works tp) = H"
    "work_pend tp = of_nat (length Q)" "threads tp" "work_list tp \<notin> H"
proof -
  have "pool_ok (tpool tp) xs H" "dlls (qm (tpool tp)) (work_list tp) = None" using assms by (simp_all add: tp_mem_def)
  then show "work_list tp \<notin> H" unfolding pool_ok_def by blast
qed (use assms in \<open>simp_all add: tp_mem_def\<close>)

lemma got_ok:
  assumes m: "tp_mem tp Q xs H" and a: "a \<noteq> NULL \<longrightarrow> dlls (qm (tpool tp)) a = None \<and> a \<noteq> work_list tp" and Q: "set Q \<subseteq> H"
  shows "\<exists>p r tp' res. mpp_get_pass (tpool tp) False False a = Some (p, r) \<and> new_work_got (tp\<lparr>tpool := p\<rparr>) r W = Some (tp', res) \<and>
    (res = WaitsForWork \<and> tp' = tp \<or>
     (\<exists>b ys. res = NewWork b \<and> b \<notin> H \<and> tp_mem tp' Q ys (insert b H) \<and> works tp' = (works tp)(b \<mapsto> W) \<and>
        tstate tp' = tstate tp \<and> active tp' = active tp))"
proof -
  note M = tp_memD [OF m]
  show ?thesis
  proof (rule mpp_get_pass_cases [where noblock = False and rsv = False, OF M(1-3), of a], goal_cases)
    case 1
    then show ?case using a by blast
  next
    case (2 st' b ys)
    let ?tp = "tp\<lparr>tpool := st', wdlls := (wdlls tp)(b \<mapsto> \<lparr>dll_next = b, dll_prev = b\<rparr>), works := (works tp)(b \<mapsto> W)\<rparr>"
    have n: "dlls (qm st') (work_list tp) = None" using get_pass_none [OF 2(1) M(7)] a M(6) by (cases "a = NULL") auto
    have b: "b \<noteq> NULL" "b \<noteq> work_list tp" using 2(2) n by (auto simp: pool_ok_def)
    have "ring (wdlls ?tp) (work_list tp) Q" by (rule ring_frame [OF M(4)]) (use b(2) 2(3) Q in auto)
    then have "tp_mem ?tp Q ys (insert b H)" using M 2 n b by (auto simp: tp_mem_def mpp_room_def)
    then show ?case using 2(1,3) b(1) by (intro exI [of _ st'] exI [of _ "Got b"] exI [of _ ?tp] exI [of _ "NewWork b"]) (auto simp: new_work_got_def)
  next
    case 3
    then show ?case by (intro exI [of _ "tpool tp"] exI [of _ Slept] exI [of _ tp] exI [of _ WaitsForWork]) (simp add: new_work_got_def)
  qed
qed

lemma new_work_ok:
  assumes m: "tp_mem tp Q xs H" and a: "a \<noteq> NULL \<longrightarrow> dlls (qm (tpool tp)) a = None \<and> a \<noteq> work_list tp" and Q: "set Q \<subseteq> H"
    and st: "tstate tp = TP_INITIALIZED"
  shows "\<exists>tp' res. new_work tp a W = Some (tp', res) \<and> (res = WaitsForWork \<and> tp' = tp \<or>
     (\<exists>b ys. res = NewWork b \<and> b \<notin> H \<and> tp_mem tp' Q ys (insert b H) \<and> works tp' = (works tp)(b \<mapsto> W) \<and>
        tstate tp' = tstate tp \<and> active tp' = active tp))"
  using got_ok [OF m a Q, of W] st tp_memD(2) [OF m] by (auto simp: new_work_def mpp_bufpool_get_def)

lemma new_work_wake_ok:
  assumes m: "tp_mem tp Q xs H" and a: "a \<noteq> NULL \<longrightarrow> dlls (qm (tpool tp)) a = None \<and> a \<noteq> work_list tp" and Q: "set Q \<subseteq> H"
  shows "\<exists>tp' res. new_work_wake tp a W = Some (tp', res) \<and> (res = WaitsForWork \<and> tp' = tp \<or>
     (\<exists>b ys. res = NewWork b \<and> b \<notin> H \<and> tp_mem tp' Q ys (insert b H) \<and> works tp' = (works tp)(b \<mapsto> W) \<and>
        tstate tp' = tstate tp \<and> active tp' = active tp))"
proof (cases "room_left (tpool tp)")
  case True
  with got_ok [OF m a Q, of W] show ?thesis by (auto simp: new_work_wake_def mpp_get_wake_def)
next
  case False
  then show ?thesis by (simp add: new_work_wake_def mpp_get_wake_def new_work_got_def)
qed

lemma put_ok:
  assumes m: "tp_mem tp Q xs H" and w: "w \<in> H" "w \<notin> set Q"
  shows "\<exists>tp' ys. worker_put tp w = Some tp' \<and> tp_mem tp' Q ys (H - {w}) \<and> works tp' = (works tp)(w := None) \<and>
     tstate tp' = tstate tp \<and> active tp' = active tp"
proof -
  note M = tp_memD [OF m]
  have ok: "mpp_ok \<lparr>mpool = tpool tp, mheld = H, waiting = []\<rparr>" using M(1-3) by (auto simp: mpp_ok_def)
  from mpp_put_ok [OF ok, of w] w(1) obtain p where p: "mpp_bufpool_put (tpool tp) w = Some p"
    "mpp_ok \<lparr>mpool = p, mheld = H - {w}, waiting = []\<rparr>" by auto
  then obtain ys where ys: "pool_ok p ys (H - {w})" "state (bp p) = INITIALIZED" "mpp_room p" by (auto simp: mpp_ok_def)
  let ?tp = "tp\<lparr>tpool := p, wdlls := (wdlls tp)(w := None), works := (works tp)(w := None)\<rparr>"
  have wl: "w \<noteq> work_list tp" using M(11) w(1) by blast
  have "ring (wdlls ?tp) (work_list tp) Q" by (rule ring_frame [OF M(4)]) (use w wl in auto)
  then have "tp_mem ?tp Q ys (H - {w})" using M ys put_none [OF p(1) M(7)] wl by (auto simp: tp_mem_def)
  with p(1) show ?thesis by (simp add: worker_put_def) blast
qed

lemma add_ok:
  assumes m: "tp_mem tp Q xs H" and w: "w \<in> H" "w \<notin> set Q"
  shows "\<exists>tp'. schedule_add tp w = Some tp' \<and> tp_mem tp' (Q @ [w]) xs H \<and> works tp' = works tp \<and> tstate tp' = tstate tp \<and> active tp' = active tp"
proof -
  note M = tp_memD [OF m]
  obtain n where n: "wdlls tp w = Some n" using M(5) w(1) by blast
  have "w \<notin> set (work_list tp # Q)" using w M(11) by auto
  from DLL_REVADD_ring [OF M(4) this n] obtain h where h: "DLL_REVADD (wdlls tp) (work_list tp) w = Some h"
    "ring h (work_list tp) (Q @ [w])" "agree (set (work_list tp # w # Q)) (wdlls tp) h" by blast
  have "dom h = dom (wdlls tp)" using h(3) by (simp add: agree_def)
  with h M show ?thesis by (simp add: schedule_add_def tp_mem_def add.commute)
qed

lemma take_ok:
  assumes m: "tp_mem tp (w # Q) xs H"
  shows "\<exists>tp'. worker_pass tp = Some (tp', Takes w) \<and> tp_mem tp' Q xs H \<and> works tp' = works tp \<and> tstate tp' = tstate tp \<and> active tp' = active tp"
proof -
  note M = tp_memD [OF m]
  have r: "ring (wdlls tp) (work_list tp) ([] @ w # Q)" using M(4) by simp
  from DLL_REM_ring [OF r] obtain h where h: "DLL_REM (wdlls tp) w = Some h" "ring h (work_list tp) Q"
    "agree (set (work_list tp # [] @ w # Q)) (wdlls tp) h" by auto
  have "dom h = dom (wdlls tp)" using h(3) by (simp add: agree_def)
  moreover have "DLL_ISEMPTY (wdlls tp) (work_list tp) = Some False" using ring_empty [OF M(4)] by simp
  moreover have "DLL_NEXT (wdlls tp) (work_list tp) = Some w" using ring_ends(1) [OF M(4)] by simp
  ultimately show ?thesis using h M by (simp add: worker_pass_def tp_mem_def)
qed

lemma empty_pass: "tp_mem tp [] xs H \<Longrightarrow> worker_pass tp =
    (if tstate tp = TP_SHUTTING then Some (tp\<lparr>active := active tp - 1\<rparr>, Ends) else Some (tp, Blocks))"
  using ring_empty [OF tp_memD(4), of tp "[]" xs H] by (simp add: worker_pass_def)

lemma tp_mem_active: "tp_mem (tp\<lparr>active := k\<rparr>) Q xs H \<longleftrightarrow> tp_mem tp Q xs H" "tp_mem (tp\<lparr>tstate := st\<rparr>) Q xs H \<longleftrightarrow> tp_mem tp Q xs H"
  by (simp_all add: tp_mem_def)


section \<open>Owners\<close>

lemma ownedD: "works_owned s Q H ow \<Longrightarrow> has_work s Q h w \<Longrightarrow> w \<in> H \<and> ow w = h"
  by (simp add: works_owned_def)

lemma owned_list: "works_owned s Q H ow \<Longrightarrow> set Q \<subseteq> H"
  using ownedD [of s Q H ow InList] by auto

lemma owned_move:
  assumes o: "works_owned s Q H ow" and e: "\<And>h x. has_work s' Q' h x \<longleftrightarrow> (if x = w then h = h' else has_work s Q h x)"
  shows "works_owned s' Q' (insert w H) (ow(w := h'))"
  using o unfolding works_owned_def e by auto

lemma owned_drop:
  assumes o: "works_owned s Q H ow" and e: "\<And>h x. has_work s' Q' h x \<longleftrightarrow> x \<noteq> w \<and> has_work s Q h x"
  shows "works_owned s' Q' (H - {w}) ow"
  using o unfolding works_owned_def e by auto

lemma owned_same:
  assumes o: "works_owned s Q H ow" and e: "\<And>h x. has_work s' Q' h x \<longleftrightarrow> has_work s Q h x"
  shows "works_owned s' Q' H ow"
  using o unfolding works_owned_def e .

lemma calls_same: "(\<And>w. w \<in> set Q \<Longrightarrow> works tp' w = works tp w) \<Longrightarrow> map (call_of tp') Q = map (call_of tp) Q"
  by (simp add: call_of_def)

section \<open>Every event\<close>

lemma live_cases:
  assumes "tp_inv s" and "dph s \<noteq> DDone"
  obtains Q xs H ow where "tp_mem (tps s) Q xs H" "works_owned s Q H ow" "phases_ok s Q" "scheduled s = taken s @ map (call_of (tps s)) Q"
    "active (tps s) = of_nat (alive (nw s) (wph s))"
  using assms unfolding tp_inv_def live_ok_def by auto

lemma liveI:
  assumes "tp_mem (tps s) Q xs H" "works_owned s Q H ow" "phases_ok s Q" "scheduled s = taken s @ map (call_of (tps s)) Q"
    "active (tps s) = of_nat (alive (nw s) (wph s))" "dph s \<noteq> DDone" "dph s \<noteq> DPool" "0 < nw s" "nw s < 2 ^ 31"
  shows "tp_inv s"
  using assms unfolding tp_inv_def live_ok_def by auto

lemma inv_bounds: "tp_inv s \<Longrightarrow> 0 < nw s" "tp_inv s \<Longrightarrow> nw s < 2 ^ 31" "tp_inv s \<Longrightarrow> dph s \<noteq> DPool"
  by (simp_all add: tp_inv_def)

lemma done_quiet: "tp_inv s \<Longrightarrow> dph s = DDone \<Longrightarrow> \<not> tp_enabled e s"
  by (cases e) (auto simp: tp_inv_def)

lemma alive_ended:
  assumes "i < n" "p i \<noteq> Ended"
  shows "alive n p = Suc (alive n (p(i := Ended)))"
proof -
  have e: "{j. j < n \<and> p j \<noteq> Ended} = insert i {j. j < n \<and> (p(i := Ended)) j \<noteq> Ended}" using assms by auto
  have "finite {j. j < n \<and> (p(i := Ended)) j \<noteq> Ended}" by (rule finite_subset [of _ "{..<n}"]) auto
  then show ?thesis unfolding alive_def e by (rule card_insert_disjoint) simp
qed

lemma alive_same: "p i \<noteq> Ended \<Longrightarrow> x \<noteq> Ended \<Longrightarrow> alive n (p(i := x)) = alive n p"
  unfolding alive_def by (rule arg_cong [where f = card]) auto

lemma alive_wake: "alive n (wake_workers p) = alive n p"
  unfolding alive_def wake_workers_def by (rule arg_cong [where f = card]) auto

lemma worker_pass_inv:
  assumes I: "tp_inv s" and i: "i < nw s" "wph s i = Looping" and d: "dph s \<noteq> DDone"
  shows "\<exists>s'. tp_step (WorkerPass i) s = Some s' \<and> tp_inv s'"
proof -
  obtain Q xs H ow where L: "tp_mem (tps s) Q xs H" "works_owned s Q H ow" "phases_ok s Q" "scheduled s = taken s @ map (call_of (tps s)) Q"
    "active (tps s) = of_nat (alive (nw s) (wph s))" by (rule live_cases [OF I d])
  note B = inv_bounds [OF I]
  show ?thesis
  proof (cases Q)
    case Nil
    show ?thesis
    proof (cases "tstate (tps s) = TP_SHUTTING")
      case True
      let ?s = "s\<lparr>tps := (tps s)\<lparr>active := active (tps s) - 1\<rparr>, wph := (wph s)(i := Ended)\<rparr>"
      have "tp_step (WorkerPass i) s = Some ?s" using empty_pass [of "tps s" xs H] L(1) Nil True by simp
      moreover have "tp_inv ?s"
      proof (rule liveI)
        show "tp_mem (tps ?s) [] xs H" using L(1) Nil by (simp add: tp_mem_active)
        show "works_owned ?s [] H ow"
        proof (rule owned_same [OF L(2)])
          show "has_work ?s [] h x \<longleftrightarrow> has_work s Q h x" for h x using i Nil by (cases h) auto
        qed
        show "phases_ok ?s []" using L(3) Nil True by (auto simp: phases_ok_def split: if_splits)
        show "active (tps ?s) = of_nat (alive (nw ?s) (wph ?s))"
          using L(5) alive_ended [of i "nw s" "wph s"] i by simp
      qed (use L(4) Nil B d in simp_all)
      ultimately show ?thesis by blast
    next
      case False
      let ?s = "s\<lparr>wph := (wph s)(i := Blocked)\<rparr>"
      have "tp_step (WorkerPass i) s = Some ?s" using empty_pass [of "tps s" xs H] L(1) Nil False by simp
      moreover have "tp_inv ?s"
      proof (rule liveI)
        show "works_owned ?s Q H ow"
        proof (rule owned_same [OF L(2)])
          show "has_work ?s Q h x \<longleftrightarrow> has_work s Q h x" for h x using i by (cases h) auto
        qed
        show "phases_ok ?s Q" using L(3) Nil False by (auto simp: phases_ok_def split: if_splits)
        show "active (tps ?s) = of_nat (alive (nw ?s) (wph ?s))"
          using L(5) alive_same [of "wph s" i] i by simp
      qed (use L B d in simp_all)
      ultimately show ?thesis by blast
    qed
  next
    case (Cons w Q')
    note M = tp_memD [OF L(1)]
    from take_ok [OF L(1) [unfolded Cons]] obtain tp where tp: "worker_pass (tps s) = Some (tp, Takes w)" "tp_mem tp Q' xs H"
      "works tp = works (tps s)" "tstate tp = tstate (tps s)" "active tp = active (tps s)" by blast
    have w: "w \<in> H" "ow w = InList" using ownedD [OF L(2), of InList w] Cons by simp_all
    obtain W where W: "works (tps s) w = Some W" using M(8) w(1) by blast
    let ?s = "s\<lparr>tps := tp, wph := (wph s)(i := Working w), taken := taken s @ [(w_fn W, w_data W)]\<rparr>"
    have "tp_step (WorkerPass i) s = Some ?s" using tp(1,3) W by (simp add: worker_call_def)
    moreover have "tp_inv ?s"
    proof (rule liveI)
      show "tp_mem (tps ?s) Q' xs (insert w H)" using tp(2) w(1) by (simp add: insert_absorb)
      show "works_owned ?s Q' (insert w H) (ow(w := Worker i))"
      proof (rule owned_move [OF L(2)])
        fix h x
        have "w \<notin> set Q'" using M(4) Cons by (simp add: ring_def)
        moreover have "\<not> has_work s Q (User u) w" "\<not> has_work s Q (Worker j) w" for u j
          using ownedD [OF L(2), of "User u" w] ownedD [OF L(2), of "Worker j" w] w(2) by auto
        ultimately show "has_work ?s Q' h x \<longleftrightarrow> (if x = w then h = Worker i else has_work s Q h x)"
          using i Cons by (cases h) auto
      qed
      show "phases_ok ?s Q'" using L(3) Cons tp(4) by (auto simp: phases_ok_def split: if_splits)
      show "scheduled ?s = taken ?s @ map (call_of (tps ?s)) Q'" using L(4) Cons W tp(3) by (simp add: call_of_def)
      show "active (tps ?s) = of_nat (alive (nw ?s) (wph ?s))"
        using L(5) tp(5) alive_same [of "wph s" i] i by simp
    qed (use B d in simp_all)
    ultimately show ?thesis by blast
  qed
qed

lemma worker_done_inv:
  assumes I: "tp_inv s" and i: "i < nw s" "wph s i = Working w" and d: "dph s \<noteq> DDone"
  shows "\<exists>s'. tp_step (WorkerDone i) s = Some s' \<and> tp_inv s'"
proof -
  obtain Q xs H ow where L: "tp_mem (tps s) Q xs H" "works_owned s Q H ow" "phases_ok s Q" "scheduled s = taken s @ map (call_of (tps s)) Q"
    "active (tps s) = of_nat (alive (nw s) (wph s))" by (rule live_cases [OF I d])
  note B = inv_bounds [OF I]
  have w: "w \<in> H" "ow w = Worker i" using ownedD [OF L(2), of "Worker i" w] i by simp_all
  then have wQ: "w \<notin> set Q" using ownedD [OF L(2), of InList w] by auto
  from put_ok [OF L(1) w(1) wQ] obtain tp ys where tp: "worker_put (tps s) w = Some tp" "tp_mem tp Q ys (H - {w})"
    "works tp = (works (tps s))(w := None)" "tstate tp = tstate (tps s)" "active tp = active (tps s)" by blast
  let ?s = "s\<lparr>tps := tp, wph := (wph s)(i := Looping)\<rparr>"
  have "tp_step (WorkerDone i) s = Some ?s" using tp(1) i by simp
  moreover have "tp_inv ?s"
  proof (rule liveI)
    show "tp_mem (tps ?s) Q ys (H - {w})" using tp(2) by simp
    show "works_owned ?s Q (H - {w}) ow"
    proof (rule owned_drop [OF L(2)])
      fix h x
      have "\<not> has_work s Q (User u) w" "has_work s Q (Worker j) w \<longleftrightarrow> j = i" for u j
        using ownedD [OF L(2), of "User u" w] ownedD [OF L(2), of "Worker j" w] w(2) i by auto
      then show "has_work ?s Q h x \<longleftrightarrow> x \<noteq> w \<and> has_work s Q h x" using i wQ by (cases h) auto
    qed
    show "phases_ok ?s Q" using L(3) tp(4) by (auto simp: phases_ok_def split: if_splits)
    show "scheduled ?s = taken ?s @ map (call_of (tps ?s)) Q"
    proof -
      have "map (call_of tp) Q = map (call_of (tps s)) Q" by (rule calls_same) (use tp(3) wQ in auto)
      with L(4) show ?thesis by simp
    qed
    show "active (tps ?s) = of_nat (alive (nw ?s) (wph ?s))"
      using L(5) tp(5) alive_same [of "wph s" i] i by simp
  qed (use B d in simp_all)
  ultimately show ?thesis by blast
qed


lemma phases_user:
  assumes p: "phases_ok s Q" and u: "uph s u \<noteq> UAdded" and d: "dph s = DNone" and t: "tstate tp = tstate (tps s)"
  shows "phases_ok (s\<lparr>tps := tp, uph := (uph s)(u := x)\<rparr>) Q" "phases_ok (s\<lparr>uph := (uph s)(u := x)\<rparr>) Q"
proof -
  have "\<exists>v. ((uph s)(u := x)) v = UAdded" if "\<exists>v. uph s v = UAdded"
  proof -
    from that obtain v where "uph s v = UAdded" by blast
    with u have "((uph s)(u := x)) v = UAdded" by auto
    then show ?thesis by blast
  qed
  with p d t show "phases_ok (s\<lparr>tps := tp, uph := (uph s)(u := x)\<rparr>) Q" "phases_ok (s\<lparr>uph := (uph s)(u := x)\<rparr>) Q"
    by (simp_all add: phases_ok_def)
qed

lemma got_inv:
  assumes I: "tp_inv s" and L: "tp_mem (tps s) Q xs H" "works_owned s Q H ow" "phases_ok s Q" "scheduled s = taken s @ map (call_of (tps s)) Q"
      "active (tps s) = of_nat (alive (nw s) (wph s))"
    and d: "dph s = DNone" and u: "uph s u = UIdle \<or> uph s u = UWaits W"
    and r: "res = WaitsForWork \<and> tp = tps s \<or> (\<exists>b ys. res = NewWork b \<and> b \<notin> H \<and> tp_mem tp Q ys (insert b H) \<and> works tp = (works (tps s))(b \<mapsto> W) \<and>
        tstate tp = tstate (tps s) \<and> active tp = active (tps s))"
  shows "tp_inv (user_got s u W (tp, res))"
  using r
proof (elim disjE exE conjE)
  assume w: "res = WaitsForWork" "tp = tps s"
  let ?s = "user_got s u W (tp, res)"
  have e: "?s = s\<lparr>uph := (uph s)(u := UWaits W)\<rparr>" using w by (simp add: user_got_def)
  show ?thesis unfolding e
  proof (rule liveI)
    show "works_owned (s\<lparr>uph := (uph s)(u := UWaits W)\<rparr>) Q H ow"
    proof (rule owned_same [OF L(2)])
      show "has_work (s\<lparr>uph := (uph s)(u := UWaits W)\<rparr>) Q h x \<longleftrightarrow> has_work s Q h x" for h x using u by (cases h) auto
    qed
    show "phases_ok (s\<lparr>uph := (uph s)(u := UWaits W)\<rparr>) Q" by (rule phases_user(2) [OF L(3) _ d refl]) (use u in auto)
  qed (use L d inv_bounds [OF I] in simp_all)
next
  fix b ys assume n: "res = NewWork b" "b \<notin> H" "tp_mem tp Q ys (insert b H)" "works tp = (works (tps s))(b \<mapsto> W)" "tstate tp = tstate (tps s)" "active tp = active (tps s)"
  let ?s = "s\<lparr>tps := tp, uph := (uph s)(u := UHas b)\<rparr>"
  have e: "user_got s u W (tp, res) = ?s" using n(1) by (simp add: user_got_def)
  have nb: "\<not> has_work s Q h b" for h using ownedD [OF L(2), of h b] n(2) by blast
  then have nl: "b \<notin> set Q" using nb [of InList] by simp
  show ?thesis unfolding e
  proof (rule liveI)
    show "tp_mem (tps ?s) Q ys (insert b H)" using n(3) by simp
    show "works_owned ?s Q (insert b H) (ow(b := User u))"
    proof (rule owned_move [OF L(2)])
      show "has_work ?s Q h x \<longleftrightarrow> (if x = b then h = User u else has_work s Q h x)" for h x using nb [of h] u by (cases h) auto
    qed
    show "phases_ok ?s Q" by (rule phases_user(1) [OF L(3) _ d n(5)]) (use u in auto)
    have "map (call_of tp) Q = map (call_of (tps s)) Q" by (rule calls_same) (use n(4) nl in auto)
    with L(4) show "scheduled ?s = taken ?s @ map (call_of (tps ?s)) Q" by simp
  qed (use L d n inv_bounds [OF I] in simp_all)
qed

lemma get_work_inv:
  assumes I: "tp_inv s" and en: "tp_enabled (GetWork u a W) s"
  shows "\<exists>s'. tp_step (GetWork u a W) s = Some s' \<and> tp_inv s'"
proof -
  have d: "dph s = DNone" "uph s u = UIdle" and a: "a \<noteq> NULL \<longrightarrow> dlls (qm (tpool (tps s))) a = None \<and> a \<noteq> work_list (tps s)"
    using en by (simp_all add: new_buf_def)
  have "dph s \<noteq> DDone" using d by simp
  from live_cases [OF I this] obtain Q xs H ow where L: "tp_mem (tps s) Q xs H" "works_owned s Q H ow" "phases_ok s Q"
    "scheduled s = taken s @ map (call_of (tps s)) Q" "active (tps s) = of_nat (alive (nw s) (wph s))" .
  have "tstate (tps s) = TP_INITIALIZED" using L(3) d by (simp add: phases_ok_def)
  from new_work_ok [OF L(1) a owned_list [OF L(2)] this, of W] obtain tp res where r: "new_work (tps s) a W = Some (tp, res)"
    "res = WaitsForWork \<and> tp = tps s \<or> (\<exists>b ys. res = NewWork b \<and> b \<notin> H \<and> tp_mem tp Q ys (insert b H) \<and> works tp = (works (tps s))(b \<mapsto> W) \<and>
        tstate tp = tstate (tps s) \<and> active tp = active (tps s))" by blast
  from got_inv [OF I L d(1) disjI1 [OF d(2)] r(2)] r(1) show ?thesis by simp
qed

lemma get_wake_inv:
  assumes I: "tp_inv s" and en: "tp_enabled (GetWake u a) s" and dd: "dph s \<noteq> DDone"
  shows "\<exists>s'. tp_step (GetWake u a) s = Some s' \<and> tp_inv s'"
proof -
  obtain W where u: "uph s u = UWaits W" and a: "a \<noteq> NULL \<longrightarrow> dlls (qm (tpool (tps s))) a = None \<and> a \<noteq> work_list (tps s)"
    using en by (auto simp: new_buf_def)
  from live_cases [OF I dd] obtain Q xs H ow where L: "tp_mem (tps s) Q xs H" "works_owned s Q H ow" "phases_ok s Q"
    "scheduled s = taken s @ map (call_of (tps s)) Q" "active (tps s) = of_nat (alive (nw s) (wph s))" .
  have d: "dph s = DNone"
  proof (rule ccontr)
    assume "dph s \<noteq> DNone"
    then have "uph s u = UIdle" using L(3) by (simp add: phases_ok_def)
    with u show False by simp
  qed
  from new_work_wake_ok [OF L(1) a owned_list [OF L(2)], of W] obtain tp res where r: "new_work_wake (tps s) a W = Some (tp, res)"
    "res = WaitsForWork \<and> tp = tps s \<or> (\<exists>b ys. res = NewWork b \<and> b \<notin> H \<and> tp_mem tp Q ys (insert b H) \<and> works tp = (works (tps s))(b \<mapsto> W) \<and>
        tstate tp = tstate (tps s) \<and> active tp = active (tps s))" by blast
  from got_inv [OF I L d disjI2 [OF u] r(2)] r(1) u show ?thesis by simp
qed

lemma busy_user: "phases_ok s Q \<Longrightarrow> uph s u \<noteq> UIdle \<Longrightarrow> dph s = DNone \<and> tstate (tps s) = TP_INITIALIZED"
  by (auto simp: phases_ok_def split: if_splits)

lemma check_inv:
  assumes I: "tp_inv s" and u: "uph s u = UHas w" and dd: "dph s \<noteq> DDone"
  shows "\<exists>s'. tp_step (Check u) s = Some s' \<and> tp_inv s'"
proof -
  from live_cases [OF I dd] obtain Q xs H ow where L: "tp_mem (tps s) Q xs H" "works_owned s Q H ow" "phases_ok s Q"
    "scheduled s = taken s @ map (call_of (tps s)) Q" "active (tps s) = of_nat (alive (nw s) (wph s))" .
  have d: "dph s = DNone" "tstate (tps s) = TP_INITIALIZED" using busy_user [OF L(3), of u] u by simp_all
  let ?s = "s\<lparr>uph := (uph s)(u := UChecked w)\<rparr>"
  have "tp_step (Check u) s = Some ?s" using u d(2) by (simp add: schedule_check_def)
  moreover have "tp_inv ?s"
  proof (rule liveI)
    show "works_owned ?s Q H ow"
    proof (rule owned_same [OF L(2)])
      show "has_work ?s Q h x \<longleftrightarrow> has_work s Q h x" for h x using u by (cases h) auto
    qed
    show "phases_ok ?s Q" by (rule phases_user(2) [OF L(3) _ d(1) refl]) (use u in simp)
  qed (use L d inv_bounds [OF I] in simp_all)
  ultimately show ?thesis by blast
qed

lemma add_inv:
  assumes I: "tp_inv s" and u: "uph s u = UChecked w" and dd: "dph s \<noteq> DDone"
  shows "\<exists>s'. tp_step (Add u) s = Some s' \<and> tp_inv s'"
proof -
  from live_cases [OF I dd] obtain Q xs H ow where L: "tp_mem (tps s) Q xs H" "works_owned s Q H ow" "phases_ok s Q"
    "scheduled s = taken s @ map (call_of (tps s)) Q" "active (tps s) = of_nat (alive (nw s) (wph s))" .
  have d: "dph s = DNone" using busy_user [OF L(3), of u] u by simp
  have w: "w \<in> H" "ow w = User u" using ownedD [OF L(2), of "User u" w] u by simp_all
  then have wQ: "w \<notin> set Q" using ownedD [OF L(2), of InList w] by auto
  from add_ok [OF L(1) w(1) wQ] obtain tp where tp: "schedule_add (tps s) w = Some tp" "tp_mem tp (Q @ [w]) xs H" "works tp = works (tps s)"
    "tstate tp = tstate (tps s)" "active tp = active (tps s)" by blast
  obtain W where W: "works (tps s) w = Some W" using tp_memD(8) [OF L(1)] w(1) by blast
  let ?s = "s\<lparr>tps := tp, uph := (uph s)(u := UAdded), scheduled := scheduled s @ [(w_fn W, w_data W)]\<rparr>"
  have "tp_step (Add u) s = Some ?s" using u tp(1) W by (simp add: worker_call_def)
  moreover have "tp_inv ?s"
  proof (rule liveI)
    show "tp_mem (tps ?s) (Q @ [w]) xs (insert w H)" using tp(2) w(1) by (simp add: insert_absorb)
    show "works_owned ?s (Q @ [w]) (insert w H) (ow(w := InList))"
    proof (rule owned_move [OF L(2)])
      fix h x
      have "has_work s Q (User v) w \<longleftrightarrow> v = u" "\<not> has_work s Q (Worker j) w" for v j
        using ownedD [OF L(2), of "User v" w] ownedD [OF L(2), of "Worker j" w] w(2) u by auto
      then show "has_work ?s (Q @ [w]) h x \<longleftrightarrow> (if x = w then h = InList else has_work s Q h x)"
        using u by (cases h) auto
    qed
    show "phases_ok ?s (Q @ [w])" using L(3) d u tp(4) by (auto simp: phases_ok_def)
    show "scheduled ?s = taken ?s @ map (call_of (tps ?s)) (Q @ [w])"
      using L(4) W tp(3) by (simp add: call_of_def)
  qed (use L d tp inv_bounds [OF I] in simp_all)
  ultimately show ?thesis by blast
qed

lemma wake_looping: "wake_workers p i \<noteq> Blocked" "wake_workers p i = Working w \<longleftrightarrow> p i = Working w" "wake_workers p i = Ended \<longleftrightarrow> p i = Ended"
  by (simp_all add: wake_workers_def)

lemma wake_up_inv:
  assumes I: "tp_inv s" and u: "uph s u = UAdded" and dd: "dph s \<noteq> DDone"
  shows "\<exists>s'. tp_step (WakeUp u) s = Some s' \<and> tp_inv s'"
proof -
  from live_cases [OF I dd] obtain Q xs H ow where L: "tp_mem (tps s) Q xs H" "works_owned s Q H ow" "phases_ok s Q"
    "scheduled s = taken s @ map (call_of (tps s)) Q" "active (tps s) = of_nat (alive (nw s) (wph s))" .
  have d: "dph s = DNone" using busy_user [OF L(3), of u] u by simp
  let ?s = "s\<lparr>wph := wake_workers (wph s), uph := (uph s)(u := UIdle)\<rparr>"
  have "tp_inv ?s"
  proof (rule liveI)
    show "works_owned ?s Q H ow"
    proof (rule owned_same [OF L(2)])
      show "has_work ?s Q h x \<longleftrightarrow> has_work s Q h x" for h x using u by (cases h) (auto simp: wake_looping)
    qed
    show "phases_ok ?s Q" using L(3) d by (auto simp: phases_ok_def wake_looping)
  qed (use L d alive_wake [of "nw s" "wph s"] inv_bounds [OF I] in simp_all)
  then show ?thesis by simp
qed

section \<open>Shutting down\<close>

lemma deinit_inv:
  assumes I: "tp_inv s" and d: "dph s = DNone" "\<forall>u. uph s u = UIdle"
  shows "\<exists>s'. tp_step Deinit s = Some s' \<and> tp_inv s'"
proof -
  have dd: "dph s \<noteq> DDone" using d by simp
  from live_cases [OF I dd] obtain Q xs H ow where L: "tp_mem (tps s) Q xs H" "works_owned s Q H ow" "phases_ok s Q"
    "scheduled s = taken s @ map (call_of (tps s)) Q" "active (tps s) = of_nat (alive (nw s) (wph s))" .
  have st: "tstate (tps s) = TP_INITIALIZED" using L(3) d by (simp add: phases_ok_def)
  let ?s = "s\<lparr>tps := (tps s)\<lparr>tstate := TP_SHUTTING\<rparr>, dph := DShut\<rparr>"
  have "tp_step Deinit s = Some ?s" using st tp_memD(10) [OF L(1)] by (simp add: thread_pool_deinit_def deinit_shut_def)
  moreover have "tp_inv ?s"
  proof (rule liveI)
    show "tp_mem (tps ?s) Q xs H" using L(1) by (simp add: tp_mem_active)
    show "works_owned ?s Q H ow"
    proof (rule owned_same [OF L(2)])
      show "has_work ?s Q h x \<longleftrightarrow> has_work s Q h x" for h x by (cases h) auto
    qed
    show "phases_ok ?s Q" using L(3) d by (auto simp: phases_ok_def)
    show "scheduled ?s = taken ?s @ map (call_of (tps ?s)) Q" using L(4) by (simp add: call_of_def)
  qed (use L d inv_bounds [OF I] in simp_all)
  ultimately show ?thesis by blast
qed

lemma deinit_workers_inv:
  assumes I: "tp_inv s" and d: "dph s = DShut"
  shows "\<exists>s'. tp_step DeinitWorkers s = Some s' \<and> tp_inv s'"
proof -
  have dd: "dph s \<noteq> DDone" using d by simp
  from live_cases [OF I dd] obtain Q xs H ow where L: "tp_mem (tps s) Q xs H" "works_owned s Q H ow" "phases_ok s Q"
    "scheduled s = taken s @ map (call_of (tps s)) Q" "active (tps s) = of_nat (alive (nw s) (wph s))" .
  let ?s = "s\<lparr>wph := wake_workers (wph s), dph := DJoin\<rparr>"
  have "tp_inv ?s"
  proof (rule liveI)
    show "works_owned ?s Q H ow"
    proof (rule owned_same [OF L(2)])
      show "has_work ?s Q h x \<longleftrightarrow> has_work s Q h x" for h x by (cases h) (auto simp: wake_looping)
    qed
    show "phases_ok ?s Q" using L(3) d by (auto simp: phases_ok_def wake_looping)
  qed (use L d alive_wake [of "nw s" "wph s"] inv_bounds [OF I] in simp_all)
  then show ?thesis by simp
qed

text \<open>The pool of buffers can be taken down at once when nothing is issued.\<close>

lemma mpp_deinit_ok:
  assumes ok: "pool_ok p xs {}" and st: "state (bp p) = INITIALIZED"
  shows "\<exists>p'. mpp_bufpool_deinit p = Some (p', False) \<and> freelist (bp p') = freelist (bp p) \<and>
    dlls (qm p') (freelist (bp p)) \<noteq> None \<and> q_len (qm p') (freelist (bp p)) \<noteq> None"
proof -
  from ok have q: "queue_holds (freelist (bp p)) (qm p) xs" and o: "unat (owned (bp p)) = length xs"
    and i: "issued (bp p) = 0" by (auto simp: pool_ok_def word_unat_eq_iff)
  let ?f = "freelist (bp p)"
  let ?p = "p\<lparr>bp := (bp p)\<lparr>state := DEINITING\<rparr>\<rparr>"
  from drain_ok [of ?p xs] q o obtain s where s: "bufpool_drain ?p = Some s" "queue_holds ?f (qm s) []"
    "bp s = (bp p)\<lparr>state := DEINITING, owned := 0\<rparr>" by auto
  from s(2) ring_mem [of "dlls (qm s)" ?f "[]" ?f] obtain n where n: "dlls (qm s) ?f = Some n" "q_len (qm s) ?f = Some 0"
    "DLL_ISEMPTY (dlls (qm s)) ?f = Some True" using ring_empty [of "dlls (qm s)" ?f "[]"]
    by (auto simp: queue_holds_def)
  have "mpp_bufpool_deinit p = Some (s\<lparr>qm := \<lparr>dlls = (dlls (qm s))(?f \<mapsto> \<lparr>dll_next = NULL, dll_prev = NULL\<rparr>),
      q_len = (q_len (qm s))(?f \<mapsto> 0)\<rparr>, bp := (bp p)\<lparr>state := DEINTED, owned := 0\<rparr>\<rparr>, False)"
    using n by (simp add: mpp_bufpool_deinit_def mpp_deinit_wake_def st i s(1,3) on_queue_def queue_deinit_def)
  then show ?thesis by simp
qed

lemma deinit_rest_inv:
  assumes I: "tp_inv s" and d: "dph s = DJoin" and e: "\<forall>i < nw s. wph s i = Ended"
  shows "\<exists>s'. tp_step DeinitRest s = Some s' \<and> tp_inv s'"
proof -
  have dd: "dph s \<noteq> DDone" using d by simp
  from live_cases [OF I dd] obtain Q xs H ow where L: "tp_mem (tps s) Q xs H" "works_owned s Q H ow" "phases_ok s Q"
    "scheduled s = taken s @ map (call_of (tps s)) Q" "active (tps s) = of_nat (alive (nw s) (wph s))" .
  note M = tp_memD [OF L(1)] and B = inv_bounds [OF I]
  have "wph s 0 = Ended" using e B(1) by blast
  then have Q: "Q = []" using L(3) B(1) by (auto simp: phases_ok_def)
  have u: "\<forall>u. uph s u = UIdle" using L(3) d by (simp add: phases_ok_def)
  have "has_work s Q h w \<Longrightarrow> False" for h w using Q u e by (cases h) auto
  then have H: "H = {}" using L(2) unfolding works_owned_def by blast
  have a: "active (tps s) = 0" 
  proof -
    have "{i. i < nw s \<and> wph s i \<noteq> Ended} = {}" using e by blast
    then show ?thesis using L(5) unfolding alive_def by (simp only: card.empty) simp
  qed
  from mpp_deinit_ok [OF M(1) [unfolded H] M(2)] obtain p where p: "mpp_bufpool_deinit (tpool (tps s)) = Some (p, False)"
    "freelist (bp p) = freelist (bp (tpool (tps s)))" "dlls (qm p) (freelist (bp p)) \<noteq> None" "q_len (qm p) (freelist (bp p)) \<noteq> None" by auto
  obtain z where z: "zero_pool p = Some z" using p(3,4) by (auto simp: zero_pool_def)
  obtain n where n: "wdlls (tps s) (work_list (tps s)) = Some n" using M(5) by blast
  have em: "DLL_ISEMPTY (wdlls (tps s)) (work_list (tps s)) = Some True" using ring_empty [OF M(4)] Q by simp
  obtain tp where tp: "deinit_rest (tps s) = Some (tp, False)" "tstate tp = TP_UNINITIALIZED"
    using a em p(1) z n by (auto simp: deinit_rest_def deinit_pool_def zero_tp_def Let_def)
  let ?s = "deinit_result s (tp, False)"
  have "tp_inv ?s" using B e u L(4) Q tp(2) by (simp add: tp_inv_def deinit_result_def)
  with tp(1) show ?thesis by simp
qed

lemma tp_event_inv:
  assumes I: "tp_inv s" and en: "tp_enabled e s"
  shows "\<exists>s'. tp_step e s = Some s' \<and> tp_inv s'"
proof -
  have dd: "dph s \<noteq> DDone" using done_quiet [OF I] en by blast
  show ?thesis
  proof (cases e)
    case (WorkerPass i)
    with worker_pass_inv [OF I _ _ dd, of i] en show ?thesis by simp
  next
    case (WorkerDone i)
    with en obtain w where "i < nw s" "wph s i = Working w" by auto
    with worker_done_inv [OF I this dd] WorkerDone show ?thesis by simp
  next
    case (GetWork u a W)
    with get_work_inv [OF I, of u a W] en show ?thesis by simp
  next
    case (GetWake u a)
    with get_wake_inv [OF I, of u a] en dd show ?thesis by simp
  next
    case (Check u)
    with en obtain w where "uph s u = UHas w" by auto
    with check_inv [OF I this dd] Check show ?thesis by simp
  next
    case (Add u)
    with en obtain w where "uph s u = UChecked w" by auto
    with add_inv [OF I this dd] Add show ?thesis by simp
  next
    case (WakeUp u)
    with wake_up_inv [OF I _ dd, of u] en show ?thesis by simp
  next
    case Deinit
    with deinit_inv [OF I] en show ?thesis by simp
  next
    case DeinitWorkers
    with deinit_workers_inv [OF I] en show ?thesis by simp
  next
    case DeinitRest
    with deinit_rest_inv [OF I] en show ?thesis by simp
  next
    case DeinitPool
    with en inv_bounds(3) [OF I] show ?thesis by simp
  qed
qed


section \<open>The start\<close>

lemma alloc_none: "x \<noteq> a \<Longrightarrow> dlls (qm (alloc_buf st a)) x = dlls (qm st) x"
  by (simp add: alloc_buf_def)

lemma fill_none: "bufpool_fill alloc st k = Some st' \<Longrightarrow> (\<And>i. alloc i \<noteq> x) \<Longrightarrow> dlls (qm st) x = None \<Longrightarrow> dlls (qm st') x = None"
proof (induction k arbitrary: st)
  case (Suc k)
  show ?case
  proof (cases "alloc (unat (owned (bp st))) = NULL")
    case False
    let ?a = "alloc (unat (owned (bp st)))"
    from Suc.prems(1) False obtain s1 s2 where s: "dll_init_buf (alloc_buf st ?a) ?a = Some s1"
      "on_queue s1 (queue_add (qm s1) (freelist (bp s1)) ?a) = Some s2"
      "bufpool_fill alloc (s2\<lparr>bp := (bp s2)\<lparr>owned := owned (bp s2) + 1\<rparr>\<rparr>) k = Some st'"
      by (auto simp: Let_def bind_eq_Some_conv)
    have "dlls (qm (alloc_buf st ?a)) x = None" using Suc.prems(2,3) by (simp add: alloc_buf_def) metis
    then have "dlls (qm s1) x = None" using s(1) by (auto simp: dll_init_buf_def on_queue_def on_dlls_def bind_eq_Some_conv DLL_ops_none_iff(1) [where x = x])
    then have "dlls (qm s2) x = None" using s(2) by (auto simp: on_queue_def bind_eq_Some_conv queue_add_none_iff [where x = x])
    with Suc.IH [OF s(3) Suc.prems(2)] show ?thesis by simp
  qed (use Suc.prems in \<open>simp add: Let_def\<close>)
qed simp

lemma init_error_result: "init_error tp ended \<noteq> Some (tp', 0)"
  by (auto simp: init_error_def Let_def bind_eq_Some_conv)

lemma zero_pool_none: "zero_pool st = Some z \<Longrightarrow> dlls (qm z) x = None \<longleftrightarrow> dlls (qm st) x = None"
  by (auto simp: zero_pool_def bind_eq_Some_conv store_none_iff [where x = x])

lemma zero_pool_freelist: "zero_pool st = Some z \<Longrightarrow> freelist (bp z) = freelist (bp st)"
  by (auto simp: zero_pool_def bind_eq_Some_conv)

lemma init_reserve_none:
  assumes "mpp_bufpool_init_reserve alloc True True True st bufsz nb rsv nm = Some (st', n)"
    and "\<And>i. alloc i \<noteq> x" "dlls (qm st) x = None"
  shows "dlls (qm st') x = None"
proof -
  let ?b = "if bufsz < sizeof_dll then sizeof_dll else bufsz"
  from assms(1) obtain z m where z: "zero_pool st = Some z" and m: "queue_init (qm z) (freelist (bp z)) = Some m"
    and f: "bufpool_fill alloc (z\<lparr>qm := m, bp := (bp z)\<lparr>bufsize := ?b, nbufs := nb, nmax := nm, state := INITIALIZED\<rparr>, reserve := rsv\<rparr>) (unat nb) = Some st'"
    by (auto simp: mpp_bufpool_init_reserve_def bind_eq_Some_conv Let_def)
  have "dlls (qm z) x = None" using zero_pool_none [OF z] assms(3) by simp
  then have "dlls m x = None" using m by (auto simp: queue_init_def on_dlls_def bind_eq_Some_conv DLL_ops_none_iff(1) [where x = x])
  with fill_none [OF f assms(2)] show ?thesis by simp
qed

lemma scast_bounds:
  assumes n: "0 < unat (n :: 32 word)" "4 * unat n < 2 ^ 31"
  shows "unat (scast n :: u64) = unat n" "unat (scast (n * 4) :: u64) = 4 * unat n"
proof -
  have s: "unat (scast k :: u64) = unat k" if "unat k < 2 ^ 31" for k :: "32 word"
  proof -
    have "nat (uint k) < 2 ^ 31" using that by (simp only: unat_eq_nat_uint)
    then have "uint k < 2 ^ 31" using nat_less_iff [of "uint k" "2 ^ 31"] by simp
    moreover have "- (2 ^ 31) \<le> uint k" by (rule order_trans [OF _ uint_ge_0]) simp
    ultimately have "sint k = uint k" by (simp add: sint_uint signed_take_bit_int_eq_self)
    then have "sint k = int (unat k)" by simp
    then have "(scast k :: u64) = of_nat (unat k)" by (simp add: scast_eq)
    moreover have "unat (of_nat (unat k) :: u64) = unat k mod 2 ^ LENGTH(64)" by (rule unat_of_nat)
    ultimately show ?thesis using that by (simp only: mod_less) simp
  qed
  show "unat (scast n :: u64) = unat n" using n by (intro s) simp
  have "unat (n * 4) = 4 * unat n" using n by (simp add: unat_word_ariths)
  then show "unat (scast (n * 4) :: u64) = 4 * unat n" using n s [of "n * 4"] by simp
qed

lemma tp_initial_inv:
  assumes "tp_initial s"
  shows "tp_inv s"
proof -
  from assms obtain tp alloc created ended n nwork where call: "thread_pool_init tp True alloc True True True created ended n nwork = Some (tps s, 0)"
    and nw: "nw s = unat n" "0 < unat n" "unat n < 2 ^ 31" "0 < unat nwork" "4 * unat nwork < 2 ^ 31"
    and mem: "dom (wdlls tp) = {work_list tp}" "work_list tp \<noteq> NULL" "works tp = Map.empty"
    and al: "good_alloc (pool_st.truncate (tpool tp)) alloc (unat nwork)" "freelist (bp (tpool tp)) \<noteq> NULL"
      "dlls (qm (tpool tp)) (work_list tp) = None" "\<forall>i. alloc i \<noteq> work_list tp"
    and ph: "\<forall>i. wph s i = Looping \<or> wph s i = Blocked" "uph s = (\<lambda>_. UIdle)" "dph s = DNone" "scheduled s = []" "taken s = []"
    unfolding tp_initial_def by blast
  obtain z where z: "zero_tp tp = Some z" using call by (auto simp: thread_pool_init_def bind_eq_Some_conv)
  from z obtain zp h0 where zp: "zero_pool (tpool tp) = Some zp" and ze: "z = tp\<lparr>threads := False, active := 0, wdlls := h0, work_pend := 0,
      tstate := TP_UNINITIALIZED, tpool := zp, nthreads := 0\<rparr>" "store (wdlls tp) (work_list tp) (\<lambda>n. \<lparr>dll_next = NULL, dll_prev = NULL\<rparr>) = Some h0"
    by (auto simp: zero_tp_def bind_eq_Some_conv)
  from call z obtain p rc where p: "mpp_bufpool_init alloc True True True zp sizeof_work (scast nwork) (scast (nwork * 4)) = Some (p, rc)"
    by (cases "mpp_bufpool_init alloc True True True zp sizeof_work (scast nwork) (scast (nwork * 4))") (auto simp: thread_pool_init_def Let_def ze)
  obtain n0 where n0: "wdlls tp (work_list tp) = Some n0" using mem(1) by blast
  then have h0: "h0 = (wdlls tp)(work_list tp \<mapsto> \<lparr>dll_next = NULL, dll_prev = NULL\<rparr>)" using ze(2) by simp
  then have "h0 (work_list tp) = Some \<lparr>dll_next = NULL, dll_prev = NULL\<rparr>" by simp
  from DLL_INIT_ring [of h0, OF this] obtain h where h: "DLL_INIT h0 (work_list tp) = Some h" "ring h (work_list tp) []"
    "\<forall>x. x \<noteq> work_list tp \<longrightarrow> h x = h0 x" by blast
  have tps: "tps s = tp\<lparr>work_pend := 0, tpool := p, threads := True, wdlls := h, tstate := TP_INITIALIZED, active := n, nthreads := n\<rparr>"
    using call z p h(1) init_error_result by (auto simp: thread_pool_init_def Let_def ze(1) split: if_splits)
  have f: "freelist (bp zp) = freelist (bp (tpool tp))" by (rule zero_pool_freelist [OF zp])
  note sb = scast_bounds [OF nw(4,5)]
  have g: "good_alloc (pool_st.truncate zp) alloc (unat (scast nwork :: u64))"
    using al(1) unfolding good_alloc_def sb by (simp add: pool_st.defs f zero_pool_none [OF zp])
  from mpp_init_ok [OF p [unfolded mpp_bufpool_init_def] g] f al(2) obtain xs where P: "pool_ok p xs {}" "state (bp p) = INITIALIZED"
    "reserve p = 0" "nmax (bp p) = scast (nwork * 4)" by auto
  have room: "mpp_room p" unfolding mpp_room_def P(3,4) sb using nw(5) by simp
  have none: "dlls (qm p) (work_list tp) = None"
    by (rule init_reserve_none [OF p [unfolded mpp_bufpool_init_def]]) (use al(3,4) zero_pool_none [OF zp] in auto)
  have dom: "dom h = {work_list tp}"
  proof -
    have "h x = None" if "x \<noteq> work_list tp" for x
    proof -
      have "wdlls tp x = None" using mem(1) that by blast
      then show ?thesis using h(3) h0 that by simp
    qed
    moreover have "h (work_list tp) \<noteq> None" using ring_mem [OF h(2), of "work_list tp"] by auto
    ultimately show ?thesis by fastforce
  qed
  have alive: "alive (nw s) (wph s) = nw s"
  proof -
    have "{i. i < nw s \<and> wph s i \<noteq> Ended} = {..<nw s}" using ph(1) by (auto simp: set_eq_iff) (metis worker_phase.distinct(5) worker_phase.distinct(10))
    then show ?thesis by (simp add: alive_def)
  qed
  show ?thesis
  proof (rule liveI)
    show "tp_mem (tps s) [] xs {}" using P room h(2) dom mem(2,3) none by (simp add: tp_mem_def tps)
    have "\<not> has_work s [] h w" for h w
    proof (cases h)
      case (Worker i)
      have "wph s i \<noteq> Working w" using ph(1) by (metis worker_phase.distinct(3) worker_phase.distinct(7))
      with Worker show ?thesis by simp
    qed (simp_all add: ph)
    then show "works_owned s [] {} (\<lambda>_. InList)" by (simp add: works_owned_def)
    have "wph s i \<noteq> Ended" for i using ph(1) by (metis worker_phase.distinct(5) worker_phase.distinct(9))
    then show "phases_ok s []" by (simp add: phases_ok_def ph tps)
    show "active (tps s) = of_nat (alive (nw s) (wph s))" unfolding alive by (simp add: tps nw)
  qed (use nw ph in simp_all)
qed

lemma tp_reach_inv: "tp_reach s \<Longrightarrow> tp_inv s"
proof (induction rule: tp_reach.induct)
  case (start s)
  then show ?case by (rule tp_initial_inv)
next
  case (event s e s')
  from tp_event_inv [OF event.IH event.hyps(2)] event.hyps(3) show ?case by auto
qed

end
