(* ===== verification/Tp_Props.thy ===== *)
theory Tp_Props
  imports Tp_Steps
begin

text \<open>
  The properties of the pool of threads: no event fails, works are taken in the order in which they were
  scheduled, no thread sleeps while there is work, and what the code does not catch.
\<close>

section \<open>Works\<close>



text \<open>
  C26 (tp_no_lost_wakeup) A thread waits only when the list is empty and the pool is not being shut down, unless
  somebody is about to wake it up: a world between the end of its section in \<^verbatim>\<open>schedule_work\<close> and the wake-up, or
  the one that shuts the pool down.
\<close>

theorem tp_no_lost_wakeup:
  assumes "tp_reach s" and i: "i < nw s" "wph s i = Blocked" and u: "\<forall>u. uph s u \<noteq> UAdded" and d: "dph s \<noteq> DShut"
  shows "DLL_ISEMPTY (wdlls (tps s)) (work_list (tps s)) = Some True \<and> scheduled s = taken s \<and> tstate (tps s) = TP_INITIALIZED"
proof -
  note I = tp_reach_inv [OF assms(1)]
  have dd: "dph s \<noteq> DDone" using I i by (auto simp: tp_inv_def)
  obtain Q xs H ow where L: "tp_mem (tps s) Q xs H" "works_owned s Q H ow" "phases_ok s Q" "scheduled s = taken s @ map (call_of (tps s)) Q"
    "active (tps s) = of_nat (alive (nw s) (wph s))" by (rule live_cases [OF I dd])
  have Q: "Q = []" and dn: "dph s = DNone" using L(3) i u d by (auto simp: phases_ok_def)
  have "tstate (tps s) = TP_INITIALIZED" using L(3) dn by (simp add: phases_ok_def)
  with Q L(4) ring_empty [OF tp_memD(4) [OF L(1)]] show ?thesis by simp
qed

section \<open>Shutting down\<close>

text \<open>
  C27 (tp_shutdown) While \<^verbatim>\<open>_thread_pool_deinit\<close> joins the threads, every thread that has not ended can go on; when all
  have ended, the assertions that nothing is active and the list is empty hold, and the pool of works is released
  without waiting. When the pool has been shut down, every scheduled work has been done.
\<close>

theorem tp_shutdown:
  assumes "tp_reach s"
  shows "(dph s = DJoin \<longrightarrow> (\<forall>i < nw s. wph s i \<noteq> Ended \<longrightarrow> tp_enabled (WorkerPass i) s \<or> tp_enabled (WorkerDone i) s)) \<and>
    (dph s = DJoin \<and> (\<forall>i < nw s. wph s i = Ended) \<longrightarrow> (\<exists>tp. deinit_rest (tps s) = Some (tp, False))) \<and>
    (dph s = DDone \<longrightarrow> taken s = scheduled s \<and> (\<forall>i < nw s. wph s i = Ended))"
proof (intro conjI impI allI)
  note I = tp_reach_inv [OF assms]
  fix i assume d: "dph s = DJoin" and i: "i < nw s" "wph s i \<noteq> Ended"
  have dd: "dph s \<noteq> DDone" using d by simp
  obtain Q xs H ow where L: "tp_mem (tps s) Q xs H" "works_owned s Q H ow" "phases_ok s Q" "scheduled s = taken s @ map (call_of (tps s)) Q"
    "active (tps s) = of_nat (alive (nw s) (wph s))" by (rule live_cases [OF I dd])
  have "wph s i \<noteq> Blocked" using L(3) i d by (auto simp: phases_ok_def)
  with i show "tp_enabled (WorkerPass i) s \<or> tp_enabled (WorkerDone i) s" by (cases "wph s i") auto
next
  note I = tp_reach_inv [OF assms]
  assume d: "dph s = DJoin \<and> (\<forall>i < nw s. wph s i = Ended)"
  with deinit_rest_inv [OF I] obtain s' where s': "tp_step DeinitRest s = Some s'" "tp_inv s'" by blast
  then obtain r where r: "deinit_rest (tps s) = Some r" "s' = deinit_result s r" by auto
  then have "\<not> snd r" using inv_bounds(3) [OF s'(2)] by (auto simp: deinit_result_def split: if_splits)
  with r(1) show "\<exists>tp. deinit_rest (tps s) = Some (tp, False)" by (cases r) auto
qed (use tp_reach_inv [OF assms] in \<open>simp_all add: tp_inv_def\<close>)

section \<open>What goes wrong\<close>

lemma zero_tp_list: "zero_tp tp = Some z \<Longrightarrow> wdlls z (work_list z) = Some \<lparr>dll_next = NULL, dll_prev = NULL\<rparr> \<and> \<not> threads z \<and> active z = 0 \<and> work_list z = work_list tp"
  by (auto simp: zero_tp_def bind_eq_Some_conv store_def split: option.splits)

lemma early_error: "zero_tp tp = Some z \<Longrightarrow> work_list tp \<noteq> NULL \<Longrightarrow> init_error (z\<lparr>tpool := p\<rparr>) ended = None"
  using zero_tp_list [of tp z] by (auto simp: init_error_def deinit_shut_def deinit_rest_def DLL_ISEMPTY_def DLL_NEXT_def Let_def)

text \<open>
  C39 (tp_init_aborts) When the buffers, the lock or the memory for the threads cannot be had, or when a thread cannot be
  created and one that was created has already ended, \<^verbatim>\<open>thread_pool_init\<close> does not return -1: its error path calls
  \<^verbatim>\<open>_thread_pool_deinit\<close>, which fails an assertion, because \<^verbatim>\<open>work_list\<close> has not been initialised, or because
  \<^verbatim>\<open>active\<close> has been decreased but not yet set.
\<close>

theorem tp_init_aborts:
  assumes z: "zero_tp tp \<noteq> None" and l: "work_list tp \<noteq> NULL"
    and e: "\<not> (pool_heap \<and> lock_ok \<and> calloc_ok) \<or> created < unat n \<and> 0 < ended \<and> ended < 2 ^ 32"
  shows "thread_pool_init tp True alloc pool_heap lock_ok calloc_ok created ended n nwork = None"
proof -
  from z obtain z where z: "zero_tp tp = Some z" by blast
  note E = early_error [OF z l]
  show ?thesis
  proof (cases "mpp_bufpool_init alloc True pool_heap True (tpool z) sizeof_work (scast nwork) (scast (nwork * 4))")
    case None
    with z show ?thesis by (simp add: thread_pool_init_def Let_def)
  next
    case (Some r)
    then obtain p rc where r: "mpp_bufpool_init alloc True pool_heap True (tpool z) sizeof_work (scast nwork) (scast (nwork * 4)) = Some (p, rc)"
      by (cases r) auto
    have neg: "\<not> pool_heap \<Longrightarrow> rc <s 0" using r by (auto simp: mpp_bufpool_init_def mpp_bufpool_init_reserve_def bind_eq_Some_conv Let_def word_sless_alt)
    show ?thesis
    proof (cases "pool_heap \<and> lock_ok \<and> calloc_ok \<and> \<not> rc <s 0")
      case False
      with neg E z r show ?thesis by (auto simp: thread_pool_init_def Let_def)
    next
      case True
      then have c: "created < unat n" "0 < ended" "ended < 2 ^ 32" using e by auto
      from DLL_INIT_ring [of "wdlls z" "work_list z"] zero_tp_list [OF z] obtain h where h: "DLL_INIT (wdlls z) (work_list z) = Some h" by blast
      have "(of_nat ended :: u32) \<noteq> 0" using c(2,3) by (simp add: word_unat_eq_iff unat_of_nat)
      with True z r h c(1) zero_tp_list [OF z] show ?thesis
        by (simp add: thread_pool_init_def Let_def init_error_def deinit_shut_def deinit_rest_def)
    qed
  qed
qed


section \<open>A pool with two threads\<close>

definition tp_zero :: thread_pool where
  "tp_zero = \<lparr>threads = False, active = 0, wdlls = [50 \<mapsto> \<lparr>dll_next = 0, dll_prev = 0\<rparr>], works = Map.empty, work_list = 50, work_pend = 0,
     tstate = TP_UNINITIALIZED, tpool = mpool0, nthreads = 0\<rparr>"

definition tp_demo_start :: tp_sys where
  "tp_demo_start = \<lparr>tps = fst (the (thread_pool_init tp_zero True (\<lambda>i. 200 + i) True True True 2 0 2 3)), nw = 2, wph = (\<lambda>_. Looping), uph = (\<lambda>_. UIdle),
     dph = DNone, scheduled = [], taken = []\<rparr>"

primrec tp_run :: "tp_event list \<Rightarrow> tp_sys \<Rightarrow> tp_sys option" where
  "tp_run [] s = Some s"
| "tp_run (e # es) s = do { s \<leftarrow> tp_step e s; tp_run es s }"

text \<open>World 5 schedules a work, which thread 0 takes; then the pool is shut down.\<close>

definition tp_events :: "tp_event list" where
  "tp_events = [WorkerPass 1, GetWork 5 300 \<lparr>w_data = 77, w_fn = 8\<rparr>, Check 5, Add 5, WorkerPass 0, WakeUp 5, WorkerDone 0, Deinit, DeinitWorkers,
     WorkerPass 0, WorkerPass 1, DeinitRest]"

definition tp_demo :: "nat \<Rightarrow> tp_sys" where
  "tp_demo n = the (tp_run (take n tp_events) tp_demo_start)"

lemma tp_demo_init: "thread_pool_init tp_zero True (\<lambda>i. 200 + i) True True True 2 0 2 3 = Some (tps tp_demo_start, 0)"
proof -
  have "map_option snd (thread_pool_init tp_zero True (\<lambda>i. 200 + i) True True True 2 0 2 3) = Some 0" by code_simp
  from run_eq [OF this] show ?thesis by (simp add: tp_demo_start_def)
qed

lemma tp_demo_initial: "tp_initial tp_demo_start"
proof -
  have "good_alloc (pool_st.truncate (tpool tp_zero)) (\<lambda>i. 200 + i) (unat (3 :: 32 word))"
    by (auto simp: good_alloc_def tp_zero_def mpool0_def pool0_def pool_st.defs)
  then have "\<exists>tp alloc created ended n nwork.
     thread_pool_init tp True alloc True True True created ended n nwork = Some (tps tp_demo_start, 0) \<and>
     2 = unat n \<and> 0 < unat n \<and> unat n < 2 ^ 31 \<and> 0 < unat nwork \<and> 4 * unat nwork < 2 ^ 31 \<and>
     dom (wdlls tp) = {work_list tp} \<and> work_list tp \<noteq> NULL \<and> works tp = Map.empty \<and>
     good_alloc (pool_st.truncate (tpool tp)) alloc (unat nwork) \<and> freelist (bp (tpool tp)) \<noteq> NULL \<and>
     dlls (qm (tpool tp)) (work_list tp) = None \<and> (\<forall>i. alloc i \<noteq> work_list tp)"
    using tp_demo_init
    by (intro exI [of _ tp_zero] exI [of _ "\<lambda>i. 200 + i"] exI [of _ "2 :: nat"] exI [of _ "0 :: nat"] exI [of _ "2 :: 32 word"] exI [of _ "3 :: 32 word"])
      (simp add: tp_zero_def mpool0_def pool0_def)
  then show ?thesis unfolding tp_initial_def by (simp add: tp_demo_start_def)
qed

lemma tp_run_snoc: "tp_run (es @ [e]) s = do { s \<leftarrow> tp_run es s; tp_step e s }"
  by (induction es arbitrary: s) (simp_all add: bind_assoc)

lemma tp_demo_step:
  assumes "n < length tp_events" and "\<not> Option.is_none (tp_run (take (Suc n) tp_events) tp_demo_start)"
  shows "tp_step (tp_events ! n) (tp_demo n) = Some (tp_demo (Suc n))"
  using assms by (auto simp: tp_demo_def take_Suc_conv_app_nth tp_run_snoc bind_eq_Some_conv Option.is_none_def)

lemma tp_demo_runs: "\<not> Option.is_none (tp_run (take (Suc 0) tp_events) tp_demo_start)" "\<not> Option.is_none (tp_run (take (Suc 1) tp_events) tp_demo_start)"
  "\<not> Option.is_none (tp_run (take (Suc 2) tp_events) tp_demo_start)" "\<not> Option.is_none (tp_run (take (Suc 3) tp_events) tp_demo_start)"
  "\<not> Option.is_none (tp_run (take (Suc 4) tp_events) tp_demo_start)" "\<not> Option.is_none (tp_run (take (Suc 5) tp_events) tp_demo_start)"
  "\<not> Option.is_none (tp_run (take (Suc 6) tp_events) tp_demo_start)" "\<not> Option.is_none (tp_run (take (Suc 7) tp_events) tp_demo_start)"
  "\<not> Option.is_none (tp_run (take (Suc 8) tp_events) tp_demo_start)" "\<not> Option.is_none (tp_run (take (Suc 9) tp_events) tp_demo_start)"
  "\<not> Option.is_none (tp_run (take (Suc 10) tp_events) tp_demo_start)" "\<not> Option.is_none (tp_run (take (Suc 11) tp_events) tp_demo_start)"
  by code_simp+

lemma tp_demo_steps:
  "tp_step (WorkerPass 1) (tp_demo 0) = Some (tp_demo 1)"
  "tp_step (GetWork 5 300 \<lparr>w_data = 77, w_fn = 8\<rparr>) (tp_demo 1) = Some (tp_demo 2)"
  "tp_step (Check 5) (tp_demo 2) = Some (tp_demo 3)"
  "tp_step (Add 5) (tp_demo 3) = Some (tp_demo 4)"
  "tp_step (WorkerPass 0) (tp_demo 4) = Some (tp_demo 5)"
  "tp_step (WakeUp 5) (tp_demo 5) = Some (tp_demo 6)"
  "tp_step (WorkerDone 0) (tp_demo 6) = Some (tp_demo 7)"
  "tp_step Deinit (tp_demo 7) = Some (tp_demo 8)"
  "tp_step DeinitWorkers (tp_demo 8) = Some (tp_demo 9)"
  "tp_step (WorkerPass 0) (tp_demo 9) = Some (tp_demo 10)"
  "tp_step (WorkerPass 1) (tp_demo 10) = Some (tp_demo 11)"
  "tp_step DeinitRest (tp_demo 11) = Some (tp_demo 12)"
  using tp_demo_runs [THEN tp_demo_step [rotated]] by (simp_all add: tp_events_def numeral_2_eq_2 [symmetric] del: tp_step.simps)

text \<open>Only world 5 uses the threads.\<close>

fun user_of :: "tp_event \<Rightarrow> nat option" where
  "user_of (GetWork u a W) = Some u"
| "user_of (GetWake u a) = Some u"
| "user_of (Check u) = Some u"
| "user_of (Add u) = Some u"
| "user_of (WakeUp u) = Some u"
| "user_of e = None"

lemma other_users:
  assumes step: "tp_step e s = Some s'" and u: "user_of e \<noteq> Some v"
  shows "uph s' v = uph s v"
proof (cases e)
  case (WorkerPass i)
  from step WorkerPass obtain tp r where r: "worker_pass (tps s) = Some (tp, r)" by (cases "worker_pass (tps s)") auto
  with step WorkerPass show ?thesis by (cases r) (auto simp: bind_eq_Some_conv)
qed (use step u in \<open>auto simp: user_got_def deinit_result_def bind_eq_Some_conv split: worker_phase.splits user_phase.splits prod.splits\<close>)

lemma tp_run_others: "tp_run es s = Some s' \<Longrightarrow> (\<And>e. e \<in> set es \<Longrightarrow> user_of e \<noteq> Some v) \<Longrightarrow> uph s' v = uph s v"
  by (induction es arbitrary: s) (auto simp: bind_eq_Some_conv simp del: tp_step.simps dest!: other_users)

lemma tp_demo_phases:
  "wph (tp_demo 0) 1 = Looping" "uph (tp_demo 1) 5 = UIdle" "dph (tp_demo 1) = DNone" "dlls (qm (tpool (tps (tp_demo 1)))) 300 = None" "work_list (tps (tp_demo 1)) = 50"
  "uph (tp_demo 2) 5 = UHas 200" "uph (tp_demo 3) 5 = UChecked 200" "wph (tp_demo 4) 0 = Looping" "uph (tp_demo 5) 5 = UAdded" "wph (tp_demo 6) 0 = Working 200"
  "dph (tp_demo 7) = DNone" "uph (tp_demo 7) 5 = UIdle" "dph (tp_demo 8) = DShut" "wph (tp_demo 9) 0 = Looping" "wph (tp_demo 10) 1 = Looping"
  "dph (tp_demo 11) = DJoin" "wph (tp_demo 11) 0 = Ended" "wph (tp_demo 11) 1 = Ended" "dph (tp_demo 12) = DDone" "wph (tp_demo 1) 1 = Blocked"
  "nw (tp_demo 0) = 2" "nw (tp_demo 1) = 2" "nw (tp_demo 4) = 2" "nw (tp_demo 6) = 2" "nw (tp_demo 9) = 2" "nw (tp_demo 10) = 2" "nw (tp_demo 11) = 2"
  by code_simp+

lemmas tp_facts = tp_demo_phases tp_demo_phases [unfolded One_nat_def]

lemma tp_demo_idle: "v \<noteq> 5 \<Longrightarrow> uph (tp_demo 7) v = UIdle"
proof -
  assume v: "v \<noteq> 5"
  have "tp_run (take 7 tp_events) tp_demo_start = Some (tp_demo 7)"
    using tp_demo_runs(7) by (auto simp: tp_demo_def Option.is_none_def)
  moreover have "\<forall>e \<in> set (take 7 tp_events). user_of e \<noteq> Some v" using v by (simp add: tp_events_def)
  ultimately have "uph (tp_demo 7) v = uph tp_demo_start v" using tp_run_others by blast
  then show ?thesis by (simp add: tp_demo_start_def)
qed

lemma tp_demo_reach: "tp_reach (tp_demo 1)" "tp_reach (tp_demo 4)" "tp_reach (tp_demo 5)" "tp_reach (tp_demo 11)"
proof -
  have "tp_demo 0 = tp_demo_start" by (simp add: tp_demo_def)
  then have 0: "tp_reach (tp_demo 0)" using tp_reach.start [OF tp_demo_initial] by simp
  note P = tp_facts
  show 1: "tp_reach (tp_demo 1)" by (rule tp_reach.event [OF 0 _ tp_demo_steps(1)]) (simp add: P)
  have 2: "tp_reach (tp_demo 2)" by (rule tp_reach.event [OF 1 _ tp_demo_steps(2)]) (simp add: P new_buf_def)
  have 3: "tp_reach (tp_demo 3)" by (rule tp_reach.event [OF 2 _ tp_demo_steps(3)]) (simp add: P)
  show 4: "tp_reach (tp_demo 4)" by (rule tp_reach.event [OF 3 _ tp_demo_steps(4)]) (simp add: P)
  show 5: "tp_reach (tp_demo 5)" by (rule tp_reach.event [OF 4 _ tp_demo_steps(5)]) (simp add: P)
  have 6: "tp_reach (tp_demo 6)" by (rule tp_reach.event [OF 5 _ tp_demo_steps(6)]) (simp add: P)
  have 7: "tp_reach (tp_demo 7)" by (rule tp_reach.event [OF 6 _ tp_demo_steps(7)]) (simp add: P)
  have "\<forall>u. uph (tp_demo 7) u = UIdle" using tp_demo_idle tp_demo_phases(12) by metis
  then have 8: "tp_reach (tp_demo 8)" by (intro tp_reach.event [OF 7 _ tp_demo_steps(8)]) (simp add: P)
  have 9: "tp_reach (tp_demo 9)" by (rule tp_reach.event [OF 8 _ tp_demo_steps(9)]) (simp add: P)
  have 10: "tp_reach (tp_demo 10)" by (rule tp_reach.event [OF 9 _ tp_demo_steps(10)]) (simp add: P)
  show "tp_reach (tp_demo 11)" by (rule tp_reach.event [OF 10 _ tp_demo_steps(11)]) (simp add: P)
qed

text \<open>
  The assertion of \<^verbatim>\<open>schedule_work\<close> looks at the state before the lock is taken. When the pool is
  shut down in between, all threads end, the work is put on the list, nobody takes it, and the assertion of
  \<^verbatim>\<open>_thread_pool_deinit\<close> that the list is empty fails.
\<close>

theorem tp_deinit_race:
  "do {
     s \<leftarrow> tp_run [GetWork 5 300 \<lparr>w_data = 77, w_fn = 8\<rparr>, Check 5, Deinit, DeinitWorkers, WorkerPass 0, WorkerPass 1, Add 5] tp_demo_start;
     Some (wph s 0, wph s 1, length (scheduled s), taken s, Option.is_none (tp_step DeinitRest s))
   } = Some (Ended, Ended, 1, [], True)"
  by code_simp

section \<open>Witnesses\<close>



theorem tp_no_lost_wakeup_witness: "scheduled (tp_demo 1) = taken (tp_demo 1)"
proof -
  have "tp_run (take 1 tp_events) tp_demo_start = Some (tp_demo 1)" using tp_demo_runs(1) by (auto simp: tp_demo_def Option.is_none_def)
  moreover have "\<forall>e \<in> set (take 1 tp_events). user_of e \<noteq> Some v" for v by (simp add: tp_events_def)
  ultimately have "uph (tp_demo 1) v = uph tp_demo_start v" for v using tp_run_others by blast
  then have "\<forall>u. uph (tp_demo 1) u = UIdle" by (simp add: tp_demo_start_def)
  then show ?thesis using tp_no_lost_wakeup [OF tp_demo_reach(1), of 1] by (simp add: tp_facts)
qed

theorem tp_shutdown_witness: "\<exists>tp. deinit_rest (tps (tp_demo 11)) = Some (tp, False)"
proof -
  have "\<forall>i < nw (tp_demo 11). wph (tp_demo 11) i = Ended" by (simp add: tp_facts numeral_2_eq_2 less_Suc_eq)
  with tp_shutdown [OF tp_demo_reach(4)] show ?thesis by (simp add: tp_facts)
qed

theorem tp_init_aborts_witness: "thread_pool_init tp_zero True (\<lambda>i. 200 + i) True True False 2 0 2 3 = None"
  by (rule tp_init_aborts) (simp_all add: tp_zero_def zero_tp_def zero_pool_def mpool0_def pool0_def)

end
