(* ===== verification/Spec2Isabelle.thy ===== *)
theory Spec2Isabelle
  imports Range_Lock Hash Mpp_Bufpool Locks Plugin_Props Plugin_Claim Rpc_Props Chan_Props Tp_Props
begin

text \<open>
  A verification library for the VMware prototype of the cache box. The program has two halves. In the
  ESX kernel, a multipathing plugin (\<^verbatim>\<open>vmware_kernel/mpp\<close>) takes SCSI commands from the storage stack and
  sends them down one of the paths of their device, or to the cache box; in user space, the I/O
  splitter (\<^verbatim>\<open>iosplitter\<close>) receives the requests and serves them with the coroutine library
  \<^verbatim>\<open>libtask\<close>. Both share a small library of containers: linked lists, queues, hash tables and pools of
  buffers; the kernel has its own copies.

  \<^bold>\<open>Conventions.\<close> Pointers are natural numbers with NULL = 0, the structs of one type live in a partial
  map from addresses to records, and every statement that can stop the program is option valued:
  \<^term>\<open>None\<close> is a failed assertion, an abort, an access through a null or dangling pointer, or a loop that
  does not end. Error codes are ordinary results. Machine integers are words of their width. What
  \<^verbatim>\<open>malloc\<close> and the calls of \<^verbatim>\<open>vmk_\<close> functions return is an argument of the model, or of an event; the
  hypotheses on these say what is documented of them (\<open>fresh_heap\<close>: memory that is returned is not in
  use; \<open>splits\<close>: a list that is split loses no element). Code that runs without giving up the processor
  (between scheduling points of \<^verbatim>\<open>libtask\<close>, or under a lock of the kernel) is one function; a system of
  tasks or worlds is a relation of steps, or a function on events, with the reachable states defined
  inductively.

  \<^bold>\<open>Theories.\<close>
  \<^item> \<open>Prelude\<close>: the option monad, assertions, stores, the collection \<open>exec\<close> of execution rules.
  \<^item> \<open>Rb_Heap\<close>, \<open>Rb_Tree\<close>, \<open>Rb_Balance\<close>, \<open>Rb_Refine\<close>, \<open>Rb_Insert\<close>, \<open>Rb_Delete\<close>, \<open>Rb_Store\<close>: the interval tree
    of \<^verbatim>\<open>iosplitter/common/range_lock.c\<close>. \<open>Rb_Heap\<close> holds the structs and the pointer primitives, \<open>Rb_Tree\<close>
    the trees they represent, with the red-black rules, \<open>Rb_Balance\<close> the two repair procedures on trees,
    \<open>Rb_Refine\<close> the representation, and \<open>Rb_Insert\<close> and \<open>Rb_Delete\<close> the operations with their refinement
    proofs. \<open>Rb_Store\<close> states the contract of the tree as the locale \<open>interval_store\<close> and interprets it.
  \<^item> \<open>Range_Lock\<close>: \<^verbatim>\<open>range_lock\<close> and \<^verbatim>\<open>range_unlock\<close>, the tasks that call them, and the invariant of the system
    of tasks.
  \<^item> \<open>Fifo\<close>: the contract of a first-in first-out list, a locale with two interpretations. \<open>Dll\<close>, \<open>Queue\<close>,
    \<open>Hash\<close>: \<^verbatim>\<open>dll.h\<close>, \<^verbatim>\<open>queue.c\<close> and \<^verbatim>\<open>hash.c\<close>; a list is a ring of pointers that represents a HOL list
    (\<open>ring\<close>), and a queue and a table are related to their contents (\<open>queue_holds\<close>, \<open>hash_holds\<close>).
  \<^item> \<open>Bufpool\<close>, \<open>Mpp_Bufpool\<close>: the pools of buffers of the two halves (\<^verbatim>\<open>bufpool.c\<close>), the first with tasks that
    sleep in \<^verbatim>\<open>bufpool_get\<close>, the second with worlds that wait and with a reserve.
  \<^item> \<open>Tasklist\<close>, \<open>Locks\<close>: the lists of tasks of \<^verbatim>\<open>libtask/task.c\<close> and the locks and condition variables made of
    them (\<^verbatim>\<open>qlock.c\<close>, \<^verbatim>\<open>rendez.c\<close>).
  \<^item> \<open>Plugin\<close>, \<open>Plugin_Paths\<close>, \<open>Plugin_Io\<close>, \<open>Plugin_Probe\<close>: the operations of \<^verbatim>\<open>mp_plugin_example.c\<close>: reservations,
    counts and queues; the choice of a path and the states of paths and devices; the way of a command;
    probing. The record \<open>plugin\<close> has one field per table of structs or list of the source.
  \<^item> \<open>Plugin_Inv\<close>, \<open>Plugin_Moves\<close>, \<open>Plugin_Ops\<close>, \<open>Plugin_Steps\<close>: the invariant \<open>Inv G s\<close> of the plugin, in which the
    ghost state \<open>G\<close> says what the operation under way has in its hands, with one lemma per way in which
    a command can move and one per operation: it succeeds and keeps the invariant. \<open>Plugin_Keeps\<close>: what the
    operations leave alone (locale \<open>frame\<close>).
  \<^item> \<open>Plugin_System\<close>, \<open>Plugin_Reach\<close>, \<open>Plugin_Props\<close>: the events, the retry world (\<^verbatim>\<open>Example_RetryWorld\<close>, one step per
    section between two lock operations), the reachable states, and the properties of the plugin.
  \<^item> \<open>Plugin_Claim\<close>: claiming and unclaiming of paths, in the sections between two calls that wait; the invariant
    of the tables of devices and paths, and what the two entry points do on each of their branches.
  \<^item> \<open>Rpc\<close>: the remote procedure calls of the I/O splitter (\<^verbatim>\<open>iosplitter/rpc/rpc.c\<close>), each function split where
    its task can be switched: messages, requests, responses, the receiver, setting a channel up. They run
    on the operations of \<open>Bufpool\<close>, \<open>Hash\<close> and \<open>Locks\<close>. \<open>Rpc_System\<close>: one end of a channel as a system of tasks,
    with the events of the tasks, of the receiver and of the handlers, when each can happen (\<open>enabled_event\<close>),
    and the reachable states. \<open>Rpc_Inv\<close>: the invariant, in parts: memory, pending requests, lock, ownership of
    the buffers (every buffer has one holder), and what each task knows of its message. \<open>Rpc_Steps\<close>, \<open>Rpc_Recv\<close>:
    every event keeps it. \<open>Rpc_Props\<close>: the properties, and the situations in which the code fails.

  \<^item> \<open>Channel\<close>: the channels of \<^verbatim>\<open>libtask/channel.c\<close>: alternatives in an array of the task, the arrays of a channel
    that point to them, the buffer as a ring, and \<^verbatim>\<open>chanalt\<close> up to the switch and after it; with the law of a
    transfer (\<open>transfer\<close>: taken @ contents' = contents @ given). \<open>Chan_System\<close>: the tasks and their events, and the
    invariant: the arrays hold exactly the alternatives of the waiting tasks, and no alternative waits that could be
    done (\<open>quiet\<close>). \<open>Chan_Inv\<close>, \<open>Chan_Steps\<close>: the loops, and every event keeps the invariant. \<open>Chan_Props\<close>: the properties.

  \<^item> \<open>Threadpool\<close>: the threads of the kernel plugin (\<^verbatim>\<open>vmware_kernel/mpp/threadpool.c\<close>), on the operations of \<open>Dll\<close> and
    \<open>Mpp_Bufpool\<close>: each function split where its world gives up the lock or waits; the worlds as a system, whose state
    also records the calls that were scheduled and made; the invariant: each work has one holder (the list, a user or
    a thread), and what a waiting or ended thread says of the list. \<open>Tp_Steps\<close>: every event keeps it. \<open>Tp_Props\<close>:
    the properties, a pool with two threads, and how setting up and shutting down can fail.

  \<^bold>\<open>Bounds and fuel.\<close> Loops over pointers are \<^verbatim>\<open>partial_function\<close>s: that they end is part of each theorem that
  gives a result. \<^verbatim>\<open>ExampleDeviceProbe\<close> can be entered again from within itself; the parameter \<open>depth\<close> bounds
  the nesting, and \<open>device_probe_returns\<close> shows that 2 is enough, because the inner call finds
  \<open>inProbe\<close> set. The plugin has at most \<open>2 ^ 31\<close> commands at a time (\<open>fresh_heap\<close>), and fewer than \<open>2 ^ 32\<close>
  \<^verbatim>\<open>RESERVE\<close> commands are sent (\<open>enabled\<close>), because a failed one is never taken off the 32-bit count.
  A channel has fewer than \<open>2 ^ 29\<close> calls in parallel (\<open>rpc_initial\<close>), and its 32-bit sequence number does not come
  round to that of a request that is still there (\<open>new_seqid\<close>). The peer of a channel is assumed to send whole
  headers, and only responses that are waited for (\<open>good_header\<close>, \<open>honest\<close>), and the receiver to find a buffer:
  \<open>rpc_bad_header\<close>, \<open>rpc_orphan_response\<close> and \<open>rpc_receiver_no_buffer\<close> show what happens otherwise. The buffer of a
  channel of \<^verbatim>\<open>libtask\<close> has fewer than \<open>2 ^ 31\<close> elements, and no task writes to an element or frees a channel that a
  waiting alternative uses (\<open>chan_enabled\<close>).
  A pool of threads has at least one and fewer than \<open>2 ^ 31\<close> threads and works (\<open>tp_initial\<close>), and is not shut down while
  a world has a work that it has not scheduled (\<open>tp_enabled\<close>): \<open>tp_deinit_race\<close> shows what happens otherwise.

  \<^bold>\<open>Simplifications.\<close> In the plugin, a completion, the issue of a command, task management and a probe are
  single steps, although they take and release several locks; the retry world, which runs for long and
  concurrently with all of them, is split into its sections. Logging, statistics and the accounting
  of CPU time are left out.

  \<^bold>\<open>Not modelled.\<close> The world that scans for devices, loading and unloading of
  the plugin, its management interface and the test code in \<^verbatim>\<open>mp_plugin_example.c\<close>; the remote procedure
  calls of the kernel (\<^verbatim>\<open>vmware_kernel/mpp/rpc.c\<close>), statistics, the network; of \<^verbatim>\<open>libtask\<close>, the scheduler,
  timers, printing and the asynchronous I/O; the main programs. Functions that only print, and
  tests, are left out everywhere.
\<close>

end
